(* ===== verification/Prelude.thy ===== *)
theory Prelude
  imports Main "HOL-Library.Word" "HOL-Library.Sublist"
begin

text \<open>
  What every other theory of the development shares: the machine types of the sources, the
  result type of C code that may have no defined behaviour, checked reads and writes of
  buffers, bounded loops over such code with their invariant rules, little-endian decoding,
  and the generic facts on lists and words that the component proofs rest on.
\<close>

unbundle bit_operations_syntax

section \<open>Machine types\<close>

text \<open>
  The widths of the sources: \<open>UINT8\<close>/\<open>CHAR8\<close>/\<open>uchar\<close>, \<open>UINT16\<close>/\<open>CHAR16\<close>/\<open>ushort\<close>,
  \<open>UINT32\<close>/\<open>uint\<close> and \<open>UINTN\<close>/\<open>UINT64\<close> (the applications are built for X64). A signed type
  of the same width is the same word, read with \<^term>\<open>sint\<close>.
\<close>

type_synonym u8 = "8 word"
type_synonym u16 = "16 word"
type_synonym u32 = "32 word"
type_synonym u64 = "64 word"

section \<open>Results of C code\<close>

text \<open>
  Where a C program has no defined behaviour (an access outside an object, a null or an
  indeterminate pointer, a division by zero, an overflow of a signed type) or stops in
  \<open>panic\<close>, the model returns \<^term>\<open>Inl\<close> of a fault. \<open>Blocked\<close> is a call that waits for an
  event that never comes, \<open>Diverges\<close> a loop whose fuel has run out.
\<close>

datatype fault =
    OutOfBounds
  | NullPointer
  | Indeterminate
  | DivideByZero
  | SignedOverflow
  | Blocked
  | Diverges
  | Panic string

type_synonym 'a result = "fault + 'a"

definition bindE :: "'a result \<Rightarrow> ('a \<Rightarrow> 'b result) \<Rightarrow> 'b result" where
  "bindE m f = (case m of Inl e \<Rightarrow> Inl e | Inr x \<Rightarrow> f x)"

lemma bindE_simps [simp]:
  "bindE (Inl e) f = Inl e"
  "bindE (Inr x) f = f x"
  by (simp_all add: bindE_def)

lemma bindE_Inr_iff [simp]: "bindE m f = Inr y \<longleftrightarrow> (\<exists>x. m = Inr x \<and> f x = Inr y)"
  by (cases m) (auto simp: bindE_def)

lemma bindE_Inl_iff: "bindE m f = Inl e \<longleftrightarrow> m = Inl e \<or> (\<exists>x. m = Inr x \<and> f x = Inl e)"
  by (cases m) (auto simp: bindE_def)

lemma bindE_cong [fundef_cong]:
  assumes "m = m'" and "\<And>x. m' = Inr x \<Longrightarrow> f x = f' x"
  shows "bindE m f = bindE m' f'"
  using assms by (cases m') (auto simp: bindE_def)

lemma bindE_assoc: "bindE (bindE m f) g = bindE m (\<lambda>x. bindE (f x) g)"
  by (cases m) (auto simp: bindE_def)

definition ok :: "'a result \<Rightarrow> bool" where
  "ok r \<longleftrightarrow> (\<exists>x. r = Inr x)"

lemma ok_simps [simp]: "ok (Inr x)" "\<not> ok (Inl e)"
  by (simp_all add: ok_def)

lemma ok_bindE: "ok (bindE m f) \<longleftrightarrow> (\<exists>x. m = Inr x \<and> ok (f x))"
  by (cases m) (auto simp: ok_def)

section \<open>Checked access to buffers\<close>

text \<open>
  The contents of an allocated object are a list of its elements. \<open>rd xs i\<close> is the C
  expression \<open>xs[i]\<close> and \<open>wr xs i v\<close> the assignment \<open>xs[i] = v\<close>.
\<close>

definition rd :: "'a list \<Rightarrow> nat \<Rightarrow> 'a result" where
  "rd xs i = (if i < length xs then Inr (xs ! i) else Inl OutOfBounds)"

definition wr :: "'a list \<Rightarrow> nat \<Rightarrow> 'a \<Rightarrow> 'a list result" where
  "wr xs i v = (if i < length xs then Inr (xs[i := v]) else Inl OutOfBounds)"

lemma rd_Inr [simp]: "rd xs i = Inr v \<longleftrightarrow> i < length xs \<and> v = xs ! i"
  by (auto simp: rd_def)

lemma rd_in [simp]: "i < length xs \<Longrightarrow> rd xs i = Inr (xs ! i)"
  by (simp add: rd_def)

lemma rd_out: "length xs \<le> i \<Longrightarrow> rd xs i = Inl OutOfBounds"
  by (simp add: rd_def)

lemma wr_Inr [simp]: "wr xs i v = Inr ys \<longleftrightarrow> i < length xs \<and> ys = xs[i := v]"
  by (auto simp: wr_def)

lemma wr_in [simp]: "i < length xs \<Longrightarrow> wr xs i v = Inr (xs[i := v])"
  by (simp add: wr_def)

lemma wr_out: "length xs \<le> i \<Longrightarrow> wr xs i v = Inl OutOfBounds"
  by (simp add: wr_def)

text \<open>A pointer to a pool allocation: its address and the elements it holds. Address 0 is \<open>NULL\<close>.\<close>

type_synonym 'a buf = "u64 \<times> 'a list"

definition rdb :: "'a buf \<Rightarrow> nat \<Rightarrow> 'a result" where
  "rdb b i = (if fst b = 0 then Inl NullPointer else rd (snd b) i)"

definition wrb :: "'a buf \<Rightarrow> nat \<Rightarrow> 'a \<Rightarrow> 'a buf result" where
  "wrb b i v = (if fst b = 0 then Inl NullPointer
                else bindE (wr (snd b) i v) (\<lambda>xs. Inr (fst b, xs)))"

lemma rdb_in [simp]: "a \<noteq> 0 \<Longrightarrow> i < length xs \<Longrightarrow> rdb (a, xs) i = Inr (xs ! i)"
  by (simp add: rdb_def)

lemma wrb_in [simp]: "a \<noteq> 0 \<Longrightarrow> i < length xs \<Longrightarrow> wrb (a, xs) i v = Inr (a, xs[i := v])"
  by (simp add: wrb_def)

lemma rdb_Inr: "rdb b i = Inr v \<longleftrightarrow> fst b \<noteq> 0 \<and> i < length (snd b) \<and> v = snd b ! i"
  by (auto simp: rdb_def)

lemma wrb_Inr:
  "wrb b i v = Inr b' \<longleftrightarrow> fst b \<noteq> 0 \<and> i < length (snd b) \<and> b' = (fst b, (snd b)[i := v])"
  by (auto simp: wrb_def)

text \<open>An object whose value has never been stored is indeterminate: using it is a fault.\<close>

definition use :: "'a option \<Rightarrow> 'a result" where
  "use x = (case x of None \<Rightarrow> Inl Indeterminate | Some v \<Rightarrow> Inr v)"

lemma use_simps [simp]: "use None = Inl Indeterminate" "use (Some v) = Inr v"
  by (simp_all add: use_def)

lemma use_Inr [simp]: "use x = Inr v \<longleftrightarrow> x = Some v"
  by (cases x) auto

section \<open>Bounded loops\<close>

text \<open>
  A C loop whose bounds its body does not change, \<open>for (i = a; i < b; ++i) body\<close>, is
  \<open>loopE body [a..<b]\<close>: the body maps the loop's state to the next one or to a fault.
\<close>

fun loopE :: "('i \<Rightarrow> 's \<Rightarrow> 's result) \<Rightarrow> 'i list \<Rightarrow> 's \<Rightarrow> 's result" where
  "loopE f [] s = Inr s"
| "loopE f (i # is) s = bindE (f i s) (loopE f is)"

lemma loopE_append: "loopE f (is @ js) s = bindE (loopE f is s) (loopE f js)"
proof (induction "is" arbitrary: s)
  case Nil
  then show ?case by simp
next
  case (Cons i "is")
  then show ?case by (cases "f i s") auto
qed

lemma loopE_snoc: "loopE f (is @ [i]) s = bindE (loopE f is s) (f i)"
  by (cases "loopE f is s") (auto simp: loopE_append bindE_def split: sum.splits)

lemma loopE_upt_Cons: "a < b \<Longrightarrow> loopE f [a..<b] s = bindE (f a s) (loopE f [Suc a..<b])"
  by (simp add: upt_conv_Cons del: upt_Suc)

lemma loopE_upt_snoc: "a \<le> b \<Longrightarrow> loopE f [a..<Suc b] s = bindE (loopE f [a..<b] s) (f b)"
  by (simp add: loopE_snoc)

lemma loopE_upt_split:
  "a \<le> b \<Longrightarrow> b \<le> c \<Longrightarrow> loopE f [a..<c] s = bindE (loopE f [a..<b] s) (loopE f [b..<c])"
  by (metis loopE_append upt_add_eq_append le_add_diff_inverse)

text \<open>A loop cut at two iterations, one in the middle and the last one.\<close>

lemma loopE_upt_cut:
  assumes "a \<le> p" and "p < q"
  shows "loopE f [a..<Suc q] s = bindE (loopE f [a..<p] s) (\<lambda>s.
    bindE (f p s) (\<lambda>s. bindE (loopE f [Suc p..<q] s) (f q)))"
proof -
  have rest: "loopE f [p..<Suc q] s = bindE (f p s) (\<lambda>s. bindE (loopE f [Suc p..<q] s) (f q))" for s
    using assms(2)
    by (subst loopE_upt_Cons) (auto simp: loopE_upt_snoc simp del: upt_Suc intro!: bindE_cong)
  have "loopE f [a..<Suc q] s = bindE (loopE f [a..<p] s) (loopE f [p..<Suc q])"
    using assms by (intro loopE_upt_split) simp_all
  then show ?thesis by (simp only: rest cong: bindE_cong)
qed

lemma loopE_cong [fundef_cong]:
  assumes "is = js" and "s = t" and "\<And>i s. i \<in> set js \<Longrightarrow> f i s = g i s"
  shows "loopE f is s = loopE g js t"
proof -
  have "(\<And>i s. i \<in> set js \<Longrightarrow> f i s = g i s) \<Longrightarrow> loopE f js t = loopE g js t"
    by (induction js arbitrary: t) (auto intro: bindE_cong)
  with assms show ?thesis by blast
qed

text \<open>A loop over the elements of a list by their index.\<close>

lemma loopE_map: "loopE f (map g is) s = loopE (\<lambda>i. f (g i)) is s"
  by (induction "is" arbitrary: s) (auto intro: bindE_cong)

lemma loopE_nth:
  assumes "\<And>i s. i < length xs \<Longrightarrow> f i s = g (xs ! i) s"
  shows "loopE f [0..<length xs] s = loopE g xs s"
proof -
  have "loopE g xs s = loopE g (map ((!) xs) [0..<length xs]) s" by (simp only: map_nth)
  also have "\<dots> = loopE f [0..<length xs] s"
    unfolding loopE_map by (rule loopE_cong) (use assms in auto)
  finally show ?thesis ..
qed

lemma loopE_product:
  "loopE (\<lambda>x. loopE (f x) ys) xs s = loopE (\<lambda>(x, y). f x y) (List.product xs ys) s"
proof (induction xs arbitrary: s)
  case Nil
  then show ?case by simp
next
  case (Cons x xs)
  have "loopE (\<lambda>(x, y). f x y) (map (Pair x) ys) s = loopE (f x) ys s" by (simp add: loopE_map)
  with Cons show ?case by (auto simp: loopE_append intro: bindE_cong)
qed

text \<open>
  The rule for a counting loop: an invariant that holds at the start and that every
  iteration keeps (each iteration also has to be free of faults) holds at the end.
\<close>

lemma loopE_upt_total:
  assumes "P a s" and "a \<le> b"
    and step: "\<And>i s. a \<le> i \<Longrightarrow> i < b \<Longrightarrow> P i s \<Longrightarrow> \<exists>s'. f i s = Inr s' \<and> P (Suc i) s'"
  shows "\<exists>s'. loopE f [a..<b] s = Inr s' \<and> P b s'"
  using \<open>a \<le> b\<close> step
proof (induction b)
  case 0
  with \<open>P a s\<close> show ?case by simp
next
  case (Suc b)
  show ?case
  proof (cases "a = Suc b")
    case True
    with \<open>P a s\<close> show ?thesis by simp
  next
    case False
    with Suc.prems have "a \<le> b" by simp
    with Suc obtain s1 where s1: "loopE f [a..<b] s = Inr s1" "P b s1"
      by (metis less_Suc_eq)
    with Suc.prems(2) \<open>a \<le> b\<close> obtain s2 where "f b s1 = Inr s2" "P (Suc b) s2"
      by blast
    with s1 \<open>a \<le> b\<close> show ?thesis by (simp add: loopE_snoc)
  qed
qed

lemma loopE_upt_partial:
  assumes "loopE f [a..<b] s = Inr t" and "P a s" and "a \<le> b"
    and step: "\<And>i s s'. a \<le> i \<Longrightarrow> i < b \<Longrightarrow> P i s \<Longrightarrow> f i s = Inr s' \<Longrightarrow> P (Suc i) s'"
  shows "P b t"
  using assms(1,3) step
proof (induction b arbitrary: t)
  case 0
  with \<open>P a s\<close> show ?case by simp
next
  case (Suc b)
  show ?case
  proof (cases "a = Suc b")
    case True
    with \<open>P a s\<close> Suc.prems show ?thesis by simp
  next
    case False
    with Suc.prems have "a \<le> b" by simp
    with Suc.prems(1) obtain s1 where s1: "loopE f [a..<b] s = Inr s1" "f b s1 = Inr t"
      by (auto simp: loopE_snoc)
    have "P b s1"
      using Suc.IH [OF s1(1) \<open>a \<le> b\<close>] Suc.prems(3) by simp
    with s1 Suc.prems(3) \<open>a \<le> b\<close> show ?thesis by blast
  qed
qed

text \<open>The same for a loop over any list, with an invariant that does not mention the index.\<close>

lemma loopE_inv_total:
  assumes "P s" and "\<And>i s. i \<in> set is \<Longrightarrow> P s \<Longrightarrow> \<exists>s'. f i s = Inr s' \<and> P s'"
  shows "\<exists>s'. loopE f is s = Inr s' \<and> P s'"
  using assms
proof (induction "is" arbitrary: s)
  case Nil
  then show ?case by simp
next
  case (Cons i "is")
  then obtain s1 where "f i s = Inr s1" "P s1" by (meson list.set_intros(1))
  with Cons show ?case by auto
qed

lemma loopE_inv_partial:
  assumes "loopE f is s = Inr t" and "P s"
    and "\<And>i s s'. i \<in> set is \<Longrightarrow> P s \<Longrightarrow> f i s = Inr s' \<Longrightarrow> P s'"
  shows "P t"
  using assms
proof (induction "is" arbitrary: s)
  case Nil
  then show ?case by simp
next
  case (Cons i "is")
  from Cons.prems(1) obtain s1 where s1: "f i s = Inr s1" "loopE f is s1 = Inr t" by auto
  have "P s1" using Cons.prems(3) [OF _ Cons.prems(2) s1(1)] by simp
  have keep: "\<And>j u u'. j \<in> set is \<Longrightarrow> P u \<Longrightarrow> f j u = Inr u' \<Longrightarrow> P u'"
    using Cons.prems(3) by (meson list.set_intros(2))
  show ?case by (rule Cons.IH [OF s1(2) \<open>P s1\<close> keep])
qed

text \<open>A loop that ends without a fault has run every one of its iterations without one.\<close>

lemma loopE_visits:
  assumes "loopE f is s = Inr t" and "P s" and "i \<in> set is"
    and "\<And>i s s'. i \<in> set is \<Longrightarrow> P s \<Longrightarrow> f i s = Inr s' \<Longrightarrow> P s'"
  shows "\<exists>u u'. P u \<and> f i u = Inr u'"
proof -
  from \<open>i \<in> set is\<close> obtain js ks where "is": "is = js @ i # ks"
    by (meson split_list)
  with assms(1) obtain u u' where u: "loopE f js s = Inr u" "f i u = Inr u'"
    by (auto simp: loopE_append)
  have keep: "\<And>j v v'. j \<in> set js \<Longrightarrow> P v \<Longrightarrow> f j v = Inr v' \<Longrightarrow> P v'"
    by (rule assms(4)) (auto simp: "is")
  from u(1) assms(2) keep have "P u" by (rule loopE_inv_partial)
  with u(2) show ?thesis by blast
qed

text \<open>A loop that faults has an iteration that faults.\<close>

lemma loopE_faults:
  assumes "loopE f is s = Inl e" and "P s"
    and "\<And>i s s'. i \<in> set is \<Longrightarrow> P s \<Longrightarrow> f i s = Inr s' \<Longrightarrow> P s'"
  shows "\<exists>i \<in> set is. \<exists>u. P u \<and> f i u = Inl e"
  using assms
proof (induction "is" arbitrary: s)
  case Nil
  then show ?case by simp
next
  case (Cons i "is")
  show ?case
  proof (cases "f i s")
    case (Inl e')
    with Cons.prems show ?thesis by auto
  next
    case (Inr s1)
    with Cons.prems(1) have l: "loopE f is s1 = Inl e" by simp
    have "P s1" using Cons.prems(3) [OF _ Cons.prems(2) Inr] by simp
    have keep: "\<And>j v v'. j \<in> set is \<Longrightarrow> P v \<Longrightarrow> f j v = Inr v' \<Longrightarrow> P v'"
      by (rule Cons.prems(3)) auto
    from Cons.IH [OF l \<open>P s1\<close> keep] show ?thesis by auto
  qed
qed

section \<open>Little-endian values in byte buffers\<close>

fun le_bytes :: "u8 list \<Rightarrow> nat" where
  "le_bytes [] = 0"
| "le_bytes (b # bs) = unat b + 256 * le_bytes bs"

fun le_encode :: "nat \<Rightarrow> nat \<Rightarrow> u8 list" where
  "le_encode 0 v = []"
| "le_encode (Suc n) v = word_of_nat (v mod 256) # le_encode n (v div 256)"

lemma length_le_encode [simp]: "length (le_encode n v) = n"
  by (induction n arbitrary: v) auto

lemma unat_word_of_nat_mod256 [simp]: "unat (word_of_nat (v mod 256) :: u8) = v mod 256"
  by (simp add: unat_of_nat)

lemma le_bytes_encode: "v < 256 ^ n \<Longrightarrow> le_bytes (le_encode n v) = v"
proof (induction n arbitrary: v)
  case 0
  then show ?case by simp
next
  case (Suc n)
  then have "v div 256 < 256 ^ n"
    by (metis div_mult_self_is_m less_mult_imp_div_less mult.commute power_Suc)
  with Suc.IH have "le_bytes (le_encode n (v div 256)) = v div 256" by blast
  then show ?case by simp
qed

lemma le_bytes_less: "le_bytes bs < 256 ^ length bs"
proof (induction bs)
  case Nil
  then show ?case by simp
next
  case (Cons b bs)
  have "unat b < 256" using unsigned_less [of b] by simp
  with Cons show ?case by simp
qed

text \<open>Reading a little-endian field of \<open>n\<close> bytes at offset \<open>off\<close> of a byte buffer.\<close>

definition le_field :: "u8 list \<Rightarrow> nat \<Rightarrow> nat \<Rightarrow> nat result" where
  "le_field bs off n =
     (if off + n \<le> length bs then Inr (le_bytes (take n (drop off bs))) else Inl OutOfBounds)"

lemma le_field_append:
  assumes "length pre = off" and "v < 256 ^ n"
  shows "le_field (pre @ le_encode n v @ post) off n = Inr v"
  using assms by (simp add: le_field_def le_bytes_encode)

text \<open>A structure is a list of fields, each a size in bytes and a value.\<close>

lemma length_concat_fields: "length (concat (map (\<lambda>(n, v). le_encode n v) fs)) = sum_list (map fst fs)"
  by (induction fs) auto

lemma le_field_struct:
  assumes "k < length fs" and "fs ! k = (n, v)" and "v < 256 ^ n"
    and "off = sum_list (map fst (take k fs))"
  shows "le_field (concat (map (\<lambda>(n, v). le_encode n v) fs) @ rest) off n = Inr v"
proof -
  have "fs = take k fs @ (n, v) # drop (Suc k) fs"
    using assms(1,2) by (metis id_take_nth_drop)
  then have "concat (map (\<lambda>(n, v). le_encode n v) fs) @ rest =
      concat (map (\<lambda>(n, v). le_encode n v) (take k fs)) @ le_encode n v @
      (concat (map (\<lambda>(n, v). le_encode n v) (drop (Suc k) fs)) @ rest)"
    by (metis (no_types, lifting) append.assoc case_prod_conv concat.simps(2) concat_append list.simps(9) map_append)
  then show ?thesis
    using assms(3,4) by (simp only: le_field_append length_concat_fields)
qed

section \<open>Lists\<close>

lemma nth_list_update_if: "i < length xs \<Longrightarrow> xs[i := v] ! j = (if i = j then v else xs ! j)"
  by (cases "i = j") auto

text \<open>The element of a list that is the one of number \<open>n\<close> with a property.\<close>

lemma filter_nth_split:
  assumes "n < length (filter P xs)"
  obtains pre q post where "xs = pre @ q # post" and "P q" and "length (filter P pre) = n"
  using assms
proof (induction xs arbitrary: n thesis)
  case Nil
  then show ?case by simp
next
  case (Cons x xs)
  show ?case
  proof (cases "P x")
    case False
    with Cons.prems(2) have "n < length (filter P xs)" by simp
    from Cons.IH [OF _ this] obtain pre q post
      where "xs = pre @ q # post" "P q" "length (filter P pre) = n" by blast
    with False show ?thesis by (intro Cons.prems(1) [of "x # pre" q post]) auto
  next
    case True
    show ?thesis
    proof (cases n)
      case 0
      with True show ?thesis by (intro Cons.prems(1) [of "[]" x xs]) auto
    next
      case (Suc m)
      with True Cons.prems(2) have "m < length (filter P xs)" by simp
      from Cons.IH [OF _ this] obtain pre q post
        where "xs = pre @ q # post" "P q" "length (filter P pre) = m" by blast
      with True Suc show ?thesis by (intro Cons.prems(1) [of "x # pre" q post]) auto
    qed
  qed
qed

text \<open>When all the elements with a property sit at indices below their number, they are a prefix.\<close>

lemma filter_prefix:
  assumes "\<forall>k < length xs. P (xs ! k) \<longrightarrow> k < length (filter P xs)"
  shows "filter P xs = take (length (filter P xs)) xs"
proof -
  let ?n = "length (filter P xs)"
  have "\<not> P x" if "x \<in> set (drop ?n xs)" for x
  proof -
    from that obtain i where "i < length xs - ?n" "x = xs ! (?n + i)"
      by (auto simp: in_set_conv_nth)
    then have i: "?n + i < length xs" "x = xs ! (?n + i)" by linarith+
    from assms i(1) have "P (xs ! (?n + i)) \<longrightarrow> ?n + i < ?n" by blast
    with i(2) show ?thesis by simp
  qed
  then have "filter P (drop ?n xs) = []" by (metis filter_False)
  moreover have "filter P (take ?n xs) @ filter P (drop ?n xs) = filter P xs"
    by (simp flip: filter_append)
  ultimately have eq: "filter P (take ?n xs) = filter P xs" by simp
  have "?n \<le> length xs" by (rule length_filter_le)
  then have "length (take ?n xs) = length (filter P (take ?n xs))" using eq by simp
  then have "filter P (take ?n xs) = take ?n xs"
    by (metis filter_True length_filter_less less_irrefl)
  with eq show ?thesis by simp
qed

text \<open>Row-major indexing of a table of \<open>w\<close> columns.\<close>

lemma row_major_less:
  assumes "(x::nat) < w" and "y < h"
  shows "y * w + x < w * h"
proof -
  have "y * w + x < y * w + w" using assms by simp
  also have "\<dots> = (y + 1) * w" by simp
  also have "\<dots> \<le> h * w" using assms(2) by (intro mult_le_mono1) simp
  finally show ?thesis by (simp add: mult.commute)
qed

lemma row_major_inj:
  assumes "(x::nat) < w" and "x' < w"
  shows "y * w + x = y' * w + x' \<longleftrightarrow> y = y' \<and> x = x'"
proof
  assume eq: "y * w + x = y' * w + x'"
  have "(y * w + x) div w = y" "(y' * w + x') div w = y'"
    using assms by (simp_all add: div_mult_self3)
  with eq have "y = y'" by simp
  with eq show "y = y' \<and> x = x'" by simp
qed simp

lemma row_major_decomp:
  assumes "(i::nat) < w * h"
  shows "i div w < h" and "i mod w < w" and "i = (i div w) * w + i mod w"
proof -
  from assms have "0 < w" by (cases w) auto
  then show "i mod w < w" by simp
  from assms show "i div w < h" by (metis less_mult_imp_div_less mult.commute)
  show "i = (i div w) * w + i mod w" by simp
qed

text \<open>Indexing the concatenation of pieces of one length.\<close>

lemma length_concat_uniform: "(\<And>x. x \<in> set xs \<Longrightarrow> length x = w) \<Longrightarrow> length (concat xs) = w * length xs"
  by (induction xs) auto

lemma nth_concat_uniform:
  assumes "\<forall>x \<in> set xs. length x = w" and "k < length xs" and "j < w"
  shows "concat xs ! (k * w + j) = xs ! k ! j"
  using assms
proof (induction xs arbitrary: k)
  case Nil
  then show ?case by simp
next
  case (Cons x xs)
  show ?case
  proof (cases k)
    case 0
    with Cons.prems show ?thesis by (simp add: nth_append)
  next
    case (Suc k')
    have "length x = w" using Cons.prems(1) by simp
    then have "concat (x # xs) ! (k * w + j) = concat xs ! (k' * w + j)"
      by (simp add: Suc nth_append)
    with Suc Cons show ?thesis by simp
  qed
qed

section \<open>Words\<close>

lemma unat_u64_of_nat [simp]: "n < 2 ^ 64 \<Longrightarrow> unat (word_of_nat n :: u64) = n"
  by (simp add: unat_of_nat)

lemma unat_u64_less: "unat (w :: u64) < 2 ^ 64"
  using unsigned_less [of w] by simp

lemma unat_u64_of_int: "0 \<le> c \<Longrightarrow> c < 2 ^ 64 \<Longrightarrow> unat (word_of_int c :: u64) = nat c"
  using unat_u64_of_nat [of "nat c"] by simp

lemma sint_nonneg_u32: "unat (x :: u32) < 2 ^ 31 \<Longrightarrow> sint x = int (unat x)"
proof -
  assume "unat x < 2 ^ 31"
  then have "int (unat x) < int (2 ^ 31)" by (simp only: of_nat_less_iff)
  then have "uint x < 2 ^ 31" by simp
  moreover have "- (2 ^ 31) \<le> uint x" by (rule order_trans [of _ 0]) simp_all
  ultimately have "signed_take_bit 31 (uint x) = uint x"
    by (intro signed_take_bit_int_eq_self) simp_all
  then show ?thesis by (simp add: sint_uint)
qed

lemma sint_small_u64: "unat (x :: u64) < 2 ^ 63 \<Longrightarrow> sint x = int (unat x)"
proof -
  assume "unat x < 2 ^ 63"
  then have "int (unat x) < int (2 ^ 63)" by (simp only: of_nat_less_iff)
  then have "uint x < 2 ^ 63" by simp
  moreover have "- (2 ^ 63) \<le> uint x" by (rule order_trans [of _ 0]) simp_all
  ultimately have "signed_take_bit 63 (uint x) = uint x"
    by (intro signed_take_bit_int_eq_self) simp_all
  then show ?thesis by (simp add: sint_uint)
qed

lemma unat_add_no_wrap:
  "unat a + unat b < 2 ^ LENGTH('a) \<Longrightarrow> unat (a + b) = unat a + unat b" for a b :: "'a::len word"
  by (simp add: unat_word_ariths)

lemma unat_mult_no_wrap:
  "unat a * unat b < 2 ^ LENGTH('a) \<Longrightarrow> unat (a * b) = unat a * unat b" for a b :: "'a::len word"
  by (simp add: unat_word_ariths)

text \<open>The number of elements of \<open>c\<close> bytes in a block of \<open>n * c\<close> bytes.\<close>

lemma array_size:
  fixes c :: u64
  assumes "n * unat c < 2 ^ 64" and "0 < unat c"
  shows "unat (word_of_nat n * c) div unat c = n"
proof -
  have "n \<le> n * unat c" using assms(2) by (cases "unat c") auto
  then have "unat (word_of_nat n :: u64) = n" using assms(1) by (intro unat_u64_of_nat) linarith
  with assms show ?thesis by (simp add: unat_mult_no_wrap)
qed

text \<open>The index expression \<open>i * w + j\<close> in \<open>UINTN\<close> arithmetic, for loop counters \<open>i\<close> and \<open>j\<close>.\<close>

definition idx64 :: "nat \<Rightarrow> u64 \<Rightarrow> nat \<Rightarrow> nat" where
  "idx64 i w j = unat (word_of_nat i * w + word_of_nat j)"

text \<open>The index \<open>y * w + x\<close> of row-major code, in wrapping arithmetic, when the table fits.\<close>

lemma unat_row_major:
  fixes y w x :: u64
  assumes "unat x < unat w" and "unat y < h" and "unat w * h < 2 ^ 64"
  shows "unat (y * w + x) = unat y * unat w + unat x"
proof -
  have lt: "unat y * unat w + unat x < unat w * h"
    using assms(1,2) by (rule row_major_less)
  then have "unat y * unat w < 2 ^ LENGTH(64)" using assms(3) by simp
  then have m: "unat (y * w) = unat y * unat w" by (rule unat_mult_no_wrap)
  from lt assms(3) m have "unat (y * w) + unat x < 2 ^ LENGTH(64)" by simp
  then show ?thesis using m by (simp add: unat_add_no_wrap)
qed

lemma idx64_eq:
  assumes "j < unat w" and "i < h" and "unat w * h < 2 ^ 64"
  shows "idx64 i w j = i * unat w + j"
proof -
  have j: "j < 2 ^ 64" using assms(1) unat_u64_less [of w] by linarith
  have "h \<le> unat w * h" using assms(1) by (cases "unat w") auto
  then have i: "i < 2 ^ 64" using assms(2,3) by linarith
  have "unat (word_of_nat i * w + word_of_nat j) =
      unat (word_of_nat i :: u64) * unat w + unat (word_of_nat j :: u64)"
    using assms i j by (intro unat_row_major [where h = h]) simp_all
  with i j show ?thesis by (simp add: idx64_def)
qed

end
