(* ===== verification/Uefi.thy ===== *)
theory Uefi
  imports Prelude
begin

text \<open>
  The UEFI environment of the applications. The firmware and the EDK2 libraries are not part
  of the repository: the calls the applications make are the fields of the record \<open>fw\<close>, an
  argument of every definition that uses them. Each call takes the state of the world, of an
  unspecified type \<open>'w\<close>, and returns the next one, so any firmware behaviour is an instance.
  What a proof relies on is a named hypothesis on the record (\<open>pool_ok\<close> below and its
  siblings in the component theories).
\<close>

section \<open>Status codes, strings, pixels\<close>

type_synonym EFI_STATUS = u64
type_synonym EFI_HANDLE = u64
type_synonym CHAR16s = "u16 list option" \<comment> \<open>\<open>CHAR16 *\<close> to a terminated string; \<open>None\<close> is \<open>NULL\<close>\<close>

definition EFI_ERROR :: "EFI_STATUS \<Rightarrow> bool" where
  "EFI_ERROR s \<longleftrightarrow> sint s < 0"

definition EFI_SUCCESS :: EFI_STATUS where "EFI_SUCCESS = 0"
definition EFI_INVALID_PARAMETER :: EFI_STATUS where "EFI_INVALID_PARAMETER = 0x8000000000000002"
definition EFI_UNSUPPORTED :: EFI_STATUS where "EFI_UNSUPPORTED = 0x8000000000000003"
definition EFI_OUT_OF_RESOURCES :: EFI_STATUS where "EFI_OUT_OF_RESOURCES = 0x8000000000000009"

lemma EFI_ERROR_codes [simp]:
  "\<not> EFI_ERROR EFI_SUCCESS"
  "EFI_ERROR EFI_INVALID_PARAMETER"
  "EFI_ERROR EFI_UNSUPPORTED"
  "EFI_ERROR EFI_OUT_OF_RESOURCES"
  by (simp_all add: EFI_ERROR_def EFI_SUCCESS_def EFI_INVALID_PARAMETER_def
      EFI_UNSUPPORTED_def EFI_OUT_OF_RESOURCES_def)

definition wide :: "string \<Rightarrow> u16 list" where
  "wide s = map (\<lambda>c. word_of_nat (of_char c)) s"

definition ascii :: "char \<Rightarrow> u8" where
  "ascii c = word_of_nat (of_char c)"

record EFI_GRAPHICS_OUTPUT_BLT_PIXEL =
  Blue :: u8
  Green :: u8
  Red :: u8
  Reserved :: u8

type_synonym pixel = EFI_GRAPHICS_OUTPUT_BLT_PIXEL

definition zero_pixel :: pixel where
  "zero_pixel = \<lparr>Blue = 0, Green = 0, Red = 0, Reserved = 0\<rparr>"

section \<open>The calls\<close>

datatype parg = PNum u64 | PStr CHAR16s

type_synonym GUID = "u8 list"

text \<open>A node of a device path: its type, its subtype and, for a hard drive node, the signature.\<close>

record dp_node =
  dp_type :: u8
  dp_subtype :: u8
  dp_signature :: GUID

definition MEDIA_DEVICE_PATH :: u8 where "MEDIA_DEVICE_PATH = 4"
definition MEDIA_HARDDRIVE_DP :: u8 where "MEDIA_HARDDRIVE_DP = 1"

datatype blt_operation = EfiBltVideoFill | EfiBltBufferToVideo

text \<open>
  The arguments of \<open>Blt\<close>: buffer, operation, source x and y, destination x and y, width,
  height and delta.
\<close>

record blt_args =
  blt_buffer :: "pixel buf"
  blt_op :: blt_operation
  blt_src :: "u64 \<times> u64"
  blt_dst :: "u64 \<times> u64"
  blt_size :: "u64 \<times> u64"
  blt_delta :: u64

text \<open>
  \<open>AllocatePool\<close> returns an address and the contents the block happens to have;
  \<open>AllocateZeroPool\<close> returns an address, the contents being zero; \<open>ReallocatePool\<close> moves a
  block (its contents are copied, see \<open>AddElement\<close>). A call that writes an out-parameter
  returns its value. \<open>Read\<close> takes the size of the buffer and returns the bytes it stored
  there. \<open>FileHandleGetInfo\<close> returns the address of the information block and the file size in
  it. \<open>CatSPrint\<close> takes the string to append to, the format and its arguments.
  \<open>AsciiStrToUnicodeStrS\<close> takes the bytes from the source pointer on, the destination pointer
  and the size of the destination, and returns the string it stored there.
  \<open>StartImage\<close> takes the options that were put into the loaded image before.
\<close>

record 'w fw =
  SetAttribute :: "u64 \<Rightarrow> 'w \<Rightarrow> 'w"
  Print :: "string \<Rightarrow> parg list \<Rightarrow> 'w \<Rightarrow> 'w"
  CatSPrint :: "CHAR16s \<Rightarrow> CHAR16s \<Rightarrow> parg list \<Rightarrow> 'w \<Rightarrow> CHAR16s \<times> 'w"
  AllocatePool :: "u64 \<Rightarrow> 'w \<Rightarrow> u64 \<times> u8 list \<times> 'w"
  AllocateZeroPool :: "u64 \<Rightarrow> 'w \<Rightarrow> u64 \<times> 'w"
  ReallocatePool :: "u64 \<Rightarrow> u64 \<Rightarrow> u64 \<Rightarrow> 'w \<Rightarrow> u64 \<times> 'w"
  FreePool :: "u64 \<Rightarrow> 'w \<Rightarrow> 'w"
  HandleProtocol_SimpleFileSystem :: "EFI_HANDLE \<Rightarrow> 'w \<Rightarrow> EFI_STATUS \<times> u64 \<times> 'w"
  OpenVolume :: "u64 \<Rightarrow> 'w \<Rightarrow> EFI_STATUS \<times> u64 \<times> 'w"
  Open :: "u64 \<Rightarrow> u16 list \<Rightarrow> 'w \<Rightarrow> EFI_STATUS \<times> u64 \<times> 'w"
  FileHandleGetInfo :: "u64 \<Rightarrow> 'w \<Rightarrow> u64 \<times> u64 \<times> 'w"
  Read :: "u64 \<Rightarrow> u64 \<Rightarrow> 'w \<Rightarrow> EFI_STATUS \<times> u8 list \<times> 'w"
  Close :: "u64 \<Rightarrow> 'w \<Rightarrow> 'w"
  HandleProtocol_LoadedImage :: "EFI_HANDLE \<Rightarrow> 'w \<Rightarrow> EFI_STATUS \<times> EFI_HANDLE \<times> 'w"
  LocateHandleBuffer_SimpleFileSystem :: "'w \<Rightarrow> EFI_STATUS \<times> EFI_HANDLE list \<times> 'w"
  DevicePathFromHandle :: "EFI_HANDLE \<Rightarrow> dp_node list option"
  AsciiStrToUnicodeStrS :: "u8 list \<Rightarrow> u64 \<Rightarrow> u64 \<Rightarrow> EFI_STATUS \<times> u16 list"
  AsciiStrLen :: "u8 list \<Rightarrow> u64"
  StrToGuid :: "CHAR16s \<Rightarrow> GUID"
  CompareGuid :: "GUID \<Rightarrow> GUID \<Rightarrow> bool"
  StrLen :: "u16 list \<Rightarrow> u64"
  LoadImage :: "EFI_HANDLE \<Rightarrow> EFI_HANDLE \<Rightarrow> CHAR16s \<Rightarrow> 'w \<Rightarrow> EFI_STATUS \<times> EFI_HANDLE \<times> 'w"
  StartImage :: "EFI_HANDLE \<Rightarrow> CHAR16s \<Rightarrow> u32 \<Rightarrow> 'w \<Rightarrow> 'w"
  rand :: "'w \<Rightarrow> u32 \<times> 'w"
  srand_time :: "'w \<Rightarrow> 'w"
  ScreenResolution :: "'w \<Rightarrow> u32 \<times> u32"
  Blt :: "blt_args \<Rightarrow> 'w \<Rightarrow> 'w"

text \<open>
  Memory allocation as documented, when it does not fail: every request is served by a block
  at a non-null address, of at least the requested size.
\<close>

definition pool_ok :: "('w, 'x) fw_scheme \<Rightarrow> bool" where
  "pool_ok fw \<longleftrightarrow>
     (\<forall>n w. fst (AllocatePool fw n w) \<noteq> 0 \<and> length (fst (snd (AllocatePool fw n w))) = unat n) \<and>
     (\<forall>n w. fst (AllocateZeroPool fw n w) \<noteq> 0) \<and>
     (\<forall>a n m w. fst (ReallocatePool fw n m a w) \<noteq> 0)"

text \<open>
  The conversion of a terminated 8-bit string, as documented: when the destination is large
  enough, every character is widened.
\<close>

definition strings_ok :: "('w, 'x) fw_scheme \<Rightarrow> bool" where
  "strings_ok fw \<longleftrightarrow>
     (\<forall>s rest d n. 0 \<notin> set s \<longrightarrow> d \<noteq> 0 \<longrightarrow> length s < unat n \<longrightarrow>
        AsciiStrToUnicodeStrS fw (s @ 0 # rest) d n = (EFI_SUCCESS, map ucast s)) \<and>
     (\<forall>s rest. 0 \<notin> set s \<longrightarrow> length s < 2 ^ 63 \<longrightarrow>
        AsciiStrLen fw (s @ 0 # rest) = word_of_nat (length s))"

text \<open>\<open>AllocateZeroPool(n)\<close> as an array of elements of \<open>sz\<close> bytes each, all zero.\<close>

definition AllocateZeroArray ::
  "('w, 'x) fw_scheme \<Rightarrow> nat \<Rightarrow> 'a \<Rightarrow> u64 \<Rightarrow> 'w \<Rightarrow> 'a buf \<times> 'w" where
  "AllocateZeroArray fw sz zero n w =
     (case AllocateZeroPool fw n w of (a, w') \<Rightarrow> ((a, replicate (unat n div sz) zero), w'))"

lemma AllocateZeroArray_ok:
  assumes "pool_ok fw"
  obtains a w' where "AllocateZeroArray fw sz zero n w = ((a, replicate (unat n div sz) zero), w')"
    and "a \<noteq> 0"
  using assms by (cases "AllocateZeroPool fw n w")
    (force simp: AllocateZeroArray_def pool_ok_def dest!: spec [where x = n] spec [where x = w])

lemma AllocatePool_ok:
  assumes "pool_ok fw"
  obtains a c w' where "AllocatePool fw n w = (a, c, w')" and "a \<noteq> 0" and "length c = unat n"
  using assms by (cases "AllocatePool fw n w")
    (force simp: pool_ok_def dest!: spec [where x = n] spec [where x = w])

lemma strings_okD:
  assumes "strings_ok fw" and "0 \<notin> set s"
  shows "d \<noteq> 0 \<Longrightarrow> length s < unat n \<Longrightarrow>
      AsciiStrToUnicodeStrS fw (s @ 0 # rest) d n = (EFI_SUCCESS, map ucast s)"
    and "length s < 2 ^ 63 \<Longrightarrow> AsciiStrLen fw (s @ 0 # rest) = word_of_nat (length s)"
  using assms by (auto simp: strings_ok_def)

end
