(* ===== verification/Common.thy ===== *)
theory Common
  imports Uefi
begin

text \<open>
  \<open>BootManager2D/src/Common.c\<close>: the error report, the guarded release of pool memory and the
  growing array.
\<close>

definition MyFreePool :: "('w, 'x) fw_scheme \<Rightarrow> u64 \<Rightarrow> 'w \<Rightarrow> 'w" where
  "MyFreePool fw Pointer w = (if Pointer \<noteq> 0 then FreePool fw Pointer w else w)"

definition EFI_LIGHTRED :: u64 where "EFI_LIGHTRED = 0x0C"
definition EFI_LIGHTGRAY :: u64 where "EFI_LIGHTGRAY = 0x07"
definition EFI_BACKGROUND_BLACK :: u64 where "EFI_BACKGROUND_BLACK = 0x00"

definition CheckError ::
  "('w, 'x) fw_scheme \<Rightarrow> EFI_STATUS \<Rightarrow> CHAR16s \<Rightarrow> 'w \<Rightarrow> bool \<times> 'w" where
  "CheckError fw Status Location w =
     (if \<not> EFI_ERROR Status then (False, w)
      else
        (let w = SetAttribute fw (EFI_LIGHTRED OR EFI_BACKGROUND_BLACK) w;
             w = Print fw ''Error: %r %s\<newline>'' [PNum Status, PStr Location] w;
             w = SetAttribute fw (EFI_LIGHTGRAY OR EFI_BACKGROUND_BLACK) w
         in (True, w)))"

text \<open>
  \<open>AddElement\<close> on an array of pointers. The grown block holds the old elements and one whose
  value is indeterminate until it is assigned, which the code does at once; the model puts
  \<open>fresh\<close> there.
\<close>

definition AddElement ::
  "('w, 'x) fw_scheme \<Rightarrow> 'a \<Rightarrow> 'a buf \<Rightarrow> u64 \<Rightarrow> 'a \<Rightarrow> 'w \<Rightarrow> ('a buf \<times> u64 \<times> 'w) result" where
  "AddElement fw fresh lst ListSize Element w =
     (let (grown, w) =
        (if ListSize = 0
         then (case AllocatePool fw (8 * (ListSize + 1)) w of
                 (a, _, w) \<Rightarrow> ((a, replicate (unat (8 * (ListSize + 1)) div 8) fresh), w))
         else (case ReallocatePool fw (8 * ListSize) (8 * (ListSize + 1)) (fst lst) w of
                 (a, w) \<Rightarrow> ((a, take (unat (8 * ListSize) div 8) (snd lst) @ [fresh]), w)))
      in bindE (wrb grown (unat ListSize) Element) (\<lambda>lst. Inr (lst, ListSize + 1, w)))"

lemma CheckError_iff [simp]: "fst (CheckError fw Status Location w) = EFI_ERROR Status"
  by (simp add: CheckError_def Let_def)

lemma CheckError_ok [simp]: "\<not> EFI_ERROR Status \<Longrightarrow> CheckError fw Status Location w = (False, w)"
  by (simp add: CheckError_def)

text \<open>
  Appending keeps the elements and adds the new one at the end, as long as the array is the
  one whose length the counter holds.
\<close>

lemma AddElement_appends:
  assumes "pool_ok fw" and "length xs = unat n" and "unat n + 1 < 2 ^ 61"
  shows "\<exists>a' w'. AddElement fw fresh (a, xs) n e w = Inr ((a', xs @ [e]), n + 1, w') \<and> a' \<noteq> 0"
proof (cases "n = 0")
  case True
  then obtain a' c w' where al: "AllocatePool fw 8 w = (a', c, w')" and "a' \<noteq> 0"
    using assms(1) by (metis pool_ok_def prod.collapse)
  with True assms(2) show ?thesis by (simp add: AddElement_def)
next
  case False
  obtain a' w' where al: "ReallocatePool fw (8 * n) (8 * (n + 1)) a w = (a', w')" and "a' \<noteq> 0"
    using assms(1) by (metis pool_ok_def prod.collapse)
  have "unat (8 * n) = 8 * unat n"
    using assms(3) by (simp add: unat_mult_no_wrap)
  with al \<open>a' \<noteq> 0\<close> False assms(2) show ?thesis
    by (simp add: AddElement_def wrb_def list_update_append)
qed

end
