(* ===== verification/FileSystems.thy ===== *)
theory FileSystems
  imports Common
begin

text \<open>
  \<open>BootManager2D/src/FileSystems.c\<close>: reading a whole file from a partition, finding the file
  system the application was started from, and listing the hard drive partitions.
  The out-parameters a call leaves alone are \<^term>\<open>None\<close> in its result. Every caller passes
  addresses of its own variables, so only the file name can be \<open>NULL\<close>.
\<close>

section \<open>Reading a file\<close>

definition ReadFile ::
  "('w, 'x) fw_scheme \<Rightarrow> EFI_HANDLE \<Rightarrow> CHAR16s \<Rightarrow> 'w
    \<Rightarrow> (EFI_STATUS \<times> u8 buf option \<times> u64 option \<times> 'w) result" where
  "ReadFile fw PartitionHandle Filename w =
     (case Filename of
        None \<Rightarrow> Inr (EFI_INVALID_PARAMETER, None, None, w)
      | Some name \<Rightarrow>
       (case HandleProtocol_SimpleFileSystem fw PartitionHandle w of (Status, SimpleFileSystem, w) \<Rightarrow>
        case CheckError fw Status (Some (wide ''while getting file system from handle'')) w of (failed, w) \<Rightarrow>
        if failed then Inr (Status, None, None, w) else
        case OpenVolume fw SimpleFileSystem w of (Status, Root, w) \<Rightarrow>
        case CheckError fw Status (Some (wide ''while opening the root directory'')) w of (failed, w) \<Rightarrow>
        if failed then Inr (Status, None, None, w) else
        case Open fw Root name w of (Status, File, w) \<Rightarrow>
        case CheckError fw Status (Some (wide ''while opening the file'')) w of (failed, w) \<Rightarrow>
        if failed then Inr (Status, None, None, w) else
        case FileHandleGetInfo fw File w of (fileInfo, FileSize, w) \<Rightarrow>
        if fileInfo = 0 then Inl NullPointer else
        let w = MyFreePool fw fileInfo w in
        case AllocateZeroArray fw 1 0 FileSize w of (Data, w) \<Rightarrow>
        case Read fw File FileSize w of (Status, bytes, w) \<Rightarrow>
        if fst Data = 0 then Inl NullPointer else
        let Data = (fst Data, bytes @ drop (length bytes) (snd Data));
            Size = word_of_nat (length bytes) in
        case CheckError fw Status (Some (wide ''while reading the file'')) w of (failed, w) \<Rightarrow>
        if failed then Inr (Status, Some Data, Some Size, w) else
        Inr (Status, Some Data, Some Size, Close fw Root (Close fw File w))))"

text \<open>
  The file system protocol as documented, for a partition that holds a file: opening it
  succeeds, its information block says how long it is, and reading that many bytes gives them.
\<close>

definition file_at :: "('w, 'x) fw_scheme \<Rightarrow> EFI_HANDLE \<Rightarrow> u16 list \<Rightarrow> u8 list \<Rightarrow> bool" where
  "file_at fw h name bytes \<longleftrightarrow> length bytes < 2 ^ 64 \<and>
     (\<forall>w. \<exists>fs w1. HandleProtocol_SimpleFileSystem fw h w = (EFI_SUCCESS, fs, w1) \<and>
     (\<forall>w. \<exists>root w2. OpenVolume fw fs w = (EFI_SUCCESS, root, w2) \<and>
     (\<forall>w. \<exists>f w3. Open fw root name w = (EFI_SUCCESS, f, w3) \<and>
       (\<forall>w. \<exists>info w4. FileHandleGetInfo fw f w = (info, word_of_nat (length bytes), w4) \<and> info \<noteq> 0) \<and>
       (\<forall>w. \<exists>w5. Read fw f (word_of_nat (length bytes)) w = (EFI_SUCCESS, bytes, w5)))))"

lemma ReadFile_contents:
  assumes "pool_ok fw" and "file_at fw h name bytes"
  shows "\<exists>a w'. ReadFile fw h (Some name) w =
      Inr (EFI_SUCCESS, Some (a, bytes), Some (word_of_nat (length bytes)), w') \<and> a \<noteq> 0"
proof -
  let ?n = "word_of_nat (length bytes) :: u64"
  from assms(2) obtain fs w1 where h: "HandleProtocol_SimpleFileSystem fw h w = (EFI_SUCCESS, fs, w1)"
    and root: "\<forall>w. \<exists>root w2. OpenVolume fw fs w = (EFI_SUCCESS, root, w2) \<and>
       (\<forall>w. \<exists>f w3. Open fw root name w = (EFI_SUCCESS, f, w3) \<and>
         (\<forall>w. \<exists>info w4. FileHandleGetInfo fw f w = (info, ?n, w4) \<and> info \<noteq> 0) \<and>
         (\<forall>w. \<exists>w5. Read fw f ?n w = (EFI_SUCCESS, bytes, w5)))"
    unfolding file_at_def by meson
  from root obtain rt w2 where r: "OpenVolume fw fs w1 = (EFI_SUCCESS, rt, w2)"
    and opens: "\<forall>w. \<exists>f w3. Open fw rt name w = (EFI_SUCCESS, f, w3) \<and>
         (\<forall>w. \<exists>info w4. FileHandleGetInfo fw f w = (info, ?n, w4) \<and> info \<noteq> 0) \<and>
         (\<forall>w. \<exists>w5. Read fw f ?n w = (EFI_SUCCESS, bytes, w5))"
    by meson
  from opens obtain f w3 where o: "Open fw rt name w2 = (EFI_SUCCESS, f, w3)"
    and info: "\<forall>w. \<exists>info w4. FileHandleGetInfo fw f w = (info, ?n, w4) \<and> info \<noteq> 0"
    and rd: "\<forall>w. \<exists>w5. Read fw f ?n w = (EFI_SUCCESS, bytes, w5)"
    by meson
  from info obtain info w4 where i: "FileHandleGetInfo fw f w3 = (info, ?n, w4)" "info \<noteq> 0" by meson
  obtain a wa where al: "AllocateZeroArray fw 1 (0::u8) ?n (MyFreePool fw info w4) =
      ((a, replicate (unat ?n div 1) 0), wa)" and "a \<noteq> 0"
    using AllocateZeroArray_ok [OF assms(1)] by metis
  from rd obtain w5 where "Read fw f ?n wa = (EFI_SUCCESS, bytes, w5)" by meson
  moreover have "unat ?n = length bytes" using assms(2) by (simp add: file_at_def)
  ultimately show ?thesis
    using h r o i al \<open>a \<noteq> 0\<close> by (simp add: ReadFile_def)
qed

section \<open>The file system of the running image\<close>

text \<open>The global \<open>SelfFSHandle\<close> is an argument and part of the result.\<close>

definition LocateCurFSHandle ::
  "('w, 'x) fw_scheme \<Rightarrow> EFI_HANDLE \<Rightarrow> EFI_HANDLE \<Rightarrow> 'w \<Rightarrow> EFI_STATUS \<times> EFI_HANDLE \<times> 'w" where
  "LocateCurFSHandle fw gImageHandle SelfFSHandle w =
     (case HandleProtocol_LoadedImage fw gImageHandle w of (Status, DeviceHandle, w) \<Rightarrow>
      if \<not> EFI_ERROR Status then (Status, DeviceHandle, w) else (Status, SelfFSHandle, w))"

section \<open>The partitions\<close>

record PARTITION =
  handle :: EFI_HANDLE
  guid :: "GUID option"

definition zero_partition :: PARTITION where
  "zero_partition = \<lparr>handle = 0, guid = None\<rparr>"

definition is_harddrive :: "dp_node \<Rightarrow> bool" where
  "is_harddrive n \<longleftrightarrow> dp_type n = MEDIA_DEVICE_PATH \<and> dp_subtype n = MEDIA_HARDDRIVE_DP"

definition path_nodes :: "('w, 'x) fw_scheme \<Rightarrow> EFI_HANDLE \<Rightarrow> dp_node list" where
  "path_nodes fw h = (case DevicePathFromHandle fw h of None \<Rightarrow> [] | Some ns \<Rightarrow> ns)"

text \<open>
  The first pass counts the handles whose path has a hard drive node: it walks the nodes of
  the path and stops at the first such node.
\<close>

definition has_harddrive :: "('w, 'x) fw_scheme \<Rightarrow> EFI_HANDLE \<Rightarrow> bool" where
  "has_harddrive fw h \<longleftrightarrow> list_ex is_harddrive (path_nodes fw h)"

definition count_harddrives :: "('w, 'x) fw_scheme \<Rightarrow> EFI_HANDLE list \<Rightarrow> nat" where
  "count_harddrives fw hs = length (filter (has_harddrive fw) hs)"

text \<open>
  The second pass stores every handle that has a hard drive node, at the index the handle has
  among all the handles.
\<close>

definition store_partition ::
  "('w, 'x) fw_scheme \<Rightarrow> EFI_HANDLE list \<Rightarrow> nat \<Rightarrow> PARTITION buf \<Rightarrow> PARTITION buf result" where
  "store_partition fw hs HandleIndex Partitions =
     bindE (rd hs HandleIndex) (\<lambda>DeviceHandle.
       loopE (\<lambda>Path Partitions.
           if is_harddrive Path
           then wrb Partitions HandleIndex \<lparr>handle = DeviceHandle, guid = Some (dp_signature Path)\<rparr>
           else Inr Partitions)
         (path_nodes fw DeviceHandle) Partitions)"

definition LocateFSPartitions ::
  "('w, 'x) fw_scheme \<Rightarrow> 'w \<Rightarrow> (EFI_STATUS \<times> PARTITION buf option \<times> u64 \<times> 'w) result" where
  "LocateFSPartitions fw w =
     (case LocateHandleBuffer_SimpleFileSystem fw w of (Status, AllHandlesWithFS, w) \<Rightarrow>
      if EFI_ERROR Status then Inr (Status, None, 0, w) else
      let PartitionsCount = word_of_nat (count_harddrives fw AllHandlesWithFS) in
      case AllocateZeroArray fw 16 zero_partition (PartitionsCount * 16) w of (Partitions, w) \<Rightarrow>
      if fst Partitions = 0 then Inr (EFI_OUT_OF_RESOURCES, Some Partitions, PartitionsCount, w) else
      bindE (loopE (store_partition fw AllHandlesWithFS) [0..<length AllHandlesWithFS] Partitions)
        (\<lambda>Partitions. Inr (Status, Some Partitions, PartitionsCount, w)))"

text \<open>The hard drive node of a path that counts, the last one, and the partition it gives.\<close>

definition partition_of :: "('w, 'x) fw_scheme \<Rightarrow> EFI_HANDLE \<Rightarrow> PARTITION" where
  "partition_of fw h =
     \<lparr>handle = h, guid = Some (dp_signature (last (filter is_harddrive (path_nodes fw h))))\<rparr>"

lemma store_nodes:
  assumes "a \<noteq> 0" and "k < length r"
  shows "loopE (\<lambda>n p. if is_harddrive n then wrb p k (f n) else Inr p) ns (a, r) =
    Inr (a, if list_ex is_harddrive ns then r[k := f (last (filter is_harddrive ns))] else r)"
  using assms(2)
proof (induction ns arbitrary: r)
  case Nil
  then show ?case by simp
next
  case (Cons n ns)
  then show ?case using assms(1)
    by (auto simp: list_ex_iff filter_empty_conv)
qed

lemma store_nodes_out:
  assumes "a \<noteq> 0" and "length r \<le> k" and "list_ex is_harddrive ns"
  shows "loopE (\<lambda>n p. if is_harddrive n then wrb p k (f n) else Inr p) ns (a, r) = Inl OutOfBounds"
  using assms(3)
proof (induction ns)
  case Nil
  then show ?case by simp
next
  case (Cons n ns)
  then show ?case using assms(1,2) by (auto simp: wrb_def wr_out)
qed

lemma store_nodes_none:
  "\<not> list_ex is_harddrive ns \<Longrightarrow>
    loopE (\<lambda>n p. if is_harddrive n then wrb p k (f n) else Inr p) ns p = Inr p"
  by (induction ns) auto

lemma store_partition_eq:
  assumes "a \<noteq> 0" and "k < length hs"
  shows "store_partition fw hs k (a, r) =
    (if \<not> has_harddrive fw (hs ! k) then Inr (a, r)
     else if k < length r then Inr (a, r[k := partition_of fw (hs ! k)])
     else Inl OutOfBounds)"
  using assms
  by (simp add: store_partition_def has_harddrive_def partition_of_def store_nodes store_nodes_out
      store_nodes_none)

text \<open>
  The second pass over the handles: it is free of faults exactly when every handle with a hard
  drive has an index below the number of such handles.
\<close>

definition harddrives_first :: "('w, 'x) fw_scheme \<Rightarrow> EFI_HANDLE list \<Rightarrow> bool" where
  "harddrives_first fw hs \<longleftrightarrow>
     (\<forall>k < length hs. has_harddrive fw (hs ! k) \<longrightarrow> k < count_harddrives fw hs)"

lemma store_partitions_ok:
  assumes "a \<noteq> 0" and "\<forall>k < length hs. has_harddrive fw (hs ! k) \<longrightarrow> k < length r"
  shows "\<exists>r'. loopE (store_partition fw hs) [0..<length hs] (a, r) = Inr (a, r') \<and> length r' = length r \<and>
    (\<forall>k < length r. r' ! k =
       (if k < length hs \<and> has_harddrive fw (hs ! k) then partition_of fw (hs ! k) else r ! k))"
proof -
  define P where "P n s \<longleftrightarrow> (\<exists>r'. s = (a, r') \<and> length r' = length r \<and>
      (\<forall>k < length r. r' ! k =
         (if k < n \<and> has_harddrive fw (hs ! k) then partition_of fw (hs ! k) else r ! k)))" for n s
  have "\<exists>s'. loopE (store_partition fw hs) [0..<length hs] (a, r) = Inr s' \<and> P (length hs) s'"
    by (rule loopE_upt_total [where P = P])
      (use assms in \<open>auto simp: P_def store_partition_eq nth_list_update_if less_Suc_eq\<close>)
  then show ?thesis by (auto simp: P_def)
qed

lemma store_partitions_out:
  assumes "a \<noteq> 0" and "k < length hs" and "has_harddrive fw (hs ! k)" and "length r \<le> k"
  shows "loopE (store_partition fw hs) [0..<length hs] (a, r) = Inl OutOfBounds"
proof -
  define P where "P s \<longleftrightarrow> fst s = a \<and> length (snd s) = length r" for s :: "PARTITION buf"
  have step: "store_partition fw hs i s = Inr s' \<Longrightarrow> P s \<Longrightarrow> P s'"
    and bad: "store_partition fw hs i s = Inl e \<Longrightarrow> P s \<Longrightarrow> e = OutOfBounds"
    if "i \<in> set [0..<length hs]" for i s s' e
    using that assms(1) store_partition_eq [OF assms(1), of i hs fw "snd s"]
    by (cases s; auto simp: P_def split: if_splits)+
  have at_k: "P s \<Longrightarrow> store_partition fw hs k s = Inl OutOfBounds" for s
    using assms by (cases s) (simp add: P_def store_partition_eq)
  have "P (a, r)" by (simp add: P_def)
  show ?thesis
  proof (cases "loopE (store_partition fw hs) [0..<length hs] (a, r)")
    case (Inl e)
    from loopE_faults [where P = P, OF Inl \<open>P (a, r)\<close>] step obtain i u
      where "i \<in> set [0..<length hs]" "P u" "store_partition fw hs i u = Inl e" by blast
    with bad Inl show ?thesis by blast
  next
    case (Inr t)
    from loopE_visits [where P = P and i = k, OF Inr \<open>P (a, r)\<close>] assms(2) step
    obtain u u' where "P u" "store_partition fw hs k u = Inr u'" by auto
    with at_k show ?thesis by simp
  qed
qed

lemma LocateFSPartitions_safe_iff:
  assumes "pool_ok fw" and "LocateHandleBuffer_SimpleFileSystem fw w = (EFI_SUCCESS, hs, w0)"
    and "length hs < 2 ^ 60"
  shows "ok (LocateFSPartitions fw w) \<longleftrightarrow> harddrives_first fw hs"
    and "\<not> harddrives_first fw hs \<Longrightarrow> LocateFSPartitions fw w = Inl OutOfBounds"
    and "harddrives_first fw hs \<Longrightarrow> \<exists>a w'. LocateFSPartitions fw w = Inr (EFI_SUCCESS,
      Some (a, map (partition_of fw) (filter (has_harddrive fw) hs)),
      word_of_nat (count_harddrives fw hs), w') \<and> a \<noteq> 0"
proof -
  let ?n = "count_harddrives fw hs"
  have "?n \<le> length hs" by (simp add: count_harddrives_def)
  with assms(3) have n: "unat (word_of_nat ?n * 16 :: u64) div 16 = ?n"
    by (simp add: unat_word_ariths unat_of_nat)
  obtain a w1 where al: "AllocateZeroArray fw 16 zero_partition (word_of_nat ?n * 16) w0 =
      ((a, replicate ?n zero_partition), w1)" and "a \<noteq> 0"
    using AllocateZeroArray_ok [OF assms(1)] n by metis
  have run: "LocateFSPartitions fw w =
      bindE (loopE (store_partition fw hs) [0..<length hs] (a, replicate ?n zero_partition))
        (\<lambda>p. Inr (EFI_SUCCESS, Some p, word_of_nat ?n, w1))"
    using assms(2) al \<open>a \<noteq> 0\<close> by (simp add: LocateFSPartitions_def)
  show out: "LocateFSPartitions fw w = Inl OutOfBounds" if "\<not> harddrives_first fw hs"
    using that store_partitions_out [OF \<open>a \<noteq> 0\<close>, of _ hs fw "replicate ?n zero_partition"] run
    by (auto simp: harddrives_first_def)
  show res: "\<exists>a w'. LocateFSPartitions fw w = Inr (EFI_SUCCESS,
      Some (a, map (partition_of fw) (filter (has_harddrive fw) hs)), word_of_nat ?n, w') \<and> a \<noteq> 0"
    if "harddrives_first fw hs"
  proof -
    from that store_partitions_ok [OF \<open>a \<noteq> 0\<close>, of hs fw "replicate ?n zero_partition"] obtain r'
      where r': "loopE (store_partition fw hs) [0..<length hs] (a, replicate ?n zero_partition) = Inr (a, r')"
        and len: "length r' = ?n"
        and nth: "\<forall>k < ?n. r' ! k = (if k < length hs \<and> has_harddrive fw (hs ! k)
            then partition_of fw (hs ! k) else zero_partition)"
      by (auto simp: harddrives_first_def)
    have "r' = map (partition_of fw) (filter (has_harddrive fw) hs)"
    proof -
      have first: "filter (has_harddrive fw) hs = take ?n hs"
        using that filter_prefix [of hs "has_harddrive fw"]
        by (simp add: harddrives_first_def count_harddrives_def)
      have "has_harddrive fw (hs ! k)" if "k < ?n" for k
      proof -
        have "hs ! k \<in> set (take ?n hs)"
          using that \<open>?n \<le> length hs\<close> by (auto simp: in_set_conv_nth)
        then show ?thesis by (simp flip: first)
      qed
      then show ?thesis
        using first len nth \<open>?n \<le> length hs\<close> by (intro nth_equalityI) auto
    qed
    with run r' \<open>a \<noteq> 0\<close> show ?thesis by auto
  qed
  show "ok (LocateFSPartitions fw w) \<longleftrightarrow> harddrives_first fw hs"
    using out res by (metis ok_simps)
qed

end
