(* ===== verification/Table_Loops.thy ===== *)
theory Table_Loops
  imports Common
begin

text \<open>
  The rules for the double loops that fill row-major tables: images, maps and screens.
\<close>

text \<open>
  A double loop that stores, for some of the pairs \<open>(y, x)\<close>, one value at a place of a table
  that belongs to this pair alone leaves each of these values at its place and the other
  places as they were. \<open>mk y x r\<close> is the
  state of the loop before the iteration \<open>(y, x)\<close>, with the table \<open>r\<close>.
\<close>

lemma scatter_loop_frame:
  fixes step :: "nat \<Rightarrow> nat \<Rightarrow> 's \<Rightarrow> 's result" and mk :: "nat \<Rightarrow> nat \<Rightarrow> 'a list \<Rightarrow> 's"
  assumes step: "\<And>y x r. y < h \<Longrightarrow> x < w \<Longrightarrow> length r = n \<Longrightarrow>
      step y x (mk y x r) = Inr (mk y (Suc x) (if c y x then r[pos y x := v y x] else r))"
    and wrap: "\<And>y r. mk y w r = mk (Suc y) 0 r"
    and inj: "\<And>y x y' x'. \<lbrakk>y < h; x < w; c y x; y' < h; x' < w; c y' x'; pos y x = pos y' x'\<rbrakk>
      \<Longrightarrow> y = y' \<and> x = x'"
    and bound: "\<And>y x. y < h \<Longrightarrow> x < w \<Longrightarrow> c y x \<Longrightarrow> pos y x < n"
    and len: "length r = n"
  shows "\<exists>r'. loopE (\<lambda>y. loopE (\<lambda>x. step y x) [0..<w]) [0..<h] (mk 0 0 r) = Inr (mk h 0 r') \<and>
      length r' = n \<and> (\<forall>y < h. \<forall>x < w. c y x \<longrightarrow> r' ! pos y x = v y x) \<and>
      (\<forall>k. (\<forall>y < h. \<forall>x < w. c y x \<longrightarrow> pos y x \<noteq> k) \<longrightarrow> r' ! k = r ! k)"
proof -
  define filled where "filled y x s \<longleftrightarrow> (\<exists>r'. s = mk y x r' \<and> length r' = n \<and>
      (\<forall>y' < h. \<forall>x' < w. y' < y \<or> (y' = y \<and> x' < x) \<longrightarrow> c y' x' \<longrightarrow> r' ! pos y' x' = v y' x') \<and>
      (\<forall>k. (\<forall>y < h. \<forall>x < w. c y x \<longrightarrow> pos y x \<noteq> k) \<longrightarrow> r' ! k = r ! k))"
    for y x and s :: 's
  have cell: "\<exists>s'. step y x s = Inr s' \<and> filled y (Suc x) s'" if "y < h" "x < w" "filled y x s" for y x s
  proof -
    from that(3) obtain r1 where r1: "s = mk y x r1" "length r1 = n"
      and before: "\<And>y' x'. \<lbrakk>y' < h; x' < w; y' < y \<or> (y' = y \<and> x' < x); c y' x'\<rbrakk>
        \<Longrightarrow> r1 ! pos y' x' = v y' x'"
      and other: "\<And>k. (\<forall>y < h. \<forall>x < w. c y x \<longrightarrow> pos y x \<noteq> k) \<Longrightarrow> r1 ! k = r ! k"
      by (auto simp: filled_def)
    have "(if c y x then r1[pos y x := v y x] else r1) ! pos y' x' = v y' x'"
      if "y' < h" "x' < w" "y' < y \<or> (y' = y \<and> x' < Suc x)" "c y' x'" for y' x'
      using that before [OF that(1,2) _ that(4)] inj [OF that(1,2,4) \<open>y < h\<close> \<open>x < w\<close>] r1(2)
        bound [OF \<open>y < h\<close> \<open>x < w\<close>] less_Suc_eq
      by (auto simp: nth_list_update_if)
    moreover have "(if c y x then r1[pos y x := v y x] else r1) ! k = r ! k"
      if "\<forall>y < h. \<forall>x < w. c y x \<longrightarrow> pos y x \<noteq> k" for k
      using that other [OF that] \<open>y < h\<close> \<open>x < w\<close> by auto
    ultimately show ?thesis
      using step [OF \<open>y < h\<close> \<open>x < w\<close> r1(2)] r1
      by (intro exI [of _ "mk y (Suc x) (if c y x then r1[pos y x := v y x] else r1)"])
        (auto simp: filled_def)
  qed
  have row: "\<exists>s'. loopE (\<lambda>x. step y x) [0..<w] s = Inr s' \<and> filled (Suc y) 0 s'"
    if "y < h" "filled y 0 s" for y s
  proof -
    have "\<exists>s'. loopE (\<lambda>x. step y x) [0..<w] s = Inr s' \<and> filled y w s'"
      by (rule loopE_upt_total [where P = "filled y"]) (use that cell in auto)
    then obtain s' where "loopE (\<lambda>x. step y x) [0..<w] s = Inr s'" "filled y w s'" by blast
    moreover from this(2) have "filled (Suc y) 0 s'"
      unfolding filled_def wrap [symmetric] by (auto simp: less_Suc_eq)
    ultimately show ?thesis by blast
  qed
  have "\<exists>s'. loopE (\<lambda>y. loopE (\<lambda>x. step y x) [0..<w]) [0..<h] (mk 0 0 r) = Inr s' \<and> filled h 0 s'"
    by (rule loopE_upt_total [where P = "\<lambda>y. filled y 0"]) (use len row in \<open>auto simp: filled_def\<close>)
  then show ?thesis by (auto simp: filled_def)
qed

lemma scatter_loop:
  fixes step :: "nat \<Rightarrow> nat \<Rightarrow> 's \<Rightarrow> 's result" and mk :: "nat \<Rightarrow> nat \<Rightarrow> 'a list \<Rightarrow> 's"
  assumes step: "\<And>y x r. y < h \<Longrightarrow> x < w \<Longrightarrow> length r = n \<Longrightarrow>
      step y x (mk y x r) = Inr (mk y (Suc x) (if c y x then r[pos y x := v y x] else r))"
    and wrap: "\<And>y r. mk y w r = mk (Suc y) 0 r"
    and inj: "\<And>y x y' x'. \<lbrakk>y < h; x < w; c y x; y' < h; x' < w; c y' x'; pos y x = pos y' x'\<rbrakk>
      \<Longrightarrow> y = y' \<and> x = x'"
    and bound: "\<And>y x. y < h \<Longrightarrow> x < w \<Longrightarrow> c y x \<Longrightarrow> pos y x < n"
    and len: "length r = n"
  shows "\<exists>r'. loopE (\<lambda>y. loopE (\<lambda>x. step y x) [0..<w]) [0..<h] (mk 0 0 r) = Inr (mk h 0 r') \<and>
      length r' = n \<and> (\<forall>y < h. \<forall>x < w. c y x \<longrightarrow> r' ! pos y x = v y x)"
  using scatter_loop_frame [where step = step and mk = mk and c = c and pos = pos and v = v and n = n, OF assms]
  by blast

text \<open>The usual case: every pair, at its row-major place.\<close>

lemma table_loop:
  fixes step :: "nat \<Rightarrow> nat \<Rightarrow> 'a buf \<Rightarrow> 'a buf result"
  assumes step: "\<And>y x r. y < h \<Longrightarrow> x < w \<Longrightarrow> length r = w * h \<Longrightarrow>
      step y x (a, r) = Inr (a, r[y * w + x := v y x])"
    and len: "length r = w * h"
  shows "\<exists>r'. loopE (\<lambda>y. loopE (\<lambda>x. step y x) [0..<w]) [0..<h] (a, r) = Inr (a, r') \<and>
      length r' = w * h \<and> (\<forall>y < h. \<forall>x < w. r' ! (y * w + x) = v y x)"
  using scatter_loop [where c = "\<lambda>_ _. True" and pos = "\<lambda>y x. y * w + x" and n = "w * h" and v = v
      and step = step and mk = "\<lambda>_ _ r. (a, r)" and h = h and w = w and r = r] step len
  by (auto simp: row_major_less row_major_inj)

text \<open>
  A double loop that has an iteration which cannot succeed ends in its fault, when the steps
  keep an invariant under which they fault in no other way.
\<close>

lemma table_loop_overrun:
  fixes step :: "nat \<Rightarrow> nat \<Rightarrow> 's \<Rightarrow> 's result"
  assumes "P s" and keep: "\<And>y x s s'. P s \<Longrightarrow> step y x s = Inr s' \<Longrightarrow> P s'"
    and fault: "\<And>y x s e. P s \<Longrightarrow> step y x s = Inl e \<Longrightarrow> e = OutOfBounds"
    and "y < h" and "x < w" and out: "\<And>s s'. P s \<Longrightarrow> step y x s \<noteq> Inr s'"
  shows "loopE (\<lambda>y. loopE (step y) [0..<w]) [0..<h] s = Inl OutOfBounds"
proof -
  let ?f = "\<lambda>(y, x). step y x" and ?is = "List.product [0..<h] [0..<w]"
  have keep': "P s'" if "P s" "?f i s = Inr s'" for i s s' using that keep by (cases i) auto
  have "loopE ?f ?is s = Inl OutOfBounds"
  proof (cases "loopE ?f ?is s")
    case (Inl e)
    from loopE_faults [where P = P, OF Inl \<open>P s\<close>] keep' obtain i u where "P u" "?f i u = Inl e" by blast
    then show ?thesis using Inl fault by (cases i) auto
  next
    case (Inr t)
    have "(y, x) \<in> set ?is" using \<open>y < h\<close> \<open>x < w\<close> by simp
    from loopE_visits [where P = P, OF Inr \<open>P s\<close> this] keep' out show ?thesis by auto
  qed
  then show ?thesis by (simp add: loopE_product)
qed

lemma rev_upt_map: "rev [0..<n] = map (\<lambda>k. n - 1 - k) [0..<n]"
  by (rule nth_equalityI) (auto simp: rev_nth)

end
