(* ===== verification/BMPReader.thy ===== *)
theory BMPReader
  imports FileSystems Table_Loops
begin

text \<open>
  \<open>BootManager2D/src/BMPReader.c\<close> and \<open>include/BMPReader.h\<close>: decoding a 32-bit bitmap file.
  The packed structures of the header are read field by field at their byte offsets.
\<close>

section \<open>The file format\<close>

record BMP_HEADER =
  Signature :: u16
  FileSize :: u32
  Unused :: u32
  PixelsOffset :: u32
  HeaderSize :: u32
  BmpWidth :: u32 \<comment> \<open>\<open>INT32\<close>\<close>
  BmpHeight :: u32 \<comment> \<open>\<open>INT32\<close>\<close>
  Planes :: u16
  BitsPerPixel :: u16
  CompressionMethod :: u32
  ImageSize :: u32
  XPXLsPerMeter :: u32
  YPXLsPerMeter :: u32
  ColorsUsed :: u32
  ColorsImportant :: u32
  RedMask :: u32
  GreenMask :: u32
  BlueMask :: u32
  AlphaMask :: u32
  CSType :: u32
  Endpoints :: "u32 \<times> u32 \<times> u32 \<times> u32 \<times> u32 \<times> u32 \<times> u32 \<times> u32 \<times> u32"
  GammaRed :: u32
  GammaGreen :: u32
  GammaBlue :: u32
  Intent :: u32
  ProfileData :: u32
  ProfileSize :: u32
  BmpReserved :: u32

text \<open>The fields in the order of the structure, with their sizes in bytes.\<close>

definition header_fields :: "BMP_HEADER \<Rightarrow> (nat \<times> nat) list" where
  "header_fields h =
     (case Endpoints h of (e1, e2, e3, e4, e5, e6, e7, e8, e9) \<Rightarrow>
      [(2, unat (Signature h)), (4, unat (FileSize h)), (4, unat (Unused h)),
       (4, unat (PixelsOffset h)), (4, unat (HeaderSize h)), (4, unat (BmpWidth h)),
       (4, unat (BmpHeight h)), (2, unat (Planes h)), (2, unat (BitsPerPixel h)),
       (4, unat (CompressionMethod h)), (4, unat (ImageSize h)), (4, unat (XPXLsPerMeter h)),
       (4, unat (YPXLsPerMeter h)), (4, unat (ColorsUsed h)), (4, unat (ColorsImportant h)),
       (4, unat (RedMask h)), (4, unat (GreenMask h)), (4, unat (BlueMask h)),
       (4, unat (AlphaMask h)), (4, unat (CSType h)),
       (4, unat e1), (4, unat e2), (4, unat e3), (4, unat e4), (4, unat e5), (4, unat e6),
       (4, unat e7), (4, unat e8), (4, unat e9),
       (4, unat (GammaRed h)), (4, unat (GammaGreen h)), (4, unat (GammaBlue h)),
       (4, unat (Intent h)), (4, unat (ProfileData h)), (4, unat (ProfileSize h)),
       (4, unat (BmpReserved h))])"

definition header_bytes :: "BMP_HEADER \<Rightarrow> u8 list" where
  "header_bytes h = concat (map (\<lambda>(n, v). le_encode n v) (header_fields h))"

text \<open>The byte offsets at which the code reads (\<open>Header->...\<close>), with the packed layout.\<close>

definition hdr16 :: "u8 buf \<Rightarrow> nat \<Rightarrow> u16 result" where
  "hdr16 d off = (if fst d = 0 then Inl NullPointer
                  else bindE (le_field (snd d) off 2) (\<lambda>v. Inr (word_of_nat v)))"

definition hdr32 :: "u8 buf \<Rightarrow> nat \<Rightarrow> u32 result" where
  "hdr32 d off = (if fst d = 0 then Inl NullPointer
                  else bindE (le_field (snd d) off 4) (\<lambda>v. Inr (word_of_nat v)))"

section \<open>Reading the image\<close>

text \<open>
  The test of the header: the fields are compared in this order and the first that differs
  decides.
\<close>

fun check_fields :: "u8 buf \<Rightarrow> (nat \<times> nat \<times> u32) list \<Rightarrow> bool result" where
  "check_fields d [] = Inr True"
| "check_fields d ((n, off, v) # fs) =
     bindE (if n = 2 then bindE (hdr16 d off) (\<lambda>x. Inr (ucast x)) else hdr32 d off) (\<lambda>x.
       if x \<noteq> v then Inr False else check_fields d fs)"

definition header_supported :: "u8 buf \<Rightarrow> bool result" where
  "header_supported d = check_fields d
     [(2, 0, 0x4d42),       \<comment> \<open>\<open>Signature\<close>\<close>
      (4, 14, 0x7c),        \<comment> \<open>\<open>HeaderSize\<close>\<close>
      (2, 28, 0x20),        \<comment> \<open>\<open>BitsPerPixel\<close>\<close>
      (4, 30, 3),           \<comment> \<open>\<open>CompressionMethod\<close>\<close>
      (4, 66, 0xff000000),  \<comment> \<open>\<open>AlphaMask\<close>\<close>
      (4, 54, 0x00ff0000),  \<comment> \<open>\<open>RedMask\<close>\<close>
      (4, 58, 0x0000ff00),  \<comment> \<open>\<open>GreenMask\<close>\<close>
      (4, 62, 0x000000ff)]  \<comment> \<open>\<open>BlueMask\<close>\<close>"

definition mul_i32 :: "int \<Rightarrow> int \<Rightarrow> int result" where
  "mul_i32 a b = (if - (2 ^ 31) \<le> a * b \<and> a * b < 2 ^ 31 then Inr (a * b) else Inl SignedOverflow)"

text \<open>One iteration of the inner loop: the state is the image and the offset \<open>CurPixelStart\<close>.\<close>

definition ReadBMP_pixel ::
  "u8 buf \<Rightarrow> int \<Rightarrow> nat \<Rightarrow> nat \<Rightarrow> pixel buf \<times> nat \<Rightarrow> (pixel buf \<times> nat) result" where
  "ReadBMP_pixel FileData Width y x s =
     (case s of (Pixels, CurPixelStart) \<Rightarrow>
        bindE (rdb FileData (CurPixelStart + 2)) (\<lambda>red.
        bindE (rdb FileData (CurPixelStart + 1)) (\<lambda>green.
        bindE (rdb FileData CurPixelStart) (\<lambda>blue.
        bindE (rdb FileData (CurPixelStart + 3)) (\<lambda>alpha.
        bindE (wrb Pixels (nat (int y * Width + int x))
                 \<lparr>Blue = blue, Green = green, Red = red, Reserved = alpha\<rparr>) (\<lambda>Pixels.
          Inr (Pixels, CurPixelStart + 4)))))))"

definition ReadBMP ::
  "('w, 'x) fw_scheme \<Rightarrow> EFI_HANDLE \<Rightarrow> CHAR16s \<Rightarrow> 'w
    \<Rightarrow> (EFI_STATUS \<times> (u32 \<times> u32 \<times> pixel buf) option \<times> 'w) result" where
  "ReadBMP fw FileSystem Filename w =
     (if Filename = None then Inr (EFI_INVALID_PARAMETER, None, w) else
      bindE (ReadFile fw FileSystem Filename w) (\<lambda>(Status, FileData, _, w).
      case CheckError fw Status (Some (wide ''Reading the BMP file'')) w of (failed, w) \<Rightarrow>
      if failed then Inr (Status, None, w) else
      bindE (use FileData) (\<lambda>FileData.
      bindE (header_supported FileData) (\<lambda>supported.
      if \<not> supported then
        (case CatSPrint fw (Some (wide ''while reading reading texture %s'')) Filename [] w of (loc, w) \<Rightarrow>
         case CheckError fw EFI_UNSUPPORTED loc w of (_, w) \<Rightarrow>
         Inr (EFI_UNSUPPORTED, None, w))
      else
        bindE (hdr32 FileData 18) (\<lambda>Width.
        bindE (hdr32 FileData 22) (\<lambda>Height.
        bindE (mul_i32 (sint Width) (sint Height)) (\<lambda>area.
        case AllocateZeroArray fw 4 zero_pixel (word_of_int area * 4) w of (Pixels, w) \<Rightarrow>
        bindE (hdr32 FileData 10) (\<lambda>off.
        if sint Height = - (2 ^ 31) then Inl SignedOverflow else
        bindE (loopE (\<lambda>y. loopE (\<lambda>x. ReadBMP_pixel FileData (sint Width) y x) [0..<nat (sint Width)])
                 (rev [0..<nat (sint Height)]) (Pixels, unat off))
          (\<lambda>(Pixels, _).
            Inr (EFI_SUCCESS, Some (Width, Height, Pixels), MyFreePool fw (fst FileData) w))))))))))"

section \<open>Reference encoding\<close>

text \<open>
  A bitmap file: the header, whatever lies between it and the pixels, and the rows of the
  image from the bottom to the top, each pixel as blue, green, red and alpha.
\<close>

definition pixel_bytes :: "pixel \<Rightarrow> u8 list" where
  "pixel_bytes p = [Blue p, Green p, Red p, Reserved p]"

definition rows_bottom_up :: "nat \<Rightarrow> nat \<Rightarrow> pixel list \<Rightarrow> pixel list" where
  "rows_bottom_up wd ht img = concat (map (\<lambda>k. take wd (drop ((ht - 1 - k) * wd) img)) [0..<ht])"

definition bmp_file :: "BMP_HEADER \<Rightarrow> u8 list \<Rightarrow> pixel list \<Rightarrow> u8 list" where
  "bmp_file h gap img = header_bytes h @ gap @
     concat (map pixel_bytes (rows_bottom_up (unat (BmpWidth h)) (unat (BmpHeight h)) img))"

definition good_header :: "BMP_HEADER \<Rightarrow> u8 list \<Rightarrow> bool" where
  "good_header h gap \<longleftrightarrow> Signature h = 0x4d42 \<and> HeaderSize h = 0x7c \<and> BitsPerPixel h = 0x20 \<and>
     CompressionMethod h = 3 \<and> AlphaMask h = 0xff000000 \<and> RedMask h = 0x00ff0000 \<and>
     GreenMask h = 0x0000ff00 \<and> BlueMask h = 0x000000ff \<and>
     unat (PixelsOffset h) = 138 + length gap \<and>
     unat (BmpWidth h) * unat (BmpHeight h) < 2 ^ 31 \<and>
     unat (BmpWidth h) < 2 ^ 31 \<and> unat (BmpHeight h) < 2 ^ 31"

section \<open>Correctness\<close>

lemma length_header_bytes [simp]: "length (header_bytes h) = 138"
  by (simp add: header_bytes_def length_concat_fields header_fields_def split: prod.splits)

lemma unat_u16_field: "unat (x :: u16) < 256 ^ 2" and unat_u32_field: "unat (y :: u32) < 256 ^ 4"
  using unsigned_less [of x] unsigned_less [of y] by simp_all

lemma header_field:
  assumes "k < 36" and "header_fields h ! k = (n, v)" and "v < 256 ^ n"
    and "off = sum_list (map fst (take k (header_fields h)))"
  shows "le_field (header_bytes h @ rest) off n = Inr v"
  unfolding header_bytes_def
  by (rule le_field_struct) (use assms in \<open>simp_all add: header_fields_def split: prod.splits\<close>)

lemma hdr16_field:
  assumes "a \<noteq> 0" and "k < 36" and "header_fields h ! k = (2, unat v)"
    and "off = sum_list (map fst (take k (header_fields h)))"
  shows "hdr16 (a, header_bytes h @ rest) off = Inr v"
  using header_field [OF assms(2,3) unat_u16_field assms(4)] assms(1) by (simp add: hdr16_def)

lemma hdr32_field:
  assumes "a \<noteq> 0" and "k < 36" and "header_fields h ! k = (4, unat v)"
    and "off = sum_list (map fst (take k (header_fields h)))"
  shows "hdr32 (a, header_bytes h @ rest) off = Inr v"
  using header_field [OF assms(2,3) unat_u32_field assms(4)] assms(1) by (simp add: hdr32_def)

text \<open>Every field the code looks at has its value at the offset the code uses.\<close>

lemma header_reads:
  assumes "a \<noteq> 0"
  shows "hdr16 (a, header_bytes h @ rest) 0 = Inr (Signature h)"
    and "hdr32 (a, header_bytes h @ rest) 10 = Inr (PixelsOffset h)"
    and "hdr32 (a, header_bytes h @ rest) 14 = Inr (HeaderSize h)"
    and "hdr32 (a, header_bytes h @ rest) 18 = Inr (BmpWidth h)"
    and "hdr32 (a, header_bytes h @ rest) 22 = Inr (BmpHeight h)"
    and "hdr16 (a, header_bytes h @ rest) 28 = Inr (BitsPerPixel h)"
    and "hdr32 (a, header_bytes h @ rest) 30 = Inr (CompressionMethod h)"
    and "hdr32 (a, header_bytes h @ rest) 54 = Inr (RedMask h)"
    and "hdr32 (a, header_bytes h @ rest) 58 = Inr (GreenMask h)"
    and "hdr32 (a, header_bytes h @ rest) 62 = Inr (BlueMask h)"
    and "hdr32 (a, header_bytes h @ rest) 66 = Inr (AlphaMask h)"
  subgoal by (rule hdr16_field [OF assms, of 0]) (simp_all add: header_fields_def split: prod.splits)
  subgoal by (rule hdr32_field [OF assms, of 3]) (simp_all add: header_fields_def split: prod.splits)
  subgoal by (rule hdr32_field [OF assms, of 4]) (simp_all add: header_fields_def split: prod.splits)
  subgoal by (rule hdr32_field [OF assms, of 5]) (simp_all add: header_fields_def split: prod.splits)
  subgoal by (rule hdr32_field [OF assms, of 6]) (simp_all add: header_fields_def split: prod.splits)
  subgoal by (rule hdr16_field [OF assms, of 8]) (simp_all add: header_fields_def split: prod.splits)
  subgoal by (rule hdr32_field [OF assms, of 9]) (simp_all add: header_fields_def split: prod.splits)
  subgoal by (rule hdr32_field [OF assms, of 15]) (simp_all add: header_fields_def split: prod.splits)
  subgoal by (rule hdr32_field [OF assms, of 16]) (simp_all add: header_fields_def split: prod.splits)
  subgoal by (rule hdr32_field [OF assms, of 17]) (simp_all add: header_fields_def split: prod.splits)
  subgoal by (rule hdr32_field [OF assms, of 18]) (simp_all add: header_fields_def split: prod.splits)
  done

lemma good_header_supported:
  "a \<noteq> 0 \<Longrightarrow> good_header h gap \<Longrightarrow> header_supported (a, header_bytes h @ rest) = Inr True"
  by (simp add: header_supported_def header_reads good_header_def)

definition supported_header :: "BMP_HEADER \<Rightarrow> bool" where
  "supported_header h \<longleftrightarrow> Signature h = 0x4d42 \<and> HeaderSize h = 0x7c \<and> BitsPerPixel h = 0x20 \<and>
     CompressionMethod h = 3 \<and> AlphaMask h = 0xff000000 \<and> RedMask h = 0x00ff0000 \<and>
     GreenMask h = 0x0000ff00 \<and> BlueMask h = 0x000000ff"

lemma ucast_u16_eq: "(ucast (x :: u16) :: u32) = ucast y \<longleftrightarrow> x = y"
  by transfer simp

lemma header_supported_iff:
  assumes "a \<noteq> 0"
  shows "header_supported (a, header_bytes h @ rest) = Inr (supported_header h)"
  using ucast_u16_eq [where x = "Signature h" and y = "0x4d42"] ucast_u16_eq [where x = "BitsPerPixel h" and y = "0x20"]
  by (simp add: header_supported_def header_reads assms supported_header_def)

text \<open>An image whose header is not the one the reader knows is refused, not misread.\<close>

lemma ReadBMP_unsupported:
  assumes "pool_ok fw" and "file_at fw fsh name (header_bytes h @ rest)" and "\<not> supported_header h"
  shows "\<exists>w'. ReadBMP fw fsh (Some name) w = Inr (EFI_UNSUPPORTED, None, w')"
proof -
  obtain a w1 where rf: "ReadFile fw fsh (Some name) w = Inr (EFI_SUCCESS, Some (a, header_bytes h @ rest),
      Some (word_of_nat (length (header_bytes h @ rest))), w1)" and "a \<noteq> 0"
    using ReadFile_contents [OF assms(1,2)] by blast
  with assms(3) show ?thesis
    by (auto simp: ReadBMP_def header_supported_iff split: prod.splits)
qed

lemma pixel_bytes_nth:
  assumes "t < length ps" and "c < 4"
  shows "concat (map pixel_bytes ps) ! (t * 4 + c) = pixel_bytes (ps ! t) ! c"
proof -
  have "\<forall>x \<in> set (map pixel_bytes ps). length x = 4"
    by (auto simp: pixel_bytes_def)
  from nth_concat_uniform [OF this, where k = t and j = c] assms show ?thesis by simp
qed

lemma row_piece_length:
  assumes "length img = wd * ht" and "k < ht"
  shows "length (take wd (drop ((ht - 1 - k) * wd) img)) = wd" and "(ht - 1 - k) * wd + wd \<le> length img"
proof -
  have "(ht - 1 - k) * wd + wd = (ht - k) * wd" using assms(2) by (simp add: algebra_simps flip: Suc_diff_Suc)
  also have "\<dots> \<le> ht * wd" by (intro mult_le_mono1) simp
  finally show le: "(ht - 1 - k) * wd + wd \<le> length img" using assms by (simp add: mult.commute)
  then show "length (take wd (drop ((ht - 1 - k) * wd) img)) = wd" by simp
qed

lemma length_rows_bottom_up:
  assumes "length img = wd * ht"
  shows "length (rows_bottom_up wd ht img) = wd * ht"
  unfolding rows_bottom_up_def
  by (subst length_concat_uniform [where w = wd]) (use row_piece_length [OF assms] in auto)

lemma rows_bottom_up_nth:
  assumes "length img = wd * ht" and "k < ht" and "x < wd"
  shows "rows_bottom_up wd ht img ! (k * wd + x) = img ! ((ht - 1 - k) * wd + x)"
proof -
  let ?rows = "map (\<lambda>k. take wd (drop ((ht - 1 - k) * wd) img)) [0..<ht]"
  have "\<forall>r \<in> set ?rows. length r = wd"
    using row_piece_length [OF assms(1)] by auto
  from nth_concat_uniform [OF this, where k = k and j = x] assms row_piece_length(2) [OF assms(1,2)]
  show ?thesis by (simp add: rows_bottom_up_def)
qed

text \<open>
  The place in the file of the pixel the loops treat as number \<open>t\<close>, and the pixel there.
\<close>

lemma bmp_file_pixel:
  assumes "good_header h gap" and "length img = unat (BmpWidth h) * unat (BmpHeight h)"
    and "k < unat (BmpHeight h)" and "x < unat (BmpWidth h)" and "c < 4"
  shows "bmp_file h gap img ! (unat (PixelsOffset h) + 4 * (k * unat (BmpWidth h) + x) + c) =
      pixel_bytes (img ! ((unat (BmpHeight h) - 1 - k) * unat (BmpWidth h) + x)) ! c"
    and "unat (PixelsOffset h) + 4 * (k * unat (BmpWidth h) + x) + c < length (bmp_file h gap img)"
proof -
  let ?W = "unat (BmpWidth h)" and ?H = "unat (BmpHeight h)"
  let ?ps = "rows_bottom_up ?W ?H img"
  have len: "length ?ps = ?W * ?H" using assms(2) by (rule length_rows_bottom_up)
  have t: "k * ?W + x < length ?ps" using row_major_less [OF assms(4,3)] len by simp
  have body: "length (concat (map pixel_bytes ?ps)) = 4 * length ?ps"
    by (subst length_concat_uniform [where w = 4]) (auto simp: pixel_bytes_def)
  have off: "unat (PixelsOffset h) = 138 + length gap" using assms(1) by (simp add: good_header_def)
  with t body assms(5)
  show "unat (PixelsOffset h) + 4 * (k * ?W + x) + c < length (bmp_file h gap img)"
    by (simp add: bmp_file_def)
  have "bmp_file h gap img ! (unat (PixelsOffset h) + 4 * (k * ?W + x) + c) =
      concat (map pixel_bytes ?ps) ! ((k * ?W + x) * 4 + c)"
    using off by (simp add: bmp_file_def nth_append algebra_simps)
  also have "\<dots> = pixel_bytes (?ps ! (k * ?W + x)) ! c"
    using t assms(5) by (rule pixel_bytes_nth)
  also have "?ps ! (k * ?W + x) = img ! ((?H - 1 - k) * ?W + x)"
    using assms(2,3,4) by (rule rows_bottom_up_nth)
  finally show "bmp_file h gap img ! (unat (PixelsOffset h) + 4 * (k * ?W + x) + c) =
      pixel_bytes (img ! ((?H - 1 - k) * ?W + x)) ! c" .
qed

text \<open>One iteration stores the pixel of the file at its place in the image.\<close>

lemma ReadBMP_pixel_step:
  assumes "good_header h gap" and "length img = unat (BmpWidth h) * unat (BmpHeight h)"
    and "k < unat (BmpHeight h)" and "x < unat (BmpWidth h)" and "d \<noteq> 0" and "a \<noteq> 0"
    and "length r = unat (BmpWidth h) * unat (BmpHeight h)"
  shows "ReadBMP_pixel (d, bmp_file h gap img) (int (unat (BmpWidth h))) (unat (BmpHeight h) - 1 - k) x
      ((a, r), unat (PixelsOffset h) + 4 * (k * unat (BmpWidth h) + x)) =
    Inr ((a, r[(unat (BmpHeight h) - 1 - k) * unat (BmpWidth h) + x :=
          img ! ((unat (BmpHeight h) - 1 - k) * unat (BmpWidth h) + x)]),
        unat (PixelsOffset h) + 4 * (k * unat (BmpWidth h) + Suc x))"
proof -
  let ?W = "unat (BmpWidth h)" and ?H = "unat (BmpHeight h)"
  let ?p = "unat (PixelsOffset h) + 4 * (k * ?W + x)" and ?i = "(?H - 1 - k) * ?W + x"
  have rdc: "rdb (d, bmp_file h gap img) (?p + c) = Inr (pixel_bytes (img ! ?i) ! c)" if "c < 4" for c
    using bmp_file_pixel [OF assms(1-4) that] assms(5) by (simp del: add.assoc)
  have at: "nat (int (?H - 1 - k) * int ?W + int x) = ?i"
    by (metis nat_int of_nat_add of_nat_mult)
  have "?i < length r"
    using assms(3,4,7) row_major_less [of x ?W "?H - 1 - k" ?H] by simp
  with assms(6) at rdc [of 0] rdc [of 1] rdc [of 2] rdc [of 3] show ?thesis
    by (cases "img ! ?i") (simp add: ReadBMP_pixel_def pixel_bytes_def)
qed

lemma u64_pixel_area:
  assumes "n < 2 ^ 31"
  shows "unat (word_of_int (int n) * 4 :: u64) div 4 = n"
proof -
  have "unat (word_of_int (int n) :: u64) = n" using assms by simp
  with assms show ?thesis by (simp add: unat_mult_no_wrap)
qed

text \<open>Reading a bitmap file of the supported kind gives its size and its image.\<close>

lemma ReadBMP_file:
  assumes "pool_ok fw" and "file_at fw fsh name (bmp_file h gap img)" and "good_header h gap"
    and "length img = unat (BmpWidth h) * unat (BmpHeight h)"
  shows "\<exists>a w'. ReadBMP fw fsh (Some name) w =
      Inr (EFI_SUCCESS, Some (BmpWidth h, BmpHeight h, (a, img)), w') \<and> a \<noteq> 0"
proof -
  define W where "W = unat (BmpWidth h)"
  define H where "H = unat (BmpHeight h)"
  define bytes where "bytes = bmp_file h gap img"
  let ?off = "unat (PixelsOffset h)"
  have img: "length img = W * H" using assms(4) by (simp add: W_def H_def)
  obtain d w1 where rf: "ReadFile fw fsh (Some name) w = Inr (EFI_SUCCESS, Some (d, bytes),
      Some (word_of_nat (length bytes)), w1)" and "d \<noteq> 0"
    using ReadFile_contents [OF assms(1,2)] bytes_def by blast
  have small: "W < 2 ^ 31" "H < 2 ^ 31" "W * H < 2 ^ 31"
    using assms(3) by (simp_all add: good_header_def W_def H_def)
  then have si: "sint (BmpWidth h) = int W" "sint (BmpHeight h) = int H"
    unfolding W_def H_def by (simp_all only: sint_nonneg_u32)
  have area: "mul_i32 (sint (BmpWidth h)) (sint (BmpHeight h)) = Inr (int (W * H))"
    using small(3) unfolding si mul_i32_def
    by (metis (mono_tags, opaque_lifting) int_ops(7) le_minus_one_simps(1) negative_zle of_nat_less_numeral_power_cancel_iff of_nat_numeral of_nat_power)
  have size: "unat (word_of_int (int (W * H)) * 4 :: u64) div 4 = W * H"
    using small(3) by (rule u64_pixel_area)
  obtain a w2 where al: "AllocateZeroArray fw 4 zero_pixel (word_of_int (int (W * H)) * 4) w1 =
      ((a, replicate (W * H) zero_pixel), w2)" and "a \<noteq> 0"
    using AllocateZeroArray_ok [OF assms(1)] size by metis
  let ?step = "\<lambda>k x. ReadBMP_pixel (d, bytes) (int W) (H - 1 - k) x"
  have "\<exists>r'. loopE (\<lambda>k. loopE (\<lambda>x. ?step k x) [0..<W]) [0..<H]
        ((a, replicate (W * H) zero_pixel), ?off + 4 * (0 * W + 0)) =
        Inr ((a, r'), ?off + 4 * (H * W + 0)) \<and> length r' = W * H \<and>
      (\<forall>k < H. \<forall>x < W. True \<longrightarrow> r' ! ((H - 1 - k) * W + x) = img ! ((H - 1 - k) * W + x))"
  proof (rule scatter_loop [where mk = "\<lambda>k x r. ((a, r), ?off + 4 * (k * W + x))"])
    fix k x and r :: "pixel list"
    assume "k < H" "x < W" "length r = W * H"
    from ReadBMP_pixel_step [OF assms(3,4), folded W_def H_def, OF this(1,2) \<open>d \<noteq> 0\<close> \<open>a \<noteq> 0\<close> this(3)]
    show "?step k x ((a, r), ?off + 4 * (k * W + x)) =
        Inr ((a, if True then r[(H - 1 - k) * W + x := img ! ((H - 1 - k) * W + x)] else r),
          ?off + 4 * (k * W + Suc x))" by (simp only: if_True bytes_def)
  qed (auto simp: row_major_inj intro!: row_major_less [of _ W _ H])
  then obtain r' where r': "loopE (\<lambda>k. loopE (\<lambda>x. ?step k x) [0..<W]) [0..<H]
        ((a, replicate (W * H) zero_pixel), ?off) = Inr ((a, r'), ?off + 4 * (H * W))"
    and len: "length r' = W * H"
    and px: "\<And>k x. k < H \<Longrightarrow> x < W \<Longrightarrow> r' ! ((H - 1 - k) * W + x) = img ! ((H - 1 - k) * W + x)"
    by auto
  have "r' = img"
  proof (rule nth_equalityI)
    fix i assume "i < length r'"
    with len row_major_decomp [of i W H] have i: "i div W < H" "i mod W < W"
      "i = (i div W) * W + i mod W" by simp_all
    from px [of "H - 1 - i div W" "i mod W"] i(1,2) show "r' ! i = img ! i"
      by simp
  qed (use len img in simp)
  moreover have "header_supported (d, bytes) = Inr True" "hdr32 (d, bytes) 18 = Inr (BmpWidth h)"
    "hdr32 (d, bytes) 22 = Inr (BmpHeight h)" "hdr32 (d, bytes) 10 = Inr (PixelsOffset h)"
    using good_header_supported [OF \<open>d \<noteq> 0\<close> assms(3)] header_reads [OF \<open>d \<noteq> 0\<close>]
    by (simp_all add: bytes_def bmp_file_def)
  ultimately show ?thesis
    using rf r' al area \<open>a \<noteq> 0\<close> by (simp add: ReadBMP_def rev_upt_map loopE_map si)
qed

end
