(* ===== verification/Config.thy ===== *)
theory Config
  imports FileSystems Table_Loops
begin

text \<open>
  \<open>BootManager2D/src/Config.c\<close> and \<open>include/Config.h\<close>: the parsers of the four configuration
  files. A file is the bytes that \<open>ReadFile\<close> puts into a pool block; it has no terminator.
  Counters that only count bytes of the file are natural numbers.
\<close>

section \<open>The boot entries\<close>

record BOOT_ENTRY =
  title :: CHAR16s
  volume_guid :: CHAR16s
  loader_name :: CHAR16s
  icon :: CHAR16s
  options :: CHAR16s

definition zero_entry :: BOOT_ENTRY where
  "zero_entry = \<lparr>title = None, volume_guid = None, loader_name = None, icon = None, options = None\<rparr>"

definition newline :: u8 where "newline = 10"
definition space :: u8 where "space = 32"
definition colon :: u8 where "colon = 58"

text \<open>The first loop counts the entries: one more than there are empty lines.\<close>

definition count_step :: "u8 buf \<Rightarrow> nat \<Rightarrow> u8 \<times> nat \<Rightarrow> (u8 \<times> nat) result" where
  "count_step FileData i s =
     (case s of (prev, result_size) \<Rightarrow>
        bindE (rdb FileData i) (\<lambda>cur.
          Inr (cur, if cur = newline \<and> prev = newline then result_size + 1 else result_size)))"

text \<open>The variables of the second loop.\<close>

record parse_state =
  entries :: "BOOT_ENTRY buf"
  cur_struct :: nat
  cur_value :: nat
  prev :: u8
  cur_char :: nat
  writing :: bool
  parse_status :: EFI_STATUS

definition copy_value :: "u8 buf \<Rightarrow> nat \<Rightarrow> nat \<Rightarrow> u8 buf \<Rightarrow> u8 buf result" where
  "copy_value FileData i n cur_elem =
     loopE (\<lambda>j e. bindE (rdb FileData (i - n + j)) (\<lambda>b. wrb e j b)) [0..<n] cur_elem"

definition store_value ::
  "BOOT_ENTRY buf \<Rightarrow> nat \<Rightarrow> nat \<Rightarrow> CHAR16s \<Rightarrow> BOOT_ENTRY buf result" where
  "store_value es k v dest =
     (if v = 0 then bindE (rdb es k) (\<lambda>e. wrb es k (e\<lparr>title := dest\<rparr>))
      else if v = 1 then bindE (rdb es k) (\<lambda>e. wrb es k (e\<lparr>volume_guid := dest\<rparr>))
      else if v = 2 then bindE (rdb es k) (\<lambda>e. wrb es k (e\<lparr>loader_name := dest\<rparr>))
      else if v = 3 then bindE (rdb es k) (\<lambda>e. wrb es k (e\<lparr>icon := dest\<rparr>))
      else if v = 4 then bindE (rdb es k) (\<lambda>e. wrb es k (e\<lparr>options := dest\<rparr>))
      else Inr es)"

text \<open>The end of a line: the last \<open>cur_char\<close> characters are the value.\<close>

definition end_line ::
  "('w, 'x) fw_scheme \<Rightarrow> u8 buf \<Rightarrow> nat \<Rightarrow> parse_state \<times> 'w \<Rightarrow> (parse_state \<times> 'w) result" where
  "end_line fw FileData i sw =
     (case sw of (s, w) \<Rightarrow>
      case AllocatePool fw (word_of_nat (cur_char s + 1)) w of (ae, ce, w) \<Rightarrow>
      bindE (copy_value FileData i (cur_char s) (ae, ce)) (\<lambda>cur_elem.
      bindE (wrb cur_elem (cur_char s) 0) (\<lambda>cur_elem.
      case AllocatePool fw (word_of_nat (cur_char s + 1) * 2) w of (ad, _, w) \<Rightarrow>
      case AsciiStrToUnicodeStrS fw (snd cur_elem) ad (word_of_nat (cur_char s + 1)) of (Status, str) \<Rightarrow>
      let dest = (if ad = 0 then None else Some str) in
      bindE (store_value (entries s) (cur_struct s) (cur_value s) dest) (\<lambda>es.
        Inr (s\<lparr>entries := es, cur_value := cur_value s + 1, cur_char := 0, writing := False,
               parse_status := Status\<rparr>, w)))))"

definition parse_step ::
  "('w, 'x) fw_scheme \<Rightarrow> u8 buf \<Rightarrow> nat \<Rightarrow> parse_state \<times> 'w \<Rightarrow> (parse_state \<times> 'w) result" where
  "parse_step fw FileData i sw =
     bindE (rdb FileData i) (\<lambda>cur.
     bindE
       (case sw of (s, w) \<Rightarrow>
        if cur = newline \<and> prev s = newline
        then Inr (s\<lparr>cur_struct := cur_struct s + 1, cur_value := 0\<rparr>, w)
        else if cur = newline then end_line fw FileData i (s, w)
        else if cur = space \<and> prev s = colon then Inr (s\<lparr>writing := True\<rparr>, w)
        else if writing s then Inr (s\<lparr>cur_char := cur_char s + 1\<rparr>, w)
        else Inr (s, w))
       (\<lambda>(s, w). Inr (s\<lparr>prev := cur\<rparr>, w)))"

definition ParseConfigFile ::
  "('w, 'x) fw_scheme \<Rightarrow> EFI_HANDLE \<Rightarrow> CHAR16s \<Rightarrow> 'w
    \<Rightarrow> (EFI_STATUS \<times> BOOT_ENTRY buf \<times> u64 \<times> 'w) result" where
  "ParseConfigFile fw SelfFSHandle filename w =
     bindE (ReadFile fw SelfFSHandle filename w) (\<lambda>(_, FileData, len, w).
     bindE (use len) (\<lambda>len.
     bindE (use FileData) (\<lambda>FileData.
     bindE (loopE (count_step FileData) [0..<unat len] (0, 1)) (\<lambda>(_, result_size).
     case AllocateZeroArray fw 40 zero_entry (word_of_nat result_size * 40) w of (result, w) \<Rightarrow>
     bindE (loopE (parse_step fw FileData) [0..<unat len]
              (\<lparr>entries = result, cur_struct = 0, cur_value = 0, prev = 0, cur_char = 0,
                 writing = False, parse_status = EFI_SUCCESS\<rparr>, w))
       (\<lambda>(s, w). Inr (parse_status s, entries s, word_of_nat result_size, w))))))"


section \<open>The boot entries: every file is parsed without a fault\<close>

text \<open>The number of empty lines of a text that follows the character \<open>p\<close>.\<close>

fun blank_lines :: "u8 \<Rightarrow> u8 list \<Rightarrow> nat" where
  "blank_lines p [] = 0"
| "blank_lines p (c # cs) = (if c = newline \<and> p = newline then 1 else 0) + blank_lines c cs"

definition prev_char :: "u8 list \<Rightarrow> nat \<Rightarrow> u8" where
  "prev_char bs i = (if i = 0 then 0 else bs ! (i - 1))"

lemma last_take: "i \<le> length bs \<Longrightarrow> last (0 # take i bs) = prev_char bs i"
  by (cases i) (auto simp: prev_char_def take_Suc_conv_app_nth)

lemma prev_char_Suc [simp]: "prev_char bs (Suc i) = bs ! i" "prev_char bs 0 = 0"
  by (simp_all add: prev_char_def)

lemma blank_lines_append:
  "blank_lines p (xs @ ys) = blank_lines p xs + blank_lines (last (p # xs)) ys"
  by (induction xs arbitrary: p) auto

lemma blank_lines_take_Suc:
  assumes "i < length bs"
  shows "blank_lines 0 (take (Suc i) bs) = blank_lines 0 (take i bs) +
      (if bs ! i = newline \<and> prev_char bs i = newline then 1 else 0)"
  using assms last_take [of i bs] by (simp add: take_Suc_conv_app_nth blank_lines_append del: last.simps)

lemma blank_lines_take_le: "blank_lines 0 (take i bs) \<le> blank_lines 0 bs"
  by (metis append_take_drop_id blank_lines_append le_add1)

lemma blank_lines_le: "blank_lines p bs \<le> length bs"
  by (induction bs arbitrary: p) (auto intro: le_SucI)

lemma count_loop:
  assumes "a \<noteq> 0"
  shows "loopE (count_step (a, bs)) [0..<length bs] (0, 1) =
      Inr (prev_char bs (length bs), 1 + blank_lines 0 bs)"
proof -
  have "\<exists>s. loopE (count_step (a, bs)) [0..<length bs] (0, 1) = Inr s \<and>
      s = (prev_char bs (length bs), 1 + blank_lines 0 (take (length bs) bs))"
    by (rule loopE_upt_total [where P = "\<lambda>i s. s = (prev_char bs i, 1 + blank_lines 0 (take i bs))"])
      (use assms in \<open>auto simp: count_step_def blank_lines_take_Suc\<close>)
  then show ?thesis by simp
qed

lemma copy_value_eq:
  assumes "a \<noteq> 0" and "e \<noteq> 0" and "n \<le> i" and "i \<le> length bs" and "n \<le> length ce"
  shows "copy_value (a, bs) i n (e, ce) = Inr (e, take n (drop (i - n) bs) @ drop n ce)"
proof -
  have "\<exists>s. loopE (\<lambda>j e. bindE (rdb (a, bs) (i - n + j)) (\<lambda>b. wrb e j b)) [0..<n] (e, ce) = Inr s \<and>
      s = (e, take n (drop (i - n) bs) @ drop n ce)"
  proof (rule loopE_upt_total [where P = "\<lambda>j s. s = (e, take j (drop (i - n) bs) @ drop j ce)"])
    fix j s
    assume j: "0 \<le> j" "j < n" and s: "s = (e, take j (drop (i - n) bs) @ drop j ce)"
    have "drop j ce = ce ! j # drop (Suc j) ce"
      using j assms(5) by (simp add: Cons_nth_drop_Suc)
    moreover have "take (Suc j) (drop (i - n) bs) = take j (drop (i - n) bs) @ [bs ! (i - n + j)]"
      using j assms(3,4) by (simp add: take_Suc_conv_app_nth)
    ultimately show "\<exists>s'. bindE (rdb (a, bs) (i - n + j)) (\<lambda>b. wrb s j b) = Inr s' \<and>
        s' = (e, take (Suc j) (drop (i - n) bs) @ drop (Suc j) ce)"
      using s j assms by (simp add: list_update_append)
  qed auto
  then show ?thesis by (simp add: copy_value_def)
qed

text \<open>The assignment of the value of line \<open>v\<close> of an entry.\<close>

definition set_value :: "nat \<Rightarrow> CHAR16s \<Rightarrow> BOOT_ENTRY \<Rightarrow> BOOT_ENTRY" where
  "set_value v dest e =
     (if v = 0 then e\<lparr>title := dest\<rparr> else if v = 1 then e\<lparr>volume_guid := dest\<rparr>
      else if v = 2 then e\<lparr>loader_name := dest\<rparr> else if v = 3 then e\<lparr>icon := dest\<rparr>
      else if v = 4 then e\<lparr>options := dest\<rparr> else e)"

lemma store_value_eq:
  "b \<noteq> 0 \<Longrightarrow> k < length es \<Longrightarrow> store_value (b, es) k v dest = Inr (b, es[k := set_value v dest (es ! k)])"
  by (simp add: store_value_def set_value_def)

lemma end_line_eq:
  assumes "pool_ok fw" and "a \<noteq> 0" and "cur_char s \<le> i" and "i \<le> length bs" and "length bs < 2 ^ 63"
    and "entries s = (b, es)" and "b \<noteq> 0" and "cur_struct s < length es"
  shows "\<exists>dest st w'. end_line fw (a, bs) i (s, w) =
      Inr (s\<lparr>entries := (b, es[cur_struct s := set_value (cur_value s) dest (es ! cur_struct s)]),
             cur_value := cur_value s + 1, cur_char := 0, writing := False, parse_status := st\<rparr>, w') \<and>
    (strings_ok fw \<and> 0 \<notin> set (take (cur_char s) (drop (i - cur_char s) bs)) \<longrightarrow>
      dest = Some (map ucast (take (cur_char s) (drop (i - cur_char s) bs))) \<and> st = EFI_SUCCESS)"
proof -
  let ?n = "cur_char s" and ?v = "take (cur_char s) (drop (i - cur_char s) bs)"
  have n: "unat (word_of_nat (?n + 1) :: u64) = ?n + 1"
    using assms(3,4,5) by (intro unat_u64_of_nat) simp
  obtain ae ce w1 where a1: "AllocatePool fw (word_of_nat (?n + 1)) w = (ae, ce, w1)"
    and "ae \<noteq> 0" and ce: "length ce = ?n + 1"
    using AllocatePool_ok [OF assms(1), of "word_of_nat (?n + 1)" w] n by metis
  obtain ad cd w2 where a2: "AllocatePool fw (word_of_nat (?n + 1) * 2) w1 = (ad, cd, w2)" and "ad \<noteq> 0"
    by (rule AllocatePool_ok [OF assms(1)])
  have len: "length ?v = ?n" using assms(3,4) by simp
  have copy: "copy_value (a, bs) i ?n (ae, ce) = Inr (ae, ?v @ drop ?n ce)"
    by (rule copy_value_eq) (use assms \<open>ae \<noteq> 0\<close> ce in auto)
  obtain x where x: "drop ?n ce = [x]"
    using ce by (cases "drop ?n ce") (auto dest!: arg_cong [where f = length])
  have nul: "wrb (ae, ?v @ [x]) ?n 0 = Inr (ae, ?v @ [0])"
    using \<open>ae \<noteq> 0\<close> len by (simp add: list_update_append del: length_take length_drop)
  obtain st str where conv: "AsciiStrToUnicodeStrS fw (?v @ [0]) ad (word_of_nat (?n + 1)) = (st, str)"
    by (meson surj_pair)
  have "st = EFI_SUCCESS \<and> str = map ucast ?v" if "strings_ok fw" "0 \<notin> set ?v"
    using strings_okD(1) [OF that \<open>ad \<noteq> 0\<close>, of "word_of_nat (?n + 1)" "[]"] conv n len by simp
  moreover have "end_line fw (a, bs) i (s, w) =
      Inr (s\<lparr>entries := (b, es[cur_struct s := set_value (cur_value s) (Some str) (es ! cur_struct s)]),
             cur_value := cur_value s + 1, cur_char := 0, writing := False, parse_status := st\<rparr>, w2)"
    using a1 a2 copy x nul conv \<open>ad \<noteq> 0\<close> store_value_eq [OF assms(7,8)] assms(6)
    by (simp add: end_line_def del: of_nat_add of_nat_Suc)
  ultimately show ?thesis by blast
qed

text \<open>
  The invariant of the second loop: the index of the current entry is the number of empty lines
  so far, so it stays below the number of entries that were allocated, and a value is never
  longer than what has been read.
\<close>

definition parse_inv :: "u8 list \<Rightarrow> u64 \<Rightarrow> nat \<Rightarrow> parse_state \<Rightarrow> bool" where
  "parse_inv bs b i s \<longleftrightarrow> fst (entries s) = b \<and> length (snd (entries s)) = 1 + blank_lines 0 bs \<and>
     cur_struct s = blank_lines 0 (take i bs) \<and> prev s = prev_char bs i \<and> cur_char s \<le> i"

lemma parse_step_inv:
  assumes "pool_ok fw" and "a \<noteq> 0" and "b \<noteq> 0" and "length bs < 2 ^ 63" and "i < length bs"
    and inv: "parse_inv bs b i s"
  shows "\<exists>s' w'. parse_step fw (a, bs) i (s, w) = Inr (s', w') \<and> parse_inv bs b (Suc i) s'"
proof -
  have rd: "rdb (a, bs) i = Inr (bs ! i)" using assms(2,5) by simp
  note next_i = blank_lines_take_Suc [OF assms(5)]
  show ?thesis
  proof (cases "bs ! i = newline \<and> prev s \<noteq> newline")
    case True
    have "cur_struct s < length (snd (entries s))"
      using inv blank_lines_take_le [of i bs] by (simp add: parse_inv_def)
    then obtain dest st w' where "end_line fw (a, bs) i (s, w) = Inr (s\<lparr>entries :=
          (b, (snd (entries s))[cur_struct s := set_value (cur_value s) dest (snd (entries s) ! cur_struct s)]),
             cur_value := cur_value s + 1, cur_char := 0, writing := False, parse_status := st\<rparr>, w')"
      using end_line_eq [of fw a s i bs b "snd (entries s)" w] assms by (force simp: parse_inv_def)
    with True rd inv show ?thesis by (simp add: parse_step_def parse_inv_def next_i)
  next
    case False
    with rd inv show ?thesis by (auto simp: parse_step_def parse_inv_def next_i)
  qed
qed

lemma ParseConfigFile_no_fault:
  assumes "pool_ok fw" and "file_at fw fsh name bs" and "length bs < 2 ^ 58"
  shows "\<exists>st b es w'. ParseConfigFile fw fsh (Some name) w =
      Inr (st, (b, es), word_of_nat (length es), w') \<and> length es = 1 + blank_lines 0 bs"
proof -
  let ?n = "1 + blank_lines 0 bs"
  obtain a w1 where rf: "ReadFile fw fsh (Some name) w =
      Inr (EFI_SUCCESS, Some (a, bs), Some (word_of_nat (length bs)), w1)" and "a \<noteq> 0"
    using ReadFile_contents [OF assms(1,2)] by blast
  have "?n \<le> 2 ^ 58" using blank_lines_le [of 0 bs] assms(3) by simp
  then have "unat (word_of_nat ?n * 40 :: u64) div 40 = ?n"
    using array_size [of ?n 40] by simp
  then obtain b w2 where al: "AllocateZeroArray fw 40 zero_entry (word_of_nat ?n * 40) w1 =
      ((b, replicate ?n zero_entry), w2)" and "b \<noteq> 0"
    using AllocateZeroArray_ok [OF assms(1)] by metis
  let ?s0 = "\<lparr>entries = (b, replicate ?n zero_entry), cur_struct = 0, cur_value = 0, prev = 0, cur_char = 0,
                 writing = False, parse_status = EFI_SUCCESS\<rparr>"
  have "\<exists>sw. loopE (parse_step fw (a, bs)) [0..<length bs] (?s0, w2) = Inr sw \<and>
      parse_inv bs b (length bs) (fst sw)"
    by (rule loopE_upt_total [where P = "\<lambda>i sw. parse_inv bs b i (fst sw)"])
      (use parse_step_inv [OF assms(1) \<open>a \<noteq> 0\<close> \<open>b \<noteq> 0\<close>] assms(3) in
        \<open>force simp: parse_inv_def split: prod.splits\<close>)+
  then obtain s w3 where "loopE (parse_step fw (a, bs)) [0..<length bs] (?s0, w2) = Inr (s, w3)"
    and "parse_inv bs b (length bs) s" by auto
  with rf al count_loop [OF \<open>a \<noteq> 0\<close>] assms(3) show ?thesis
    by (cases "entries s") (simp add: ParseConfigFile_def parse_inv_def)
qed

section \<open>The boot entries: a configuration is read back\<close>

text \<open>
  The reference format: an entry is a list of lines, each a key and a value joined by a colon
  and a space; entries are separated by an empty line. Keys and values have no line break, no
  colon followed by a space and no null character.
\<close>

fun plain :: "u8 \<Rightarrow> u8 list \<Rightarrow> bool" where
  "plain p [] = True"
| "plain p (c # cs) \<longleftrightarrow> c \<noteq> newline \<and> \<not> (c = space \<and> p = colon) \<and> plain c cs"

definition config_line :: "u8 list \<times> u8 list \<Rightarrow> u8 list" where
  "config_line kv = fst kv @ [colon, space] @ snd kv @ [newline]"

definition good_line :: "u8 list \<times> u8 list \<Rightarrow> bool" where
  "good_line kv \<longleftrightarrow> plain 0 (fst kv) \<and> plain 0 (snd kv) \<and> 0 \<notin> set (snd kv)"

fun config_file :: "(u8 list \<times> u8 list) list list \<Rightarrow> u8 list" where
  "config_file [] = []"
| "config_file [e] = concat (map config_line e)"
| "config_file (e # es) = concat (map config_line e) @ newline # config_file es"

definition good_config :: "(u8 list \<times> u8 list) list list \<Rightarrow> bool" where
  "good_config es \<longleftrightarrow> es \<noteq> [] \<and> (\<forall>e \<in> set es. e \<noteq> [] \<and> (\<forall>kv \<in> set e. good_line kv))"

definition value_at :: "(u8 list \<times> u8 list) list \<Rightarrow> nat \<Rightarrow> CHAR16s" where
  "value_at e v = (if v < length e then Some (map ucast (snd (e ! v))) else None)"

definition entry_of :: "(u8 list \<times> u8 list) list \<Rightarrow> BOOT_ENTRY" where
  "entry_of e = \<lparr>title = value_at e 0, volume_guid = value_at e 1, loader_name = value_at e 2,
     icon = value_at e 3, options = value_at e 4\<rparr>"

lemma plain_start: "p \<noteq> colon \<Longrightarrow> plain p cs = plain 0 cs"
  by (cases cs) (auto simp: colon_def)

lemma plain_last: "plain p cs \<Longrightarrow> p \<noteq> newline \<Longrightarrow> last (p # cs) \<noteq> newline"
  by (induction cs arbitrary: p) auto

lemma blank_lines_plain: "plain p cs \<Longrightarrow> blank_lines q cs = 0"
  by (induction cs arbitrary: p q) auto

lemmas char_neq = newline_def space_def colon_def

lemma blank_lines_line:
  assumes "good_line kv"
  shows "blank_lines p (config_line kv) = 0" and "last (config_line kv) = newline" and "config_line kv \<noteq> []"
proof -
  have "plain space (snd kv)" using assms plain_start [of space] by (simp add: good_line_def char_neq)
  then have "last (space # snd kv) \<noteq> newline" using plain_last by (simp add: char_neq)
  then show "blank_lines p (config_line kv) = 0"
    using assms by (auto simp: config_line_def blank_lines_append good_line_def blank_lines_plain)
      (auto simp: char_neq)
qed (simp_all add: config_line_def)

lemma blank_lines_entry:
  "\<forall>kv \<in> set e. good_line kv \<Longrightarrow> e \<noteq> [] \<Longrightarrow>
    blank_lines p (concat (map config_line e)) = 0 \<and> last (concat (map config_line e)) = newline \<and>
    concat (map config_line e) \<noteq> []"
proof (induction e arbitrary: p)
  case (Cons kv e)
  then show ?case
    by (cases "e = []") (auto simp: blank_lines_append blank_lines_line)
qed simp

lemma blank_lines_config: "good_config es \<Longrightarrow> 1 + blank_lines p (config_file es) = length es"
proof (induction es arbitrary: p rule: config_file.induct)
  case (3 e e2 es)
  then have "blank_lines newline (config_file (e2 # es)) = length es"
    by (force simp: good_config_def)
  moreover have "\<forall>kv \<in> set e. good_line kv" "e \<noteq> []" using 3 by (auto simp: good_config_def)
  ultimately show ?case
    using blank_lines_entry [of e p] 3 by (auto simp: blank_lines_append)
qed (auto simp: good_config_def blank_lines_entry)

text \<open>Characters of a key are skipped, characters of a value are counted.\<close>

lemma parse_plain:
  assumes "a \<noteq> 0" and "plain (prev s) cs"
  shows "loopE (parse_step fw (a, pre @ cs @ post)) [length pre..<length pre + length cs] (s, w) =
    Inr (s\<lparr>prev := last (prev s # cs), cur_char := cur_char s + (if writing s then length cs else 0)\<rparr>, w)"
  using assms(2)
proof (induction cs arbitrary: s pre)
  case Nil
  then show ?case by simp
next
  case (Cons c cs)
  let ?k = "if writing s then 1 else 0" and ?d = "(a, pre @ (c # cs) @ post)"
  let ?s = "s\<lparr>prev := c, cur_char := cur_char s + ?k\<rparr>"
  have "parse_step fw ?d (length pre) (s, w) = Inr (?s, w)"
    using assms(1) Cons.prems by (auto simp: parse_step_def nth_append)
  moreover have "loopE (parse_step fw ?d) [Suc (length pre)..<length pre + length (c # cs)] (?s, w) =
      Inr (?s\<lparr>prev := last (c # cs), cur_char := cur_char ?s + (if writing s then length cs else 0)\<rparr>, w)"
    using Cons.IH [of ?s "pre @ [c]"] Cons.prems by (simp del: upt_Suc)
  ultimately have "loopE (parse_step fw ?d) [length pre..<length pre + length (c # cs)] (s, w) =
      Inr (?s\<lparr>prev := last (c # cs), cur_char := cur_char ?s + (if writing s then length cs else 0)\<rparr>, w)"
    by (simp only: loopE_upt_Cons length_Cons) (simp del: upt_Suc)
  then show ?case by (auto simp del: upt_Suc)
qed


lemma space_colon: "space \<noteq> colon"
  by (simp add: char_neq)

lemma plain_colon: "plain p cs \<Longrightarrow> plain p (cs @ [colon])"
  by (induction cs arbitrary: p) (auto simp: char_neq)

lemma parse_space:
  assumes "a \<noteq> 0" and "prev s = colon"
  shows "parse_step fw (a, pre @ space # post) (length pre) (s, w) =
    Inr (s\<lparr>writing := True, prev := space\<rparr>, w)"
  using assms by (simp add: parse_step_def char_neq)

text \<open>The end of a line whose value was counted stores the value.\<close>

lemma parse_newline:
  assumes "pool_ok fw" and "strings_ok fw" and "a \<noteq> 0" and "length (pre @ val @ newline # post) < 2 ^ 63"
    and "entries s = (b, es)" and "b \<noteq> 0" and "cur_struct s < length es"
    and "prev s \<noteq> newline" and "cur_char s = length val" and "0 \<notin> set val"
  shows "\<exists>w'. parse_step fw (a, pre @ val @ newline # post) (length pre + length val) (s, w) =
    Inr (s\<lparr>entries := (b, es[cur_struct s := set_value (cur_value s) (Some (map ucast val)) (es ! cur_struct s)]),
      cur_value := cur_value s + 1, cur_char := 0, writing := False, parse_status := EFI_SUCCESS,
      prev := newline\<rparr>, w')"
proof -
  let ?d = "pre @ val @ newline # post"
  have "take (length val) (drop (length pre + length val - length val) ?d) = val" by simp
  then obtain w' where "end_line fw (a, ?d) (length pre + length val) (s, w) =
      Inr (s\<lparr>entries := (b, es[cur_struct s := set_value (cur_value s) (Some (map ucast val)) (es ! cur_struct s)]),
        cur_value := cur_value s + 1, cur_char := 0, writing := False, parse_status := EFI_SUCCESS\<rparr>, w')"
    using end_line_eq [OF assms(1,3) _ _ assms(4) assms(5,6,7), of "length pre + length val" w] assms(2,9,10)
    by auto
  moreover have "rdb (a, ?d) (length pre + length val) = Inr newline"
    using assms(3) by (simp add: nth_append)
  ultimately show ?thesis using assms(8) by (simp add: parse_step_def)
qed

lemma parse_line:
  assumes fw: "pool_ok fw" "strings_ok fw" "a \<noteq> 0" "length (pre @ config_line kv @ post) < 2 ^ 63"
    and s: "entries s = (b, es)" "b \<noteq> 0" "cur_struct s < length es" "\<not> writing s" "cur_char s = 0" "prev s \<noteq> colon"
    and kv: "good_line kv"
  shows "\<exists>w'. loopE (parse_step fw (a, pre @ config_line kv @ post))
      [length pre..<length pre + length (config_line kv)] (s, w) =
    Inr (s\<lparr>entries := (b, es[cur_struct s := set_value (cur_value s) (value_at [kv] 0) (es ! cur_struct s)]),
      cur_value := cur_value s + 1, cur_char := 0, writing := False, parse_status := EFI_SUCCESS,
      prev := newline\<rparr>, w')"
proof -
  let ?k = "fst kv @ [colon]" and ?v = "snd kv"
  let ?d = "pre @ config_line kv @ post"
  let ?p = "length pre + length ?k"
  define s1 where "s1 = s\<lparr>prev := colon\<rparr>"
  define s2 where "s2 = s1\<lparr>writing := True, prev := space\<rparr>"
  define s3 where "s3 = s2\<lparr>prev := last (space # ?v), cur_char := length ?v\<rparr>"
  have d: "?d = pre @ ?k @ (space # ?v @ newline # post)" "?d = (pre @ ?k) @ space # (?v @ newline # post)"
    "?d = (pre @ ?k @ [space]) @ ?v @ newline # post"
    by (simp_all add: config_line_def)
  have plain: "plain (prev s) ?k" "plain space ?v"
    using kv plain_start [OF s(6), of "fst kv"] plain_start [OF space_colon, of ?v]
    by (simp_all add: good_line_def plain_colon)
  have l1: "loopE (parse_step fw (a, ?d)) [length pre..<?p] (s, w) = Inr (s1, w)"
    using parse_plain [OF fw(3) plain(1), of fw pre "space # ?v @ newline # post" w] s(4,5)
    unfolding d(1) [symmetric] by (simp add: s1_def)
  have l2: "parse_step fw (a, ?d) ?p (s1, w) = Inr (s2, w)"
    using parse_space [OF fw(3), of s1 fw "pre @ ?k" "?v @ newline # post" w]
    unfolding d(2) [symmetric] by (simp add: s1_def s2_def)
  have "loopE (parse_step fw (a, ?d)) [length (pre @ ?k @ [space])..<length (pre @ ?k @ [space]) + length ?v] (s2, w)
      = Inr (s2\<lparr>prev := last (prev s2 # ?v), cur_char := cur_char s2 + (if writing s2 then length ?v else 0)\<rparr>, w)"
    unfolding d(3) by (rule parse_plain [OF fw(3)]) (use plain(2) in \<open>simp add: s2_def\<close>)
  then have l3: "loopE (parse_step fw (a, ?d)) [Suc ?p..<Suc ?p + length ?v] (s2, w) = Inr (s3, w)"
    using s(5) by (simp add: s1_def s2_def s3_def del: upt_Suc)
  have "\<exists>w'. parse_step fw (a, ?d) (length (pre @ ?k @ [space]) + length ?v) (s3, w) =
    Inr (s3\<lparr>entries := (b, es[cur_struct s3 := set_value (cur_value s3) (Some (map ucast ?v)) (es ! cur_struct s3)]),
      cur_value := cur_value s3 + 1, cur_char := 0, writing := False, parse_status := EFI_SUCCESS,
      prev := newline\<rparr>, w')"
    unfolding d(3)
    by (rule parse_newline [OF fw(1,2,3)])
      (use fw(4) s kv plain_last [OF plain(2)] in \<open>auto simp: s1_def s2_def s3_def good_line_def config_line_def char_neq\<close>)
  then obtain w' where l4: "parse_step fw (a, ?d) (Suc ?p + length ?v) (s3, w) =
    Inr (s\<lparr>entries := (b, es[cur_struct s := set_value (cur_value s) (Some (map ucast ?v)) (es ! cur_struct s)]),
      cur_value := cur_value s + 1, cur_char := 0, writing := False, parse_status := EFI_SUCCESS,
      prev := newline\<rparr>, w')"
    by (auto simp: s1_def s2_def s3_def)
  have "length pre + length (config_line kv) = Suc (Suc ?p + length ?v)" by (simp add: config_line_def)
  moreover have "loopE (parse_step fw (a, ?d)) [length pre..<Suc (Suc ?p + length ?v)] (s, w) =
      bindE (loopE (parse_step fw (a, ?d)) [length pre..<?p] (s, w)) (\<lambda>sw.
      bindE (parse_step fw (a, ?d) ?p sw) (\<lambda>sw.
      bindE (loopE (parse_step fw (a, ?d)) [Suc ?p..<Suc ?p + length ?v] sw)
        (parse_step fw (a, ?d) (Suc ?p + length ?v))))"
    by (rule loopE_upt_cut) simp_all
  ultimately show ?thesis using l4
    by (simp only: l1 l2 l3 bindE_simps value_at_def) (simp del: upt_Suc)
qed


fun set_values :: "nat \<Rightarrow> (u8 list \<times> u8 list) list \<Rightarrow> BOOT_ENTRY \<Rightarrow> BOOT_ENTRY" where
  "set_values v [] e = e"
| "set_values v (kv # ls) e = set_values (Suc v) ls (set_value v (value_at [kv] 0) e)"

lemma set_values_late: "5 \<le> v \<Longrightarrow> set_values v ls e = e"
  by (induction ls arbitrary: v e) (auto simp: set_value_def)

lemma set_values_entry: "set_values 0 ls zero_entry = entry_of ls"
proof -
  consider "ls = []" | k1 where "ls = [k1]" | k1 k2 where "ls = [k1, k2]" | k1 k2 k3 where "ls = [k1, k2, k3]"
    | k1 k2 k3 k4 where "ls = [k1, k2, k3, k4]" | k1 k2 k3 k4 k5 r where "ls = k1 # k2 # k3 # k4 # k5 # r"
    by (metis (full_types) list.exhaust)
  then show ?thesis
    by cases (auto simp: entry_of_def zero_entry_def value_at_def set_value_def set_values_late numeral_eq_Suc)
qed

text \<open>The lines of one entry, from a state at the beginning of a line.\<close>

definition line_start :: "parse_state \<Rightarrow> bool" where
  "line_start s \<longleftrightarrow> \<not> writing s \<and> cur_char s = 0 \<and> prev s \<noteq> colon"

lemma parse_lines:
  assumes "pool_ok fw" "strings_ok fw" "a \<noteq> 0" "length (pre @ concat (map config_line ls) @ post) < 2 ^ 63"
    and "entries s = (b, es)" "b \<noteq> 0" "cur_struct s < length es" "line_start s"
    and "\<forall>kv \<in> set ls. good_line kv" and "ls \<noteq> []"
  shows "\<exists>w'. loopE (parse_step fw (a, pre @ concat (map config_line ls) @ post))
      [length pre..<length pre + length (concat (map config_line ls))] (s, w) =
    Inr (s\<lparr>entries := (b, es[cur_struct s := set_values (cur_value s) ls (es ! cur_struct s)]),
      cur_value := cur_value s + length ls, cur_char := 0, writing := False, parse_status := EFI_SUCCESS,
      prev := newline\<rparr>, w')"
  using assms(4-10)
proof (induction ls arbitrary: pre s es w)
  case Nil
  then show ?case by simp
next
  case (Cons kv ls)
  let ?rest = "concat (map config_line ls)" and ?p = "length pre + length (config_line kv)"
  let ?d = "pre @ concat (map config_line (kv # ls)) @ post"
  have d: "?d = pre @ config_line kv @ (?rest @ post)" "?d = (pre @ config_line kv) @ ?rest @ post" by simp_all
  define s1 where "s1 = s\<lparr>entries := (b, es[cur_struct s := set_value (cur_value s) (value_at [kv] 0) (es ! cur_struct s)]),
      cur_value := cur_value s + 1, cur_char := 0, writing := False, parse_status := EFI_SUCCESS,
      prev := newline\<rparr>"
  have "\<exists>w1. loopE (parse_step fw (a, ?d)) [length pre..<?p] (s, w) = Inr (s1, w1)"
    unfolding d(1) s1_def
    by (rule parse_line [OF assms(1,2,3)]) (use Cons.prems in \<open>auto simp: line_start_def\<close>)
  then obtain w1 where l1: "loopE (parse_step fw (a, ?d)) [length pre..<?p] (s, w) = Inr (s1, w1)" ..
  have cut: "loopE (parse_step fw (a, ?d)) [length pre..<?p + length ?rest] (s, w) =
      loopE (parse_step fw (a, ?d)) [?p..<?p + length ?rest] (s1, w1)"
    using l1 by (subst loopE_upt_split [of _ ?p]) simp_all
  show ?case
  proof (cases "ls = []")
    case True
    with cut show ?thesis by (simp add: s1_def)
  next
    case False
    have "\<exists>w'. loopE (parse_step fw (a, ?d)) [length (pre @ config_line kv)..<length (pre @ config_line kv) + length ?rest]
        (s1, w1) =
      Inr (s1\<lparr>entries := (b, (snd (entries s1))[cur_struct s1 := set_values (cur_value s1) ls (snd (entries s1) ! cur_struct s1)]),
        cur_value := cur_value s1 + length ls, cur_char := 0, writing := False, parse_status := EFI_SUCCESS,
        prev := newline\<rparr>, w')"
      unfolding d(2)
      by (rule Cons.IH) (use Cons.prems False in \<open>auto simp: s1_def line_start_def char_neq\<close>)
    with cut Cons.prems(4) show ?thesis by (auto simp: s1_def add.assoc)
  qed
qed

lemma parse_config:
  assumes "pool_ok fw" "strings_ok fw" "a \<noteq> 0" "b \<noteq> 0"
    and "length (pre @ config_file cs) < 2 ^ 63" and "good_config cs" and "line_start s" and "cur_value s = 0"
    and "entries s = (b, pes @ replicate (length cs) zero_entry)" and "cur_struct s = length pes"
  shows "\<exists>s' w'. loopE (parse_step fw (a, pre @ config_file cs)) [length pre..<length (pre @ config_file cs)] (s, w) =
    Inr (s', w') \<and> entries s' = (b, pes @ map entry_of cs) \<and> parse_status s' = EFI_SUCCESS"
  using assms(5-10)
proof (induction cs arbitrary: pre s pes w rule: config_file.induct)
  case 1
  then show ?case by (simp add: good_config_def)
next
  case (2 e)
  have "\<exists>w'. loopE (parse_step fw (a, pre @ concat (map config_line e) @ []))
      [length pre..<length pre + length (concat (map config_line e))] (s, w) =
    Inr (s\<lparr>entries := (b, (pes @ [zero_entry])[cur_struct s := set_values (cur_value s) e ((pes @ [zero_entry]) ! cur_struct s)]),
      cur_value := cur_value s + length e, cur_char := 0, writing := False, parse_status := EFI_SUCCESS,
      prev := newline\<rparr>, w')"
    by (rule parse_lines [OF assms(1,2,3)]) (use 2 assms(4) in \<open>auto simp: good_config_def\<close>)
  with 2 show ?case by (auto simp: set_values_entry)
next
  case (3 e e2 es)
  let ?E = "concat (map config_line e)" and ?F = "config_file (e2 # es)" and ?cs = "e # e2 # es"
  let ?d = "pre @ config_file ?cs" and ?p = "length pre + length (concat (map config_line e))"
  have d: "?d = pre @ ?E @ (newline # ?F)" "?d = (pre @ ?E @ [newline]) @ ?F" by simp_all
  define s1 where "s1 = s\<lparr>entries := (b, (pes @ [entry_of e]) @ replicate (length (e2 # es)) zero_entry),
      cur_value := length e, cur_char := 0, writing := False, parse_status := EFI_SUCCESS, prev := newline\<rparr>"
  have "\<exists>w'. loopE (parse_step fw (a, ?d)) [length pre..<?p] (s, w) =
    Inr (s\<lparr>entries := (b, (pes @ replicate (length ?cs) zero_entry)[cur_struct s :=
          set_values (cur_value s) e ((pes @ replicate (length ?cs) zero_entry) ! cur_struct s)]),
      cur_value := cur_value s + length e, cur_char := 0, writing := False, parse_status := EFI_SUCCESS,
      prev := newline\<rparr>, w')"
    unfolding d(1) by (rule parse_lines [OF assms(1,2,3)]) (use 3 assms(4) in \<open>auto simp: good_config_def\<close>)
  then obtain w1 where l1: "loopE (parse_step fw (a, ?d)) [length pre..<?p] (s, w) = Inr (s1, w1)"
    using 3 by (auto simp: s1_def set_values_entry list_update_append)
  define s2 where "s2 = s1\<lparr>cur_struct := length (pes @ [entry_of e]), cur_value := 0\<rparr>"
  have "rdb (a, ?d) ?p = Inr newline" using assms(3) by (simp add: nth_append)
  then have l2: "parse_step fw (a, ?d) ?p (s1, w1) = Inr (s2, w1)"
    using 3 by (simp add: parse_step_def s1_def s2_def)
  have "\<exists>s' w'. loopE (parse_step fw (a, ?d)) [length (pre @ ?E @ [newline])..<length ?d] (s2, w1) = Inr (s', w') \<and>
      entries s' = (b, (pes @ [entry_of e]) @ map entry_of (e2 # es)) \<and> parse_status s' = EFI_SUCCESS"
    unfolding d(2)
    by (rule "3.IH") (use 3 in \<open>auto simp: s1_def s2_def good_config_def line_start_def char_neq\<close>)
  moreover have "loopE (parse_step fw (a, ?d)) [length pre..<length ?d] (s, w) =
      loopE (parse_step fw (a, ?d)) [length (pre @ ?E @ [newline])..<length ?d] (s2, w1)"
    using l1 l2 by (subst loopE_upt_split [of _ ?p]) (simp_all add: loopE_upt_Cons del: upt_Suc)
  ultimately show ?case by simp
qed

lemma ParseConfigFile_config:
  assumes "pool_ok fw" and "strings_ok fw" and "file_at fw fsh name (config_file cs)"
    and "good_config cs" and "length (config_file cs) < 2 ^ 58"
  shows "\<exists>b w'. ParseConfigFile fw fsh (Some name) w =
      Inr (EFI_SUCCESS, (b, map entry_of cs), word_of_nat (length cs), w') \<and> b \<noteq> 0"
proof -
  let ?bs = "config_file cs" and ?n = "1 + blank_lines 0 (config_file cs)"
  obtain a w1 where rf: "ReadFile fw fsh (Some name) w =
      Inr (EFI_SUCCESS, Some (a, ?bs), Some (word_of_nat (length ?bs)), w1)" and "a \<noteq> 0"
    using ReadFile_contents [OF assms(1,3)] by blast
  have n: "?n = length cs" by (rule blank_lines_config [OF assms(4)])
  have "?n \<le> 2 ^ 58" using blank_lines_le [of 0 ?bs] assms(5) by simp
  then have "unat (word_of_nat (length cs) * 40 :: u64) div 40 = length cs"
    unfolding n using array_size [of "length cs" 40] by simp
  then obtain b w2 where al: "AllocateZeroArray fw 40 zero_entry (word_of_nat (length cs) * 40) w1 =
      ((b, replicate (length cs) zero_entry), w2)" and "b \<noteq> 0"
    using AllocateZeroArray_ok [OF assms(1)] by metis
  let ?s0 = "\<lparr>entries = (b, replicate (length cs) zero_entry), cur_struct = 0, cur_value = 0, prev = 0,
      cur_char = 0, writing = False, parse_status = EFI_SUCCESS\<rparr>"
  have "\<exists>s' w'. loopE (parse_step fw (a, [] @ ?bs)) [length ([] :: u8 list)..<length ([] @ ?bs)] (?s0, w2) =
      Inr (s', w') \<and> entries s' = (b, [] @ map entry_of cs) \<and> parse_status s' = EFI_SUCCESS"
    by (rule parse_config [OF assms(1,2) \<open>a \<noteq> 0\<close> \<open>b \<noteq> 0\<close>])
      (use assms(4,5) in \<open>auto simp: line_start_def colon_def\<close>)
  with rf al assms(5) count_loop [OF \<open>a \<noteq> 0\<close>, of ?bs] n \<open>b \<noteq> 0\<close> show ?thesis
    by (auto simp: ParseConfigFile_def)
qed

section \<open>The list of textures\<close>

text \<open>
  \<open>ParseTexturesConfigFile\<close> ends every line of the buffer with a null character in place and
  converts it. The state of the second loop: the buffer, the names, the offset of the current
  line, the number of names stored and the world.
\<close>

definition texture_step ::
  "('w, 'x) fw_scheme \<Rightarrow> nat \<Rightarrow> u8 buf \<times> CHAR16s buf \<times> nat \<times> nat \<times> 'w
    \<Rightarrow> (u8 buf \<times> CHAR16s buf \<times> nat \<times> nat \<times> 'w) result" where
  "texture_step fw i st =
     (case st of (FileData, TexturesFiles, CurFileNameStart, CurTexture, w) \<Rightarrow>
        bindE (rdb FileData i) (\<lambda>c.
        if c = newline then
          bindE (wrb FileData i 0) (\<lambda>FileData.
          let NameSize = AsciiStrLen fw (drop CurFileNameStart (snd FileData)) + 1 in
          case AllocateZeroPool fw (NameSize * 2) w of (ad, w) \<Rightarrow>
          bindE (wrb TexturesFiles CurTexture (if ad = 0 then None else
                   Some (snd (AsciiStrToUnicodeStrS fw (drop CurFileNameStart (snd FileData)) ad NameSize))))
            (\<lambda>TexturesFiles. Inr (FileData, TexturesFiles, i + 1, CurTexture + 1, w)))
        else Inr st))"

definition ParseTexturesConfigFile ::
  "('w, 'x) fw_scheme \<Rightarrow> EFI_HANDLE \<Rightarrow> CHAR16s \<Rightarrow> 'w
    \<Rightarrow> (EFI_STATUS \<times> (CHAR16s buf \<times> u64) option \<times> 'w) result" where
  "ParseTexturesConfigFile fw SelfFSHandle Filename w =
     (if Filename = None then Inr (EFI_INVALID_PARAMETER, None, w) else
      bindE (ReadFile fw SelfFSHandle Filename w) (\<lambda>(Status, FileData, FileLength, w).
      case CheckError fw Status (Some (wide ''while reading textures config'')) w of (failed, w) \<Rightarrow>
      if failed then Inr (Status, None, w) else
      bindE (use FileLength) (\<lambda>FileLength.
      bindE (use FileData) (\<lambda>FileData.
      bindE (loopE (\<lambda>i n. bindE (rdb FileData i) (\<lambda>c. Inr (if c = newline then n + 1 else n)))
               [0..<unat FileLength] 0) (\<lambda>TexturesCount.
      case AllocateZeroArray fw 8 None (8 * word_of_nat TexturesCount) w of (TexturesFiles, w) \<Rightarrow>
      bindE (loopE (texture_step fw) [0..<unat FileLength] (FileData, TexturesFiles, 0, 0, w))
        (\<lambda>(FileData, TexturesFiles, _, _, w).
          Inr (Status, Some (TexturesFiles, word_of_nat TexturesCount), MyFreePool fw (fst FileData) w)))))))"

text \<open>The reference format: one name to a line; what follows the last line break is ignored.\<close>

definition textures_file :: "u8 list list \<Rightarrow> u8 list \<Rightarrow> u8 list" where
  "textures_file names tail = concat (map (\<lambda>l. l @ [newline]) names) @ tail"

definition good_names :: "u8 list list \<Rightarrow> u8 list \<Rightarrow> bool" where
  "good_names names tail \<longleftrightarrow> (\<forall>l \<in> set names. newline \<notin> set l \<and> 0 \<notin> set l) \<and> newline \<notin> set tail"

lemma textures_count:
  assumes "a \<noteq> 0"
  shows "loopE (\<lambda>i n. bindE (rdb (a, bs) i) (\<lambda>c. Inr (if c = newline then n + 1 else n))) [0..<length bs] 0 =
    Inr (count_list bs newline)"
proof -
  have "\<exists>n. loopE (\<lambda>i n. bindE (rdb (a, bs) i) (\<lambda>c. Inr (if c = newline then n + 1 else n))) [0..<length bs] 0 =
      Inr n \<and> n = count_list (take (length bs) bs) newline"
    by (rule loopE_upt_total [where P = "\<lambda>i n. n = count_list (take i bs) newline"])
      (use assms in \<open>auto simp: take_Suc_conv_app_nth\<close>)
  then show ?thesis by simp
qed

lemma textures_file_count:
  assumes "good_names names tail"
  shows "count_list (textures_file names tail) newline = length names"
proof -
  have "count_list (concat (map (\<lambda>l. l @ [newline]) names)) newline = length names"
    using assms by (induction names) (auto simp: good_names_def count_notin)
  then show ?thesis using assms by (simp add: textures_file_def good_names_def count_notin)
qed

lemma texture_skip:
  assumes "a \<noteq> 0" and "newline \<notin> set l"
  shows "loopE (texture_step fw) [length pre..<length pre + length l] ((a, pre @ l @ post), st) =
    Inr ((a, pre @ l @ post), st)"
proof -
  have "\<exists>s'. loopE (texture_step fw) [length pre..<length pre + length l] ((a, pre @ l @ post), st) = Inr s' \<and>
      s' = ((a, pre @ l @ post), st)"
  proof (rule loopE_upt_total [where P = "\<lambda>_ s. s = ((a, pre @ l @ post), st)"])
    fix i s
    assume i: "length pre \<le> i" "i < length pre + length l" and s: "s = ((a, pre @ l @ post), st)"
    then have "(pre @ l @ post) ! i \<in> set l" by (auto simp: nth_append in_set_conv_nth)
    then have "(pre @ l @ post) ! i \<noteq> newline" using assms(2) by metis
    with i s assms(1) show "\<exists>s'. texture_step fw i s = Inr s' \<and> s' = ((a, pre @ l @ post), st)"
      by (cases st) (auto simp: texture_step_def)
  qed auto
  then show ?thesis by blast
qed

lemma texture_line:
  assumes "pool_ok fw" and "strings_ok fw" and "a \<noteq> 0" and "b \<noteq> 0" and "0 \<notin> set l" and "length l < 2 ^ 62"
    and "k < length tf"
  shows "\<exists>w'. texture_step fw (length pre + length l) ((a, pre @ l @ newline # post), (b, tf), length pre, k, w) =
    Inr ((a, pre @ l @ 0 # post), (b, tf[k := Some (map ucast l)]), length pre + length l + 1, k + 1, w')"
proof -
  let ?n = "word_of_nat (length l) + 1 :: u64"
  have n: "length l < unat ?n"
    using assms(6) by (simp add: unat_add_no_wrap)
  obtain ad w' where al: "AllocateZeroPool fw (?n * 2) w = (ad, w')" and "ad \<noteq> 0"
    using assms(1) unfolding pool_ok_def by (metis prod.collapse)
  have len: "AsciiStrLen fw (l @ 0 # post) = word_of_nat (length l)"
    by (rule strings_okD(2) [OF assms(2,5)]) (use assms(6) in simp)
  have conv: "AsciiStrToUnicodeStrS fw (l @ 0 # post) ad ?n = (EFI_SUCCESS, map ucast l)"
    by (rule strings_okD(1) [OF assms(2,5) \<open>ad \<noteq> 0\<close> n])
  have upd: "wrb (a, pre @ l @ newline # post) (length pre + length l) 0 = Inr (a, pre @ l @ 0 # post)"
    using assms(3) by (simp add: list_update_append)
  have rd: "rdb (a, pre @ l @ newline # post) (length pre + length l) = Inr newline"
    using assms(3) by (simp add: nth_append)
  show ?thesis
    using al len conv upd rd \<open>ad \<noteq> 0\<close> assms(4,7) by (simp add: texture_step_def)
qed

lemma textures_loop:
  assumes "pool_ok fw" and "strings_ok fw" and "a \<noteq> 0" and "b \<noteq> 0"
    and "good_names names tail" and "length (textures_file names tail) < 2 ^ 62"
  shows "\<exists>d st k w'. loopE (texture_step fw) [length pre..<length (pre @ textures_file names tail)]
      ((a, pre @ textures_file names tail), (b, acc @ replicate (length names) None), length pre, length acc, w) =
    Inr ((a, d), (b, acc @ map (\<lambda>l. Some (map ucast l)) names), st, k, w')"
  using assms(5,6)
proof (induction names arbitrary: pre acc w)
  case Nil
  then show ?case
    using texture_skip [OF assms(3), of tail fw pre "[]"] by (auto simp: textures_file_def good_names_def)
next
  case (Cons l names)
  let ?F = "textures_file names tail" and ?p = "length pre + length l" and ?r = "replicate (length names) None"
  have F: "textures_file (l # names) tail = l @ newline # ?F" by (simp add: textures_file_def)
  have l: "newline \<notin> set l" "0 \<notin> set l" "length l < 2 ^ 62"
    using Cons.prems by (auto simp: good_names_def F)
  have l1: "loopE (texture_step fw) [length pre..<?p] ((a, pre @ l @ newline # ?F), st) =
      Inr ((a, pre @ l @ newline # ?F), st)" for st
    by (rule texture_skip [OF assms(3) l(1)])
  obtain w1 where l2: "texture_step fw ?p ((a, pre @ l @ newline # ?F), (b, acc @ None # ?r), length pre, length acc, w) =
      Inr ((a, pre @ l @ 0 # ?F), (b, (acc @ [Some (map ucast l)]) @ ?r), Suc ?p, Suc (length acc), w1)"
    using texture_line [OF assms(1-4) l(2,3), of "length acc" "acc @ None # ?r" pre ?F w] by auto
  have "\<exists>d st k w'. loopE (texture_step fw) [length (pre @ l @ [0])..<length ((pre @ l @ [0]) @ ?F)]
      ((a, (pre @ l @ [0]) @ ?F), (b, (acc @ [Some (map ucast l)]) @ ?r), length (pre @ l @ [0]),
        length (acc @ [Some (map ucast l)]), w1) =
      Inr ((a, d), (b, (acc @ [Some (map ucast l)]) @ map (\<lambda>l. Some (map ucast l)) names), st, k, w')"
    by (rule Cons.IH) (use Cons.prems in \<open>auto simp: good_names_def F\<close>)
  moreover have "loopE (texture_step fw) [length pre..<length (pre @ textures_file (l # names) tail)]
      ((a, pre @ l @ newline # ?F), (b, acc @ None # ?r), length pre, length acc, w) =
      loopE (texture_step fw) [Suc ?p..<length (pre @ textures_file (l # names) tail)]
      ((a, pre @ l @ 0 # ?F), (b, (acc @ [Some (map ucast l)]) @ ?r), Suc ?p, Suc (length acc), w1)"
    using l1 l2 by (subst loopE_upt_split [of _ ?p]) (simp_all add: F loopE_upt_Cons del: upt_Suc)
  ultimately show ?case by (simp add: F del: upt_Suc)
qed

lemma ParseTexturesConfigFile_names:
  assumes "pool_ok fw" and "strings_ok fw" and "file_at fw fsh name (textures_file names tail)"
    and "good_names names tail" and "length (textures_file names tail) < 2 ^ 60"
  shows "\<exists>b w'. ParseTexturesConfigFile fw fsh (Some name) w =
      Inr (EFI_SUCCESS, Some ((b, map (\<lambda>l. Some (map ucast l)) names), word_of_nat (length names)), w') \<and> b \<noteq> 0"
proof -
  let ?bs = "textures_file names tail"
  obtain a w1 where rf: "ReadFile fw fsh (Some name) w =
      Inr (EFI_SUCCESS, Some (a, ?bs), Some (word_of_nat (length ?bs)), w1)" and "a \<noteq> 0"
    using ReadFile_contents [OF assms(1,3)] by blast
  have "length names \<le> length ?bs"
    using textures_file_count [OF assms(4)] count_le_length [of ?bs newline] by simp
  then have "unat (8 * word_of_nat (length names) :: u64) div 8 = length names"
    using array_size [of "length names" 8] assms(5) by (simp add: mult.commute)
  then obtain b w2 where al: "AllocateZeroArray fw 8 (None :: CHAR16s) (8 * word_of_nat (length names)) w1 =
      ((b, replicate (length names) None), w2)" and "b \<noteq> 0"
    using AllocateZeroArray_ok [OF assms(1)] by metis
  have "\<exists>d st k w'. loopE (texture_step fw) [0..<length ?bs]
      ((a, ?bs), (b, replicate (length names) None), 0, 0, w2) =
      Inr ((a, d), (b, map (\<lambda>l. Some (map ucast l)) names), st, k, w')"
    using textures_loop [OF assms(1,2) \<open>a \<noteq> 0\<close> \<open>b \<noteq> 0\<close> assms(4), of "[]" "[]" w2] assms(5) by simp
  with rf al textures_count [OF \<open>a \<noteq> 0\<close>, of ?bs] textures_file_count [OF assms(4)] assms(5) \<open>b \<noteq> 0\<close>
  show ?thesis by (auto simp: ParseTexturesConfigFile_def)
qed

end
