(* ===== verification/Graphics.thy ===== *)
theory Graphics
  imports Table_Loops
begin

text \<open>
  \<open>BootManager2D/src/Graphics.c\<close>: halving an image and laying one image over another. Images
  are row-major arrays of pixels; a pixel takes four bytes.
\<close>

section \<open>The operations\<close>

definition CutInHalf_step ::
  "pixel buf \<Rightarrow> u64 \<Rightarrow> u64 \<Rightarrow> nat \<Rightarrow> nat \<Rightarrow> pixel buf \<Rightarrow> pixel buf result" where
  "CutInHalf_step Img Width NewWidth i j Result =
     (if i mod 2 = 0 \<and> j mod 2 = 0
      then bindE (rdb Img (idx64 i Width j))
             (\<lambda>p. wrb Result (idx64 (i div 2) NewWidth (j div 2)) p)
      else Inr Result)"

definition CutInHalf ::
  "('w, 'x) fw_scheme \<Rightarrow> pixel buf \<Rightarrow> u64 \<Rightarrow> u64 \<Rightarrow> 'w \<Rightarrow> (pixel buf \<times> 'w) result" where
  "CutInHalf fw Img Width Height w =
     (let NewWidth = Width div 2;
          NewHeight = Height div 2;
          (Result, w) = AllocateZeroArray fw 4 zero_pixel (NewWidth * NewHeight * 4) w
      in bindE
           (loopE (\<lambda>i. loopE (\<lambda>j. CutInHalf_step Img Width NewWidth i j) [0..<unat Width])
              [0..<unat Height] Result)
           (\<lambda>Result. Inr (Result, w)))"

definition CombineWithTransparency_step ::
  "pixel buf \<Rightarrow> pixel buf \<Rightarrow> u64 \<Rightarrow> nat \<Rightarrow> nat \<Rightarrow> pixel buf \<Rightarrow> pixel buf result" where
  "CombineWithTransparency_step Foreground Background Width y x Result =
     bindE (rdb Foreground (idx64 y Width x)) (\<lambda>f.
     bindE (wrb Result (idx64 y Width x) f) (\<lambda>Result.
     bindE (rdb Result (idx64 y Width x)) (\<lambda>r.
       if Reserved r \<noteq> 0xff
       then bindE (rdb Background (idx64 y Width x)) (\<lambda>b. wrb Result (idx64 y Width x) b)
       else Inr Result)))"

definition CombineWithTransparency ::
  "('w, 'x) fw_scheme \<Rightarrow> pixel buf \<Rightarrow> pixel buf \<Rightarrow> u64 \<Rightarrow> u64 \<Rightarrow> 'w \<Rightarrow> (pixel buf \<times> 'w) result" where
  "CombineWithTransparency fw Foreground Background Width Height w =
     (let (Result, w) = AllocateZeroArray fw 4 zero_pixel (4 * Width * Height) w
      in bindE
           (loopE (\<lambda>y. loopE (\<lambda>x. CombineWithTransparency_step Foreground Background Width y x)
                     [0..<unat Width])
              [0..<unat Height] Result)
           (\<lambda>Result. Inr (Result, w)))"

lemma unat_pixels_size:
  fixes a b :: u64
  assumes "unat a * unat b * 4 < 2 ^ 64"
  shows "unat (a * b * 4) = unat a * unat b * 4" and "unat (4 * a * b) = unat a * unat b * 4"
proof -
  have "unat a * unat b < 2 ^ LENGTH(64)" using assms by simp
  then have ab: "unat (a * b) = unat a * unat b" by (rule unat_mult_no_wrap)
  with assms have "unat (a * b) * unat (4 :: u64) < 2 ^ LENGTH(64)" by simp
  then show e: "unat (a * b * 4) = unat a * unat b * 4"
    using ab by (simp add: unat_mult_no_wrap)
  have "4 * a * b = a * b * 4" by (simp add: ac_simps)
  then show "unat (4 * a * b) = unat a * unat b * 4" by (simp only: e)
qed

section \<open>Laying one image over another\<close>

text \<open>The pixel of the combined image: the background shows where the foreground is not opaque.\<close>

definition over_pixel :: "pixel \<Rightarrow> pixel \<Rightarrow> pixel" where
  "over_pixel f b = (if Reserved f \<noteq> 0xff then b else f)"

lemma CombineWithTransparency_pixels:
  assumes "pool_ok fw" and "af \<noteq> 0" and "ab \<noteq> 0"
    and "length fg = unat Width * unat Height" and "length bg = unat Width * unat Height"
    and "unat Width * unat Height * 4 < 2 ^ 64"
  shows "\<exists>a px w'. CombineWithTransparency fw (af, fg) (ab, bg) Width Height w = Inr ((a, px), w') \<and>
    a \<noteq> 0 \<and> length px = unat Width * unat Height \<and>
    (\<forall>y < unat Height. \<forall>x < unat Width.
       px ! (y * unat Width + x) = over_pixel (fg ! (y * unat Width + x)) (bg ! (y * unat Width + x)))"
proof -
  let ?W = "unat Width" and ?H = "unat Height"
  have size: "unat (4 * Width * Height) div 4 = ?W * ?H"
    using unat_pixels_size(2) [OF assms(6)] by simp
  obtain a w' where al: "AllocateZeroArray fw 4 zero_pixel (4 * Width * Height) w =
      ((a, replicate (?W * ?H) zero_pixel), w')" and "a \<noteq> 0"
    using AllocateZeroArray_ok [OF assms(1)] size by metis
  have idx: "idx64 y Width x = y * ?W + x" if "y < ?H" "x < ?W" for y x
    by (rule idx64_eq [OF that(2,1)]) (use assms(6) in linarith)
  have "\<exists>r'. loopE (\<lambda>y. loopE (\<lambda>x. CombineWithTransparency_step (af, fg) (ab, bg) Width y x) [0..<?W])
        [0..<?H] (a, replicate (?W * ?H) zero_pixel) = Inr (a, r') \<and> length r' = ?W * ?H \<and>
      (\<forall>y < ?H. \<forall>x < ?W. r' ! (y * ?W + x) = over_pixel (fg ! (y * ?W + x)) (bg ! (y * ?W + x)))"
  proof (rule table_loop)
    fix y x and r :: "pixel list"
    assume "y < ?H" "x < ?W" "length r = ?W * ?H"
    moreover from this have "y * ?W + x < ?W * ?H" by (intro row_major_less)
    ultimately show "CombineWithTransparency_step (af, fg) (ab, bg) Width y x (a, r) =
        Inr (a, r[y * ?W + x := over_pixel (fg ! (y * ?W + x)) (bg ! (y * ?W + x))])"
      using assms \<open>a \<noteq> 0\<close> by (simp add: CombineWithTransparency_step_def idx over_pixel_def)
  qed simp
  with al \<open>a \<noteq> 0\<close> show ?thesis
    by (fastforce simp: CombineWithTransparency_def)
qed

text \<open>A foreground with fewer pixels than the size that is passed is read behind its end.\<close>

lemma CombineWithTransparency_short:
  assumes "pool_ok fw" and "af \<noteq> 0" and "ab \<noteq> 0"
    and "length fg < unat Width * unat Height" and "unat Width * unat Height * 4 < 2 ^ 64"
  shows "CombineWithTransparency fw (af, fg) (ab, bg) Width Height w = Inl OutOfBounds"
proof -
  let ?W = "unat Width" and ?H = "unat Height" and ?k = "length fg"
  obtain a w' where al: "AllocateZeroArray fw 4 zero_pixel (4 * Width * Height) w =
      ((a, replicate (?W * ?H) zero_pixel), w')" and "a \<noteq> 0"
    using AllocateZeroArray_ok [OF assms(1)] unat_pixels_size(2) [OF assms(5)] by (metis nonzero_mult_div_cancel_right zero_neq_numeral)
  have k: "?k div ?W < ?H" "?k mod ?W < ?W" "?k = ?k div ?W * ?W + ?k mod ?W"
    using row_major_decomp [OF assms(4)] by blast+
  have "?W * ?H < 2 ^ 64" using assms(5) by linarith
  then have idx: "idx64 (?k div ?W) Width (?k mod ?W) = ?k"
    using idx64_eq [OF k(2,1)] by simp
  have "loopE (\<lambda>y. loopE (CombineWithTransparency_step (af, fg) (ab, bg) Width y) [0..<?W]) [0..<?H]
      (a, replicate (?W * ?H) zero_pixel) = Inl OutOfBounds"
  proof (rule table_loop_overrun [where P = "\<lambda>s. fst s = a", OF _ _ _ k(1,2)])
    fix y x e and s s' :: "pixel buf" assume "fst s = a"
    then show "CombineWithTransparency_step (af, fg) (ab, bg) Width y x s = Inr s' \<Longrightarrow> fst s' = a"
      and "CombineWithTransparency_step (af, fg) (ab, bg) Width y x s = Inl e \<Longrightarrow> e = OutOfBounds"
      and "CombineWithTransparency_step (af, fg) (ab, bg) Width (?k div ?W) (?k mod ?W) s \<noteq> Inr s'"
      using assms(2,3) \<open>a \<noteq> 0\<close> idx
      by (auto simp: CombineWithTransparency_step_def rdb_def wrb_def rd_def wr_def bindE_def split: if_splits sum.splits)
  qed simp
  with al show ?thesis by (simp add: CombineWithTransparency_def)
qed

section \<open>Halving an image\<close>

text \<open>The sizes and indices of the halved image, none of which wraps around when the image fits.\<close>

lemma unat_half: "unat (w div 2 :: u64) = unat w div 2"
  by (simp add: unat_div)

lemma half_index_less:
  assumes "j < w" and "i < h"
  shows "(i div 2) * (w div 2) + j div 2 < w * (h::nat)"
proof -
  have "(i div 2) * (w div 2) + j div 2 \<le> i * w + j"
    by (intro add_le_mono mult_le_mono) simp_all
  also have "\<dots> < w * h" using assms by (rule row_major_less)
  finally show ?thesis .
qed

lemma half_size:
  fixes Width Height :: u64
  assumes "unat Width * unat Height * 4 < 2 ^ 64"
  shows "unat (Width div 2 * (Height div 2) * 4) div 4 = (unat Width div 2) * (unat Height div 2)"
proof -
  have "(unat Width div 2) * (unat Height div 2) * 4 \<le> unat Width * unat Height * 4"
    by (intro mult_le_mono1 mult_le_mono) simp_all
  then have "unat (Width div 2) * unat (Height div 2) * 4 < 2 ^ 64"
    unfolding unat_half using assms by (rule le_less_trans)
  from unat_pixels_size(1) [OF this] show ?thesis by (simp add: unat_half)
qed

lemma half_idx:
  assumes "j < unat Width" and "i < h" and "unat Width * h < 2 ^ 64"
  shows "idx64 (i div 2) (Width div 2) (j div 2) = (i div 2) * (unat Width div 2) + j div 2"
proof -
  have "(i div 2) * (unat Width div 2) + j div 2 < 2 ^ 64"
    using half_index_less [OF assms(1,2)] assms(3) by simp
  then show ?thesis by (simp add: idx64_def unat_word_ariths unat_of_nat unat_half mod_simps)
qed

lemma even_half_less: "even (i::nat) \<Longrightarrow> even n \<Longrightarrow> i < n \<Longrightarrow> i div 2 < n div 2"
  by (auto elim!: evenE)

text \<open>
  For even sizes the result is every second pixel of every second row.
\<close>

lemma CutInHalf_pixels:
  assumes "pool_ok fw" and "ai \<noteq> 0" and "length img = unat Width * unat Height"
    and "even (unat Width)" and "even (unat Height)"
    and "unat Width * unat Height * 4 < 2 ^ 64"
  shows "\<exists>a px w'. CutInHalf fw (ai, img) Width Height w = Inr ((a, px), w') \<and> a \<noteq> 0 \<and>
    length px = (unat Width div 2) * (unat Height div 2) \<and>
    (\<forall>y < unat Height div 2. \<forall>x < unat Width div 2.
       px ! (y * (unat Width div 2) + x) = img ! (2 * y * unat Width + 2 * x))"
proof -
  let ?W = "unat Width" and ?H = "unat Height"
  let ?c = "\<lambda>i j. even i \<and> even j"
  have fits: "?W * ?H < 2 ^ 64" using assms(6) by linarith
  obtain a w' where al: "AllocateZeroArray fw 4 zero_pixel (Width div 2 * (Height div 2) * 4) w =
      ((a, replicate ((?W div 2) * (?H div 2)) zero_pixel), w')" and "a \<noteq> 0"
    using AllocateZeroArray_ok [OF assms(1)] half_size [OF assms(6)] by metis
  have place: "(i div 2) * (?W div 2) + j div 2 < (?W div 2) * (?H div 2)"
    if "i < ?H" "j < ?W" "?c i j" for i j
    using that assms(4,5) by (intro row_major_less even_half_less) auto
  have "\<exists>r'. loopE (\<lambda>i. loopE (\<lambda>j. CutInHalf_step (ai, img) Width (Width div 2) i j) [0..<?W])
        [0..<?H] (a, replicate ((?W div 2) * (?H div 2)) zero_pixel) = Inr (a, r') \<and>
      length r' = (?W div 2) * (?H div 2) \<and>
      (\<forall>i < ?H. \<forall>j < ?W. ?c i j \<longrightarrow> r' ! ((i div 2) * (?W div 2) + j div 2) = img ! (i * ?W + j))"
  proof (rule scatter_loop [where mk = "\<lambda>_ _ r. (a, r)"])
    fix i j and r :: "pixel list"
    assume ij: "i < ?H" "j < ?W" and len: "length r = (?W div 2) * (?H div 2)"
    have "i * ?W + j < length img"
      using row_major_less [OF ij(2,1)] assms(3) by simp
    then show "CutInHalf_step (ai, img) Width (Width div 2) i j (a, r) =
        Inr (a, if ?c i j then r[(i div 2) * (?W div 2) + j div 2 := img ! (i * ?W + j)] else r)"
      using assms(2) \<open>a \<noteq> 0\<close> place [OF ij] len
      by (auto simp: CutInHalf_step_def idx64_eq [OF ij(2,1) fits] half_idx [OF ij(2,1) fits] even_iff_mod_2_eq_zero)
  next
    fix i j i' j' assume "j < ?W" "j' < ?W" "?c i j" "?c i' j'"
      and "(i div 2) * (?W div 2) + j div 2 = (i' div 2) * (?W div 2) + j' div 2"
    then show "i = i' \<and> j = j'"
      using row_major_inj [OF even_half_less even_half_less, of j ?W j' "i div 2" "i' div 2"] assms(4)
      by (auto elim!: evenE)
  qed (use place in auto)
  then obtain px where px: "loopE (\<lambda>i. loopE (\<lambda>j. CutInHalf_step (ai, img) Width (Width div 2) i j) [0..<?W])
        [0..<?H] (a, replicate ((?W div 2) * (?H div 2)) zero_pixel) = Inr (a, px)"
    and len: "length px = (?W div 2) * (?H div 2)"
    and val: "\<And>i j. i < ?H \<Longrightarrow> j < ?W \<Longrightarrow> ?c i j \<Longrightarrow>
      px ! ((i div 2) * (?W div 2) + j div 2) = img ! (i * ?W + j)"
    by blast
  have "px ! (y * (?W div 2) + x) = img ! (2 * y * ?W + 2 * x)" if "y < ?H div 2" "x < ?W div 2" for y x
    using val [of "2 * y" "2 * x"] that by simp
  with al px len \<open>a \<noteq> 0\<close> show ?thesis by (auto simp: CutInHalf_def)
qed

text \<open>
  For a size that is odd in one direction some store of the loops is behind the end of the
  result, whatever the image holds. The steps keep the size of the result and fault in no
  other way.
\<close>

definition half_inv :: "u64 \<Rightarrow> nat \<Rightarrow> pixel buf \<Rightarrow> bool" where
  "half_inv a n s \<longleftrightarrow> a \<noteq> 0 \<and> fst s = a \<and> length (snd s) = n"

lemma CutInHalf_step_inv:
  "half_inv a n s \<Longrightarrow> CutInHalf_step Img Width NewWidth i j s = Inr s' \<Longrightarrow> half_inv a n s'"
  by (auto simp: half_inv_def CutInHalf_step_def wrb_Inr split: if_splits)

lemma CutInHalf_step_fault:
  "half_inv a n s \<Longrightarrow> fst Img \<noteq> 0 \<Longrightarrow> CutInHalf_step Img Width NewWidth i j s = Inl e \<Longrightarrow> e = OutOfBounds"
  by (auto simp: half_inv_def CutInHalf_step_def wrb_def rdb_def rd_def wr_def split: if_splits)

lemma odd_size_overrun:
  assumes "0 < w" and "0 < h" and "odd w \<or> odd (h::nat)"
  shows "\<exists>i < h. \<exists>j < w. even i \<and> even j \<and> (w div 2) * (h div 2) \<le> (i div 2) * (w div 2) + j div 2"
proof (cases "odd h")
  case True
  then have "even (h - 1)" and "(h - 1) div 2 = h div 2" by (auto elim!: oddE)
  with assms show ?thesis
    by (intro exI [of _ "h - 1"] conjI exI [of _ 0]) (simp_all add: mult.commute)
next
  case False
  with assms(2) obtain k where "h = 2 * Suc k" by (metis evenE mult_is_0 not0_implies_Suc not_gr0)
  moreover from False assms(3) obtain v where "w = 2 * v + 1" by (metis oddE)
  ultimately show ?thesis
    by (intro exI [of _ "2 * k"] conjI exI [of _ "2 * v"]) simp_all
qed

lemma CutInHalf_odd:
  assumes "pool_ok fw" and "ai \<noteq> 0" and "length img = unat Width * unat Height"
    and "0 < unat Width" and "0 < unat Height" and "odd (unat Width) \<or> odd (unat Height)"
    and "unat Width * unat Height * 4 < 2 ^ 64"
  shows "CutInHalf fw (ai, img) Width Height w = Inl OutOfBounds"
proof -
  let ?W = "unat Width" and ?H = "unat Height" and ?n = "(unat Width div 2) * (unat Height div 2)"
  let ?step = "CutInHalf_step (ai, img) Width (Width div 2)"
  have fits: "?W * ?H < 2 ^ 64" using assms(7) by linarith
  obtain a w' where al: "AllocateZeroArray fw 4 zero_pixel (Width div 2 * (Height div 2) * 4) w =
      ((a, replicate ?n zero_pixel), w')" and "a \<noteq> 0"
    using AllocateZeroArray_ok [OF assms(1)] half_size [OF assms(7)] by metis
  then have init: "half_inv a ?n (a, replicate ?n zero_pixel)" by (simp add: half_inv_def)
  obtain i j where ij: "i < ?H" "j < ?W" "even i" "even j"
    and over: "?n \<le> (i div 2) * (?W div 2) + j div 2"
    using odd_size_overrun [OF assms(4,5,6)] by blast
  have "loopE (\<lambda>i. loopE (?step i) [0..<?W]) [0..<?H] (a, replicate ?n zero_pixel) = Inl OutOfBounds"
  proof (rule table_loop_overrun [where P = "half_inv a ?n", OF init _ _ ij(1,2)])
    show "?step i j s \<noteq> Inr s'" if "half_inv a ?n s" for s s'
      using that ij over by (auto simp: half_inv_def CutInHalf_step_def wrb_Inr half_idx [OF ij(2,1) fits])
  qed (use CutInHalf_step_inv CutInHalf_step_fault assms(2) in auto)
  with al show ?thesis by (simp add: CutInHalf_def)
qed

end
