(* ===== verification/MapConfig.thy ===== *)
theory MapConfig
  imports Config Graphics
begin

text \<open>
  The other two parsers of \<open>BootManager2D/src/Config.c\<close>: the maze of numbers and the sprite.
\<close>

section \<open>\<open>sscanf\<close> with the format \<open>"%lld%n"\<close>\<close>

text \<open>
  The conversion reads the characters it needs, one at a time, from the pointer on. The model
  takes the bytes from the pointer to the end of the pool block: needing one behind the end is
  a fault. White space is skipped, a sign and digits are read, and the first other character
  ends the number. A number that does not fit, or a count that does not, has no defined result.
  A call that returns 1 gives the number and the count; every other return value is \<^term>\<open>None\<close>.
\<close>

definition is_white :: "u8 \<Rightarrow> bool" where
  "is_white c \<longleftrightarrow> c = space \<or> (9 \<le> c \<and> c \<le> 13)"

definition is_digit :: "u8 \<Rightarrow> bool" where
  "is_digit c \<longleftrightarrow> 48 \<le> c \<and> c \<le> 57"

fun skip_white :: "u8 list \<Rightarrow> u8 list result" where
  "skip_white [] = Inl OutOfBounds"
| "skip_white (c # cs) = (if is_white c then skip_white cs else Inr (c # cs))"

fun scan_digits :: "nat \<Rightarrow> nat \<Rightarrow> u8 list \<Rightarrow> (nat \<times> nat \<times> u8 list) result" where
  "scan_digits v n [] = Inl OutOfBounds"
| "scan_digits v n (c # cs) =
     (if is_digit c then scan_digits (10 * v + (unat c - 48)) (n + 1) cs else Inr (v, n, c # cs))"

definition scan_sign :: "u8 list \<Rightarrow> int \<times> u8 list" where
  "scan_sign cs =
     (case cs of c # cs' \<Rightarrow> if c = 45 then (-1, cs') else if c = 43 then (1, cs') else (1, cs)
               | [] \<Rightarrow> (1, cs))"

definition sscanf_lld :: "u8 list \<Rightarrow> (int \<times> nat) option result" where
  "sscanf_lld bs =
     bindE (skip_white bs) (\<lambda>cs.
     case scan_sign cs of (sign, cs) \<Rightarrow>
     bindE (scan_digits 0 0 cs) (\<lambda>(v, n, rest).
     if n = 0 then Inr None
     else if sign * int v < - (2 ^ 63) \<or> 2 ^ 63 \<le> sign * int v \<or> 2 ^ 31 \<le> length bs - length rest
     then Inl SignedOverflow
     else Inr (Some (sign * int v, length bs - length rest))))"

section \<open>The maze\<close>

text \<open>
  The first loop finds the size: \<open>Height\<close> lines and the number of elements of the first line,
  \<open>Width\<close> being -1 before it is known.
\<close>

definition size_step ::
  "('w, 'x) fw_scheme \<Rightarrow> u8 \<Rightarrow> u64 \<times> u64 \<times> u64 \<times> 'w \<Rightarrow> (u64 \<times> u64 \<times> u64 \<times> 'w) result" where
  "size_step fw c st =
     (case st of (Height, Width, CurWidth, w) \<Rightarrow>
        if c = space then Inr (Height, Width, CurWidth + 1, w)
        else if c = newline then
          (let Height = Height + 1 in
           if Width = -1 then Inr (Height, CurWidth, 1, w)
           else if Width \<noteq> CurWidth
           then Inr (Height, Width, 1, Print fw ''Row #%d has different amount of elements\<newline>'' [PNum Height] w)
           else Inr (Height, Width, 1, w))
        else Inr st)"

text \<open>The second loop: \<open>m\<close> numbers are still to be read, \<open>i\<close> is the index of the next one.\<close>

fun read_numbers ::
  "('w, 'x) fw_scheme \<Rightarrow> EFI_STATUS \<Rightarrow> u8 buf \<Rightarrow> nat \<Rightarrow> nat \<Rightarrow> nat \<Rightarrow> int buf \<Rightarrow> 'w
    \<Rightarrow> (EFI_STATUS \<times> int buf \<times> 'w) result" where
  "read_numbers fw Status FileData 0 i CurBuffer Numbers w = Inr (Status, Numbers, w)"
| "read_numbers fw Status FileData (Suc m) i CurBuffer Numbers w =
     bindE (sscanf_lld (drop CurBuffer (snd FileData))) (\<lambda>r.
     case r of
       None \<Rightarrow> Inr (EFI_INVALID_PARAMETER, Numbers,
                 Print fw ''Error occurred while reading maze config: end of data reached to early\<newline>'' [] w)
     | Some (v, n) \<Rightarrow>
         bindE (wrb Numbers i v) (\<lambda>Numbers.
           read_numbers fw Status FileData m (i + 1) (CurBuffer + n) Numbers w))"

definition ParseMazeConfigFile ::
  "('w, 'x) fw_scheme \<Rightarrow> EFI_HANDLE \<Rightarrow> CHAR16s \<Rightarrow> 'w
    \<Rightarrow> (EFI_STATUS \<times> (int buf \<times> u64 \<times> u64) option \<times> 'w) result" where
  "ParseMazeConfigFile fw SelfFSHandle Filename w =
     (if Filename = None then Inr (EFI_INVALID_PARAMETER, None, w) else
      bindE (ReadFile fw SelfFSHandle Filename w) (\<lambda>(Status, FileData, FileLength, w).
      case CheckError fw Status (Some (wide ''while reading map config'')) w of (failed, w) \<Rightarrow>
      if failed then Inr (Status, None, w) else
      bindE (use FileLength) (\<lambda>FileLength.
      bindE (use FileData) (\<lambda>FileData.
      bindE (loopE (\<lambda>i st. bindE (rdb FileData i) (\<lambda>c. size_step fw c st))
               [0..<unat FileLength] (0, -1, 1, w)) (\<lambda>(Height, Width, _, w).
      case AllocateZeroArray fw 8 0 (Width * Height * 8) w of (Numbers, w) \<Rightarrow>
      bindE (read_numbers fw Status FileData (unat (Width * Height)) 0 0 Numbers w)
        (\<lambda>(Status, Numbers, w). Inr (Status, Some (Numbers, Width, Height), w)))))))"

section \<open>The sprite\<close>

definition sprite_color :: "u8 \<Rightarrow> pixel option" where
  "sprite_color c =
     (if c = ascii CHR ''k'' then Some \<lparr>Blue = 0, Green = 0, Red = 0, Reserved = 0xff\<rparr>
      else if c = ascii CHR ''b'' then Some \<lparr>Blue = 153, Green = 54, Red = 47, Reserved = 0xff\<rparr>
      else if c = ascii CHR ''l'' then Some \<lparr>Blue = 243, Green = 109, Red = 77, Reserved = 0xff\<rparr>
      else if c = ascii CHR ''y'' then Some \<lparr>Blue = 0, Green = 242, Red = 255, Reserved = 0xff\<rparr>
      else if c = ascii CHR ''g'' then Some \<lparr>Blue = 14, Green = 194, Red = 255, Reserved = 0xff\<rparr>
      else if c = ascii CHR ''r'' then Some \<lparr>Blue = 180, Green = 180, Red = 180, Reserved = 0xff\<rparr>
      else if c = ascii CHR ''w'' then Some \<lparr>Blue = 255, Green = 255, Red = 255, Reserved = 0xff\<rparr>
      else if c = ascii CHR ''p'' then Some \<lparr>Blue = 148, Green = 205, Red = 255, Reserved = 0xff\<rparr>
      else if c = ascii CHR ''s'' then Some \<lparr>Blue = 189, Green = 224, Red = 255, Reserved = 0xff\<rparr>
      else if c = ascii CHR ''n'' then Some \<lparr>Blue = 60, Green = 90, Red = 156, Reserved = 0xff\<rparr>
      else if c = ascii CHR ''d'' then Some \<lparr>Blue = 7, Green = 37, Red = 107, Reserved = 0xff\<rparr>
      else None)"

text \<open>The \<open>while\<close> loop that finds the first line break, from index \<open>n\<close> on.\<close>

fun sprite_width :: "u8 list \<Rightarrow> nat result" where
  "sprite_width [] = Inl OutOfBounds"
| "sprite_width (c # cs) =
     (if c \<noteq> newline then bindE (sprite_width cs) (\<lambda>n. Inr (n + 1)) else Inr 0)"

definition sprite_step :: "u8 buf \<Rightarrow> u64 \<Rightarrow> nat \<Rightarrow> nat \<Rightarrow> pixel buf \<Rightarrow> pixel buf result" where
  "sprite_step spriteData Width i j Pixels =
     bindE (rdb spriteData (idx64 j (Width + 1) i)) (\<lambda>c.
     case sprite_color c of
       None \<Rightarrow> Inr Pixels
     | Some p \<Rightarrow> wrb Pixels (idx64 j Width i) p)"

definition ParseSprite ::
  "('w, 'x) fw_scheme \<Rightarrow> EFI_HANDLE \<Rightarrow> CHAR16s \<Rightarrow> 'w
    \<Rightarrow> (EFI_STATUS \<times> pixel buf \<times> u64 \<times> u64 \<times> 'w) result" where
  "ParseSprite fw SelfFSHandle Filename w =
     bindE (ReadFile fw SelfFSHandle Filename w) (\<lambda>(Status, spriteData, sizeOfSprite, w).
     bindE (use spriteData) (\<lambda>spriteData.
     if fst spriteData = 0 then Inl NullPointer else
     bindE (sprite_width (snd spriteData)) (\<lambda>Width.
     let Width = word_of_nat Width in
     bindE (use sizeOfSprite) (\<lambda>sizeOfSprite.
     if Width + 1 = 0 then Inl DivideByZero else
     let Height = sizeOfSprite div (Width + 1) in
     case AllocateZeroArray fw 4 zero_pixel (4 * Width * Height) w of (Pixels, w) \<Rightarrow>
     bindE (loopE (\<lambda>i. loopE (\<lambda>j. sprite_step spriteData Width i j) [0..<unat Height])
              [0..<unat Width] Pixels)
       (\<lambda>Pixels. Inr (Status, Pixels, Width, Height, w))))))"

section \<open>A maze is read back\<close>

text \<open>
  The reference format: decimal numbers, one space between the numbers of a row, a line break
  after each row.
\<close>

fun dec :: "nat \<Rightarrow> u8 list" where
  "dec n = (if n < 10 then [] else dec (n div 10)) @ [word_of_nat (48 + n mod 10)]"

declare dec.simps [simp del]

definition dec_int :: "int \<Rightarrow> u8 list" where
  "dec_int x = (if x < 0 then 45 # dec (nat (- x)) else dec (nat x))"

definition row_tokens :: "int list \<Rightarrow> (int \<times> u8) list" where
  "row_tokens r = zip r (replicate (length r - 1) space @ [newline])"

definition tokens_bytes :: "(int \<times> u8) list \<Rightarrow> u8 list" where
  "tokens_bytes ts = concat (map (\<lambda>(x, c). dec_int x @ [c]) ts)"

definition maze_file :: "int list list \<Rightarrow> u8 list" where
  "maze_file rows = tokens_bytes (concat (map row_tokens rows))"

definition good_maze :: "nat \<Rightarrow> int list list \<Rightarrow> bool" where
  "good_maze wd rows \<longleftrightarrow> rows \<noteq> [] \<and> 0 < wd \<and>
     (\<forall>r \<in> set rows. length r = wd \<and> (\<forall>x \<in> set r. - (2 ^ 63) \<le> x \<and> x < 2 ^ 63))"

lemma unat_digit: "d < 10 \<Longrightarrow> unat (word_of_nat (48 + d) :: u8) = 48 + d"
  by (simp add: unat_of_nat del: of_nat_add)

lemma is_digit_unat: "is_digit c \<longleftrightarrow> 48 \<le> unat c \<and> unat c \<le> 57"
  by (simp add: is_digit_def word_le_nat_alt)

lemma dec_digits: "\<forall>c \<in> set (dec n). is_digit c"
  by (induction n rule: dec.induct) (subst dec.simps, auto simp: is_digit_unat unat_digit simp del: of_nat_add)

lemma dec_nonempty: "dec n \<noteq> []"
  by (subst dec.simps) simp

fun digits_value :: "nat \<Rightarrow> u8 list \<Rightarrow> nat" where
  "digits_value v [] = v"
| "digits_value v (c # cs) = digits_value (10 * v + (unat c - 48)) cs"

lemma digits_value_append: "digits_value v (xs @ ys) = digits_value (digits_value v xs) ys"
  by (induction xs arbitrary: v) auto

lemma digits_value_dec: "digits_value 0 (dec n) = n"
proof (induction n rule: dec.induct)
  case (1 n)
  then show ?case
    by (subst dec.simps) (auto simp: digits_value_append unat_digit simp del: of_nat_add)
qed

lemma scan_digits_run:
  "\<forall>c \<in> set ds. is_digit c \<Longrightarrow> scan_digits v n (ds @ cs) = scan_digits (digits_value v ds) (n + length ds) cs"
  by (induction ds arbitrary: v n) auto

lemma is_digit_first: "\<exists>c cs. dec n = c # cs \<and> is_digit c"
  using dec_digits [of n] dec_nonempty [of n] by (cases "dec n") auto

text \<open>Reading one number, with white space before it and a character after it that ends it.\<close>

lemma sscanf_number:
  assumes "\<forall>c \<in> set ws. is_white c" and "\<not> is_digit e" and "- (2 ^ 63) \<le> x" and "x < 2 ^ 63"
    and "length ws + length (dec_int x) < 2 ^ 31"
  shows "sscanf_lld (ws @ dec_int x @ e # rest) = Inr (Some (x, length ws + length (dec_int x)))"
proof -
  obtain c cs where first: "dec (nat \<bar>x\<bar>) = c # cs" "is_digit c" using is_digit_first by blast
  then have c: "\<not> is_white c" "c \<noteq> 45" "c \<noteq> 43"
    by (auto simp: is_white_def is_digit_def space_def word_le_nat_alt)
  have skip: "skip_white (ws @ dec_int x @ e # rest) = Inr (dec_int x @ e # rest)"
    using assms(1)
  proof (induction ws)
    case Nil
    then show ?case using first c by (auto simp: dec_int_def is_white_def space_def)
  qed simp
  have sign: "scan_sign (dec_int x @ e # rest) = (if x < 0 then -1 else 1, dec (nat \<bar>x\<bar>) @ e # rest)"
    using first c by (cases "x < 0") (auto simp: scan_sign_def dec_int_def)
  have digits: "scan_digits 0 0 (dec (nat \<bar>x\<bar>) @ e # rest) = Inr (nat \<bar>x\<bar>, length (dec (nat \<bar>x\<bar>)), e # rest)"
    using scan_digits_run [OF dec_digits] assms(2) by (simp add: digits_value_dec)
  have "(if x < 0 then - 1 else 1) * int (nat \<bar>x\<bar>) = x" by simp
  with skip sign digits first assms(3-5) show ?thesis
    by (simp add: sscanf_lld_def not_less)
qed

lemma white_separators: "is_white space" "is_white newline" "\<not> is_digit space" "\<not> is_digit newline"
  by (simp_all add: is_white_def is_digit_def char_neq)

definition good_tokens :: "(int \<times> u8) list \<Rightarrow> bool" where
  "good_tokens ts \<longleftrightarrow> (\<forall>(x, c) \<in> set ts. - (2 ^ 63) \<le> x \<and> x < 2 ^ 63 \<and> (c = space \<or> c = newline))"

text \<open>
  Reading all the numbers: before each one but the first there is the separator that ended the
  one before.
\<close>

lemma read_numbers_tokens:
  assumes "b \<noteq> 0" and "good_tokens ts" and "\<forall>c \<in> set ws. is_white c"
    and "length ws + length (tokens_bytes ts) < 2 ^ 31"
    and "drop p bs = ws @ tokens_bytes ts"
  shows "read_numbers fw st (a, bs) (length ts) (length acc) p (b, acc @ replicate (length ts) 0) w =
    Inr (st, (b, acc @ map fst ts), w)"
  using assms(2-5)
proof (induction ts arbitrary: ws acc p)
  case Nil
  then show ?case by simp
next
  case (Cons t ts)
  obtain x c where t: "t = (x, c)" by (cases t)
  have x: "- (2 ^ 63) \<le> x" "x < 2 ^ 63" "c = space \<or> c = newline"
    using Cons.prems(1) by (auto simp: good_tokens_def t)
  have bytes: "tokens_bytes (t # ts) = dec_int x @ c # tokens_bytes ts" by (simp add: tokens_bytes_def t)
  let ?n = "length ws + length (dec_int x)"
  have "sscanf_lld (drop p bs) = Inr (Some (x, ?n))"
    unfolding Cons.prems(4) bytes append_assoc [symmetric]
    by (simp, rule sscanf_number) (use Cons.prems(2,3) x white_separators in \<open>auto simp: bytes\<close>)
  moreover have "drop (p + ?n) bs = [c] @ tokens_bytes ts"
    using arg_cong [OF Cons.prems(4), of "drop ?n"] by (simp add: bytes add.commute)
  then have "read_numbers fw st (a, bs) (length ts) (length (acc @ [x])) (p + ?n)
      (b, (acc @ [x]) @ replicate (length ts) 0) w = Inr (st, (b, (acc @ [x]) @ map fst ts), w)"
    by (intro Cons.IH) (use Cons.prems(1,3) x white_separators in \<open>auto simp: good_tokens_def bytes\<close>)
  ultimately show ?case using assms(1) by (simp add: t list_update_append)
qed

text \<open>The first loop counts the separators; the characters of the numbers do not matter to it.\<close>

lemma size_number: "loopE (size_step fw) (dec_int x) st = Inr st"
proof -
  have "\<forall>c \<in> set (dec_int x). c \<noteq> space \<and> c \<noteq> newline"
    using dec_digits [of "nat x"] dec_digits [of "nat (- x)"] white_separators(3,4)
    by (auto simp: dec_int_def char_neq)
  moreover have "\<forall>c \<in> set cs. c \<noteq> space \<and> c \<noteq> newline \<Longrightarrow> loopE (size_step fw) cs st = Inr st" for cs
    by (induction cs) (auto simp: size_step_def)
  ultimately show ?thesis by blast
qed

lemma tokens_bytes_simps:
  "tokens_bytes [] = []"
  "tokens_bytes ((x, c) # ts) = dec_int x @ c # tokens_bytes ts"
  "tokens_bytes (ts @ us) = tokens_bytes ts @ tokens_bytes us"
  by (simp_all add: tokens_bytes_def)

lemma size_separator:
  "size_step fw space (ht, wd, cw, w) = Inr (ht, wd, cw + 1, w)"
  "wd = -1 \<or> wd = cw \<Longrightarrow> size_step fw newline (ht, wd, cw, w) = Inr (ht + 1, cw, 1, w)"
  by (auto simp: size_step_def char_neq Let_def)

lemma size_row:
  assumes "r \<noteq> []" and "wd = -1 \<or> wd = cw + word_of_nat (length r - 1)"
  shows "loopE (size_step fw) (tokens_bytes (row_tokens r)) (ht, wd, cw, w) =
    Inr (ht + 1, cw + word_of_nat (length r - 1), 1, w)"
  using assms
proof (induction r arbitrary: cw)
  case Nil
  then show ?case by simp
next
  case (Cons x r)
  show ?case
  proof (cases r)
    case Nil
    with Cons.prems show ?thesis
      by (auto simp: row_tokens_def tokens_bytes_simps loopE_append size_number size_separator)
  next
    case (Cons y ys)
    then have "row_tokens (x # r) = (x, space) # row_tokens r" by (simp add: row_tokens_def)
    then have "loopE (size_step fw) (tokens_bytes (row_tokens (x # r))) (ht, wd, cw, w) =
        loopE (size_step fw) (tokens_bytes (row_tokens r)) (ht, wd, cw + 1, w)"
      by (simp add: tokens_bytes_simps loopE_append size_number size_separator)
    with Cons.IH [of "cw + 1"] Cons.prems Cons show ?thesis by (simp add: algebra_simps)
  qed
qed

lemma size_rows:
  assumes "\<forall>r \<in> set rows. length r = n" and "0 < n" and "wd = -1 \<or> wd = word_of_nat n"
  shows "loopE (size_step fw) (maze_file rows) (ht, wd, 1, w) =
    Inr (ht + word_of_nat (length rows), if rows = [] then wd else word_of_nat n, 1, w)"
  using assms(1,3)
proof (induction rows arbitrary: ht wd)
  case Nil
  then show ?case by (simp add: maze_file_def tokens_bytes_def)
next
  case (Cons r rows)
  have n: "1 + word_of_nat (length r - 1) = (word_of_nat n :: u64)"
    using Cons.prems(1) assms(2) by (cases n) auto
  have "loopE (size_step fw) (tokens_bytes (row_tokens r)) (ht, wd, 1, w) = Inr (ht + 1, word_of_nat n, 1, w)"
    using size_row [of r wd 1] Cons.prems assms(2) n by auto
  moreover have "maze_file (r # rows) = tokens_bytes (row_tokens r) @ maze_file rows"
    by (simp add: maze_file_def tokens_bytes_simps)
  ultimately show ?case
    using Cons.IH [of "word_of_nat n" "ht + 1"] Cons.prems by (auto simp: loopE_append algebra_simps)
qed

lemma maze_tokens:
  assumes "good_maze n rows"
  shows "good_tokens (concat (map row_tokens rows))" and "map fst (concat (map row_tokens rows)) = concat rows"
    and "length (concat (map row_tokens rows)) = n * length rows"
proof -
  have row: "map fst (row_tokens r) = r" "length (row_tokens r) = length r" if "r \<in> set rows" for r
  proof -
    have "0 < length r" using that assms by (auto simp: good_maze_def)
    then show "map fst (row_tokens r) = r" "length (row_tokens r) = length r"
      by (simp_all add: row_tokens_def)
  qed
  then show "map fst (concat (map row_tokens rows)) = concat rows"
    by (simp add: map_concat comp_def cong: map_cong)
  show "length (concat (map row_tokens rows)) = n * length rows"
    using assms row length_concat_uniform [of "map row_tokens rows" n] by (auto simp: good_maze_def)
  show "good_tokens (concat (map row_tokens rows))"
    using assms unfolding good_tokens_def good_maze_def row_tokens_def
    by (fastforce dest: set_zip_leftD set_zip_rightD)
qed

lemma ParseMazeConfigFile_maze:
  assumes "pool_ok fw" and "file_at fw fsh name (maze_file rows)" and "good_maze n rows"
    and "length (maze_file rows) < 2 ^ 31"
  shows "\<exists>b w'. ParseMazeConfigFile fw fsh (Some name) w =
      Inr (EFI_SUCCESS, Some ((b, concat rows), word_of_nat n, word_of_nat (length rows)), w') \<and> b \<noteq> 0"
proof -
  let ?bs = "maze_file rows" and ?ts = "concat (map row_tokens rows)"
  note ts = maze_tokens [OF assms(3)]
  obtain a w1 where rf: "ReadFile fw fsh (Some name) w =
      Inr (EFI_SUCCESS, Some (a, ?bs), Some (word_of_nat (length ?bs)), w1)" and "a \<noteq> 0"
    using ReadFile_contents [OF assms(1,2)] by blast
  have len: "length ts \<le> length (tokens_bytes ts)" for ts
    by (induction ts) (auto simp: tokens_bytes_def)
  then have small: "n * length rows < 2 ^ 31"
    using len [of ?ts] assms(4) ts(3) by (simp add: maze_file_def)
  have "loopE (\<lambda>i st. bindE (rdb (a, ?bs) i) (\<lambda>c. size_step fw c st)) [0..<length ?bs] (0, -1, 1, w1) =
      loopE (size_step fw) ?bs (0, -1, 1, w1)"
    using \<open>a \<noteq> 0\<close> by (intro loopE_nth) simp
  also have "\<dots> = Inr (word_of_nat (length rows), word_of_nat n, 1, w1)"
    using size_rows [of rows n "-1" fw 0] assms(3) by (auto simp: good_maze_def)
  finally have size: "loopE (\<lambda>i st. bindE (rdb (a, ?bs) i) (\<lambda>c. size_step fw c st)) [0..<length ?bs] (0, -1, 1, w1) =
      Inr (word_of_nat (length rows), word_of_nat n, 1, w1)" .
  have prod: "word_of_nat n * word_of_nat (length rows) = (word_of_nat (n * length rows) :: u64)" by simp
  have area: "unat (word_of_nat n * word_of_nat (length rows) :: u64) = n * length rows"
    unfolding prod using small by (simp del: of_nat_mult)
  have "unat (word_of_nat n * word_of_nat (length rows) * 8 :: u64) div 8 = n * length rows"
    unfolding prod using array_size [of "n * length rows" 8] small by (simp del: of_nat_mult)
  then obtain b w2 where al: "AllocateZeroArray fw 8 (0 :: int) (word_of_nat n * word_of_nat (length rows) * 8) w1 =
      ((b, replicate (n * length rows) 0), w2)" and "b \<noteq> 0"
    using AllocateZeroArray_ok [OF assms(1)] by metis
  have "read_numbers fw EFI_SUCCESS (a, ?bs) (n * length rows) 0 0 (b, replicate (n * length rows) 0) w2 =
      Inr (EFI_SUCCESS, (b, concat rows), w2)"
    using read_numbers_tokens [OF \<open>b \<noteq> 0\<close> ts(1), of "[]" 0 ?bs fw EFI_SUCCESS a "[]" w2] assms(4) ts(2,3)
    by (simp add: maze_file_def)
  with rf size al assms(4) area \<open>b \<noteq> 0\<close> show ?thesis by (auto simp: ParseMazeConfigFile_def)
qed

section \<open>A sprite is drawn\<close>

definition sprite_pixel :: "u8 \<Rightarrow> pixel" where
  "sprite_pixel c = (case sprite_color c of None \<Rightarrow> zero_pixel | Some p \<Rightarrow> p)"

lemma sprite_width_first:
  "newline \<in> set bs \<Longrightarrow> sprite_width bs = Inr (length (takeWhile (\<lambda>c. c \<noteq> newline) bs))"
  by (induction bs) auto

lemma sprite_width_none: "newline \<notin> set bs \<Longrightarrow> sprite_width bs = Inl OutOfBounds"
  by (induction bs) auto

lemma takeWhile_newline_less: "newline \<in> set bs \<Longrightarrow> length (takeWhile (\<lambda>c. c \<noteq> newline) bs) < length bs"
  by (induction bs) auto

text \<open>The size of the picture: no place of it is outside the file, and nothing wraps around.\<close>

lemma sprite_height:
  fixes wd len :: nat
  assumes "wd < len" and "len < 2 ^ 60"
  shows "unat (word_of_nat len div (word_of_nat wd + 1) :: u64) = len div (wd + 1)"
proof -
  have "unat (word_of_nat wd + 1 :: u64) = wd + 1"
    using assms by (simp add: unat_add_no_wrap)
  with assms show ?thesis by (simp add: unat_div)
qed

lemma ParseSprite_picture:
  assumes "pool_ok fw" and "file_at fw fsh name bs" and "newline \<in> set bs" and "length bs < 2 ^ 60"
    and wd: "wd = length (takeWhile (\<lambda>c. c \<noteq> newline) bs)" and ht: "ht = length bs div (wd + 1)"
  shows "\<exists>a px w'. ParseSprite fw fsh (Some name) w =
      Inr (EFI_SUCCESS, (a, px), word_of_nat wd, word_of_nat ht, w') \<and> a \<noteq> 0 \<and> length px = wd * ht \<and>
      (\<forall>i < wd. \<forall>j < ht. px ! (j * wd + i) = sprite_pixel (bs ! (j * (wd + 1) + i)))"
proof -
  obtain d w1 where rf: "ReadFile fw fsh (Some name) w =
      Inr (EFI_SUCCESS, Some (d, bs), Some (word_of_nat (length bs)), w1)" and "d \<noteq> 0"
    using ReadFile_contents [OF assms(1,2)] by blast
  have lt: "wd < length bs" unfolding wd by (rule takeWhile_newline_less [OF assms(3)])
  have fit: "ht * (wd + 1) \<le> length bs" unfolding ht by (rule div_times_less_eq_dividend)
  have w1: "unat (word_of_nat wd :: u64) = wd" "unat (word_of_nat wd + 1 :: u64) = wd + 1"
    using lt assms(4) by (simp_all add: unat_add_no_wrap)
  have h: "unat (word_of_nat (length bs) div (word_of_nat wd + 1) :: u64) = ht"
    unfolding ht using sprite_height [OF lt assms(4)] .
  then have hw: "word_of_nat (length bs) div (word_of_nat wd + 1) = (word_of_nat ht :: u64)"
    by (metis of_nat_unat ucast_id)
  have area: "wd * ht * 4 < 2 ^ 64" using fit assms(4) by (simp add: algebra_simps)
  have ht64: "unat (word_of_nat ht :: u64) = ht" using h hw by simp
  have "unat (4 * word_of_nat wd * word_of_nat ht :: u64) div 4 = wd * ht"
    using unat_pixels_size(2) [of "word_of_nat wd" "word_of_nat ht"] area w1(1) ht64 by simp
  then obtain a w2 where al: "AllocateZeroArray fw 4 zero_pixel (4 * word_of_nat wd * word_of_nat ht) w1 =
      ((a, replicate (wd * ht) zero_pixel), w2)" and "a \<noteq> 0"
    using AllocateZeroArray_ok [OF assms(1)] by metis
  have src: "idx64 j (word_of_nat wd + 1) i = j * (wd + 1) + i" "j * (wd + 1) + i < length bs"
    and dst: "idx64 j (word_of_nat wd) i = j * wd + i" "j * wd + i < wd * ht" if "i < wd" "j < ht" for i j
  proof -
    have "i < wd + 1" using that by simp
    from row_major_less [OF this that(2)] fit show "j * (wd + 1) + i < length bs" by (simp add: mult.commute)
    show "idx64 j (word_of_nat wd + 1) i = j * (wd + 1) + i"
      using idx64_eq [of i "word_of_nat wd + 1" j ht] that w1 fit assms(4) by (simp add: mult.commute)
    show "idx64 j (word_of_nat wd) i = j * wd + i"
      using idx64_eq [of i "word_of_nat wd" j ht] that w1 area by (simp add: mult.commute)
    show "j * wd + i < wd * ht" using that by (rule row_major_less)
  qed
  let ?c = "\<lambda>i j. sprite_color (bs ! (j * (wd + 1) + i)) \<noteq> None"
  have "\<exists>r'. loopE (\<lambda>i. loopE (\<lambda>j. sprite_step (d, bs) (word_of_nat wd) i j) [0..<ht]) [0..<wd]
        (a, replicate (wd * ht) zero_pixel) = Inr (a, r') \<and> length r' = wd * ht \<and>
      (\<forall>i < wd. \<forall>j < ht. ?c i j \<longrightarrow> r' ! (j * wd + i) = sprite_pixel (bs ! (j * (wd + 1) + i))) \<and>
      (\<forall>k. (\<forall>i < wd. \<forall>j < ht. ?c i j \<longrightarrow> j * wd + i \<noteq> k) \<longrightarrow> r' ! k = replicate (wd * ht) zero_pixel ! k)"
  proof (rule scatter_loop_frame [where mk = "\<lambda>_ _ r. (a, r)"])
    fix i j and r :: "pixel list"
    assume "i < wd" "j < ht" "length r = wd * ht"
    with src [OF this(1,2)] dst [OF this(1,2)] \<open>d \<noteq> 0\<close> \<open>a \<noteq> 0\<close>
    show "sprite_step (d, bs) (word_of_nat wd) i j (a, r) =
        Inr (a, if ?c i j then r[j * wd + i := sprite_pixel (bs ! (j * (wd + 1) + i))] else r)"
      by (auto simp: sprite_step_def sprite_pixel_def)
  qed (use dst in \<open>auto simp: row_major_inj\<close>)
  then obtain px where px: "loopE (\<lambda>i. loopE (\<lambda>j. sprite_step (d, bs) (word_of_nat wd) i j) [0..<ht]) [0..<wd]
        (a, replicate (wd * ht) zero_pixel) = Inr (a, px)" "length px = wd * ht"
    and on: "\<And>i j. i < wd \<Longrightarrow> j < ht \<Longrightarrow> ?c i j \<Longrightarrow> px ! (j * wd + i) = sprite_pixel (bs ! (j * (wd + 1) + i))"
    and off: "\<And>k. (\<forall>i < wd. \<forall>j < ht. ?c i j \<longrightarrow> j * wd + i \<noteq> k) \<Longrightarrow> px ! k = replicate (wd * ht) zero_pixel ! k"
    by blast
  have "px ! (j * wd + i) = sprite_pixel (bs ! (j * (wd + 1) + i))" if "i < wd" "j < ht" for i j
  proof (cases "?c i j")
    case False
    then have "px ! (j * wd + i) = replicate (wd * ht) zero_pixel ! (j * wd + i)"
      by (intro off) (use that in \<open>auto simp: row_major_inj\<close>)
    with False dst(2) [OF that] show ?thesis by (simp add: sprite_pixel_def)
  qed (use on that in blast)
  moreover have "word_of_nat wd + 1 \<noteq> (0 :: u64)" using w1(2) by (metis add_is_0 one_neq_zero unat_0)
  ultimately show ?thesis
    using rf al px \<open>a \<noteq> 0\<close> \<open>d \<noteq> 0\<close> sprite_width_first [OF assms(3)] ht64 w1(1)
    by (auto simp: ParseSprite_def hw simp flip: wd)
qed

end
