(* ===== verification/Placement.thy ===== *)
theory Placement
  imports BMPReader MapConfig
begin

text \<open>
  What the two boot managers share of their game: the placement of the boot entries on the
  escape cells of the maze (\<open>PlaceBootEntries\<close> of both \<open>DemoGame.c\<close>, which differ only in the
  \<open>MakeBootEntryTexture\<close> they call), the key codes and the maze as a row-major array of \<open>INTN\<close>.
  The contract of \<open>MakeBootEntryTexture\<close> is the locale \<open>entry_textures\<close>; the correctness of the
  placement is proved once from it.
\<close>

definition SCAN_UP :: u16 where "SCAN_UP = 0x0001"
definition SCAN_DOWN :: u16 where "SCAN_DOWN = 0x0002"
definition SCAN_RIGHT :: u16 where "SCAN_RIGHT = 0x0003"
definition SCAN_LEFT :: u16 where "SCAN_LEFT = 0x0004"
definition SCAN_ESC :: u16 where "SCAN_ESC = 0x0017"

definition ESCAPE_ENTRY :: u64 where "ESCAPE_ENTRY = -1"
section \<open>Placing the boot entries\<close>

text \<open>The function that makes the texture of an entry, which is not the same in the two programs.\<close>

type_synonym ('w, 'x) make_texture =
  "('w, 'x) fw_scheme \<Rightarrow> EFI_HANDLE \<Rightarrow> BOOT_ENTRY \<Rightarrow> int \<Rightarrow> pixel buf buf \<Rightarrow> u64 \<Rightarrow> 'w
    \<Rightarrow> (EFI_STATUS \<times> pixel buf buf \<times> u64 \<times> 'w) result"

record 'w place_state =
  pl_map :: "int buf"
  pl_textures :: "pixel buf buf"
  pl_count :: u64
  pl_escapes :: u64
  pl_world :: 'w

definition escapes :: u64 where "escapes = 12"

definition is_escape :: "u64 \<Rightarrow> int \<Rightarrow> bool" where
  "is_escape bootable_start cell \<longleftrightarrow> 10 \<le> cell \<and> (word_of_int cell :: u64) < bootable_start"

text \<open>One cell of the search for the escape number \<open>rand_index\<close>, for entry \<open>i\<close>.\<close>

definition place_cell ::
  "('w, 'x) make_texture \<Rightarrow> ('w, 'x) fw_scheme \<Rightarrow> EFI_HANDLE \<Rightarrow> u64 \<Rightarrow> u64 \<Rightarrow> u64 \<Rightarrow> BOOT_ENTRY buf \<Rightarrow> nat \<Rightarrow> nat \<Rightarrow> nat
    \<Rightarrow> 'w place_state \<Rightarrow> 'w place_state result" where
  "place_cell mktex fw SelfFSHandle MapWidth bootable_start rand_index BootEntries i x y s =
     bindE (rdb (pl_map s) (idx64 y MapWidth x)) (\<lambda>cell.
     if is_escape bootable_start cell then
       if pl_escapes s = rand_index then
         bindE (wrb (pl_map s) (idx64 y MapWidth x) (sint (pl_count s))) (\<lambda>Map.
         bindE (rdb BootEntries i) (\<lambda>Entry.
         bindE (mktex fw SelfFSHandle Entry cell (pl_textures s) (pl_count s) (pl_world s))
           (\<lambda>(_, Textures, TexturesCount, w).
         Inr \<lparr>pl_map = Map, pl_textures = Textures, pl_count = TexturesCount,
              pl_escapes = pl_escapes s + 1, pl_world = w\<rparr>)))
       else Inr (s\<lparr>pl_escapes := pl_escapes s + 1\<rparr>)
     else Inr s)"

definition place_entry ::
  "('w, 'x) make_texture \<Rightarrow> ('w, 'x) fw_scheme \<Rightarrow> EFI_HANDLE \<Rightarrow> u64 \<Rightarrow> u64 \<Rightarrow> u64 \<Rightarrow> BOOT_ENTRY buf \<Rightarrow> nat
    \<Rightarrow> 'w place_state \<Rightarrow> 'w place_state result" where
  "place_entry mktex fw SelfFSHandle MapWidth MapHeight bootable_start BootEntries i s =
     (case rand fw (pl_world s) of (r, w) \<Rightarrow>
      if escapes - word_of_nat i = 0 then Inl DivideByZero else
      let rand_index = scast r mod (escapes - word_of_nat i) in
      loopE (\<lambda>x. loopE (\<lambda>y. place_cell mktex fw SelfFSHandle MapWidth bootable_start rand_index BootEntries i x y)
          [0..<unat MapHeight]) [0..<unat MapWidth] (s\<lparr>pl_escapes := 0, pl_world := w\<rparr>))"

definition PlaceBootEntries_with ::
  "('w, 'x) make_texture \<Rightarrow> ('w, 'x) fw_scheme \<Rightarrow> EFI_HANDLE \<Rightarrow> int buf \<Rightarrow> u64 \<Rightarrow> u64 \<Rightarrow> pixel buf buf \<Rightarrow> u64
    \<Rightarrow> BOOT_ENTRY buf \<Rightarrow> u64 \<Rightarrow> 'w \<Rightarrow> (int buf \<times> pixel buf buf \<times> u64 \<times> 'w) result" where
  "PlaceBootEntries_with mktex fw SelfFSHandle Map MapWidth MapHeight Textures TexturesCount BootEntries BootEntriesCount w =
     bindE
       (loopE (place_entry mktex fw SelfFSHandle MapWidth MapHeight TexturesCount BootEntries)
          [0..<unat BootEntriesCount]
          \<lparr>pl_map = Map, pl_textures = Textures, pl_count = TexturesCount, pl_escapes = 0, pl_world = w\<rparr>)
       (\<lambda>s. Inr (pl_map s, pl_textures s, pl_count s, pl_world s))"

section \<open>The maze\<close>

definition maze_map :: "int buf \<Rightarrow> u64 \<Rightarrow> u64 \<Rightarrow> bool" where
  "maze_map Map MapWidth MapHeight \<longleftrightarrow> fst Map \<noteq> 0 \<and>
     length (snd Map) = unat MapWidth * unat MapHeight \<and> unat MapWidth * unat MapHeight < 2 ^ 64 \<and>
     (\<forall>v \<in> set (snd Map). - (2 ^ 63) \<le> v \<and> v < 2 ^ 63)"

definition in_maze :: "u64 \<Rightarrow> u64 \<Rightarrow> u64 \<Rightarrow> u64 \<Rightarrow> bool" where
  "in_maze MapWidth MapHeight X Y \<longleftrightarrow> unat X < unat MapWidth \<and> unat Y < unat MapHeight"

definition cell_at :: "int buf \<Rightarrow> u64 \<Rightarrow> u64 \<Rightarrow> u64 \<Rightarrow> int" where
  "cell_at Map MapWidth X Y = snd Map ! (unat Y * unat MapWidth + unat X)"

lemma maze_index:
  assumes "maze_map Map W H" and "in_maze W H X Y"
  shows "unat (Y * W + X) = unat Y * unat W + unat X" and "unat Y * unat W + unat X < length (snd Map)"
  using assms unat_row_major [of X W Y "unat H"] row_major_less [of "unat X" "unat W" "unat Y" "unat H"]
  by (simp_all add: maze_map_def in_maze_def)

section \<open>Every boot entry gets an escape of its own\<close>

text \<open>The icon of an entry is a supported bitmap of 64 by 64 pixels.\<close>

definition icon_image :: "('w, 'x) fw_scheme \<Rightarrow> EFI_HANDLE \<Rightarrow> BOOT_ENTRY \<Rightarrow> pixel list \<Rightarrow> bool" where
  "icon_image fw fsh e img \<longleftrightarrow> length img = 4096 \<and>
     (\<exists>name h gap. icon e = Some name \<and> file_at fw fsh name (bmp_file h gap img) \<and> good_header h gap \<and>
        BmpWidth h = 64 \<and> BmpHeight h = 64)"

definition textures_ok :: "nat \<Rightarrow> pixel buf buf \<Rightarrow> u64 \<Rightarrow> bool" where
  "textures_ok area Textures n \<longleftrightarrow> fst Textures \<noteq> 0 \<and> length (snd Textures) = unat n \<and>
     (\<forall>t \<in> set (snd Textures). fst t \<noteq> 0 \<and> length (snd t) = area)"

text \<open>The cells in the order of the search, and their places in the map.\<close>

definition search_order :: "u64 \<Rightarrow> u64 \<Rightarrow> (nat \<times> nat) list" where
  "search_order W H = List.product [0..<unat W] [0..<unat H]"

definition place_of :: "u64 \<Rightarrow> nat \<times> nat \<Rightarrow> nat" where
  "place_of W p = snd p * unat W + fst p"

definition is_escape_at :: "u64 \<Rightarrow> u64 \<Rightarrow> int list \<Rightarrow> nat \<times> nat \<Rightarrow> bool" where
  "is_escape_at W bs m p \<longleftrightarrow> is_escape bs (m ! place_of W p)"

lemma search_place:
  assumes "maze_map (a, m) W H" and "p \<in> set (search_order W H)"
  shows "idx64 (snd p) W (fst p) = place_of W p" and "place_of W p < length m"
proof -
  have p: "fst p < unat W" "snd p < unat H" using assms(2) by (auto simp: search_order_def)
  from idx64_eq [OF this] row_major_less [OF this] assms(1)
  show "idx64 (snd p) W (fst p) = place_of W p" "place_of W p < length m"
    by (simp_all add: place_of_def maze_map_def)
qed

text \<open>Cells that are passed over only count.\<close>

lemma place_skip:
  assumes "maze_map (a, m) W H" and "set ps \<subseteq> set (search_order W H)" and "pl_map s = (a, m)"
    and "pl_escapes s = word_of_nat k" and "rand_index = word_of_nat r" and "r < 2 ^ 64" "k + length ps < 2 ^ 64"
    and "r < k \<or> k + length (filter (is_escape_at W bs m) ps) \<le> r"
  shows "loopE (\<lambda>(x, y). place_cell mktex fw fsh W bs rand_index es i x y) ps s =
    Inr (s\<lparr>pl_escapes := word_of_nat (k + length (filter (is_escape_at W bs m) ps))\<rparr>)"
  using assms(2-4,7,8)
proof (induction ps arbitrary: s k)
  case Nil
  then show ?case by simp
next
  case (Cons p ps)
  let ?k = "if is_escape_at W bs m p then k + 1 else k"
  obtain x y where p: "p = (x, y)" by (cases p)
  have pl: "idx64 y W x = place_of W p" "place_of W p < length m"
    using search_place [OF assms(1), of p] Cons.prems(1) by (simp_all add: p)
  have "a \<noteq> 0" using assms(1) by (simp add: maze_map_def)
  have "pl_escapes s \<noteq> rand_index" if "is_escape_at W bs m p"
  proof -
    have "k \<noteq> r" using that Cons.prems(5) by auto
    moreover have "k < 2 ^ 64" using Cons.prems(4) by simp
    ultimately show ?thesis
      unfolding Cons.prems(3) assms(5) using assms(6) by (metis unat_u64_of_nat)
  qed
  then have step: "place_cell mktex fw fsh W bs rand_index es i x y s = Inr (s\<lparr>pl_escapes := word_of_nat ?k\<rparr>)"
    using pl \<open>a \<noteq> 0\<close> Cons.prems(2,3) by (auto simp: place_cell_def is_escape_at_def add.commute)
  let ?s = "s\<lparr>pl_escapes := word_of_nat ?k\<rparr>"
  have "loopE (\<lambda>(x, y). place_cell mktex fw fsh W bs rand_index es i x y) ps ?s =
      Inr (?s\<lparr>pl_escapes := word_of_nat (?k + length (filter (is_escape_at W bs m) ps))\<rparr>)"
    by (rule Cons.IH) (use Cons.prems in auto)
  with step show ?case by (simp add: p)
qed

lemma maze_map_update:
  "maze_map (a, m) W H \<Longrightarrow> - (2 ^ 63) \<le> v \<Longrightarrow> v < 2 ^ 63 \<Longrightarrow> maze_map (a, m[p := v]) W H"
  by (auto simp: maze_map_def dest!: set_update_subset_insert [THEN subsetD])

definition escape_places :: "u64 \<Rightarrow> int list \<Rightarrow> nat set" where
  "escape_places bs m = {p. p < length m \<and> is_escape bs (m ! p)}"

lemma search_finds_all:
  assumes "maze_map (a, m) W H"
  shows "length (filter (is_escape_at W bs m) (search_order W H)) = card (escape_places bs m)"
proof -
  let ?S = "set (filter (is_escape_at W bs m) (search_order W H))"
  have "distinct (search_order W H)" by (simp add: search_order_def distinct_product)
  then have "length (filter (is_escape_at W bs m) (search_order W H)) = card ?S"
    by (metis distinct_card distinct_filter)
  moreover have "inj_on (place_of W) ?S"
    by (auto simp: inj_on_def search_order_def place_of_def row_major_inj)
  moreover have "place_of W ` ?S = escape_places bs m"
  proof (intro equalityI subsetI)
    fix p assume "p \<in> place_of W ` ?S"
    then show "p \<in> escape_places bs m"
      using search_place(2) [OF assms] by (auto simp: escape_places_def is_escape_at_def)
  next
    fix p assume p: "p \<in> escape_places bs m"
    then have "p < unat W * unat H" using assms by (simp add: escape_places_def maze_map_def)
    note rm = row_major_decomp [OF this]
    then have "(p mod unat W, p div unat W) \<in> set (search_order W H)" by (simp add: search_order_def)
    moreover have "place_of W (p mod unat W, p div unat W) = p" using rm(3) by (simp add: place_of_def)
    ultimately show "p \<in> place_of W ` ?S"
      using p by (intro image_eqI [of _ _ "(p mod unat W, p div unat W)"])
        (simp_all add: is_escape_at_def escape_places_def)
  qed
  ultimately show ?thesis by (metis card_image)
qed

text \<open>
  The map \<open>m'\<close> after the entries have been placed at the cells \<open>cs\<close> of the map \<open>m\<close>: entry \<open>j\<close>
  is at the escape \<open>cs ! j\<close>, no two are at the same cell and no other cell has changed.
\<close>

definition placed :: "u64 \<Rightarrow> int list \<Rightarrow> int list \<Rightarrow> nat list \<Rightarrow> bool" where
  "placed bs m m' cs \<longleftrightarrow> distinct cs \<and> set cs \<subseteq> escape_places bs m \<and> length m' = length m \<and>
     (\<forall>j < length cs. m' ! (cs ! j) = int (unat bs + j)) \<and> (\<forall>p < length m. p \<notin> set cs \<longrightarrow> m' ! p = m ! p)"

lemma placed_not_escape: "unat bs + j < 2 ^ 63 \<Longrightarrow> \<not> is_escape bs (int (unat bs + j))"
proof -
  assume "unat bs + j < 2 ^ 63"
  then have "unat (word_of_nat (unat bs + j) :: u64) = unat bs + j" by (intro unat_u64_of_nat) simp
  then have "\<not> (word_of_nat (unat bs + j) :: u64) < bs" unfolding word_less_nat_alt by simp
  then show ?thesis by (simp add: is_escape_def del: of_nat_add)
qed

lemma placed_escapes:
  assumes "placed bs m m' cs" and "unat bs + length cs < 2 ^ 63"
  shows "escape_places bs m' = escape_places bs m - set cs"
    and "card (escape_places bs m') = card (escape_places bs m) - length cs"
proof -
  have no: "\<not> is_escape bs (m' ! c)" if "c \<in> set cs" for c
    using that assms placed_not_escape [of bs] by (force simp: placed_def in_set_conv_nth)
  then show eq: "escape_places bs m' = escape_places bs m - set cs"
    using assms(1) by (auto simp: placed_def escape_places_def)
  have "finite (escape_places bs m)" by (simp add: escape_places_def)
  then show "card (escape_places bs m') = card (escape_places bs m) - length cs"
    unfolding eq using assms(1) by (simp add: placed_def card_Diff_subset distinct_card)
qed

lemma placed_next:
  assumes "placed bs m m' cs" and "unat bs + length cs < 2 ^ 63" and "q \<in> escape_places bs m'"
  shows "placed bs m (m'[q := int (unat bs + length cs)]) (cs @ [q])" and "m' ! q = m ! q" and "q \<in> escape_places bs m"
proof -
  have q: "q \<in> escape_places bs m" "q \<notin> set cs" using assms(3) placed_escapes(1) [OF assms(1,2)] by auto
  then show "q \<in> escape_places bs m" and "m' ! q = m ! q"
    using assms(1) by (auto simp: placed_def escape_places_def)
  show "placed bs m (m'[q := int (unat bs + length cs)]) (cs @ [q])"
    using assms(1) q by (auto simp: placed_def nth_append nth_list_update_if escape_places_def less_Suc_eq)
qed

text \<open>
  The state after \<open>i\<close> entries: they are placed, and behind the textures of the file there is
  one for each of them.
\<close>

definition place_inv ::
  "nat \<Rightarrow> (pixel list \<Rightarrow> pixel list \<Rightarrow> pixel buf \<Rightarrow> bool) \<Rightarrow> u64 \<Rightarrow> u64 \<Rightarrow> u64 \<Rightarrow> u64 \<Rightarrow> int list \<Rightarrow> pixel buf list \<Rightarrow> pixel list list \<Rightarrow> nat \<Rightarrow> 'w place_state \<Rightarrow> bool" where
  "place_inv area shows_icon W H bs a m txs imgs i s \<longleftrightarrow>
     (\<exists>m' cs b ts. pl_map s = (a, m') \<and> maze_map (a, m') W H \<and> placed bs m m' cs \<and> length cs = i \<and>
        pl_textures s = (b, txs @ ts) \<and> textures_ok area (pl_textures s) (pl_count s) \<and>
        unat (pl_count s) = unat bs + i \<and> length ts = i \<and>
        (\<forall>j < i. shows_icon (imgs ! j) (snd (txs ! nat (m ! (cs ! j)))) (ts ! j)))"

lemma unat_escapes: "i < 12 \<Longrightarrow> unat (escapes - word_of_nat i) = 12 - i" and escapes_nonzero: "i < 12 \<Longrightarrow> escapes - word_of_nat i \<noteq> 0"
proof -
  show *: "unat (escapes - word_of_nat i) = 12 - i" if "i < 12"
    using that by (simp add: escapes_def unat_sub word_le_nat_alt)
  show "escapes - word_of_nat i \<noteq> 0" if "i < 12"
    using * [OF that] that by (metis unat_0 zero_less_diff not_less_zero)
qed

text \<open>After the placement every cell is a texture, and the cells from \<open>bs\<close> on are the entries.\<close>

lemma placed_cell:
  assumes "placed bs m m' cs" and "\<forall>v \<in> set m. 0 \<le> v \<and> v < int (unat bs)" and "p < length m"
  shows "0 \<le> m' ! p" and "m' ! p < int (unat bs + length cs)"
    and "int (unat bs) \<le> m' ! p \<Longrightarrow> \<exists>j < length cs. m' ! p = int (unat bs + j) \<and> cs ! j = p"
proof -
  have old: "0 \<le> m ! p" "m ! p < int (unat bs)" using assms(2,3) by auto
  show "0 \<le> m' ! p" and "m' ! p < int (unat bs + length cs)"
    and "int (unat bs) \<le> m' ! p \<Longrightarrow> \<exists>j < length cs. m' ! p = int (unat bs + j) \<and> cs ! j = p"
    using assms(1,3) old by (cases "p \<in> set cs"; force simp: placed_def in_set_conv_nth)+
qed

text \<open>Hence a cell that looks like a boot entry is one, and its number is below the number of entries.\<close>

lemma placed_entry:
  assumes "placed bs m m' cs" and "\<forall>v \<in> set m. 0 \<le> v \<and> v < int (unat bs)" and "maze_map (a, m') W H"
    and "v \<in> set m'" and "bs \<le> word_of_int v" and "length cs \<le> 12"
  shows "unat (word_of_int v - bs) < length cs"
proof -
  have "length m' = length m" using assms(1) by (simp add: placed_def)
  with assms(4) obtain p where p: "p < length m" "v = m' ! p" by (auto simp: in_set_conv_nth)
  note cell = placed_cell [OF assms(1,2) p(1)]
  have "v < 2 ^ 63" using assms(3,4) by (simp add: maze_map_def)
  then have u: "unat (word_of_int v :: u64) = nat v" using cell(1) p(2) by (simp add: unat_u64_of_int)
  with assms(5) have "unat bs \<le> nat (m' ! p)" using p(2) by (simp add: word_le_nat_alt)
  then have "int (unat bs) \<le> m' ! p" by (simp only: le_nat_iff [OF cell(1)])
  with cell(3) obtain j where j: "j < length cs" "m' ! p = int (unat bs + j)" by blast
  then have "unat (word_of_nat j :: u64) = j" using assms(6) by simp
  with j u assms(5) p(2) show ?thesis by (simp add: unat_sub)
qed

text \<open>
  The contract: with a readable icon and well-formed textures, one texture is appended, and it
  shows the icon and the texture of the escape cell.
\<close>

locale entry_textures =
  fixes mktex :: "('w, 'x) make_texture" and area :: nat
    and shows_icon :: "pixel list \<Rightarrow> pixel list \<Rightarrow> pixel buf \<Rightarrow> bool"
  assumes make_texture:
    "\<lbrakk>pool_ok fw; icon_image fw fsh e img; textures_ok area Tx n; unat n + 1 < 2 ^ 61; 0 \<le> c; nat c < unat n\<rbrakk>
      \<Longrightarrow> \<exists>a t w'. mktex fw fsh e c Tx n w = Inr (EFI_SUCCESS, (a, snd Tx @ [t]), n + 1, w') \<and> a \<noteq> 0 \<and>
        shows_icon img (snd (snd Tx ! nat c)) t"
    and shows_size: "shows_icon img base t \<Longrightarrow> fst t \<noteq> 0 \<and> length (snd t) = area"
begin

text \<open>The search for an escape that there is: it becomes the cell of the entry.\<close>

lemma place_found:
  assumes "pool_ok fw" and map: "maze_map (a, m) W H" and "pl_map s = (a, m)" and "pl_escapes s = 0"
    and "textures_ok area (pl_textures s) (pl_count s)" and "bs \<le> pl_count s" and "unat (pl_count s) + 1 < 2 ^ 61"
    and "rdb es i = Inr e" and "icon_image fw fsh e img"
    and r: "rand_index = word_of_nat r" "r < length (filter (is_escape_at W bs m) (search_order W H))"
  shows "\<exists>q b t k w'. q \<in> set (search_order W H) \<and> is_escape_at W bs m q \<and>
    loopE (\<lambda>(x, y). place_cell mktex fw fsh W bs rand_index es i x y) (search_order W H) s =
      Inr \<lparr>pl_map = (a, m[place_of W q := sint (pl_count s)]), pl_textures = (b, snd (pl_textures s) @ [t]),
           pl_count = pl_count s + 1, pl_escapes = k, pl_world = w'\<rparr> \<and> b \<noteq> 0 \<and>
    shows_icon img (snd (snd (pl_textures s) ! nat (m ! place_of W q))) t"
proof -
  let ?step = "\<lambda>(x, y). place_cell mktex fw fsh W bs rand_index es i x y" and ?P = "is_escape_at W bs m"
  obtain pre q post where split: "search_order W H = pre @ q # post" and q: "?P q" and n: "length (filter ?P pre) = r"
    using filter_nth_split [OF r(2)] by blast
  have "length (search_order W H) = unat W * unat H" by (simp add: search_order_def length_product)
  then have len: "length (search_order W H) < 2 ^ 64" using map by (simp add: maze_map_def)
  moreover have "r \<le> length pre" using n length_filter_le [of ?P pre] by simp
  ultimately have r64: "r < 2 ^ 64" "length pre < 2 ^ 64" "r + 1 + length post < 2 ^ 64" by (simp_all add: split)
  have l1: "loopE ?step pre s = Inr (s\<lparr>pl_escapes := rand_index\<rparr>)"
    using place_skip [OF map, of pre s 0 rand_index r bs mktex fw fsh es i] assms(3,4) r(1) r64 n by (auto simp: split)
  obtain x y where qxy: "q = (x, y)" by (cases q)
  have pl: "idx64 y W x = place_of W q" "place_of W q < length m"
    using search_place [OF map, of q] by (simp_all add: split qxy)
  let ?c = "m ! place_of W q" and ?m = "m[place_of W q := sint (pl_count s)]"
  have "?c < 2 ^ 63" using map pl(2) by (auto simp: maze_map_def)
  with q have c: "0 \<le> ?c" "is_escape bs ?c" "nat ?c < unat bs"
    using unat_u64_of_int [of ?c] by (auto simp: is_escape_at_def is_escape_def word_less_nat_alt)
  have "nat ?c < unat (pl_count s)" using c(3) assms(6) by (simp add: word_le_nat_alt)
  then obtain b t w' where mk: "mktex fw fsh e ?c (pl_textures s) (pl_count s) (pl_world s) =
      Inr (EFI_SUCCESS, (b, snd (pl_textures s) @ [t]), pl_count s + 1, w')" "b \<noteq> 0"
      "shows_icon img (snd (snd (pl_textures s) ! nat ?c)) t"
    using make_texture [OF assms(1,9,5,7) c(1)] by blast
  let ?s = "\<lparr>pl_map = (a, ?m), pl_textures = (b, snd (pl_textures s) @ [t]),
      pl_count = pl_count s + 1, pl_escapes = word_of_nat (r + 1), pl_world = w'\<rparr>"
  have "a \<noteq> 0" using map by (simp add: maze_map_def)
  with pl c(2) mk(1) assms(3,8) r(1)
  have l2: "place_cell mktex fw fsh W bs rand_index es i x y (s\<lparr>pl_escapes := rand_index\<rparr>) = Inr ?s"
    by (simp add: place_cell_def add.commute)
  have "maze_map (a, ?m) W H"
    using map sint_ge [of "pl_count s"] sint_lt [of "pl_count s"] by (intro maze_map_update) simp_all
  then have l3: "loopE ?step post ?s = Inr (?s\<lparr>pl_escapes := word_of_nat (r + 1 + length (filter (is_escape_at W bs ?m) post))\<rparr>)"
    by (rule place_skip [where k = "r + 1" and r = r]) (use r(1) r64 split in auto)
  show ?thesis
    using l1 l2 l3 mk q by (intro exI [of _ q]) (auto simp: split loopE_append qxy)
qed

lemma place_entry_step:
  assumes "pool_ok fw" and "12 \<le> card (escape_places bs m)" and "i < 12" and "unat bs + 12 < 2 ^ 60"
    and "length txs = unat bs" and "rdb es i = Inr e" and "icon_image fw fsh e (imgs ! i)"
    and inv: "place_inv area shows_icon W H bs a m txs imgs i s" and m: "maze_map (a, m) W H"
  shows "\<exists>s'. place_entry mktex fw fsh W H bs es i s = Inr s' \<and> place_inv area shows_icon W H bs a m txs imgs (Suc i) s'"
proof -
  obtain m' cs b ts where s: "pl_map s = (a, m')" "maze_map (a, m') W H" "pl_textures s = (b, txs @ ts)"
      "textures_ok area (pl_textures s) (pl_count s)" "unat (pl_count s) = unat bs + i" "length ts = i"
    and cs: "placed bs m m' cs" "length cs = i"
    and icons: "\<forall>j < i. shows_icon (imgs ! j) (snd (txs ! nat (m ! (cs ! j)))) (ts ! j)"
    using inv unfolding place_inv_def by blast
  obtain rn w1 where rand: "rand fw (pl_world s) = (rn, w1)" by (meson surj_pair)
  define ri where "ri = unat (scast rn mod (escapes - word_of_nat i) :: u64)"
  have "ri < 12 - i" using assms(3) unat_escapes [OF assms(3)] by (simp add: ri_def unat_mod)
  moreover have bound: "unat bs + length cs < 2 ^ 63" using cs(2) assms(3,4) by simp
  ultimately have found: "ri < length (filter (is_escape_at W bs m') (search_order W H))"
    using search_finds_all [OF s(2), of bs] placed_escapes(2) [OF cs(1) bound] cs(2) assms(2) by simp
  have rw: "scast rn mod (escapes - word_of_nat i) = (word_of_nat ri :: u64)" by (simp add: ri_def)
  let ?s = "s\<lparr>pl_escapes := 0, pl_world := w1\<rparr>"
  have "bs \<le> pl_count s" "unat (pl_count s) + 1 < 2 ^ 61" using s(5) assms(3,4) by (simp_all add: word_le_nat_alt)
  with place_found [OF assms(1) s(2), of ?s bs es i e fsh "imgs ! i" "word_of_nat ri" ri] s(1,4) assms(6,7) found
  obtain q b' t k w' where q: "q \<in> set (search_order W H)" "is_escape_at W bs m' q"
    and loop: "loopE (\<lambda>(x, y). place_cell mktex fw fsh W bs (word_of_nat ri) es i x y) (search_order W H) ?s =
      Inr \<lparr>pl_map = (a, m'[place_of W q := sint (pl_count s)]), pl_textures = (b', (txs @ ts) @ [t]),
           pl_count = pl_count s + 1, pl_escapes = k, pl_world = w'\<rparr>" and "b' \<noteq> 0"
    and t: "shows_icon (imgs ! i) (snd ((txs @ ts) ! nat (m' ! place_of W q))) t"
    by (auto simp: s(3))
  let ?p = "place_of W q"
  have p: "?p \<in> escape_places bs m'"
    using q search_place(2) [OF s(2)] by (simp add: escape_places_def is_escape_at_def)
  note nxt = placed_next [OF cs(1) bound p]
  have cnt: "sint (pl_count s) = int (unat bs + length cs)"
    using s(5) cs(2) assms(3,4) sint_small_u64 [of "pl_count s"] by simp
  have "m ! ?p < 2 ^ 63" using nxt(3) m by (auto simp: maze_map_def escape_places_def)
  then have "nat (m ! ?p) < unat bs"
    using nxt(3) unat_u64_of_int [of "m ! ?p"] by (auto simp: escape_places_def is_escape_def word_less_nat_alt)
  with t nxt(2) assms(5) have t': "shows_icon (imgs ! i) (snd (txs ! nat (m ! ?p))) t"
    by (simp add: nth_append)
  let ?s' = "\<lparr>pl_map = (a, m'[?p := int (unat bs + length cs)]), pl_textures = (b', txs @ (ts @ [t])),
      pl_count = pl_count s + 1, pl_escapes = k, pl_world = w'\<rparr>"
  have "maze_map (a, m'[?p := int (unat bs + length cs)]) W H"
    unfolding cnt [symmetric]
    using sint_ge [of "pl_count s"] sint_lt [of "pl_count s"] by (intro maze_map_update [OF s(2)]) simp_all
  moreover have "unat (pl_count s + 1) = unat bs + Suc i"
    using s(5) assms(3,4) by (simp add: unat_add_no_wrap)
  moreover have "textures_ok area (b', txs @ (ts @ [t])) (pl_count s + 1)"
    using s(3,4,5,6) assms(5) t \<open>b' \<noteq> 0\<close> calculation(2) shows_size [OF t] by (auto simp: textures_ok_def)
  moreover have "\<forall>j < Suc i. shows_icon (imgs ! j) (snd (txs ! nat (m ! ((cs @ [?p]) ! j)))) ((ts @ [t]) ! j)"
    using icons t' cs(2) s(6) by (auto simp: nth_append less_Suc_eq)
  ultimately have "place_inv area shows_icon W H bs a m txs imgs (Suc i) ?s'"
    unfolding place_inv_def using nxt(1) cs(2) s(6)
    by (intro exI [of _ "m'[?p := int (unat bs + length cs)]"] exI [of _ "cs @ [?p]"] exI [of _ b'] exI [of _ "ts @ [t]"])
      simp
  moreover have "place_entry mktex fw fsh W H bs es i s = Inr ?s'"
    using loop rand escapes_nonzero [OF assms(3)] cnt
    by (simp add: place_entry_def rw loopE_product search_order_def)
  ultimately show ?thesis by blast
qed

lemma places:
  assumes "pool_ok fw" and "maze_map (a, m) W H" and "12 \<le> card (escape_places bs m)"
    and "unat n \<le> 12" and "unat bs + 12 < 2 ^ 60" and "textures_ok area (b, txs) bs"
    and "c \<noteq> 0" and "length es = unat n" and "length imgs = unat n"
    and "\<forall>i < unat n. icon_image fw fsh (es ! i) (imgs ! i)"
  shows "\<exists>m' cs b' ts n' w'.
    PlaceBootEntries_with mktex fw fsh (a, m) W H (b, txs) bs (c, es) n w = Inr ((a, m'), (b', txs @ ts), n', w') \<and>
    maze_map (a, m') W H \<and> placed bs m m' cs \<and> length cs = unat n \<and>
    textures_ok area (b', txs @ ts) n' \<and> unat n' = unat bs + unat n \<and> length ts = unat n \<and>
    (\<forall>j < unat n. shows_icon (imgs ! j) (snd (txs ! nat (m ! (cs ! j)))) (ts ! j))"
proof -
  let ?s0 = "\<lparr>pl_map = (a, m), pl_textures = (b, txs), pl_count = bs, pl_escapes = 0, pl_world = w\<rparr>"
  have "\<exists>s. loopE (place_entry mktex fw fsh W H bs (c, es)) [0..<unat n] ?s0 = Inr s \<and>
      place_inv area shows_icon W H bs a m txs imgs (unat n) s"
  proof (rule loopE_upt_total [where P = "place_inv area shows_icon W H bs a m txs imgs"])
    show "place_inv area shows_icon W H bs a m txs imgs 0 ?s0"
      using assms(2,6) by (auto simp: place_inv_def placed_def)
    fix i and s :: "'w place_state" assume "i < unat n" and inv: "place_inv area shows_icon W H bs a m txs imgs i s"
    then have i: "i < 12" "rdb (c, es) i = Inr (es ! i)" "icon_image fw fsh (es ! i) (imgs ! i)"
      using assms(4,7,8,10) by simp_all
    have "length txs = unat bs" using assms(6) by (simp add: textures_ok_def)
    from place_entry_step [OF assms(1,3) i(1) assms(5) this i(2,3) inv assms(2)]
    show "\<exists>s'. place_entry mktex fw fsh W H bs (c, es) i s = Inr s' \<and> place_inv area shows_icon W H bs a m txs imgs (Suc i) s'" .
  qed simp
  then obtain s where s: "loopE (place_entry mktex fw fsh W H bs (c, es)) [0..<unat n] ?s0 = Inr s"
    and inv: "place_inv area shows_icon W H bs a m txs imgs (unat n) s" by blast
  from inv obtain m' cs b' ts where "pl_map s = (a, m')" "maze_map (a, m') W H" "placed bs m m' cs" "length cs = unat n"
      "pl_textures s = (b', txs @ ts)" "textures_ok area (pl_textures s) (pl_count s)" "unat (pl_count s) = unat bs + unat n"
      "length ts = unat n" "\<forall>j < unat n. shows_icon (imgs ! j) (snd (txs ! nat (m ! (cs ! j)))) (ts ! j)"
    unfolding place_inv_def by blast
  with s show ?thesis
    by (intro exI [of _ m'] exI [of _ cs] exI [of _ b'] exI [of _ ts] exI [of _ "pl_count s"] exI [of _ "pl_world s"])
      (simp add: PlaceBootEntries_with_def)
qed

end

end
