(* ===== verification/DemoGame2D.thy ===== *)
theory DemoGame2D
  imports Placement
begin

text \<open>
  \<open>BootManager2D/src/DemoGame.c\<close>: the boot entries are placed on escape cells of the maze, the
  player walks through it, and reaching such a cell chooses the entry to boot. The maze is a
  row-major array of \<open>INTN\<close>; the texture table is an array of pointers to images.
\<close>


section \<open>The texture of a boot entry\<close>

text \<open>C division of a signed value by two truncates towards zero.\<close>

definition half_i32 :: "u32 \<Rightarrow> u64" where
  "half_i32 x = word_of_int (if sint x < 0 then - ((- sint x) div 2) else sint x div 2)"

definition MakeBootEntryTexture ::
  "('w, 'x) fw_scheme \<Rightarrow> EFI_HANDLE \<Rightarrow> BOOT_ENTRY \<Rightarrow> int \<Rightarrow> pixel buf buf \<Rightarrow> u64 \<Rightarrow> 'w
    \<Rightarrow> (EFI_STATUS \<times> pixel buf buf \<times> u64 \<times> 'w) result" where
  "MakeBootEntryTexture fw SelfFSHandle Entry BaseTextureIndex Textures TexturesCount w =
     bindE (ReadBMP fw SelfFSHandle (icon Entry) w) (\<lambda>(Status, bmp, w).
     case CatSPrint fw None (Some (wide ''reading BMP %s'')) [PStr (icon Entry)] w of (loc, w) \<Rightarrow>
     case CheckError fw Status loc w of (_, w) \<Rightarrow>
     bindE (use bmp) (\<lambda>(Width, Height, BootEntryIcon).
     bindE (CutInHalf fw BootEntryIcon (scast Width) (scast Height) w) (\<lambda>(SmallBootEntryIcon, w).
     if BaseTextureIndex < 0 then Inl OutOfBounds else
     bindE (rdb Textures (nat BaseTextureIndex)) (\<lambda>base.
     bindE (CombineWithTransparency fw base SmallBootEntryIcon (half_i32 Width) (half_i32 Height) w)
       (\<lambda>(BootEntryTexture, w).
     bindE (AddElement fw (0, []) Textures TexturesCount BootEntryTexture w)
       (\<lambda>(Textures, TexturesCount, w).
     Inr (Status, Textures, TexturesCount,
          FreePool fw (fst SmallBootEntryIcon) (FreePool fw (fst BootEntryIcon) w))))))))"

definition PlaceBootEntries ::
  "('w, 'x) fw_scheme \<Rightarrow> EFI_HANDLE \<Rightarrow> int buf \<Rightarrow> u64 \<Rightarrow> u64 \<Rightarrow> pixel buf buf \<Rightarrow> u64
    \<Rightarrow> BOOT_ENTRY buf \<Rightarrow> u64 \<Rightarrow> 'w \<Rightarrow> (int buf \<times> pixel buf buf \<times> u64 \<times> 'w) result" where
  "PlaceBootEntries = PlaceBootEntries_with MakeBootEntryTexture"

section \<open>The game\<close>

definition cell_side :: u64 where "cell_side = 32"

text \<open>\<open>Textures[Map[index]]\<close>\<close>

definition texture_at :: "pixel buf buf \<Rightarrow> int buf \<Rightarrow> u64 \<Rightarrow> pixel buf result" where
  "texture_at Textures Map index =
     bindE (rdb Map (unat index)) (\<lambda>v. if v < 0 then Inl OutOfBounds else rdb Textures (nat v))"

text \<open>Drawing an image of one cell at a position of the maze.\<close>

definition blt_cell :: "('w, 'x) fw_scheme \<Rightarrow> pixel buf \<Rightarrow> u64 \<times> u64 \<Rightarrow> u64 \<Rightarrow> u64 \<Rightarrow> 'w \<Rightarrow> 'w" where
  "blt_cell fw img margin x y w =
     Blt fw \<lparr>blt_buffer = img, blt_op = EfiBltBufferToVideo, blt_src = (0, 0),
             blt_dst = (x * cell_side + fst margin, y * cell_side + snd margin),
             blt_size = (cell_side, cell_side), blt_delta = cell_side * 4\<rparr> w"

definition draw_cell ::
  "('w, 'x) fw_scheme \<Rightarrow> pixel buf buf \<Rightarrow> int buf \<Rightarrow> u64 \<Rightarrow> pixel buf \<Rightarrow> u64 \<times> u64 \<Rightarrow> u64 \<times> u64 \<Rightarrow> nat \<Rightarrow> nat
    \<Rightarrow> 'w \<Rightarrow> 'w result" where
  "draw_cell fw Textures Map MapWidth Sprite margin Cur y x w =
     (let X = word_of_nat x; Y = word_of_nat y in
      bindE (texture_at Textures Map (Y * MapWidth + X)) (\<lambda>CurCell.
      if X = fst Cur \<and> Y = snd Cur then
        bindE (CombineWithTransparency fw Sprite CurCell cell_side cell_side w) (\<lambda>(CurCell, w).
          Inr (MyFreePool fw (fst CurCell) (blt_cell fw CurCell margin X Y w)))
      else Inr (blt_cell fw CurCell margin X Y w)))"

text \<open>
  The \<open>switch\<close> on the key. \<open>junk\<close> is what the uninitialised variable \<open>MapValue\<close> of this
  iteration holds. The result: the new position, \<open>MapValue\<close> and \<open>Escaped\<close>.
\<close>

definition map_value :: "int buf \<Rightarrow> u64 \<Rightarrow> u64 result" where
  "map_value Map index = bindE (rdb Map (unat index)) (\<lambda>v. Inr (word_of_int v))"

definition blocked :: "u64 \<Rightarrow> u64 \<Rightarrow> bool" where
  "blocked bootable_start MapValue \<longleftrightarrow> MapValue \<noteq> 0 \<and> MapValue < bootable_start"

definition handle_key ::
  "int buf \<Rightarrow> u64 \<Rightarrow> u64 \<Rightarrow> u64 \<Rightarrow> u16 \<Rightarrow> u64 \<Rightarrow> u64 \<Rightarrow> u64 \<Rightarrow> (u64 \<times> u64 \<times> u64 \<times> bool) result" where
  "handle_key Map MapWidth MapHeight bootable_start ScanCode junk CurX CurY =
     (if ScanCode = SCAN_UP then
        if CurY = 0 then Inr (CurX, CurY, junk, False) else
        bindE (map_value Map ((CurY - 1) * MapWidth + CurX)) (\<lambda>MapValue.
        if blocked bootable_start MapValue then Inr (CurX, CurY, MapValue, False)
        else Inr (CurX, CurY - 1, MapValue, False))
      else if ScanCode = SCAN_DOWN then
        if CurY = MapHeight - 1 then Inr (CurX, CurY, junk, False) else
        bindE (map_value Map ((CurY + 1) * MapWidth + CurX)) (\<lambda>MapValue.
        if blocked bootable_start MapValue then Inr (CurX, CurY, MapValue, False)
        else Inr (CurX, CurY + 1, MapValue, False))
      else if ScanCode = SCAN_LEFT then
        if CurX = 0 then Inr (CurX, CurY, junk, False) else
        bindE (map_value Map (CurY * MapWidth + CurX - 1)) (\<lambda>MapValue.
        if blocked bootable_start MapValue then Inr (CurX, CurY, MapValue, False)
        else Inr (CurX - 1, CurY, MapValue, False))
      else if ScanCode = SCAN_RIGHT then
        if CurX = MapWidth - 1 then Inr (CurX, CurY, junk, False) else
        bindE (map_value Map (CurY * MapWidth + CurX + 1)) (\<lambda>MapValue.
        if blocked bootable_start MapValue then Inr (CurX, CurY, MapValue, False)
        else Inr (CurX + 1, CurY, MapValue, False))
      else if ScanCode = SCAN_ESC then Inr (CurX, CurY, junk, True)
      else Inr (CurX, CurY, junk, False))"

text \<open>
  The \<open>while\<close> loop. The keys the player will press are the list \<open>keys\<close>, each with the junk of
  its iteration; a game that waits for a key that never comes is blocked. The result: the
  entry to boot, the position and the world.
\<close>

fun game_loop ::
  "('w, 'x) fw_scheme \<Rightarrow> pixel buf buf \<Rightarrow> int buf \<Rightarrow> u64 \<Rightarrow> u64 \<Rightarrow> u64 \<Rightarrow> pixel buf \<Rightarrow> u64 \<times> u64
    \<Rightarrow> (u16 \<times> u64) list \<Rightarrow> u64 \<Rightarrow> u64 \<Rightarrow> 'w \<Rightarrow> (u64 \<times> u64 \<times> u64 \<times> 'w) result" where
  "game_loop fw Textures Map MapWidth MapHeight bootable_start Sprite margin [] CurX CurY w = Inl Blocked"
| "game_loop fw Textures Map MapWidth MapHeight bootable_start Sprite margin ((ScanCode, junk) # keys) CurX CurY w =
     bindE (handle_key Map MapWidth MapHeight bootable_start ScanCode junk CurX CurY)
       (\<lambda>(NewX, NewY, MapValue, Escaped).
     bindE
       (if NewX \<noteq> CurX \<or> NewY \<noteq> CurY then
          bindE (texture_at Textures Map (CurY * MapWidth + CurX)) (\<lambda>old.
          let w = blt_cell fw old margin CurX CurY w in
          bindE (texture_at Textures Map (NewY * MapWidth + NewX)) (\<lambda>new.
          bindE (CombineWithTransparency fw Sprite new 32 32 w) (\<lambda>(CombinedSprite, w).
            Inr (blt_cell fw CombinedSprite margin NewX NewY w))))
        else Inr w)
       (\<lambda>w.
     if bootable_start \<le> MapValue then Inr (MapValue - bootable_start, NewX, NewY, w)
     else if Escaped then Inr (ESCAPE_ENTRY, NewX, NewY, w)
     else game_loop fw Textures Map MapWidth MapHeight bootable_start Sprite margin keys NewX NewY w))"

definition Game ::
  "('w, 'x) fw_scheme \<Rightarrow> EFI_HANDLE \<Rightarrow> int buf \<Rightarrow> u64 \<Rightarrow> u64 \<Rightarrow> pixel buf buf \<Rightarrow> u64
    \<Rightarrow> BOOT_ENTRY buf \<Rightarrow> u64 \<Rightarrow> pixel buf \<Rightarrow> (u16 \<times> u64) list \<Rightarrow> 'w \<Rightarrow> (u64 \<times> 'w) result" where
  "Game fw SelfFSHandle Map MapWidth MapHeight Textures TexturesCount BootEntries BootEntriesCount Sprite keys w =
     (let bootable_start = TexturesCount in
      bindE (PlaceBootEntries fw SelfFSHandle Map MapWidth MapHeight Textures TexturesCount BootEntries BootEntriesCount w)
        (\<lambda>(Map, Textures, TexturesCount, w).
      let screenWidth = ucast (fst (ScreenResolution fw w));
          screenHeight = ucast (snd (ScreenResolution fw w));
          margin = ((screenWidth - cell_side * MapWidth) div 2, (screenHeight - cell_side * MapHeight) div 2);
          CurX = 1;
          CurY = 17
      in
      bindE (loopE (\<lambda>y. loopE (\<lambda>x. draw_cell fw Textures Map MapWidth Sprite margin (CurX, CurY) y x)
                 [0..<unat MapWidth]) [0..<unat MapHeight] w) (\<lambda>w.
      bindE (game_loop fw Textures Map MapWidth MapHeight bootable_start Sprite margin keys CurX CurY w)
        (\<lambda>(EntryToBoot, _, _, w).
      Inr (EntryToBoot,
           Blt fw \<lparr>blt_buffer = (1, [zero_pixel]), blt_op = EfiBltVideoFill, blt_src = (0, 0), blt_dst = (0, 0),
                   blt_size = (screenWidth, screenHeight), blt_delta = 0\<rparr> w)))))"

section \<open>The player stays in the maze and out of the walls\<close>

definition free_cell :: "int buf \<Rightarrow> u64 \<Rightarrow> u64 \<Rightarrow> u64 \<Rightarrow> u64 \<Rightarrow> bool" where
  "free_cell Map MapWidth bootable_start X Y \<longleftrightarrow>
     \<not> blocked bootable_start (word_of_int (cell_at Map MapWidth X Y))"

definition next_to :: "u64 \<Rightarrow> u64 \<Rightarrow> u64 \<Rightarrow> u64 \<Rightarrow> bool" where
  "next_to X Y X' Y' \<longleftrightarrow>
     (X = X' \<and> (unat Y' = unat Y + 1 \<or> unat Y = unat Y' + 1)) \<or>
     (Y = Y' \<and> (unat X' = unat X + 1 \<or> unat X = unat X' + 1))"

lemma map_value_cell:
  assumes "maze_map Map W H" and "in_maze W H X Y"
  shows "map_value Map (Y * W + X) = Inr (word_of_int (cell_at Map W X Y))"
  using maze_index [OF assms] assms(1) by (simp add: map_value_def cell_at_def rdb_def maze_map_def)

text \<open>The guards at the border keep the coordinates from leaving the range or wrapping around.\<close>

lemma coordinate_down: "X \<noteq> 0 \<Longrightarrow> unat X = unat (X - 1) + 1" for X :: u64
  using unat_minus_one [of X] by (metis Suc_diff_1 Suc_eq_plus1 unat_gt_0)

lemma coordinate_up:
  fixes X W :: u64
  assumes "X \<noteq> W - 1" and "unat X < unat W"
  shows "unat (X + 1) = unat X + 1" and "unat X + 1 < unat W"
proof -
  have "W \<noteq> 0" using assms(2) by auto
  then have "unat (W - 1) = unat W - 1" by (rule unat_minus_one)
  with assms show lt: "unat X + 1 < unat W"
    by (metis Suc_eq_plus1 Suc_lessI diff_Suc_1 word_eq_iff_unsigned)
  then show "unat (X + 1) = unat X + 1"
    using unat_u64_less [of W] by (simp add: unat_add_no_wrap)
qed

text \<open>
  A key either moves the player to a neighbouring free cell, whose value is then in
  \<open>MapValue\<close>, or leaves the position alone with a \<open>MapValue\<close> that is a wall or was never stored.
\<close>

definition key_moves :: "int buf \<Rightarrow> u64 \<Rightarrow> u64 \<Rightarrow> u64 \<Rightarrow> u64 \<Rightarrow> u64 \<Rightarrow> u64 \<Rightarrow> u64 \<Rightarrow> u64 \<Rightarrow> bool" where
  "key_moves Map W H bs X Y X' Y' mv \<longleftrightarrow>
     next_to X Y X' Y' \<and> mv = word_of_int (cell_at Map W X' Y') \<and> free_cell Map W bs X' Y'"

lemma handle_key_cases:
  assumes "maze_map Map W H" and "in_maze W H X Y"
  shows "\<exists>X' Y' mv e. handle_key Map W H bs sc junk X Y = Inr (X', Y', mv, e) \<and> in_maze W H X' Y' \<and>
    (e \<longleftrightarrow> sc = SCAN_ESC) \<and>
    (key_moves Map W H bs X Y X' Y' mv \<or> X' = X \<and> Y' = Y \<and> (mv = junk \<or> blocked bs mv))"
proof -
  define good where "good r e \<longleftrightarrow> (\<exists>X' Y' mv. r = Inr (X', Y', mv, e) \<and> in_maze W H X' Y' \<and>
      (key_moves Map W H bs X Y X' Y' mv \<or> X' = X \<and> Y' = Y \<and> (mv = junk \<or> blocked bs mv)))" 
    for r :: "(u64 \<times> u64 \<times> u64 \<times> bool) result" and e
  have stay: "good (Inr (X, Y, junk, e)) e" for e using assms(2) by (simp add: good_def)
  have try_move: "good (if border then Inr (X, Y, junk, False)
        else bindE (map_value Map idx) (\<lambda>mv. if blocked bs mv then Inr (X, Y, mv, False) else Inr (NX, NY, mv, False))) False"
    if "\<not> border \<Longrightarrow> in_maze W H NX NY \<and> next_to X Y NX NY \<and> idx = NY * W + NX" for border idx NX NY
    using that assms map_value_cell [OF assms(1), of NX NY]
    by (auto simp: good_def key_moves_def free_cell_def)
  have codes: "SCAN_UP \<noteq> SCAN_ESC" "SCAN_DOWN \<noteq> SCAN_ESC" "SCAN_LEFT \<noteq> SCAN_ESC" "SCAN_RIGHT \<noteq> SCAN_ESC"
    by (simp_all add: SCAN_UP_def SCAN_DOWN_def SCAN_LEFT_def SCAN_RIGHT_def SCAN_ESC_def)
  have up: "Y \<noteq> 0 \<Longrightarrow> in_maze W H X (Y - 1) \<and> next_to X Y X (Y - 1) \<and> (Y - 1) * W + X = (Y - 1) * W + X"
    using coordinate_down [of Y] assms(2) by (auto simp: in_maze_def next_to_def)
  have down: "Y \<noteq> H - 1 \<Longrightarrow> in_maze W H X (Y + 1) \<and> next_to X Y X (Y + 1) \<and> (Y + 1) * W + X = (Y + 1) * W + X"
    using coordinate_up [of Y H] assms(2) by (auto simp: in_maze_def next_to_def)
  have left: "X \<noteq> 0 \<Longrightarrow> in_maze W H (X - 1) Y \<and> next_to X Y (X - 1) Y \<and> Y * W + X - 1 = Y * W + (X - 1)"
    using coordinate_down [of X] assms(2) by (auto simp: in_maze_def next_to_def)
  have right: "X \<noteq> W - 1 \<Longrightarrow> in_maze W H (X + 1) Y \<and> next_to X Y (X + 1) Y \<and> Y * W + X + 1 = Y * W + (X + 1)"
    using coordinate_up [of X W] assms(2) by (auto simp: in_maze_def next_to_def)
  consider "sc = SCAN_UP" | "sc \<noteq> SCAN_UP" "sc = SCAN_DOWN" | "sc \<noteq> SCAN_UP" "sc \<noteq> SCAN_DOWN" "sc = SCAN_LEFT"
    | "sc \<noteq> SCAN_UP" "sc \<noteq> SCAN_DOWN" "sc \<noteq> SCAN_LEFT" "sc = SCAN_RIGHT"
    | "sc \<noteq> SCAN_UP" "sc \<noteq> SCAN_DOWN" "sc \<noteq> SCAN_LEFT" "sc \<noteq> SCAN_RIGHT" by blast
  then have "good (handle_key Map W H bs sc junk X Y) (sc = SCAN_ESC)"
    unfolding handle_key_def
    by cases (simp_all only: if_True if_False simp_thms codes try_move [OF up] try_move [OF down]
        try_move [OF left] try_move [OF right], auto simp: stay)
  then show ?thesis by (auto simp: good_def)
qed

text \<open>The positions the player can be in after any sequence of keys.\<close>

inductive walk :: "int buf \<Rightarrow> u64 \<Rightarrow> u64 \<Rightarrow> u64 \<Rightarrow> u64 \<times> u64 \<Rightarrow> u64 \<times> u64 \<Rightarrow> bool"
  for Map W H bs start where
  start: "walk Map W H bs start start"
| key: "walk Map W H bs start (X, Y) \<Longrightarrow> handle_key Map W H bs ScanCode junk X Y = Inr (X', Y', MapValue, Escaped) \<Longrightarrow>
    walk Map W H bs start (X', Y')"

lemma walk_free:
  assumes "walk Map W H bs start p" and "maze_map Map W H"
    and "in_maze W H (fst start) (snd start)" and "free_cell Map W bs (fst start) (snd start)"
  shows "in_maze W H (fst p) (snd p) \<and> free_cell Map W bs (fst p) (snd p)"
  using assms(1)
proof induction
  case start
  with assms(3,4) show ?case by simp
next
  case (key X Y sc junk X' Y' mv e)
  from handle_key_cases [OF assms(2), of X Y bs sc junk] key show ?case
    by (auto simp: key_moves_def)
qed

section \<open>The game ends with an entry the player has reached\<close>

text \<open>
  What the drawing code relies on: a sprite and textures of 32 by 32 pixels, and maze cells
  that are indices of textures.
\<close>

definition scene_ok :: "pixel buf buf \<Rightarrow> int buf \<Rightarrow> pixel buf \<Rightarrow> bool" where
  "scene_ok Textures Map Sprite \<longleftrightarrow> fst Textures \<noteq> 0 \<and> fst Sprite \<noteq> 0 \<and> length (snd Sprite) = 1024 \<and>
     (\<forall>v \<in> set (snd Map). 0 \<le> v \<and> nat v < length (snd Textures)) \<and>
     (\<forall>t \<in> set (snd Textures). fst t \<noteq> 0 \<and> length (snd t) = 1024)"

lemma texture_at_ok:
  assumes "maze_map Map W H" and "in_maze W H X Y" and "scene_ok Textures Map Sprite"
  obtains t where "texture_at Textures Map (Y * W + X) = Inr t" and "fst t \<noteq> 0" and "length (snd t) = 1024"
proof -
  note idx = maze_index [OF assms(1,2)]
  let ?v = "snd Map ! (unat Y * unat W + unat X)"
  have "?v \<in> set (snd Map)" using idx(2) by simp
  with assms(3) have v: "0 \<le> ?v" "nat ?v < length (snd Textures)" by (auto simp: scene_ok_def)
  then have "snd Textures ! nat ?v \<in> set (snd Textures)" by simp
  moreover have "texture_at Textures Map (Y * W + X) = Inr (snd Textures ! nat ?v)"
  proof -
    have "\<not> ?v < 0" "fst Map \<noteq> 0" "fst Textures \<noteq> 0"
      using assms v(1) by (auto simp: scene_ok_def maze_map_def)
    with v(2) idx show ?thesis by (simp add: texture_at_def rdb_def)
  qed
  ultimately show ?thesis using assms(3) that by (auto simp: scene_ok_def)
qed

lemma combine_sprite:
  assumes "pool_ok fw" and "fst s \<noteq> 0" "length (snd s) = 1024" and "fst t \<noteq> 0" "length (snd t) = 1024"
  obtains c w' where "CombineWithTransparency fw s t 32 32 w = Inr (c, w')"
  using CombineWithTransparency_pixels [OF assms(1), of "fst s" "fst t" "snd s" 32 32 "snd t" w] assms
  by auto

text \<open>
  Whatever keys are pressed, the game never leaves defined behaviour. When it ends, the player
  is in the maze; and unless the junk in \<open>MapValue\<close> looked like a boot entry, either \<open>ESC\<close> was
  pressed or the player stands on the cell whose value is the entry that is returned.
\<close>

definition esc_pressed :: "(u16 \<times> u64) list \<Rightarrow> bool" where
  "esc_pressed keys \<longleftrightarrow> list_ex (\<lambda>k. fst k = SCAN_ESC) keys"

lemma esc_pressed_simps [simp]:
  "\<not> esc_pressed []" "esc_pressed (k # keys) \<longleftrightarrow> fst k = SCAN_ESC \<or> esc_pressed keys"
  by (simp_all add: esc_pressed_def)

lemma game_loop_ends:
  assumes "pool_ok fw" and "maze_map Map W H" and "scene_ok Textures Map Sprite" and "in_maze W H X Y"
  shows "(game_loop fw Textures Map W H bs Sprite margin keys X Y w = Inl Blocked \<and> \<not> esc_pressed keys) \<or>
    (\<exists>e X' Y' w'. game_loop fw Textures Map W H bs Sprite margin keys X Y w = Inr (e, X', Y', w') \<and>
      in_maze W H X' Y' \<and>
      ((\<forall>k \<in> set keys. snd k < bs) \<longrightarrow>
        e = ESCAPE_ENTRY \<and> esc_pressed keys \<or>
        bs \<le> word_of_int (cell_at Map W X' Y') \<and> e = word_of_int (cell_at Map W X' Y') - bs))"
  using assms(4)
proof (induction keys arbitrary: X Y w)
  case Nil
  then show ?case by simp
next
  case (Cons k keys)
  obtain sc junk where k: "k = (sc, junk)" by (cases k)
  obtain X' Y' mv e where hk: "handle_key Map W H bs sc junk X Y = Inr (X', Y', mv, e)"
    and pos: "in_maze W H X' Y'" and esc: "e \<longleftrightarrow> sc = SCAN_ESC"
    and how: "key_moves Map W H bs X Y X' Y' mv \<or> X' = X \<and> Y' = Y \<and> (mv = junk \<or> blocked bs mv)"
    using handle_key_cases [OF assms(2) Cons.prems] by blast
  obtain old where old: "texture_at Textures Map (Y * W + X) = Inr old"
    using texture_at_ok [OF assms(2) Cons.prems assms(3)] by blast
  obtain new where new: "texture_at Textures Map (Y' * W + X') = Inr new" "fst new \<noteq> 0" "length (snd new) = 1024"
    using texture_at_ok [OF assms(2) pos assms(3)] by blast
  have sprite: "fst Sprite \<noteq> 0" "length (snd Sprite) = 1024" using assms(3) by (auto simp: scene_ok_def)
  let ?w1 = "blt_cell fw old margin X Y w"
  obtain c w2 where "CombineWithTransparency fw Sprite new 32 32 ?w1 = Inr (c, w2)"
    by (rule combine_sprite [OF assms(1) sprite new(2,3)])
  then obtain w3 where "game_loop fw Textures Map W H bs Sprite margin (k # keys) X Y w =
      (if bs \<le> mv then Inr (mv - bs, X', Y', w3)
       else if e then Inr (ESCAPE_ENTRY, X', Y', w3)
       else game_loop fw Textures Map W H bs Sprite margin keys X' Y' w3)"
    using hk old new(1) by (cases "X' \<noteq> X \<or> Y' \<noteq> Y") (auto simp: k)
  then show ?case
    using Cons.IH [OF pos, of w3] pos esc how
    by (auto simp: k key_moves_def blocked_def simp del: game_loop.simps)
qed

section \<open>Every boot entry gets an escape of its own\<close>

text \<open>The texture of an entry: its icon, halved, behind the texture of the escape cell.\<close>

definition icon_behind :: "pixel list \<Rightarrow> pixel list \<Rightarrow> pixel buf \<Rightarrow> bool" where
  "icon_behind img base t \<longleftrightarrow> fst t \<noteq> 0 \<and> length (snd t) = 1024 \<and>
     (\<forall>y < 32. \<forall>x < 32. snd t ! (y * 32 + x) = over_pixel (base ! (y * 32 + x)) (img ! (2 * y * 64 + 2 * x)))"

lemma MakeBootEntryTexture_icon:
  assumes "pool_ok fw" and "icon_image fw fsh e img" and "textures_ok 1024 Tx n" and "unat n + 1 < 2 ^ 61"
    and "0 \<le> c" and "nat c < unat n"
  shows "\<exists>a t w'. MakeBootEntryTexture fw fsh e c Tx n w = Inr (EFI_SUCCESS, (a, snd Tx @ [t]), n + 1, w') \<and>
    a \<noteq> 0 \<and> icon_behind img (snd (snd Tx ! nat c)) t"
proof -
  obtain name h gap where e: "icon e = Some name" and f: "file_at fw fsh name (bmp_file h gap img)"
    and h: "good_header h gap" "BmpWidth h = 64" "BmpHeight h = 64" and len: "length img = 4096"
    using assms(2) by (auto simp: icon_image_def)
  obtain ai w1 where bmp: "ReadBMP fw fsh (icon e) w = Inr (EFI_SUCCESS, Some (64, 64, (ai, img)), w1)" and "ai \<noteq> 0"
    using ReadBMP_file [OF assms(1) f h(1), of w] h(2,3) len e by auto
  obtain loc w2 where cat: "CatSPrint fw None (Some (wide ''reading BMP %s'')) [PStr (icon e)] w1 = (loc, w2)"
    by (meson surj_pair)
  obtain ah half w3 where cut: "CutInHalf fw (ai, img) 64 64 w2 = Inr ((ah, half), w3)" and "ah \<noteq> 0"
    and half: "length half = 1024" "\<forall>y < 32. \<forall>x < 32. half ! (y * 32 + x) = img ! (2 * y * 64 + 2 * x)"
    using CutInHalf_pixels [OF assms(1) \<open>ai \<noteq> 0\<close>, of img 64 64 w2] len by auto
  let ?base = "snd Tx ! nat c"
  have base: "fst ?base \<noteq> 0" "length (snd ?base) = 1024" "rdb Tx (nat c) = Inr ?base"
    using assms(3,6) by (auto simp: textures_ok_def rdb_def)
  obtain at t w4 where comb: "CombineWithTransparency fw ?base (ah, half) 32 32 w3 = Inr ((at, t), w4)"
    and t: "at \<noteq> 0" "length t = 1024"
      "\<forall>y < 32. \<forall>x < 32. t ! (y * 32 + x) = over_pixel (snd ?base ! (y * 32 + x)) (half ! (y * 32 + x))"
    using CombineWithTransparency_pixels [OF assms(1) base(1) \<open>ah \<noteq> 0\<close>, of "snd ?base" 32 32 half w3] base(2) half(1)
    by auto
  obtain a w5 where add: "AddElement fw (0, []) Tx n (at, t) w4 = Inr ((a, snd Tx @ [(at, t)]), n + 1, w5)" and "a \<noteq> 0"
    using AddElement_appends [OF assms(1), of "snd Tx" n "(0, [])" "fst Tx" "(at, t)" w4] assms(3,4)
    by (auto simp: textures_ok_def)
  have "icon_behind img (snd ?base) (at, t)" using t half(2) by (simp add: icon_behind_def)
  moreover have "MakeBootEntryTexture fw fsh e c Tx n w =
      Inr (EFI_SUCCESS, (a, snd Tx @ [(at, t)]), n + 1, FreePool fw ah (FreePool fw ai w5))"
    using bmp cat cut base(3) comb add assms(5) by (simp add: MakeBootEntryTexture_def half_i32_def)
  ultimately show ?thesis using \<open>a \<noteq> 0\<close> by blast
qed

interpretation textures2D: entry_textures MakeBootEntryTexture 1024 icon_behind
  by unfold_locales (rule MakeBootEntryTexture_icon, auto simp: icon_behind_def)

section \<open>The whole game\<close>

lemma draw_cell_ok:
  assumes "pool_ok fw" and "maze_map Map W H" and "scene_ok Textures Map Sprite" and "y < unat H" and "x < unat W"
  shows "\<exists>w'. draw_cell fw Textures Map W Sprite margin Cur y x w = Inr w'"
proof -
  have "in_maze W H (word_of_nat x) (word_of_nat y)"
    using assms(4,5) unat_u64_less [of W] unat_u64_less [of H] by (simp add: in_maze_def)
  then obtain t where t: "texture_at Textures Map (word_of_nat y * W + word_of_nat x) = Inr t"
      "fst t \<noteq> 0" "length (snd t) = 1024"
    using texture_at_ok [OF assms(2) _ assms(3)] by metis
  have "fst Sprite \<noteq> 0" "length (snd Sprite) = 1024" using assms(3) by (auto simp: scene_ok_def)
  with t obtain c w' where "CombineWithTransparency fw Sprite t 32 32 w = Inr (c, w')"
    using combine_sprite [OF assms(1)] by metis
  with t(1) show ?thesis by (auto simp: draw_cell_def cell_side_def Let_def)
qed

lemma draw_maze_ok:
  assumes "pool_ok fw" and "maze_map Map W H" and "scene_ok Textures Map Sprite"
  shows "\<exists>w'. loopE (\<lambda>y. loopE (\<lambda>x. draw_cell fw Textures Map W Sprite margin Cur y x) [0..<unat W])
      [0..<unat H] w = Inr w'"
proof -
  have "\<exists>w'. loopE (\<lambda>(y, x). draw_cell fw Textures Map W Sprite margin Cur y x)
      (List.product [0..<unat H] [0..<unat W]) w = Inr w' \<and> True"
    by (rule loopE_inv_total) (use draw_cell_ok [OF assms, of _ _ margin Cur] in auto)
  then show ?thesis by (simp add: loopE_product)
qed

lemma Game_result:
  assumes fw: "pool_ok fw" and m: "maze_map (a, m) W H" "12 \<le> card (escape_places bs m)"
      "\<forall>v \<in> set m. 0 \<le> v \<and> v < int (unat bs)" "1 < unat W" "17 < unat H"
    and n: "unat n \<le> 12" "unat bs + 12 < 2 ^ 60"
    and tx: "textures_ok 1024 (b, txs) bs" "fst Sprite \<noteq> 0" "length (snd Sprite) = 1024"
    and es: "c \<noteq> 0" "length es = unat n" "\<forall>e \<in> set es. \<exists>img. icon_image fw fsh e img"
    and junk: "\<forall>k \<in> set keys. snd k < bs"
  shows "(Game fw fsh (a, m) W H (b, txs) bs (c, es) n Sprite keys w = Inl Blocked \<and> \<not> esc_pressed keys) \<or>
    (\<exists>e w'. Game fw fsh (a, m) W H (b, txs) bs (c, es) n Sprite keys w = Inr (e, w') \<and>
      (e = ESCAPE_ENTRY \<and> esc_pressed keys \<or> unat e < unat n))"
proof -
  have "\<forall>i < unat n. \<exists>img. icon_image fw fsh (es ! i) img" using es(2,3) by simp
  then obtain f where "\<forall>i < unat n. icon_image fw fsh (es ! i) (f i)" by metis
  then have icons: "length (map f [0..<unat n]) = unat n" "\<forall>i < unat n. icon_image fw fsh (es ! i) (map f [0..<unat n] ! i)"
    by simp_all
  obtain m' cs b' ts n' w1 where pl: "PlaceBootEntries fw fsh (a, m) W H (b, txs) bs (c, es) n w =
        Inr ((a, m'), (b', txs @ ts), n', w1)"
    and m': "maze_map (a, m') W H" "placed bs m m' cs" "length cs = unat n"
    and tx': "textures_ok 1024 (b', txs @ ts) n'" "unat n' = unat bs + unat n"
    using textures2D.places [OF fw m(1,2) n tx(1) es(1,2) icons] unfolding PlaceBootEntries_def by blast
  have len: "length m' = length m" using m'(2) by (simp add: placed_def)
  note cell = placed_cell [OF m'(2) m(3)]
  have scene: "scene_ok (b', txs @ ts) (a, m') Sprite"
  proof -
    have "0 \<le> v \<and> nat v < unat bs + unat n" if "v \<in> set m'" for v
    proof -
      from that len obtain p where p: "p < length m" "v = m' ! p" by (auto simp: in_set_conv_nth)
      have "nat (m' ! p) < unat bs + length cs"
        using cell(2) [OF p(1)] by (simp only: nat_less_iff [OF cell(1) [OF p(1)]])
      with cell(1) [OF p(1)] p(2) m'(3) show ?thesis by simp
    qed
    with tx' tx(2,3) show ?thesis by (auto simp: scene_ok_def textures_ok_def)
  qed
  let ?margin = "((ucast (fst (ScreenResolution fw w1)) - cell_side * W) div 2,
      (ucast (snd (ScreenResolution fw w1)) - cell_side * H) div 2)"
  have start: "in_maze W H 1 17" using m(4,5) by (simp add: in_maze_def)
  obtain w2 where draw: "loopE (\<lambda>y. loopE (\<lambda>x. draw_cell fw (b', txs @ ts) (a, m') W Sprite ?margin (1, 17) y x)
      [0..<unat W]) [0..<unat H] w1 = Inr w2"
    using draw_maze_ok [OF fw m'(1) scene] by blast
  let ?loop = "game_loop fw (b', txs @ ts) (a, m') W H bs Sprite ?margin keys 1 17 w2"
  have "?loop = Inl Blocked \<and> \<not> esc_pressed keys \<or>
    (\<exists>e X Y w'. ?loop = Inr (e, X, Y, w') \<and> (e = ESCAPE_ENTRY \<and> esc_pressed keys \<or> unat e < unat n))"
  proof -
    have "unat (word_of_int (cell_at (a, m') W X Y) - bs) < unat n"
      if "in_maze W H X Y" "bs \<le> word_of_int (cell_at (a, m') W X Y)" for X Y
    proof -
      have "cell_at (a, m') W X Y \<in> set m'"
        using maze_index(2) [OF m'(1) that(1)] by (simp add: cell_at_def)
      from placed_entry [OF m'(2) m(3) m'(1) this that(2)] m'(3) n(1) show ?thesis by simp
    qed
    with game_loop_ends [OF fw m'(1) scene start, of bs ?margin keys w2] junk show ?thesis by blast
  qed
  with pl draw show ?thesis by (auto simp: Game_def Let_def)
qed

end

