(* ===== verification/BootMain2D.thy ===== *)
theory BootMain2D
  imports DemoGame2D
begin

text \<open>
  \<open>BootManager2D/src/Main.c\<close>: starting the loader of a boot entry, and the main program that
  reads the configuration, plays the game and boots the entry the player has reached.
\<close>

section \<open>Booting an entry\<close>

definition start_loader ::
  "('w, 'x) fw_scheme \<Rightarrow> EFI_HANDLE \<Rightarrow> BOOT_ENTRY \<Rightarrow> EFI_HANDLE \<Rightarrow> 'w \<Rightarrow> EFI_STATUS \<times> 'w" where
  "start_loader fw gImageHandle boot_entry part w =
     (case LoadImage fw gImageHandle part (loader_name boot_entry) w of (Status, child_handle, w) \<Rightarrow>
      case CatSPrint fw None (Some (wide ''while loading %s'')) [PStr (title boot_entry)] w of (loc, w) \<Rightarrow>
      case CheckError fw Status loc w of (failed, w) \<Rightarrow>
      if failed then (Status, w) else
      let LoadOptionsSize = (case options boot_entry of
             None \<Rightarrow> 0
           | Some s \<Rightarrow> ucast ((StrLen fw s + 1) * 2)) in
      (Status, StartImage fw child_handle (options boot_entry) LoadOptionsSize w))"

text \<open>The loop over the partitions, from index \<open>i\<close> on; \<open>m\<close> of them are left.\<close>

fun boot_loop ::
  "('w, 'x) fw_scheme \<Rightarrow> EFI_HANDLE \<Rightarrow> BOOT_ENTRY \<Rightarrow> PARTITION buf \<Rightarrow> nat \<Rightarrow> nat \<Rightarrow> 'w
    \<Rightarrow> (EFI_STATUS \<times> 'w) result" where
  "boot_loop fw gImageHandle boot_entry partitions 0 i w = Inr (EFI_SUCCESS, w)"
| "boot_loop fw gImageHandle boot_entry partitions (Suc m) i w =
     (let entry_guid = StrToGuid fw (volume_guid boot_entry) in
      bindE (rdb partitions i) (\<lambda>p.
      case guid p of
        None \<Rightarrow> Inl NullPointer
      | Some g \<Rightarrow>
          if CompareGuid fw entry_guid g then Inr (start_loader fw gImageHandle boot_entry (handle p) w)
          else boot_loop fw gImageHandle boot_entry partitions m (i + 1) w))"

definition BootEntry ::
  "('w, 'x) fw_scheme \<Rightarrow> EFI_HANDLE \<Rightarrow> BOOT_ENTRY \<Rightarrow> PARTITION buf \<Rightarrow> u64 \<Rightarrow> 'w \<Rightarrow> (EFI_STATUS \<times> 'w) result" where
  "BootEntry fw gImageHandle boot_entry partitions partitions_count w =
     boot_loop fw gImageHandle boot_entry partitions (unat partitions_count) 0 w"

section \<open>The main program\<close>

text \<open>
  Reading the textures: the size is looked at before the status, so a texture that cannot be
  read is an indeterminate size. \<^term>\<open>Inl\<close> of the inner sum is the early return.
\<close>

definition load_texture ::
  "('w, 'x) fw_scheme \<Rightarrow> EFI_HANDLE \<Rightarrow> CHAR16s buf \<Rightarrow> nat \<Rightarrow> pixel buf buf \<times> 'w
    \<Rightarrow> (EFI_STATUS \<times> 'w + pixel buf buf \<times> 'w) result" where
  "load_texture fw SelfFSHandle TexturesFiles i s =
     (case s of (Textures, w) \<Rightarrow>
      bindE (rdb TexturesFiles i) (\<lambda>name.
      bindE (ReadBMP fw SelfFSHandle name w) (\<lambda>(Status, bmp, w).
      bindE (use bmp) (\<lambda>(Width, Height, Texture).
      let w = (if sint Width \<noteq> 64 \<or> sint Height \<noteq> 64
               then snd (CheckError fw EFI_INVALID_PARAMETER (Some (wide ''wrong texture size'')) w) else w) in
      case CatSPrint fw None (Some (wide ''reading BMP file %s'')) [PStr name] w of (loc, w) \<Rightarrow>
      case CheckError fw Status loc w of (failed, w) \<Rightarrow>
      if failed then Inr (Inl (Status, w)) else
      bindE (CutInHalf fw Texture (scast Width) (scast Height) w) (\<lambda>(small, w).
      bindE (wrb Textures i small) (\<lambda>Textures.
        Inr (Inr (Textures, MyFreePool fw (fst Texture) w))))))))"

fun load_textures ::
  "('w, 'x) fw_scheme \<Rightarrow> EFI_HANDLE \<Rightarrow> CHAR16s buf \<Rightarrow> nat \<Rightarrow> nat \<Rightarrow> pixel buf buf \<times> 'w
    \<Rightarrow> (EFI_STATUS \<times> 'w + pixel buf buf \<times> 'w) result" where
  "load_textures fw SelfFSHandle TexturesFiles 0 i s = Inr (Inr s)"
| "load_textures fw SelfFSHandle TexturesFiles (Suc m) i s =
     bindE (load_texture fw SelfFSHandle TexturesFiles i s) (\<lambda>r.
     case r of
       Inl early \<Rightarrow> Inr (Inl early)
     | Inr s \<Rightarrow> load_textures fw SelfFSHandle TexturesFiles m (i + 1) s)"

text \<open>From the textures on: the sprite, the game and the boot.\<close>

definition play_and_boot ::
  "('w, 'x) fw_scheme \<Rightarrow> EFI_HANDLE \<Rightarrow> EFI_HANDLE \<Rightarrow> BOOT_ENTRY buf \<Rightarrow> u64 \<Rightarrow> PARTITION buf \<Rightarrow> u64
    \<Rightarrow> int buf \<Rightarrow> u64 \<Rightarrow> u64 \<Rightarrow> pixel buf buf \<Rightarrow> u64 \<Rightarrow> (u16 \<times> u64) list \<Rightarrow> 'w \<Rightarrow> (EFI_STATUS \<times> 'w) result" where
  "play_and_boot fw gImageHandle SelfFSHandle BootEntries BootEntriesCount partitions HandlesCount
     Numbers MapWidth MapHeight Textures TexturesCount keys w =
     bindE (ParseSprite fw SelfFSHandle (Some (wide ''Sprite.txt'')) w) (\<lambda>(Status, Sprite, _, _, w).
     case CheckError fw Status (Some (wide ''reading actor file'')) w of (failed, w) \<Rightarrow>
     if failed then Inr (Status, w) else
     bindE (Game fw SelfFSHandle Numbers MapWidth MapHeight Textures TexturesCount BootEntries BootEntriesCount Sprite keys w)
       (\<lambda>(EntryToBoot, w).
     if EntryToBoot \<noteq> ESCAPE_ENTRY then
       bindE (rdb BootEntries (unat EntryToBoot)) (\<lambda>e.
         BootEntry fw gImageHandle e partitions HandlesCount w)
     else Inr (Status, w)))"

definition UefiMain2D ::
  "('w, 'x) fw_scheme \<Rightarrow> EFI_HANDLE \<Rightarrow> EFI_HANDLE \<Rightarrow> (u16 \<times> u64) list \<Rightarrow> 'w \<Rightarrow> (EFI_STATUS \<times> 'w) result" where
  "UefiMain2D fw gImageHandle SelfFSHandle keys w =
     (let w = srand_time fw w in
      case LocateCurFSHandle fw gImageHandle SelfFSHandle w of (Status, SelfFSHandle, w) \<Rightarrow>
      case CheckError fw Status (Some (wide ''while getting current file system'')) w of (failed, w) \<Rightarrow>
      if failed then Inr (Status, w) else
      bindE (ParseConfigFile fw SelfFSHandle (Some (wide ''2DConfig.txt'')) w)
        (\<lambda>(Status, BootEntries, BootEntriesCount, w).
      case CheckError fw Status (Some (wide ''while parsing config file'')) w of (failed, w) \<Rightarrow>
      if failed then Inr (Status, w) else
      bindE (LocateFSPartitions fw w) (\<lambda>(Status, partitions, HandlesCount, w).
      case CheckError fw Status (Some (wide ''while locating fs partitions'')) w of (failed, w) \<Rightarrow>
      if failed then Inr (Status, w) else
      bindE (use partitions) (\<lambda>partitions.
      bindE (ParseMazeConfigFile fw SelfFSHandle (Some (wide ''MazeConfig.conf'')) w) (\<lambda>(_, maze, w).
      bindE (ParseTexturesConfigFile fw SelfFSHandle (Some (wide ''TexturesConfig.conf'')) w) (\<lambda>(_, texs, w).
      bindE (use texs) (\<lambda>(TexturesFiles, TexturesCount).
      case AllocateZeroArray fw 8 (0, []) (TexturesCount * 8) w of (Textures, w) \<Rightarrow>
      bindE (load_textures fw SelfFSHandle TexturesFiles (unat TexturesCount) 0 (Textures, w)) (\<lambda>r.
      case r of
        Inl early \<Rightarrow> Inr early
      | Inr (Textures, w) \<Rightarrow>
          bindE (use maze) (\<lambda>(Numbers, MapWidth, MapHeight).
          play_and_boot fw gImageHandle SelfFSHandle BootEntries BootEntriesCount partitions HandlesCount
            Numbers MapWidth MapHeight Textures TexturesCount keys w)))))))))"

section \<open>The entry is started from the first partition that carries its GUID\<close>

lemma boot_loop_first:
  assumes "\<forall>g h. CompareGuid fw g h \<longleftrightarrow> g = h" and "a \<noteq> 0" and "\<forall>p \<in> set ps. guid p \<noteq> None"
  shows "boot_loop fw img e (a, pre @ ps) (length ps) (length pre) w =
    (case find (\<lambda>p. guid p = Some (StrToGuid fw (volume_guid e))) ps of
       None \<Rightarrow> Inr (EFI_SUCCESS, w)
     | Some p \<Rightarrow> Inr (start_loader fw img e (handle p) w))"
  using assms(3)
proof (induction ps arbitrary: pre)
  case Nil
  then show ?case by simp
next
  case (Cons p ps)
  then show ?case
    using assms(1,2) Cons.IH [of "pre @ [p]"] by (auto simp: Let_def)
qed

lemma BootEntry_first_match:
  assumes "\<forall>g h. CompareGuid fw g h \<longleftrightarrow> g = h" and "a \<noteq> 0" and "\<forall>p \<in> set ps. guid p \<noteq> None"
    and "length ps = unat n"
  shows "BootEntry fw img e (a, ps) n w =
    (case find (\<lambda>p. guid p = Some (StrToGuid fw (volume_guid e))) ps of
       None \<Rightarrow> Inr (EFI_SUCCESS, w)
     | Some p \<Rightarrow> Inr (start_loader fw img e (handle p) w))"
  using boot_loop_first [OF assms(1-3), of img e "[]" w] assms(4) by (simp add: BootEntry_def)

section \<open>The textures\<close>

definition texture_image :: "('w, 'x) fw_scheme \<Rightarrow> EFI_HANDLE \<Rightarrow> u16 list \<Rightarrow> bool" where
  "texture_image fw fsh name \<longleftrightarrow> (\<exists>h gap img. file_at fw fsh name (bmp_file h gap img) \<and> good_header h gap \<and>
     length img = 4096 \<and> BmpWidth h = 64 \<and> BmpHeight h = 64)"

lemma load_texture_ok:
  assumes "pool_ok fw" and "a \<noteq> 0" and "i < length names" and "texture_image fw fsh (names ! i)"
    and "b \<noteq> 0" and "i < length txs"
  shows "\<exists>t w'. load_texture fw fsh (a, map Some names) i ((b, txs), w) = Inr (Inr ((b, txs[i := t]), w')) \<and>
    fst t \<noteq> 0 \<and> length (snd t) = 1024"
proof -
  obtain h gap img where f: "file_at fw fsh (names ! i) (bmp_file h gap img)" "good_header h gap"
    and len: "length img = 4096" and sz: "BmpWidth h = 64" "BmpHeight h = 64"
    using assms(4) by (auto simp: texture_image_def)
  obtain ai w1 where bmp: "ReadBMP fw fsh (Some (names ! i)) w = Inr (EFI_SUCCESS, Some (64, 64, (ai, img)), w1)"
    and "ai \<noteq> 0"
    using ReadBMP_file [OF assms(1) f, of w] sz len by auto
  obtain loc w2 where cat: "CatSPrint fw None (Some (wide ''reading BMP file %s'')) [PStr (Some (names ! i))] w1 = (loc, w2)"
    by (meson surj_pair)
  obtain ah half w3 where "CutInHalf fw (ai, img) 64 64 w2 = Inr ((ah, half), w3)" "ah \<noteq> 0" "length half = 1024"
    using CutInHalf_pixels [OF assms(1) \<open>ai \<noteq> 0\<close>, of img 64 64 w2] len by auto
  with bmp cat assms(2,3,5,6) show ?thesis by (auto simp: load_texture_def Let_def)
qed

lemma load_textures_ok:
  assumes "pool_ok fw" and "a \<noteq> 0" and "\<forall>name \<in> set names. texture_image fw fsh name" and "b \<noteq> 0"
    and "length txs = length names" and "i + m = length names"
    and "\<forall>t \<in> set (take i txs). fst t \<noteq> 0 \<and> length (snd t) = 1024"
  shows "\<exists>txs' w'. load_textures fw fsh (a, map Some names) m i ((b, txs), w) = Inr (Inr ((b, txs'), w')) \<and>
    length txs' = length names \<and> (\<forall>t \<in> set txs'. fst t \<noteq> 0 \<and> length (snd t) = 1024)"
  using assms(5-7)
proof (induction m arbitrary: i txs w)
  case 0
  then show ?case by simp
next
  case (Suc m)
  then have "i < length names" "i < length txs" by simp_all
  then obtain t w' where t: "load_texture fw fsh (a, map Some names) i ((b, txs), w) = Inr (Inr ((b, txs[i := t]), w'))"
      "fst t \<noteq> 0" "length (snd t) = 1024"
    using load_texture_ok [OF assms(1,2) _ _ assms(4)] assms(3) by (metis nth_mem)
  have taken: "take (Suc i) (txs[i := t]) = take i txs @ [t]"
    using \<open>i < length txs\<close> by (simp add: take_Suc_conv_app_nth)
  have "\<exists>txs' w''. load_textures fw fsh (a, map Some names) m (i + 1) ((b, txs[i := t]), w') = Inr (Inr ((b, txs'), w'')) \<and>
    length txs' = length names \<and> (\<forall>t \<in> set txs'. fst t \<noteq> 0 \<and> length (snd t) = 1024)"
    by (rule Suc.IH) (use Suc.prems t(2,3) in \<open>auto simp: taken\<close>)
  with t(1) show ?case by simp
qed

section \<open>From the configuration files to the boot\<close>

text \<open>
  A disk that is set up as the documentation says: a boot configuration of at most twelve
  entries, each with an icon; a maze that contains the start cell, whose cells are textures and
  in which at least twelve are escapes; textures of 64 by 64 pixels and a sprite of 32 by 32.
\<close>

definition setup2D ::
  "('w, 'x) fw_scheme \<Rightarrow> EFI_HANDLE \<Rightarrow> (u8 list \<times> u8 list) list list \<Rightarrow> nat \<Rightarrow> int list list \<Rightarrow> u8 list list \<Rightarrow> u8 list \<Rightarrow> bool" where
  "setup2D fw fsh cs n rows names sprite \<longleftrightarrow>
     file_at fw fsh (wide ''2DConfig.txt'') (config_file cs) \<and> good_config cs \<and> length (config_file cs) < 2 ^ 58 \<and>
     length cs \<le> 12 \<and> (\<forall>c \<in> set cs. \<exists>img. icon_image fw fsh (entry_of c) img) \<and>
     file_at fw fsh (wide ''MazeConfig.conf'') (maze_file rows) \<and> good_maze n rows \<and> length (maze_file rows) < 2 ^ 31 \<and>
     1 < n \<and> 17 < length rows \<and> (\<forall>v \<in> set (concat rows). 0 \<le> v \<and> v < int (length names)) \<and>
     12 \<le> card (escape_places (word_of_nat (length names)) (concat rows)) \<and>
     file_at fw fsh (wide ''TexturesConfig.conf'') (textures_file names []) \<and> good_names names [] \<and>
     length (textures_file names []) < 2 ^ 59 \<and> (\<forall>l \<in> set names. texture_image fw fsh (map ucast l)) \<and>
     file_at fw fsh (wide ''Sprite.txt'') sprite \<and> newline \<in> set sprite \<and> length sprite < 2 ^ 60 \<and>
     length (takeWhile (\<lambda>c. c \<noteq> newline) sprite) = 32 \<and> length sprite div 33 = 32"

lemma setup2D_names:
  assumes "setup2D fw fsh cs n rows names sprite"
  shows "length names < 2 ^ 59"
proof -
  have "good_names names []" "length (textures_file names []) < 2 ^ 59"
    using assms by (simp_all add: setup2D_def)
  then show ?thesis
    using textures_file_count [of names "[]"] count_le_length [of "textures_file names []" newline] by simp
qed

lemma play_and_boot_ok:
  assumes fw: "pool_ok fw" and cmp: "\<forall>g h. CompareGuid fw g h \<longleftrightarrow> g = h"
    and ds: "setup2D fw fsh cs n rows names sprite"
    and bufs: "c \<noteq> 0" "p \<noteq> 0" "a \<noteq> 0" "textures_ok 1024 (b, txs) (word_of_nat (length names))"
    and parts: "\<forall>x \<in> set ps. guid x \<noteq> None" "length ps < 2 ^ 64"
    and keys: "\<forall>k \<in> set keys. snd k < word_of_nat (length names)"
  shows "(play_and_boot fw img fsh (c, map entry_of cs) (word_of_nat (length cs)) (p, ps) (word_of_nat (length ps))
      (a, concat rows) (word_of_nat n) (word_of_nat (length rows)) (b, txs) (word_of_nat (length names)) keys w = Inl Blocked
      \<and> \<not> esc_pressed keys) \<or>
    (\<exists>st w'. play_and_boot fw img fsh (c, map entry_of cs) (word_of_nat (length cs)) (p, ps) (word_of_nat (length ps))
      (a, concat rows) (word_of_nat n) (word_of_nat (length rows)) (b, txs) (word_of_nat (length names)) keys w = Inr (st, w'))"
proof -
  let ?bs = "word_of_nat (length names) :: u64" and ?n = "word_of_nat n :: u64" and ?h = "word_of_nat (length rows) :: u64"
  note d = ds [unfolded setup2D_def]
  obtain s px w1 where sp: "ParseSprite fw fsh (Some (wide ''Sprite.txt'')) w = Inr (EFI_SUCCESS, (s, px), 32, 32, w1)"
    and px: "s \<noteq> 0" "length px = 1024"
    using ParseSprite_picture [OF fw, of fsh "wide ''Sprite.txt''" sprite 32 32 w] d by auto
  have "length ts \<le> length (tokens_bytes ts)" for ts
    by (induction ts) (auto simp: tokens_bytes_def)
  then have area: "n * length rows < 2 ^ 31"
  proof -
    have "good_maze n rows" "length (maze_file rows) < 2 ^ 31" using d by blast+
    with this maze_tokens(3) [of n rows] show ?thesis
      using \<open>\<And>ts. length ts \<le> length (tokens_bytes ts)\<close> [of "concat (map row_tokens rows)"]
      by (simp add: maze_file_def)
  qed
  have nz: "n \<le> n * length rows" "length rows \<le> n * length rows" using d by auto
  then have "n < 2 ^ 31" "length rows < 2 ^ 31" using area by (meson le_less_trans)+
  then have u: "unat ?n = n" "unat ?h = length rows" by simp_all
  have nb: "length names < 2 ^ 59" by (rule setup2D_names [OF ds])
  then have ub: "unat ?bs = length names" by simp
  have len: "length (concat rows) = n * length rows"
    using d length_concat_uniform [of rows n] by (auto simp: good_maze_def)
  have map: "maze_map (a, concat rows) ?n ?h"
    using u len area bufs(3) d by (auto simp: maze_map_def good_maze_def)
  have g: "Game fw fsh (a, concat rows) ?n ?h (b, txs) ?bs (c, map entry_of cs) (word_of_nat (length cs)) (s, px) keys w1 = Inl Blocked
      \<and> \<not> esc_pressed keys \<or>
    (\<exists>e w'. Game fw fsh (a, concat rows) ?n ?h (b, txs) ?bs (c, map entry_of cs) (word_of_nat (length cs)) (s, px) keys w1 = Inr (e, w') \<and>
      (e = ESCAPE_ENTRY \<and> esc_pressed keys \<or> unat e < unat (word_of_nat (length cs) :: u64)))"
    by (rule Game_result [OF fw map]) (use d u ub nb bufs px keys in auto)
  have boot: "\<exists>st w'. BootEntry fw img e (p, ps) (word_of_nat (length ps)) w2 = Inr (st, w')" for e w2
    using BootEntry_first_match [OF cmp bufs(2) parts(1), of "word_of_nat (length ps)" img e w2] parts(2)
    by (auto split: option.splits)
  have ncs: "unat (word_of_nat (length cs) :: u64) = length cs" using d by simp
  from g show ?thesis
  proof (elim disjE exE conjE)
    fix e w' assume "Game fw fsh (a, concat rows) ?n ?h (b, txs) ?bs (c, map entry_of cs) (word_of_nat (length cs)) (s, px)
        keys w1 = Inr (e, w')" and "unat e < unat (word_of_nat (length cs) :: u64)"
    moreover obtain st w2 where "BootEntry fw img (entry_of (cs ! unat e)) (p, ps) (word_of_nat (length ps)) w' = Inr (st, w2)"
      using boot by blast
    ultimately show ?thesis
      using sp bufs(1) ncs by (cases "e = ESCAPE_ENTRY") (simp_all add: play_and_boot_def)
  qed (use sp in \<open>simp_all add: play_and_boot_def\<close>)
qed

lemma UefiMain2D_ends:
  assumes fw: "pool_ok fw" "strings_ok fw" and cmp: "\<forall>g h. CompareGuid fw g h \<longleftrightarrow> g = h"
    and self: "\<forall>w. \<exists>w'. HandleProtocol_LoadedImage fw img w = (EFI_SUCCESS, fsh, w')"
    and handles: "\<forall>w. \<exists>w'. LocateHandleBuffer_SimpleFileSystem fw w = (EFI_SUCCESS, hs, w')"
      "harddrives_first fw hs" "length hs < 2 ^ 60"
    and ds: "setup2D fw fsh cs n rows names sprite"
    and keys: "\<forall>k \<in> set keys. snd k < word_of_nat (length names)"
  shows "(UefiMain2D fw img self0 keys w = Inl Blocked \<and> \<not> esc_pressed keys) \<or>
    (\<exists>st w'. UefiMain2D fw img self0 keys w = Inr (st, w'))"
proof -
  note d = ds [unfolded setup2D_def]
  let ?w0 = "srand_time fw w" and ?ps = "map (partition_of fw) (filter (has_harddrive fw) hs)"
  obtain w1 where "HandleProtocol_LoadedImage fw img ?w0 = (EFI_SUCCESS, fsh, w1)" using self by blast
  then have s1: "LocateCurFSHandle fw img self0 ?w0 = (EFI_SUCCESS, fsh, w1)" by (simp add: LocateCurFSHandle_def)
  obtain c w2 where s2: "ParseConfigFile fw fsh (Some (wide ''2DConfig.txt'')) w1 =
      Inr (EFI_SUCCESS, (c, map entry_of cs), word_of_nat (length cs), w2)" "c \<noteq> 0"
    using ParseConfigFile_config [OF fw] d by blast
  obtain wh where wh: "LocateHandleBuffer_SimpleFileSystem fw w2 = (EFI_SUCCESS, hs, wh)" using handles(1) by blast
  have np: "count_harddrives fw hs = length ?ps" by (simp add: count_harddrives_def)
  obtain p w3 where s3: "LocateFSPartitions fw w2 = Inr (EFI_SUCCESS, Some (p, ?ps), word_of_nat (length ?ps), w3)" "p \<noteq> 0"
    using LocateFSPartitions_safe_iff(3) [OF fw(1) wh handles(3,2)] np by metis
  obtain a w4 where s4: "ParseMazeConfigFile fw fsh (Some (wide ''MazeConfig.conf'')) w3 =
      Inr (EFI_SUCCESS, Some ((a, concat rows), word_of_nat n, word_of_nat (length rows)), w4)" "a \<noteq> 0"
    using ParseMazeConfigFile_maze [OF fw(1)] d by blast
  let ?names = "map (\<lambda>l. map ucast l) names"
  obtain f w5 where s5: "ParseTexturesConfigFile fw fsh (Some (wide ''TexturesConfig.conf'')) w4 =
      Inr (EFI_SUCCESS, Some ((f, map Some ?names), word_of_nat (length names)), w5)" "f \<noteq> 0"
    using ParseTexturesConfigFile_names [OF fw, of fsh "wide ''TexturesConfig.conf''" names "[]" w4] d
    by (auto simp: comp_def)
  have nb: "length names < 2 ^ 59" by (rule setup2D_names [OF ds])
  then have "unat (word_of_nat (length names) * 8 :: u64) div 8 = length names"
    using array_size [of "length names" 8] by simp
  then obtain b w6 where s6: "AllocateZeroArray fw 8 ((0, []) :: pixel buf) (word_of_nat (length names) * 8) w5 =
      ((b, replicate (length names) (0, [])), w6)" "b \<noteq> 0"
    using AllocateZeroArray_ok [OF fw(1)] by metis
  obtain txs w7 where s7: "load_textures fw fsh (f, map Some ?names) (length names) 0 ((b, replicate (length names) (0, [])), w6) =
      Inr (Inr ((b, txs), w7))" "length txs = length names" "\<forall>t \<in> set txs. fst t \<noteq> 0 \<and> length (snd t) = 1024"
    using load_textures_ok [OF fw(1) s5(2), of ?names fsh b "replicate (length names) (0, [])" 0 "length names" w6] d s6(2)
    by auto
  have tx: "textures_ok 1024 (b, txs) (word_of_nat (length names))"
    using s6(2) s7(2,3) nb by (simp add: textures_ok_def)
  have run: "UefiMain2D fw img self0 keys w = play_and_boot fw img fsh (c, map entry_of cs) (word_of_nat (length cs))
      (p, ?ps) (word_of_nat (length ?ps)) (a, concat rows) (word_of_nat n) (word_of_nat (length rows)) (b, txs)
      (word_of_nat (length names)) keys w7"
    using s1 s2(1) s3(1) s4(1) s5(1) s6(1) s7(1) nb by (simp add: UefiMain2D_def Let_def)
  have ps: "length ?ps < 2 ^ 64" "\<forall>x \<in> set ?ps. guid x \<noteq> None"
  proof -
    have "length ?ps \<le> length hs" by simp
    from le_less_trans [OF this handles(3)] show "length ?ps < 2 ^ 64" by simp
  qed (auto simp: partition_of_def)
  show ?thesis
    unfolding run by (rule play_and_boot_ok [OF fw(1) cmp ds s2(2) s3(2) s4(2) tx ps(2,1) keys])
qed

end
