(* ===== verification/DemoGame3D.thy ===== *)
theory DemoGame3D
  imports Placement
begin

text \<open>
  \<open>BootManager3D/src/DemoGame.c\<close>: the ray caster. The arithmetic on \<open>double\<close> is the record \<open>fp\<close>,
  an argument of the definitions: what is proved holds for every such arithmetic. \<open>fcast\<close> is the
  conversion to \<open>int\<close> that the processor performs, whatever the value.
\<close>

section \<open>Floating point\<close>

record 'd fp =
  fadd :: "'d \<Rightarrow> 'd \<Rightarrow> 'd"
  fsub :: "'d \<Rightarrow> 'd \<Rightarrow> 'd"
  fmul :: "'d \<Rightarrow> 'd \<Rightarrow> 'd"
  fdiv :: "'d \<Rightarrow> 'd \<Rightarrow> 'd"
  flt :: "'d \<Rightarrow> 'd \<Rightarrow> bool"
  feq :: "'d \<Rightarrow> 'd \<Rightarrow> bool"
  fint :: "int \<Rightarrow> 'd"          \<comment> \<open>conversion of an integer\<close>
  fdec :: "int \<Rightarrow> int \<Rightarrow> 'd"   \<comment> \<open>a decimal literal as a quotient\<close>
  fcast :: "'d \<Rightarrow> u32"
  ffloor :: "'d \<Rightarrow> 'd"
  fsin :: "'d \<Rightarrow> 'd"
  fcos :: "'d \<Rightarrow> 'd"

definition cast_int :: "'d fp \<Rightarrow> 'd \<Rightarrow> int" where
  "cast_int F d = sint (fcast F d)"

definition abs_d :: "'d fp \<Rightarrow> 'd \<Rightarrow> 'd" where
  "abs_d F a = (if flt F a (fint F 0) then fmul F (fint F (-1)) a else a)"

definition moveSpeed :: "'d fp \<Rightarrow> 'd" where "moveSpeed F = fdec F 5 100"
definition rotSpeed :: "'d fp \<Rightarrow> 'd" where "rotSpeed F = fdec F 1 10"

section \<open>The texture of a boot entry\<close>

definition MakeBootEntryTexture3D ::
  "('w, 'x) fw_scheme \<Rightarrow> EFI_HANDLE \<Rightarrow> BOOT_ENTRY \<Rightarrow> int \<Rightarrow> pixel buf buf \<Rightarrow> u64 \<Rightarrow> 'w
    \<Rightarrow> (EFI_STATUS \<times> pixel buf buf \<times> u64 \<times> 'w) result" where
  "MakeBootEntryTexture3D fw SelfFSHandle Entry BaseTextureIndex Textures TexturesCount w =
     bindE (ReadBMP fw SelfFSHandle (icon Entry) w) (\<lambda>(Status, bmp, w).
     case CatSPrint fw None (Some (wide ''reading BMP %s'')) [PStr (icon Entry)] w of (loc, w) \<Rightarrow>
     case CheckError fw Status loc w of (_, w) \<Rightarrow>
     if BaseTextureIndex < 0 then Inl OutOfBounds else
     bindE (rdb Textures (nat BaseTextureIndex)) (\<lambda>base.
     bindE (use bmp) (\<lambda>(Width, Height, BootEntryIcon).
     bindE (CombineWithTransparency fw base BootEntryIcon (scast Width) (scast Height) w)
       (\<lambda>(BootEntryTexture, w).
     bindE (AddElement fw (0, []) Textures TexturesCount BootEntryTexture w)
       (\<lambda>(Textures, TexturesCount, w). Inr (Status, Textures, TexturesCount, w))))))"

definition PlaceBootEntries3D ::
  "('w, 'x) fw_scheme \<Rightarrow> EFI_HANDLE \<Rightarrow> int buf \<Rightarrow> u64 \<Rightarrow> u64 \<Rightarrow> pixel buf buf \<Rightarrow> u64
    \<Rightarrow> BOOT_ENTRY buf \<Rightarrow> u64 \<Rightarrow> 'w \<Rightarrow> (int buf \<times> pixel buf buf \<times> u64 \<times> 'w) result" where
  "PlaceBootEntries3D = PlaceBootEntries_with MakeBootEntryTexture3D"

section \<open>Floor and ceiling\<close>

record 'd camera =
  posX :: 'd
  posY :: 'd
  dirX :: 'd
  dirY :: 'd
  planeX :: 'd
  planeY :: 'd

definition ImageWidth :: nat where "ImageWidth = 960"
definition ImageHeight :: nat where "ImageHeight = 640"

definition darker :: "pixel \<Rightarrow> pixel" where
  "darker p = p\<lparr>Blue := Blue p div 2, Green := Green p div 2, Red := Red p div 2\<rparr>"

text \<open>\<open>(int) (texWidth * (floorX - cellX)) & (texWidth - 1)\<close>\<close>

definition tex_coord :: "'d fp \<Rightarrow> 'd \<Rightarrow> nat" where
  "tex_coord F f = unat (fcast F (fmul F (fint F 64) (fsub F f (fint F (cast_int F f)))) AND 63)"

definition floor_pixel ::
  "'d fp \<Rightarrow> pixel buf buf \<Rightarrow> 'd \<Rightarrow> 'd \<Rightarrow> nat \<Rightarrow> nat \<Rightarrow> 'd \<times> 'd \<times> pixel buf \<Rightarrow> ('d \<times> 'd \<times> pixel buf) result" where
  "floor_pixel F Textures floorStepX floorStepY y x s =
     (case s of (floorX, floorY, screen) \<Rightarrow>
      let tx = tex_coord F floorX; ty = tex_coord F floorY in
      bindE (rdb Textures 0) (\<lambda>tex.
      bindE (rdb tex (ty * 64 + tx)) (\<lambda>color.
      bindE (wrb screen (y * ImageWidth + x) (darker color)) (\<lambda>screen.
      bindE (rdb Textures 1) (\<lambda>tex.
      bindE (rdb tex (ty * 64 + tx)) (\<lambda>color.
      bindE (wrb screen ((ImageHeight - y - 1) * ImageWidth + x) (darker color)) (\<lambda>screen.
        Inr (fadd F floorX floorStepX, fadd F floorY floorStepY, screen))))))))"

definition floor_row ::
  "'d fp \<Rightarrow> pixel buf buf \<Rightarrow> 'd camera \<Rightarrow> nat \<Rightarrow> pixel buf \<Rightarrow> pixel buf result" where
  "floor_row F Textures cam y screen =
     (let rayDirX0 = fsub F (dirX cam) (planeX cam);
          rayDirY0 = fsub F (dirY cam) (planeY cam);
          rayDirX1 = fadd F (dirX cam) (planeX cam);
          rayDirY1 = fadd F (dirY cam) (planeY cam);
          p = int y - int (ImageHeight div 2);
          posZ = fmul F (fdec F 5 10) (fint F (int ImageHeight));
          rowDistance = fdiv F posZ (fint F p);
          floorStepX = fdiv F (fmul F rowDistance (fsub F rayDirX1 rayDirX0)) (fint F (int ImageWidth));
          floorStepY = fdiv F (fmul F rowDistance (fsub F rayDirY1 rayDirY0)) (fint F (int ImageWidth));
          floorX = fadd F (posX cam) (fmul F rowDistance rayDirX0);
          floorY = fadd F (posY cam) (fmul F rowDistance rayDirY0)
      in bindE (loopE (floor_pixel F Textures floorStepX floorStepY y) [0..<ImageWidth] (floorX, floorY, screen))
           (\<lambda>(_, _, screen). Inr screen))"

section \<open>The walls\<close>

text \<open>\<open>Map[mapY * MapWidth + mapX]\<close> with \<open>int\<close> coordinates.\<close>

definition map_at :: "int buf \<Rightarrow> u64 \<Rightarrow> int \<Rightarrow> int \<Rightarrow> int result" where
  "map_at Map MapWidth mapX mapY = rdb Map (unat (word_of_int mapY * MapWidth + word_of_int mapX))"

definition add_i32 :: "int \<Rightarrow> int \<Rightarrow> int result" where
  "add_i32 a b = (if - (2 ^ 31) \<le> a + b \<and> a + b < 2 ^ 31 then Inr (a + b) else Inl SignedOverflow)"

record 'd ray =
  sideDistX :: 'd
  sideDistY :: 'd
  mapX :: int
  mapY :: int
  side :: nat

text \<open>The walk of a ray from cell to cell until it hits a wall. The first argument is fuel.\<close>

fun cast_ray ::
  "nat \<Rightarrow> 'd fp \<Rightarrow> int buf \<Rightarrow> u64 \<Rightarrow> 'd \<Rightarrow> 'd \<Rightarrow> int \<Rightarrow> int \<Rightarrow> 'd ray \<Rightarrow> 'd ray result" where
  "cast_ray 0 F Map MapWidth deltaDistX deltaDistY stepX stepY r = Inl Diverges"
| "cast_ray (Suc n) F Map MapWidth deltaDistX deltaDistY stepX stepY r =
     bindE
       (if flt F (sideDistX r) (sideDistY r) then
          bindE (add_i32 (mapX r) stepX) (\<lambda>x.
            Inr (r\<lparr>sideDistX := fadd F (sideDistX r) deltaDistX, mapX := x, side := 0\<rparr>))
        else
          bindE (add_i32 (mapY r) stepY) (\<lambda>y.
            Inr (r\<lparr>sideDistY := fadd F (sideDistY r) deltaDistY, mapY := y, side := 1\<rparr>)))
       (\<lambda>r.
     bindE (map_at Map MapWidth (mapX r) (mapY r)) (\<lambda>v.
     if v > 0 then Inr r
     else cast_ray n F Map MapWidth deltaDistX deltaDistY stepX stepY r))"

text \<open>The directions and the start of the ray of column \<open>x\<close>.\<close>

definition ray_dir :: "'d fp \<Rightarrow> 'd camera \<Rightarrow> nat \<Rightarrow> 'd \<times> 'd" where
  "ray_dir F cam x =
     (let cameraX = fsub F (fdiv F (fint F (2 * int x)) (fint F (int ImageWidth))) (fint F 1)
      in (fadd F (dirX cam) (fmul F (planeX cam) cameraX), fadd F (dirY cam) (fmul F (planeY cam) cameraX)))"

definition delta_dist :: "'d fp \<Rightarrow> 'd \<Rightarrow> 'd" where
  "delta_dist F d = (if feq F d (fint F 0) then fint F (2 ^ 32 - 1) else abs_d F (fdiv F (fint F 1) d))"

definition side_start :: "'d fp \<Rightarrow> 'd \<Rightarrow> 'd \<Rightarrow> 'd \<Rightarrow> int \<times> 'd" where
  "side_start F dir pos delta =
     (let m = fint F (cast_int F pos) in
      if flt F dir (fint F 0) then (-1, fmul F (fsub F pos m) delta)
      else (1, fmul F (fsub F (fadd F m (fint F 1)) pos) delta))"

definition half_trunc :: "int \<Rightarrow> int" where
  "half_trunc a = (if a < 0 then - ((- a) div 2) else a div 2)"

text \<open>
  The rows that a wall of a given height covers. The sums are computed in \<open>UINTN\<close> and stored in
  \<open>int\<close>; the comparison of \<open>drawEnd\<close> with the height is one of \<open>UINTN\<close>.
\<close>

definition draw_range :: "int \<Rightarrow> (int \<times> int) result" where
  "draw_range lineHeight =
     (if lineHeight = - (2 ^ 31) then Inl SignedOverflow else
      let drawStart = half_trunc (- lineHeight) + int ImageHeight div 2;
          drawStart = (if drawStart < 0 then 0 else drawStart);
          drawEnd = half_trunc lineHeight + int ImageHeight div 2;
          drawEnd = (if (word_of_nat ImageHeight :: u64) \<le> word_of_int drawEnd then int ImageHeight - 1 else drawEnd)
      in Inr (drawStart, drawEnd))"

definition wall_pixel ::
  "'d fp \<Rightarrow> pixel buf buf \<Rightarrow> int \<Rightarrow> int \<Rightarrow> nat \<Rightarrow> 'd \<Rightarrow> nat \<Rightarrow> int \<Rightarrow> 'd \<times> pixel buf \<Rightarrow> ('d \<times> pixel buf) result" where
  "wall_pixel F Textures texNum texX sd step x y s =
     (case s of (texPos, screen) \<Rightarrow>
      let texY = uint (fcast F texPos AND 63) in
      bindE (add_i32 (texY * 64) texX) (\<lambda>i.
      if texNum < 0 \<or> i < 0 then Inl OutOfBounds else
      bindE (rdb Textures (nat texNum)) (\<lambda>tex.
      bindE (rdb tex (nat i)) (\<lambda>color.
      bindE (wrb screen (nat y * ImageWidth + x) (if sd = 1 then darker color else color)) (\<lambda>screen.
        Inr (fadd F texPos step, screen))))))"

text \<open>\<open>texWidth - texX - 1\<close>, when the texture has to be mirrored.\<close>

definition mirror :: "bool \<Rightarrow> int \<Rightarrow> int result" where
  "mirror c texX = (if c then bindE (add_i32 64 (- texX)) (\<lambda>a. Inr (a - 1)) else Inr texX)"

definition wall_column ::
  "nat \<Rightarrow> 'd fp \<Rightarrow> int buf \<Rightarrow> u64 \<Rightarrow> pixel buf buf \<Rightarrow> 'd camera \<Rightarrow> nat \<Rightarrow> pixel buf \<Rightarrow> pixel buf result" where
  "wall_column fuel F Map MapWidth Textures cam x screen =
     (case ray_dir F cam x of (rayDirX, rayDirY) \<Rightarrow>
      let deltaDistX = delta_dist F rayDirX;
          deltaDistY = delta_dist F rayDirY in
      case side_start F rayDirX (posX cam) deltaDistX of (stepX, sdX) \<Rightarrow>
      case side_start F rayDirY (posY cam) deltaDistY of (stepY, sdY) \<Rightarrow>
      bindE (cast_ray fuel F Map MapWidth deltaDistX deltaDistY stepX stepY
               \<lparr>sideDistX = sdX, sideDistY = sdY, mapX = cast_int F (posX cam), mapY = cast_int F (posY cam), side = 0\<rparr>)
        (\<lambda>r.
      let perpWallDist = (if side r = 0 then fsub F (sideDistX r) deltaDistX else fsub F (sideDistY r) deltaDistY);
          lineHeight = cast_int F (fdiv F (fint F (int ImageHeight)) perpWallDist) in
      bindE (draw_range lineHeight) (\<lambda>(drawStart, drawEnd).
      bindE (map_at Map MapWidth (mapX r) (mapY r)) (\<lambda>texNum.
      let texNum = sint (word_of_int texNum :: u32);
          wallX = (if side r = 0 then fadd F (posY cam) (fmul F perpWallDist rayDirY)
                   else fadd F (posX cam) (fmul F perpWallDist rayDirX));
          wallX = fsub F wallX (ffloor F wallX);
          texX = cast_int F (fmul F wallX (fint F 64)) in
      bindE (mirror (side r = 0 \<and> flt F (fint F 0) rayDirX) texX) (\<lambda>texX.
      bindE (mirror (side r = 1 \<and> flt F rayDirY (fint F 0)) texX) (\<lambda>texX.
      let step = fdiv F (fmul F (fdec F 1 1) (fint F 64)) (fint F lineHeight);
          texPos = fmul F (fadd F (fsub F (fint F drawStart) (fdiv F (fint F (int ImageHeight)) (fint F 2)))
                     (fdiv F (fint F lineHeight) (fint F 2))) step
      in bindE (loopE (wall_pixel F Textures texNum texX (side r) step x) [drawStart..drawEnd - 1] (texPos, screen))
           (\<lambda>(_, screen). Inr screen)))))))"

definition draw_frame ::
  "nat \<Rightarrow> 'd fp \<Rightarrow> int buf \<Rightarrow> u64 \<Rightarrow> pixel buf buf \<Rightarrow> 'd camera \<Rightarrow> pixel buf \<Rightarrow> pixel buf result" where
  "draw_frame fuel F Map MapWidth Textures cam screen =
     bindE (loopE (floor_row F Textures cam) [0..<ImageHeight] screen)
       (loopE (wall_column fuel F Map MapWidth Textures cam) [0..<ImageWidth])"

section \<open>The keys\<close>

definition open_cell :: "u64 \<Rightarrow> int \<Rightarrow> bool" where
  "open_cell bootable_start v \<longleftrightarrow> v = 0 \<or> bootable_start \<le> word_of_int v"

text \<open>A step forwards (\<open>op\<close> adds) or backwards (\<open>op\<close> subtracts).\<close>

definition move_player ::
  "'d fp \<Rightarrow> ('d \<Rightarrow> 'd \<Rightarrow> 'd) \<Rightarrow> int buf \<Rightarrow> u64 \<Rightarrow> u64 \<Rightarrow> 'd camera \<Rightarrow> 'd camera result" where
  "move_player F opr Map MapWidth bootable_start cam =
     (let ahead = fadd F (moveSpeed F) (fdec F 5 100) in
      bindE (map_at Map MapWidth (cast_int F (posX cam)) (cast_int F (opr (posY cam) (fmul F (dirY cam) ahead)))) (\<lambda>nextY.
      bindE (map_at Map MapWidth (cast_int F (opr (posX cam) (fmul F (dirX cam) ahead))) (cast_int F (posY cam))) (\<lambda>nextX.
      let cam = (if open_cell bootable_start nextY
                 then cam\<lparr>posY := opr (posY cam) (fmul F (dirY cam) (moveSpeed F))\<rparr> else cam);
          cam = (if open_cell bootable_start nextX
                 then cam\<lparr>posX := opr (posX cam) (fmul F (dirX cam) (moveSpeed F))\<rparr> else cam)
      in Inr cam)))"

definition turn_player :: "'d fp \<Rightarrow> 'd \<Rightarrow> 'd camera \<Rightarrow> 'd camera" where
  "turn_player F angle cam =
     cam\<lparr>dirX := fsub F (fmul F (dirX cam) (fcos F angle)) (fmul F (dirY cam) (fsin F angle)),
         dirY := fadd F (fmul F (dirX cam) (fsin F angle)) (fmul F (dirY cam) (fcos F angle)),
         planeX := fsub F (fmul F (planeX cam) (fcos F angle)) (fmul F (planeY cam) (fsin F angle)),
         planeY := fadd F (fmul F (planeX cam) (fsin F angle)) (fmul F (planeY cam) (fcos F angle))\<rparr>"

definition handle_key3D ::
  "'d fp \<Rightarrow> int buf \<Rightarrow> u64 \<Rightarrow> u64 \<Rightarrow> u16 \<Rightarrow> 'd camera \<Rightarrow> ('d camera \<times> bool) result" where
  "handle_key3D F Map MapWidth bootable_start ScanCode cam =
     (if ScanCode = SCAN_UP then
        bindE (move_player F (fadd F) Map MapWidth bootable_start cam) (\<lambda>cam. Inr (cam, False))
      else if ScanCode = SCAN_DOWN then
        bindE (move_player F (fsub F) Map MapWidth bootable_start cam) (\<lambda>cam. Inr (cam, False))
      else if ScanCode = SCAN_LEFT then Inr (turn_player F (fdec F (-1) 10) cam, False)
      else if ScanCode = SCAN_RIGHT then Inr (turn_player F (rotSpeed F) cam, False)
      else if ScanCode = SCAN_ESC then Inr (cam, True)
      else Inr (cam, False))"

section \<open>The game\<close>

text \<open>
  The loop draws a frame and then waits for a key. \<open>keys\<close> are the keys the player will press.
\<close>

fun game_loop3D ::
  "nat \<Rightarrow> 'd fp \<Rightarrow> ('w, 'x) fw_scheme \<Rightarrow> int buf \<Rightarrow> u64 \<Rightarrow> u64 \<Rightarrow> pixel buf buf \<Rightarrow> u64 \<times> u64
    \<Rightarrow> u16 list \<Rightarrow> 'd camera \<Rightarrow> pixel buf \<Rightarrow> 'w \<Rightarrow> (u64 \<times> 'w) result" where
  "game_loop3D fuel F fw Map MapWidth bootable_start Textures margin [] cam screen w =
     bindE (draw_frame fuel F Map MapWidth Textures cam screen) (\<lambda>screen. Inl Blocked)"
| "game_loop3D fuel F fw Map MapWidth bootable_start Textures margin (ScanCode # keys) cam screen w =
     bindE (draw_frame fuel F Map MapWidth Textures cam screen) (\<lambda>screen.
     let w = Blt fw \<lparr>blt_buffer = screen, blt_op = EfiBltBufferToVideo, blt_src = (0, 0), blt_dst = margin,
                     blt_size = (960, 640), blt_delta = 960 * 4\<rparr> w in
     bindE (handle_key3D F Map MapWidth bootable_start ScanCode cam) (\<lambda>(cam, ready_to_boot).
     bindE (map_at Map MapWidth (cast_int F (posX cam)) (cast_int F (posY cam))) (\<lambda>v.
     if bootable_start \<le> word_of_int v then Inr (word_of_int v - bootable_start, w)
     else if ready_to_boot then Inr (ESCAPE_ENTRY, w)
     else game_loop3D fuel F fw Map MapWidth bootable_start Textures margin keys cam screen w)))"

definition start_camera :: "'d fp \<Rightarrow> 'd camera" where
  "start_camera F = \<lparr>posX = fdec F 15 10, posY = fdec F 175 10, dirX = fdec F 1 1, dirY = fdec F 0 1,
     planeX = fdec F 0 1, planeY = fdec F 66 100\<rparr>"

definition Game3D ::
  "nat \<Rightarrow> 'd fp \<Rightarrow> ('w, 'x) fw_scheme \<Rightarrow> EFI_HANDLE \<Rightarrow> int buf \<Rightarrow> u64 \<Rightarrow> u64 \<Rightarrow> pixel buf buf \<Rightarrow> u64
    \<Rightarrow> BOOT_ENTRY buf \<Rightarrow> u64 \<Rightarrow> u16 list \<Rightarrow> 'w \<Rightarrow> (u64 \<times> 'w) result" where
  "Game3D fuel F fw SelfFSHandle Map MapWidth MapHeight Textures TexturesCount BootEntries BootEntriesCount keys w =
     (let bootable_start = TexturesCount in
      bindE (PlaceBootEntries3D fw SelfFSHandle Map MapWidth MapHeight Textures TexturesCount BootEntries BootEntriesCount w)
        (\<lambda>(Map, Textures, TexturesCount, w).
      let margin = ((ucast (fst (ScreenResolution fw w)) - 960) div 2, (ucast (snd (ScreenResolution fw w)) - 640) div 2) in
      case AllocateZeroArray fw 4 zero_pixel (4 * 960 * 640) w of (screen, w) \<Rightarrow>
      bindE (game_loop3D fuel F fw Map MapWidth bootable_start Textures margin keys (start_camera F) screen w)
        (\<lambda>(EntryToBoot, w).
      Inr (EntryToBoot,
           Blt fw \<lparr>blt_buffer = (1, [zero_pixel]), blt_op = EfiBltVideoFill, blt_src = (0, 0), blt_dst = margin,
                   blt_size = (960, 640), blt_delta = 0\<rparr> w))))"

section \<open>The floor never leaves its buffers\<close>

lemma unat_and_63: "unat (x AND 63 :: u32) < 64"
proof -
  have "(63 :: u32) = mask 6" by (simp add: mask_eq_exp_minus_1)
  then have "x AND 63 = take_bit 6 x" by (simp only: take_bit_eq_mask)
  then show ?thesis using take_bit_nat_less_exp [of 6 "unat x"] by (simp add: unsigned_take_bit_eq)
qed

lemma tex_coord_less: "tex_coord F f < 64"
  unfolding tex_coord_def by (rule unat_and_63)

text \<open>
  Two textures of 64 by 64 pixels and a screen of the right size are all it takes: the
  coordinates are masked, so no arithmetic can take them out of range, not even that of the
  row at the horizon, where the distance is a division by zero.
\<close>

definition frame_ok :: "pixel buf buf \<Rightarrow> u64 \<Rightarrow> pixel buf \<Rightarrow> bool" where
  "frame_ok Textures a screen \<longleftrightarrow> fst Textures \<noteq> 0 \<and> 2 \<le> length (snd Textures) \<and>
     (\<forall>t \<in> set (snd Textures). fst t \<noteq> 0 \<and> length (snd t) = 4096) \<and>
     a \<noteq> 0 \<and> fst screen = a \<and> length (snd screen) = 614400"

lemma floor_pixel_ok:
  assumes "frame_ok Textures a screen" and "y < ImageHeight" and "x < ImageWidth"
  shows "\<exists>fx fy screen'. floor_pixel F Textures sx sy y x (floorX, floorY, screen) = Inr (fx, fy, screen') \<and>
    frame_ok Textures a screen'"
proof -
  have xy: "x < 960" "y < 640" using assms(2,3) by (simp_all add: ImageWidth_def ImageHeight_def)
  have "y * 960 + x < 614400" "(640 - y - 1) * 960 + x < 614400" using xy by linarith+
  moreover have "tex_coord F floorY * 64 + tex_coord F floorX < 4096"
    using tex_coord_less [of F floorX] tex_coord_less [of F floorY] by linarith
  moreover have "rdb Textures i = Inr (snd Textures ! i)"
      "rdb (snd Textures ! i) k = Inr (snd (snd Textures ! i) ! k)" if "i < 2" "k < 4096" for i k
    using that assms(1) by (auto simp: frame_ok_def rdb_def)
  ultimately show ?thesis
    using assms(1)
    by (cases screen) (simp add: floor_pixel_def frame_ok_def ImageWidth_def ImageHeight_def wrb_def Let_def)
qed

lemma floor_row_ok:
  assumes "frame_ok Textures a screen" and "y < ImageHeight"
  shows "\<exists>screen'. floor_row F Textures cam y screen = Inr screen' \<and> frame_ok Textures a screen'"
proof -
  have "\<exists>s'. loopE (floor_pixel F Textures sx sy y) [0..<ImageWidth] (fx, fy, screen) = Inr s' \<and>
      frame_ok Textures a (snd (snd s'))" for sx sy fx fy
    by (rule loopE_inv_total [where P = "\<lambda>s. frame_ok Textures a (snd (snd s))"])
      (use assms floor_pixel_ok [of Textures a _ y] in \<open>fastforce split: prod.splits\<close>)+
  then show ?thesis by (fastforce simp: floor_row_def Let_def)
qed

lemma draw_floor_ok:
  assumes "frame_ok Textures a screen"
  shows "\<exists>screen'. loopE (floor_row F Textures cam) [0..<ImageHeight] screen = Inr screen' \<and>
    frame_ok Textures a screen'"
  using floor_row_ok [of Textures a _ _ F cam] assms by (intro loopE_inv_total) auto

section \<open>A ray ends at a wall\<close>

text \<open>A maze whose border is walls, and the cells of it.\<close>

definition inside :: "u64 \<Rightarrow> u64 \<Rightarrow> int \<Rightarrow> int \<Rightarrow> bool" where
  "inside W H x y \<longleftrightarrow> 0 \<le> x \<and> nat x < unat W \<and> 0 \<le> y \<and> nat y < unat H"

definition walled :: "int buf \<Rightarrow> u64 \<Rightarrow> u64 \<Rightarrow> bool" where
  "walled Map W H \<longleftrightarrow> maze_map Map W H \<and> unat W < 2 ^ 31 \<and> unat H < 2 ^ 31 \<and>
     (\<forall>x y. inside W H x y \<and> (x = 0 \<or> y = 0 \<or> nat x + 1 = unat W \<or> nat y + 1 = unat H)
        \<longrightarrow> 0 < snd Map ! (nat y * unat W + nat x))"

lemma map_at_inside:
  assumes "maze_map Map W H" and "inside W H x y"
  shows "map_at Map W x y = Inr (snd Map ! (nat y * unat W + nat x))"
proof -
  have x: "nat x < unat W" "nat y < unat H" using assms(2) by (simp_all add: inside_def)
  then have "nat x < 2 ^ 64" "nat y < 2 ^ 64" using unat_u64_less [of W] unat_u64_less [of H] by linarith+
  then have "x < 2 ^ 64" "y < 2 ^ 64" by simp_all
  then have "unat (word_of_int x :: u64) = nat x" "unat (word_of_int y :: u64) = nat y"
    using assms(2) by (simp_all add: inside_def unat_u64_of_int)
  then have "in_maze W H (word_of_int x) (word_of_int y)" using x by (simp add: in_maze_def)
  from maze_index [OF assms(1) this] show ?thesis
    using assms(1) \<open>unat (word_of_int x) = nat x\<close> \<open>unat (word_of_int y) = nat y\<close>
    by (simp add: map_at_def rdb_def maze_map_def)
qed

text \<open>The number of cells that a ray can still pass: it never turns back.\<close>

definition ahead :: "nat \<Rightarrow> int \<Rightarrow> int \<Rightarrow> nat" where
  "ahead n step x = (if step = 1 then n - nat x else Suc (nat x))"

lemma cast_ray_hits:
  assumes "walled Map W H" and "stepX = 1 \<or> stepX = -1" and "stepY = 1 \<or> stepY = -1"
    and "inside W H (mapX r) (mapY r)"
    and "0 < mapX r" "0 < mapY r" "nat (mapX r) + 1 < unat W" "nat (mapY r) + 1 < unat H"
    and "ahead (unat W) stepX (mapX r) + ahead (unat H) stepY (mapY r) \<le> fuel"
  shows "\<exists>r'. cast_ray fuel F Map W dx dy stepX stepY r = Inr r' \<and> inside W H (mapX r') (mapY r') \<and>
    0 < snd Map ! (nat (mapY r') * unat W + nat (mapX r')) \<and> side r' \<le> 1"
  using assms(4-9)
proof (induction fuel arbitrary: r)
  case 0
  then show ?case by (auto simp: ahead_def inside_def split: if_splits)
next
  case (Suc fuel)
  have W: "unat W < 2 ^ 31" "unat H < 2 ^ 31" "maze_map Map W H" using assms(1) by (simp_all add: walled_def)
  have "nat (mapX r) < 2147483647" "nat (mapY r) < 2147483647" using Suc.prems(4,5) W(1,2) by simp_all
  then have "mapX r < 2147483647" "mapY r < 2147483647" by linarith+
  then have add: "add_i32 (mapX r) stepX = Inr (mapX r + stepX)" "add_i32 (mapY r) stepY = Inr (mapY r + stepY)"
    using Suc.prems(2,3) assms(2,3) by (auto simp: add_i32_def)
  obtain r1 where r1: "(if flt F (sideDistX r) (sideDistY r) then
          bindE (add_i32 (mapX r) stepX) (\<lambda>x.
            Inr (r\<lparr>sideDistX := fadd F (sideDistX r) dx, mapX := x, side := 0\<rparr>))
        else
          bindE (add_i32 (mapY r) stepY) (\<lambda>y.
            Inr (r\<lparr>sideDistY := fadd F (sideDistY r) dy, mapY := y, side := 1\<rparr>))) = Inr r1"
    and pos: "mapX r1 = mapX r + stepX \<and> mapY r1 = mapY r \<or> mapX r1 = mapX r \<and> mapY r1 = mapY r + stepY"
    and "side r1 \<le> 1"
    using add by (cases "flt F (sideDistX r) (sideDistY r)") auto
  have ins: "inside W H (mapX r1) (mapY r1)"
    using pos Suc.prems assms(2,3) by (auto simp: inside_def)
  note v = map_at_inside [OF W(3) ins]
  show ?case
  proof (cases "0 < snd Map ! (nat (mapY r1) * unat W + nat (mapX r1))")
    case True
    with r1 v ins \<open>side r1 \<le> 1\<close> show ?thesis by simp
  next
    case False
    then have inner: "0 < mapX r1" "0 < mapY r1" "nat (mapX r1) + 1 < unat W" "nat (mapY r1) + 1 < unat H"
      using assms(1) ins by (force simp: walled_def inside_def)+
    have "ahead (unat W) stepX (mapX r1) + ahead (unat H) stepY (mapY r1) \<le> fuel"
      using pos Suc.prems(6) inner Suc.prems(2-5) assms(2,3) by (auto simp: ahead_def nat_add_distrib nat_diff_distrib)
    from Suc.IH [OF ins inner this] r1 v False show ?thesis by simp
  qed
qed

text \<open>Whatever the height of a wall, the rows that are drawn are rows of the screen.\<close>

lemma draw_range_on_screen:
  assumes "draw_range lineHeight = Inr (s, e)" and "lineHeight < 2 ^ 31"
  shows "0 \<le> s" and "e < int ImageHeight"
proof -
  define d where "d = half_trunc lineHeight + 320"
  have se: "0 \<le> s" "e = (if (640 :: u64) \<le> word_of_int d then 639 else d)"
    using assms(1) by (auto simp: draw_range_def Let_def ImageHeight_def d_def split: if_splits)
  then show "0 \<le> s" by simp
  have "d < 2 ^ 64" using assms(2) by (auto simp: d_def half_trunc_def)
  then have "d < 640" if "\<not> (640 :: u64) \<le> word_of_int d"
    using that unat_u64_of_int [of d] by (cases "0 \<le> d") (auto simp: word_le_nat_alt)
  with se(2) show "e < int ImageHeight" by (auto simp: ImageHeight_def)
qed

section \<open>Every boot entry gets an escape of its own\<close>

definition icon_full :: "pixel list \<Rightarrow> pixel list \<Rightarrow> pixel buf \<Rightarrow> bool" where
  "icon_full img base t \<longleftrightarrow> fst t \<noteq> 0 \<and> length (snd t) = 4096 \<and>
     (\<forall>y < 64. \<forall>x < 64. snd t ! (y * 64 + x) = over_pixel (base ! (y * 64 + x)) (img ! (y * 64 + x)))"

lemma MakeBootEntryTexture3D_icon:
  assumes "pool_ok fw" and "icon_image fw fsh e img" and "textures_ok 4096 Tx n" and "unat n + 1 < 2 ^ 61"
    and "0 \<le> c" and "nat c < unat n"
  shows "\<exists>a t w'. MakeBootEntryTexture3D fw fsh e c Tx n w = Inr (EFI_SUCCESS, (a, snd Tx @ [t]), n + 1, w') \<and>
    a \<noteq> 0 \<and> icon_full img (snd (snd Tx ! nat c)) t"
proof -
  obtain name h gap where e: "icon e = Some name" and f: "file_at fw fsh name (bmp_file h gap img)"
    and h: "good_header h gap" "BmpWidth h = 64" "BmpHeight h = 64" and len: "length img = 4096"
    using assms(2) by (auto simp: icon_image_def)
  obtain ai w1 where bmp: "ReadBMP fw fsh (icon e) w = Inr (EFI_SUCCESS, Some (64, 64, (ai, img)), w1)" and "ai \<noteq> 0"
    using ReadBMP_file [OF assms(1) f h(1), of w] h(2,3) len e by auto
  obtain loc w2 where cat: "CatSPrint fw None (Some (wide ''reading BMP %s'')) [PStr (icon e)] w1 = (loc, w2)"
    by (meson surj_pair)
  let ?base = "snd Tx ! nat c"
  have base: "fst ?base \<noteq> 0" "length (snd ?base) = 4096" "rdb Tx (nat c) = Inr ?base"
    using assms(3,6) by (auto simp: textures_ok_def rdb_def)
  obtain at t w4 where comb: "CombineWithTransparency fw ?base (ai, img) 64 64 w2 = Inr ((at, t), w4)"
    and t: "at \<noteq> 0" "length t = 4096"
      "\<forall>y < 64. \<forall>x < 64. t ! (y * 64 + x) = over_pixel (snd ?base ! (y * 64 + x)) (img ! (y * 64 + x))"
    using CombineWithTransparency_pixels [OF assms(1) base(1) \<open>ai \<noteq> 0\<close>, of "snd ?base" 64 64 img w2] base(2) len
    by auto
  obtain a w5 where add: "AddElement fw (0, []) Tx n (at, t) w4 = Inr ((a, snd Tx @ [(at, t)]), n + 1, w5)" and "a \<noteq> 0"
    using AddElement_appends [OF assms(1), of "snd Tx" n "(0, [])" "fst Tx" "(at, t)" w4] assms(3,4)
    by (auto simp: textures_ok_def)
  have "icon_full img (snd ?base) (at, t)" using t by (simp add: icon_full_def)
  moreover have "MakeBootEntryTexture3D fw fsh e c Tx n w = Inr (EFI_SUCCESS, (a, snd Tx @ [(at, t)]), n + 1, w5)"
    using bmp cat base(3) comb add assms(5) by (simp add: MakeBootEntryTexture3D_def)
  ultimately show ?thesis using \<open>a \<noteq> 0\<close> by blast
qed

interpretation textures3D: entry_textures MakeBootEntryTexture3D 4096 icon_full
  by unfold_locales (rule MakeBootEntryTexture3D_icon, auto simp: icon_full_def)

section \<open>The entry that is returned is one of the entries\<close>

lemma game_loop3D_entry:
  assumes "game_loop3D fuel F fw Map W bs Textures margin keys cam screen w = Inr (e, w')"
  shows "e = ESCAPE_ENTRY \<and> SCAN_ESC \<in> set keys \<or>
    (\<exists>v \<in> set (snd Map). bs \<le> word_of_int v \<and> e = word_of_int v - bs)"
  using assms
proof (induction keys arbitrary: cam screen w)
  case Nil
  then show ?case by simp
next
  case (Cons k keys)
  from Cons.prems obtain screen' cam' ready v w1 where
    hk: "handle_key3D F Map W bs k cam = Inr (cam', ready)"
    and v: "map_at Map W (cast_int F (posX cam')) (cast_int F (posY cam')) = Inr v"
    and rest: "(if bs \<le> word_of_int v then Inr (word_of_int v - bs, w1)
      else if ready then Inr (ESCAPE_ENTRY, w1)
      else game_loop3D fuel F fw Map W bs Textures margin keys cam' screen' w1) = Inr (e, w')"
    by (auto simp: Let_def)
  have "v \<in> set (snd Map)" using v by (auto simp: map_at_def rdb_Inr)
  moreover have "ready \<Longrightarrow> k = SCAN_ESC" using hk by (auto simp: handle_key3D_def split: if_splits)
  ultimately show ?case using rest Cons.IH [of cam' screen' w1] by (auto split: if_splits)
qed

lemma Game3D_entry:
  assumes fw: "pool_ok fw" and m: "maze_map (a, m) W H" "12 \<le> card (escape_places bs m)"
      "\<forall>v \<in> set m. 0 \<le> v \<and> v < int (unat bs)"
    and n: "unat n \<le> 12" "unat bs + 12 < 2 ^ 60" and tx: "textures_ok 4096 (b, txs) bs"
    and es: "c \<noteq> 0" "length es = unat n" "\<forall>e \<in> set es. \<exists>img. icon_image fw fsh e img"
    and run: "Game3D fuel F fw fsh (a, m) W H (b, txs) bs (c, es) n keys w = Inr (e, w')"
  shows "e = ESCAPE_ENTRY \<and> SCAN_ESC \<in> set keys \<or> unat e < unat n"
proof -
  have "\<forall>i < unat n. \<exists>img. icon_image fw fsh (es ! i) img" using es(2,3) by simp
  then obtain f where "\<forall>i < unat n. icon_image fw fsh (es ! i) (f i)" by metis
  then have icons: "length (map f [0..<unat n]) = unat n" "\<forall>i < unat n. icon_image fw fsh (es ! i) (map f [0..<unat n] ! i)"
    by simp_all
  obtain m' cs b' ts n' w1 where pl: "PlaceBootEntries3D fw fsh (a, m) W H (b, txs) bs (c, es) n w =
        Inr ((a, m'), (b', txs @ ts), n', w1)"
    and m': "maze_map (a, m') W H" "placed bs m m' cs" "length cs = unat n"
    using textures3D.places [OF fw m(1,2) n tx es(1,2) icons] unfolding PlaceBootEntries3D_def by blast
  from run pl obtain margin screen w2 w3 where
    "game_loop3D fuel F fw (a, m') W bs (b', txs @ ts) margin keys (start_camera F) screen w2 = Inr (e, w3)"
    by (auto simp: Game3D_def Let_def split: prod.splits)
  from game_loop3D_entry [OF this] show ?thesis
    using placed_entry [OF m'(2) m(3) m'(1)] m'(3) n(1) by auto
qed

end
