(* ===== verification/BootMain3D.thy ===== *)
theory BootMain3D
  imports BootMain2D DemoGame3D
begin

text \<open>
  \<open>BootManager3D\<close>: its \<open>Common.c\<close>, \<open>Graphics.c\<close>, \<open>FileSystems.c\<close>, \<open>BMPReader.c\<close> and the
  parsers of its \<open>Config.c\<close> are the same text as those of \<open>BootManager2D\<close>, so their models are
  the same functions under names of their own; \<open>Main.c\<close> differs in how it reads the textures and
  in the game it plays.
\<close>

section \<open>The files the two programs share\<close>

definition MyFreePool3D :: "('w, 'x) fw_scheme \<Rightarrow> u64 \<Rightarrow> 'w \<Rightarrow> 'w" where
  "MyFreePool3D = MyFreePool"

definition CheckError3D :: "('w, 'x) fw_scheme \<Rightarrow> EFI_STATUS \<Rightarrow> CHAR16s \<Rightarrow> 'w \<Rightarrow> bool \<times> 'w" where
  "CheckError3D = CheckError"

definition AddElement3D ::
  "('w, 'x) fw_scheme \<Rightarrow> 'a \<Rightarrow> 'a buf \<Rightarrow> u64 \<Rightarrow> 'a \<Rightarrow> 'w \<Rightarrow> ('a buf \<times> u64 \<times> 'w) result" where
  "AddElement3D = AddElement"

definition CutInHalf3D ::
  "('w, 'x) fw_scheme \<Rightarrow> pixel buf \<Rightarrow> u64 \<Rightarrow> u64 \<Rightarrow> 'w \<Rightarrow> (pixel buf \<times> 'w) result" where
  "CutInHalf3D = CutInHalf"

definition CombineWithTransparency3D ::
  "('w, 'x) fw_scheme \<Rightarrow> pixel buf \<Rightarrow> pixel buf \<Rightarrow> u64 \<Rightarrow> u64 \<Rightarrow> 'w \<Rightarrow> (pixel buf \<times> 'w) result" where
  "CombineWithTransparency3D = CombineWithTransparency"

definition ReadFile3D ::
  "('w, 'x) fw_scheme \<Rightarrow> EFI_HANDLE \<Rightarrow> CHAR16s \<Rightarrow> 'w \<Rightarrow> (EFI_STATUS \<times> u8 buf option \<times> u64 option \<times> 'w) result" where
  "ReadFile3D = ReadFile"

definition LocateCurFSHandle3D ::
  "('w, 'x) fw_scheme \<Rightarrow> EFI_HANDLE \<Rightarrow> EFI_HANDLE \<Rightarrow> 'w \<Rightarrow> EFI_STATUS \<times> EFI_HANDLE \<times> 'w" where
  "LocateCurFSHandle3D = LocateCurFSHandle"

definition LocateFSPartitions3D ::
  "('w, 'x) fw_scheme \<Rightarrow> 'w \<Rightarrow> (EFI_STATUS \<times> PARTITION buf option \<times> u64 \<times> 'w) result" where
  "LocateFSPartitions3D = LocateFSPartitions"

definition ReadBMP3D ::
  "('w, 'x) fw_scheme \<Rightarrow> EFI_HANDLE \<Rightarrow> CHAR16s \<Rightarrow> 'w
    \<Rightarrow> (EFI_STATUS \<times> (u32 \<times> u32 \<times> pixel buf) option \<times> 'w) result" where
  "ReadBMP3D = ReadBMP"

definition ParseConfigFile3D ::
  "('w, 'x) fw_scheme \<Rightarrow> EFI_HANDLE \<Rightarrow> CHAR16s \<Rightarrow> 'w \<Rightarrow> (EFI_STATUS \<times> BOOT_ENTRY buf \<times> u64 \<times> 'w) result" where
  "ParseConfigFile3D = ParseConfigFile"

definition ParseTexturesConfigFile3D ::
  "('w, 'x) fw_scheme \<Rightarrow> EFI_HANDLE \<Rightarrow> CHAR16s \<Rightarrow> 'w \<Rightarrow> (EFI_STATUS \<times> (CHAR16s buf \<times> u64) option \<times> 'w) result" where
  "ParseTexturesConfigFile3D = ParseTexturesConfigFile"

definition ParseMazeConfigFile3D ::
  "('w, 'x) fw_scheme \<Rightarrow> EFI_HANDLE \<Rightarrow> CHAR16s \<Rightarrow> 'w \<Rightarrow> (EFI_STATUS \<times> (int buf \<times> u64 \<times> u64) option \<times> 'w) result" where
  "ParseMazeConfigFile3D = ParseMazeConfigFile"

definition BootEntry3D ::
  "('w, 'x) fw_scheme \<Rightarrow> EFI_HANDLE \<Rightarrow> BOOT_ENTRY \<Rightarrow> PARTITION buf \<Rightarrow> u64 \<Rightarrow> 'w \<Rightarrow> (EFI_STATUS \<times> 'w) result" where
  "BootEntry3D = BootEntry"

lemmas shared3D = CheckError3D_def ReadBMP3D_def LocateCurFSHandle3D_def LocateFSPartitions3D_def
  ParseConfigFile3D_def ParseTexturesConfigFile3D_def ParseMazeConfigFile3D_def BootEntry3D_def

section \<open>The main program\<close>

text \<open>The texture is read straight into the table; otherwise as in \<open>BootManager2D\<close>.\<close>

definition load_texture3D ::
  "('w, 'x) fw_scheme \<Rightarrow> EFI_HANDLE \<Rightarrow> CHAR16s buf \<Rightarrow> nat \<Rightarrow> pixel buf buf \<times> 'w
    \<Rightarrow> (EFI_STATUS \<times> 'w + pixel buf buf \<times> 'w) result" where
  "load_texture3D fw SelfFSHandle TexturesFiles i s =
     (case s of (Textures, w) \<Rightarrow>
      bindE (rdb TexturesFiles i) (\<lambda>name.
      bindE (ReadBMP3D fw SelfFSHandle name w) (\<lambda>(Status, bmp, w).
      bindE (use bmp) (\<lambda>(Width, Height, Texture).
      bindE (wrb Textures i Texture) (\<lambda>Textures.
      let w = (if sint Width \<noteq> 64 \<or> sint Height \<noteq> 64
               then snd (CheckError3D fw EFI_INVALID_PARAMETER (Some (wide ''wrong texture size'')) w) else w) in
      case CatSPrint fw None (Some (wide ''reading BMP file %s'')) [PStr name] w of (loc, w) \<Rightarrow>
      case CheckError3D fw Status loc w of (failed, w) \<Rightarrow>
      if failed then Inr (Inl (Status, w)) else Inr (Inr (Textures, w)))))))"

fun load_textures3D ::
  "('w, 'x) fw_scheme \<Rightarrow> EFI_HANDLE \<Rightarrow> CHAR16s buf \<Rightarrow> nat \<Rightarrow> nat \<Rightarrow> pixel buf buf \<times> 'w
    \<Rightarrow> (EFI_STATUS \<times> 'w + pixel buf buf \<times> 'w) result" where
  "load_textures3D fw SelfFSHandle TexturesFiles 0 i s = Inr (Inr s)"
| "load_textures3D fw SelfFSHandle TexturesFiles (Suc m) i s =
     bindE (load_texture3D fw SelfFSHandle TexturesFiles i s) (\<lambda>r.
     case r of
       Inl early \<Rightarrow> Inr (Inl early)
     | Inr s \<Rightarrow> load_textures3D fw SelfFSHandle TexturesFiles m (i + 1) s)"

definition UefiMain3D ::
  "nat \<Rightarrow> 'd fp \<Rightarrow> ('w, 'x) fw_scheme \<Rightarrow> EFI_HANDLE \<Rightarrow> EFI_HANDLE \<Rightarrow> u16 list \<Rightarrow> 'w \<Rightarrow> (EFI_STATUS \<times> 'w) result" where
  "UefiMain3D fuel F fw gImageHandle SelfFSHandle keys w =
     (let w = srand_time fw w in
      case LocateCurFSHandle3D fw gImageHandle SelfFSHandle w of (Status, SelfFSHandle, w) \<Rightarrow>
      case CheckError3D fw Status (Some (wide ''while getting current file system'')) w of (failed, w) \<Rightarrow>
      if failed then Inr (Status, w) else
      bindE (ParseConfigFile3D fw SelfFSHandle (Some (wide ''3DConfig.txt'')) w)
        (\<lambda>(Status, BootEntries, BootEntriesCount, w).
      case CheckError3D fw Status (Some (wide ''while parsing config file'')) w of (failed, w) \<Rightarrow>
      if failed then Inr (Status, w) else
      bindE (LocateFSPartitions3D fw w) (\<lambda>(Status, partitions, HandlesCount, w).
      case CheckError3D fw Status (Some (wide ''while locating fs partitions'')) w of (failed, w) \<Rightarrow>
      if failed then Inr (Status, w) else
      bindE (use partitions) (\<lambda>partitions.
      bindE (ParseMazeConfigFile3D fw SelfFSHandle (Some (wide ''MazeConfig.conf'')) w) (\<lambda>(_, maze, w).
      bindE (ParseTexturesConfigFile3D fw SelfFSHandle (Some (wide ''TexturesConfig.conf'')) w) (\<lambda>(_, texs, w).
      bindE (use texs) (\<lambda>(TexturesFiles, TexturesCount).
      case AllocateZeroArray fw 8 (0, []) (TexturesCount * 8) w of (Textures, w) \<Rightarrow>
      bindE (load_textures3D fw SelfFSHandle TexturesFiles (unat TexturesCount) 0 (Textures, w)) (\<lambda>r.
      case r of
        Inl early \<Rightarrow> Inr early
      | Inr (Textures, w) \<Rightarrow>
          bindE (use maze) (\<lambda>(Numbers, MapWidth, MapHeight).
          bindE (Game3D fuel F fw SelfFSHandle Numbers MapWidth MapHeight Textures TexturesCount
                   BootEntries BootEntriesCount keys w) (\<lambda>(EntryToBoot, w).
          if EntryToBoot \<noteq> ESCAPE_ENTRY then
            bindE (rdb BootEntries (unat EntryToBoot)) (\<lambda>e.
              BootEntry3D fw gImageHandle e partitions HandlesCount w)
          else Inr (if TexturesCount = 0 then Status else EFI_SUCCESS, w)))))))))))"

end
