(* ===== verification/Disk_Firmware.thy ===== *)
theory Disk_Firmware
  imports BootMain3D
begin

text \<open>
  A concrete firmware: one volume whose files are a list of names and contents, memory that is
  always available, and a console that swallows its output. It is the instance on which the
  hypotheses about the firmware are shown to hold.
\<close>

definition file_index :: "(u16 list \<times> u8 list) list \<Rightarrow> u16 list \<Rightarrow> nat" where
  "file_index files name = length (takeWhile (\<lambda>f. fst f \<noteq> name) files)"

definition EFI_NOT_FOUND :: EFI_STATUS where "EFI_NOT_FOUND = 0x800000000000000E"

definition disk_fw :: "(u16 list \<times> u8 list) list \<Rightarrow> EFI_HANDLE list \<Rightarrow> (EFI_HANDLE \<Rightarrow> dp_node list option) \<Rightarrow> unit fw" where
  "disk_fw files handles paths = \<lparr>
     SetAttribute = \<lambda>_ w. w,
     Print = \<lambda>_ _ w. w,
     CatSPrint = \<lambda>s _ _ w. (s, w),
     AllocatePool = \<lambda>n w. (1, replicate (unat n) 0, w),
     AllocateZeroPool = \<lambda>n w. (1, w),
     ReallocatePool = \<lambda>_ _ _ w. (1, w),
     FreePool = \<lambda>_ w. w,
     HandleProtocol_SimpleFileSystem = \<lambda>h w. (EFI_SUCCESS, h, w),
     OpenVolume = \<lambda>fs w. (EFI_SUCCESS, fs, w),
     Open = \<lambda>root name w. if file_index files name < length files
       then (EFI_SUCCESS, word_of_nat (file_index files name), w) else (EFI_NOT_FOUND, 0, w),
     FileHandleGetInfo = \<lambda>f w. (1, word_of_nat (length (snd (files ! unat f))), w),
     Read = \<lambda>f n w. (EFI_SUCCESS, take (unat n) (snd (files ! unat f)), w),
     Close = \<lambda>_ w. w,
     HandleProtocol_LoadedImage = \<lambda>_ w. (EFI_SUCCESS, 7, w),
     LocateHandleBuffer_SimpleFileSystem = \<lambda>w. (EFI_SUCCESS, handles, w),
     DevicePathFromHandle = paths,
     AsciiStrToUnicodeStrS = \<lambda>s d n. (EFI_SUCCESS, map ucast (takeWhile (\<lambda>c. c \<noteq> 0) s)),
     AsciiStrLen = \<lambda>s. word_of_nat (length (takeWhile (\<lambda>c. c \<noteq> 0) s)),
     StrToGuid = \<lambda>s. case s of None \<Rightarrow> [] | Some cs \<Rightarrow> map ucast cs,
     CompareGuid = \<lambda>g h. g = h,
     StrLen = \<lambda>s. word_of_nat (length s),
     LoadImage = \<lambda>_ p _ w. (EFI_SUCCESS, p, w),
     StartImage = \<lambda>_ _ _ w. w,
     rand = \<lambda>w. (0, w),
     srand_time = \<lambda>w. w,
     ScreenResolution = \<lambda>w. (1024, 768),
     Blt = \<lambda>_ w. w\<rparr>"

lemma disk_fw_pool: "pool_ok (disk_fw files handles paths)"
  by (simp add: pool_ok_def disk_fw_def)

lemma disk_fw_strings: "strings_ok (disk_fw files handles paths)"
proof -
  have "takeWhile (\<lambda>c. c \<noteq> 0) (s @ 0 # rest) = s" if "0 \<notin> set s" for s rest :: "u8 list"
    using that by (induction s) auto
  then show ?thesis by (simp add: strings_ok_def disk_fw_def)
qed

lemma disk_fw_file:
  assumes "file_index files name < length files" and "snd (files ! file_index files name) = bytes"
    and "length files < 2 ^ 64" and "length bytes < 2 ^ 64"
  shows "file_at (disk_fw files handles paths) h name bytes"
proof -
  have "unat (word_of_nat (file_index files name) :: u64) = file_index files name"
    using assms(1,3) by simp
  with assms show ?thesis by (simp add: file_at_def disk_fw_def)
qed

lemma file_index_simps [simp]:
  "file_index ((n, b) # files) name = (if n = name then 0 else Suc (file_index files name))"
  by (simp add: file_index_def)

lemma disk_fw_simps [simp]:
  "CompareGuid (disk_fw files handles paths) g h = (g = h)"
  "HandleProtocol_LoadedImage (disk_fw files handles paths) i w = (EFI_SUCCESS, 7, w)"
  "LocateHandleBuffer_SimpleFileSystem (disk_fw files handles paths) w = (EFI_SUCCESS, handles, w)"
  "DevicePathFromHandle (disk_fw files handles paths) = paths"
  by (simp_all add: disk_fw_def)

section \<open>A disk with a complete configuration\<close>

definition demo_header :: "u32 \<Rightarrow> u32 \<Rightarrow> BMP_HEADER" where
  "demo_header w h = \<lparr>Signature = 0x4d42, FileSize = 0, Unused = 0, PixelsOffset = 138, HeaderSize = 0x7c,
     BmpWidth = w, BmpHeight = h, Planes = 1, BitsPerPixel = 0x20, CompressionMethod = 3, ImageSize = 0,
     XPXLsPerMeter = 0, YPXLsPerMeter = 0, ColorsUsed = 0, ColorsImportant = 0, RedMask = 0x00ff0000,
     GreenMask = 0x0000ff00, BlueMask = 0x000000ff, AlphaMask = 0xff000000, CSType = 0,
     Endpoints = (0, 0, 0, 0, 0, 0, 0, 0, 0), GammaRed = 0, GammaGreen = 0, GammaBlue = 0, Intent = 0,
     ProfileData = 0, ProfileSize = 0, BmpReserved = 0\<rparr>"

definition demo_image :: "pixel list" where
  "demo_image = replicate 4096 \<lparr>Blue = 1, Green = 2, Red = 3, Reserved = 0xff\<rparr>"

definition demo_config :: "(u8 list \<times> u8 list) list list" where
  "demo_config = [[(map ascii ''title'', map ascii ''ALPINE''), (map ascii ''volume'', map ascii ''V''),
     (map ascii ''loader'', map ascii ''L''), (map ascii ''icon'', map ascii ''T.BMP'')]]"

definition demo_rows :: "int list list" where
  "demo_rows = replicate 18 [10, 0]"

definition demo_names :: "u8 list list" where
  "demo_names = replicate 11 (map ascii ''T.BMP'')"

definition demo_sprite :: "u8 list" where
  "demo_sprite = concat (replicate 32 (replicate 32 46 @ [newline]))"

definition demo_disk :: "(u16 list \<times> u8 list) list" where
  "demo_disk = [(wide ''2DConfig.txt'', config_file demo_config), (wide ''MazeConfig.conf'', maze_file demo_rows),
     (wide ''TexturesConfig.conf'', textures_file demo_names []),
     (wide ''T.BMP'', bmp_file (demo_header 64 64) [] demo_image), (wide ''Sprite.txt'', demo_sprite)]"

text \<open>A volume on a hard drive and one that is not.\<close>

definition demo_paths :: "EFI_HANDLE \<Rightarrow> dp_node list option" where
  "demo_paths h = (if h = 7 then Some [\<lparr>dp_type = 2, dp_subtype = 1, dp_signature = []\<rparr>,
     \<lparr>dp_type = 4, dp_subtype = 1, dp_signature = [86]\<rparr>] else None)"

definition demo_fw :: "unit fw" where
  "demo_fw = disk_fw demo_disk [7, 9] demo_paths"

lemma of_char_less: "(of_char c :: nat) < 256"
  using nat_of_char_less_256 [of c] .

lemma ucast_ascii: "map ucast (map ascii s) = wide s"
proof -
  have "ucast (ascii c) = (word_of_nat (of_char c) :: u16)" for c
    using of_char_less [of c] by (simp add: ascii_def unsigned_ucast_eq unsigned_of_nat take_bit_nat_eq_self)
  then show ?thesis by (simp add: wide_def)
qed

lemma wide_eq [simp]: "wide s = wide t \<longleftrightarrow> s = t"
proof -
  have u: "unat (word_of_nat (of_char c) :: u16) = of_char c" for c
    using less_trans [OF of_char_less [of c], of 65536] by (simp add: unat_of_nat)
  have "inj (\<lambda>c. word_of_nat (of_char c) :: u16)"
    by (rule injI) (metis u of_char_eq_iff)
  then show ?thesis by (simp add: wide_def inj_map_eq_map)
qed

lemma demo_header_good: "0 < unat w \<Longrightarrow> unat w < 2 ^ 15 \<Longrightarrow> unat h < 2 ^ 15 \<Longrightarrow> good_header (demo_header w h) []"
proof -
  assume "unat w < 2 ^ 15" "unat h < 2 ^ 15"
  then have "unat w * unat h < 2 ^ 15 * 2 ^ 15" by (intro mult_strict_mono) simp_all
  with \<open>unat w < 2 ^ 15\<close> \<open>unat h < 2 ^ 15\<close> show ?thesis by (simp add: good_header_def demo_header_def)
qed

lemma demo_pool: "pool_ok demo_fw" and demo_strings: "strings_ok demo_fw"
  by (simp_all add: demo_fw_def disk_fw_pool disk_fw_strings)

lemma demo_file:
  "file_index demo_disk name < 5 \<Longrightarrow> snd (demo_disk ! file_index demo_disk name) = bytes \<Longrightarrow>
    length bytes < 2 ^ 64 \<Longrightarrow> file_at demo_fw h name bytes"
  unfolding demo_fw_def by (rule disk_fw_file) (simp_all add: demo_disk_def)

lemma length_bmp_file:
  assumes "length img = unat (BmpWidth h) * unat (BmpHeight h)"
  shows "length (bmp_file h gap img) = 138 + length gap + 4 * length img"
proof -
  have "length (concat (map pixel_bytes ps)) = 4 * length ps" for ps
    by (subst length_concat_uniform [where w = 4]) (auto simp: pixel_bytes_def)
  then show ?thesis using length_rows_bottom_up [OF assms] assms by (simp add: bmp_file_def)
qed

lemma demo_texture: "file_at demo_fw h (wide ''T.BMP'') (bmp_file (demo_header 64 64) [] demo_image)"
proof (rule demo_file)
  have "length (bmp_file (demo_header 64 64) [] demo_image) = 16522"
    by (subst length_bmp_file) (simp_all add: demo_header_def demo_image_def)
  then show "length (bmp_file (demo_header 64 64) [] demo_image) < 2 ^ 64" by simp
qed (simp_all add: demo_disk_def)

lemma demo_lengths:
  "length (config_file demo_config) = 46" "length (maze_file demo_rows) = 90"
  "length (textures_file demo_names []) = 66" "length demo_sprite = 1056"
  subgoal by code_simp
  subgoal by code_simp
  subgoal by code_simp
  subgoal by (simp add: demo_sprite_def length_concat sum_list_replicate)
  done

lemma demo_files:
  "file_at demo_fw h (wide ''2DConfig.txt'') (config_file demo_config)"
  "file_at demo_fw h (wide ''MazeConfig.conf'') (maze_file demo_rows)"
  "file_at demo_fw h (wide ''TexturesConfig.conf'') (textures_file demo_names [])"
  "file_at demo_fw h (wide ''Sprite.txt'') demo_sprite"
  subgoal by (rule demo_file) (simp_all add: demo_lengths, simp_all add: demo_disk_def)
  subgoal by (rule demo_file) (simp_all add: demo_lengths, simp_all add: demo_disk_def)
  subgoal by (rule demo_file) (simp_all add: demo_lengths, simp_all add: demo_disk_def)
  subgoal by (rule demo_file) (simp_all add: demo_lengths, simp_all add: demo_disk_def)
  done

lemma demo_good:
  "good_config demo_config" "good_maze 2 demo_rows" "good_names demo_names []"
  subgoal by code_simp
  subgoal by (simp add: good_maze_def demo_rows_def)
  subgoal by code_simp
  done

lemma demo_icon: "icon_image demo_fw h (entry_of (demo_config ! 0)) demo_image"
proof -
  have "icon (entry_of (demo_config ! 0)) = Some (wide ''T.BMP'')"
    unfolding ucast_ascii [symmetric] by (simp add: entry_of_def value_at_def demo_config_def)
  then show ?thesis
    using demo_texture demo_header_good [of 64 64]
    by (auto simp: icon_image_def demo_image_def [symmetric] intro!: exI [of _ "demo_header 64 64"] exI [of _ "[]"])
      (simp_all add: demo_header_def demo_image_def)
qed

lemma demo_texture_image: "texture_image demo_fw h (wide ''T.BMP'')"
  unfolding texture_image_def using demo_texture demo_header_good [of 64 64]
  by (intro exI [of _ "demo_header 64 64"] exI [of _ "[]"] exI [of _ demo_image])
    (simp add: demo_header_def demo_image_def)

lemma escape_places_filter:
  "card (escape_places bs m) = length (filter (\<lambda>p. is_escape bs (m ! p)) [0..<length m])"
proof -
  have "escape_places bs m = set (filter (\<lambda>p. is_escape bs (m ! p)) [0..<length m])"
    by (auto simp: escape_places_def)
  then show ?thesis by (simp add: distinct_card del: set_filter)
qed

lemma demo_escapes: "12 \<le> card (escape_places 11 (concat demo_rows))"
  unfolding escape_places_filter by code_simp

lemma demo_setup: "setup2D demo_fw 7 demo_config 2 demo_rows demo_names demo_sprite"
proof -
  have names: "length demo_names = 11" "\<forall>l \<in> set demo_names. texture_image demo_fw 7 (map ucast l)"
  proof -
    have "set demo_names = {map ascii ''T.BMP''}" unfolding demo_names_def by (simp only: set_replicate_conv_if) simp
    then show "\<forall>l \<in> set demo_names. texture_image demo_fw 7 (map ucast l)"
      using demo_texture_image [of 7] by (simp only: ball_simps ucast_ascii)
  qed (simp only: demo_names_def length_replicate)
  have rows: "length demo_rows = 18" "\<forall>v \<in> set (concat demo_rows). 0 \<le> v \<and> v < 11"
    by (auto simp: demo_rows_def)
  have config: "length demo_config = 1" "\<forall>c \<in> set demo_config. \<exists>img. icon_image demo_fw 7 (entry_of c) img"
    using demo_icon [of 7] by (auto simp: demo_config_def)
  have sprite: "newline \<in> set demo_sprite" "length (takeWhile (\<lambda>c. c \<noteq> newline) demo_sprite) = 32"
  proof -
    have "demo_sprite = replicate 32 46 @ newline # concat (replicate 31 (replicate 32 46 @ [newline]))"
      by (simp add: demo_sprite_def numeral_eq_Suc)
    moreover have "takeWhile (\<lambda>c. c \<noteq> newline) (replicate 32 46 @ newline # rest) = replicate 32 46" for rest
      by (subst takeWhile_append2) (simp_all add: newline_def)
    ultimately have "takeWhile (\<lambda>c. c \<noteq> newline) demo_sprite = replicate 32 46" by (metis (no_types))
    then show "length (takeWhile (\<lambda>c. c \<noteq> newline) demo_sprite) = 32" by (metis length_replicate)
    show "newline \<in> set demo_sprite" by (simp add: demo_sprite_def)
  qed
  show ?thesis
    unfolding setup2D_def
    using demo_files demo_good demo_escapes names rows config sprite by (simp add: demo_lengths)
qed

end
