(* ===== verification/Boot_Properties.thy ===== *)
theory Boot_Properties
  imports Disk_Firmware
begin

text \<open>
  The properties of the two boot managers (\<open>BootManager2D\<close>, \<open>BootManager3D\<close>), each with a
  witness on the concrete firmware of \<open>Disk_Firmware\<close>. The laws they rest on are proved in
  the theories of the components.
\<close>

section \<open>Facts about the demonstration disk\<close>

definition demo_map :: "int buf" where "demo_map = (1, concat demo_rows)"

definition demo_textures :: "nat \<Rightarrow> pixel buf buf" where
  "demo_textures area = (1, replicate 11 (1, replicate area zero_pixel))"

lemma demo_maze: "maze_map (1, concat demo_rows) 2 18"
  by (simp add: maze_map_def demo_rows_def length_concat sum_list_replicate)


lemma demo_textures_ok: "textures_ok area (1, replicate 11 (1, replicate area zero_pixel)) 11"
  by (simp add: textures_ok_def)


lemma demo_handles: "harddrives_first demo_fw [7, 9]" "\<not> harddrives_first demo_fw [9, 7]"
  by (simp_all add: harddrives_first_def count_harddrives_def has_harddrive_def path_nodes_def is_harddrive_def
      demo_fw_def demo_paths_def MEDIA_DEVICE_PATH_def MEDIA_HARDDRIVE_DP_def less_Suc_eq)

lemma demo_services:
  "\<forall>g h. CompareGuid demo_fw g h \<longleftrightarrow> g = h"
  "HandleProtocol_LoadedImage demo_fw i w = (EFI_SUCCESS, 7, w)"
  "LocateHandleBuffer_SimpleFileSystem demo_fw w = (EFI_SUCCESS, [7, 9], w)"
  by (simp_all add: demo_fw_def)

section \<open>The boot manager of the two-dimensional game\<close>





text \<open>
  C3: in a maze with at least twelve escapes, every boot entry gets an escape of its own: the
  cell of entry \<open>j\<close> holds the number of a texture appended for it, and that texture is the
  entry's icon, halved, behind the texture the cell had; the rest of the maze and the old
  textures are as before.
\<close>
theorem entries_placed_2D:
  assumes "pool_ok fw" and "maze_map (a, m) W H" and "12 \<le> card (escape_places bs m)"
    and "unat n \<le> 12" and "unat bs + 12 < 2 ^ 60" and "textures_ok 1024 (b, txs) bs"
    and "c \<noteq> 0" and "length es = unat n" and "length imgs = unat n"
    and "\<forall>i < unat n. icon_image fw fsh (es ! i) (imgs ! i)"
  shows "\<exists>m' cs b' ts n' w'.
    PlaceBootEntries fw fsh (a, m) W H (b, txs) bs (c, es) n w = Inr ((a, m'), (b', txs @ ts), n', w') \<and>
    placed bs m m' cs \<and> length cs = unat n \<and> unat n' = unat bs + unat n \<and> length ts = unat n \<and>
    (\<forall>j < unat n. icon_behind (imgs ! j) (snd (txs ! nat (m ! (cs ! j)))) (ts ! j))"
  using textures2D.places [OF assms, of w] unfolding PlaceBootEntries_def by blast

theorem entries_placed_2D_witness:
  "\<exists>m' cs b' ts n' w'.
    PlaceBootEntries demo_fw 7 (1, concat demo_rows) 2 18 (1, replicate 11 (1, replicate 1024 zero_pixel)) 11
      (1, [entry_of (demo_config ! 0)]) 1 () = Inr ((1, m'), (b', replicate 11 (1, replicate 1024 zero_pixel) @ ts), n', w') \<and>
    placed 11 (concat demo_rows) m' cs \<and> length cs = 1 \<and> unat n' = 12 \<and> length ts = 1"
proof -
  note placing = entries_placed_2D [OF demo_pool demo_maze demo_escapes, where n = 1 and c = 1 and w = "()"
      and es = "[entry_of (demo_config ! 0)]" and imgs = "[demo_image]" and fsh = 7 and b = 1
      and txs = "replicate 11 (1, replicate 1024 zero_pixel)"]
  show ?thesis
    using placing demo_textures_ok [of 1024] demo_icon [of 7] by (auto simp: less_Suc_eq)
qed

text \<open>
  C4: whatever keys are pressed and whatever \<open>MapValue\<close> holds when no key has stored it, a
  player who starts on a free cell of the maze is always on a free cell of the maze.
\<close>
theorem player_never_in_a_wall:
  assumes "walk Map W H bs start (X, Y)" and "maze_map Map W H"
    and "in_maze W H (fst start) (snd start)" and "free_cell Map W bs (fst start) (snd start)"
  shows "in_maze W H X Y \<and> free_cell Map W bs X Y"
  using walk_free [OF assms] by simp

theorem player_never_in_a_wall_witness:
  "\<exists>X Y. walk (1, concat demo_rows) 2 18 11 (1, 17) (X, Y) \<and> (X, Y) \<noteq> (1, 17) \<and> in_maze 2 18 X Y"
proof -
  have "handle_key (1, concat demo_rows) 2 18 11 SCAN_UP 0 1 17 = Inr (1, 16, 0, False)" by code_simp
  then have "walk (1, concat demo_rows) 2 18 11 (1, 17) (1, 16)" by (meson walk.intros)
  moreover have "in_maze 2 18 1 17" "free_cell (1, concat demo_rows) 2 11 1 17"
    by (simp add: in_maze_def) code_simp
  with player_never_in_a_wall [OF calculation demo_maze] have "in_maze 2 18 1 16" by simp
  ultimately show ?thesis by (intro exI [of _ 1] exI [of _ 16]) simp
qed

section \<open>The configuration files\<close>

text \<open>
  C5: a boot configuration written as the documentation describes is parsed back to its
  entries, in their order, with every value in the field of its line.
\<close>
theorem boot_config_roundtrip:
  assumes "pool_ok fw" and "strings_ok fw" and "file_at fw fsh name (config_file cs)"
    and "good_config cs" and "length (config_file cs) < 2 ^ 58"
  shows "\<exists>b w'. ParseConfigFile fw fsh (Some name) w =
      Inr (EFI_SUCCESS, (b, map entry_of cs), word_of_nat (length cs), w') \<and> b \<noteq> 0"
  by (rule ParseConfigFile_config [OF assms])

theorem boot_config_roundtrip_witness:
  "\<exists>b w'. ParseConfigFile demo_fw 7 (Some (wide ''2DConfig.txt'')) () =
      Inr (EFI_SUCCESS, (b, map entry_of demo_config), 1, w') \<and> b \<noteq> 0"
  using boot_config_roundtrip [OF demo_pool demo_strings demo_files(1) demo_good(1), of 7 "()"]
  by (simp add: demo_lengths) (simp add: demo_config_def)

text \<open>
  C6: the parser of the boot configuration is memory safe on every file the disk can hold,
  well-formed or not: it returns, with one entry more than the file has empty lines.
\<close>
theorem boot_config_any_file:
  assumes "pool_ok fw" and "file_at fw fsh name bs" and "length bs < 2 ^ 58"
  shows "\<exists>st b es w'. ParseConfigFile fw fsh (Some name) w =
      Inr (st, (b, es), word_of_nat (length es), w') \<and> length es = 1 + blank_lines 0 bs"
  by (rule ParseConfigFile_no_fault [OF assms])

theorem boot_config_any_file_witness:
  "\<exists>st b es w'. ParseConfigFile demo_fw 7 (Some (wide ''Sprite.txt'')) () =
      Inr (st, (b, es), word_of_nat (length es), w') \<and> length es = 1 + blank_lines 0 demo_sprite"
  by (rule boot_config_any_file [OF demo_pool demo_files(4)]) (simp add: demo_lengths)

text \<open>
  A list of texture names, one to a line, is parsed back to the names; what follows the
  last line break is ignored.
\<close>
theorem textures_config_roundtrip:
  assumes "pool_ok fw" and "strings_ok fw" and "file_at fw fsh name (textures_file names tail)"
    and "good_names names tail" and "length (textures_file names tail) < 2 ^ 60"
  shows "\<exists>b w'. ParseTexturesConfigFile fw fsh (Some name) w =
      Inr (EFI_SUCCESS, Some ((b, map (\<lambda>l. Some (map ucast l)) names), word_of_nat (length names)), w') \<and> b \<noteq> 0"
  by (rule ParseTexturesConfigFile_names [OF assms])

theorem textures_config_roundtrip_witness:
  "\<exists>b w'. ParseTexturesConfigFile demo_fw 7 (Some (wide ''TexturesConfig.conf'')) () =
      Inr (EFI_SUCCESS, Some ((b, map (\<lambda>l. Some (map ucast l)) demo_names), word_of_nat (length demo_names)), w') \<and> b \<noteq> 0"
  by (rule textures_config_roundtrip [OF demo_pool demo_strings demo_files(3) demo_good(3)]) (simp add: demo_lengths)







section \<open>Images\<close>

text \<open>
  C11: a bitmap file with a supported header, with any bytes between the header and the
  pixels, is read back to its image: width, height, and the pixels from the top row down with
  their four channels.
\<close>
theorem bitmap_roundtrip:
  assumes "pool_ok fw" and "file_at fw fsh name (bmp_file h gap img)" and "good_header h gap"
    and "length img = unat (BmpWidth h) * unat (BmpHeight h)"
  shows "\<exists>a w'. ReadBMP fw fsh (Some name) w =
      Inr (EFI_SUCCESS, Some (BmpWidth h, BmpHeight h, (a, img)), w') \<and> a \<noteq> 0"
  by (rule ReadBMP_file [OF assms])

theorem bitmap_roundtrip_witness:
  "\<exists>a w'. ReadBMP demo_fw 7 (Some (wide ''T.BMP'')) () = Inr (EFI_SUCCESS, Some (64, 64, (a, demo_image)), w') \<and> a \<noteq> 0"
  using bitmap_roundtrip [OF demo_pool demo_texture demo_header_good, where w = "()"]
  by (simp add: demo_image_def demo_header_def)

text \<open>
  A bitmap whose header differs in its signature, its size, the bits per pixel, the
  compression or a channel mask is refused with \<open>EFI_UNSUPPORTED\<close>; nothing of it is returned.
\<close>
theorem bitmap_refused:
  assumes "pool_ok fw" and "file_at fw fsh name (header_bytes h @ rest)" and "\<not> supported_header h"
  shows "\<exists>w'. ReadBMP fw fsh (Some name) w = Inr (EFI_UNSUPPORTED, None, w')"
  by (rule ReadBMP_unsupported [OF assms])

theorem bitmap_refused_witness:
  "\<exists>w'. ReadBMP (disk_fw [(wide ''B'', header_bytes ((demo_header 64 64)\<lparr>BitsPerPixel := 24\<rparr>) @ [])] [] demo_paths)
     7 (Some (wide ''B'')) () = Inr (EFI_UNSUPPORTED, None, w')"
  by (rule bitmap_refused [OF disk_fw_pool disk_fw_file, where h = "(demo_header 64 64)\<lparr>BitsPerPixel := 24\<rparr>" and rest = "[]"])
    (simp_all add: supported_header_def)

text \<open>
  An image of even width and height is halved: the result has half the width and half
  the height, and its pixel at \<open>(x, y)\<close> is the pixel of the image at \<open>(2 x, 2 y)\<close>.
\<close>
theorem image_halved:
  assumes "pool_ok fw" and "ai \<noteq> 0" and "length img = unat Width * unat Height"
    and "even (unat Width)" and "even (unat Height)"
    and "unat Width * unat Height * 4 < 2 ^ 64"
  shows "\<exists>a px w'. CutInHalf fw (ai, img) Width Height w = Inr ((a, px), w') \<and> a \<noteq> 0 \<and>
    length px = (unat Width div 2) * (unat Height div 2) \<and>
    (\<forall>y < unat Height div 2. \<forall>x < unat Width div 2.
       px ! (y * (unat Width div 2) + x) = img ! (2 * y * unat Width + 2 * x))"
  by (rule CutInHalf_pixels [OF assms])

theorem image_halved_witness:
  "\<exists>a px w'. CutInHalf demo_fw (1, demo_image) 64 64 () = Inr ((a, px), w') \<and> length px = 1024"
  using image_halved [OF demo_pool, of 1 demo_image 64 64 "()"] by (auto simp: demo_image_def)

text \<open>
  C14: an image of an odd width or height makes the same routine write behind the end of the
  result it has allocated.
\<close>
theorem odd_image_overruns:
  assumes "pool_ok fw" and "ai \<noteq> 0" and "length img = unat Width * unat Height"
    and "0 < unat Width" and "0 < unat Height" and "odd (unat Width) \<or> odd (unat Height)"
    and "unat Width * unat Height * 4 < 2 ^ 64"
  shows "CutInHalf fw (ai, img) Width Height w = Inl OutOfBounds"
  by (rule CutInHalf_odd [OF assms])

theorem odd_image_overruns_witness:
  "CutInHalf demo_fw (1, replicate 15 zero_pixel) 3 5 () = Inl OutOfBounds"
  by (rule odd_image_overruns [OF demo_pool]) simp_all

text \<open>
  The combination of two images of one size has that size and shows, at each place, the
  foreground where it is fully opaque and the background elsewhere.
\<close>
theorem images_combined:
  assumes "pool_ok fw" and "af \<noteq> 0" and "ab \<noteq> 0"
    and "length fg = unat Width * unat Height" and "length bg = unat Width * unat Height"
    and "unat Width * unat Height * 4 < 2 ^ 64"
  shows "\<exists>a px w'. CombineWithTransparency fw (af, fg) (ab, bg) Width Height w = Inr ((a, px), w') \<and>
    a \<noteq> 0 \<and> length px = unat Width * unat Height \<and>
    (\<forall>y < unat Height. \<forall>x < unat Width.
       px ! (y * unat Width + x) = over_pixel (fg ! (y * unat Width + x)) (bg ! (y * unat Width + x)))"
  by (rule CombineWithTransparency_pixels [OF assms])

theorem images_combined_witness:
  "\<exists>a px w'. CombineWithTransparency demo_fw (1, demo_image) (1, demo_image) 64 64 () = Inr ((a, px), w') \<and>
    length px = 4096"
  using images_combined [OF demo_pool, of 1 1 demo_image 64 64 demo_image "()"] by (auto simp: demo_image_def)

section \<open>Partitions and boot\<close>

text \<open>
  C16: the search for the partitions is memory safe exactly when the handles of hard drives
  come first among the handles of file systems; in any other order it writes behind the end
  of the array of partitions.
\<close>
theorem partitions_found_iff:
  assumes "pool_ok fw" and "LocateHandleBuffer_SimpleFileSystem fw w = (EFI_SUCCESS, hs, w0)"
    and "length hs < 2 ^ 60"
  shows "if harddrives_first fw hs then \<exists>a w'. LocateFSPartitions fw w = Inr (EFI_SUCCESS,
      Some (a, map (partition_of fw) (filter (has_harddrive fw) hs)), word_of_nat (count_harddrives fw hs), w') \<and> a \<noteq> 0
    else LocateFSPartitions fw w = Inl OutOfBounds"
  using LocateFSPartitions_safe_iff [OF assms] by simp

theorem partitions_found_iff_witness:
  "\<exists>a w'. LocateFSPartitions demo_fw () = Inr (EFI_SUCCESS, Some (a, [partition_of demo_fw 7]), 1, w')"
proof -
  have "filter (has_harddrive demo_fw) [7, 9] = [7]" "count_harddrives demo_fw [7, 9] = 1"
    by (simp_all add: count_harddrives_def has_harddrive_def path_nodes_def is_harddrive_def
      demo_fw_def demo_paths_def MEDIA_DEVICE_PATH_def MEDIA_HARDDRIVE_DP_def)
  then show ?thesis
    using partitions_found_iff [OF demo_pool demo_services(3), of "()"] demo_handles by auto
qed



section \<open>The boot manager of the three-dimensional game\<close>

text \<open>An arithmetic for the witnesses: integers in the place of \<open>double\<close>.\<close>

definition int_fp :: "int fp" where
  "int_fp = \<lparr>fadd = (+), fsub = (-), fmul = (*), fdiv = (div), flt = (<), feq = (=), fint = id,
     fdec = \<lambda>a b. a div b, fcast = word_of_int, ffloor = id, fsin = \<lambda>_. 0, fcos = \<lambda>_. 1\<rparr>"

text \<open>
  C18: the drawing of floor and ceiling is memory safe for every behaviour of the floating
  point unit, rounding, infinities and conversions included, and for every position and
  direction of the camera: it needs two textures of 64 by 64 pixels and a screen of the size
  the code allocates, and keeps both.
\<close>
theorem floor_memory_safe:
  assumes "frame_ok Textures a screen"
  shows "\<exists>screen'. loopE (floor_row F Textures cam) [0..<ImageHeight] screen = Inr screen' \<and>
    frame_ok Textures a screen'"
  by (rule draw_floor_ok [OF assms])

theorem floor_memory_safe_witness:
  "\<exists>screen'. loopE (floor_row int_fp (demo_textures 4096) (start_camera int_fp)) [0..<ImageHeight]
      (1, replicate 614400 zero_pixel) = Inr screen' \<and> frame_ok (demo_textures 4096) 1 screen'"
proof -
  have "fst (demo_textures 4096) \<noteq> 0 \<and> 2 \<le> length (snd (demo_textures 4096)) \<and>
      (\<forall>t \<in> set (snd (demo_textures 4096)). fst t \<noteq> 0 \<and> length (snd t) = 4096)"
    by (simp add: demo_textures_def)
  then show ?thesis by (intro floor_memory_safe) (simp add: frame_ok_def)
qed

text \<open>
  C19: in a maze whose border cells are walls, a ray that starts at an inner cell ends: it
  takes no more steps than there are cells ahead of it in its two directions, stays inside
  the maze, and the cell it returns is a wall. This holds for every arithmetic, since the
  choice of the direction of a step is the only thing the distances decide.
\<close>
theorem ray_ends_at_a_wall:
  assumes "walled Map W H" and "stepX = 1 \<or> stepX = -1" and "stepY = 1 \<or> stepY = -1"
    and "inside W H (mapX r) (mapY r)"
    and "0 < mapX r" and "0 < mapY r" and "nat (mapX r) + 1 < unat W" and "nat (mapY r) + 1 < unat H"
    and "ahead (unat W) stepX (mapX r) + ahead (unat H) stepY (mapY r) \<le> fuel"
  shows "\<exists>r'. cast_ray fuel F Map W dx dy stepX stepY r = Inr r' \<and> inside W H (mapX r') (mapY r') \<and>
    0 < snd Map ! (nat (mapY r') * unat W + nat (mapX r')) \<and> side r' \<le> 1"
  by (rule cast_ray_hits [OF assms])

theorem ray_ends_at_a_wall_witness:
  "\<exists>r'. cast_ray 4 int_fp (1, [1, 1, 1, 1, 0, 1, 1, 1, 1]) 3 2 5 1 (-1)
      \<lparr>sideDistX = 1, sideDistY = 0, mapX = 1, mapY = 1, side = 0\<rparr> = Inr r' \<and> side r' \<le> 1"
proof -
  let ?m = "[1, 1, 1, 1, 0, 1, 1, 1, 1] :: int list"
  have "0 < ?m ! (nat y * 3 + nat x)" if "inside 3 3 x y" "\<not> (x = 1 \<and> y = 1)" for x y
  proof -
    from that(1) have "x \<in> {0, 1, 2}" "y \<in> {0, 1, 2}" by (auto simp: inside_def)
    with that(2) show ?thesis by auto
  qed
  then have "walled (1, ?m) 3 3"
    by (fastforce simp: walled_def maze_map_def)
  from ray_ends_at_a_wall [OF this, of 1 "-1" "\<lparr>sideDistX = 1, sideDistY = 0, mapX = 1, mapY = 1, side = 0\<rparr>" 4 int_fp 2 5]
  show ?thesis by (auto simp: inside_def ahead_def)
qed

text \<open>
  The three-dimensional game places the boot entries in the maze in the same way, with
  textures of 64 by 64 pixels that show the icon behind the texture of the wall.
\<close>
theorem entries_placed_3D:
  assumes "pool_ok fw" and "maze_map (a, m) W H" and "12 \<le> card (escape_places bs m)"
    and "unat n \<le> 12" and "unat bs + 12 < 2 ^ 60" and "textures_ok 4096 (b, txs) bs"
    and "c \<noteq> 0" and "length es = unat n" and "length imgs = unat n"
    and "\<forall>i < unat n. icon_image fw fsh (es ! i) (imgs ! i)"
  shows "\<exists>m' cs b' ts n' w'.
    PlaceBootEntries3D fw fsh (a, m) W H (b, txs) bs (c, es) n w = Inr ((a, m'), (b', txs @ ts), n', w') \<and>
    placed bs m m' cs \<and> length cs = unat n \<and> unat n' = unat bs + unat n \<and> length ts = unat n \<and>
    (\<forall>j < unat n. icon_full (imgs ! j) (snd (txs ! nat (m ! (cs ! j)))) (ts ! j))"
  using textures3D.places [OF assms, of w] unfolding PlaceBootEntries3D_def by blast

theorem entries_placed_3D_witness:
  "\<exists>m' cs b' ts n' w'.
    PlaceBootEntries3D demo_fw 7 (1, concat demo_rows) 2 18 (1, replicate 11 (1, replicate 4096 zero_pixel)) 11
      (1, [entry_of (demo_config ! 0)]) 1 () = Inr ((1, m'), (b', replicate 11 (1, replicate 4096 zero_pixel) @ ts), n', w') \<and>
    placed 11 (concat demo_rows) m' cs \<and> length cs = 1 \<and> unat n' = 12 \<and> length ts = 1"
proof -
  note placing = entries_placed_3D [OF demo_pool demo_maze demo_escapes, where n = 1 and c = 1 and w = "()"
      and es = "[entry_of (demo_config ! 0)]" and imgs = "[demo_image]" and fsh = 7 and b = 1
      and txs = "replicate 11 (1, replicate 4096 zero_pixel)"]
  show ?thesis
    using placing demo_textures_ok [of 4096] demo_icon [of 7] by (auto simp: less_Suc_eq)
qed

end
