(* ===== verification/App_Files.thy ===== *)
theory App_Files
  imports Uefi
begin

text \<open>
  The firmware as the two small games (\<open>Application/Wordle\<close>, \<open>Application/Maze\<close>) use it, and the
  function \<open>ReadFile\<close> that both files define with the same text. The games print the status of
  each call and go on whatever it is. An out-parameter that a failing call leaves alone is
  \<^const>\<open>None\<close>; using it is a fault. \<open>AllocatePool\<close> returns the address it stores and the bytes of the block.
\<close>

type_synonym load_option = "u64 \<times> u16 list" \<comment> \<open>the option and its description\<close>

type_synonym key_event = "EFI_STATUS \<times> u16 \<times> u16" \<comment> \<open>status of \<open>ReadKeyStroke\<close>, then \<open>ScanCode\<close> and \<open>UnicodeChar\<close> of \<open>Key\<close>\<close>

record 'w app =
  app_Print :: "string \<Rightarrow> parg list \<Rightarrow> 'w \<Rightarrow> 'w"
  app_LocateHandleBuffer :: "'w \<Rightarrow> EFI_STATUS \<times> EFI_HANDLE list option \<times> 'w"
  app_HandleProtocol :: "EFI_HANDLE \<Rightarrow> 'w \<Rightarrow> EFI_STATUS \<times> u64 option \<times> 'w"
  app_OpenVolume :: "u64 \<Rightarrow> 'w \<Rightarrow> EFI_STATUS \<times> u64 option \<times> 'w"
  app_Open :: "u64 \<Rightarrow> u16 list \<Rightarrow> 'w \<Rightarrow> EFI_STATUS \<times> u64 option \<times> 'w"
  app_SetPosition :: "u64 \<Rightarrow> u64 \<Rightarrow> 'w \<Rightarrow> EFI_STATUS \<times> 'w"
  app_InfoSize :: "u64 \<Rightarrow> 'w \<Rightarrow> EFI_STATUS \<times> u64 \<times> 'w"
  app_GetInfo :: "u64 \<Rightarrow> u64 \<Rightarrow> u64 \<Rightarrow> 'w \<Rightarrow> EFI_STATUS \<times> u64 option \<times> 'w"
  app_AllocatePool :: "u64 \<Rightarrow> 'w \<Rightarrow> EFI_STATUS \<times> u8 buf option \<times> 'w"
  app_FreePool :: "u64 \<Rightarrow> 'w \<Rightarrow> EFI_STATUS \<times> 'w"
  app_Read :: "u64 \<Rightarrow> u64 \<Rightarrow> 'w \<Rightarrow> EFI_STATUS \<times> u8 list \<times> 'w"
  app_Close :: "u64 \<Rightarrow> 'w \<Rightarrow> EFI_STATUS \<times> 'w"
  app_PrintBuffer :: "u16 list \<Rightarrow> 'w \<Rightarrow> 'w" \<comment> \<open>\<open>Print\<close> with a buffer as its format\<close>
  app_OutputString :: "u16 list \<Rightarrow> 'w \<Rightarrow> 'w"
  app_LocateRng :: "'w \<Rightarrow> EFI_STATUS \<times> 'w"
  app_LocateGraphics :: "'w \<Rightarrow> EFI_STATUS \<times> (u32 \<times> u32) option \<times> 'w"
  app_Blt :: "blt_args \<Rightarrow> 'w \<Rightarrow> 'w"
  app_GetLoadOptions :: "'w \<Rightarrow> load_option list \<times> 'w"
  app_Boot :: "load_option \<Rightarrow> 'w \<Rightarrow> 'w"

text \<open>A call through a protocol pointer or an access to \<open>*p\<close>.\<close>

definition deref :: "u64 \<Rightarrow> u64 result" where
  "deref p = (if p = 0 then Inl NullPointer else Inr p)"

definition stored :: "u64 option \<Rightarrow> u64" where
  "stored p = (case p of None \<Rightarrow> 0 | Some a \<Rightarrow> a)"

definition zero_bytes :: "u8 buf \<Rightarrow> u64 \<Rightarrow> u8 buf result" where
  "zero_bytes b n = loopE (\<lambda>i b. wrb b i 0) [0..<unat n] b"

text \<open>\<open>Read\<close> stores the bytes it returns at the start of the buffer.\<close>

definition store_read :: "u8 buf \<Rightarrow> u8 list \<Rightarrow> u8 buf result" where
  "store_read b bs = (if bs = [] then Inr b else if fst b = 0 then Inl NullPointer else
     if length bs \<le> length (snd b) then Inr (fst b, bs @ drop (length bs) (snd b)) else Inl OutOfBounds)"

definition app_file_size :: "('w, 'x) app_scheme \<Rightarrow> u64 \<Rightarrow> 'w \<Rightarrow> (u64 \<times> 'w) result" where
  "app_file_size A WordsFile w =
     (let (Status, buffSize, w) = app_InfoSize A WordsFile w;
          w = app_Print A ''Get fileinfo buffer size: %d\<newline>'' [PNum Status] w;
          (Status, p, w) = app_AllocatePool A buffSize w;
          fileInfo = stored (map_option fst p);
          w = app_Print A ''Allocate fileinfo buffer: %d\<newline>'' [PNum Status] w;
          (Status, FileSize, w) = app_GetInfo A WordsFile buffSize fileInfo w;
          w = app_Print A ''Get file info: %d\<newline>'' [PNum Status] w
      in bindE (deref fileInfo) (\<lambda>fileInfo.
         bindE (use FileSize) (\<lambda>size.
         let w = app_Print A ''File size: %d\<newline>'' [PNum size] w;
             (Status, w) = app_FreePool A fileInfo w
         in Inr (size, w))))"

definition app_read_all :: "('w, 'x) app_scheme \<Rightarrow> u64 \<Rightarrow> u64 \<Rightarrow> 'w \<Rightarrow> (u8 buf \<times> u64 \<times> 'w) result" where
  "app_read_all A WordsFile FileSize w =
     (let (Status, word_list, w) = app_AllocatePool A FileSize w;
          w = app_Print A ''Memory allocation: %d\<newline>'' [PNum Status] w
      in bindE (use word_list) (\<lambda>word_list.
         bindE (zero_bytes word_list FileSize) (\<lambda>word_list.
         let (Status, w) = app_SetPosition A WordsFile 0 w;
             w = app_Print A ''Reset file position: %d\<newline>'' [PNum Status] w;
             (Status, bs, w) = app_Read A WordsFile FileSize w
         in bindE (store_read word_list bs) (\<lambda>word_list.
         let size = word_of_nat (length bs);
             w = app_Print A ''Read file: %d\<newline>'' [PNum Status] w;
             (Status, w) = app_Close A WordsFile w;
             w = app_Print A ''Close file: %d\<newline>'' [PNum Status] w
         in bindE (wrb word_list (unat (size - 1)) 0) (\<lambda>word_list. Inr (word_list, size, w))))))"

definition AppReadFile :: "('w, 'x) app_scheme \<Rightarrow> u16 list \<Rightarrow> 'w \<Rightarrow> (EFI_STATUS \<times> u8 buf \<times> u64 \<times> 'w) result" where
  "AppReadFile A filename w =
     (let (Status, handles, w) = app_LocateHandleBuffer A w;
          w = app_Print A ''Find handles: %d\<newline>'' [PNum Status] w
      in bindE (use handles) (\<lambda>handles.
         let w = app_Print A ''Number of handles: %d\<newline>'' [PNum (word_of_nat (length handles))] w
         in bindE (rd handles 1) (\<lambda>handle.
         let (Status, fs, w) = app_HandleProtocol A handle w;
             w = app_Print A ''Locate FS: %d\<newline>'' [PNum Status] w
         in bindE (use fs) (\<lambda>fs. bindE (deref fs) (\<lambda>fs.
         let (Status, Root, w) = app_OpenVolume A fs w;
             w = app_Print A ''Locate Root: %d\<newline>'' [PNum Status] w
         in bindE (deref (stored Root)) (\<lambda>Root.
         let (Status, WordsFile, w) = app_Open A Root filename w;
             w = app_Print A ''Locate file: %d\<newline>'' [PNum Status] w
         in bindE (deref (stored WordsFile)) (\<lambda>WordsFile.
         let (Status, w) = app_SetPosition A WordsFile 0 w;
             w = app_Print A ''Reset file position: %d\<newline>'' [PNum Status] w
         in bindE (app_file_size A WordsFile w) (\<lambda>(size, w).
         bindE (app_read_all A WordsFile size w) (\<lambda>(word_list, size, w).
         let (Status, w) = app_Close A Root w;
             w = app_Print A ''Close root: %d\<newline>'' [PNum Status] w
         in Inr (Status, word_list, size, w))))))))))"

section \<open>Reading a file\<close>

text \<open>
  Documented behaviour of the firmware on a machine with at least two volumes whose second one
  holds \<open>files\<close>: the protocols are found, memory is available, and a read of a file from its
  start returns its bytes.
\<close>

definition app_pool_ok :: "('w, 'x) app_scheme \<Rightarrow> bool" where
  "app_pool_ok A \<longleftrightarrow> (\<forall>n w. \<exists>st a c w'. app_AllocatePool A n w = (st, Some (a, c), w') \<and> a \<noteq> 0 \<and> length c = unat n)"

definition app_volume_ok :: "('w, 'x) app_scheme \<Rightarrow> bool" where
  "app_volume_ok A \<longleftrightarrow>
     (\<forall>w. \<exists>st hs w'. app_LocateHandleBuffer A w = (st, Some hs, w') \<and> 2 \<le> length hs) \<and>
     (\<forall>h w. \<exists>st p w'. app_HandleProtocol A h w = (st, Some p, w') \<and> p \<noteq> 0) \<and>
     (\<forall>p w. \<exists>st r w'. app_OpenVolume A p w = (st, Some r, w') \<and> r \<noteq> 0)"

definition app_serves :: "('w, 'x) app_scheme \<Rightarrow> u16 list \<Rightarrow> u8 list \<Rightarrow> bool" where
  "app_serves A name bs \<longleftrightarrow>
     (\<forall>r w. \<exists>st f w'. app_Open A r name w = (st, Some f, w') \<and> f \<noteq> 0 \<and>
        (\<forall>n a w. \<exists>st w'. app_GetInfo A f n a w = (st, Some (word_of_nat (length bs)), w')) \<and>
        (\<forall>w. fst (snd (app_Read A f (word_of_nat (length bs)) (app_Print A ''Reset file position: %d\<newline>''
                [PNum (fst (app_SetPosition A f 0 w))] (snd (app_SetPosition A f 0 w))))) = bs))"

lemma zero_bytes_ok:
  assumes "a \<noteq> 0" and "length c = unat n"
  shows "zero_bytes (a, c) n = Inr (a, replicate (unat n) 0)"
proof -
  have "\<exists>b. loopE (\<lambda>i b. wrb b i 0) [0..<unat n] (a, c) = Inr b \<and> fst b = a \<and> length (snd b) = unat n \<and> take (unat n) (snd b) = replicate (unat n) 0"
  proof (rule loopE_upt_total [where P = "\<lambda>i b. fst b = a \<and> length (snd b) = unat n \<and> take i (snd b) = replicate i 0"])
    fix i b assume "i < unat n" and "fst b = a \<and> length (snd b) = unat n \<and> take i (snd b) = replicate i (0 :: u8)"
    with assms(1) show "\<exists>s'. wrb b i 0 = Inr s' \<and> fst s' = a \<and> length (snd s') = unat n \<and> take (Suc i) (snd s') = replicate (Suc i) 0"
      by (cases b) (auto simp: take_Suc_conv_app_nth replicate_append_same)
  qed (use assms in simp_all)
  then show ?thesis by (auto simp: zero_bytes_def)
qed

lemma app_file_size_ok:
  assumes "app_pool_ok A" and "\<forall>n a w. \<exists>st w'. app_GetInfo A f n a w = (st, Some sz, w')"
  shows "\<exists>w'. app_file_size A f w = Inr (sz, w')"
proof -
  obtain st n w1 where 1: "app_InfoSize A f w = (st, n, w1)" by (metis prod_cases3)
  obtain st2 a c w2 where 2: "app_AllocatePool A n (app_Print A ''Get fileinfo buffer size: %d\<newline>'' [PNum st] w1) = (st2, Some (a, c), w2)" "a \<noteq> 0"
    using assms(1) by (metis app_pool_ok_def)
  obtain st3 w3 where 3: "app_GetInfo A f n a (app_Print A ''Allocate fileinfo buffer: %d\<newline>'' [PNum st2] w2) = (st3, Some sz, w3)"
    using assms(2) by blast
  show ?thesis using 1 2 3 by (simp add: app_file_size_def stored_def deref_def split_def)
qed

lemma app_read_all_ok:
  assumes "app_pool_ok A" and "bs \<noteq> []" and "length bs < 2 ^ 64"
    and "\<forall>w. fst (snd (app_Read A f (word_of_nat (length bs)) (app_Print A ''Reset file position: %d\<newline>''
                [PNum (fst (app_SetPosition A f 0 w))] (snd (app_SetPosition A f 0 w))))) = bs"
  shows "\<exists>a w'. app_read_all A f (word_of_nat (length bs)) w = Inr ((a, bs[length bs - 1 := 0]), word_of_nat (length bs), w') \<and> a \<noteq> 0"
proof -
  let ?n = "word_of_nat (length bs) :: u64"
  obtain st a c w1 where 1: "app_AllocatePool A ?n w = (st, Some (a, c), w1)" "a \<noteq> 0" "length c = length bs"
    using assms(1,3) by (metis app_pool_ok_def unat_u64_of_nat)
  have z: "zero_bytes (a, c) ?n = Inr (a, replicate (length bs) 0)" using zero_bytes_ok [of a c ?n] 1 assms(3) by simp
  have "?n - 1 = word_of_nat (length bs - 1)" using assms(2) by (simp add: of_nat_diff Suc_leI)
  moreover have "length bs - 1 < 2 ^ 64" using assms(3) by linarith
  ultimately have n1: "unat (?n - 1) = length bs - 1" by simp
  have r: "fst (snd (app_Read A f ?n (app_Print A ''Reset file position: %d\<newline>''
                [PNum (fst (app_SetPosition A f 0 w))] (snd (app_SetPosition A f 0 w))))) = bs" for w
    using assms(4) by blast
  show ?thesis using 1 z assms(2) n1
    by (simp add: app_read_all_def split_def store_read_def r Let_def)
qed

lemma AppReadFile_ok:
  assumes "app_pool_ok A" and "app_volume_ok A" and "app_serves A name bs" and "bs \<noteq> []" and "length bs < 2 ^ 64"
  shows "\<exists>st a w'. AppReadFile A name w = Inr (st, (a, bs[length bs - 1 := 0]), word_of_nat (length bs), w') \<and> a \<noteq> 0"
proof -
  obtain st1 hs w1 where 1: "app_LocateHandleBuffer A w = (st1, Some hs, w1)" "2 \<le> length hs"
    using assms(2) unfolding app_volume_ok_def by blast
  let ?w1 = "app_Print A ''Number of handles: %d\<newline>'' [PNum (word_of_nat (length hs))] (app_Print A ''Find handles: %d\<newline>'' [PNum st1] w1)"
  obtain st2 p w2 where 2: "app_HandleProtocol A (hs ! 1) ?w1 = (st2, Some p, w2)" "p \<noteq> 0"
    using assms(2) unfolding app_volume_ok_def by blast
  obtain st3 r w3 where 3: "app_OpenVolume A p (app_Print A ''Locate FS: %d\<newline>'' [PNum st2] w2) = (st3, Some r, w3)" "r \<noteq> 0"
    using assms(2) unfolding app_volume_ok_def by blast
  obtain st4 f w4 where 4: "app_Open A r name (app_Print A ''Locate Root: %d\<newline>'' [PNum st3] w3) = (st4, Some f, w4)" "f \<noteq> 0"
      "\<forall>n a w. \<exists>st w'. app_GetInfo A f n a w = (st, Some (word_of_nat (length bs)), w')"
      "\<forall>w. fst (snd (app_Read A f (word_of_nat (length bs)) (app_Print A ''Reset file position: %d\<newline>''
                [PNum (fst (app_SetPosition A f 0 w))] (snd (app_SetPosition A f 0 w))))) = bs"
    using assms(3) unfolding app_serves_def by blast
  let ?w4 = "snd (app_SetPosition A f 0 (app_Print A ''Locate file: %d\<newline>'' [PNum st4] w4))"
  let ?st4 = "fst (app_SetPosition A f 0 (app_Print A ''Locate file: %d\<newline>'' [PNum st4] w4))"
  obtain w5 where 5: "app_file_size A f (app_Print A ''Reset file position: %d\<newline>'' [PNum ?st4] ?w4) = Inr (word_of_nat (length bs), w5)"
    using app_file_size_ok [OF assms(1) 4(3)] by blast
  obtain a w6 where 6: "app_read_all A f (word_of_nat (length bs)) w5 = Inr ((a, bs[length bs - 1 := 0]), word_of_nat (length bs), w6)" "a \<noteq> 0"
    using app_read_all_ok [OF assms(1,4,5) 4(4)] by blast
  show ?thesis using 1 2 3 4(1,2) 5 6
    by (simp add: AppReadFile_def deref_def stored_def split_def Let_def)
qed

end
