(* ===== verification/Wordle.thy ===== *)
theory Wordle
  imports App_Files
begin

text \<open>
  \<open>Application/Wordle/Wordle.c\<close>: a word of a file is to be guessed in six moves of five keys
  each; the player who finds it boots the fourth load option. The keys are a list of events, a
  game that needs more of them is \<open>Blocked\<close>.
\<close>

section \<open>The program\<close>

definition GetRandom :: "('w, 'x) app_scheme \<Rightarrow> 'w \<Rightarrow> EFI_STATUS \<times> u16 \<times> 'w" where
  "GetRandom A w =
     (let (Status, w) = app_LocateRng A w;
          w = app_Print A ''Locate rng protocol: %d\<newline>'' [PNum Status] w
      in (0, 10, w))"

text \<open>The bytes of the file read as an array of \<open>CHAR16\<close>.\<close>

definition rd16 :: "u8 buf \<Rightarrow> nat \<Rightarrow> u16 result" where
  "rd16 b i = (if fst b = 0 then Inl NullPointer else bindE (le_field (snd b) (2 * i) 2) (\<lambda>v. Inr (word_of_nat v)))"

definition choose_word :: "u8 buf \<Rightarrow> u16 \<Rightarrow> u16 list result" where
  "choose_word word_list word_idx =
     loopE (\<lambda>i word. bindE (rd16 word_list (6 * unat word_idx + i + 1)) (\<lambda>c. wr word i c)) [0..<5] (replicate 6 0)"

definition read_guess ::
  "('w, 'x) app_scheme \<Rightarrow> key_event list \<Rightarrow> EFI_STATUS \<Rightarrow> 'w \<Rightarrow> (u16 list \<times> key_event list \<times> EFI_STATUS \<times> 'w) result" where
  "read_guess A keys Status w =
     loopE (\<lambda>input_idx (input_word, keys, Status, w).
       case keys of
         [] \<Rightarrow> Inl Blocked
       | (Status, ScanCode, UnicodeChar) # keys \<Rightarrow>
           bindE (wr input_word input_idx UnicodeChar) (\<lambda>input_word.
           let w = app_OutputString A (takeWhile (\<lambda>c. c \<noteq> 0) (drop input_idx input_word)) w
           in Inr (input_word, keys, Status, w))) [0..<5] (replicate 6 0, keys, Status, w)"

fun occurs_in :: "u16 list \<Rightarrow> u16 \<Rightarrow> nat list \<Rightarrow> bool result" where
  "occurs_in word c [] = Inr False"
| "occurs_in word c (idx_2 # is) =
     bindE (rd word idx_2) (\<lambda>d. if c = d then Inr True else occurs_in word c is)"

definition char_plus :: u16 where "char_plus = 43"
definition char_quest :: u16 where "char_quest = 63"
definition char_under :: u16 where "char_under = 95"

definition reply_step :: "u16 list \<Rightarrow> u16 list \<Rightarrow> nat \<Rightarrow> u16 list \<times> u64 \<Rightarrow> (u16 list \<times> u64) result" where
  "reply_step word input_word idx = (\<lambda>(reply, pluses).
     bindE (rd input_word idx) (\<lambda>c.
     bindE (rd word idx) (\<lambda>d.
     if c = d then bindE (wr reply idx char_plus) (\<lambda>reply. Inr (reply, pluses + 1))
     else bindE (occurs_in word c [0..<5]) (\<lambda>found.
       if found then bindE (wr reply idx char_quest) (\<lambda>reply. Inr (reply, pluses)) else Inr (reply, pluses)))))"

definition make_reply :: "u16 list \<Rightarrow> u16 list \<Rightarrow> (u16 list \<times> u64) result" where
  "make_reply word input_word = loopE (reply_step word input_word) [0..<5] (replicate 5 char_under @ [0], 0)"

text \<open>The moves; the flag of the result tells whether the loop was left by \<open>break\<close>.\<close>

fun wordle_moves ::
  "('w, 'x) app_scheme \<Rightarrow> u16 list \<Rightarrow> nat list \<Rightarrow> key_event list \<Rightarrow> EFI_STATUS \<Rightarrow> 'w \<Rightarrow> (bool \<times> EFI_STATUS \<times> 'w) result" where
  "wordle_moves A word [] keys Status w = Inr (False, Status, w)"
| "wordle_moves A word (move # moves) keys Status w =
     bindE (read_guess A keys Status w) (\<lambda>(input_word, keys, Status, w).
     let w = app_Print A ''\<newline>'' [] w in
     bindE (make_reply word input_word) (\<lambda>(reply, pluses).
     let w = app_PrintBuffer A (takeWhile (\<lambda>c. c \<noteq> 0) reply) w;
         w = app_Print A ''\<newline>'' [] w
     in if pluses = 5 then
          (let (BootOption, w) = app_GetLoadOptions A w
           in bindE (rd BootOption 3) (\<lambda>opt. Inr (True, Status, app_Boot A opt w)))
        else wordle_moves A word moves keys Status w))"

definition WordleMain :: "('w, 'x) app_scheme \<Rightarrow> key_event list \<Rightarrow> 'w \<Rightarrow> (EFI_STATUS \<times> 'w) result" where
  "WordleMain A keys w =
     bindE (AppReadFile A (wide ''words.txt'') w) (\<lambda>(Status, word_list, file_length, w).
     let w = app_Print A ''File size: %d\<newline>'' [PNum file_length] w;
         (Status, word_idx, w) = GetRandom A w
     in bindE (choose_word word_list word_idx) (\<lambda>word.
     let w = app_PrintBuffer A (takeWhile (\<lambda>c. c \<noteq> 0) word) w;
         w = app_Print A ''\<newline>'' [] w
     in bindE (wordle_moves A word [0..<6] keys Status w) (\<lambda>(won, Status, w).
     let w = app_Print A ''Game ended'' [] w;
         (_, w) = app_FreePool A (fst word_list) w
     in Inr (Status, w))))"

section \<open>The reply\<close>

text \<open>What a player is told about the letter at position \<open>i\<close> of a guess.\<close>

definition mark :: "u16 list \<Rightarrow> u16 list \<Rightarrow> nat \<Rightarrow> u16" where
  "mark word guess i =
     (if guess ! i = word ! i then char_plus else if guess ! i \<in> set word then char_quest else char_under)"

lemma occurs_in_iff:
  assumes "\<forall>i \<in> set is. i < length word"
  shows "occurs_in word c is = Inr (\<exists>i \<in> set is. c = word ! i)"
  using assms by (induction "is") auto

lemma occurs_in_word: "length word = 5 \<Longrightarrow> occurs_in (word @ [0]) c [0..<5] = Inr (c \<in> set word)"
  by (subst occurs_in_iff) (auto simp: in_set_conv_nth nth_append)

definition pluses_upto :: "u16 list \<Rightarrow> u16 list \<Rightarrow> nat \<Rightarrow> nat" where
  "pluses_upto word guess k = card {i. i < k \<and> guess ! i = word ! i}"

lemma pluses_upto_Suc: "pluses_upto word guess (Suc k) = pluses_upto word guess k + (if guess ! k = word ! k then 1 else 0)"
proof -
  have "{i. i < Suc k \<and> guess ! i = word ! i} = {i. i < k \<and> guess ! i = word ! i} \<union> (if guess ! k = word ! k then {k} else {})"
    by (auto simp: less_Suc_eq)
  then show ?thesis by (simp add: pluses_upto_def)
qed

lemma make_reply_marks:
  assumes "length word = 5" and "length guess = 5"
  shows "make_reply (word @ [0]) (guess @ [0]) =
    Inr (map (mark word guess) [0..<5] @ [0], word_of_nat (pluses_upto word guess 5))"
proof -
  let ?P = "\<lambda>k (r, p). r = map (mark word guess) [0..<k] @ replicate (5 - k) char_under @ [0] \<and> p = (word_of_nat (pluses_upto word guess k) :: u64)"
  have "\<exists>s'. loopE (reply_step (word @ [0]) (guess @ [0])) [0..<5] (replicate 5 char_under @ [0], 0) = Inr s' \<and> ?P 5 s'"
  proof (rule loopE_upt_total [where P = ?P])
    show "?P 0 (replicate 5 char_under @ [0], 0)" by (simp add: pluses_upto_def)
    fix i and s :: "u16 list \<times> u64" assume i: "i < 5" and P: "?P i s"
    then obtain r p where s: "s = (r, p)" "r = map (mark word guess) [0..<i] @ replicate (5 - i) char_under @ [0]"
        "p = word_of_nat (pluses_upto word guess i)" by (cases s) auto
    have r5: "replicate (5 - i) char_under = char_under # replicate (5 - Suc i) char_under" using i by (simp add: Suc_diff_Suc flip: replicate_Suc)
    have upd: "r[i := x] = map (mark word guess) [0..<i] @ x # replicate (5 - Suc i) char_under @ [0]" for x
      by (simp add: s(2) r5 list_update_append)
    have same: "r = r[i := char_under]" by (subst upd) (simp only: s(2) r5 append_Cons)
    have len: "i < length r" using i by (simp add: s(2))
    show "\<exists>s'. reply_step (word @ [0]) (guess @ [0]) i s = Inr s' \<and> ?P (Suc i) s'"
    proof (cases "guess ! i = word ! i")
      case True
      with i assms len show ?thesis
        by (simp add: reply_step_def s(1) nth_append upd mark_def pluses_upto_Suc) (simp add: s(3))
    next
      case False
      show ?thesis
      proof (cases "guess ! i \<in> set word")
        case True
        with False i assms len show ?thesis
          by (simp add: reply_step_def s(1) nth_append occurs_in_word upd mark_def pluses_upto_Suc s(3))
      next
        case no: False
        then have "reply_step (word @ [0]) (guess @ [0]) i s = Inr (r[i := char_under], p)"
          using False i assms same by (simp add: reply_step_def s(1) nth_append occurs_in_word)
        then show ?thesis using False no by (simp add: upd mark_def pluses_upto_Suc s(3))
      qed
    qed
  qed simp
  then show ?thesis by (auto simp: make_reply_def)
qed

lemma pluses_le: "pluses_upto word guess k \<le> k"
  by (induction k) (auto simp: pluses_upto_Suc, simp add: pluses_upto_def)

lemma pluses_all: "pluses_upto word guess k = k \<longleftrightarrow> (\<forall>i < k. guess ! i = word ! i)"
proof (induction k)
  case 0
  then show ?case by (simp add: pluses_upto_def)
next
  case (Suc k)
  then show ?case using pluses_le [of word guess k] by (auto simp: pluses_upto_Suc less_Suc_eq)
qed

lemma five_pluses:
  assumes "length word = 5" and "length guess = 5"
  shows "(word_of_nat (pluses_upto word guess 5) :: u64) = 5 \<longleftrightarrow> guess = word"
proof -
  have "pluses_upto word guess 5 < 2 ^ 64" using pluses_le [of word guess 5] by simp
  then have "(word_of_nat (pluses_upto word guess 5) :: u64) = 5 \<longleftrightarrow> pluses_upto word guess 5 = 5"
    by (simp add: word_unat_eq_iff)
  also have "\<dots> \<longleftrightarrow> guess = word" using assms by (auto simp: pluses_all intro: nth_equalityI)
  finally show ?thesis .
qed

section \<open>The game\<close>

text \<open>Keys that type a guess.\<close>

definition typed :: "key_event list \<Rightarrow> u16 list \<Rightarrow> bool" where
  "typed ks guess \<longleftrightarrow> map (\<lambda>(_, _, c). c) ks = guess"

lemma read_guess_ok:
  fixes A :: "('w, 'x) app_scheme"
  assumes "typed ks guess" and "length guess = 5"
  shows "\<exists>w'. read_guess A (ks @ rest) st w = Inr (guess @ [0], rest, fst (last ks), w')"
proof -
  have len: "length ks = 5" using assms by (auto simp: typed_def)
  let ?P = "\<lambda>i (inp, keys, st', w'). inp = take i guess @ replicate (6 - i) 0 \<and> keys = drop i ks @ rest \<and> (i > 0 \<longrightarrow> st' = fst (ks ! (i - 1)))"
  have "\<exists>s'. read_guess A (ks @ rest) st w = Inr s' \<and> ?P 5 s'"
    unfolding read_guess_def
  proof (rule loopE_upt_total [where P = ?P])
    fix i and s :: "u16 list \<times> key_event list \<times> EFI_STATUS \<times> 'w" assume i: "i < 5" and P: "?P i s"
    obtain inp keys st' w' where s: "s = (inp, keys, st', w')" by (cases s)
    obtain st1 sc ch where k: "ks ! i = (st1, sc, ch)" by (cases "ks ! i")
    have d: "drop i ks = (st1, sc, ch) # drop (Suc i) ks" using i len k by (metis Cons_nth_drop_Suc)
    have g: "guess ! i = ch" using assms(1) i len k by (auto simp: typed_def)
    have r: "replicate (6 - i) (0 :: u16) = 0 # replicate (6 - Suc i) 0" using i by (simp add: Suc_diff_Suc flip: replicate_Suc)
    have "inp[i := ch] = take (Suc i) guess @ replicate (6 - Suc i) 0"
      using P s i assms(2) g r by (simp add: list_update_append take_Suc_conv_app_nth)
    moreover have "i < length inp" using P s i assms(2) by simp
    ultimately show "\<exists>s'. (case s of (input_word, keys, Status, w) \<Rightarrow>
       (case keys of [] \<Rightarrow> Inl Blocked | (Status, ScanCode, UnicodeChar) # keys \<Rightarrow>
           bindE (wr input_word i UnicodeChar) (\<lambda>input_word.
           let w = app_OutputString A (takeWhile (\<lambda>c. c \<noteq> 0) (drop i input_word)) w
           in Inr (input_word, keys, Status, w)))) = Inr s' \<and> ?P (Suc i) s'"
      using P s d k by auto
  qed simp_all
  moreover have "last ks = ks ! 4" using len by (subst last_conv_nth) auto
  ultimately show ?thesis using assms(2) len by auto
qed

text \<open>
  A sequence of guesses: the loop ends with the boot of option 3 at the first one that is the
  word, and without it when none of the moves has found it.
\<close>

lemma wordle_moves_ok:
  assumes "length word = 5" and "list_all2 typed kss guesses" and "\<forall>g \<in> set guesses. length g = 5"
    and "length moves \<le> length guesses \<or> word \<in> set (take (length moves) guesses)"
    and "\<forall>w. 4 \<le> length (fst (app_GetLoadOptions A w))"
  shows "\<exists>st' w'. wordle_moves A (word @ [0]) moves (concat kss @ rest) st w = Inr (word \<in> set (take (length moves) guesses), st', w') \<and>
    (word \<in> set (take (length moves) guesses) \<longrightarrow> (\<exists>w1. w' = app_Boot A (fst (app_GetLoadOptions A w1) ! 3) (snd (app_GetLoadOptions A w1))))"
  using assms
proof (induction moves arbitrary: guesses kss st w)
  case Nil
  then show ?case by simp
next
  case (Cons m moves)
  then obtain g gs where g: "guesses = g # gs" by (cases guesses) auto
  with Cons.prems(2) obtain ks ks' where k: "kss = ks # ks'" "typed ks g" "list_all2 typed ks' gs"
    by (auto simp: list_all2_Cons2)
  have lg: "length g = 5" using Cons.prems(3) g by simp
  obtain w1 where rg: "read_guess A (ks @ concat ks' @ rest) st w = Inr (g @ [0], concat ks' @ rest, fst (last ks), w1)"
    using read_guess_ok [OF k(2) lg, of A "concat ks' @ rest" st w] by auto
  note mr = make_reply_marks [OF Cons.prems(1) lg]
  show ?case
  proof (cases "g = word")
    case True
    let ?w2 = "app_Print A ''\<newline>'' [] (app_PrintBuffer A (takeWhile (\<lambda>c. c \<noteq> 0) (map (mark word g) [0..<5] @ [0])) (app_Print A ''\<newline>'' [] w1))"
    have "3 < length (fst (app_GetLoadOptions A ?w2))" using spec [OF Cons.prems(5), of ?w2] by linarith
    then have "wordle_moves A (word @ [0]) (m # moves) (concat kss @ rest) st w =
        Inr (True, fst (last ks), app_Boot A (fst (app_GetLoadOptions A ?w2) ! 3) (snd (app_GetLoadOptions A ?w2)))"
      using k(1) rg mr five_pluses [OF Cons.prems(1) lg] True
      by (simp add: split_def Let_def del: upt_rec_numeral)
    with True g show ?thesis by auto
  next
    case False
    have "\<exists>st' w'. wordle_moves A (word @ [0]) moves (concat ks' @ rest) st0 w0 = Inr (word \<in> set (take (length moves) gs), st', w') \<and>
      (word \<in> set (take (length moves) gs) \<longrightarrow> (\<exists>w1. w' = app_Boot A (fst (app_GetLoadOptions A w1) ! 3) (snd (app_GetLoadOptions A w1))))" for st0 w0
      by (rule Cons.IH [OF Cons.prems(1) k(3)]) (use Cons.prems(3,4,5) g False in auto)
    then show ?thesis using False g k(1) rg mr five_pluses [OF Cons.prems(1) lg]
      by (simp add: Let_def del: upt_rec_numeral)
  qed
qed

section \<open>The file of words\<close>

text \<open>Word number 10 of a file of UTF-16 characters: a byte order mark, then six characters a word.\<close>

definition word_at :: "u8 list \<Rightarrow> nat \<Rightarrow> u16 list" where
  "word_at bs k = map (\<lambda>i. word_of_nat (le_bytes (take 2 (drop (2 * (6 * k + i + 1)) bs)))) [0..<5]"

lemma choose_word_ok:
  assumes "a \<noteq> 0" and "2 * (6 * unat k + 6) \<le> length bs"
  shows "choose_word (a, bs) k = Inr (word_at bs (unat k) @ [0])"
proof -
  let ?c = "\<lambda>i. word_of_nat (le_bytes (take 2 (drop (2 * (6 * unat k + i + 1)) bs))) :: u16"
  let ?P = "\<lambda>i word. word = map ?c [0..<i] @ replicate (6 - i) 0"
  have "\<exists>word. choose_word (a, bs) k = Inr word \<and> ?P 5 word"
    unfolding choose_word_def
  proof (rule loopE_upt_total [where P = ?P])
    fix i and word :: "u16 list" assume i: "i < 5" and P: "?P i word"
    have r: "replicate (6 - i) (0 :: u16) = 0 # replicate (6 - Suc i) 0" using i by (simp add: Suc_diff_Suc flip: replicate_Suc)
    have "rd16 (a, bs) (6 * unat k + i + 1) = Inr (?c i)" using assms i by (simp add: rd16_def le_field_def)
    moreover have "i < length word" using P i by simp
    moreover have "word[i := ?c i] = map ?c [0..<Suc i] @ replicate (6 - Suc i) 0" using P r by (simp add: list_update_append)
    ultimately show "\<exists>s'. bindE (rd16 (a, bs) (6 * unat k + i + 1)) (\<lambda>c. wr word i c) = Inr s' \<and> ?P (Suc i) s'" by simp
  qed simp_all
  then show ?thesis by (auto simp: word_at_def)
qed

lemma WordleMain_ok:
  assumes "app_pool_ok A" and "app_volume_ok A" and "app_serves A (wide ''words.txt'') bs" and "133 \<le> length bs" and "length bs < 2 ^ 64"
    and "\<forall>w. 4 \<le> length (fst (app_GetLoadOptions A w))"
    and "list_all2 typed kss guesses" and "\<forall>g \<in> set guesses. length g = 5"
    and "6 \<le> length guesses \<or> word_at bs 10 \<in> set (take 6 guesses)"
  shows "\<exists>st a w1. WordleMain A (concat kss) w = Inr (st, snd (app_FreePool A a (app_Print A ''Game ended'' [] w1))) \<and>
    (word_at bs 10 \<in> set (take 6 guesses) \<longrightarrow>
      (\<exists>w0. w1 = app_Boot A (fst (app_GetLoadOptions A w0) ! 3) (snd (app_GetLoadOptions A w0))))"
proof -
  obtain st a w1 where 1: "AppReadFile A (wide ''words.txt'') w = Inr (st, (a, bs[length bs - 1 := 0]), word_of_nat (length bs), w1)" "a \<noteq> 0"
    using AppReadFile_ok [OF assms(1-3) _ assms(5)] assms(4) by fastforce
  let ?bs = "bs[length bs - 1 := 0]" and ?w = "word_at bs 10"
  have "take 2 (drop (2 * (6 * 10 + i + 1)) ?bs) = take 2 (drop (2 * (6 * 10 + i + 1)) bs)" if "i < 5" for i
    by (rule nth_equalityI) (use that assms(4) in auto)
  then have wd: "word_at ?bs 10 = ?w" by (simp add: word_at_def)
  have ch: "choose_word (a, ?bs) 10 = Inr (?w @ [0])"
    using choose_word_ok [OF 1(2), of 10 ?bs] assms(4) wd by simp
  have len: "length ?w = 5" by (simp add: word_at_def)
  obtain w2 where w2: "GetRandom A (app_Print A ''File size: %d\<newline>'' [PNum (word_of_nat (length bs))] w1) = (0, 10, w2)"
    by (simp add: GetRandom_def split_def Let_def)
  let ?w3 = "app_Print A ''\<newline>'' [] (app_PrintBuffer A (takeWhile (\<lambda>c. c \<noteq> 0) (?w @ [0])) w2)"
  obtain st' w4 where mv: "wordle_moves A (?w @ [0]) [0..<6] (concat kss) 0 ?w3 = Inr (?w \<in> set (take 6 guesses), st', w4)"
    "?w \<in> set (take 6 guesses) \<longrightarrow> (\<exists>w0. w4 = app_Boot A (fst (app_GetLoadOptions A w0) ! 3) (snd (app_GetLoadOptions A w0)))"
    using wordle_moves_ok [OF len assms(7,8) _ assms(6), of "[0..<6]" "[]" 0 ?w3] assms(9)
    by (metis (no_types, lifting) append_Nil2 diff_zero length_upt)
  have "WordleMain A (concat kss) w = Inr (st', snd (app_FreePool A a (app_Print A ''Game ended'' [] w4)))"
    using 1 ch w2 mv(1) by (simp add: WordleMain_def split_def Let_def del: upt_rec_numeral)
  with mv(2) show ?thesis by blast
qed

end
