(* ===== verification/Maze.thy ===== *)
theory Maze
  imports App_Files Table_Loops
begin

text \<open>
  \<open>Application/Maze/Maze.c\<close>: the first maze game. A labyrinth of characters is drawn, the player
  walks from \<open>o\<close> to \<open>x\<close>, and the fourth load option is booted there. The \<open>INTN\<close> variables of the
  program are natural numbers here: they start at 0, every decrement is guarded by a test for 0,
  and the margins are not negative because \<open>cell_side * maze.height \<le> height\<close>.
\<close>

section \<open>The program\<close>

datatype MAZE_CELL_TYPE = EMPTY | WALL | START | END | UNKNOWN

record MAZE =
  maze_width :: nat
  maze_height :: nat
  mazeCells :: "u64 \<times> MAZE_CELL_TYPE option list" \<comment> \<open>\<^const>\<open>None\<close>: never stored\<close>

definition newline_char :: u8 where "newline_char = 10"

text \<open>The loop that counts up to the first line break.\<close>

fun line_width :: "u8 list \<Rightarrow> nat result" where
  "line_width [] = Inl OutOfBounds"
| "line_width (c # cs) = (if c \<noteq> newline_char then bindE (line_width cs) (\<lambda>n. Inr (n + 1)) else Inr 0)"

definition maze_cell :: "u8 \<Rightarrow> MAZE_CELL_TYPE" where
  "maze_cell c = (if c = ascii CHR ''#'' then WALL else if c = ascii CHR ''.'' then EMPTY
     else if c = ascii CHR ''o'' then START else if c = ascii CHR ''x'' then END else UNKNOWN)"

definition ParseMazeFile :: "('w, 'x) app_scheme \<Rightarrow> u8 buf \<Rightarrow> u64 \<Rightarrow> 'w \<Rightarrow> (MAZE \<times> 'w) result" where
  "ParseMazeFile A mdata dataSize w =
     (if fst mdata = 0 then Inl NullPointer else
      bindE (line_width (snd mdata)) (\<lambda>wd.
      let ht = unat dataSize div (wd + 1);
          (_, p, w) = app_AllocatePool A (word_of_nat wd * word_of_nat ht * 4) w
      in bindE (use p) (\<lambda>(a, bytes).
      bindE (loopE (\<lambda>i. loopE (\<lambda>j cells.
          bindE (rdb mdata (i * (wd + 1) + j)) (\<lambda>c. wrb cells (i * wd + j) (Some (maze_cell c)))) [0..<wd]) [0..<ht]
          (a, replicate (length bytes div 4) None)) (\<lambda>cells.
      Inr (\<lparr>maze_width = wd, maze_height = ht, mazeCells = cells\<rparr>, w)))))"

text \<open>The colour of a character of the sprite file; \<open>Some None\<close> leaves the pixel as it is, \<^const>\<open>None\<close> ends the function.\<close>

definition actor_color :: "u8 \<Rightarrow> (u8 \<times> u8 \<times> u8) option option" where
  "actor_color c =
     (if c = ascii CHR ''k'' then Some (Some (0, 0, 0))
      else if c = ascii CHR ''b'' then Some (Some (47, 54, 153))
      else if c = ascii CHR ''l'' then Some (Some (77, 109, 243))
      else if c = ascii CHR ''y'' then Some (Some (255, 242, 0))
      else if c = ascii CHR ''g'' then Some (Some (255, 194, 14))
      else if c = ascii CHR ''r'' then Some (Some (180, 180, 180))
      else if c = ascii CHR ''w'' then Some (Some (255, 255, 255))
      else if c = ascii CHR ''p'' then Some (Some (255, 205, 148))
      else if c = ascii CHR ''s'' then Some (Some (255, 224, 189))
      else if c = ascii CHR ''n'' then Some (Some (156, 90, 60))
      else if c = ascii CHR ''d'' then Some (Some (107, 37, 7))
      else if c = ascii CHR ''.'' then Some None
      else None)"

text \<open>The three assignments \<open>pixels[i].Red = r; pixels[i].Green = g; pixels[i].Blue = b\<close>.\<close>

definition set_rgb :: "pixel buf \<Rightarrow> nat \<Rightarrow> u8 \<times> u8 \<times> u8 \<Rightarrow> pixel buf result" where
  "set_rgb px i = (\<lambda>(r, g, b). bindE (rdb px i) (\<lambda>p. wrb px i (p\<lparr>Red := r, Green := g, Blue := b\<rparr>)))"

definition actor_step :: "u8 buf \<Rightarrow> nat \<Rightarrow> nat \<Rightarrow> nat \<Rightarrow> nat \<Rightarrow> bool \<times> pixel buf \<Rightarrow> (bool \<times> pixel buf) result" where
  "actor_step spriteData wd box_side i j = (\<lambda>(returned, px).
     if returned then Inr (returned, px) else
     bindE (rdb spriteData (j * (wd + 1) + i)) (\<lambda>c.
     case actor_color c of
       None \<Rightarrow> Inr (True, px)
     | Some None \<Rightarrow> Inr (False, px)
     | Some (Some rgb) \<Rightarrow> bindE (set_rgb px (j * box_side + i) rgb) (\<lambda>px. Inr (False, px))))"

definition ParseActor :: "('w, 'x) app_scheme \<Rightarrow> u16 list \<Rightarrow> pixel buf \<Rightarrow> nat \<Rightarrow> 'w \<Rightarrow> (pixel buf \<times> 'w) result" where
  "ParseActor A filename pixels box_side w =
     bindE (AppReadFile A filename w) (\<lambda>(_, spriteData, sizeOfSprite, w).
     if fst spriteData = 0 then Inl NullPointer else
     bindE (line_width (snd spriteData)) (\<lambda>wd.
     let ht = unat sizeOfSprite div (wd + 1)
     in bindE (loopE (\<lambda>i. loopE (actor_step spriteData wd box_side i) [0..<ht]) [0..<wd] (False, pixels)) (\<lambda>(_, px).
     Inr (px, w))))"

text \<open>A pool block as an array of pixels.\<close>

fun pixels_of :: "u8 list \<Rightarrow> pixel list" where
  "pixels_of (b # g # r # x # bs) = \<lparr>Blue = b, Green = g, Red = r, Reserved = x\<rparr> # pixels_of bs"
| "pixels_of bs = []"

definition AllocatePixels :: "('w, 'x) app_scheme \<Rightarrow> u64 \<Rightarrow> 'w \<Rightarrow> EFI_STATUS \<times> pixel buf option \<times> 'w" where
  "AllocatePixels A n w = (case app_AllocatePool A n w of (st, p, w) \<Rightarrow> (st, map_option (map_prod id pixels_of) p, w))"

definition clear_pixels :: "nat \<Rightarrow> pixel buf \<Rightarrow> pixel buf result" where
  "clear_pixels n px = loopE (\<lambda>i px. set_rgb px i (0, 0, 0)) [0..<n] px"

text \<open>The sizes of the picture: side of a cell, margins and offset of the first pixel.\<close>

record layout =
  cell_side :: nat
  height_margin :: nat
  width_margin :: nat
  pixel_offset :: nat

definition make_layout :: "u16 \<Rightarrow> u16 \<Rightarrow> MAZE \<Rightarrow> layout result" where
  "make_layout width height maze =
     (if maze_width maze = 0 \<or> maze_height maze = 0 then Inl DivideByZero else
      let cell_width = unat width div maze_width maze;
          cell_height = unat height div maze_height maze;
          side = (if cell_width < cell_height then cell_width else cell_height);
          hm = (unat height - side * maze_height maze) div 2;
          wm = (unat width - side * maze_width maze) div 2
      in Inr \<lparr>cell_side = side, height_margin = hm, width_margin = wm, pixel_offset = hm * unat width + wm\<rparr>)"

record places =
  posX :: nat
  posY :: nat
  endX :: nat
  endY :: nat

definition cell_at :: "MAZE \<Rightarrow> nat \<Rightarrow> MAZE_CELL_TYPE result" where
  "cell_at maze i = bindE (rdb (mazeCells maze) i) use"

definition draw_maze_pixel ::
  "u16 \<Rightarrow> MAZE \<Rightarrow> layout \<Rightarrow> nat \<Rightarrow> nat \<Rightarrow> nat \<Rightarrow> nat \<Rightarrow> pixel buf \<times> places \<Rightarrow> (pixel buf \<times> places) result" where
  "draw_maze_pixel width maze L i j a b = (\<lambda>(px, pl).
     bindE (cell_at maze (i * maze_width maze + j)) (\<lambda>c.
     let idx = pixel_offset L + unat width * (cell_side L * i + a) + cell_side L * j + b
     in case c of
          START \<Rightarrow> let pl = pl\<lparr>posX := j, posY := i\<rparr> in bindE (set_rgb px idx (0, 0, 0)) (\<lambda>px. Inr (px, pl))
        | EMPTY \<Rightarrow> bindE (set_rgb px idx (0, 0, 0)) (\<lambda>px. Inr (px, pl))
        | WALL \<Rightarrow> bindE (set_rgb px idx (112, 157, 100)) (\<lambda>px. Inr (px, pl))
        | END \<Rightarrow> let pl = pl\<lparr>endX := j, endY := i\<rparr> in bindE (set_rgb px idx (77, 109, 243)) (\<lambda>px. Inr (px, pl))
        | UNKNOWN \<Rightarrow> bindE (set_rgb px idx (255, 0, 0)) (\<lambda>px. Inr (px, pl))))"

definition draw_labyrinth :: "u16 \<Rightarrow> MAZE \<Rightarrow> layout \<Rightarrow> pixel buf \<Rightarrow> (pixel buf \<times> places) result" where
  "draw_labyrinth width maze L px =
     loopE (\<lambda>i. loopE (\<lambda>j. loopE (\<lambda>a. loopE (draw_maze_pixel width maze L i j a)
       [0..<cell_side L]) [0..<cell_side L]) [0..<maze_width maze]) [0..<maze_height maze]
       (px, \<lparr>posX = 0, posY = 0, endX = 0, endY = 0\<rparr>)"

definition SCAN_UP :: u16 where "SCAN_UP = 1"
definition SCAN_DOWN :: u16 where "SCAN_DOWN = 2"
definition SCAN_RIGHT :: u16 where "SCAN_RIGHT = 3"
definition SCAN_LEFT :: u16 where "SCAN_LEFT = 4"
definition SCAN_ESC :: u16 where "SCAN_ESC = 0x17"

text \<open>The \<open>switch\<close> on a key: \<^const>\<open>None\<close> is \<open>continue\<close>, otherwise the new position and \<open>escaped\<close>.\<close>

definition maze_key :: "MAZE \<Rightarrow> u16 \<Rightarrow> nat \<Rightarrow> nat \<Rightarrow> (nat \<times> nat \<times> bool) option result" where
  "maze_key maze ScanCode X Y =
     (if ScanCode = SCAN_UP then
        (if Y = 0 then Inr None else
         bindE (cell_at maze ((Y - 1) * maze_width maze + X)) (\<lambda>c.
         if c = WALL then Inr None else Inr (Some (X, Y - 1, False))))
      else if ScanCode = SCAN_DOWN then
        (if Y = maze_height maze then Inr None else
         bindE (cell_at maze ((Y + 1) * maze_width maze + X)) (\<lambda>c.
         if c = WALL then Inr None else Inr (Some (X, Y + 1, False))))
      else if ScanCode = SCAN_LEFT then
        (if X = 0 then Inr None else
         bindE (cell_at maze (Y * maze_width maze + X - 1)) (\<lambda>c.
         if c = WALL then Inr None else Inr (Some (X - 1, Y, False))))
      else if ScanCode = SCAN_RIGHT then
        (if X = maze_width maze then Inr None else
         bindE (cell_at maze (Y * maze_width maze + X + 1)) (\<lambda>c.
         if c = WALL then Inr None else Inr (Some (X + 1, Y, False))))
      else if ScanCode = SCAN_ESC then Inr (Some (X, Y, True))
      else Inr (Some (X, Y, False)))"

definition blt_cell_at :: "layout \<Rightarrow> pixel buf \<Rightarrow> nat \<Rightarrow> nat \<Rightarrow> blt_args" where
  "blt_cell_at L buf X Y =
     \<lparr>blt_buffer = buf, blt_op = EfiBltBufferToVideo, blt_src = (0, 0),
      blt_dst = (word_of_nat (X * cell_side L + width_margin L), word_of_nat (Y * cell_side L + height_margin L)),
      blt_size = (word_of_nat (cell_side L), word_of_nat (cell_side L)), blt_delta = word_of_nat (cell_side L) * 4\<rparr>"

text \<open>The loop on the keys; the result tells \<open>escaped\<close> and the last status.\<close>

fun maze_loop ::
  "('w, 'x) app_scheme \<Rightarrow> MAZE \<Rightarrow> layout \<Rightarrow> pixel buf \<Rightarrow> pixel buf \<Rightarrow> nat \<Rightarrow> nat \<Rightarrow> key_event list \<Rightarrow> nat \<Rightarrow> nat \<Rightarrow> 'w
    \<Rightarrow> (bool \<times> EFI_STATUS \<times> 'w) result" where
  "maze_loop A maze L emptyCell actor eX eY [] X Y w = Inl Blocked"
| "maze_loop A maze L emptyCell actor eX eY ((Status, ScanCode, UnicodeChar) # keys) X Y w =
     bindE (maze_key maze ScanCode X Y) (\<lambda>r.
     case r of
       None \<Rightarrow> maze_loop A maze L emptyCell actor eX eY keys X Y w
     | Some (newX, newY, escaped) \<Rightarrow>
         let w = app_Blt A (blt_cell_at L emptyCell X Y) w;
             w = app_Blt A (blt_cell_at L actor newX newY) w
         in if newX = eX \<and> newY = eY then Inr (escaped, Status, w)
            else if escaped then Inr (True, Status, w)
            else maze_loop A maze L emptyCell actor eX eY keys newX newY w)"

definition list_options :: "('w, 'x) app_scheme \<Rightarrow> load_option list \<Rightarrow> 'w \<Rightarrow> 'w" where
  "list_options A opts w =
     fold (\<lambda>i w. app_Print A ''Boot entry #%d: %s\<newline>'' [PNum (word_of_nat i), PStr (Some (snd (opts ! i)))] w) [0..<length opts] w"

definition boot_fourth :: "('w, 'x) app_scheme \<Rightarrow> 'w \<Rightarrow> 'w result" where
  "boot_fourth A w =
     (let (BootOption, w) = app_GetLoadOptions A w;
          w = app_Print A ''Boot options: %d\<newline>'' [PNum (word_of_nat (length BootOption))] w;
          w = list_options A BootOption w
      in bindE (rd BootOption 3) (\<lambda>opt. Inr (app_Boot A opt w)))"

definition full_screen :: "blt_operation \<Rightarrow> pixel buf \<Rightarrow> u16 \<Rightarrow> u16 \<Rightarrow> blt_args" where
  "full_screen op buf width height =
     \<lparr>blt_buffer = buf, blt_op = op, blt_src = (0, 0), blt_dst = (0, 0),
      blt_size = (ucast width, ucast height), blt_delta = ucast width * 4\<rparr>"

definition play_maze ::
  "('w, 'x) app_scheme \<Rightarrow> u16 \<Rightarrow> u16 \<Rightarrow> MAZE \<Rightarrow> pixel buf \<Rightarrow> key_event list \<Rightarrow> 'w \<Rightarrow> (bool \<times> EFI_STATUS \<times> pixel buf \<times> pixel buf \<times> pixel buf \<times> 'w) result" where
  "play_maze A width height maze pixels keys w =
     bindE (make_layout width height maze) (\<lambda>L.
     bindE (draw_labyrinth width maze L pixels) (\<lambda>(pixels, pl).
     let cell_bytes = 4 * word_of_nat (cell_side L) * word_of_nat (cell_side L);
         (_, emptyCell, w) = AllocatePixels A cell_bytes w;
         (_, actor, w) = AllocatePixels A cell_bytes w
     in bindE (use emptyCell) (\<lambda>emptyCell. bindE (use actor) (\<lambda>actor.
     bindE (clear_pixels (cell_side L * cell_side L) emptyCell) (\<lambda>emptyCell.
     bindE (clear_pixels (cell_side L * cell_side L) actor) (\<lambda>actor.
     bindE (ParseActor A (wide ''sprite.txt'') actor (cell_side L) w) (\<lambda>(actor, w).
     let w = app_Blt A (full_screen EfiBltBufferToVideo pixels width height) w;
         w = app_Blt A (blt_cell_at L actor (posX pl) (posY pl)) w
     in bindE (maze_loop A maze L emptyCell actor (endX pl) (endY pl) keys (posX pl) (posY pl) w) (\<lambda>(escaped, Status, w).
     let w = app_Blt A (full_screen EfiBltVideoFill emptyCell width height) w
     in Inr (escaped, Status, pixels, emptyCell, actor, w)))))))))"

definition MazeMain :: "('w, 'x) app_scheme \<Rightarrow> key_event list \<Rightarrow> 'w \<Rightarrow> (EFI_STATUS \<times> 'w) result" where
  "MazeMain A keys w =
     (let (Status, mode, w) = app_LocateGraphics A w;
          w = app_Print A ''Locate graphics protocol: %d\<newline>'' [PNum Status] w
      in bindE (use mode) (\<lambda>(hres, vres).
      let width = (ucast hres :: u16);
          height = (ucast vres :: u16);
          (Status, pixels, w) = AllocatePixels A (4 * ucast width * ucast height) w;
          w = app_Print A ''Allocate: %d\<newline>'' [PNum Status] w
      in if unat width * unat height \<ge> 2 ^ 31 then Inl SignedOverflow else
      bindE (use pixels) (\<lambda>pixels.
      bindE (clear_pixels (unat width * unat height) pixels) (\<lambda>pixels.
      bindE (AppReadFile A (wide ''labyrinth.txt'') w) (\<lambda>(_, mazeData, mazeLen, w).
      bindE (ParseMazeFile A mazeData mazeLen w) (\<lambda>(maze, w).
      bindE (play_maze A width height maze pixels keys w) (\<lambda>(escaped, Status, pixels, emptyCell, actor, w).
      let w = snd (app_FreePool A (fst pixels) w);
          w = snd (app_FreePool A (fst emptyCell) w);
          w = snd (app_FreePool A (fst actor) w);
          w = snd (app_FreePool A (fst mazeData) w);
          w = snd (app_FreePool A (fst (mazeCells maze)) w)
      in if \<not> escaped then bindE (boot_fourth A w) (\<lambda>w. Inr (Status, w)) else Inr (Status, w))))))))"

section \<open>Reading the labyrinth\<close>

text \<open>The maze in memory is the grid \<open>g\<close> (row, column).\<close>

definition maze_is :: "MAZE \<Rightarrow> nat \<Rightarrow> nat \<Rightarrow> (nat \<Rightarrow> nat \<Rightarrow> MAZE_CELL_TYPE) \<Rightarrow> bool" where
  "maze_is maze wd ht g \<longleftrightarrow> maze_width maze = wd \<and> maze_height maze = ht \<and> fst (mazeCells maze) \<noteq> 0 \<and>
     length (snd (mazeCells maze)) = wd * ht \<and> (\<forall>i < ht. \<forall>j < wd. snd (mazeCells maze) ! (i * wd + j) = Some (g i j))"

lemma line_width_first:
  "newline_char \<in> set bs \<Longrightarrow> line_width bs = Inr (length (takeWhile (\<lambda>c. c \<noteq> newline_char) bs))"
  by (induction bs) auto

lemma cell_at_is:
  assumes "maze_is maze wd ht g" and "i < ht" and "j < wd"
  shows "cell_at maze (i * wd + j) = Inr (g i j)"
  using assms row_major_less [OF assms(3,2)] by (cases "mazeCells maze") (auto simp: maze_is_def cell_at_def)

lemma ParseMazeFile_ok:
  assumes "app_pool_ok A" and "a \<noteq> 0" and "newline_char \<in> set bs" and "length bs < 2 ^ 61"
    and wd: "wd = length (takeWhile (\<lambda>c. c \<noteq> newline_char) bs)" and ht: "ht = length bs div (wd + 1)"
  shows "\<exists>maze w'. ParseMazeFile A (a, bs) (word_of_nat (length bs)) w = Inr (maze, w') \<and>
    maze_is maze wd ht (\<lambda>i j. maze_cell (bs ! (i * (wd + 1) + j)))"
proof -
  have le: "ht * (wd + 1) \<le> length bs" unfolding ht by (rule div_times_less_eq_dividend)
  have "wd * ht \<le> ht * (wd + 1)" by simp
  with le assms(4) have "wd * ht < 2 ^ 61" by linarith
  then have "4 * (wd * ht) < 2 ^ 64" by (simp add: mult.commute)
  moreover have "(word_of_nat wd * word_of_nat ht * 4 :: u64) = word_of_nat (4 * (wd * ht))" by simp
  ultimately have n: "unat (word_of_nat wd * word_of_nat ht * 4 :: u64) = 4 * (wd * ht)" by (simp only: unat_u64_of_nat)
  obtain st c cb w1 where al: "app_AllocatePool A (word_of_nat wd * word_of_nat ht * 4) w = (st, Some (c, cb), w1)" "c \<noteq> 0" "length cb = 4 * (wd * ht)"
    using assms(1) n by (metis app_pool_ok_def)
  let ?v = "\<lambda>i j. maze_cell (bs ! (i * (wd + 1) + j))"
  let ?step = "\<lambda>i j cells. bindE (rdb (a, bs) (i * (wd + 1) + j)) (\<lambda>c. wrb cells (i * wd + j) (Some (maze_cell c)))"
  have "\<exists>r'. loopE (\<lambda>i. loopE (\<lambda>j. ?step i j) [0..<wd]) [0..<ht] (c, replicate (wd * ht) None) = Inr (c, r') \<and>
      length r' = wd * ht \<and> (\<forall>i < ht. \<forall>j < wd. r' ! (i * wd + j) = Some (?v i j))"
  proof (rule table_loop)
    fix i j and r :: "MAZE_CELL_TYPE option list" assume ij: "i < ht" "j < wd" "length r = wd * ht"
    have "i * (wd + 1) + j < (wd + 1) * ht" using ij by (intro row_major_less) simp_all
    then have "i * (wd + 1) + j < length bs" using le by (simp add: mult.commute)
    moreover have "i * wd + j < length r" using ij row_major_less [OF ij(2,1)] by simp
    ultimately show "?step i j (c, r) = Inr (c, r[i * wd + j := Some (?v i j)])" using assms(2) al(2) by simp
  qed simp
  moreover have "unat (word_of_nat (length bs) :: u64) = length bs" using assms(4) by simp
  ultimately show ?thesis
    using assms(2) al line_width_first [OF assms(3)] wd ht
    by (auto simp: ParseMazeFile_def maze_is_def Let_def)
qed

section \<open>Drawing\<close>

definition layout_ok :: "u16 \<Rightarrow> u16 \<Rightarrow> nat \<Rightarrow> nat \<Rightarrow> layout \<Rightarrow> bool" where
  "layout_ok width height wd ht L \<longleftrightarrow> height_margin L + cell_side L * ht \<le> unat height \<and>
     width_margin L + cell_side L * wd \<le> unat width \<and> pixel_offset L = height_margin L * unat width + width_margin L"

lemma make_layout_ok:
  assumes "maze_width maze = wd" and "maze_height maze = ht" and "0 < wd" and "0 < ht"
  shows "\<exists>L. make_layout width height maze = Inr L \<and> layout_ok width height wd ht L \<and>
    cell_side L = min (unat width div wd) (unat height div ht)"
proof -
  let ?s = "min (unat width div wd) (unat height div ht)"
  have "?s * ht \<le> (unat height div ht) * ht" "?s * wd \<le> (unat width div wd) * wd" by (intro mult_le_mono1; simp)+
  then have "?s * ht \<le> unat height" "?s * wd \<le> unat width" by (meson order_trans div_times_less_eq_dividend)+
  then have m: "(unat height - ?s * ht) div 2 + ?s * ht \<le> unat height" "(unat width - ?s * wd) div 2 + ?s * wd \<le> unat width"
    by linarith+
  have "(if unat width div wd < unat height div ht then unat width div wd else unat height div ht) = ?s" by simp
  then have "make_layout width height maze = Inr \<lparr>cell_side = ?s, height_margin = (unat height - ?s * ht) div 2,
      width_margin = (unat width - ?s * wd) div 2,
      pixel_offset = (unat height - ?s * ht) div 2 * unat width + (unat width - ?s * wd) div 2\<rparr>"
    using assms unfolding make_layout_def Let_def by simp
  with m show ?thesis by (simp add: layout_ok_def)
qed

lemma pixel_index:
  assumes "layout_ok width height wd ht L" and "i < ht" and "j < wd" and "a < cell_side L" and "b < cell_side L"
  shows "pixel_offset L + unat width * (cell_side L * i + a) + cell_side L * j + b < unat width * unat height"
proof -
  let ?s = "cell_side L"
  have "?s * i + a < ?s * ht" using row_major_less [OF assms(4,2)] by (simp add: mult.commute)
  then have y: "height_margin L + ?s * i + a < unat height" using assms(1) by (simp add: layout_ok_def)
  have "?s * j + b < ?s * wd" using row_major_less [OF assms(5,3)] by (simp add: mult.commute)
  then have x: "width_margin L + ?s * j + b < unat width" using assms(1) by (simp add: layout_ok_def)
  have "pixel_offset L + unat width * (?s * i + a) + ?s * j + b =
      (height_margin L + ?s * i + a) * unat width + (width_margin L + ?s * j + b)"
    using assms(1) by (simp add: layout_ok_def algebra_simps)
  with row_major_less [OF x y] show ?thesis by simp
qed

text \<open>What one cell adds to the known places.\<close>

definition note_cell :: "(nat \<Rightarrow> nat \<Rightarrow> MAZE_CELL_TYPE) \<Rightarrow> nat \<Rightarrow> nat \<Rightarrow> places \<Rightarrow> places" where
  "note_cell g i j pl = (case g i j of START \<Rightarrow> pl\<lparr>posX := j, posY := i\<rparr> | END \<Rightarrow> pl\<lparr>endX := j, endY := i\<rparr> | _ \<Rightarrow> pl)"

lemma note_cell_twice [simp]: "note_cell g i j (note_cell g i j pl) = note_cell g i j pl"
  by (cases "g i j") (simp_all add: note_cell_def)

fun paint :: "MAZE_CELL_TYPE \<Rightarrow> u8 \<times> u8 \<times> u8" where
  "paint WALL = (112, 157, 100)"
| "paint END = (77, 109, 243)"
| "paint UNKNOWN = (255, 0, 0)"
| "paint _ = (0, 0, 0)"

lemma set_rgb_ok: "a \<noteq> 0 \<Longrightarrow> i < length px \<Longrightarrow> \<exists>px'. set_rgb (a, px) i c = Inr (a, px') \<and> length px' = length px"
  by (cases c) (simp add: set_rgb_def)

lemma draw_maze_pixel_ok:
  assumes "maze_is maze wd ht g" and "layout_ok width height wd ht L" and "i < ht" and "j < wd"
    and "x < cell_side L" and "y < cell_side L" and "a \<noteq> 0" and "length px = unat width * unat height"
  shows "\<exists>px'. draw_maze_pixel width maze L i j x y ((a, px), pl) = Inr ((a, px'), note_cell g i j pl) \<and> length px' = length px"
proof -
  have "\<exists>px'. set_rgb (a, px) (pixel_offset L + unat width * (cell_side L * i + x) + cell_side L * j + y) c = Inr (a, px') \<and> length px' = length px" for c
    using pixel_index [OF assms(2-6)] assms(7,8) by (intro set_rgb_ok) simp_all
  moreover have "cell_at maze (i * maze_width maze + j) = Inr (g i j)" "maze_width maze = wd"
    using cell_at_is [OF assms(1,3,4)] assms(1) by (simp_all add: maze_is_def)
  ultimately obtain px' where px': "set_rgb (a, px) (pixel_offset L + unat width * (cell_side L * i + x) + cell_side L * j + y) (paint (g i j)) = Inr (a, px')"
      "length px' = length px" and c: "cell_at maze (i * maze_width maze + j) = Inr (g i j)"
    by blast
  then show ?thesis by (cases "g i j") (simp_all add: draw_maze_pixel_def note_cell_def)
qed

definition drawn_cell :: "u64 \<Rightarrow> nat \<Rightarrow> places \<Rightarrow> pixel buf \<times> places \<Rightarrow> bool" where
  "drawn_cell a n pl s \<longleftrightarrow> (\<exists>px. s = ((a, px), pl) \<and> length px = n)"

lemma draw_cell_loops:
  assumes "maze_is maze wd ht g" and "layout_ok width height wd ht L" and "i < ht" and "j < wd"
    and "0 < cell_side L" and "a \<noteq> 0" and "drawn_cell a (unat width * unat height) pl s"
  shows "\<exists>s'. loopE (\<lambda>x. loopE (draw_maze_pixel width maze L i j x) [0..<cell_side L]) [0..<cell_side L] s = Inr s' \<and>
    drawn_cell a (unat width * unat height) (note_cell g i j pl) s'"
proof (rule loopE_upt_total [where P = "\<lambda>k. drawn_cell a (unat width * unat height) (if k = 0 then pl else note_cell g i j pl)", THEN exE])
  fix x s assume x: "x < cell_side L" and P: "drawn_cell a (unat width * unat height) (if x = 0 then pl else note_cell g i j pl) s"
  have "\<exists>s'. loopE (draw_maze_pixel width maze L i j x) [0..<cell_side L] s = Inr s' \<and>
      drawn_cell a (unat width * unat height) (if cell_side L = 0 \<and> x = 0 then pl else note_cell g i j pl) s'"
  proof (rule loopE_upt_total [where P = "\<lambda>k. drawn_cell a (unat width * unat height) (if k = 0 \<and> x = 0 then pl else note_cell g i j pl)"])
    show "drawn_cell a (unat width * unat height) (if 0 = (0::nat) \<and> x = 0 then pl else note_cell g i j pl) s" using P by simp
    fix y s assume y: "y < cell_side L" and "drawn_cell a (unat width * unat height) (if y = 0 \<and> x = 0 then pl else note_cell g i j pl) s"
    then obtain px where "s = ((a, px), if y = 0 \<and> x = 0 then pl else note_cell g i j pl)" "length px = unat width * unat height"
      by (auto simp: drawn_cell_def)
    with draw_maze_pixel_ok [OF assms(1-4) x y assms(6)]
    show "\<exists>s'. draw_maze_pixel width maze L i j x y s = Inr s' \<and>
        drawn_cell a (unat width * unat height) (if Suc y = 0 \<and> x = 0 then pl else note_cell g i j pl) s'"
      by (fastforce simp: drawn_cell_def)
  qed simp
  then show "\<exists>s'. loopE (draw_maze_pixel width maze L i j x) [0..<cell_side L] s = Inr s' \<and>
      drawn_cell a (unat width * unat height) (if Suc x = 0 then pl else note_cell g i j pl) s'"
    using assms(5) by simp
qed (use assms in auto)

lemma draw_labyrinth_ok:
  assumes "maze_is maze wd ht g" and "layout_ok width height wd ht L" and "0 < cell_side L" and "a \<noteq> 0"
    and "length px = unat width * unat height"
  shows "\<exists>px'. draw_labyrinth width maze L (a, px) = Inr ((a, px'),
      fold (\<lambda>i. fold (note_cell g i) [0..<wd]) [0..<ht] \<lparr>posX = 0, posY = 0, endX = 0, endY = 0\<rparr>) \<and>
    length px' = unat width * unat height"
proof -
  let ?n = "unat width * unat height" and ?pl0 = "\<lparr>posX = 0, posY = 0, endX = 0, endY = 0\<rparr>"
  have wh: "maze_width maze = wd" "maze_height maze = ht" using assms(1) by (simp_all add: maze_is_def)
  let ?cell = "\<lambda>i j. loopE (\<lambda>a. loopE (draw_maze_pixel width maze L i j a) [0..<cell_side L]) [0..<cell_side L]"
  have row: "\<exists>s'. loopE (?cell i) [0..<wd] s = Inr s' \<and> drawn_cell a ?n (fold (note_cell g i) [0..<wd] pl) s'"
    if i: "i < ht" and s: "drawn_cell a ?n pl s" for i s pl
  proof (rule loopE_upt_total [where P = "\<lambda>k. drawn_cell a ?n (fold (note_cell g i) [0..<k] pl)"])
    show "drawn_cell a ?n (fold (note_cell g i) [0..<0] pl) s" using s by simp
    fix j s assume "j < wd" and "drawn_cell a ?n (fold (note_cell g i) [0..<j] pl) s"
    from draw_cell_loops [OF assms(1,2) i this(1) assms(3,4) this(2)]
    show "\<exists>s'. ?cell i j s = Inr s' \<and> drawn_cell a ?n (fold (note_cell g i) [0..<Suc j] pl) s'" by simp
  qed simp
  have "\<exists>s'. loopE (\<lambda>i. loopE (?cell i) [0..<wd]) [0..<ht] ((a, px), ?pl0) = Inr s' \<and>
      drawn_cell a ?n (fold (\<lambda>i. fold (note_cell g i) [0..<wd]) [0..<ht] ?pl0) s'"
  proof (rule loopE_upt_total [where P = "\<lambda>k. drawn_cell a ?n (fold (\<lambda>i. fold (note_cell g i) [0..<wd]) [0..<k] ?pl0)"])
    show "drawn_cell a ?n (fold (\<lambda>i. fold (note_cell g i) [0..<wd]) [0..<0] ?pl0) ((a, px), ?pl0)"
      using assms(5) by (simp add: drawn_cell_def)
    fix i s assume "i < ht" and "drawn_cell a ?n (fold (\<lambda>i. fold (note_cell g i) [0..<wd]) [0..<i] ?pl0) s"
    from row [OF this]
    show "\<exists>s'. loopE (?cell i) [0..<wd] s = Inr s' \<and>
        drawn_cell a ?n (fold (\<lambda>i. fold (note_cell g i) [0..<wd]) [0..<Suc i] ?pl0) s'" by simp
  qed simp
  then show ?thesis by (auto simp: draw_labyrinth_def wh drawn_cell_def)
qed

text \<open>The places of the start and of the end that the drawing finds.\<close>

definition all_cells :: "nat \<Rightarrow> nat \<Rightarrow> (nat \<times> nat) list" where
  "all_cells wd ht = concat (map (\<lambda>i. map (Pair i) [0..<wd]) [0..<ht])"

definition found_places :: "(nat \<Rightarrow> nat \<Rightarrow> MAZE_CELL_TYPE) \<Rightarrow> nat \<Rightarrow> nat \<Rightarrow> places" where
  "found_places g wd ht = fold (\<lambda>(i, j). note_cell g i j) (all_cells wd ht) \<lparr>posX = 0, posY = 0, endX = 0, endY = 0\<rparr>"

lemma set_all_cells: "set (all_cells wd ht) = {(i, j). i < ht \<and> j < wd}"
  by (auto simp: all_cells_def)

lemma fold_all_cells:
  "fold (\<lambda>i. fold (note_cell g i) [0..<wd]) [0..<ht] pl = fold (\<lambda>(i, j). note_cell g i j) (all_cells wd ht) pl"
  by (induction ht arbitrary: pl) (simp_all add: all_cells_def fold_map comp_def)

lemma noted_start:
  assumes "\<exists>(i, j) \<in> set ps. g i j = START"
  shows "let pl' = fold (\<lambda>(i, j). note_cell g i j) ps pl in (posY pl', posX pl') \<in> set ps \<and> g (posY pl') (posX pl') = START"
  using assms
proof (induction ps rule: rev_induct)
  case (snoc p ps)
  obtain i j where p: "p = (i, j)" by (cases p)
  show ?case
  proof (cases "g i j = START")
    case False
    with snoc p show ?thesis by (cases "g i j") (auto simp: note_cell_def Let_def)
  qed (simp add: p note_cell_def)
qed simp

lemma noted_end:
  assumes "\<exists>(i, j) \<in> set ps. g i j = END"
  shows "let pl' = fold (\<lambda>(i, j). note_cell g i j) ps pl in (endY pl', endX pl') \<in> set ps \<and> g (endY pl') (endX pl') = END"
  using assms
proof (induction ps rule: rev_induct)
  case (snoc p ps)
  obtain i j where p: "p = (i, j)" by (cases p)
  show ?case
  proof (cases "g i j = END")
    case False
    with snoc p show ?thesis by (cases "g i j") (auto simp: note_cell_def Let_def)
  qed (simp add: p note_cell_def)
qed simp

section \<open>Walking\<close>

text \<open>A labyrinth with a wall all around.\<close>

definition walled :: "(nat \<Rightarrow> nat \<Rightarrow> MAZE_CELL_TYPE) \<Rightarrow> nat \<Rightarrow> nat \<Rightarrow> bool" where
  "walled g wd ht \<longleftrightarrow> (\<forall>i < ht. \<forall>j < wd. i = 0 \<or> j = 0 \<or> Suc i = ht \<or> Suc j = wd \<longrightarrow> g i j = WALL)"

fun free_cell :: "(nat \<Rightarrow> nat \<Rightarrow> MAZE_CELL_TYPE) \<Rightarrow> nat \<Rightarrow> nat \<Rightarrow> nat \<times> nat \<Rightarrow> bool" where
  "free_cell g wd ht (X, Y) \<longleftrightarrow> Y < ht \<and> X < wd \<and> g Y X \<noteq> WALL"

text \<open>A step between neighbouring cells that are not walls, and the cells that can be reached.\<close>

inductive maze_path :: "(nat \<Rightarrow> nat \<Rightarrow> MAZE_CELL_TYPE) \<Rightarrow> nat \<Rightarrow> nat \<Rightarrow> nat \<times> nat \<Rightarrow> nat \<times> nat \<Rightarrow> bool" for g wd ht where
  path_here: "free_cell g wd ht p \<Longrightarrow> maze_path g wd ht p p"
| path_step: "free_cell g wd ht (X, Y) \<Longrightarrow> maze_path g wd ht (X', Y') q \<Longrightarrow>
    (X = X' \<and> (Y = Suc Y' \<or> Y' = Suc Y)) \<or> (Y = Y' \<and> (X = Suc X' \<or> X' = Suc X)) \<Longrightarrow> maze_path g wd ht (X, Y) q"

lemma maze_path_free: "maze_path g wd ht p q \<Longrightarrow> free_cell g wd ht p \<and> free_cell g wd ht q"
  by (induction rule: maze_path.induct) auto

lemma inside_walls:
  assumes "walled g wd ht" and "free_cell g wd ht (X, Y)"
  shows "0 < X \<and> Suc X < wd \<and> 0 < Y \<and> Suc Y < ht"
  using assms unfolding walled_def by (metis Suc_lessI free_cell.simps gr0I)

lemma maze_key_ok:
  assumes m: "maze_is maze wd ht g" and "walled g wd ht" and f: "free_cell g wd ht (X, Y)"
  shows "\<exists>r. maze_key maze sc X Y = Inr r \<and>
    (\<forall>X' Y' e. r = Some (X', Y', e) \<longrightarrow> free_cell g wd ht (X', Y') \<and> (e \<longleftrightarrow> sc = SCAN_ESC) \<and>
      (X' = X \<and> Y' = Y \<or> (X = X' \<and> (Y = Suc Y' \<or> Y' = Suc Y)) \<or> (Y = Y' \<and> (X = Suc X' \<or> X' = Suc X)))) \<and>
    (sc = SCAN_ESC \<longrightarrow> r \<noteq> None)"
proof -
  note i = inside_walls [OF assms(2) f]
  have wh: "maze_width maze = wd" "maze_height maze = ht" using m by (simp_all add: maze_is_def)
  have left: "Y * wd + X - 1 = Y * wd + (X - 1)" and right: "Y * wd + X + 1 = Y * wd + (X + 1)" using i by simp_all
  have c: "cell_at maze ((Y - 1) * wd + X) = Inr (g (Y - 1) X)" "cell_at maze ((Y + 1) * wd + X) = Inr (g (Y + 1) X)"
    "cell_at maze (Y * wd + (X - 1)) = Inr (g Y (X - 1))" "cell_at maze (Y * wd + (X + 1)) = Inr (g Y (X + 1))"
    by (rule cell_at_is [OF m]; use i in linarith)+
  show ?thesis using i f unfolding maze_key_def wh left right c bindE_simps
    by (auto simp: SCAN_UP_def SCAN_DOWN_def SCAN_LEFT_def SCAN_RIGHT_def SCAN_ESC_def)
qed

text \<open>
  The tests against \<open>maze.height\<close> and \<open>maze.width\<close> stop one cell too late: from a free cell of the
  last row the key \<open>SCAN_DOWN\<close> reads beyond the end of the cells.
\<close>

lemma maze_key_bottom:
  assumes "maze_is maze wd ht g" and "X < wd" and "Suc Y = ht"
  shows "maze_key maze SCAN_DOWN X Y = Inl OutOfBounds"
proof -
  have "wd * ht \<le> ht * wd + X" by simp
  moreover have "maze_width maze = wd" "maze_height maze = ht" "length (snd (mazeCells maze)) = wd * ht" "fst (mazeCells maze) \<noteq> 0"
    using assms(1) by (auto simp: maze_is_def)
  ultimately show ?thesis using assms(3)
    by (auto simp: maze_key_def SCAN_UP_def SCAN_DOWN_def cell_at_def rdb_def rd_def)
qed

lemma maze_loop_ok:
  assumes m: "maze_is maze wd ht g" and "walled g wd ht" and "free_cell g wd ht (X, Y)"
  shows "(maze_loop A maze L em ac eX eY keys X Y w = Inl Blocked \<and> SCAN_ESC \<notin> (fst \<circ> snd) ` set keys) \<or>
    (\<exists>e st w'. maze_loop A maze L em ac eX eY keys X Y w = Inr (e, st, w') \<and> (\<not> e \<longrightarrow> maze_path g wd ht (X, Y) (eX, eY)))"
  using assms(3)
proof (induction keys arbitrary: X Y w)
  case Nil
  then show ?case by simp
next
  case (Cons k keys)
  obtain st sc ch where k: "k = (st, sc, ch)" by (cases k)
  obtain r where r: "maze_key maze sc X Y = Inr r"
    "\<And>X' Y' e. r = Some (X', Y', e) \<Longrightarrow> free_cell g wd ht (X', Y') \<and> (e \<longleftrightarrow> sc = SCAN_ESC) \<and>
      (X' = X \<and> Y' = Y \<or> (X = X' \<and> (Y = Suc Y' \<or> Y' = Suc Y)) \<or> (Y = Y' \<and> (X = Suc X' \<or> X' = Suc X)))"
    "sc = SCAN_ESC \<Longrightarrow> r \<noteq> None"
    using maze_key_ok [OF assms(1,2) Cons.prems] by metis
  show ?case
  proof (cases r)
    case None
    with r have "sc \<noteq> SCAN_ESC" by auto
    with r(1) None k Cons.IH [OF Cons.prems] show ?thesis by simp
  next
    case (Some n)
    obtain X' Y' e where n: "n = (X', Y', e)" by (cases n)
    note s = r(2) [OF Some [unfolded n]]
    have path: "maze_path g wd ht (X, Y) q" if "maze_path g wd ht (X', Y') q" for q
      using that s path_step [OF Cons.prems that] by auto
    show ?thesis
    proof (cases "X' = eX \<and> Y' = eY \<or> e")
      case True
      then have "\<exists>w'. maze_loop A maze L em ac eX eY (k # keys) X Y w = Inr (e, st, w')"
        using r(1) k Some n by (auto simp: Let_def)
      moreover have "\<not> e \<longrightarrow> maze_path g wd ht (X, Y) (eX, eY)"
        using True path [OF path_here] s by auto
      ultimately show ?thesis by blast
    next
      case False
      let ?w = "app_Blt A (blt_cell_at L ac X' Y') (app_Blt A (blt_cell_at L em X Y) w)"
      have "maze_loop A maze L em ac eX eY (k # keys) X Y w = maze_loop A maze L em ac eX eY keys X' Y' ?w"
        using False r(1) k Some n by auto
      then show ?thesis using Cons.IH [of X' Y' ?w] s path False k by auto
    qed
  qed
qed

section \<open>The whole game\<close>

lemma length_pixels_of: "length (pixels_of bs) = length bs div 4"
  by (induction bs rule: pixels_of.induct) auto

lemma AllocatePixels_ok:
  assumes "app_pool_ok A"
  shows "\<exists>st a px w'. AllocatePixels A n w = (st, Some (a, px), w') \<and> a \<noteq> 0 \<and> length px = unat n div 4"
proof -
  obtain st a c w' where "app_AllocatePool A n w = (st, Some (a, c), w')" "a \<noteq> 0" "length c = unat n"
    using assms unfolding app_pool_ok_def by metis
  then show ?thesis by (simp add: AllocatePixels_def length_pixels_of)
qed

lemma clear_pixels_ok:
  assumes "a \<noteq> 0" and "n \<le> length px"
  shows "\<exists>px'. clear_pixels n (a, px) = Inr (a, px') \<and> length px' = length px"
proof -
  have "\<exists>s'. clear_pixels n (a, px) = Inr s' \<and> fst s' = a \<and> length (snd s') = length px"
    unfolding clear_pixels_def
  proof (rule loopE_inv_total)
    fix i and s :: "pixel buf" assume "i \<in> set [0..<n]" and "fst s = a \<and> length (snd s) = length px"
    with set_rgb_ok [OF assms(1), of i "snd s" "(0, 0, 0)"] assms(2)
    show "\<exists>s'. set_rgb s i (0, 0, 0) = Inr s' \<and> fst s' = a \<and> length (snd s') = length px" by (cases s) auto
  qed simp
  then show ?thesis by auto
qed

text \<open>A sprite file whose lines and columns fit into a cell.\<close>

definition sprite_fits :: "u8 list \<Rightarrow> nat \<Rightarrow> bool" where
  "sprite_fits bs side \<longleftrightarrow> newline_char \<in> set (butlast bs) \<and> length bs < 2 ^ 64 \<and>
     (let wd = length (takeWhile (\<lambda>c. c \<noteq> newline_char) bs) in wd \<le> side \<and> length bs div (wd + 1) \<le> side)"

lemma takeWhile_last_changed:
  assumes "x \<in> set (butlast bs)" and "x \<noteq> y"
  shows "takeWhile (\<lambda>c. c \<noteq> x) (bs[length bs - 1 := y]) = takeWhile (\<lambda>c. c \<noteq> x) bs" and "x \<in> set (bs[length bs - 1 := y])"
proof -
  obtain cs z where bs: "bs = cs @ [z]" using assms(1) by (cases bs rule: rev_cases) auto
  have "x \<in> set cs" using assms(1) bs by simp
  then show "takeWhile (\<lambda>c. c \<noteq> x) (bs[length bs - 1 := y]) = takeWhile (\<lambda>c. c \<noteq> x) bs" "x \<in> set (bs[length bs - 1 := y])"
    by (auto simp: bs takeWhile_append1)
qed

lemma ParseActor_ok:
  assumes "app_pool_ok A" and "app_volume_ok A" and "app_serves A name bs" and "sprite_fits bs side"
    and "a \<noteq> 0" and "length px = side * side"
  shows "\<exists>px' w'. ParseActor A name (a, px) side w = Inr ((a, px'), w') \<and> length px' = side * side"
proof -
  have fits: "newline_char \<in> set (butlast bs)" "length bs < 2 ^ 64" using assms(4) by (simp_all add: sprite_fits_def)
  then have "bs \<noteq> []" by auto
  from AppReadFile_ok [OF assms(1-3) this fits(2)]
  obtain st d w1 where rf: "AppReadFile A name w = Inr (st, (d, bs[length bs - 1 := 0]), word_of_nat (length bs), w1)" "d \<noteq> 0" by blast
  define bs' where "bs' = bs[length bs - 1 := 0]"
  have "newline_char \<noteq> 0" by (simp add: newline_char_def)
  note tw = takeWhile_last_changed [OF fits(1) this, folded bs'_def]
  define wd where "wd = length (takeWhile (\<lambda>c. c \<noteq> newline_char) bs)"
  have wd: "line_width bs' = Inr wd" using line_width_first [OF tw(2)] tw(1) by (simp add: wd_def)
  define ht where "ht = length bs div (wd + 1)"
  have sz: "wd \<le> side" "ht \<le> side" using assms(4) by (simp_all add: sprite_fits_def Let_def wd_def ht_def)
  have le: "ht * (wd + 1) \<le> length bs'" unfolding ht_def bs'_def by (simp only: length_list_update div_times_less_eq_dividend)
  let ?P = "\<lambda>s :: bool \<times> pixel buf. fst (snd s) = a \<and> length (snd (snd s)) = side * side"
  have "\<exists>s'. loopE (\<lambda>i. loopE (actor_step (d, bs') wd side i) [0..<ht]) [0..<wd] (False, (a, px)) = Inr s' \<and> ?P s'"
  proof (rule loopE_inv_total, use assms(6) in simp, rule loopE_inv_total)
    fix i j and s :: "bool \<times> pixel buf" assume i: "i \<in> set [0..<wd]" and j: "j \<in> set [0..<ht]" and P: "?P s"
    obtain r p where s: "s = (r, (a, p))" "length p = side * side" using P by (cases s) auto
    have "j * (wd + 1) + i < (wd + 1) * ht" using i j by (intro row_major_less) auto
    then have in1: "j * (wd + 1) + i < length bs'" using le by (simp add: mult.commute)
    have "j * side + i < side * side" using i j sz by (intro row_major_less) auto
    then have in2: "j * side + i < length p" using s by simp
    show "\<exists>s'. actor_step (d, bs') wd side i j s = Inr s' \<and> ?P s'"
      using in1 set_rgb_ok [OF assms(5) in2] rf(2) s
      by (auto simp: actor_step_def split: option.splits) (metis fst_conv snd_conv)+
  qed
  then obtain b px' where lp: "loopE (\<lambda>i. loopE (actor_step (d, bs') wd side i) [0..<ht]) [0..<wd] (False, (a, px)) = Inr (b, (a, px'))" "length px' = side * side"
    by auto
  have "unat (word_of_nat (length bs) :: u64) div (wd + 1) = ht" using fits(2) by (simp add: ht_def)
  then show ?thesis using rf wd lp by (simp add: ParseActor_def bs'_def Let_def)
qed

lemma play_maze_ok:
  assumes "app_pool_ok A" and "app_volume_ok A" and "app_serves A (wide ''sprite.txt'') sp"
    and m: "maze_is maze wd ht g" and "walled g wd ht" and "\<exists>i < ht. \<exists>j < wd. g i j = START"
    and side: "side = min (unat width div wd) (unat height div ht)" "0 < side" "sprite_fits sp side"
    and px: "a \<noteq> 0" "length px = unat width * unat height"
  defines "pl \<equiv> found_places g wd ht"
  shows "(play_maze A width height maze (a, px) keys w = Inl Blocked \<and> SCAN_ESC \<notin> (fst \<circ> snd) ` set keys) \<or>
    (\<exists>e st p em ac w'. play_maze A width height maze (a, px) keys w = Inr (e, st, p, em, ac, w') \<and>
      (\<not> e \<longrightarrow> maze_path g wd ht (posX pl, posY pl) (endX pl, endY pl)))"
proof -
  have pos: "0 < wd" "0 < ht" using assms(6) by auto
  obtain L where L: "make_layout width height maze = Inr L" "layout_ok width height wd ht L" "cell_side L = side"
    using make_layout_ok [OF _ _ pos, of maze width height] m side(1) by (auto simp: maze_is_def)
  obtain px' where dr: "draw_labyrinth width maze L (a, px) = Inr ((a, px'), pl)"
    using draw_labyrinth_ok [OF m L(2) _ px] L(3) side(2) by (auto simp: pl_def found_places_def fold_all_cells)
  have "side \<le> unat width" unfolding side(1) using div_le_dividend min.coboundedI1 by blast
  moreover have "unat width < 65536" using unsigned_less [of width] by simp
  ultimately have "side \<le> 65535" by linarith
  then have "side * side \<le> 65535 * 65535" by (intro mult_le_mono)
  then have "4 * (side * side) < 2 ^ 64" by simp
  moreover have "4 * word_of_nat side * word_of_nat side = (word_of_nat (4 * (side * side)) :: u64)" by simp
  ultimately have n: "unat (4 * word_of_nat side * word_of_nat side :: u64) div 4 = side * side" by (simp only: unat_u64_of_nat)
  let ?n = "4 * word_of_nat side * word_of_nat side :: u64"
  obtain s1 e1 p1 w1 where al1: "AllocatePixels A ?n w = (s1, Some (e1, p1), w1)" "e1 \<noteq> 0" "length p1 = side * side"
    using AllocatePixels_ok [OF assms(1), of ?n w] n by auto
  obtain s2 e2 p2 w2 where al2: "AllocatePixels A ?n w1 = (s2, Some (e2, p2), w2)" "e2 \<noteq> 0" "length p2 = side * side"
    using AllocatePixels_ok [OF assms(1), of ?n w1] n by auto
  obtain q1 where c1: "clear_pixels (side * side) (e1, p1) = Inr (e1, q1)"
    using clear_pixels_ok [OF al1(2), of "side * side" p1] al1(3) by auto
  obtain q2 where c2: "clear_pixels (side * side) (e2, p2) = Inr (e2, q2)" "length q2 = side * side"
    using clear_pixels_ok [OF al2(2), of "side * side" p2] al2(3) by auto
  obtain ac w3 where pa: "ParseActor A (wide ''sprite.txt'') (e2, q2) side w2 = Inr ((e2, ac), w3)"
    using ParseActor_ok [OF assms(1-3) side(3) al2(2) c2(2)] by blast
  let ?w4 = "app_Blt A (blt_cell_at L (e2, ac) (posX pl) (posY pl)) (app_Blt A (full_screen EfiBltBufferToVideo (a, px') width height) w3)"
  let ?loop = "maze_loop A maze L (e1, q1) (e2, ac) (endX pl) (endY pl) keys (posX pl) (posY pl) ?w4"
  have "\<exists>(i, j) \<in> set (all_cells wd ht). g i j = START" using assms(6) by (auto simp: set_all_cells)
  from noted_start [OF this] have "free_cell g wd ht (posX pl, posY pl)"
    by (auto simp: pl_def found_places_def set_all_cells Let_def)
  note loop = maze_loop_ok [OF m assms(5) this, of A L "(e1, q1)" "(e2, ac)" "endX pl" "endY pl" keys ?w4]
  have "play_maze A width height maze (a, px) keys w = bindE ?loop (\<lambda>(escaped, Status, w).
      Inr (escaped, Status, (a, px'), (e1, q1), (e2, ac), app_Blt A (full_screen EfiBltVideoFill (e1, q1) width height) w))"
    using L(1,3) dr al1(1) al2(1) c1 c2(1) pa by (simp add: play_maze_def Let_def)
  with loop show ?thesis by auto
qed

text \<open>The machine the game needs: a screen, the two files, and at least four load options.\<close>

definition maze_machine :: "('w, 'x) app_scheme \<Rightarrow> u16 \<Rightarrow> u16 \<Rightarrow> u8 list \<Rightarrow> u8 list \<Rightarrow> bool" where
  "maze_machine A width height lab sp \<longleftrightarrow> app_pool_ok A \<and> app_volume_ok A \<and>
     app_serves A (wide ''labyrinth.txt'') lab \<and> app_serves A (wide ''sprite.txt'') sp \<and>
     (\<forall>w. fst (snd (app_LocateGraphics A w)) = Some (ucast width, ucast height)) \<and>
     unat width * unat height < 2 ^ 31 \<and> (\<forall>w. 4 \<le> length (fst (app_GetLoadOptions A w)))"

lemma ucast_u32_u16: "(ucast (ucast x :: u32) :: u16) = x" for x :: u16
  by transfer simp

lemma MazeMain_ok:
  assumes mm: "maze_machine A width height lab sp" and nl: "newline_char \<in> set (butlast lab)" "length lab < 2 ^ 61"
    and wd: "wd = length (takeWhile (\<lambda>c. c \<noteq> newline_char) lab)" and ht: "ht = length lab div (wd + 1)"
    and g: "g = (\<lambda>i j. maze_cell (lab[length lab - 1 := 0] ! (i * (wd + 1) + j)))"
    and "walled g wd ht" and "\<exists>i < ht. \<exists>j < wd. g i j = START"
    and "0 < min (unat width div wd) (unat height div ht)" and "sprite_fits sp (min (unat width div wd) (unat height div ht))"
  defines "pl \<equiv> found_places g wd ht"
  shows "(MazeMain A keys w = Inl Blocked \<and> SCAN_ESC \<notin> (fst \<circ> snd) ` set keys) \<or>
    (\<exists>st w1 w2. MazeMain A keys w = Inr (st, w2) \<and> (w2 = w1 \<or>
      boot_fourth A w1 = Inr w2 \<and> maze_path g wd ht (posX pl, posY pl) (endX pl, endY pl)))"
proof -
  have A: "app_pool_ok A" "app_volume_ok A" using mm by (simp_all add: maze_machine_def)
  obtain st w1 where lg: "app_LocateGraphics A w = (st, Some (ucast width, ucast height), w1)"
    using mm unfolding maze_machine_def by (metis prod.collapse)
  let ?w1 = "app_Print A ''Locate graphics protocol: %d\<newline>'' [PNum st] w1"
  let ?n = "4 * ucast width * ucast height :: u64"
  have wh: "unat width * unat height < 2 ^ 31" using mm by (simp add: maze_machine_def)
  have "?n = word_of_nat (4 * (unat width * unat height))" by simp
  moreover have "4 * (unat width * unat height) < 2 ^ 64" using wh by (simp add: mult.commute)
  ultimately have n: "unat ?n div 4 = unat width * unat height" by (simp only: unat_u64_of_nat)
  obtain s2 a px w2 where al: "AllocatePixels A ?n ?w1 = (s2, Some (a, px), w2)" "a \<noteq> 0" "length px = unat width * unat height"
    using AllocatePixels_ok [OF A(1), of ?n ?w1] n by auto
  obtain px' where cl: "clear_pixels (unat width * unat height) (a, px) = Inr (a, px')" "length px' = unat width * unat height"
    using clear_pixels_ok [OF al(2), of "unat width * unat height" px] al(3) by auto
  have "lab \<noteq> []" "length lab < 2 ^ 64" using nl by auto
  then obtain s3 d w3 where rf: "AppReadFile A (wide ''labyrinth.txt'') (app_Print A ''Allocate: %d\<newline>'' [PNum s2] w2) =
      Inr (s3, (d, lab[length lab - 1 := 0]), word_of_nat (length lab), w3)" "d \<noteq> 0"
    using AppReadFile_ok [OF A, of "wide ''labyrinth.txt''" lab] mm unfolding maze_machine_def by blast
  have "newline_char \<noteq> 0" by (simp add: newline_char_def)
  note tw = takeWhile_last_changed [OF nl(1) this]
  obtain maze w4 where pm: "ParseMazeFile A (d, lab[length lab - 1 := 0]) (word_of_nat (length lab)) w3 = Inr (maze, w4)" "maze_is maze wd ht g"
    using ParseMazeFile_ok [OF A(1) rf(2) tw(2), of wd ht w3] nl(2) tw(1) wd ht g by auto
  note pl = play_maze_ok [OF A _ pm(2) assms(7,8) refl assms(9,10) al(2) cl(2), of keys w4, folded pl_def]
  have sp: "app_serves A (wide ''sprite.txt'') sp" using mm by (simp add: maze_machine_def)
  have main: "MazeMain A keys w = bindE (play_maze A width height maze (a, px') keys w4) (\<lambda>(escaped, Status, pixels, emptyCell, actor, w).
      let w = snd (app_FreePool A (fst pixels) w); w = snd (app_FreePool A (fst emptyCell) w);
          w = snd (app_FreePool A (fst actor) w); w = snd (app_FreePool A d w); w = snd (app_FreePool A (fst (mazeCells maze)) w)
      in if \<not> escaped then bindE (boot_fourth A w) (\<lambda>w. Inr (Status, w)) else Inr (Status, w))"
    using lg al(1) cl(1) rf(1) pm(1) wh by (simp add: MazeMain_def Let_def ucast_u32_u16 cong: if_cong)
  have boot: "\<exists>w'. boot_fourth A w = Inr w'" for w
  proof -
    have "4 \<le> length (fst (app_GetLoadOptions A w))" using mm by (simp add: maze_machine_def)
    then have "3 < length (fst (app_GetLoadOptions A w))" by linarith
    then show ?thesis by (simp add: boot_fourth_def split_def Let_def)
  qed
  from pl [OF sp] show ?thesis
  proof (elim disjE exE conjE)
    fix e st p em ac w'
    assume pm: "play_maze A width height maze (a, px') keys w4 = Inr (e, st, p, em, ac, w')"
      and path: "\<not> e \<longrightarrow> maze_path g wd ht (posX pl, posY pl) (endX pl, endY pl)"
    let ?w' = "snd (app_FreePool A (fst (mazeCells maze)) (snd (app_FreePool A d (snd (app_FreePool A (fst ac)
        (snd (app_FreePool A (fst em) (snd (app_FreePool A (fst p) w')))))))))"
    obtain w2 where "boot_fourth A ?w' = Inr w2" using boot by blast
    then show ?thesis using main pm path by (cases e) (auto simp: Let_def)
  qed (use main in simp)
qed

end
