(* ===== verification/Xv6_Loader.thy ===== *)
theory Xv6_Loader
  imports Uefi
begin

text \<open>
  \<open>Application/XV6/xv6.c\<close>: the UEFI application that loads the xv6 kernel. It works on physical
  addresses, so the model has the physical memory as a function from addresses to bytes beside the
  state \<open>'w\<close> of the firmware. The result is the hand-over: the memory, the stack pointer, the
  descriptor table register and the far address of the final \<open>lretq\<close>.
\<close>

section \<open>Memory\<close>

type_synonym phys = "u64 \<Rightarrow> u8"

definition read_le :: "phys \<Rightarrow> u64 \<Rightarrow> nat \<Rightarrow> nat" where
  "read_le m a n = le_bytes (map (\<lambda>i. m (a + word_of_nat i)) [0..<n])"

definition write_bytes :: "u64 \<Rightarrow> u8 list \<Rightarrow> phys \<Rightarrow> phys" where
  "write_bytes a bs m = (\<lambda>x. if unat (x - a) < length bs then bs ! unat (x - a) else m x)"

definition write_le :: "u64 \<Rightarrow> nat \<Rightarrow> nat \<Rightarrow> phys \<Rightarrow> phys" where
  "write_le a n v m = write_bytes a (le_encode n v) m"

definition CopyMem :: "u64 \<Rightarrow> u64 \<Rightarrow> u64 \<Rightarrow> phys \<Rightarrow> phys" where
  "CopyMem dst src n m = (\<lambda>x. if x - dst < n then m (src + (x - dst)) else m x)"

definition SetMem :: "u64 \<Rightarrow> u64 \<Rightarrow> u8 \<Rightarrow> phys \<Rightarrow> phys" where
  "SetMem dst n v m = (\<lambda>x. if x - dst < n then v else m x)"

section \<open>The firmware\<close>

record 'w loader =
  ld_Print :: "string \<Rightarrow> parg list \<Rightarrow> 'w \<Rightarrow> 'w"
  ld_LocateFileSystem :: "'w \<Rightarrow> EFI_STATUS \<times> u64 \<times> 'w"
  ld_OpenVolume :: "u64 \<Rightarrow> 'w \<Rightarrow> EFI_STATUS \<times> u64 \<times> 'w"
  ld_Open :: "u64 \<Rightarrow> u16 list \<Rightarrow> 'w \<Rightarrow> EFI_STATUS \<times> u64 \<times> 'w"
  ld_GetInfo :: "u64 \<Rightarrow> u64 \<Rightarrow> 'w \<Rightarrow> EFI_STATUS \<times> u64 \<times> 'w" \<comment> \<open>file, size of the buffer; \<open>FileSize\<close>\<close>
  ld_AllocateAnyPages :: "u64 \<Rightarrow> 'w \<Rightarrow> EFI_STATUS \<times> u64 option \<times> 'w"
  ld_AllocateAddress :: "u64 \<Rightarrow> u64 \<Rightarrow> 'w \<Rightarrow> EFI_STATUS \<times> 'w" \<comment> \<open>pages, address\<close>
  ld_Read :: "u64 \<Rightarrow> u64 \<Rightarrow> 'w \<Rightarrow> EFI_STATUS \<times> u8 list \<times> 'w"
  ld_FreePages :: "u64 \<Rightarrow> u64 \<Rightarrow> 'w \<Rightarrow> 'w"
  ld_GetMemoryMap :: "u64 \<Rightarrow> u64 \<Rightarrow> 'w \<Rightarrow> EFI_STATUS \<times> (u64 \<times> u64) \<times> 'w" \<comment> \<open>size and buffer; new size and key\<close>
  ld_AllocatePool :: "u64 \<Rightarrow> 'w \<Rightarrow> EFI_STATUS \<times> u64 option \<times> 'w"
  ld_ExitBootServices :: "EFI_HANDLE \<Rightarrow> u64 \<Rightarrow> 'w \<Rightarrow> EFI_STATUS \<times> 'w"

section \<open>The program\<close>

definition crlf :: string where "crlf = [CHR 0x0D, CHR 0x0A]"

text \<open>
  The result of \<open>LoadFile\<close>: the status and what it has stored in \<open>*FileAddr\<close> and
  \<open>*FilePageSize\<close>, both \<^const>\<open>None\<close> while nothing has been stored.
\<close>

definition LoadFile ::
  "('w, 'x) loader_scheme \<Rightarrow> u16 list \<Rightarrow> phys \<Rightarrow> 'w \<Rightarrow> (EFI_STATUS \<times> u64 option \<times> u64 option) \<times> phys \<times> 'w" where
  "LoadFile fw FileName m w =
     (let (Status, SimpleFile, w) = ld_LocateFileSystem fw w in
      if EFI_ERROR Status then ((Status, None, None), m, ld_Print fw ''Failed to Locate Simple File System Protocol.\<newline>'' [] w) else
      let (Status, Root, w) = ld_OpenVolume fw SimpleFile w in
      if EFI_ERROR Status then ((Status, None, None), m, ld_Print fw ''Failed to Open Volume.\<newline>'' [] w) else
      let w = ld_Print fw ''Loading File: %s\<newline>'' [PStr (Some FileName)] w;
          (Status, File, w) = ld_Open fw Root FileName w in
      if EFI_ERROR Status then ((Status, None, None), m, ld_Print fw ''Failed to Open %s\<newline>'' [PStr (Some FileName)] w) else
      let FileInfoBufferSize = 80 + 2 * word_of_nat (length FileName) + 2;
          (Status, FileSize, w) = ld_GetInfo fw File FileInfoBufferSize w in
      if EFI_ERROR Status then ((Status, None, None), m, ld_Print fw ''Failed to Get FileInfo\<newline>'' [] w) else
      let w = ld_Print fw ''FileSize=%d\<newline>'' [PNum FileSize] w;
          FilePageSize = (FileSize + 4095) div 4096;
          (Status, addr, w) = ld_AllocateAnyPages fw FilePageSize w;
          FileAddr = (case addr of None \<Rightarrow> 0 | Some a \<Rightarrow> a) in
      if EFI_ERROR Status then ((Status, Some FileAddr, Some FilePageSize), m, ld_Print fw ''Failed to Allocate Pages\<newline>'' [] w) else
      let (Status, bs, w) = ld_Read fw File FileSize w;
          m = write_bytes FileAddr bs m in
      if EFI_ERROR Status then ((Status, Some FileAddr, Some FilePageSize), m, ld_Print fw ''Failed to Load File\<newline>'' [] w) else
      ((Status, Some FileAddr, Some FilePageSize), m, ld_Print fw ''Successfully Loaded File: %s\<newline>'' [PStr (Some FileName)] w))"

record elfhdr =
  e_entry :: u32
  e_phoff :: u32
  e_phnum :: u16

record proghdr =
  ph_type :: u32
  ph_off :: u32
  ph_paddr :: u32
  ph_filesz :: u32
  ph_memsz :: u32
  ph_align :: u32

text \<open>The fields of the headers the loader uses, at their offsets.\<close>

definition elf_at :: "phys \<Rightarrow> u64 \<Rightarrow> elfhdr" where
  "elf_at m a = \<lparr>e_entry = word_of_nat (read_le m (a + 24) 4), e_phoff = word_of_nat (read_le m (a + 28) 4),
     e_phnum = word_of_nat (read_le m (a + 44) 2)\<rparr>"

definition ph_at :: "phys \<Rightarrow> u64 \<Rightarrow> proghdr" where
  "ph_at m a = \<lparr>ph_type = word_of_nat (read_le m a 4), ph_off = word_of_nat (read_le m (a + 4) 4),
     ph_paddr = word_of_nat (read_le m (a + 12) 4), ph_filesz = word_of_nat (read_le m (a + 16) 4),
     ph_memsz = word_of_nat (read_le m (a + 20) 4), ph_align = word_of_nat (read_le m (a + 28) 4)\<rparr>"

definition ph_addr :: "phys \<Rightarrow> u64 \<Rightarrow> nat \<Rightarrow> u64" where
  "ph_addr m elf i = elf + ucast (e_phoff (elf_at m elf)) + 32 * word_of_nat i"

text \<open>
  The range of pages that is reserved for the kernel. The loop over the other program headers
  leaves it alone: what it does with a header comes after a \<open>continue\<close>, so only its line breaks
  remain, one for each header of type 1.
\<close>

definition pages_range :: "proghdr \<Rightarrow> u64 \<times> u64" where
  "pages_range ph =
     (let pages_start = ucast (ph_paddr ph);
          mask = ucast (ph_align ph - 1);
          pages_end = pages_start + ucast (ph_memsz ph);
          pages_end = (pages_end + mask) AND (NOT mask)
      in (pages_start, pages_end))"

definition reserve_pages :: "('w, 'x) loader_scheme \<Rightarrow> u64 \<Rightarrow> phys \<Rightarrow> 'w \<Rightarrow> 'w" where
  "reserve_pages fw elf m w =
     (let n = unat (e_phnum (elf_at m elf));
          (pages_start, pages_end) = pages_range (ph_at m (ph_addr m elf 0));
          w = ld_Print fw ''Page start before for: %x\<newline>'' [PNum pages_start] w;
          w = fold (\<lambda>i w. if ph_type (ph_at m (ph_addr m elf i)) \<noteq> 1 then w else ld_Print fw ''\<newline>'' [] w) [0..<n] w;
          page_size = (pages_end - pages_start) div 4096 + 1;
          w = ld_Print fw ''Page start after for: %x\<newline>'' [PNum pages_start] w;
          w = ld_Print fw ''Page end after for: %x\<newline>'' [PNum pages_end] w;
          (Status, w) = ld_AllocateAddress fw page_size pages_start w
      in ld_Print fw (''Allocate pages status: %d'' @ crlf) [PNum Status] w)"

definition load_segment :: "u64 \<Rightarrow> u64 \<Rightarrow> phys \<Rightarrow> phys" where
  "load_segment buffer_address a m =
     (let ph = ph_at m a in
      if ph_type ph \<noteq> 1 then m else
      let cur_start = ucast (ph_paddr ph);
          m = CopyMem cur_start (buffer_address + ucast (ph_off ph)) (ucast (ph_filesz ph)) m
      in if ph_memsz ph > ph_filesz ph
         then SetMem (cur_start + ucast (ph_filesz ph)) (ucast (ph_memsz ph - ph_filesz ph)) 0 m else m)"

text \<open>The addresses of the headers, \<open>ph\<close> and \<open>eph\<close>, are computed before the first copy.\<close>

definition load_segments :: "u64 \<Rightarrow> phys \<Rightarrow> phys" where
  "load_segments buffer_address m =
     fold (load_segment buffer_address) (map (ph_addr m buffer_address) [0..<unat (e_phnum (elf_at m buffer_address))]) m"

section \<open>The hand-over\<close>

record gdt =
  gdt_limit :: u16
  gdt_base1 :: u16
  gdt_base2 :: u8
  gdt_access :: u8
  gdt_flags :: u8
  gdt_base3 :: u8

definition gdt_bytes :: "gdt \<Rightarrow> u8 list" where
  "gdt_bytes g = le_encode 2 (unat (gdt_limit g)) @ le_encode 2 (unat (gdt_base1 g)) @
     [gdt_base2 g, gdt_access g, gdt_flags g, gdt_base3 g]"

definition STA_X :: u8 where "STA_X = 0x8"
definition STA_W :: u8 where "STA_W = 0x2"
definition STA_R :: u8 where "STA_R = 0x2"

definition flat_segment :: "u8 \<Rightarrow> gdt" where
  "flat_segment access =
     \<lparr>gdt_limit = ucast (drop_bit 12 (0xffffffff :: u32) AND 0xFFFF), gdt_base1 = 0, gdt_base2 = 0,
      gdt_access = 0x90 OR access, gdt_flags = 0xC0 OR ucast (drop_bit 28 (0xffffffff :: u32) AND 0xF), gdt_base3 = 0\<rparr>"

definition null_segment :: gdt where
  "null_segment = \<lparr>gdt_limit = 0, gdt_base1 = 0, gdt_base2 = 0, gdt_access = 0, gdt_flags = 0, gdt_base3 = 0\<rparr>"

text \<open>
  The structure \<open>boot\<close> at its address: \<open>entry\<close>, \<open>entry_addr\<close>, \<open>madt_addr\<close>, three descriptors of 8
  bytes, and the pointer \<open>gdt_desc\<close> at offset 48, which is read from memory and never stored.
\<close>

definition boot_gdt :: "u64 \<Rightarrow> u64" where "boot_gdt boot = boot + 24"
definition boot_gdt_desc :: "u64 \<Rightarrow> u64" where "boot_gdt_desc boot = boot + 48"

definition fill_boot :: "u64 \<Rightarrow> u64 \<Rightarrow> phys \<Rightarrow> phys" where
  "fill_boot boot entry_address m =
     (let m = write_le boot 8 (unat entry_address) m;
          m = write_le (boot + 8) 8 (unat entry_address) m;
          desc = word_of_nat (read_le m (boot_gdt_desc boot) 8);
          m = write_le desc 2 (8 * 3 - 1) m;
          desc = word_of_nat (read_le m (boot_gdt_desc boot) 8);
          m = write_le (desc + 2) 8 (unat (boot_gdt boot)) m;
          m = write_bytes (boot_gdt boot) (gdt_bytes null_segment) m;
          m = write_bytes (boot_gdt boot + 8) (gdt_bytes (flat_segment (STA_X OR STA_R))) m;
          m = write_bytes (boot_gdt boot + 16) (gdt_bytes (flat_segment STA_W)) m
      in m)"

record handover =
  ho_memory :: phys
  ho_esp :: u32
  ho_gdtr :: "u16 \<times> u64" \<comment> \<open>limit and base that \<open>lgdt\<close> reads\<close>
  ho_cs :: u64
  ho_rip :: u64

definition exit_services :: "('w, 'x) loader_scheme \<Rightarrow> EFI_HANDLE \<Rightarrow> 'w \<Rightarrow> 'w" where
  "exit_services fw ImageHandle w =
     (let (_, (MapSize, MapKey), w) = ld_GetMemoryMap fw 0 0 w;
          (_, p, w) = ld_AllocatePool fw MapSize w;
          Buffer = (case p of None \<Rightarrow> 0 | Some a \<Rightarrow> a);
          (_, (MapSize, MapKey), w) = ld_GetMemoryMap fw MapSize Buffer w
      in snd (ld_ExitBootServices fw ImageHandle MapKey w))"

definition kernel_path :: "u16 list" where
  "kernel_path = wide (CHR 0x5C # ''kernel'')"

definition XV6Main :: "('w, 'x) loader_scheme \<Rightarrow> EFI_HANDLE \<Rightarrow> phys \<Rightarrow> 'w \<Rightarrow> (handover \<times> 'w) result" where
  "XV6Main fw ImageHandle m w =
     (let boot = 0x50000;
          (Status, w) = ld_AllocateAddress fw 1 boot w;
          w = ld_Print fw (''Allocate boot parameters status: %d'' @ crlf) [PNum Status] w;
          ((Status, addr, psize), m, w) = LoadFile fw kernel_path m w;
          w = ld_Print fw (''Kernel load status: %d'' @ crlf) [PNum Status] w
      in bindE (use addr) (\<lambda>buffer_address. bindE (use psize) (\<lambda>buffer_page_size.
      if buffer_address = 0 then Inl NullPointer else
      let w = reserve_pages fw buffer_address m w;
          m = load_segments buffer_address m;
          entry_address = ucast (e_entry (elf_at m buffer_address));
          w = ld_Print fw ''aaaaaaaaa    : %llx\<newline>'' [PNum entry_address] w;
          w = ld_Print fw ''elf.entry    : %llx\<newline>'' [PNum entry_address] w;
          w = ld_Print fw ''cast         : %llx\<newline>'' [PNum entry_address] w;
          w = ld_Print fw ''entry_address: %llx\<newline>'' [PNum entry_address] w;
          w = ld_FreePages fw buffer_address buffer_page_size w;
          m = fill_boot boot entry_address m;
          w = exit_services fw ImageHandle w
      in Inr (\<lparr>ho_memory = m, ho_esp = 0x7C00,
               ho_gdtr = (word_of_nat (read_le m (boot_gdt_desc boot) 2), word_of_nat (read_le m (boot_gdt_desc boot + 2) 8)),
               ho_cs = 8, ho_rip = word_of_nat (read_le m (boot + 8) 8)\<rparr>, w))))"

section \<open>The kernel in memory\<close>

text \<open>A file as a memory that starts at address 0.\<close>

definition file_image :: "u8 list \<Rightarrow> phys" where
  "file_image bs = (\<lambda>x. if unat x < length bs then bs ! unat x else 0)"

definition holds :: "phys \<Rightarrow> u64 \<Rightarrow> u8 list \<Rightarrow> bool" where
  "holds m a bs \<longleftrightarrow> (\<forall>x. unat x < length bs \<longrightarrow> m (a + x) = bs ! unat x)"

lemma holds_image: "holds m a bs \<Longrightarrow> unat x < length bs \<Longrightarrow> m (a + x) = file_image bs x"
  by (simp add: holds_def file_image_def)

lemma read_le_image:
  assumes "holds m a bs" and "unat x + n \<le> length bs" and "length bs < 2 ^ 64"
  shows "read_le m (a + x) n = read_le (file_image bs) x n"
proof -
  have "m (a + x + word_of_nat i) = file_image bs (x + word_of_nat i)" if "i < n" for i
  proof -
    have "unat (x + word_of_nat i) = unat x + i"
      using that assms(2,3) by (subst unat_add_no_wrap) (simp_all add: unat_of_nat)
    with that assms(2) have "unat (x + word_of_nat i) < length bs" by simp
    from holds_image [OF assms(1) this] show ?thesis by (simp add: add.assoc)
  qed
  then have "map (\<lambda>i. m (a + x + word_of_nat i)) [0..<n] = map (\<lambda>i. file_image bs (x + word_of_nat i)) [0..<n]" by simp
  then show ?thesis by (simp only: read_le_def)
qed

lemma elf_at_image: "holds m a bs \<Longrightarrow> 52 \<le> length bs \<Longrightarrow> length bs < 2 ^ 64 \<Longrightarrow> elf_at m a = elf_at (file_image bs) 0"
  by (simp add: elf_at_def read_le_image)

lemma ph_at_image:
  assumes "holds m a bs" and "unat x + 32 \<le> length bs" and "length bs < 2 ^ 64"
  shows "ph_at m (a + x) = ph_at (file_image bs) x"
proof -
  have f: "read_le m (a + x + k) n = read_le (file_image bs) (x + k) n" if "unat k + n \<le> 32" for k n
  proof -
    have "unat (x + k) = unat x + unat k" using that assms(2,3) by (intro unat_add_no_wrap) simp
    with that assms show ?thesis by (simp add: read_le_image add.assoc)
  qed
  show ?thesis using f [of 0 4] f [of 4 4] f [of 12 4] f [of 16 4] f [of 20 4] f [of 28 4]
    by (simp add: ph_at_def)
qed

text \<open>The loadable segments of a kernel file, the addresses they take and the bytes that belong there.\<close>

definition file_headers :: "u8 list \<Rightarrow> proghdr list" where
  "file_headers bs = map (\<lambda>i. ph_at (file_image bs) (ph_addr (file_image bs) 0 i)) [0..<unat (e_phnum (elf_at (file_image bs) 0))]"

definition seg_region :: "proghdr \<Rightarrow> u64 set" where
  "seg_region ph = (if ph_type ph = 1 then {x. x - ucast (ph_paddr ph) < ucast (ph_memsz ph)} else {})"

definition seg_byte :: "u8 list \<Rightarrow> proghdr \<Rightarrow> u64 \<Rightarrow> u8" where
  "seg_byte bs ph x =
     (if x - ucast (ph_paddr ph) < ucast (ph_filesz ph) then file_image bs (ucast (ph_off ph) + (x - ucast (ph_paddr ph))) else 0)"

definition file_region :: "u64 \<Rightarrow> u8 list \<Rightarrow> u64 set" where
  "file_region a bs = {x. unat (x - a) < length bs}"

definition kernel_file :: "u8 list \<Rightarrow> bool" where
  "kernel_file bs \<longleftrightarrow> 52 \<le> length bs \<and> length bs < 2 ^ 32 \<and>
     unat (e_phoff (elf_at (file_image bs) 0)) + 32 * unat (e_phnum (elf_at (file_image bs) 0)) \<le> length bs \<and>
     (\<forall>ph \<in> set (file_headers bs). ph_type ph = 1 \<longrightarrow> ph_filesz ph \<le> ph_memsz ph \<and> unat (ph_off ph) + unat (ph_filesz ph) \<le> length bs)"

text \<open>The segments lie apart from each other and from the buffer the file was read into.\<close>

definition apart :: "u64 \<Rightarrow> u8 list \<Rightarrow> bool" where
  "apart a bs \<longleftrightarrow> (\<forall>ph \<in> set (file_headers bs). seg_region ph \<inter> file_region a bs = {}) \<and>
     (\<forall>i < length (file_headers bs). \<forall>j < i. seg_region (file_headers bs ! i) \<inter> seg_region (file_headers bs ! j) = {})"

lemma tail_range: "f \<le> n \<Longrightarrow> d - f < n - f \<longleftrightarrow> f \<le> d \<and> d < n" for d f n :: u64
  by uint_arith

lemma unat_ucast_u32: "unat (ucast x :: u64) = unat x" for x :: u32
proof -
  have "unat x < 2 ^ 32" using unsigned_less [of x] by simp
  then show ?thesis by (simp add: unsigned_ucast_eq take_bit_nat_eq_self)
qed

lemma ucast_u32_diff: "f \<le> n \<Longrightarrow> (ucast (n - f) :: u64) = ucast n - ucast f" for f n :: u32
  by (rule word_unat_eq_iff [THEN iffD2]) (simp add: unat_sub_if' word_le_nat_alt unat_ucast_u32)

lemma load_segment_eq:
  assumes "holds m a bs" and "length bs < 2 ^ 32" and "unat x + 32 \<le> length bs" and ph: "ph = ph_at (file_image bs) x"
    and seg: "ph_type ph = 1 \<Longrightarrow> ph_filesz ph \<le> ph_memsz ph \<and> unat (ph_off ph) + unat (ph_filesz ph) \<le> length bs"
  shows "load_segment a (a + x) m = (\<lambda>y. if y \<in> seg_region ph then seg_byte bs ph y else m y)"
proof (cases "ph_type ph = 1")
  case False
  have "ph_at m (a + x) = ph" using ph_at_image [OF assms(1,3)] assms(2) ph by simp
  with False show ?thesis by (simp add: load_segment_def seg_region_def)
next
  case True
  have here: "ph_at m (a + x) = ph" using ph_at_image [OF assms(1,3)] assms(2) ph by simp
  let ?dst = "ucast (ph_paddr ph) :: u64" and ?f = "ucast (ph_filesz ph) :: u64" and ?n = "ucast (ph_memsz ph) :: u64"
  have fn: "?f \<le> ?n" using seg [OF True] by (simp add: word_le_nat_alt unat_ucast_u32)
  have copy: "m (a + ucast (ph_off ph) + (y - ?dst)) = seg_byte bs ph y" if "y - ?dst < ?f" for y
  proof -
    have d: "unat (y - ?dst) < unat (ph_filesz ph)" using that by (simp add: word_less_nat_alt unat_ucast_u32)
    have "unat (ucast (ph_off ph) + (y - ?dst)) = unat (ph_off ph) + unat (y - ?dst)"
      using d seg [OF True] assms(2) by (subst unat_add_no_wrap) (simp_all add: unat_ucast_u32)
    then have "unat (ucast (ph_off ph) + (y - ?dst)) < length bs" using d seg [OF True] by simp
    from holds_image [OF assms(1) this] that show ?thesis by (simp add: seg_byte_def add.assoc)
  qed
  show ?thesis
  proof (cases "ph_memsz ph > ph_filesz ph")
    case more: True
    have "y - (?dst + ?f) < ucast (ph_memsz ph - ph_filesz ph) \<longleftrightarrow> ?f \<le> y - ?dst \<and> y - ?dst < ?n" for y
      using tail_range [OF fn, of "y - ?dst"] more by (simp add: ucast_u32_diff diff_diff_eq)
    then show ?thesis using True more here copy fn
      by (auto simp: load_segment_def SetMem_def CopyMem_def seg_region_def seg_byte_def Let_def fun_eq_iff)
  next
    case False
    then have "ph_memsz ph = ph_filesz ph" using seg [OF True] by simp
    then show ?thesis using True here copy
      by (auto simp: load_segment_def CopyMem_def seg_region_def Let_def fun_eq_iff)
  qed
qed

text \<open>After the loop, every segment is in its place and the rest of the memory is as it was.\<close>

definition loaded :: "u8 list \<Rightarrow> proghdr list \<Rightarrow> phys \<Rightarrow> phys \<Rightarrow> bool" where
  "loaded bs phs m m' \<longleftrightarrow> (\<forall>ph \<in> set phs. \<forall>y \<in> seg_region ph. m' y = seg_byte bs ph y) \<and>
     (\<forall>y. (\<forall>ph \<in> set phs. y \<notin> seg_region ph) \<longrightarrow> m' y = m y)"

lemma loaded_holds:
  assumes "loaded bs phs m m'" and "holds m a bs" and "\<forall>ph \<in> set phs. seg_region ph \<inter> file_region a bs = {}"
  shows "holds m' a bs"
  unfolding holds_def
proof (intro allI impI)
  fix x :: u64 assume x: "unat x < length bs"
  then have "a + x \<in> file_region a bs" by (simp add: file_region_def)
  with assms(3) have "\<forall>ph \<in> set phs. a + x \<notin> seg_region ph" by blast
  then have "m' (a + x) = m (a + x)" using assms(1) by (simp add: loaded_def)
  with assms(2) x show "m' (a + x) = bs ! unat x" by (simp add: holds_def)
qed

lemma load_segments_ok:
  assumes "holds m a bs" and "kernel_file bs" and "apart a bs"
  shows "loaded bs (file_headers bs) m (load_segments a m)"
proof -
  let ?elf = "elf_at (file_image bs) 0" and ?phs = "file_headers bs"
  let ?n = "unat (e_phnum ?elf)" and ?x = "\<lambda>i. ph_addr (file_image bs) 0 i"
  have k: "52 \<le> length bs" "length bs < 2 ^ 32" "unat (e_phoff ?elf) + 32 * ?n \<le> length bs" using assms(2) by (auto simp: kernel_file_def)
  have elf: "elf_at m a = ?elf" using elf_at_image [OF assms(1) k(1)] k(2) by simp
  have addr: "ph_addr m a = (\<lambda>i. a + ?x i)" by (simp add: ph_addr_def elf add.assoc fun_eq_iff)
  have x: "unat (?x i) + 32 \<le> length bs" if "i < ?n" for i
  proof -
    have "unat (32 * word_of_nat i :: u64) = 32 * i" using that k by (subst unat_mult_no_wrap) (simp_all add: unat_of_nat)
    then have "unat (?x i) = unat (e_phoff ?elf) + 32 * i"
      using that k unfolding ph_addr_def by (simp add: unat_add_no_wrap unat_ucast_u32)
    with that k(3) show ?thesis by linarith
  qed
  have ph: "?phs ! i = ph_at (file_image bs) (?x i)" if "i < ?n" for i using that by (simp add: file_headers_def)
  have len: "length ?phs = ?n" by (simp add: file_headers_def)
  have "loaded bs (take i ?phs) m (fold (load_segment a) (map (\<lambda>i. a + ?x i) [0..<i]) m)" if "i \<le> ?n" for i
    using that
  proof (induction i)
    case 0
    then show ?case by (simp add: loaded_def)
  next
    case (Suc i)
    let ?m = "fold (load_segment a) (map (\<lambda>i. a + ?x i) [0..<i]) m"
    have IH: "loaded bs (take i ?phs) m ?m" using Suc by simp
    have i: "i < ?n" using Suc.prems by simp
    have "\<forall>p \<in> set (take i ?phs). seg_region p \<inter> file_region a bs = {}"
      using assms(3) by (auto simp: apart_def dest: in_set_takeD)
    from loaded_holds [OF IH assms(1) this] have hm: "holds ?m a bs" .
    have "?phs ! i \<in> set ?phs" using i len by simp
    then have step: "load_segment a (a + ?x i) ?m = (\<lambda>y. if y \<in> seg_region (?phs ! i) then seg_byte bs (?phs ! i) y else ?m y)"
      using assms(2) by (intro load_segment_eq [OF hm k(2) x [OF i] ph [OF i]]) (auto simp: kernel_file_def)
    have "seg_region (?phs ! i) \<inter> seg_region p = {}" if p: "p \<in> set (take i ?phs)" for p
    proof -
      obtain j where "j < i" "p = ?phs ! j" using p by (auto simp: in_set_conv_nth)
      with assms(3) i len show ?thesis by (simp add: apart_def)
    qed
    then show ?case using IH i len
      by (auto simp: step loaded_def take_Suc_conv_app_nth)
  qed
  from this [of ?n] show ?thesis by (simp add: load_segments_def elf addr len)
qed

section \<open>The start of the kernel\<close>

text \<open>
  Documented behaviour of the firmware when nothing fails: the file \<open>FileName\<close> has the contents
  \<open>bs\<close> and is read into a buffer at \<open>a\<close>.
\<close>

definition loader_serves :: "('w, 'x) loader_scheme \<Rightarrow> u16 list \<Rightarrow> u8 list \<Rightarrow> u64 \<Rightarrow> bool" where
  "loader_serves fw FileName bs a \<longleftrightarrow> a \<noteq> 0 \<and>
     (\<forall>w. \<not> EFI_ERROR (fst (ld_LocateFileSystem fw w))) \<and> (\<forall>p w. \<not> EFI_ERROR (fst (ld_OpenVolume fw p w))) \<and>
     (\<forall>r w. \<exists>st f w'. ld_Open fw r FileName w = (st, f, w') \<and> \<not> EFI_ERROR st \<and>
        (\<forall>n w. \<exists>st w'. ld_GetInfo fw f n w = (st, word_of_nat (length bs), w') \<and> \<not> EFI_ERROR st) \<and>
        (\<forall>w. \<exists>st w'. ld_Read fw f (word_of_nat (length bs)) w = (st, bs, w') \<and> \<not> EFI_ERROR st)) \<and>
     (\<forall>n w. \<exists>st w'. ld_AllocateAnyPages fw n w = (st, Some a, w') \<and> \<not> EFI_ERROR st)"

lemma LoadFile_ok:
  assumes "loader_serves fw FileName bs a"
  shows "\<exists>st n w'. LoadFile fw FileName m w = ((st, Some a, Some n), write_bytes a bs m, w')"
proof -
  obtain st1 p w1 where 1: "ld_LocateFileSystem fw w = (st1, p, w1)" "\<not> EFI_ERROR st1"
    using assms unfolding loader_serves_def by (metis prod_cases3 fst_conv)
  obtain st2 r w2 where 2: "ld_OpenVolume fw p w1 = (st2, r, w2)" "\<not> EFI_ERROR st2"
    using assms unfolding loader_serves_def by (metis prod_cases3 fst_conv)
  obtain st3 f w3 where 3: "ld_Open fw r FileName (ld_Print fw ''Loading File: %s\<newline>'' [PStr (Some FileName)] w2) = (st3, f, w3)" "\<not> EFI_ERROR st3"
      "\<forall>n w. \<exists>st w'. ld_GetInfo fw f n w = (st, word_of_nat (length bs), w') \<and> \<not> EFI_ERROR st"
      "\<forall>w. \<exists>st w'. ld_Read fw f (word_of_nat (length bs)) w = (st, bs, w') \<and> \<not> EFI_ERROR st"
    using assms unfolding loader_serves_def by blast
  obtain st4 w4 where 4: "ld_GetInfo fw f (80 + 2 * word_of_nat (length FileName) + 2) w3 = (st4, word_of_nat (length bs), w4)" "\<not> EFI_ERROR st4"
    using 3(3) by blast
  let ?n = "(word_of_nat (length bs) + 4095) div 4096 :: u64"
  obtain st5 w5 where 5: "ld_AllocateAnyPages fw ?n (ld_Print fw ''FileSize=%d\<newline>'' [PNum (word_of_nat (length bs))] w4) = (st5, Some a, w5)" "\<not> EFI_ERROR st5"
    using assms unfolding loader_serves_def by blast
  obtain st6 w6 where 6: "ld_Read fw f (word_of_nat (length bs)) w5 = (st6, bs, w6)" "\<not> EFI_ERROR st6"
    using 3(4) by blast
  show ?thesis using 1 2 3(1,2) 4 5 6 by (simp add: LoadFile_def)
qed

lemma write_bytes_holds: "length bs < 2 ^ 64 \<Longrightarrow> holds (write_bytes a bs m) a bs"
  by (simp add: holds_def write_bytes_def)

lemma read_le_cong: "(\<And>i. i < n \<Longrightarrow> m (a + word_of_nat i) = m' (a + word_of_nat i)) \<Longrightarrow> read_le m a n = read_le m' a n"
  by (auto simp: read_le_def intro!: arg_cong [where f = le_bytes])

lemma read_write_le:
  assumes "v < 256 ^ n" and "n < 2 ^ 64"
  shows "read_le (write_le a n v m) a n = v"
proof -
  have "map (\<lambda>i. write_le a n v m (a + word_of_nat i)) [0..<n] = le_encode n v"
    by (rule nth_equalityI) (use assms(2) in \<open>auto simp: write_le_def write_bytes_def unat_of_nat\<close>)
  then show ?thesis using assms(1) by (simp add: read_le_def le_bytes_encode)
qed

lemma write_bytes_other: "unat (y - a) \<ge> length bs \<Longrightarrow> write_bytes a bs m y = m y"
  by (simp add: write_bytes_def)

lemma write_le_other: "unat (y - a) \<ge> n \<Longrightarrow> write_le a n v m y = m y"
  by (simp add: write_le_def write_bytes_def)

text \<open>Distances from a byte of memory to the fields of the structure at \<open>boot\<close>.\<close>

lemma field_away:
  assumes "j + n \<le> k \<or> k < j" and "k < 64" and "j < 64" and "n \<le> 64"
  shows "n \<le> unat ((boot + word_of_nat k) - (boot + word_of_nat j) :: u64)"
proof -
  have "(boot + word_of_nat k) - (boot + word_of_nat j) = (word_of_nat k - word_of_nat j :: u64)" by simp
  moreover have "n \<le> unat (word_of_nat k - word_of_nat j :: u64)"
    using assms by (auto simp: unat_sub_if' unat_of_nat)
  ultimately show ?thesis by simp
qed

lemma far_away:
  assumes "j + n \<le> unat (y - boot :: u64)"
  shows "n \<le> unat (y - (boot + word_of_nat j))"
proof -
  have j: "j < 2 ^ 64" using assms unat_u64_less [of "y - boot"] by linarith
  have "unat ((y - boot) - word_of_nat j) = unat (y - boot) - j"
    using assms j by (simp add: unat_sub_if')
  with assms show ?thesis by (simp add: diff_diff_eq)
qed

definition pointer_found :: "u64 \<Rightarrow> phys \<Rightarrow> u64" where
  "pointer_found boot m = word_of_nat (read_le m (boot_gdt_desc boot) 8)"

lemma length_gdt_bytes [simp]: "length (gdt_bytes g) = 8"
  by (simp add: gdt_bytes_def)

lemma fill_boot_eq:
  assumes d: "d = pointer_found boot m" and away: "\<And>k. k < 58 \<Longrightarrow> 10 \<le> unat (boot + word_of_nat k - d)"
  shows "fill_boot boot e m =
    write_bytes (boot + 40) (gdt_bytes (flat_segment STA_W)) (write_bytes (boot + 32) (gdt_bytes (flat_segment (STA_X OR STA_R)))
    (write_bytes (boot + 24) (gdt_bytes null_segment) (write_le (d + 2) 8 (unat (boot + 24)) (write_le d 2 23
    (write_le (boot + 8) 8 (unat e) (write_le boot 8 (unat e) m))))))"
proof -
  let ?m1 = "write_le (boot + 8) 8 (unat e) (write_le boot 8 (unat e) m)"
  have 1: "?m1 (boot + 48 + word_of_nat i) = m (boot + 48 + word_of_nat i)" if "i < 8" for i
    using field_away [of 8 8 "48 + i" boot] field_away [of 0 8 "48 + i" boot] that
    by (simp add: write_le_other add.assoc)
  have r1: "read_le ?m1 (boot + 48) 8 = read_le m (boot + 48) 8" by (rule read_le_cong) (rule 1)
  have 2: "write_le d 2 23 ?m1 (boot + 48 + word_of_nat i) = ?m1 (boot + 48 + word_of_nat i)" if "i < 8" for i
    using away [of "48 + i"] that by (simp add: write_le_other add.assoc)
  have r2: "read_le (write_le d 2 23 ?m1) (boot + 48) 8 = read_le ?m1 (boot + 48) 8" by (rule read_le_cong) (rule 2)
  show ?thesis
    by (simp add: fill_boot_def boot_gdt_desc_def boot_gdt_def r1 r2 d [unfolded pointer_found_def boot_gdt_desc_def, symmetric] Let_def add.assoc)
qed

lemma fill_boot_facts:
  assumes d: "d = pointer_found boot m" and away: "\<And>k. k < 58 \<Longrightarrow> 10 \<le> unat (boot + word_of_nat k - d)"
  shows "\<And>y. 58 \<le> unat (y - boot) \<Longrightarrow> 10 \<le> unat (y - d) \<Longrightarrow> fill_boot boot e m y = m y"
    and "\<And>k. 48 \<le> k \<Longrightarrow> k < 58 \<Longrightarrow> fill_boot boot e m (boot + word_of_nat k) = m (boot + word_of_nat k)"
    and "read_le (fill_boot boot e m) (boot + 8) 8 = unat e"
proof -
  note eq = fill_boot_eq [OF assms]
  have d2: "8 \<le> unat (y - (d + 2))" if "10 \<le> unat (y - d)" for y using far_away [of 2 8 y d] that by simp
  show "fill_boot boot e m y = m y" if "58 \<le> unat (y - boot)" "10 \<le> unat (y - d)" for y
    using that d2 [OF that(2)] far_away [of 40 8 y boot] far_away [of 32 8 y boot] far_away [of 24 8 y boot] far_away [of 8 8 y boot] far_away [of 0 8 y boot]
    by (simp add: eq write_bytes_other write_le_other)
  show "fill_boot boot e m (boot + word_of_nat k) = m (boot + word_of_nat k)" if "48 \<le> k" "k < 58" for k
    using that away [OF that(2)] d2 [OF away [OF that(2)]] field_away [of 40 8 k boot] field_away [of 32 8 k boot]
      field_away [of 24 8 k boot] field_away [of 8 8 k boot] field_away [of 0 8 k boot]
    by (simp add: eq write_bytes_other write_le_other)
  have "fill_boot boot e m (boot + 8 + word_of_nat i) = write_le (boot + 8) 8 (unat e) (write_le boot 8 (unat e) m) (boot + 8 + word_of_nat i)" if i: "i < 8" for i
    using i away [of "8 + i"] d2 [OF away [of "8 + i"]] field_away [of 40 8 "8 + i" boot] field_away [of 32 8 "8 + i" boot] field_away [of 24 8 "8 + i" boot]
    by (simp add: eq write_bytes_other write_le_other add.assoc)
  then have "read_le (fill_boot boot e m) (boot + 8) 8 = read_le (write_le (boot + 8) 8 (unat e) (write_le boot 8 (unat e) m)) (boot + 8) 8"
    by (intro read_le_cong)
  also have "\<dots> = unat e" using unat_u64_less [of e] by (intro read_write_le) simp_all
  finally show "read_le (fill_boot boot e m) (boot + 8) 8 = unat e" .
qed

definition BOOT :: u64 where "BOOT = 0x50000"

definition boot_region :: "u64 set" where
  "boot_region = {y. unat (y - BOOT) < 58}"

text \<open>
  The kernel is started at its entry with every segment in place, when neither the file nor a
  segment takes the page of the boot parameters and the pointer \<open>d\<close> that happens to be in memory at
  \<open>boot->gdt_desc\<close> points elsewhere. The register for the descriptor table gets the bytes that
  were in memory before, not the address of the table.
\<close>

lemma XV6Main_ok:
  assumes "loader_serves fw kernel_path bs a" and k: "kernel_file bs" and "apart a bs"
    and page: "file_region a bs \<inter> boot_region = {}" "\<forall>ph \<in> set (file_headers bs). seg_region ph \<inter> boot_region = {}"
    and d: "d = pointer_found BOOT m" "\<forall>y \<in> boot_region. 10 \<le> unat (y - d)"
  shows "\<exists>ho w'. XV6Main fw ih m w = Inr (ho, w') \<and> ho_cs ho = 8 \<and> ho_esp ho = 0x7C00 \<and>
    ho_rip ho = ucast (e_entry (elf_at (file_image bs) 0)) \<and>
    (\<forall>ph \<in> set (file_headers bs). \<forall>y \<in> seg_region ph. 10 \<le> unat (y - d) \<longrightarrow> ho_memory ho y = seg_byte bs ph y) \<and>
    ho_gdtr ho = (word_of_nat (read_le m (BOOT + 48) 2), word_of_nat (read_le m (BOOT + 50) 8))"
proof -
  have len: "52 \<le> length bs" "length bs < 2 ^ 64" using k by (auto simp: kernel_file_def)
  let ?m1 = "write_bytes a bs m"
  let ?m2 = "load_segments a ?m1"
  have h1: "holds ?m1 a bs" using len(2) by (rule write_bytes_holds)
  have ld: "loaded bs (file_headers bs) ?m1 ?m2" by (rule load_segments_ok [OF h1 k assms(3)])
  have "holds ?m2 a bs" using assms(3) by (intro loaded_holds [OF ld h1]) (simp add: apart_def)
  then have elf: "elf_at ?m2 a = elf_at (file_image bs) 0" using len by (intro elf_at_image)
  have same: "?m2 y = m y" if "y \<in> boot_region" for y
  proof -
    have "y \<notin> file_region a bs" using that page(1) by blast
    then have "?m1 y = m y" by (simp add: file_region_def write_bytes_def)
    moreover have "\<forall>ph \<in> set (file_headers bs). y \<notin> seg_region ph" using that page(2) by blast
    ultimately show ?thesis using ld by (simp add: loaded_def)
  qed
  have inb: "BOOT + word_of_nat k \<in> boot_region" if "k < 58" for k using that by (simp add: boot_region_def unat_of_nat)
  have "?m2 (BOOT + 48 + word_of_nat i) = m (BOOT + 48 + word_of_nat i)" if "i < 8" for i
    using same [OF inb, of "48 + i"] that by (simp add: add.assoc)
  then have "pointer_found BOOT ?m2 = d" unfolding d(1) pointer_found_def boot_gdt_desc_def
    by (intro arg_cong [where f = word_of_nat] read_le_cong) simp
  then have d2: "d = pointer_found BOOT ?m2" ..
  have away: "10 \<le> unat (BOOT + word_of_nat k - d)" if "k < 58" for k using d(2) inb [OF that] by blast
  let ?e = "ucast (e_entry (elf_at (file_image bs) 0)) :: u64"
  let ?m3 = "fill_boot BOOT ?e ?m2"
  note fb = fill_boot_facts [OF d2 away, where e = ?e]
  have bytes: "?m3 (BOOT + 48 + word_of_nat i) = m (BOOT + 48 + word_of_nat i)" if "i < 10" for i
    using fb(2) [of "48 + i"] same [OF inb, of "48 + i"] that by (simp add: add.assoc)
  have g1: "read_le ?m3 (BOOT + 48) 2 = read_le m (BOOT + 48) 2" by (rule read_le_cong) (use bytes in simp)
  have g2: "read_le ?m3 (BOOT + 50) 8 = read_le m (BOOT + 50) 8"
  proof (rule read_le_cong)
    fix i :: nat assume "i < 8"
    then show "?m3 (BOOT + 50 + word_of_nat i) = m (BOOT + 50 + word_of_nat i)" using bytes [of "2 + i"] by (simp add: add.assoc)
  qed
  have seg: "?m3 y = seg_byte bs ph y" if "ph \<in> set (file_headers bs)" "y \<in> seg_region ph" "10 \<le> unat (y - d)" for ph y
  proof -
    have "y \<notin> boot_region" using that page(2) by blast
    then have "?m3 y = ?m2 y" using that(3) by (intro fb(1)) (simp_all add: boot_region_def)
    with that ld show ?thesis by (simp add: loaded_def)
  qed
  obtain st n w1 where lf: "LoadFile fw kernel_path m (ld_Print fw (''Allocate boot parameters status: %d'' @ crlf) [PNum (fst (ld_AllocateAddress fw 1 BOOT w))] (snd (ld_AllocateAddress fw 1 BOOT w))) =
      ((st, Some a, Some n), ?m1, w1)"
    using LoadFile_ok [OF assms(1)] by blast
  have "a \<noteq> 0" using assms(1) by (simp add: loader_serves_def)
  then show ?thesis using lf fb(3) seg g1 g2 elf
    by (simp add: XV6Main_def split_def Let_def BOOT_def [symmetric] boot_gdt_desc_def add.assoc)
qed

end
