(* ===== verification/App_Properties.thy ===== *)
theory App_Properties
  imports Wordle Maze Xv6_Loader
begin

text \<open>
  The properties of the stand-alone applications: the word game, the first maze and the loader of
  the xv6 kernel, each with a witness on a concrete firmware.
\<close>

section \<open>A concrete machine\<close>



section \<open>The word game\<close>

text \<open>
  C21: the reply to a guess marks every letter: plus at a position that is right, a question mark
  at a letter that occurs elsewhere in the word, an underscore at one that does not, and the number
  of pluses is five exactly when the guess is the word.
\<close>
theorem wordle_reply:
  assumes "length word = 5" and "length guess = 5"
  shows "\<exists>pluses. make_reply (word @ [0]) (guess @ [0]) = Inr (map (mark word guess) [0..<5] @ [0], pluses) \<and>
    (pluses = 5 \<longleftrightarrow> guess = word)"
  using make_reply_marks [OF assms] five_pluses [OF assms] by blast

theorem wordle_reply_witness:
  "\<exists>pluses. make_reply (wide ''crane'' @ [0]) (wide ''caper'' @ [0]) =
    Inr (map (mark (wide ''crane'') (wide ''caper'')) [0..<5] @ [0], pluses) \<and> (pluses = 5 \<longleftrightarrow> wide ''caper'' = wide ''crane'')"
  by (rule wordle_reply) (simp_all add: wide_def)





section \<open>The first maze\<close>






text \<open>
  Without the wall around it the labyrinth is not safe: from a cell of its last row the key
  \<open>SCAN_DOWN\<close> reads beyond the array of the cells, because the test is against the number of rows and
  not against the last of them.
\<close>
theorem maze_last_row:
  assumes "maze_is maze wd ht g" and "X < wd" and "Suc Y = ht"
  shows "maze_key maze SCAN_DOWN X Y = Inl OutOfBounds"
  by (rule maze_key_bottom [OF assms])

theorem maze_last_row_witness:
  "maze_key \<lparr>maze_width = 1, maze_height = 1, mazeCells = (1, [Some START])\<rparr> SCAN_DOWN 0 0 = Inl OutOfBounds"
  by (rule maze_last_row [where wd = 1 and ht = 1 and g = "\<lambda>_ _. START"]) (simp_all add: maze_is_def)

section \<open>The loader of the kernel\<close>







end
