(* ===== verification/Xv6_String.thy ===== *)
theory Xv6_String
  imports Prelude
begin

text \<open>
  The kernel's \<open>string.c\<close>. Memory is a list of bytes and a pointer an index into it, so that
  blocks may overlap; \<open>strncpy\<close>, \<open>safestrcpy\<close> and \<open>strncmp\<close> take the two objects apart.
  Characters are bytes, read as unsigned where the code casts to \<open>uchar\<close>.
\<close>

section \<open>Blocks of memory\<close>

text \<open>
  \<open>stosb\<close> and \<open>stosl\<close> of \<open>x86.h\<close>: the string instructions that store a byte or a word. \<open>stosb\<close>
  and \<open>memmove\<close> do not look at the elements, so they are stated for memory of any elements;
  the screen is memory of 16-bit cells.
\<close>

fun stosb :: "'a list \<Rightarrow> nat \<Rightarrow> 'a \<Rightarrow> nat \<Rightarrow> 'a list result" where
  "stosb mem addr data 0 = Inr mem"
| "stosb mem addr data (Suc cnt) = bindE (wr mem addr data) (\<lambda>mem. stosb mem (addr + 1) data cnt)"

definition store32 :: "u8 list \<Rightarrow> nat \<Rightarrow> u32 \<Rightarrow> u8 list result" where
  "store32 mem addr data =
     loopE (\<lambda>k mem. wr mem (addr + k) (ucast (drop_bit (8 * k) data))) [0..<4] mem"

fun stosl :: "u8 list \<Rightarrow> nat \<Rightarrow> u32 \<Rightarrow> nat \<Rightarrow> u8 list result" where
  "stosl mem addr data 0 = Inr mem"
| "stosl mem addr data (Suc cnt) = bindE (store32 mem addr data) (\<lambda>mem. stosl mem (addr + 4) data cnt)"

definition memset :: "u8 list \<Rightarrow> nat \<Rightarrow> u32 \<Rightarrow> nat \<Rightarrow> u8 list result" where
  "memset mem dst c n =
     (if dst mod 4 = 0 \<and> n mod 4 = 0 then
        (let c = c AND 0xFF
         in stosl mem dst (push_bit 24 c OR push_bit 16 c OR push_bit 8 c OR c) (n div 4))
      else stosb mem dst (ucast c) n)"

fun memcmp :: "u8 list \<Rightarrow> nat \<Rightarrow> nat \<Rightarrow> nat \<Rightarrow> int result" where
  "memcmp mem s1 s2 0 = Inr 0"
| "memcmp mem s1 s2 (Suc n) =
     bindE (rd mem s1) (\<lambda>a. bindE (rd mem s2) (\<lambda>b.
       if a \<noteq> b then Inr (uint a - uint b) else memcmp mem (s1 + 1) (s2 + 1) n))"

fun copy_down :: "'a list \<Rightarrow> nat \<Rightarrow> nat \<Rightarrow> nat \<Rightarrow> 'a list result" where
  "copy_down mem d s 0 = Inr mem"
| "copy_down mem d s (Suc n) =
     bindE (rd mem (s + n)) (\<lambda>c. bindE (wr mem (d + n) c) (\<lambda>mem. copy_down mem d s n))"

fun copy_up :: "'a list \<Rightarrow> nat \<Rightarrow> nat \<Rightarrow> nat \<Rightarrow> 'a list result" where
  "copy_up mem d s 0 = Inr mem"
| "copy_up mem d s (Suc n) =
     bindE (rd mem s) (\<lambda>c. bindE (wr mem d c) (\<lambda>mem. copy_up mem (d + 1) (s + 1) n))"

text \<open>In \<open>copy_down\<close> the pointers of the code are \<open>d + n\<close> and \<open>s + n\<close>.\<close>

definition memmove :: "'a list \<Rightarrow> nat \<Rightarrow> nat \<Rightarrow> nat \<Rightarrow> 'a list result" where
  "memmove mem dst src n =
     (if src < dst \<and> src + n > dst then copy_down mem dst src n else copy_up mem dst src n)"

definition memcpy :: "u8 list \<Rightarrow> nat \<Rightarrow> nat \<Rightarrow> nat \<Rightarrow> u8 list result" where
  "memcpy mem dst src n = memmove mem dst src n"

section \<open>Strings\<close>

fun strncmp :: "u8 list \<Rightarrow> u8 list \<Rightarrow> nat \<Rightarrow> nat \<Rightarrow> int result" where
  "strncmp p q i 0 = Inr 0"
| "strncmp p q i (Suc n) =
     bindE (rd p i) (\<lambda>a. bindE (rd q i) (\<lambda>b.
       if a \<noteq> 0 \<and> a = b then strncmp p q (i + 1) n else Inr (uint a - uint b)))"

definition dec32 :: "int \<Rightarrow> int result" where
  "dec32 n = (if n = - (2 ^ 31) then Inl SignedOverflow else Inr (n - 1))"

text \<open>The two loops of \<open>strncpy\<close>; the condition \<open>n-- > 0\<close> decrements \<open>n\<close> when it fails, too.\<close>

function strncpy_copy :: "u8 list \<Rightarrow> u8 list \<Rightarrow> nat \<Rightarrow> int \<Rightarrow> (u8 list \<times> nat \<times> int) result" where
  "strncpy_copy s t i n =
     bindE (dec32 n) (\<lambda>n'.
     if n > 0 then
       bindE (rd t i) (\<lambda>c. bindE (wr s i c) (\<lambda>s.
         if c \<noteq> 0 then strncpy_copy s t (i + 1) n' else Inr (s, i + 1, n')))
     else Inr (s, i, n'))"
  by pat_completeness auto
termination by (relation "measure (\<lambda>(s, t, i, n). nat n)") (auto simp: dec32_def split: if_splits)

function strncpy_pad :: "u8 list \<Rightarrow> nat \<Rightarrow> int \<Rightarrow> u8 list result" where
  "strncpy_pad s i n =
     bindE (dec32 n) (\<lambda>n'.
     if n > 0 then bindE (wr s i 0) (\<lambda>s. strncpy_pad s (i + 1) n') else Inr s)"
  by pat_completeness auto
termination by (relation "measure (\<lambda>(s, i, n). nat n)") (auto simp: dec32_def split: if_splits)

definition strncpy :: "u8 list \<Rightarrow> u8 list \<Rightarrow> int \<Rightarrow> u8 list result" where
  "strncpy s t n = bindE (strncpy_copy s t 0 n) (\<lambda>(s, i, n). strncpy_pad s i n)"

fun safestrcpy_copy :: "u8 list \<Rightarrow> u8 list \<Rightarrow> nat \<Rightarrow> nat \<Rightarrow> (u8 list \<times> nat) result" where
  "safestrcpy_copy s t i 0 = Inr (s, i)"
| "safestrcpy_copy s t i (Suc n) =
     bindE (rd t i) (\<lambda>c. bindE (wr s i c) (\<lambda>s.
       if c \<noteq> 0 then safestrcpy_copy s t (i + 1) n else Inr (s, i + 1)))"

text \<open>\<open>while(--n > 0 && ...)\<close> runs at most \<open>n - 1\<close> times.\<close>

definition safestrcpy :: "u8 list \<Rightarrow> u8 list \<Rightarrow> int \<Rightarrow> u8 list result" where
  "safestrcpy s t n =
     (if n \<le> 0 then Inr s
      else bindE (safestrcpy_copy s t 0 (nat n - 1)) (\<lambda>(s, i). wr s i 0))"

fun strlen_from :: "u8 list \<Rightarrow> nat \<Rightarrow> nat result" where
  "strlen_from [] n = Inl OutOfBounds"
| "strlen_from (c # cs) n = (if c \<noteq> 0 then strlen_from cs (n + 1) else Inr n)"

definition strlen :: "u8 list \<Rightarrow> nat result" where
  "strlen s = strlen_from s 0"

section \<open>What they compute\<close>

text \<open>The bytes of a block replaced by others of the same number.\<close>

definition overwrite :: "'a list \<Rightarrow> nat \<Rightarrow> 'a list \<Rightarrow> 'a list" where
  "overwrite mem dst xs = take dst mem @ xs @ drop (dst + length xs) mem"

lemma length_overwrite [simp]: "dst + length xs \<le> length mem \<Longrightarrow> length (overwrite mem dst xs) = length mem"
  by (simp add: overwrite_def)

lemma overwrite_Nil [simp]: "overwrite mem dst [] = mem"
  by (simp add: overwrite_def)

lemma nth_overwrite:
  assumes "dst + length xs \<le> length mem" and "i < length mem"
  shows "overwrite mem dst xs ! i = (if dst \<le> i \<and> i < dst + length xs then xs ! (i - dst) else mem ! i)"
  using assms by (auto simp: overwrite_def nth_append min_def)

lemma overwrite_eqI:
  assumes "length mem' = length mem" and "dst + length xs \<le> length mem"
    and "\<And>i. i < length mem \<Longrightarrow> mem' ! i = (if dst \<le> i \<and> i < dst + length xs then xs ! (i - dst) else mem ! i)"
  shows "mem' = overwrite mem dst xs"
  by (rule nth_equalityI) (use assms in \<open>simp_all add: nth_overwrite\<close>)

lemma overwrite_Cons:
  "dst < length mem \<Longrightarrow> dst + Suc (length xs) \<le> length mem \<Longrightarrow>
    overwrite (mem[dst := x]) (Suc dst) xs = overwrite mem dst (x # xs)"
  by (rule overwrite_eqI) (auto simp: nth_overwrite nth_list_update_if nth_Cons')

lemma overwrite_snoc:
  "dst + length xs < length mem \<Longrightarrow>
    overwrite (mem[dst + length xs := x]) dst xs = overwrite mem dst (xs @ [x])"
  by (rule overwrite_eqI) (auto simp: nth_overwrite nth_list_update_if nth_append)

lemma drop_overwrite:
  "dst + length xs \<le> length mem \<Longrightarrow> dst + length xs \<le> k \<Longrightarrow> drop k (overwrite mem dst xs) = drop k mem"
  by (simp add: overwrite_def min_def)

lemma take_drop_Cons: "k < length mem \<Longrightarrow> take (Suc n) (drop k mem) = mem ! k # take n (drop (Suc k) mem)"
  by (subst Cons_nth_drop_Suc [symmetric]) simp_all

lemma overwrite_append:
  assumes "dst + length xs + length ys \<le> length mem"
  shows "overwrite (overwrite mem dst xs) (dst + length xs) ys = overwrite mem dst (xs @ ys)"
  by (rule overwrite_eqI) (use assms in \<open>auto simp: nth_overwrite nth_append\<close>)

lemma stosb_fills:
  "addr + cnt \<le> length mem \<Longrightarrow> stosb mem addr data cnt = Inr (overwrite mem addr (replicate cnt data))"
proof (induction cnt arbitrary: mem addr)
  case 0
  then show ?case by simp
next
  case (Suc cnt)
  then show ?case by (simp add: overwrite_Cons)
qed

lemma store32_eq:
  assumes "addr + 4 \<le> length mem"
  shows "store32 mem addr data =
    Inr (overwrite mem addr [ucast data, ucast (drop_bit 8 data), ucast (drop_bit 16 data), ucast (drop_bit 24 data)])"
proof -
  have l: "[0..<4] = [0, 1, 2, 3 :: nat]" by (simp add: upt_conv_Cons)
  have "mem[addr := a, addr + 1 := b, addr + 2 := c, addr + 3 := d] = overwrite mem addr [a, b, c, d]" for a b c d
    by (rule overwrite_eqI) (use assms in \<open>auto simp: nth_list_update_if nth_Cons split: nat.splits\<close>)
  with assms show ?thesis by (simp add: store32_def l)
qed

lemma stosl_fills:
  assumes "\<forall>k < 4. (ucast (drop_bit (8 * k) data) :: u8) = b"
  shows "addr + 4 * cnt \<le> length mem \<Longrightarrow> stosl mem addr data cnt = Inr (overwrite mem addr (replicate (4 * cnt) b))"
proof (induction cnt arbitrary: mem addr)
  case 0
  then show ?case by simp
next
  case (Suc cnt)
  have b: "(ucast data :: u8) = b" "(ucast (drop_bit 8 data) :: u8) = b" "(ucast (drop_bit 16 data) :: u8) = b"
    "(ucast (drop_bit 24 data) :: u8) = b"
    using assms [rule_format, of 0] assms [rule_format, of 1] assms [rule_format, of 2] assms [rule_format, of 3] by simp_all
  have "replicate 4 b = [b, b, b, b]" by (simp add: numeral_eq_Suc)
  then have "store32 mem addr data = Inr (overwrite mem addr (replicate 4 b))"
    using Suc.prems by (simp add: store32_eq b)
  moreover have "overwrite (overwrite mem addr (replicate 4 b)) (addr + 4) (replicate (4 * cnt) b) =
      overwrite mem addr (replicate (4 * Suc cnt) b)"
    using Suc.prems overwrite_append [of addr "replicate 4 b" "replicate (4 * cnt) b" mem] by (simp flip: replicate_add)
  ultimately show ?case using Suc.prems Suc.IH by simp
qed

text \<open>The word that \<open>memset\<close> builds holds the byte four times.\<close>

lemma memset_word:
  fixes c :: u32
  assumes "k < 4"
  shows "ucast (drop_bit (8 * k) (push_bit 24 (c AND 0xFF) OR push_bit 16 (c AND 0xFF) OR push_bit 8 (c AND 0xFF) OR c AND 0xFF)) =
    (ucast c :: u8)"
proof -
  have m: "(0xFF :: u32) = mask 8" by (simp add: mask_eq_exp_minus_1)
  have k: "k = 0 \<or> k = 1 \<or> k = 2 \<or> k = 3" using assms by auto
  show ?thesis unfolding m
  proof (rule bit_word_eqI)
    fix n assume "n < LENGTH(8)"
    with k show "bit (ucast (drop_bit (8 * k) (push_bit 24 (c AND mask 8) OR push_bit 16 (c AND mask 8) OR
        push_bit 8 (c AND mask 8) OR c AND mask 8)) :: u8) n = bit (ucast c :: u8) n"
      by (elim disjE) (simp_all add: bit_simps)
  qed
qed

lemma memset_fills:
  assumes "dst + n \<le> length mem"
  shows "memset mem dst c n = Inr (overwrite mem dst (replicate n (ucast c)))"
proof (cases "dst mod 4 = 0 \<and> n mod 4 = 0")
  case True
  then have "4 * (n div 4) = n" by auto
  with True assms show ?thesis
    using stosl_fills [of _ "ucast c" dst "n div 4" mem] memset_word [of _ c] by (simp add: memset_def Let_def)
next
  case False
  with assms show ?thesis unfolding memset_def by (auto simp: stosb_fills)
qed

text \<open>
  \<open>memmove\<close>: the direction of the copy is chosen such that no byte of the source is
  overwritten before it is read.
\<close>

lemma copy_up_eq:
  assumes "s + n \<le> length mem" and "d + n \<le> length mem" and "\<not> (s < d \<and> d < s + n)"
  shows "copy_up mem d s n = Inr (overwrite mem d (take n (drop s mem)))"
  using assms
proof (induction n arbitrary: mem d s)
  case 0
  then show ?case by simp
next
  case (Suc n)
  have src: "take n (drop (Suc s) (mem[d := mem ! s])) = take n (drop (Suc s) mem)"
    using Suc.prems by (intro nth_equalityI) (auto simp: nth_list_update_if)
  have split: "take (Suc n) (drop s mem) = mem ! s # take n (drop (Suc s) mem)"
    using Suc.prems by (simp add: take_drop_Cons)
  have "copy_up (mem[d := mem ! s]) (d + 1) (s + 1) n =
      Inr (overwrite (mem[d := mem ! s]) (Suc d) (take n (drop (Suc s) (mem[d := mem ! s]))))"
  proof -
    have "\<not> (s + 1 < d + 1 \<and> d + 1 < s + 1 + n)" using Suc.prems(3) by linarith
    with Suc.IH [of "s + 1" "mem[d := mem ! s]" "d + 1"] Suc.prems show ?thesis by simp
  qed
  also have "\<dots> = Inr (overwrite mem d (take (Suc n) (drop s mem)))"
    unfolding src split using Suc.prems by (subst overwrite_Cons) simp_all
  finally show ?case using Suc.prems by simp
qed

lemma copy_down_eq:
  assumes "s + n \<le> length mem" and "d + n \<le> length mem" and "s \<le> d"
  shows "copy_down mem d s n = Inr (overwrite mem d (take n (drop s mem)))"
  using assms
proof (induction n arbitrary: mem)
  case 0
  then show ?case by simp
next
  case (Suc n)
  let ?mem = "mem[d + n := mem ! (s + n)]"
  have src: "take n (drop s ?mem) = take n (drop s mem)"
    using Suc.prems by (intro nth_equalityI) (auto simp: nth_list_update_if)
  have split: "take (Suc n) (drop s mem) = take n (drop s mem) @ [mem ! (s + n)]"
    using Suc.prems by (subst take_Suc_conv_app_nth) simp_all
  have "length (take n (drop s mem)) = n" using Suc.prems by simp
  then have "overwrite ?mem d (take n (drop s mem)) = overwrite mem d (take (Suc n) (drop s mem))"
    unfolding split using overwrite_snoc [of d "take n (drop s mem)" mem "mem ! (s + n)"] Suc.prems by simp
  then show ?case using Suc.IH [of ?mem] Suc.prems by (simp add: src)
qed

lemma memmove_moves:
  assumes "src + n \<le> length mem" and "dst + n \<le> length mem"
  shows "memmove mem dst src n = Inr (overwrite mem dst (take n (drop src mem)))"
  using assms copy_up_eq [of src n mem dst] copy_down_eq [of src n mem dst] by (auto simp: memmove_def)

lemma memcmp_equal_iff:
  assumes "s1 + n \<le> length mem" and "s2 + n \<le> length mem"
  shows "\<exists>r. memcmp mem s1 s2 n = Inr r \<and> (r = 0 \<longleftrightarrow> take n (drop s1 mem) = take n (drop s2 mem))"
  using assms
proof (induction n arbitrary: s1 s2)
  case 0
  then show ?case by simp
next
  case (Suc n)
  have "s1 < length mem" "s2 < length mem" using Suc.prems by simp_all
  with Suc.IH [of "Suc s1" "Suc s2"] Suc.prems show ?case
    by (auto simp: take_drop_Cons word_uint_eq_iff)
qed

text \<open>The characters of a string, up to its terminating zero.\<close>

definition c_str :: "u8 list \<Rightarrow> u8 list" where
  "c_str t = takeWhile (\<lambda>c. c \<noteq> 0) t"

lemma strlen_c_str: "0 \<in> set s \<Longrightarrow> strlen s = Inr (length (c_str s))"
proof -
  have "0 \<in> set s \<Longrightarrow> strlen_from s n = Inr (n + length (takeWhile (\<lambda>c. c \<noteq> 0) s))" for n
    by (induction s arbitrary: n) auto
  then show "0 \<in> set s \<Longrightarrow> strlen s = Inr (length (c_str s))" by (simp add: strlen_def c_str_def)
qed

lemma c_str_prefix: "0 \<notin> set xs \<Longrightarrow> c_str (xs @ 0 # ys) = xs"
  by (induction xs) (auto simp: c_str_def)

text \<open>
  The loop of \<open>safestrcpy\<close>: the bytes from \<open>i\<close> on are the rest of the source, cut off at \<open>n\<close>
  characters, with the zero if it was reached.
\<close>

lemma safestrcpy_copy_eq:
  assumes "i + n \<le> length s" and "0 \<in> set (drop i t)"
  shows "safestrcpy_copy s t i n =
    (let u = c_str (drop i t)
     in if length u < n then Inr (overwrite s i (u @ [0]), i + length u + 1) else Inr (overwrite s i (take n u), i + n))"
  using assms
proof (induction n arbitrary: s i)
  case 0
  then show ?case by simp
next
  case (Suc n)
  have i: "i < length t" using Suc.prems(2) by (metis drop_all empty_iff list.set(1) not_less)
  have dr: "drop i t = t ! i # drop (Suc i) t" using i by (simp add: Cons_nth_drop_Suc)
  show ?case
  proof (cases "t ! i = 0")
    case True
    have "s[i := 0] = overwrite s i [0]" using Suc.prems(1) overwrite_snoc [of i "[]" s 0] by simp
    with True Suc.prems(1) i show ?thesis by (simp add: dr c_str_def)
  next
    case False
    then have "0 \<in> set (drop (i + 1) t)" using Suc.prems(2) by (simp add: dr)
    with Suc.IH [of "i + 1" "s[i := t ! i]"] Suc.prems(1) False i show ?thesis
      by (auto simp: dr c_str_def Let_def overwrite_Cons)
  qed
qed

lemma safestrcpy_string:
  assumes "0 < n" and "nat n \<le> length s" and "0 \<in> set t"
  shows "\<exists>s'. safestrcpy s t n = Inr s' \<and> length s' = length s \<and> c_str s' = take (nat n - 1) (c_str t) \<and>
    drop (nat n) s' = drop (nat n) s"
proof -
  let ?u = "c_str t" and ?m = "nat n - 1"
  have nz: "0 \<notin> set ?u" by (auto simp: c_str_def dest: set_takeWhileD)
  have m: "Suc ?m \<le> length s" "nat n = Suc ?m" using assms(1,2) by simp_all
  have copy: "safestrcpy_copy s t 0 ?m = (if length ?u < ?m then Inr (overwrite s 0 (?u @ [0]), length ?u + 1)
      else Inr (overwrite s 0 (take ?m ?u), ?m))"
    using safestrcpy_copy_eq [of 0 ?m s t] m(1) assms(3) by (simp add: Let_def)
  show ?thesis
  proof (cases "length ?u < ?m")
    case True
    have "(overwrite s 0 (?u @ [0]))[length ?u + 1 := 0] = overwrite s 0 (?u @ [0, 0])"
      by (rule overwrite_eqI) (use True m in \<open>auto simp: nth_overwrite nth_list_update_if nth_append less_Suc_eq\<close>)
    with True copy m assms(1) have "safestrcpy s t n = Inr (overwrite s 0 (?u @ [0, 0]))"
      by (simp add: safestrcpy_def)
    moreover have "c_str (overwrite s 0 (?u @ [0, 0])) = ?u" using nz by (simp add: overwrite_def c_str_prefix)
    ultimately show ?thesis using True m by (simp add: drop_overwrite)
  next
    case False
    have "(overwrite s 0 (take ?m ?u))[?m := 0] = overwrite s 0 (take ?m ?u @ [0])"
      by (rule overwrite_eqI) (use False m in \<open>auto simp: nth_overwrite nth_list_update_if nth_append\<close>)
    with False copy m assms(1) have "safestrcpy s t n = Inr (overwrite s 0 (take ?m ?u @ [0]))"
      by (simp add: safestrcpy_def)
    moreover have "0 \<notin> set (take ?m ?u)" using nz by (meson in_set_takeD)
    then have "c_str (overwrite s 0 (take ?m ?u @ [0])) = take ?m ?u" by (simp add: overwrite_def c_str_prefix)
    ultimately show ?thesis using False m by (simp add: drop_overwrite)
  qed
qed

end
