(* ===== verification/Xv6_Log.thy ===== *)
theory Xv6_Log
  imports Xv6_String
begin

text \<open>
  \<open>log.c\<close>: the redo log that makes the updates of file system calls atomic. The store below it
  is what the buffer cache (\<open>Xv6_Bio\<close>) provides: the disk, and the blocks whose buffers hold
  something newer and are pinned in memory. Every block that reaches the disk is recorded, so
  that a crash between any two of them can be described.
\<close>

section \<open>Words in a block\<close>

definition BSIZE :: nat where "BSIZE = 512"

definition put32 :: "u8 list \<Rightarrow> nat \<Rightarrow> u32 \<Rightarrow> u8 list result" where
  "put32 d off v = (if off + 4 \<le> length d then Inr (overwrite d off (le_encode 4 (unat v))) else Inl OutOfBounds)"

definition get32 :: "u8 list \<Rightarrow> nat \<Rightarrow> u32 result" where
  "get32 d off = bindE (le_field d off 4) (\<lambda>v. Inr (word_of_nat v))"

lemma le_encode_4_value: "le_bytes (le_encode 4 (unat (v :: u32))) = unat v"
  using unsigned_less [of v] by (intro le_bytes_encode) simp

lemma get_put_same:
  "off + 4 \<le> length d \<Longrightarrow> get32 (overwrite d off (le_encode 4 (unat v))) off = Inr v"
  by (simp add: get32_def le_field_def overwrite_def le_encode_4_value)

lemma get_put_other:
  assumes "off + 4 \<le> length d" and "off' + 4 \<le> off \<or> off + 4 \<le> off'"
  shows "get32 (overwrite d off (le_encode 4 (unat v))) off' = get32 d off'"
proof -
  let ?o = "overwrite d off (le_encode 4 (unat v))"
  have "take 4 (drop off' ?o) = take 4 (drop off' d)"
    by (rule nth_equalityI) (use assms in \<open>auto simp: nth_overwrite\<close>)
  moreover have "length ?o = length d" using assms(1) by simp
  ultimately show ?thesis by (simp add: get32_def le_field_def)
qed

lemma put32_in: "off + 4 \<le> length d \<Longrightarrow> put32 d off v = Inr (overwrite d off (le_encode 4 (unat v)))"
  by (simp add: put32_def)

section \<open>The store\<close>

type_synonym block = "u8 list"

record store =
  disk :: "u32 \<Rightarrow> block"
  pinned :: "u32 \<Rightarrow> block option"
  written :: "(u32 \<times> block) list"

definition store_read :: "u32 \<Rightarrow> store \<Rightarrow> block" where
  "store_read b s = (case pinned s b of None \<Rightarrow> disk s b | Some d \<Rightarrow> d)"

text \<open>\<open>bwrite\<close> of a buffer with the contents \<open>d\<close>: the buffer is clean afterwards.\<close>

definition store_write :: "u32 \<Rightarrow> block \<Rightarrow> store \<Rightarrow> store" where
  "store_write b d s = s\<lparr>disk := (disk s)(b := d), pinned := (pinned s)(b := None), written := written s @ [(b, d)]\<rparr>"

section \<open>The log\<close>

definition LOGSIZE :: nat where "LOGSIZE = 30"
definition MAXOPBLOCKS :: nat where "MAXOPBLOCKS = 10"

record logheader =
  lh_n :: int
  lh_block :: "u32 list"

record log =
  log_start :: u32
  log_size :: int
  outstanding :: int
  committing :: bool
  lh :: logheader

text \<open>The block of the log for entry number \<open>tail\<close>.\<close>

definition log_block :: "log \<Rightarrow> nat \<Rightarrow> u32" where
  "log_block l tail = log_start l + word_of_nat tail + 1"

definition install_trans :: "log \<Rightarrow> store \<Rightarrow> store result" where
  "install_trans l s =
     loopE (\<lambda>tail s.
       bindE (rd (lh_block (lh l)) tail) (\<lambda>b.
       let lbuf = store_read (log_block l tail) s
       in Inr (store_write b lbuf s))) [0..<nat (lh_n (lh l))] s"

definition read_head :: "log \<Rightarrow> store \<Rightarrow> log result" where
  "read_head l s =
     (let buf = store_read (log_start l) s in
      bindE (get32 buf 0) (\<lambda>n.
      bindE (loopE (\<lambda>i bs. bindE (get32 buf (4 + 4 * i)) (\<lambda>b. wr bs i b)) [0..<nat (sint n)] (lh_block (lh l)))
        (\<lambda>bs. Inr (l\<lparr>lh := \<lparr>lh_n = sint n, lh_block = bs\<rparr>\<rparr>))))"

definition head_data :: "logheader \<Rightarrow> block \<Rightarrow> block result" where
  "head_data h buf =
     bindE (put32 buf 0 (word_of_int (lh_n h))) (\<lambda>buf.
     loopE (\<lambda>i buf. bindE (rd (lh_block h) i) (\<lambda>b. put32 buf (4 + 4 * i) b)) [0..<nat (lh_n h)] buf)"

definition write_head :: "log \<Rightarrow> store \<Rightarrow> store result" where
  "write_head l s =
     bindE (head_data (lh l) (store_read (log_start l) s)) (\<lambda>buf. Inr (store_write (log_start l) buf s))"

definition clear_head :: "log \<Rightarrow> log" where
  "clear_head l = l\<lparr>lh := (lh l)\<lparr>lh_n := 0\<rparr>\<rparr>"

definition recover_from_log :: "log \<Rightarrow> store \<Rightarrow> (log \<times> store) result" where
  "recover_from_log l s =
     bindE (read_head l s) (\<lambda>l.
     bindE (install_trans l s) (\<lambda>s.
     let l = clear_head l in
     bindE (write_head l s) (\<lambda>s. Inr (l, s))))"

definition write_log :: "log \<Rightarrow> store \<Rightarrow> store result" where
  "write_log l s =
     loopE (\<lambda>tail s.
       bindE (rd (lh_block (lh l)) tail) (\<lambda>b.
       let from = store_read b s
       in Inr (store_write (log_block l tail) from s))) [0..<nat (lh_n (lh l))] s"

definition commit :: "log \<Rightarrow> store \<Rightarrow> (log \<times> store) result" where
  "commit l s =
     (if lh_n (lh l) > 0 then
        bindE (write_log l s) (\<lambda>s.
        bindE (write_head l s) (\<lambda>s.
        bindE (install_trans l s) (\<lambda>s.
        let l = clear_head l in
        bindE (write_head l s) (\<lambda>s. Inr (l, s)))))
      else Inr (l, s))"

text \<open>
  The calls around a file system operation. \<open>begin_op\<close> that has to wait is blocked until a
  commit; the log lock is held in each of them.
\<close>

definition begin_op :: "log \<Rightarrow> log result" where
  "begin_op l =
     (if committing l then Inl Blocked
      else if lh_n (lh l) + (outstanding l + 1) * int MAXOPBLOCKS > int LOGSIZE then Inl Blocked
      else Inr (l\<lparr>outstanding := outstanding l + 1\<rparr>))"

definition end_op :: "log \<Rightarrow> store \<Rightarrow> (log \<times> store) result" where
  "end_op l s =
     (let l = l\<lparr>outstanding := outstanding l - 1\<rparr> in
      if committing l then Inl (Panic ''log.committing'') else
      if outstanding l = 0 then
        (let l = l\<lparr>committing := True\<rparr> in
         bindE (commit l s) (\<lambda>(l, s). Inr (l\<lparr>committing := False\<rparr>, s)))
      else Inr (l, s))"

text \<open>\<open>log_write\<close> of a buffer of block \<open>b\<close> with the contents \<open>d\<close>.\<close>

definition log_write :: "u32 \<Rightarrow> block \<Rightarrow> log \<Rightarrow> store \<Rightarrow> (log \<times> store) result" where
  "log_write b d l s =
     (if lh_n (lh l) \<ge> int LOGSIZE \<or> lh_n (lh l) \<ge> log_size l - 1 then Inl (Panic ''too big a transaction'') else
      if outstanding l < 1 then Inl (Panic ''log_write outside of trans'') else
      let n = nat (lh_n (lh l));
          i = length (takeWhile (\<lambda>x. x \<noteq> b) (take n (lh_block (lh l))))
      in bindE (wr (lh_block (lh l)) i b) (\<lambda>bs.
         Inr (l\<lparr>lh := \<lparr>lh_n = (if i = n then lh_n (lh l) + 1 else lh_n (lh l)), lh_block = bs\<rparr>\<rparr>,
              s\<lparr>pinned := (pinned s)(b \<mapsto> d)\<rparr>)))"

definition initlog :: "u32 \<Rightarrow> int \<Rightarrow> log \<Rightarrow> store \<Rightarrow> (log \<times> store) result" where
  "initlog logstart nlog l s = recover_from_log (l\<lparr>log_start := logstart, log_size := nlog\<rparr>) s"

section \<open>Sequences of writes\<close>

definition apply_writes :: "(u32 \<times> block) list \<Rightarrow> (u32 \<Rightarrow> block) \<Rightarrow> u32 \<Rightarrow> block" where
  "apply_writes ws d = fold (\<lambda>(b, x) d. d(b := x)) ws d"

definition run_writes :: "(u32 \<times> block) list \<Rightarrow> store \<Rightarrow> store" where
  "run_writes ws s = fold (\<lambda>(b, x). store_write b x) ws s"

lemma apply_writes_simps [simp]:
  "apply_writes [] d = d" "apply_writes (ws @ vs) d = apply_writes vs (apply_writes ws d)"
  "apply_writes [(b, x)] d = d(b := x)"
  by (simp_all add: apply_writes_def)

lemma run_writes_simps [simp]:
  "run_writes [] s = s" "run_writes (ws @ vs) s = run_writes vs (run_writes ws s)"
  "run_writes [(b, x)] s = store_write b x s"
  by (simp_all add: run_writes_def)

lemma apply_writes_Cons: "apply_writes ((b, x) # ws) d = apply_writes ws (d(b := x))"
  by (simp add: apply_writes_def)

lemma run_writes_Cons: "run_writes ((b, x) # ws) s = run_writes ws (store_write b x s)"
  by (simp add: run_writes_def)

lemma apply_writes_other: "b \<notin> fst ` set ws \<Longrightarrow> apply_writes ws d b = d b"
  by (induction ws rule: rev_induct) (auto split: prod.splits)

lemma apply_writes_at:
  assumes "distinct (map fst ws)" and "i < length ws"
  shows "apply_writes ws d (fst (ws ! i)) = snd (ws ! i)"
  using assms
proof (induction ws arbitrary: i rule: rev_induct)
  case Nil
  then show ?case by simp
next
  case (snoc w ws)
  obtain b x where w: "w = (b, x)" by fastforce
  show ?case
  proof (cases "i = length ws")
    case True
    then show ?thesis by (simp add: w)
  next
    case False
    with snoc.prems have i: "i < length ws" by simp
    have "b \<notin> fst ` set ws" using snoc.prems(1) w by simp
    then have "fst (ws ! i) \<noteq> b" using i by (metis image_eqI nth_mem)
    with snoc i w show ?thesis by (simp add: nth_append)
  qed
qed

lemma run_writes_fields:
  "disk (run_writes ws s) = apply_writes ws (disk s)" "written (run_writes ws s) = written s @ ws"
  by (induction ws rule: rev_induct) (auto simp: store_write_def split: prod.splits)

lemma pinned_run_writes: "pinned (run_writes ws s) b = (if b \<in> fst ` set ws then None else pinned s b)"
  by (induction ws rule: rev_induct) (force simp: store_write_def split: prod.splits)+

lemma store_read_run_writes: "b \<notin> fst ` set ws \<Longrightarrow> store_read b (run_writes ws s) = store_read b s"
  by (simp add: store_read_def pinned_run_writes run_writes_fields apply_writes_other split: option.splits)

lemma store_read_clean: "pinned s b = None \<Longrightarrow> store_read b s = disk s b"
  by (simp add: store_read_def)

text \<open>A loop whose iterations write one block each.\<close>

lemma writes_loop:
  assumes "\<And>t. t < length ws \<Longrightarrow>
    step t (run_writes (take t ws) s) = Inr (store_write (fst (ws ! t)) (snd (ws ! t)) (run_writes (take t ws) s))"
  shows "loopE step [0..<length ws] s = Inr (run_writes ws s)"
proof -
  have "\<exists>s'. loopE step [0..<length ws] s = Inr s' \<and> s' = run_writes (take (length ws) ws) s"
  proof (rule loopE_upt_total [where P = "\<lambda>t s'. s' = run_writes (take t ws) s"])
    fix t s' assume "t < length ws" and s': "s' = run_writes (take t ws) s"
    then have "run_writes (take (Suc t) ws) s = store_write (fst (ws ! t)) (snd (ws ! t)) s'"
      by (cases "ws ! t") (simp add: take_Suc_conv_app_nth)
    with assms [OF \<open>t < length ws\<close>] s'
    show "\<exists>s''. step t s' = Inr s'' \<and> s'' = run_writes (take (Suc t) ws) s" by simp
  qed simp_all
  then show ?thesis by simp
qed

section \<open>The header\<close>

text \<open>
  The number of blocks the log can hold: \<open>log_write\<close> refuses more than the header has room for and
  more than the blocks behind the header block.
\<close>

definition log_cap :: "log \<Rightarrow> nat" where
  "log_cap l = min LOGSIZE (nat (log_size l - 1))"

lemma log_cap_le: "n \<le> log_cap l \<Longrightarrow> n \<le> LOGSIZE"
  by (simp add: log_cap_def)

text \<open>The header block of a disk lists the blocks \<open>bs\<close>.\<close>

definition head_is :: "log \<Rightarrow> (u32 \<Rightarrow> block) \<Rightarrow> u32 list \<Rightarrow> bool" where
  "head_is l d bs \<longleftrightarrow> length (d (log_start l)) = BSIZE \<and> length bs \<le> log_cap l \<and>
     get32 (d (log_start l)) 0 = Inr (word_of_nat (length bs)) \<and>
     (\<forall>i < length bs. get32 (d (log_start l)) (4 + 4 * i) = Inr (bs ! i))"

definition log_ok :: "log \<Rightarrow> bool" where
  "log_ok l \<longleftrightarrow> length (lh_block (lh l)) = LOGSIZE \<and> 0 \<le> lh_n (lh l) \<and> lh_n (lh l) \<le> int (log_cap l)"

definition log_blocks :: "log \<Rightarrow> u32 list" where
  "log_blocks l = take (nat (lh_n (lh l))) (lh_block (lh l))"

lemma length_log_blocks: "log_ok l \<Longrightarrow> length (log_blocks l) = nat (lh_n (lh l))"
  using log_cap_le [of "nat (lh_n (lh l))" l] by (simp add: log_ok_def log_blocks_def min_absorb2 nat_le_iff)

lemma log_blocks_fit: "log_ok l \<Longrightarrow> length (log_blocks l) \<le> log_cap l"
  by (simp add: length_log_blocks) (simp add: log_ok_def nat_le_iff)

lemma head_data_ok:
  assumes "length buf = BSIZE" and "log_ok l"
  shows "\<exists>buf'. head_data (lh l) buf = Inr buf' \<and> length buf' = BSIZE \<and>
    get32 buf' 0 = Inr (word_of_nat (length (log_blocks l))) \<and>
    (\<forall>i < length (log_blocks l). get32 buf' (4 + 4 * i) = Inr (log_blocks l ! i))"
proof -
  let ?b = "lh_block (lh l)"
  obtain n where n: "lh_n (lh l) = int n" "n \<le> 30" "length ?b = 30"
    using assms(2) by (intro that [of "nat (lh_n (lh l))"]) (auto simp: log_ok_def log_cap_def LOGSIZE_def)
  define P where "P k buf' \<longleftrightarrow> length buf' = BSIZE \<and> get32 buf' 0 = Inr (word_of_nat n :: u32) \<and>
      (\<forall>i < k. get32 buf' (4 + 4 * i) = Inr (?b ! i))" for k buf'
  let ?buf0 = "overwrite buf 0 (le_encode 4 (unat (word_of_nat n :: u32)))"
  have "\<exists>buf'. loopE (\<lambda>i buf. bindE (rd ?b i) (\<lambda>b. put32 buf (4 + 4 * i) b)) [0..<n] ?buf0 = Inr buf' \<and> P n buf'"
  proof (rule loopE_upt_total [where P = P])
    show "P 0 ?buf0" using assms(1) by (simp add: P_def get_put_same BSIZE_def)
    fix i buf' assume "i < n" and "P i buf'"
    then show "\<exists>s'. bindE (rd ?b i) (\<lambda>b. put32 buf' (4 + 4 * i) b) = Inr s' \<and> P (Suc i) s'"
      using n by (auto simp: P_def put32_in BSIZE_def get_put_same get_put_other less_Suc_eq)
  qed simp
  moreover have "put32 buf 0 (word_of_int (lh_n (lh l))) = Inr ?buf0"
    using assms(1) n(1) by (simp add: put32_in BSIZE_def)
  ultimately show ?thesis
    using n by (auto simp: head_data_def P_def length_log_blocks [OF assms(2)] log_blocks_def)
qed

lemma sint_small: "n \<le> 30 \<Longrightarrow> sint (word_of_nat n :: u32) = int n"
  by (simp add: signed_of_nat signed_take_bit_int_eq_self)

lemma read_head_ok:
  assumes "head_is l (disk s) bs" and "pinned s (log_start l) = None" and "length (lh_block (lh l)) = LOGSIZE"
  shows "\<exists>l'. read_head l s = Inr l' \<and> log_ok l' \<and> log_blocks l' = bs \<and> log_start l' = log_start l \<and> log_size l' = log_size l"
proof -
  let ?buf = "disk s (log_start l)" and ?n = "length bs"
  have n: "?n \<le> 30" "?n \<le> log_cap l" using assms(1) by (auto simp: head_is_def log_cap_def LOGSIZE_def)
  define P where "P k xs \<longleftrightarrow> length xs = LOGSIZE \<and> take k xs = take k bs" for k and xs :: "u32 list"
  have "\<exists>xs. loopE (\<lambda>i bs. bindE (get32 ?buf (4 + 4 * i)) (\<lambda>b. wr bs i b)) [0..<?n] (lh_block (lh l)) = Inr xs \<and> P ?n xs"
  proof (rule loopE_upt_total [where P = P])
    show "P 0 (lh_block (lh l))" using assms(3) by (simp add: P_def)
    fix i xs assume i: "i < ?n" and "P i xs"
    moreover have "get32 ?buf (4 + 4 * i) = Inr (bs ! i)" using assms(1) i by (simp add: head_is_def)
    ultimately show "\<exists>s'. bindE (get32 ?buf (4 + 4 * i)) (\<lambda>b. wr xs i b) = Inr s' \<and> P (Suc i) s'"
      using n by (simp add: P_def LOGSIZE_def take_Suc_conv_app_nth)
  qed simp
  then obtain xs where xs: "loopE (\<lambda>i bs. bindE (get32 ?buf (4 + 4 * i)) (\<lambda>b. wr bs i b)) [0..<?n] (lh_block (lh l)) = Inr xs"
    "length xs = LOGSIZE" "take ?n xs = bs" by (auto simp: P_def)
  have "get32 ?buf 0 = Inr (word_of_nat ?n)" using assms(1) by (simp add: head_is_def)
  with xs show ?thesis using n
    by (simp add: read_head_def store_read_clean [of s, OF assms(2)] sint_small log_ok_def log_blocks_def log_cap_def LOGSIZE_def)
qed

section \<open>Crashes\<close>

text \<open>The blocks of the log itself; the others hold the file system.\<close>

definition log_region :: "log \<Rightarrow> u32 set" where
  "log_region l = insert (log_start l) (log_block l ` {..<log_cap l})"

lemma log_block_inj: "t < 2 ^ 31 \<Longrightarrow> t' < 2 ^ 31 \<Longrightarrow> log_block l t = log_block l t' \<longleftrightarrow> t = t'"
proof -
  assume "t < 2 ^ 31" "t' < 2 ^ 31"
  then have "(word_of_nat t :: u32) = word_of_nat t' \<longleftrightarrow> t = t'" by (simp add: word_unat_eq_iff unat_of_nat)
  then show ?thesis by (simp add: log_block_def)
qed

lemma log_block_not_start: "t < LOGSIZE \<Longrightarrow> log_block l t \<noteq> log_start l"
proof -
  assume t: "t < LOGSIZE"
  have "unat (word_of_nat t + 1 :: u32) = t + 1" using t by (subst unat_add_no_wrap) (simp_all add: unat_of_nat LOGSIZE_def)
  then have "(word_of_nat t + 1 :: u32) \<noteq> 0" by (metis add_is_0 one_neq_zero unsigned_0)
  then show ?thesis by (simp add: log_block_def add.assoc)
qed

text \<open>
  A disk from which recovery produces the file system contents \<open>f\<close>: the header names the blocks
  that are still to be copied, the log holds what \<open>f\<close> has there, and the rest is as in \<open>f\<close>.
\<close>

definition recovers_to :: "log \<Rightarrow> (u32 \<Rightarrow> block) \<Rightarrow> (u32 \<Rightarrow> block) \<Rightarrow> bool" where
  "recovers_to l d f \<longleftrightarrow> (\<exists>bs. head_is l d bs \<and> set bs \<inter> log_region l = {} \<and>
     (\<forall>t < length bs. d (log_block l t) = f (bs ! t)) \<and>
     (\<forall>b. b \<notin> log_region l \<and> b \<notin> set bs \<longrightarrow> d b = f b))"

definition same_files :: "log \<Rightarrow> (u32 \<Rightarrow> block) \<Rightarrow> (u32 \<Rightarrow> block) \<Rightarrow> bool" where
  "same_files l d d' \<longleftrightarrow> (\<forall>b. b \<notin> log_region l \<longrightarrow> d b = d' b)"

lemma apply_writes_fun:
  "apply_writes (map (\<lambda>b. (b, f b)) bs) d b = (if b \<in> set bs then f b else d b)"
  by (induction bs rule: rev_induct) auto

lemma head_is_cong: "d (log_start l) = d' (log_start l) \<Longrightarrow> head_is l d bs = head_is l d' bs"
  by (simp add: head_is_def)

lemma install_trans_eq:
  assumes "log_ok l" and "set (log_blocks l) \<inter> log_region l = {}" and "\<And>t. t < log_cap l \<Longrightarrow> pinned s (log_block l t) = None"
    and "\<And>t. t < length (log_blocks l) \<Longrightarrow> disk s (log_block l t) = f (log_blocks l ! t)"
  shows "install_trans l s = Inr (run_writes (map (\<lambda>b. (b, f b)) (log_blocks l)) s)"
proof -
  let ?ws = "map (\<lambda>b. (b, f b)) (log_blocks l)"
  have n: "nat (lh_n (lh l)) = length ?ws" using length_log_blocks [OF assms(1)] by simp
  have le: "length ?ws \<le> log_cap l" using log_blocks_fit [OF assms(1)] by simp
  show ?thesis unfolding install_trans_def n
  proof (rule writes_loop)
    fix t assume t: "t < length ?ws"
    let ?s = "run_writes (take t ?ws) s"
    have "log_block l t \<in> log_region l" using t le by (simp add: log_region_def)
    then have "log_block l t \<notin> fst ` set (take t ?ws)"
      using assms(2) by (auto dest!: in_set_takeD)
    then have "store_read (log_block l t) ?s = store_read (log_block l t) s" by (rule store_read_run_writes)
    also have "\<dots> = f (log_blocks l ! t)" using t le assms(3,4) by (simp add: store_read_clean)
    finally have "store_read (log_block l t) ?s = f (log_blocks l ! t)" .
    moreover have "rd (lh_block (lh l)) t = Inr (log_blocks l ! t)"
      using t le assms(1) by (simp add: log_blocks_def log_ok_def)
    ultimately show "bindE (rd (lh_block (lh l)) t) (\<lambda>b. let lbuf = store_read (log_block l t) ?s in Inr (store_write b lbuf ?s)) =
        Inr (store_write (fst (?ws ! t)) (snd (?ws ! t)) ?s)"
      using t by simp
  qed
qed

lemma write_head_eq:
  assumes "log_ok l" and "length (disk s (log_start l)) = BSIZE" and "pinned s (log_start l) = None"
  shows "\<exists>h. write_head l s = Inr (run_writes [(log_start l, h)] s) \<and>
    (\<forall>d. head_is l (d(log_start l := h)) (log_blocks l))"
proof -
  have le: "length (log_blocks l) \<le> log_cap l" by (rule log_blocks_fit [OF assms(1)])
  obtain h where "head_data (lh l) (disk s (log_start l)) = Inr h" "length h = BSIZE"
    "get32 h 0 = Inr (word_of_nat (length (log_blocks l)))"
    "\<forall>i < length (log_blocks l). get32 h (4 + 4 * i) = Inr (log_blocks l ! i)"
    using head_data_ok [OF assms(2,1)] by blast
  with le assms(3) show ?thesis by (auto simp: write_head_def store_read_clean head_is_def)
qed

lemma clear_head_facts:
  "log_ok l \<Longrightarrow> log_ok (clear_head l)" "log_blocks (clear_head l) = []" "log_start (clear_head l) = log_start l"
  "log_cap (clear_head l) = log_cap l"
  by (simp_all add: log_ok_def log_blocks_def clear_head_def log_cap_def)

text \<open>
  The copy of logged blocks to their places and the clearing of the header, as a list of writes
  \<open>ws\<close>: after each prefix of them the disk still recovers to the same contents.
\<close>

lemma install_prefix:
  assumes "head_is l d bs" and "set bs \<inter> log_region l = {}"
    and "\<forall>t < length bs. d (log_block l t) = f (bs ! t)" and "\<forall>b. b \<notin> log_region l \<and> b \<notin> set bs \<longrightarrow> d b = f b"
  shows "recovers_to l (apply_writes (take k (map (\<lambda>b. (b, f b)) bs)) d) f"
proof -
  let ?d = "apply_writes (take k (map (\<lambda>b. (b, f b)) bs)) d"
  have d: "?d b = (if b \<in> set (take k bs) then f b else d b)" for b by (simp add: take_map apply_writes_fun)
  have in_bs: "set (take k bs) \<subseteq> set bs" by (rule set_take_subset)
  then have region: "?d b = d b" if "b \<in> log_region l" for b using d that assms(2) by auto
  have "head_is l ?d bs" using assms(1) region by (subst head_is_cong [where d' = d]) (simp_all add: log_region_def)
  moreover have "?d (log_block l t) = f (bs ! t)" if "t < length bs" for t
  proof -
    have "length bs \<le> log_cap l" using assms(1) by (simp add: head_is_def)
    with that have "log_block l t \<in> log_region l" by (simp add: log_region_def)
    with region that assms(3) show ?thesis by simp
  qed
  moreover have "?d b = f b" if "b \<notin> log_region l \<and> b \<notin> set bs" for b
    using d that in_bs assms(4) by auto
  ultimately show ?thesis using assms(2) unfolding recovers_to_def by blast
qed

lemma install_done:
  assumes "set bs \<inter> log_region l = {}" and "\<forall>b. b \<notin> log_region l \<and> b \<notin> set bs \<longrightarrow> d b = f b"
    and "\<forall>d. head_is l (d(log_start l := h)) []"
  shows "recovers_to l ((apply_writes (map (\<lambda>b. (b, f b)) bs) d)(log_start l := h)) f"
    and "same_files l ((apply_writes (map (\<lambda>b. (b, f b)) bs) d)(log_start l := h)) f"
  using assms by (auto simp: recovers_to_def same_files_def apply_writes_fun log_region_def intro!: exI [of _ "[]"])

lemma recover_ok:
  assumes "recovers_to l (disk s) f" and "pinned s = (\<lambda>_. None)" and "length (lh_block (lh l)) = LOGSIZE"
  shows "\<exists>l' ws. recover_from_log l s = Inr (l', run_writes ws s) \<and> same_files l (apply_writes ws (disk s)) f \<and>
    head_is l (apply_writes ws (disk s)) [] \<and> (\<forall>k. recovers_to l (apply_writes (take k ws) (disk s)) f)"
proof -
  obtain bs where bs: "head_is l (disk s) bs" "set bs \<inter> log_region l = {}"
      "\<forall>t < length bs. disk s (log_block l t) = f (bs ! t)" "\<forall>b. b \<notin> log_region l \<and> b \<notin> set bs \<longrightarrow> disk s b = f b"
    using assms(1) by (auto simp: recovers_to_def)
  obtain l1 where l1: "read_head l s = Inr l1" "log_ok l1" "log_blocks l1 = bs" "log_start l1 = log_start l" "log_cap l1 = log_cap l"
    using read_head_ok [OF bs(1) _ assms(3)] assms(2) by (auto simp: log_cap_def)
  have lb: "log_block l1 = log_block l" "log_region l1 = log_region l" using l1(4,5)
    by (auto simp: log_block_def log_region_def fun_eq_iff)
  let ?ws = "map (\<lambda>b. (b, f b)) bs"
  have inst: "install_trans l1 s = Inr (run_writes ?ws s)"
    using install_trans_eq [OF l1(2), of s f] bs(2,3) l1(3) lb assms(2) by simp
  have start: "log_start l \<notin> fst ` set ?ws" using bs(2) by (auto simp: log_region_def)
  have "length (disk (run_writes ?ws s) (log_start l)) = BSIZE"
    using start bs(1) by (simp add: run_writes_fields apply_writes_other head_is_def)
  then obtain h where h: "write_head (clear_head l1) (run_writes ?ws s) = Inr (run_writes [(log_start l, h)] (run_writes ?ws s))"
      "\<forall>d. head_is (clear_head l1) (d(log_start l := h)) []"
  proof -
    have "pinned (run_writes ?ws s) = (\<lambda>_. None)" by (simp add: fun_eq_iff pinned_run_writes assms(2))
    with write_head_eq [OF clear_head_facts(1) [OF l1(2)], of "run_writes ?ws s"] that show ?thesis
      using \<open>length (disk (run_writes ?ws s) (log_start l)) = BSIZE\<close> by (auto simp: clear_head_facts l1(4))
  qed
  have hd: "\<forall>d. head_is l (d(log_start l := h)) []" using h(2) by (simp add: head_is_def clear_head_facts l1(4,5))
  have "recover_from_log l s = Inr (clear_head l1, run_writes (?ws @ [(log_start l, h)]) s)"
    using l1(1) inst h(1) by (simp add: recover_from_log_def Let_def)
  moreover have "recovers_to l (apply_writes (take k (?ws @ [(log_start l, h)])) (disk s)) f" for k
  proof (cases "k \<le> length ?ws")
    case True
    then show ?thesis using install_prefix [OF bs, of k] by simp
  next
    case False
    then have "take k (?ws @ [(log_start l, h)]) = ?ws @ [(log_start l, h)]" by simp
    then show ?thesis using install_done(1) [OF bs(2,4) hd] by simp
  qed
  ultimately show ?thesis using install_done(2) [OF bs(2,4) hd] hd
    by (intro exI [of _ "clear_head l1"] exI [of _ "?ws @ [(log_start l, h)]"]) simp
qed

text \<open>
  A transaction that is ready to be committed: the log on disk is empty, and the pinned blocks
  are those of the header, none of them a block of the log.
\<close>

definition transaction :: "log \<Rightarrow> store \<Rightarrow> bool" where
  "transaction l s \<longleftrightarrow> log_ok l \<and> head_is l (disk s) [] \<and> set (log_blocks l) \<inter> log_region l = {} \<and>
     (\<forall>b. pinned s b \<noteq> None \<longrightarrow> b \<in> set (log_blocks l))"

lemma write_log_eq:
  assumes "transaction l s"
  defines "ws \<equiv> map (\<lambda>t. (log_block l t, store_read (log_blocks l ! t) s)) [0..<length (log_blocks l)]"
  shows "write_log l s = Inr (run_writes ws s)" and "distinct (map fst ws)" and "fst ` set ws \<subseteq> log_block l ` {..<log_cap l}"
proof -
  have ok: "log_ok l" "set (log_blocks l) \<inter> log_region l = {}" using assms(1) by (simp_all add: transaction_def)
  have le: "length (log_blocks l) \<le> log_cap l" by (rule log_blocks_fit [OF ok(1)])
  show sub: "fst ` set ws \<subseteq> log_block l ` {..<log_cap l}" using le by (auto simp: ws_def)
  show "distinct (map fst ws)"
    using log_cap_le [OF le] by (auto simp: ws_def distinct_map comp_def inj_on_def log_block_inj LOGSIZE_def)
  have n: "nat (lh_n (lh l)) = length ws" using length_log_blocks [OF ok(1)] by (simp add: ws_def)
  show "write_log l s = Inr (run_writes ws s)" unfolding write_log_def n
  proof (rule writes_loop)
    fix t assume t: "t < length ws"
    then have t': "t < length (log_blocks l)" by (simp add: ws_def)
    then have "log_blocks l ! t \<in> set (log_blocks l)" by simp
    then have "log_blocks l ! t \<notin> log_region l" using ok(2) by blast
    then have "log_blocks l ! t \<notin> fst ` set (take t ws)" using sub by (auto simp: log_region_def dest!: in_set_takeD)
    then have "store_read (log_blocks l ! t) (run_writes (take t ws) s) = store_read (log_blocks l ! t) s" by (rule store_read_run_writes)
    moreover have "rd (lh_block (lh l)) t = Inr (log_blocks l ! t)" using t' ok(1) by (simp add: log_blocks_def log_ok_def)
    ultimately show "bindE (rd (lh_block (lh l)) t) (\<lambda>b. let from = store_read b (run_writes (take t ws) s)
        in Inr (store_write (log_block l t) from (run_writes (take t ws) s))) =
        Inr (store_write (fst (ws ! t)) (snd (ws ! t)) (run_writes (take t ws) s))"
      using t' by (simp add: ws_def)
  qed
qed

text \<open>
  The writes of a commit: the log, the header, the places, the header. Up to the header the disk
  recovers to the old contents, from the header on to the new ones.
\<close>

lemma commit_writes:
  assumes "transaction l s" and "0 < lh_n (lh l)"
  shows "\<exists>ws. commit l s = Inr (clear_head l, run_writes ws s) \<and>
    (\<forall>k. recovers_to l (apply_writes (take k ws) (disk s)) (if k \<le> length (log_blocks l) then disk s else (\<lambda>b. store_read b s))) \<and>
    same_files l (apply_writes ws (disk s)) (\<lambda>b. store_read b s) \<and> head_is l (apply_writes ws (disk s)) [] \<and>
    set (log_blocks l) \<subseteq> fst ` set ws"
proof -
  let ?bs = "log_blocks l" and ?f = "\<lambda>b. store_read b s"
  have ok: "log_ok l" "head_is l (disk s) []" "set ?bs \<inter> log_region l = {}" "\<And>b. b \<notin> set ?bs \<Longrightarrow> pinned s b = None"
    using assms(1) by (auto simp: transaction_def)
  have le: "length ?bs \<le> log_cap l" by (rule log_blocks_fit [OF ok(1)])
  define w1 where "w1 = map (\<lambda>t. (log_block l t, store_read (?bs ! t) s)) [0..<length ?bs]"
  note w1 = write_log_eq [OF assms(1), folded w1_def]
  let ?s1 = "run_writes w1 s"
  have out1: "apply_writes (take k w1) (disk s) b = disk s b" if "b \<notin> log_block l ` {..<log_cap l}" for k b
    using that w1(3) by (intro apply_writes_other) (auto dest!: in_set_takeD)
  have start: "log_start l \<notin> log_block l ` {..<log_cap l}" 
    using log_block_not_start [of _ l] by (fastforce simp: log_cap_def)
  have clean: "pinned ?s1 b = None" if "b \<in> log_region l" for b
    using ok(3,4) that by (auto simp: pinned_run_writes)
  have len1: "length (disk ?s1 (log_start l)) = BSIZE"
    using out1 [OF start, of "length w1"] ok(2) by (simp add: run_writes_fields head_is_def)
  obtain h where h: "write_head l ?s1 = Inr (run_writes [(log_start l, h)] ?s1)" "\<forall>d. head_is l (d(log_start l := h)) ?bs"
    using write_head_eq [OF ok(1) len1] clean by (auto simp: log_region_def)
  let ?s2 = "run_writes [(log_start l, h)] ?s1" and ?w3 = "map (\<lambda>b. (b, ?f b)) ?bs"
  have log2: "disk ?s2 (log_block l t) = ?f (?bs ! t)" if t: "t < length ?bs" for t
  proof -
    have "apply_writes w1 (disk s) (fst (w1 ! t)) = snd (w1 ! t)" by (rule apply_writes_at [OF w1(2)]) (use t in \<open>simp add: w1_def\<close>)
    then show ?thesis using t log_cap_le [OF le] log_block_not_start [of t l] by (simp add: run_writes_fields w1_def del: run_writes_simps)
  qed
  have clean2: "pinned ?s2 b = None" if "b \<in> log_region l" for b
    using clean [OF that] by (simp add: store_write_def)
  have inst: "install_trans l ?s2 = Inr (run_writes ?w3 ?s2)"
    using install_trans_eq [OF ok(1,3), of ?s2 ?f] clean2 log2 by (simp add: log_region_def)
  let ?s3 = "run_writes ?w3 ?s2"
  have "head_is l (disk ?s2) ?bs" using h(2) by (simp add: run_writes_fields store_write_def)
  then have "length (disk ?s3 (log_start l)) = BSIZE"
    using ok(3) by (simp add: run_writes_fields apply_writes_fun log_region_def head_is_def)
  moreover have "pinned ?s3 (log_start l) = None" using clean2 by (simp add: pinned_run_writes log_region_def)
  ultimately obtain h0 where h0: "write_head (clear_head l) ?s3 = Inr (run_writes [(log_start l, h0)] ?s3)"
      "\<forall>d. head_is l (d(log_start l := h0)) []"
    using write_head_eq [OF clear_head_facts(1) [OF ok(1)], of ?s3] by (auto simp: clear_head_facts head_is_def)
  define ws where "ws = w1 @ (log_start l, h) # ?w3 @ [(log_start l, h0)]"
  have len: "length w1 = length ?bs" by (simp add: w1_def)
  have rest: "\<forall>b. b \<notin> log_region l \<and> b \<notin> set ?bs \<longrightarrow> disk ?s2 b = ?f b"
    using out1 [of _ "length w1"] ok(4) by (auto simp: run_writes_fields store_write_def log_region_def store_read_clean)
  have "commit l s = Inr (clear_head l, run_writes ws s)"
    using assms(2) w1(1) h(1) inst h0(1) by (simp add: commit_def Let_def ws_def run_writes_Cons)
  moreover have "recovers_to l (apply_writes (take k ws) (disk s)) (disk s)" if "k \<le> length ?bs" for k
  proof -
    have "take k ws = take k w1" using that by (simp add: ws_def len)
    moreover have "recovers_to l (apply_writes (take k w1) (disk s)) (disk s)"
      using ok(2) out1 start unfolding recovers_to_def
      by (intro exI [of _ "[]"]) (auto simp: head_is_def log_region_def)
    ultimately show ?thesis by simp
  qed
  moreover have "recovers_to l (apply_writes (take k ws) (disk s)) ?f" if k: "\<not> k \<le> length ?bs" for k
  proof -
    obtain j where j: "k = length w1 + 1 + j" using k len by (metis less_iff_Suc_add not_le add_Suc_right plus_1_eq_Suc add.assoc add.commute)
    have tk: "apply_writes (take k ws) (disk s) = apply_writes (take j (?w3 @ [(log_start l, h0)])) (disk ?s2)"
      by (simp add: j ws_def apply_writes_Cons run_writes_fields store_write_def)
    have head2: "head_is l (disk ?s2) ?bs" using h(2) by (simp add: run_writes_fields store_write_def)
    show ?thesis
    proof (cases "j \<le> length ?bs")
      case True
      then show ?thesis using install_prefix [OF head2 ok(3) _ rest, of j] log2 tk by simp
    next
      case False
      then show ?thesis using install_done(1) [OF ok(3) rest h0(2)] tk by simp
    qed
  qed
  moreover have "set ?bs \<subseteq> fst ` set ws" by (auto simp: ws_def image_Un image_image)
  moreover have "apply_writes ws (disk s) = (apply_writes ?w3 (disk ?s2))(log_start l := h0)"
    by (simp add: ws_def apply_writes_Cons run_writes_fields store_write_def)
  ultimately show ?thesis
    using install_done(2) [OF ok(3) rest h0(2)] h0(2) by (intro exI [of _ ws]) (simp del: fun_upd_apply)
qed

section \<open>Crashes\<close>

text \<open>The machine after a reset: the disk is kept, the buffer cache is empty.\<close>

definition power_on :: "(u32 \<Rightarrow> block) \<Rightarrow> store" where
  "power_on d = \<lparr>disk = d, pinned = (\<lambda>_. None), written = []\<rparr>"

text \<open>The disks after any number of recoveries of which each is cut off after some of its writes.\<close>

inductive crashed :: "log \<Rightarrow> (u32 \<Rightarrow> block) \<Rightarrow> (u32 \<Rightarrow> block) \<Rightarrow> bool" for l d where
  crashed_none: "crashed l d d"
| crashed_again: "crashed l d d' \<Longrightarrow> recover_from_log l (power_on d') = Inr (l', s') \<Longrightarrow>
    crashed l d (apply_writes (take k (written s')) d')"

lemma power_on_simps [simp]:
  "disk (power_on d) = d" "pinned (power_on d) = (\<lambda>_. None)" "written (power_on d) = []"
  by (simp_all add: power_on_def)

lemma recover_power_on:
  assumes "recovers_to l d f" and "length (lh_block (lh l)) = LOGSIZE"
  shows "\<exists>l' s'. recover_from_log l (power_on d) = Inr (l', s') \<and> disk s' = apply_writes (written s') d \<and>
    same_files l (disk s') f \<and> head_is l (disk s') [] \<and> (\<forall>k. recovers_to l (apply_writes (take k (written s')) d) f)"
  using recover_ok [of l "power_on d" f] assms by (auto simp: run_writes_fields)

lemma crashed_recovers:
  assumes "crashed l d d'" and "recovers_to l d f" and "length (lh_block (lh l)) = LOGSIZE"
  shows "recovers_to l d' f"
  using assms(1)
proof induction
  case crashed_none
  then show ?case by (rule assms(2))
next
  case (crashed_again d' l' s' k)
  from recover_power_on [OF crashed_again.IH assms(3)] crashed_again.hyps(2) show ?case by auto
qed

text \<open>A commit that is cut off after \<open>k\<close> writes, and then any number of recoveries that are cut off.\<close>

lemma commit_crash:
  assumes "transaction l s" and "0 < lh_n (lh l)" and "written s = []"
  shows "\<exists>s'. commit l s = Inr (clear_head l, s') \<and> disk s' = apply_writes (written s') (disk s) \<and>
    same_files l (disk s') (\<lambda>b. store_read b s) \<and>
    (\<forall>k d. crashed l (apply_writes (take k (written s')) (disk s)) d \<longrightarrow>
      (\<exists>l'' s''. recover_from_log l (power_on d) = Inr (l'', s'') \<and> head_is l (disk s'') [] \<and>
        same_files l (disk s'') (if k \<le> length (log_blocks l) then disk s else (\<lambda>b. store_read b s))))"
proof -
  obtain ws where ws: "commit l s = Inr (clear_head l, run_writes ws s)"
    "\<And>k. recovers_to l (apply_writes (take k ws) (disk s)) (if k \<le> length (log_blocks l) then disk s else (\<lambda>b. store_read b s))"
    "same_files l (apply_writes ws (disk s)) (\<lambda>b. store_read b s)"
    using commit_writes [OF assms(1,2)] by auto
  have len: "length (lh_block (lh l)) = LOGSIZE" using assms(1) by (simp add: transaction_def log_ok_def)
  have "\<exists>l'' s''. recover_from_log l (power_on d) = Inr (l'', s'') \<and> head_is l (disk s'') [] \<and>
        same_files l (disk s'') (if k \<le> length (log_blocks l) then disk s else (\<lambda>b. store_read b s))"
    if "crashed l (apply_writes (take k ws) (disk s)) d" for k d
    using recover_power_on [OF crashed_recovers [OF that ws(2) len] len] by auto
  with ws(1,3) assms(3) show ?thesis by (intro exI [of _ "run_writes ws s"]) (simp add: run_writes_fields)
qed

section \<open>Reservations\<close>

text \<open>
  Several processes inside file system calls: \<open>left p\<close> is the number of blocks the call of
  process \<open>p\<close> may still add to the log, \<^const>\<open>MAXOPBLOCKS\<close> when it begins. A write of a
  block that is in the log already (\<open>op_absorbed\<close>) uses nothing of it.
\<close>

type_synonym sessions = "log \<times> store \<times> (nat \<rightharpoonup> nat)"

inductive log_step :: "sessions \<Rightarrow> sessions \<Rightarrow> bool" where
  op_begins: "left p = None \<Longrightarrow> begin_op l = Inr l' \<Longrightarrow> log_step (l, s, left) (l', s, left(p \<mapsto> MAXOPBLOCKS))"
| op_writes: "left p = Some (Suc r) \<Longrightarrow> log_write b d l s = Inr (l', s') \<Longrightarrow> log_step (l, s, left) (l', s', left(p \<mapsto> r))"
| op_absorbed: "left p = Some r \<Longrightarrow> log_write b d l s = Inr (l', s') \<Longrightarrow> lh_n (lh l') = lh_n (lh l) \<Longrightarrow>
    log_step (l, s, left) (l', s', left)"
| op_ends: "left p = Some r \<Longrightarrow> end_op l s = Inr (l', s') \<Longrightarrow> log_step (l, s, left) (l', s', left(p := None))"

fun reserve_inv :: "sessions \<Rightarrow> bool" where
  "reserve_inv (l, s, left) \<longleftrightarrow> finite (dom left) \<and> outstanding l = int (card (dom left)) \<and> \<not> committing l \<and>
     log_ok l \<and> (\<forall>p r. left p = Some r \<longrightarrow> r \<le> MAXOPBLOCKS) \<and>
     lh_n (lh l) + (\<Sum>p \<in> dom left. int (the (left p))) \<le> int LOGSIZE"

lemma begin_op_some:
  "begin_op l = Inr l' \<longleftrightarrow> \<not> committing l \<and> lh_n (lh l) + (outstanding l + 1) * int MAXOPBLOCKS \<le> int LOGSIZE \<and>
     l' = l\<lparr>outstanding := outstanding l + 1\<rparr>"
  by (auto simp: begin_op_def)

lemma commit_empties: "commit l s = Inr (l', s') \<Longrightarrow> log_ok l \<Longrightarrow>
    lh_n (lh l') = 0 \<and> log_ok l' \<and> outstanding l' = outstanding l \<and> log_size l' = log_size l \<and> log_start l' = log_start l"
  by (auto simp: commit_def bindE_def clear_head_def log_ok_def log_cap_def Let_def split: if_splits sum.splits)

lemma log_write_some:
  assumes "log_write b d l s = Inr (l', s')" and "log_ok l"
  shows "lh_n (lh l') \<le> lh_n (lh l) + 1 \<and> log_ok l' \<and> outstanding l' = outstanding l \<and> committing l' = committing l \<and>
    log_size l' = log_size l \<and> log_start l' = log_start l"
  using assms by (auto simp: log_write_def bindE_def wr_def log_ok_def log_cap_def Let_def split: if_splits sum.splits)

lemma log_write_blocks:
  assumes "log_write b d l s = Inr (l', s')" and "log_ok l" and "lh_n (lh l) < int LOGSIZE"
  shows "set (log_blocks l') = insert b (set (log_blocks l))" and "s' = s\<lparr>pinned := (pinned s)(b \<mapsto> d)\<rparr>"
proof -
  let ?bs = "lh_block (lh l)" and ?n = "nat (lh_n (lh l))"
  let ?i = "length (takeWhile (\<lambda>x. x \<noteq> b) (take ?n ?bs))"
  have n: "?n < length ?bs" using assms(2,3) by (auto simp: log_ok_def log_cap_def)
  have l': "lh l' = \<lparr>lh_n = (if ?i = ?n then lh_n (lh l) + 1 else lh_n (lh l)), lh_block = ?bs[?i := b]\<rparr>"
    and s': "s' = s\<lparr>pinned := (pinned s)(b \<mapsto> d)\<rparr>"
    using assms(1) by (auto simp: log_write_def Let_def split: if_splits)
  show "s' = s\<lparr>pinned := (pinned s)(b \<mapsto> d)\<rparr>" by (rule s')
  show "set (log_blocks l') = insert b (set (log_blocks l))"
  proof (cases "?i = ?n")
    case True
    have "nat (lh_n (lh l) + 1) = Suc ?n" using assms(2) by (simp add: log_ok_def log_cap_def nat_add_distrib)
    then have "log_blocks l' = take ?n ?bs @ [b]" using True n by (simp add: log_blocks_def l' take_Suc_conv_app_nth)
    then show ?thesis by (simp add: log_blocks_def)
  next
    case False
    have "?i \<le> length (take ?n ?bs)" by (rule length_takeWhile_le)
    then have i: "?i < length (take ?n ?bs)" using False n by simp
    then have b: "take ?n ?bs ! ?i = b" using nth_length_takeWhile by fastforce
    then have "?bs[?i := b] = ?bs" using i by (metis length_take list_update_id min_less_iff_conj nth_take)
    then have "log_blocks l' = log_blocks l" using False by (simp add: log_blocks_def l')
    then show ?thesis using b i by (metis insert_absorb log_blocks_def nth_mem)
  qed
qed

lemma end_op_some:
  assumes "end_op l s = Inr (l', s')" and "log_ok l" and "\<not> committing l"
  shows "lh_n (lh l') \<le> lh_n (lh l) \<and> log_ok l' \<and> outstanding l' = outstanding l - 1 \<and> \<not> committing l' \<and>
    log_size l' = log_size l \<and> log_start l' = log_start l"
proof -
  let ?l = "l\<lparr>outstanding := outstanding l - 1, committing := True\<rparr>"
  have ok: "log_ok ?l" using assms(2) by (simp add: log_ok_def log_cap_def)
  show ?thesis
  proof (cases "outstanding l = 1")
    case True
    with assms obtain l1 where c: "commit ?l s = Inr (l1, s')" and l': "l' = l1\<lparr>committing := False\<rparr>"
      by (auto simp: end_op_def Let_def bindE_def split: sum.splits)
    from commit_empties [OF c ok] assms(2) True show ?thesis by (auto simp: l' log_ok_def log_cap_def)
  next
    case False
    with assms show ?thesis by (auto simp: end_op_def Let_def log_ok_def log_cap_def)
  qed
qed

lemma log_step_inv: "log_step x y \<Longrightarrow> reserve_inv x \<Longrightarrow> reserve_inv y"
proof (induction rule: log_step.induct)
  case (op_begins left p l l' s)
  then have "p \<notin> dom left" "finite (dom left)" by auto
  moreover have "(\<Sum>q \<in> dom left. int (the (left q))) \<le> int (card (dom left)) * int MAXOPBLOCKS"
    using op_begins by (intro sum_bounded_above) auto
  moreover have "(\<Sum>q \<in> dom left. int (the ((left(p \<mapsto> MAXOPBLOCKS)) q))) = (\<Sum>q \<in> dom left. int (the (left q)))"
    using \<open>p \<notin> dom left\<close> by (intro sum.cong) auto
  ultimately show ?case using op_begins by (auto simp: begin_op_some algebra_simps log_ok_def log_cap_def)
next
  case (op_writes left p r b d l s l' s')
  then have p: "p \<in> dom left" "finite (dom left)" by auto
  have "(\<Sum>q \<in> dom left. int (the (left q))) = 1 + (\<Sum>q \<in> dom left. int (the ((left(p \<mapsto> r)) q)))"
    using p op_writes(1) by (simp add: sum.remove [of _ p])
  moreover from log_write_some [OF op_writes(2)] op_writes(3)
  have "lh_n (lh l') \<le> lh_n (lh l) + 1" "log_ok l'" "outstanding l' = outstanding l" "committing l' = committing l" by auto
  moreover have "dom (left(p \<mapsto> r)) = dom left" using p by auto
  ultimately show ?case using op_writes(1,3) by (fastforce simp del: fun_upd_apply simp: fun_upd_def)
next
  case (op_absorbed left p r b d l s l' s')
  then show ?case using log_write_some [OF op_absorbed(2)] by auto
next
  case (op_ends left p r l s l' s')
  then have p: "p \<in> dom left" "finite (dom left)" by auto
  have "(\<Sum>q \<in> dom left. int (the (left q))) = int r + (\<Sum>q \<in> dom left - {p}. int (the (left q)))"
    using p op_ends(1) by (simp add: sum.remove [of _ p])
  moreover have "(\<Sum>q \<in> dom left - {p}. int (the ((left(p := None)) q))) = (\<Sum>q \<in> dom left - {p}. int (the (left q)))"
    by (rule sum.cong) auto
  moreover from end_op_some [OF op_ends(2)] op_ends(3)
  have "lh_n (lh l') \<le> lh_n (lh l)" "log_ok l'" "outstanding l' = outstanding l - 1" "\<not> committing l'" by auto
  moreover have "int (card (dom left - {p})) = int (card (dom left)) - 1"
    using p by (metis card_Suc_Diff1 diff_add_cancel of_nat_1 of_nat_add plus_1_eq_Suc add.commute add_diff_cancel_right')
  ultimately show ?case using op_ends(1,3) by auto
qed

lemma log_steps_inv: "log_step\<^sup>*\<^sup>* x y \<Longrightarrow> reserve_inv x \<Longrightarrow> reserve_inv y"
  by (induction rule: rtranclp_induct) (auto intro: log_step_inv)

lemma log_steps_size: "log_step\<^sup>*\<^sup>* x y \<Longrightarrow> reserve_inv x \<Longrightarrow> log_size (fst y) = log_size (fst x)"
proof (induction rule: rtranclp_induct)
  case (step y z)
  then have "reserve_inv y" using log_steps_inv by blast
  with step(2) have "log_size (fst z) = log_size (fst y)"
    by cases (auto simp: begin_op_some dest: log_write_some end_op_some)
  with step show ?case by simp
qed simp

lemma log_write_accepted:
  assumes "reserve_inv (l, s, left)" and "left p = Some (Suc r)" and "int LOGSIZE < log_size l"
  shows "\<exists>l' s'. log_write b d l s = Inr (l', s')"
proof -
  have p: "p \<in> dom left" "finite (dom left)" using assms(1,2) by auto
  have "int (the (left p)) \<le> (\<Sum>q \<in> dom left. int (the (left q)))" using p by (intro member_le_sum) auto
  then have n: "lh_n (lh l) < int LOGSIZE" using assms(1,2) by simp
  have "0 < card (dom left)" using p by (auto simp: card_gt_0_iff)
  then have o: "1 \<le> outstanding l" using assms(1) by auto
  let ?i = "length (takeWhile (\<lambda>x. x \<noteq> b) (take (nat (lh_n (lh l))) (lh_block (lh l))))"
  have "?i \<le> nat (lh_n (lh l))" by (rule order_trans [OF length_takeWhile_le]) simp
  then have "?i < length (lh_block (lh l))" using n assms(1) by (auto simp: log_ok_def log_cap_def)
  with n o assms(3) show ?thesis by (auto simp: log_write_def Let_def wr_def)
qed

end
