(* ===== verification/Xv6_Spinlock.thy ===== *)
theory Xv6_Spinlock
  imports Prelude
begin

text \<open>
  \<open>spinlock.c\<close>: interrupts that are switched off in a nested way, and the lock itself, first as
  the operations of one processor and then as a step relation of several of them, in which the
  exchange and the stores of \<open>acquire\<close> and \<open>release\<close> are steps of their own.
\<close>

section \<open>Interrupts\<close>

text \<open>The fields of \<open>struct cpu\<close> that the locks use, and the flag \<open>FL_IF\<close> of the processor.\<close>

record cpu =
  ncli :: int
  intena :: bool
  FL_IF :: bool

definition pushcli :: "cpu \<Rightarrow> cpu" where
  "pushcli c =
     (let eflags = FL_IF c;
          c = c\<lparr>FL_IF := False\<rparr>;
          c = (if ncli c = 0 then c\<lparr>intena := eflags\<rparr> else c)
      in c\<lparr>ncli := ncli c + 1\<rparr>)"

definition popcli :: "cpu \<Rightarrow> cpu result" where
  "popcli c =
     (if FL_IF c then Inl (Panic ''popcli - interruptible'') else
      let c = c\<lparr>ncli := ncli c - 1\<rparr> in
      if ncli c < 0 then Inl (Panic ''popcli'') else
      if ncli c = 0 \<and> intena c then Inr (c\<lparr>FL_IF := True\<rparr>) else Inr c)"

section \<open>The lock\<close>

text \<open>
  The processor that holds the lock is its index. \<open>call_stack\<close> is the list of return
  addresses that \<open>getcallerpcs\<close> finds.
\<close>

record spinlock =
  locked :: bool
  lk_name :: string
  lk_cpu :: "nat option"
  pcs :: "u32 list"

definition initlock :: "spinlock \<Rightarrow> string \<Rightarrow> spinlock" where
  "initlock lk name = lk\<lparr>lk_name := name, locked := False, lk_cpu := None\<rparr>"

text \<open>\<open>mem\<close> is the memory the frame pointers lead through, by words.\<close>

definition KERNBASE :: u32 where "KERNBASE = 0x80000000"

fun frames :: "(u32 \<Rightarrow> u32) \<Rightarrow> nat \<Rightarrow> u32 \<Rightarrow> u32 list" where
  "frames mem 0 ebp = []"
| "frames mem (Suc n) ebp =
     (if ebp = 0 \<or> ebp < KERNBASE \<or> ebp = 0xffffffff then []
      else mem (ebp + 4) # frames mem n (mem ebp))"

definition getcallerpcs :: "(u32 \<Rightarrow> u32) \<Rightarrow> u32 \<Rightarrow> u32 list" where
  "getcallerpcs mem v =
     (let found = frames mem 10 (v - 8) in found @ replicate (10 - length found) 0)"

definition holding :: "nat \<Rightarrow> spinlock \<Rightarrow> cpu \<Rightarrow> (bool \<times> cpu) result" where
  "holding me lk c =
     (let c = pushcli c;
          r = (locked lk \<and> lk_cpu lk = Some me)
      in bindE (popcli c) (\<lambda>c. Inr (r, c)))"

text \<open>
  \<open>acquire\<close> on a lock that another processor holds spins until that processor releases it:
  for the sequential model it is blocked.
\<close>

definition acquire :: "nat \<Rightarrow> u32 list \<Rightarrow> spinlock \<Rightarrow> cpu \<Rightarrow> (spinlock \<times> cpu) result" where
  "acquire me stack lk c =
     (let c = pushcli c in
      bindE (holding me lk c) (\<lambda>(held, c).
      if held then Inl (Panic ''acquire'') else
      if locked lk then Inl Blocked else
      Inr (lk\<lparr>locked := True, lk_cpu := Some me, pcs := stack\<rparr>, c)))"

definition release :: "nat \<Rightarrow> spinlock \<Rightarrow> cpu \<Rightarrow> (spinlock \<times> cpu) result" where
  "release me lk c =
     bindE (holding me lk c) (\<lambda>(held, c).
     if \<not> held then Inl (Panic ''release'') else
     let lk = lk\<lparr>pcs := (pcs lk)[0 := 0], lk_cpu := None\<rparr>;
         lk = lk\<lparr>locked := False\<rparr>
     in bindE (popcli c) (\<lambda>c. Inr (lk, c)))"

section \<open>Nesting\<close>

text \<open>A processor state between balanced calls: the nesting depth, with interrupts off inside.\<close>

definition cli_ok :: "cpu \<Rightarrow> bool" where
  "cli_ok c \<longleftrightarrow> 0 \<le> ncli c \<and> (0 < ncli c \<longrightarrow> \<not> FL_IF c)"

text \<open>What is undone by \<open>popcli\<close>; \<open>intena\<close> matters only inside.\<close>

definition same_nesting :: "cpu \<Rightarrow> cpu \<Rightarrow> bool" where
  "same_nesting c c' \<longleftrightarrow> ncli c = ncli c' \<and> FL_IF c = FL_IF c' \<and> (0 < ncli c \<longrightarrow> intena c = intena c')"

lemma pushcli_ok: "cli_ok c \<Longrightarrow> cli_ok (pushcli c)"
  by (simp add: cli_ok_def pushcli_def Let_def)

lemma popcli_pushcli:
  assumes "cli_ok c" and "same_nesting (pushcli c) c1"
  shows "\<exists>c'. popcli c1 = Inr c' \<and> cli_ok c' \<and> same_nesting c c'"
proof -
  let ?c = "c1\<lparr>ncli := ncli c1 - 1\<rparr>"
  have n: "ncli c1 = ncli c + 1" "\<not> FL_IF c1" "intena c1 = (if ncli c = 0 then FL_IF c else intena c)"
    using assms by (auto simp: same_nesting_def pushcli_def cli_ok_def Let_def split: if_splits)
  then have "popcli c1 = Inr (if ncli c = 0 \<and> FL_IF c then ?c\<lparr>FL_IF := True\<rparr> else ?c)"
    using assms(1) by (auto simp: popcli_def cli_ok_def Let_def)
  moreover have "cli_ok (if ncli c = 0 \<and> FL_IF c then ?c\<lparr>FL_IF := True\<rparr> else ?c)"
    "same_nesting c (if ncli c = 0 \<and> FL_IF c then ?c\<lparr>FL_IF := True\<rparr> else ?c)"
    using assms(1) n by (auto simp: cli_ok_def same_nesting_def)
  ultimately show ?thesis by blast
qed

lemma same_nesting_refl [simp]: "same_nesting c c" by (simp add: same_nesting_def)

lemma same_nesting_pushcli: "same_nesting c c' \<Longrightarrow> same_nesting (pushcli c) (pushcli c')"
  by (auto simp: same_nesting_def pushcli_def Let_def)

lemma same_nesting_trans: "same_nesting a b \<Longrightarrow> same_nesting b c \<Longrightarrow> same_nesting a c"
  by (auto simp: same_nesting_def)

lemma holding_eq:
  assumes "cli_ok c"
  shows "\<exists>c'. holding me lk c = Inr (locked lk \<and> lk_cpu lk = Some me, c') \<and> cli_ok c' \<and> same_nesting c c'"
  using popcli_pushcli [OF assms same_nesting_refl] by (auto simp: holding_def Let_def)

text \<open>
  Taking a free lock and releasing it leaves the lock free and the interrupts as they were; in
  between the interrupts are off.
\<close>

lemma acquire_free:
  assumes "cli_ok c" and "\<not> locked lk"
  shows "\<exists>c'. acquire me stack lk c = Inr (lk\<lparr>locked := True, lk_cpu := Some me, pcs := stack\<rparr>, c') \<and>
    cli_ok c' \<and> same_nesting (pushcli c) c'"
  using holding_eq [OF pushcli_ok [OF assms(1)], of me lk] assms(2) by (auto simp: acquire_def Let_def)

lemma release_held:
  assumes "cli_ok c" and "same_nesting (pushcli c) c1" and "cli_ok c1" and "locked lk" and "lk_cpu lk = Some me"
  shows "\<exists>c'. release me lk c1 = Inr (lk\<lparr>pcs := (pcs lk)[0 := 0], lk_cpu := None, locked := False\<rparr>, c') \<and>
    cli_ok c' \<and> same_nesting c c'"
proof -
  obtain c2 where c2: "holding me lk c1 = Inr (True, c2)" "same_nesting c1 c2"
    using holding_eq [OF assms(3), of me lk] assms(4,5) by auto
  from popcli_pushcli [OF assms(1) same_nesting_trans [OF assms(2) c2(2)]] c2(1) show ?thesis
    by (auto simp: release_def Let_def)
qed

lemma acquire_again:
  assumes "cli_ok c" and "locked lk" and "lk_cpu lk = Some me"
  shows "acquire me stack lk c = Inl (Panic ''acquire'')"
  using holding_eq [OF pushcli_ok [OF assms(1)], of me lk] assms(2,3) by (auto simp: acquire_def Let_def)

lemma release_foreign:
  assumes "cli_ok c" and "\<not> (locked lk \<and> lk_cpu lk = Some me)"
  shows "release me lk c = Inl (Panic ''release'')"
  using holding_eq [OF assms(1), of me lk] assms(2) by (auto simp: release_def)

section \<open>Several processors\<close>

text \<open>
  Where a processor is: outside, in the loop of \<open>acquire\<close>, between the exchange and the store
  of the owner, in the critical section, or between the stores of \<open>release\<close>.
\<close>

datatype pc = Idle | Spinning | Taken | Critical | Releasing

record machine =
  m_pc :: "nat \<Rightarrow> pc"
  m_cpu :: "nat \<Rightarrow> cpu"
  m_lock :: spinlock

definition at :: "nat \<Rightarrow> pc \<Rightarrow> machine \<Rightarrow> machine" where
  "at i p m = m\<lparr>m_pc := (m_pc m)(i := p)\<rparr>"

definition set_cpu :: "nat \<Rightarrow> cpu \<Rightarrow> machine \<Rightarrow> machine" where
  "set_cpu i c m = m\<lparr>m_cpu := (m_cpu m)(i := c)\<rparr>"

inductive lock_step :: "machine \<Rightarrow> machine \<Rightarrow> bool" where
  enter: "m_pc m i = Idle \<Longrightarrow> holding i (m_lock m) (pushcli (m_cpu m i)) = Inr (False, c) \<Longrightarrow>
    lock_step m (at i Spinning (set_cpu i c m))"
| spin: "m_pc m i = Spinning \<Longrightarrow> locked (m_lock m) \<Longrightarrow> lock_step m m"
| xchg: "m_pc m i = Spinning \<Longrightarrow> \<not> locked (m_lock m) \<Longrightarrow>
    lock_step m (at i Taken (m\<lparr>m_lock := (m_lock m)\<lparr>locked := True\<rparr>\<rparr>))"
| owner: "m_pc m i = Taken \<Longrightarrow>
    lock_step m (at i Critical (m\<lparr>m_lock := (m_lock m)\<lparr>lk_cpu := Some i, pcs := stack\<rparr>\<rparr>))"
| leave: "m_pc m i = Critical \<Longrightarrow> holding i (m_lock m) (m_cpu m i) = Inr (True, c) \<Longrightarrow>
    lock_step m (at i Releasing (set_cpu i c (m\<lparr>m_lock := (m_lock m)\<lparr>pcs := (pcs (m_lock m))[0 := 0], lk_cpu := None\<rparr>\<rparr>)))"
| unlock: "m_pc m i = Releasing \<Longrightarrow> popcli (m_cpu m i) = Inr c \<Longrightarrow>
    lock_step m (at i Idle (set_cpu i c (m\<lparr>m_lock := (m_lock m)\<lparr>locked := False\<rparr>\<rparr>)))"

definition owns :: "machine \<Rightarrow> nat \<Rightarrow> bool" where
  "owns m i \<longleftrightarrow> m_pc m i \<in> {Taken, Critical, Releasing}"

definition lock_inv :: "machine \<Rightarrow> bool" where
  "lock_inv m \<longleftrightarrow>
     (\<forall>i j. owns m i \<and> owns m j \<longrightarrow> i = j) \<and>
     (locked (m_lock m) \<longleftrightarrow> (\<exists>i. owns m i)) \<and>
     (\<forall>i. lk_cpu (m_lock m) = Some i \<longleftrightarrow> m_pc m i = Critical) \<and>
     (\<forall>i. cli_ok (m_cpu m i)) \<and>
     (\<forall>i. m_pc m i \<noteq> Idle \<longrightarrow> 0 < ncli (m_cpu m i))"

definition lock_start :: "machine \<Rightarrow> bool" where
  "lock_start m \<longleftrightarrow> (\<forall>i. m_pc m i = Idle \<and> cli_ok (m_cpu m i)) \<and> \<not> locked (m_lock m) \<and> lk_cpu (m_lock m) = None"

lemma machine_simps [simp]:
  "m_pc (at i p m) = (m_pc m)(i := p)" "m_cpu (at i p m) = m_cpu m" "m_lock (at i p m) = m_lock m"
  "m_pc (set_cpu i c m) = m_pc m" "m_cpu (set_cpu i c m) = (m_cpu m)(i := c)" "m_lock (set_cpu i c m) = m_lock m"
  "owns (at i p m) j \<longleftrightarrow> (if j = i then p \<in> {Taken, Critical, Releasing} else owns m j)"
  "owns (set_cpu i c m) j = owns m j" "owns (m\<lparr>m_lock := lk\<rparr>) j = owns m j"
  by (auto simp: at_def set_cpu_def owns_def)

lemma lock_start_inv: "lock_start m \<Longrightarrow> lock_inv m"
  by (auto simp: lock_start_def lock_inv_def owns_def)

lemma ncli_pushcli: "ncli (pushcli c) = ncli c + 1"
  by (simp add: pushcli_def Let_def)

lemma holding_result:
  assumes "cli_ok c" and "holding me lk c = Inr (b, c')"
  shows "b = (locked lk \<and> lk_cpu lk = Some me)" and "cli_ok c'" and "ncli c' = ncli c"
  using holding_eq [OF assms(1), of me lk] assms(2) by (auto simp: same_nesting_def)

lemma popcli_ok: "cli_ok c \<Longrightarrow> popcli c = Inr c' \<Longrightarrow> cli_ok c'"
  by (auto simp: popcli_def cli_ok_def Let_def split: if_splits)

text \<open>The invariant, part by part: who owns the lock, who is recorded, and the interrupts.\<close>

lemma lock_invD:
  assumes "lock_inv m"
  shows "owns m i \<Longrightarrow> owns m j \<Longrightarrow> i = j" and "owns m i \<Longrightarrow> locked (m_lock m)"
    and "locked (m_lock m) \<Longrightarrow> \<exists>i. owns m i" and "lk_cpu (m_lock m) = Some i \<longleftrightarrow> m_pc m i = Critical"
    and "cli_ok (m_cpu m i)" and "m_pc m i \<noteq> Idle \<Longrightarrow> 0 < ncli (m_cpu m i)"
  using assms by (auto simp: lock_inv_def)

lemma lock_invI:
  assumes "\<And>i j. own i \<Longrightarrow> own j \<Longrightarrow> i = j" and "owns m = own" and "locked (m_lock m) = (\<exists>i. own i)"
    and "\<And>i. lk_cpu (m_lock m) = Some i \<longleftrightarrow> m_pc m i = Critical"
    and "\<And>i. cli_ok (m_cpu m i)" and "\<And>i. m_pc m i \<noteq> Idle \<Longrightarrow> 0 < ncli (m_cpu m i)"
  shows "lock_inv m"
  using assms unfolding lock_inv_def by blast

lemma lock_step_inv:
  assumes "lock_step m m'" and "lock_inv m"
  shows "lock_inv m'"
  using assms
proof (induction rule: lock_step.induct)
  case (enter m i c)
  note inv = lock_invD [OF enter.prems]
  have "cli_ok c" "0 < ncli c"
    using holding_result [OF pushcli_ok [OF inv(5)] enter.hyps(2)] ncli_pushcli inv(5) [of i] by (simp_all add: cli_ok_def)
  moreover have "\<not> owns m i" using enter.hyps(1) by (simp add: owns_def)
  ultimately show ?case
    using enter.hyps(1) inv by (intro lock_invI [where own = "owns m"]) (auto simp: fun_eq_iff split: if_splits)
next
  case (xchg m i)
  note inv = lock_invD [OF xchg.prems]
  have "\<not> owns m j" for j using xchg.hyps(2) inv(2) by blast
  moreover from this have "m_pc m j \<noteq> Critical" for j by (auto simp: owns_def)
  ultimately show ?case
    using xchg.hyps(1) inv(4-6) by (intro lock_invI [where own = "\<lambda>j. j = i"]) (auto simp: fun_eq_iff split: if_splits)
next
  case (owner m i stack)
  note inv = lock_invD [OF owner.prems]
  have "owns m i" using owner.hyps by (simp add: owns_def)
  moreover from this have "m_pc m j \<noteq> Critical" if "j \<noteq> i" for j using that inv(1) [of i j] by (auto simp: owns_def)
  ultimately show ?case
    using owner.hyps inv by (intro lock_invI [where own = "owns m"]) (auto simp: fun_eq_iff split: if_splits)
next
  case (leave m i c)
  note inv = lock_invD [OF leave.prems]
  have "cli_ok c" "0 < ncli c"
    using holding_result [OF inv(5) leave.hyps(2)] inv(6) [of i] leave.hyps(1) by simp_all
  moreover have "owns m i" using leave.hyps by (simp add: owns_def)
  moreover from this have "m_pc m j \<noteq> Critical" if "j \<noteq> i" for j using that inv(1) [of i j] by (auto simp: owns_def)
  ultimately show ?case
    using leave.hyps(1) inv by (intro lock_invI [where own = "owns m"]) (auto simp: fun_eq_iff split: if_splits)
next
  case (unlock m i c)
  note inv = lock_invD [OF unlock.prems]
  have "cli_ok c" using popcli_ok [OF inv(5) unlock.hyps(2)] .
  moreover have "owns m i" using unlock.hyps by (simp add: owns_def)
  moreover from this have "\<not> owns m j" if "j \<noteq> i" for j using that inv(1) by blast
  moreover from this have "m_pc m j \<noteq> Critical" for j using unlock.hyps(1) by (cases "j = i") (auto simp: owns_def)
  ultimately show ?case
    using unlock.hyps(1) inv by (intro lock_invI [where own = "\<lambda>_. False"]) (auto simp: fun_eq_iff split: if_splits)
qed

lemma lock_reach_inv: "lock_step\<^sup>*\<^sup>* m m' \<Longrightarrow> lock_inv m \<Longrightarrow> lock_inv m'"
  by (induction rule: rtranclp_induct) (auto intro: lock_step_inv)

end
