(* ===== verification/Xv6_Kalloc.thy ===== *)
theory Xv6_Kalloc
  imports Xv6_Spinlock
begin

text \<open>
  \<open>kalloc.c\<close>: the allocator of physical pages. The free pages form a list that is linked
  through their own first words; memory is a function from addresses to bytes.
\<close>

section \<open>Memory\<close>

type_synonym memory = "u32 \<Rightarrow> u8"

definition load32 :: "memory \<Rightarrow> u32 \<Rightarrow> u32" where
  "load32 m a = push_bit 24 (ucast (m (a + 3))) OR push_bit 16 (ucast (m (a + 2))) OR
     push_bit 8 (ucast (m (a + 1))) OR ucast (m a)"

definition store32 :: "memory \<Rightarrow> u32 \<Rightarrow> u32 \<Rightarrow> memory" where
  "store32 m a v = m(a := ucast v, a + 1 := ucast (drop_bit 8 v), a + 2 := ucast (drop_bit 16 v), a + 3 := ucast (drop_bit 24 v))"

text \<open>\<open>memset\<close> on this memory: the \<open>n\<close> bytes from \<open>v\<close> on.\<close>

definition fill :: "memory \<Rightarrow> u32 \<Rightarrow> u8 \<Rightarrow> nat \<Rightarrow> memory" where
  "fill m v c n = (\<lambda>a. if unat (a - v) < n then c else m a)"

lemma load_store: "load32 (store32 m a v) a = v"
proof (rule bit_word_eqI)
  fix n assume "n < LENGTH(32)"
  then have "n < 8 \<or> 8 \<le> n \<and> n < 16 \<or> 16 \<le> n \<and> n < 24 \<or> 24 \<le> n \<and> n < 32" by auto
  then show "bit (load32 (store32 m a v) a) n = bit v n"
    by (elim disjE) (auto simp: load32_def store32_def bit_simps)
qed

lemma load_cong: "(\<And>k. unat k < 4 \<Longrightarrow> m (a + k) = m' (a + k)) \<Longrightarrow> load32 m a = load32 m' a"
proof -
  assume *: "\<And>k. unat k < 4 \<Longrightarrow> m (a + k) = m' (a + k)"
  from * [of 0] * [of 1] * [of 2] * [of 3] show ?thesis by (simp add: load32_def)
qed

section \<open>The allocator\<close>

definition PGSIZE :: u32 where "PGSIZE = 4096"
definition PHYSTOP :: u32 where "PHYSTOP = 0xE000000"
definition V2P :: "u32 \<Rightarrow> u32" where "V2P a = a - KERNBASE"
definition PGROUNDUP :: "u32 \<Rightarrow> u32" where "PGROUNDUP sz = (sz + PGSIZE - 1) AND NOT (PGSIZE - 1)"

record kmem =
  kmem_lock :: spinlock
  use_lock :: bool
  freelist :: u32
  kmem_mem :: memory
  kmem_cpu :: cpu

text \<open>\<open>kend\<close> is the linker symbol \<open>end\<close>, \<open>me\<close> the index of the processor, \<open>stack\<close> its call stack.\<close>

definition lock_kmem :: "nat \<Rightarrow> u32 list \<Rightarrow> kmem \<Rightarrow> kmem result" where
  "lock_kmem me stack s =
     (if use_lock s then
        bindE (acquire me stack (kmem_lock s) (kmem_cpu s)) (\<lambda>(lk, c). Inr (s\<lparr>kmem_lock := lk, kmem_cpu := c\<rparr>))
      else Inr s)"

definition unlock_kmem :: "nat \<Rightarrow> kmem \<Rightarrow> kmem result" where
  "unlock_kmem me s =
     (if use_lock s then
        bindE (release me (kmem_lock s) (kmem_cpu s)) (\<lambda>(lk, c). Inr (s\<lparr>kmem_lock := lk, kmem_cpu := c\<rparr>))
      else Inr s)"

definition kfree :: "u32 \<Rightarrow> nat \<Rightarrow> u32 list \<Rightarrow> u32 \<Rightarrow> kmem \<Rightarrow> kmem result" where
  "kfree kend me stack v s =
     (if v mod PGSIZE \<noteq> 0 \<or> v < kend \<or> V2P v \<ge> PHYSTOP then Inl (Panic ''kfree'') else
      let s = s\<lparr>kmem_mem := fill (kmem_mem s) v 1 4096\<rparr> in
      bindE (lock_kmem me stack s) (\<lambda>s.
      let r = v;
          s = s\<lparr>kmem_mem := store32 (kmem_mem s) r (freelist s)\<rparr>;
          s = s\<lparr>freelist := r\<rparr>
      in unlock_kmem me s))"

definition kalloc :: "nat \<Rightarrow> u32 list \<Rightarrow> kmem \<Rightarrow> (u32 \<times> kmem) result" where
  "kalloc me stack s =
     bindE (lock_kmem me stack s) (\<lambda>s.
     let r = freelist s;
         s = (if r \<noteq> 0 then s\<lparr>freelist := load32 (kmem_mem s) r\<rparr> else s)
     in bindE (unlock_kmem me s) (\<lambda>s. Inr (r, s)))"

text \<open>A page that \<open>kfree\<close> accepts lies in the kernel's mapping of physical memory.\<close>

lemma V2P_range:
  assumes "V2P v < PHYSTOP"
  shows "0x80000000 \<le> unat v" and "unat v < 0x8E000000"
proof -
  have "unat (v - KERNBASE) < 0xE000000"
    using assms by (simp add: V2P_def PHYSTOP_def word_less_nat_alt)
  moreover have "unat (KERNBASE :: u32) = 0x80000000" by (simp add: KERNBASE_def)
  ultimately have "unat ((v - KERNBASE) + KERNBASE) = unat (v - KERNBASE) + 0x80000000"
    by (subst unat_add_no_wrap) simp_all
  then show "0x80000000 \<le> unat v" "unat v < 0x8E000000" using \<open>unat (v - KERNBASE) < 0xE000000\<close> by simp_all
qed

definition aligned :: "u32 \<Rightarrow> bool" where
  "aligned v \<longleftrightarrow> v mod PGSIZE = 0"

lemma kfree_result:
  assumes "kfree kend me stack v s = Inr s'"
  shows "aligned v" and "kend \<le> v" and "V2P v < PHYSTOP"
  using assms by (auto simp: kfree_def aligned_def not_le not_less split: if_splits)

lemma unat_PGSIZE [simp]: "unat PGSIZE = 4096"
  by (simp add: PGSIZE_def)

lemma next_page:
  assumes "V2P v < PHYSTOP"
  shows "unat (v + PGSIZE) = unat v + 4096"
  using V2P_range(2) [OF assms] by (subst unat_add_no_wrap) simp_all

text \<open>
  The loop over a range of pages ends although its bound is compared with a sum that could
  wrap around: \<open>kfree\<close> panics before the address gets there.
\<close>

function freerange_loop :: "u32 \<Rightarrow> nat \<Rightarrow> u32 list \<Rightarrow> u32 \<Rightarrow> u32 \<Rightarrow> kmem \<Rightarrow> kmem result" where
  "freerange_loop kend me stack p vend s =
     (if p + PGSIZE \<le> vend then
        bindE (kfree kend me stack p s) (\<lambda>s. freerange_loop kend me stack (p + PGSIZE) vend s)
      else Inr s)"
  by pat_completeness auto
termination
proof (relation "measure (\<lambda>(kend, me, stack, p, vend, s). 2 ^ 32 - unat p)", goal_cases)
  case (2 kend me stack p vend s s')
  then have "V2P p < PHYSTOP" using kfree_result(3) by blast
  from next_page [OF this] V2P_range(2) [OF this] show ?case by simp
qed simp

declare freerange_loop.simps [simp del]

definition freerange :: "u32 \<Rightarrow> nat \<Rightarrow> u32 list \<Rightarrow> u32 \<Rightarrow> u32 \<Rightarrow> kmem \<Rightarrow> kmem result" where
  "freerange kend me stack vstart vend s = freerange_loop kend me stack (PGROUNDUP vstart) vend s"

definition kinit1 :: "u32 \<Rightarrow> nat \<Rightarrow> u32 list \<Rightarrow> u32 \<Rightarrow> u32 \<Rightarrow> kmem \<Rightarrow> kmem result" where
  "kinit1 kend me stack vstart vend s =
     (let s = s\<lparr>kmem_lock := initlock (kmem_lock s) ''kmem''\<rparr>;
          s = s\<lparr>use_lock := False\<rparr>
      in freerange kend me stack vstart vend s)"

definition kinit2 :: "u32 \<Rightarrow> nat \<Rightarrow> u32 list \<Rightarrow> u32 \<Rightarrow> u32 \<Rightarrow> kmem \<Rightarrow> kmem result" where
  "kinit2 kend me stack vstart vend s =
     bindE (freerange kend me stack vstart vend s) (\<lambda>s. Inr (s\<lparr>use_lock := True\<rparr>))"

section \<open>The free list\<close>

fun free_list :: "memory \<Rightarrow> u32 \<Rightarrow> u32 list \<Rightarrow> bool" where
  "free_list m p [] \<longleftrightarrow> p = 0"
| "free_list m p (x # xs) \<longleftrightarrow> p = x \<and> x \<noteq> 0 \<and> free_list m (load32 m x) xs"

lemma free_list_cong:
  "(\<And>x. x \<in> set xs \<Longrightarrow> load32 m x = load32 m' x) \<Longrightarrow> free_list m p xs = free_list m' p xs"
  by (induction xs arbitrary: p) auto

lemma free_list_unique: "free_list m p xs \<Longrightarrow> free_list m p ys \<Longrightarrow> xs = ys"
proof (induction xs arbitrary: p ys)
  case Nil
  then show ?case by (cases ys) auto
next
  case (Cons x xs)
  then show ?case by (cases ys) auto
qed

definition page_ok :: "u32 \<Rightarrow> u32 \<Rightarrow> bool" where
  "page_ok kend v \<longleftrightarrow> aligned v \<and> kend \<le> v \<and> V2P v < PHYSTOP"

definition kmem_inv :: "u32 \<Rightarrow> kmem \<Rightarrow> u32 list \<Rightarrow> bool" where
  "kmem_inv kend s xs \<longleftrightarrow> free_list (kmem_mem s) (freelist s) xs \<and> distinct xs \<and>
     (\<forall>x \<in> set xs. page_ok kend x) \<and> cli_ok (kmem_cpu s) \<and> (use_lock s \<longrightarrow> \<not> locked (kmem_lock s))"

text \<open>Two pages do not overlap, and the first word of a page lies in it.\<close>

lemma aligned_unat: "aligned z \<Longrightarrow> unat z mod 4096 = 0"
  using unat_mod [of z PGSIZE] by (simp add: aligned_def)

lemma aligned_add:
  assumes "aligned z" and "unat k < 4096"
  shows "unat (z + k) = unat z + unat k"
proof (rule unat_add_no_wrap)
  obtain q where "unat z = 4096 * q" using aligned_unat [OF assms(1)] by (auto simp: mod_eq_0_iff_dvd)
  moreover have "unat z < 2 ^ 32" using unsigned_less [of z] by simp
  ultimately show "unat z + unat k < 2 ^ LENGTH(32)" using assms(2) by simp
qed

lemma page_offset:
  fixes x y k :: u32
  assumes "aligned x" and "aligned y" and "x \<noteq> y" and "unat k < 4"
  shows "4096 \<le> unat (x + k - y)"
proof (rule ccontr)
  assume "\<not> 4096 \<le> unat (x + k - y)"
  then have lt: "unat (x + k - y) < 4096" by simp
  from aligned_add [OF assms(2) lt] aligned_add [OF assms(1), of k] assms(4)
  have eq: "unat x + unat k = unat y + unat (x + k - y)" by simp
  moreover obtain p q where pq: "unat x = 4096 * p" "unat y = 4096 * q"
    using aligned_unat [OF assms(1)] aligned_unat [OF assms(2)] by (auto simp: mod_eq_0_iff_dvd elim!: dvdE)
  ultimately have "p = q" using lt assms(4) by linarith
  with pq have "x = y" by (simp add: word_unat_eq_iff)
  with assms(3) show False ..
qed

text \<open>What \<open>kfree\<close> writes into one page leaves the links in the other pages alone.\<close>

lemma links_kept:
  assumes "aligned x" and "aligned v" and "x \<noteq> v"
  shows "load32 (store32 (fill m v c 4096) v w) x = load32 m x"
proof (rule load_cong)
  fix k :: u32 assume "unat k < 4"
  from page_offset [OF assms this] have far: "4096 \<le> unat (x + k - v)" .
  have "x + k \<noteq> v + j" if "unat j < 4096" for j
  proof
    assume "x + k = v + j"
    then have "x + k - v = j" by simp
    with far that show False by simp
  qed
  from this [of 0] this [of 1] this [of 2] this [of 3] far
  show "store32 (fill m v c 4096) v w (x + k) = m (x + k)" by (simp add: store32_def fill_def)
qed

lemma page_nonzero: "page_ok kend v \<Longrightarrow> v \<noteq> 0"
  using V2P_range(1) [of v] by (auto simp: page_ok_def)

text \<open>The lock around an update of the list that leaves lock and processor alone.\<close>

lemma locked_update:
  assumes "cli_ok (kmem_cpu s)" and "use_lock s \<longrightarrow> \<not> locked (kmem_lock s)"
    and f: "\<And>s. use_lock (f s) = use_lock s \<and> kmem_lock (f s) = kmem_lock s \<and> kmem_cpu (f s) = kmem_cpu s"
  shows "\<exists>s1 s'. lock_kmem me stack s = Inr s1 \<and> freelist s1 = freelist s \<and> kmem_mem s1 = kmem_mem s \<and>
    unlock_kmem me (f s1) = Inr s' \<and> freelist s' = freelist (f s1) \<and> kmem_mem s' = kmem_mem (f s1) \<and>
    use_lock s' = use_lock s \<and> cli_ok (kmem_cpu s') \<and> (use_lock s' \<longrightarrow> \<not> locked (kmem_lock s'))"
proof (cases "use_lock s")
  case False
  with assms show ?thesis by (simp add: lock_kmem_def unlock_kmem_def)
next
  case True
  let ?lk = "(kmem_lock s)\<lparr>locked := True, lk_cpu := Some me, pcs := stack\<rparr>"
  obtain c where a: "acquire me stack (kmem_lock s) (kmem_cpu s) = Inr (?lk, c)"
      and c: "cli_ok c" "same_nesting (pushcli (kmem_cpu s)) c"
    using acquire_free [OF assms(1)] assms(2) True by blast
  let ?s1 = "s\<lparr>kmem_lock := ?lk, kmem_cpu := c\<rparr>"
  obtain c' where "release me ?lk c = Inr (?lk\<lparr>pcs := (pcs ?lk)[0 := 0], lk_cpu := None, locked := False\<rparr>, c')" "cli_ok c'"
    using release_held [OF assms(1) c(2,1), of ?lk me] by auto
  with a f [of ?s1] True show ?thesis by (simp add: lock_kmem_def unlock_kmem_def)
qed

lemma kfree_adds:
  assumes "kmem_inv kend s xs" and "page_ok kend v" and "v \<notin> set xs"
  shows "\<exists>s'. kfree kend me stack v s = Inr s' \<and> kmem_inv kend s' (v # xs) \<and> use_lock s' = use_lock s \<and>
    (\<forall>a. 4096 \<le> unat (a - v) \<longrightarrow> kmem_mem s' a = kmem_mem s a)"
proof -
  let ?s = "s\<lparr>kmem_mem := fill (kmem_mem s) v 1 4096\<rparr>"
  let ?f = "\<lambda>s. s\<lparr>kmem_mem := store32 (kmem_mem s) v (freelist s), freelist := v\<rparr>"
  note inv = assms(1) [unfolded kmem_inv_def]
  obtain s1 s' where s: "lock_kmem me stack ?s = Inr s1" "freelist s1 = freelist s" "kmem_mem s1 = fill (kmem_mem s) v 1 4096"
      "unlock_kmem me (?f s1) = Inr s'" "freelist s' = v" "kmem_mem s' = store32 (kmem_mem s1) v (freelist s1)"
      "use_lock s' = use_lock s" "cli_ok (kmem_cpu s')" "use_lock s' \<longrightarrow> \<not> locked (kmem_lock s')"
    using locked_update [of ?s ?f me stack] inv by auto
  have run: "kfree kend me stack v s = Inr s'"
    using assms(2) s(1,4) by (auto simp: kfree_def page_ok_def aligned_def Let_def)
  have "free_list (kmem_mem s') (freelist s) xs"
  proof (subst free_list_cong [where m' = "kmem_mem s"])
    fix x assume "x \<in> set xs"
    then have "aligned x" "x \<noteq> v" using inv assms(3) by (auto simp: page_ok_def)
    then show "load32 (kmem_mem s') x = load32 (kmem_mem s) x"
      using links_kept assms(2) by (simp add: s page_ok_def)
  qed (use inv in simp)
  then have "kmem_inv kend s' (v # xs)"
    using inv s assms(2,3) page_nonzero [OF assms(2)] by (simp add: kmem_inv_def load_store)
  moreover have "kmem_mem s' a = kmem_mem s a" if "4096 \<le> unat (a - v)" for a
  proof -
    have "a \<noteq> v + k" if "unat k < 4096" for k using that \<open>4096 \<le> unat (a - v)\<close> by auto
    from this [of 0] this [of 1] this [of 2] this [of 3] that show ?thesis
      by (simp add: s store32_def fill_def)
  qed
  ultimately show ?thesis using run s(7) by blast
qed

lemma kalloc_takes:
  assumes "kmem_inv kend s xs"
  shows "\<exists>s'. kalloc me stack s = Inr (case xs of [] \<Rightarrow> 0 | x # _ \<Rightarrow> x, s') \<and> kmem_inv kend s' (tl xs) \<and>
    use_lock s' = use_lock s \<and> kmem_mem s' = kmem_mem s"
proof -
  let ?f = "\<lambda>s. if freelist s \<noteq> 0 then s\<lparr>freelist := load32 (kmem_mem s) (freelist s)\<rparr> else s"
  note inv = assms [unfolded kmem_inv_def]
  obtain s1 s' where s: "lock_kmem me stack s = Inr s1" "freelist s1 = freelist s" "kmem_mem s1 = kmem_mem s"
      "unlock_kmem me (?f s1) = Inr s'" "freelist s' = freelist (?f s1)" and m: "kmem_mem s' = kmem_mem (?f s1)"
      and lk: "use_lock s' = use_lock s" "cli_ok (kmem_cpu s')" "use_lock s' \<longrightarrow> \<not> locked (kmem_lock s')"
  proof -
    have "use_lock (?f t) = use_lock t \<and> kmem_lock (?f t) = kmem_lock t \<and> kmem_cpu (?f t) = kmem_cpu t" for t by simp
    from locked_update [where f = ?f, OF _ _ this] inv that show ?thesis by blast
  qed
  have mem: "kmem_mem s' = kmem_mem s" using m s(3) by simp
  have "kalloc me stack s = Inr (freelist s, s')" using s(1,2,4) by (simp add: kalloc_def Let_def)
  moreover have "freelist s = (case xs of [] \<Rightarrow> 0 | x # _ \<Rightarrow> x)" using inv by (cases xs) auto
  moreover have "kmem_inv kend s' (tl xs)"
    using inv s lk mem by (cases xs) (auto simp: kmem_inv_def)
  ultimately show ?thesis using lk mem by auto
qed

section \<open>Handing over a range of memory\<close>

text \<open>The whole pages of a range.\<close>

definition pages_between :: "u32 \<Rightarrow> u32 \<Rightarrow> u32 set" where
  "pages_between p vend = {x. aligned x \<and> unat p \<le> unat x \<and> unat x + 4096 \<le> unat vend}"

lemma aligned_next: "aligned p \<Longrightarrow> unat (p + PGSIZE) = unat p + 4096 \<Longrightarrow> aligned (p + PGSIZE)"
  using aligned_unat [of p] by (simp add: aligned_def word_unat_eq_iff unat_mod)

lemma pages_between_step:
  assumes "aligned p" and "unat (p + PGSIZE) = unat p + 4096" and "p + PGSIZE \<le> vend"
  shows "pages_between p vend = insert p (pages_between (p + PGSIZE) vend)"
proof -
  have le: "unat p + 4096 \<le> unat vend" using assms(2,3) by (simp add: word_le_nat_alt)
  have "x = p \<or> unat p + 4096 \<le> unat x" if x: "aligned x" and that: "unat p \<le> unat x" for x
  proof -
    obtain a b where "unat x = 4096 * a" "unat p = 4096 * b"
      using aligned_unat [OF x] aligned_unat [OF assms(1)] by (auto simp: mod_eq_0_iff_dvd elim!: dvdE)
    with that have "unat x = unat p \<or> unat p + 4096 \<le> unat x" by auto
    then show ?thesis by (simp add: word_unat_eq_iff)
  qed
  with le assms(1,2) show ?thesis by (auto simp: pages_between_def)
qed

lemma freerange_adds:
  assumes "kmem_inv kend s xs" and "aligned p" and "kend \<le> p" and "0x80000000 \<le> unat p"
    and "unat p \<le> 0x8E000000" and "unat vend \<le> 0x8E000000" and "set xs \<inter> pages_between p vend = {}"
  shows "\<exists>s' ys. freerange_loop kend me stack p vend s = Inr s' \<and> kmem_inv kend s' ys \<and>
    set ys = set xs \<union> pages_between p vend \<and> use_lock s' = use_lock s"
  using assms
proof (induction kend me stack p vend s arbitrary: xs rule: freerange_loop.induct)
  case (1 kend me stack p vend s)
  have next_p: "unat (p + PGSIZE) = unat p + 4096" using 1(6) by (subst unat_add_no_wrap) simp_all
  show ?case
  proof (cases "p + PGSIZE \<le> vend")
    case False
    then have "pages_between p vend = {}" using next_p by (auto simp: pages_between_def word_le_nat_alt)
    with False 1(2) show ?thesis by (subst freerange_loop.simps) auto
  next
    case True
    then have "unat p + 4096 \<le> unat vend" using next_p by (simp add: word_le_nat_alt)
    then have p: "unat p < 0x8E000000" "unat p + 4096 \<le> 0x8E000000" using 1(7) by simp_all
    have "V2P p < PHYSTOP"
      using p(1) 1(5) by (simp add: V2P_def PHYSTOP_def KERNBASE_def word_less_nat_alt unat_sub word_le_nat_alt)
    then have ok: "page_ok kend p" using 1(3,4) by (simp add: page_ok_def)
    note step = pages_between_step [OF 1(3) next_p True]
    have "p \<notin> set xs" using 1(8) step by auto
    from kfree_adds [OF 1(2) ok this, of me stack] obtain s1 where s1: "kfree kend me stack p s = Inr s1"
      "kmem_inv kend s1 (p # xs)" "use_lock s1 = use_lock s" by blast
    have "set (p # xs) \<inter> pages_between (p + PGSIZE) vend = {}"
      using 1(8) step next_p by (auto simp: pages_between_def)
    moreover have "kend \<le> p + PGSIZE" using 1(4) next_p by (simp add: word_le_nat_alt)
    ultimately obtain s' ys where "freerange_loop kend me stack (p + PGSIZE) vend s1 = Inr s'" "kmem_inv kend s' ys"
      "set ys = set (p # xs) \<union> pages_between (p + PGSIZE) vend" "use_lock s' = use_lock s1"
      using 1(1) [OF True s1(1,2) aligned_next [OF 1(3) next_p]] 1(5,7) p(2) next_p by auto
    with True s1 step show ?thesis by (subst freerange_loop.simps) auto
  qed
qed

section \<open>No page is handed out twice\<close>

text \<open>
  The clients of an allocator, with the pages they own: a page that is allocated becomes
  theirs, and they free only what is theirs.
\<close>

inductive clients ::
  "('s \<Rightarrow> ('p \<times> 's) result) \<Rightarrow> ('p \<Rightarrow> 's \<Rightarrow> 's result) \<Rightarrow> 'p \<Rightarrow> 's \<Rightarrow> 's \<Rightarrow> 'p set \<Rightarrow> bool"
  for alloc give none s0 where
  boot: "clients alloc give none s0 s0 {}"
| take: "clients alloc give none s0 s owned \<Longrightarrow> alloc s = Inr (p, s') \<Longrightarrow>
    clients alloc give none s0 s' (if p = none then owned else insert p owned)"
| return: "clients alloc give none s0 s owned \<Longrightarrow> p \<in> owned \<Longrightarrow> give p s = Inr s' \<Longrightarrow>
    clients alloc give none s0 s' (owned - {p})"

locale page_allocator =
  fixes alloc :: "'s \<Rightarrow> ('p \<times> 's) result" and give :: "'p \<Rightarrow> 's \<Rightarrow> 's result"
    and avail :: "'s \<Rightarrow> 'p set" and good :: "'s \<Rightarrow> bool" and none :: 'p and valid :: "'p \<Rightarrow> bool"
  assumes alloc_some: "good s \<Longrightarrow> avail s \<noteq> {} \<Longrightarrow>
      \<exists>p s'. alloc s = Inr (p, s') \<and> p \<in> avail s \<and> avail s' = avail s - {p} \<and> good s'"
    and alloc_none: "good s \<Longrightarrow> avail s = {} \<Longrightarrow> \<exists>s'. alloc s = Inr (none, s') \<and> avail s' = {} \<and> good s'"
    and give_back: "good s \<Longrightarrow> valid p \<Longrightarrow> p \<notin> avail s \<Longrightarrow> \<exists>s'. give p s = Inr s' \<and> avail s' = insert p (avail s) \<and> good s'"
    and avail_valid: "good s \<Longrightarrow> p \<in> avail s \<Longrightarrow> valid p"
    and none_invalid: "\<not> valid none"
begin

lemma alloc_cases:
  assumes "good s" and "alloc s = Inr (p, s')"
  shows "good s' \<and> (p = none \<and> avail s = {} \<and> avail s' = {} \<or>
    p \<noteq> none \<and> p \<in> avail s \<and> avail s' = avail s - {p})"
proof (cases "avail s = {}")
  case True
  with alloc_none [OF assms(1)] assms(2) show ?thesis by auto
next
  case False
  with alloc_some [OF assms(1)] assms(2) obtain "p \<in> avail s" "avail s' = avail s - {p}" "good s'" by auto
  moreover have "p \<noteq> none" using avail_valid [OF assms(1) \<open>p \<in> avail s\<close>] none_invalid by auto
  ultimately show ?thesis by blast
qed

text \<open>Every page is either free or owned, never both, and the requests of the clients are served.\<close>

lemma pages_partitioned:
  assumes "clients alloc give none s0 s owned" and "good s0"
  shows "good s \<and> owned \<inter> avail s = {} \<and> owned \<union> avail s = avail s0"
  using assms(1)
proof induction
  case boot
  with assms(2) show ?case by simp
next
  case (take s owned p s')
  with alloc_cases [of s p s'] show ?case by auto
next
  case (return s owned p s')
  then have "valid p" using avail_valid [OF assms(2)] by auto
  moreover have "p \<notin> avail s" "good s" using return by auto
  ultimately have "avail s' = insert p (avail s)" "good s'" using give_back [of s p] return.hyps(3) by auto
  with return show ?case by auto
qed

lemma requests_served:
  assumes "clients alloc give none s0 s owned" and "good s0"
  shows "\<exists>p s'. alloc s = Inr (p, s') \<and> p \<notin> owned \<and> (p = none \<longleftrightarrow> owned = avail s0) \<and> (p \<noteq> none \<longrightarrow> p \<in> avail s0)"
    and "p \<in> owned \<Longrightarrow> \<exists>s'. give p s = Inr s'"
proof -
  note st = pages_partitioned [OF assms]
  show "\<exists>p s'. alloc s = Inr (p, s') \<and> p \<notin> owned \<and> (p = none \<longleftrightarrow> owned = avail s0) \<and> (p \<noteq> none \<longrightarrow> p \<in> avail s0)"
  proof (cases "avail s = {}")
    case True
    then have "none \<notin> owned" using st avail_valid [OF assms(2), of none] none_invalid by auto
    with True st alloc_none [of s] show ?thesis by auto
  next
    case False
    with st obtain p s' where p: "alloc s = Inr (p, s')" "p \<in> avail s" using alloc_some [of s] by blast
    moreover have "p \<noteq> none" using avail_valid [of s p] none_invalid st p by auto
    ultimately show ?thesis using st by (intro exI [of _ p] exI [of _ s']) auto
  qed
  show "p \<in> owned \<Longrightarrow> \<exists>s'. give p s = Inr s'"
    using st give_back [of s p] avail_valid [OF assms(2), of p] by auto
qed

end

definition free_pages :: "u32 \<Rightarrow> kmem \<Rightarrow> u32 set" where
  "free_pages kend s = {x. \<exists>xs. kmem_inv kend s xs \<and> x \<in> set xs}"

lemma free_pages_eq: "kmem_inv kend s xs \<Longrightarrow> free_pages kend s = set xs"
  using free_list_unique unfolding free_pages_def kmem_inv_def by blast

interpretation kernel_pages: page_allocator "kalloc me stack" "kfree kend me stack" "free_pages kend"
  "\<lambda>s. \<exists>xs. kmem_inv kend s xs" "0" "page_ok kend" for kend me stack
proof (unfold_locales, goal_cases)
  case (1 s)
  then obtain x xs where inv: "kmem_inv kend s (x # xs)" by (metis free_pages_eq list.exhaust list.set(1))
  with kalloc_takes [OF inv, of me stack] obtain s' where "kalloc me stack s = Inr (x, s')" "kmem_inv kend s' xs" by auto
  moreover have "x \<notin> set xs" using inv by (simp add: kmem_inv_def)
  ultimately show ?case using free_pages_eq [OF inv] by (auto simp: free_pages_eq)
next
  case (2 s)
  then obtain xs where inv: "kmem_inv kend s xs" by blast
  with 2 have "xs = []" by (simp add: free_pages_eq)
  with kalloc_takes [OF inv, of me stack] show ?case by (auto simp: free_pages_eq)
next
  case (3 s p)
  then obtain xs where inv: "kmem_inv kend s xs" by blast
  with 3 have "p \<notin> set xs" by (simp add: free_pages_eq)
  from kfree_adds [OF inv 3(2) this, of me stack] obtain s' where "kfree kend me stack p s = Inr s'" "kmem_inv kend s' (p # xs)" by blast
  then show ?case using free_pages_eq [OF inv] by (auto simp: free_pages_eq)
next
  case (4 s p)
  then show ?case by (auto simp: free_pages_eq kmem_inv_def)
next
  case 5
  then show ?case using page_nonzero by blast
qed

end
