(* ===== verification/Ring_Buffer.thy ===== *)
theory Ring_Buffer
  imports Prelude
begin

text \<open>
  Ring buffers with two free-running counters of 32 bits, as the pipe and the console have
  them, and the contract of a bounded queue that they keep.
\<close>

section \<open>Counters that wrap around\<close>

lemma counter_index:
  assumes "N dvd (2 :: nat) ^ 32"
  shows "unat (r + word_of_nat k :: u32) mod N = (unat r + k) mod N"
proof -
  have "unat (r + word_of_nat k :: u32) = (unat r + k) mod 2 ^ 32"
    by (simp add: unat_word_ariths unat_of_nat mod_simps)
  then show ?thesis using assms by (simp add: mod_mod_cancel)
qed

definition ring_contents :: "nat \<Rightarrow> 'b list \<Rightarrow> u32 \<Rightarrow> u32 \<Rightarrow> 'b list" where
  "ring_contents N data r w = map (\<lambda>k. data ! ((unat r + k) mod N)) [0..<unat (w - r)]"

definition ring_ok :: "nat \<Rightarrow> 'b list \<Rightarrow> u32 \<Rightarrow> u32 \<Rightarrow> bool" where
  "ring_ok N data r w \<longleftrightarrow> length data = N \<and> unat (w - r) \<le> N"

lemma length_ring_contents [simp]: "length (ring_contents N data r w) = unat (w - r)"
  by (simp add: ring_contents_def)

lemma counter_distance: "unat (w + 1 - r) = unat (w - r) + 1" if "unat (w - r) < 2 ^ 32 - 1" for w r :: u32
proof -
  have "unat ((w - r) + 1) = unat (w - r) + 1" using that by (subst unat_add_no_wrap) simp_all
  then show ?thesis by (simp add: algebra_simps)
qed

lemma ring_write_index:
  assumes "N dvd (2 :: nat) ^ 32"
  shows "unat (w :: u32) mod N = (unat r + unat (w - r)) mod N"
  using counter_index [OF assms, of r "unat (w - r)"] by simp

lemma ring_distinct:
  assumes "(k :: nat) < n" and "n < N"
  shows "(a + k) mod N \<noteq> (a + n) mod N"
proof
  assume eq: "(a + k) mod N = (a + n) mod N"
  then have "N dvd (a + n) - (a + k)" using assms(1) by (metis add_le_mono1 mod_eq_dvd_iff_nat less_imp_le add.commute)
  then have "N dvd n - k" by simp
  with assms show False by (auto dest: dvd_imp_le)
qed

lemma counter_full:
  assumes "N < 2 ^ 32"
  shows "w = r + word_of_nat N \<longleftrightarrow> unat (w - r :: u32) = N"
proof -
  have "unat (w - r) = N \<longleftrightarrow> w - r = word_of_nat N"
    using assms by (simp add: word_unat_eq_iff unat_of_nat)
  then show ?thesis by (metis add.commute diff_add_cancel add_diff_cancel_left')
qed

lemma ring_put:
  assumes "N dvd (2 :: nat) ^ 32" and "ring_ok N data r w" and "unat (w - r) < N" and "N < 2 ^ 32"
  shows "ring_ok N (data[unat w mod N := b]) r (w + 1)"
    and "ring_contents N (data[unat w mod N := b]) r (w + 1) = ring_contents N data r w @ [b]"
proof -
  have dist: "unat (w + 1 - r) = unat (w - r) + 1"
    using assms(3,4) by (intro counter_distance) simp
  then show "ring_ok N (data[unat w mod N := b]) r (w + 1)"
    using assms(2,3) by (simp add: ring_ok_def)
  have N: "0 < N" "length data = N" using assms(2,3) by (simp_all add: ring_ok_def)
  have idx: "unat w mod N = (unat r + unat (w - r)) mod N" by (rule ring_write_index [OF assms(1)])
  have old: "data[unat w mod N := b] ! ((unat r + k) mod N) = data ! ((unat r + k) mod N)" if "k < unat (w - r)" for k
    using ring_distinct [OF that assms(3), of "unat r"] idx by simp
  have new: "data[unat w mod N := b] ! ((unat r + unat (w - r)) mod N) = b"
    using N by (simp flip: idx)
  show "ring_contents N (data[unat w mod N := b]) r (w + 1) = ring_contents N data r w @ [b]"
    unfolding ring_contents_def dist using old new by simp
qed

lemma ring_get:
  assumes "N dvd (2 :: nat) ^ 32" and "ring_ok N data r w" and "r \<noteq> w"
  shows "ring_ok N data (r + 1) w"
    and "ring_contents N data r w = data ! (unat r mod N) # ring_contents N data (r + 1) w"
proof -
  have nz: "w - r \<noteq> 0" using assms(3) by simp
  have "unat (w - (r + 1)) = unat (w - r) - 1"
    using unat_minus_one [OF nz] by (simp add: algebra_simps)
  then have dist: "unat (w - r) = Suc (unat (w - (r + 1)))"
    using nz by (simp add: unat_gt_0)
  then show "ring_ok N data (r + 1) w" using assms(2) by (simp add: ring_ok_def)
  have "unat (r + 1) mod N = (unat r + 1) mod N" using counter_index [OF assms(1), of r 1] by simp
  then have idx: "(unat (r + 1) + k) mod N = (unat r + Suc k) mod N" for k
    by (metis add.assoc mod_add_left_eq plus_1_eq_Suc)
  show "ring_contents N data r w = data ! (unat r mod N) # ring_contents N data (r + 1) w"
    unfolding ring_contents_def dist idx
    by (simp add: upt_conv_Cons map_Suc_upt [symmetric] del: upt_Suc)
qed

text \<open>Taking back the element that was put last, and cutting the contents at a third counter.\<close>

lemma ring_unput:
  assumes "N dvd (2 :: nat) ^ 32" and "ring_ok N data r e" and "r \<noteq> e"
  shows "ring_ok N data r (e - 1)"
    and "ring_contents N data r e = ring_contents N data r (e - 1) @ [data ! (unat (e - 1) mod N)]"
proof -
  have "e - r \<noteq> 0" using assms(3) by simp
  from unat_minus_one [OF this] have "unat (e - 1 - r) = unat (e - r) - 1" by (simp add: algebra_simps)
  then have dist: "unat (e - r) = Suc (unat (e - 1 - r))" using \<open>e - r \<noteq> 0\<close> by (simp add: unat_gt_0)
  then show "ring_ok N data r (e - 1)" using assms(2) by (simp add: ring_ok_def)
  show "ring_contents N data r e = ring_contents N data r (e - 1) @ [data ! (unat (e - 1) mod N)]"
    unfolding ring_contents_def dist using ring_write_index [OF assms(1), of "e - 1" r] by simp
qed

lemma ring_split:
  assumes "N dvd (2 :: nat) ^ 32" and "unat (w - r) \<le> unat (e - r)"
  shows "unat (e - w) = unat (e - r) - unat (w - r)"
    and "ring_contents N data r e = ring_contents N data r w @ ring_contents N data w e"
proof -
  have "unat ((e - r) - (w - r)) = unat (e - r) - unat (w - r)"
    by (rule unat_sub) (use assms(2) in \<open>simp add: word_le_nat_alt\<close>)
  then show d: "unat (e - w) = unat (e - r) - unat (w - r)" by simp
  have idx: "(unat w + k) mod N = (unat r + (unat (w - r) + k)) mod N" for k
    using ring_write_index [OF assms(1), of w r] by (metis add.assoc mod_add_left_eq)
  have "[0..<unat (e - r)] = [0..<unat (w - r)] @ map (\<lambda>k. unat (w - r) + k) [0..<unat (e - w)]"
    by (rule nth_equalityI) (use assms(2) d in \<open>auto simp: nth_append\<close>)
  then show "ring_contents N data r e = ring_contents N data r w @ ring_contents N data w e"
    by (simp add: ring_contents_def idx)
qed

section \<open>Bounded queues\<close>

text \<open>Putting as many elements as fit, and taking up to a number of elements.\<close>

fun put_all :: "('s \<Rightarrow> bool) \<Rightarrow> ('b \<Rightarrow> 's \<Rightarrow> 's) \<Rightarrow> 'b list \<Rightarrow> 's \<Rightarrow> 's \<times> 'b list" where
  "put_all isfull put [] s = (s, [])"
| "put_all isfull put (b # bs) s = (if isfull s then (s, b # bs) else put_all isfull put bs (put b s))"

fun get_upto :: "('s \<Rightarrow> bool) \<Rightarrow> ('s \<Rightarrow> 'b \<times> 's) \<Rightarrow> nat \<Rightarrow> 's \<Rightarrow> 'b list \<times> 's" where
  "get_upto isempty get 0 s = ([], s)"
| "get_upto isempty get (Suc n) s =
     (if isempty s then ([], s) else
      case get s of (b, s) \<Rightarrow> case get_upto isempty get n s of (bs, s) \<Rightarrow> (b # bs, s))"

locale bounded_queue =
  fixes contents :: "'s \<Rightarrow> 'b list" and good :: "'s \<Rightarrow> bool" and cap :: nat
    and isfull :: "'s \<Rightarrow> bool" and isempty :: "'s \<Rightarrow> bool" and put :: "'b \<Rightarrow> 's \<Rightarrow> 's" and get :: "'s \<Rightarrow> 'b \<times> 's"
  assumes bounded: "good s \<Longrightarrow> length (contents s) \<le> cap"
    and full_iff: "good s \<Longrightarrow> isfull s \<longleftrightarrow> length (contents s) = cap"
    and empty_iff: "good s \<Longrightarrow> isempty s \<longleftrightarrow> contents s = []"
    and put_ok: "good s \<Longrightarrow> \<not> isfull s \<Longrightarrow> good (put b s) \<and> contents (put b s) = contents s @ [b]"
    and get_ok: "good s \<Longrightarrow> \<not> isempty s \<Longrightarrow> good (snd (get s)) \<and> contents s = fst (get s) # contents (snd (get s))"
begin

lemma put_all_contents:
  "good s \<Longrightarrow> good (fst (put_all isfull put bs s)) \<and>
    contents (fst (put_all isfull put bs s)) = contents s @ take (cap - length (contents s)) bs \<and>
    snd (put_all isfull put bs s) = drop (cap - length (contents s)) bs"
proof (induction bs arbitrary: s)
  case Nil
  then show ?case by simp
next
  case (Cons b bs)
  show ?case
  proof (cases "isfull s")
    case True
    with Cons.prems full_iff show ?thesis by simp
  next
    case False
    then have "length (contents s) < cap" using bounded [OF Cons.prems] full_iff [OF Cons.prems] by simp
    then obtain k where "cap - length (contents s) = Suc k" "cap - Suc (length (contents s)) = k"
      by (metis Suc_diff_Suc)
    with False Cons.IH [of "put b s"] put_ok [OF Cons.prems False, of b] show ?thesis by simp
  qed
qed

lemma get_upto_contents:
  "good s \<Longrightarrow> good (snd (get_upto isempty get n s)) \<and> fst (get_upto isempty get n s) = take n (contents s) \<and>
    contents (snd (get_upto isempty get n s)) = drop n (contents s)"
proof (induction n arbitrary: s)
  case 0
  then show ?case by simp
next
  case (Suc n)
  show ?case
  proof (cases "isempty s")
    case True
    with Suc.prems empty_iff show ?thesis by simp
  next
    case False
    note g = get_ok [OF Suc.prems False]
    with False Suc.IH [of "snd (get s)"] show ?thesis by (auto split: prod.splits)
  qed
qed

end

end
