(* ===== verification/Xv6_Pipe.thy ===== *)
theory Xv6_Pipe
  imports Ring_Buffer
begin

text \<open>
  \<open>pipe.c\<close>. A call runs under the lock of the pipe until it returns or sleeps, which releases
  the lock; such a stretch is one function here. It returns the pipe, the calls of \<open>wakeup\<close> it
  has made, and how it ended.
\<close>

section \<open>The operations\<close>

definition PIPESIZE :: nat where "PIPESIZE = 512"

record pipe =
  data :: "u8 list"
  nread :: u32
  nwrite :: u32
  readopen :: bool
  writeopen :: bool

datatype wakeup = WakeReaders | WakeWriters   \<comment> \<open>\<open>wakeup(&p->nread)\<close> and \<open>wakeup(&p->nwrite)\<close>\<close>

text \<open>How a stretch of \<open>pipewrite\<close> ends: with a result, or asleep before byte number \<open>i\<close>.\<close>

datatype write_end = Wrote int | WriteSleeps nat

datatype read_end = Read "u8 list" | ReadFails | ReadSleeps

definition pipe_full :: "pipe \<Rightarrow> bool" where
  "pipe_full p \<longleftrightarrow> nwrite p = nread p + word_of_nat PIPESIZE"

definition pipe_put :: "u8 \<Rightarrow> pipe \<Rightarrow> pipe" where
  "pipe_put b p = p\<lparr>data := (data p)[unat (nwrite p) mod PIPESIZE := b], nwrite := nwrite p + 1\<rparr>"

definition pipe_get :: "pipe \<Rightarrow> u8 \<times> pipe" where
  "pipe_get p = (data p ! (unat (nread p) mod PIPESIZE), p\<lparr>nread := nread p + 1\<rparr>)"

function pipewrite_from :: "bool \<Rightarrow> u8 list \<Rightarrow> nat \<Rightarrow> pipe \<Rightarrow> pipe \<times> wakeup list \<times> write_end" where
  "pipewrite_from killed addr i p =
     (if i < length addr then
        if pipe_full p then
          if \<not> readopen p \<or> killed then (p, [], Wrote (-1))
          else (p, [WakeReaders], WriteSleeps i)
        else pipewrite_from killed addr (i + 1) (pipe_put (addr ! i) p)
      else (p, [WakeReaders], Wrote (int (length addr))))"
  by pat_completeness auto
termination by (relation "measure (\<lambda>(killed, addr, i, p). length addr - i)") auto

declare pipewrite_from.simps [simp del]

definition pipewrite :: "bool \<Rightarrow> u8 list \<Rightarrow> pipe \<Rightarrow> pipe \<times> wakeup list \<times> write_end" where
  "pipewrite killed addr p = pipewrite_from killed addr 0 p"

fun pipe_copy :: "nat \<Rightarrow> pipe \<Rightarrow> u8 list \<times> pipe" where
  "pipe_copy 0 p = ([], p)"
| "pipe_copy (Suc n) p =
     (if nread p = nwrite p then ([], p) else
      case pipe_get p of (b, p) \<Rightarrow> case pipe_copy n p of (bs, p) \<Rightarrow> (b # bs, p))"

definition piperead :: "bool \<Rightarrow> nat \<Rightarrow> pipe \<Rightarrow> pipe \<times> wakeup list \<times> read_end" where
  "piperead killed n p =
     (if nread p = nwrite p \<and> writeopen p then
        if killed then (p, [], ReadFails) else (p, [], ReadSleeps)
      else case pipe_copy n p of (bs, p) \<Rightarrow> (p, [WakeWriters], Read bs))"

text \<open>\<open>pipeclose\<close> tells whether the page of the pipe was freed.\<close>

definition pipeclose :: "bool \<Rightarrow> pipe \<Rightarrow> pipe \<times> wakeup list \<times> bool" where
  "pipeclose writable p =
     (let (p, ws) = (if writable then (p\<lparr>writeopen := False\<rparr>, [WakeReaders])
                     else (p\<lparr>readopen := False\<rparr>, [WakeWriters]))
      in (p, ws, \<not> readopen p \<and> \<not> writeopen p))"

section \<open>The pipe is a bounded queue\<close>

definition pipe_contents :: "pipe \<Rightarrow> u8 list" where
  "pipe_contents p = ring_contents PIPESIZE (data p) (nread p) (nwrite p)"

definition pipe_ok :: "pipe \<Rightarrow> bool" where
  "pipe_ok p \<longleftrightarrow> ring_ok PIPESIZE (data p) (nread p) (nwrite p)"

lemma PIPESIZE_dvd: "PIPESIZE dvd 2 ^ 32" "PIPESIZE < 2 ^ 32"
  by (simp_all add: PIPESIZE_def)

lemma pipe_full_iff: "pipe_full p \<longleftrightarrow> unat (nwrite p - nread p) = PIPESIZE"
  unfolding pipe_full_def by (rule counter_full [OF PIPESIZE_dvd(2)])

interpretation pipe_queue: bounded_queue pipe_contents pipe_ok PIPESIZE pipe_full "\<lambda>p. nread p = nwrite p" pipe_put pipe_get
proof (unfold_locales, goal_cases)
  case (1 p)
  then show ?case by (simp add: pipe_ok_def ring_ok_def pipe_contents_def)
next
  case (2 p)
  then show ?case by (simp add: pipe_full_iff pipe_contents_def)
next
  case (3 p)
  show ?case by (auto simp: pipe_contents_def ring_contents_def unsigned_eq_0_iff)
next
  case (4 p b)
  then have "unat (nwrite p - nread p) < PIPESIZE"
    using pipe_full_iff [of p] by (simp add: pipe_ok_def ring_ok_def)
  with 4 ring_put [OF PIPESIZE_dvd(1), of "data p" "nread p" "nwrite p" b] PIPESIZE_dvd(2) show ?case
    by (simp add: pipe_ok_def pipe_put_def pipe_contents_def)
next
  case (5 p)
  with ring_get [OF PIPESIZE_dvd(1), of "data p" "nread p" "nwrite p"] show ?case
    by (simp add: pipe_ok_def pipe_get_def pipe_contents_def)
qed

text \<open>The loops of \<open>pipewrite\<close> and \<open>piperead\<close> are those of the queue.\<close>

lemma pipe_copy_eq: "pipe_copy n p = get_upto (\<lambda>p. nread p = nwrite p) pipe_get n p"
  by (induction n arbitrary: p) (auto split: prod.splits)

lemma pipewrite_from_eq:
  assumes "i \<le> length addr"
  shows "pipewrite_from killed addr i p =
    (case put_all pipe_full pipe_put (drop i addr) p of (p', rest) \<Rightarrow>
       if rest = [] then (p', [WakeReaders], Wrote (int (length addr)))
       else if \<not> readopen p \<or> killed then (p', [], Wrote (-1))
       else (p', [WakeReaders], WriteSleeps (length addr - length rest)))"
  using assms
proof (induction killed addr i p rule: pipewrite_from.induct)
  case (1 killed addr i p)
  show ?case
  proof (cases "i < length addr")
    case False
    with 1(2) show ?thesis by (subst pipewrite_from.simps) simp
  next
    case True
    then have d: "drop i addr = addr ! i # drop (Suc i) addr" by (simp add: Cons_nth_drop_Suc)
    have "readopen (pipe_put b p) = readopen p" for b by (simp add: pipe_put_def)
    with True 1 show ?thesis by (subst pipewrite_from.simps) (auto simp: d split: prod.splits)
  qed
qed

lemma pipe_flags:
  "readopen (fst (put_all pipe_full pipe_put bs p)) = readopen p"
  "writeopen (fst (put_all pipe_full pipe_put bs p)) = writeopen p"
  by (induction bs arbitrary: p) (simp_all add: pipe_put_def)

section \<open>What is written is read\<close>

text \<open>
  A history of a pipe: stretches of writers and readers in any order, with the bytes that have
  gone in (as many as \<open>nwrite\<close> has advanced by) and those that readers have got.
\<close>

datatype pipe_op = PWrite bool "u8 list" | PRead bool nat

fun pipe_run :: "pipe_op list \<Rightarrow> pipe \<Rightarrow> u8 list \<times> u8 list \<times> pipe" where
  "pipe_run [] p = ([], [], p)"
| "pipe_run (PWrite killed bs # ops) p =
     (case pipewrite killed bs p of (p', _) \<Rightarrow>
      case pipe_run ops p' of (ins, outs, p'') \<Rightarrow> (take (unat (nwrite p' - nwrite p)) bs @ ins, outs, p''))"
| "pipe_run (PRead killed n # ops) p =
     (case piperead killed n p of (p', _, e) \<Rightarrow>
      case pipe_run ops p' of (ins, outs, p'') \<Rightarrow> (ins, (case e of Read bs \<Rightarrow> bs | _ \<Rightarrow> []) @ outs, p''))"

lemma put_all_nwrite:
  "case put_all pipe_full pipe_put bs p of (p', rest) \<Rightarrow>
     length rest \<le> length bs \<and> nwrite p' = nwrite p + word_of_nat (length bs - length rest)"
proof (induction bs arbitrary: p)
  case (Cons b bs)
  have "nwrite (pipe_put b p) = nwrite p + 1" by (simp add: pipe_put_def)
  with Cons [of "pipe_put b p"] show ?case by (auto simp: Suc_diff_le split: prod.splits)
qed simp

lemma pipewrite_queue:
  assumes "pipe_ok p"
  shows "pipe_ok (fst (pipewrite killed bs p)) \<and> pipe_contents (fst (pipewrite killed bs p)) =
    pipe_contents p @ take (unat (nwrite (fst (pipewrite killed bs p)) - nwrite p)) bs"
proof -
  obtain p1 rest where w: "put_all pipe_full pipe_put bs p = (p1, rest)" by fastforce
  have fst: "fst (pipewrite killed bs p) = p1"
    using pipewrite_from_eq [of 0 bs killed p] w by (auto simp: pipewrite_def)
  let ?k = "PIPESIZE - length (pipe_contents p)"
  have p1: "pipe_ok p1" "pipe_contents p1 = pipe_contents p @ take ?k bs" "rest = drop ?k bs"
    using pipe_queue.put_all_contents [OF assms, of bs] w by simp_all
  have le: "length bs - length rest \<le> PIPESIZE" by (simp add: p1(3))
  have "nwrite p1 = nwrite p + word_of_nat (length bs - length rest)" using put_all_nwrite [of bs p] w by simp
  then have "unat (nwrite p1 - nwrite p) = length bs - length rest" using le by (simp add: PIPESIZE_def unat_of_nat)
  then have "take (unat (nwrite p1 - nwrite p)) bs = take ?k bs"
    by (cases "?k \<le> length bs") (simp_all add: p1(3))
  with p1 fst show ?thesis by simp
qed

lemma piperead_queue:
  assumes "pipe_ok p" and "piperead killed n p = (p', wk, e)"
  shows "pipe_ok p' \<and> pipe_contents p = (case e of Read bs \<Rightarrow> bs | _ \<Rightarrow> []) @ pipe_contents p'"
proof -
  obtain bs p1 where w: "pipe_copy n p = (bs, p1)" by fastforce
  have "pipe_ok p1" "bs = take n (pipe_contents p)" "pipe_contents p1 = drop n (pipe_contents p)"
    using pipe_queue.get_upto_contents [OF assms(1), of n] w by (simp_all add: pipe_copy_eq)
  with assms w show ?thesis by (auto simp: piperead_def split: if_splits)
qed

lemma pipe_fifo:
  assumes "pipe_ok p" and "pipe_run ops p = (ins, outs, p')"
  shows "pipe_ok p' \<and> pipe_contents p @ ins = outs @ pipe_contents p'"
  using assms
proof (induction ops arbitrary: p ins outs)
  case Nil
  then show ?case by simp
next
  case (Cons opr ops)
  show ?case
  proof (cases opr)
    case (PWrite killed bs)
    obtain p1 x where w: "pipewrite killed bs p = (p1, x)" by (cases "pipewrite killed bs p")
    obtain ins1 where r: "pipe_run ops p1 = (ins1, outs, p')" "ins = take (unat (nwrite p1 - nwrite p)) bs @ ins1"
      using Cons.prems(2) PWrite w by (auto split: prod.splits)
    have "pipe_ok p1" "pipe_contents p1 = pipe_contents p @ take (unat (nwrite p1 - nwrite p)) bs"
      using pipewrite_queue [OF Cons.prems(1), of killed bs] w by simp_all
    with Cons.IH [OF _ r(1)] r(2) show ?thesis by simp
  next
    case (PRead killed n)
    obtain p1 wk e where w: "piperead killed n p = (p1, wk, e)" by (metis prod_cases3)
    obtain outs1 where r: "pipe_run ops p1 = (ins, outs1, p')" "outs = (case e of Read bs \<Rightarrow> bs | _ \<Rightarrow> []) @ outs1"
      using Cons.prems(2) PRead w by (auto split: prod.splits)
    note q = piperead_queue [OF Cons.prems(1) w]
    with Cons.IH [OF _ r(1)] r(2) show ?thesis by simp
  qed
qed

end
