(* ===== verification/Xv6_Printint.thy ===== *)
theory Xv6_Printint
  imports Prelude
begin

text \<open>
  The number printer that the kernel's \<open>console.c\<close> and the user library's \<open>printf.c\<close> share up to
  the case of the digits: it fills a buffer of 16 characters from the least digit on and emits
  it in reverse. The result is the list of characters in the order they are emitted.
\<close>

section \<open>The code\<close>

definition byte :: "char \<Rightarrow> u8" where
  "byte c = word_of_nat (of_char c)"

definition digits_lower :: "u8 list" where "digits_lower = map byte ''0123456789abcdef''"
definition digits_upper :: "u8 list" where "digits_upper = map byte ''0123456789ABCDEF''"

text \<open>The \<open>do\<close> loop: \<open>base\<close> is an \<open>int\<close> in the code and converted to \<open>uint\<close> by the operators.\<close>

function print_digits :: "u8 list \<Rightarrow> u32 \<Rightarrow> u32 \<Rightarrow> nat \<Rightarrow> u8 list \<Rightarrow> (u8 list \<times> nat) result" where
  "print_digits digits base x i buf =
     (if base = 0 then Inl DivideByZero else if base = 1 then Inl Diverges else
      bindE (rd digits (unat (x mod base))) (\<lambda>d.
      bindE (wr buf i d) (\<lambda>buf.
      let x = x div base in
      if x \<noteq> 0 then print_digits digits base x (i + 1) buf else Inr (buf, i + 1))))"
  by pat_completeness auto
termination
proof (relation "measure (\<lambda>(digits, base, x, i, buf). unat x)", goal_cases)
  case (2 digits base x i buf d buf' x')
  have "2 \<le> unat base"
    using 2(1,2) by (metis One_nat_def less_2_cases_iff not_less unsigned_0 unsigned_1 word_unat_eq_iff)
  moreover have "x \<noteq> 0" using 2 by auto
  ultimately have "unat (x div base) < unat x" by (simp add: unat_div unat_gt_0)
  with 2 show ?case by simp
qed simp

declare print_digits.simps [simp del]

text \<open>
  \<open>-xx\<close> overflows for the least \<open>int\<close>. \<open>while(--i >= 0)\<close> emits the characters from the last to
  the first.
\<close>

definition printint_with :: "u8 list \<Rightarrow> u32 \<Rightarrow> u32 \<Rightarrow> bool \<Rightarrow> u8 list result" where
  "printint_with digits xx base sign =
     (let neg = (sign \<and> sint xx < 0) in
      if neg \<and> sint xx = - (2 ^ 31) then Inl SignedOverflow else
      let x = (if neg then - xx else xx) in
      bindE (print_digits digits base x 0 (replicate 16 0)) (\<lambda>(buf, i).
      bindE (if neg then bindE (wr buf i (byte CHR ''-'')) (\<lambda>buf. Inr (buf, i + 1)) else Inr (buf, i)) (\<lambda>(buf, i).
        Inr (rev (take i buf)))))"

definition printint :: "u32 \<Rightarrow> u32 \<Rightarrow> bool \<Rightarrow> u8 list result" where
  "printint xx base sign = printint_with digits_lower xx base sign"

definition printint_user :: "u32 \<Rightarrow> u32 \<Rightarrow> bool \<Rightarrow> u8 list result" where
  "printint_user xx base sign = printint_with digits_upper xx base sign"

section \<open>The numeral\<close>

text \<open>The digits of a number, the least first, and the number they stand for.\<close>

fun numeral_digits :: "nat \<Rightarrow> nat \<Rightarrow> nat list" where
  "numeral_digits b n = (if b < 2 then [] else if n < b then [n] else (n mod b) # numeral_digits b (n div b))"

declare numeral_digits.simps [simp del]

fun digits_number :: "nat \<Rightarrow> nat list \<Rightarrow> nat" where
  "digits_number b [] = 0"
| "digits_number b (d # ds) = d + b * digits_number b ds"

lemma numeral_digits_value: "2 \<le> b \<Longrightarrow> digits_number b (numeral_digits b n) = n"
proof (induction b n rule: numeral_digits.induct)
  case (1 b n)
  then show ?case by (subst numeral_digits.simps) (auto simp: mult.commute)
qed

lemma numeral_digits_less: "2 \<le> b \<Longrightarrow> d \<in> set (numeral_digits b n) \<Longrightarrow> d < b"
proof (induction b n rule: numeral_digits.induct)
  case (1 b n)
  show ?case
  proof (cases "n < b")
    case True
    with 1(2) have "numeral_digits b n = [n]" by (subst numeral_digits.simps) simp
    with 1(3) True show ?thesis by simp
  next
    case False
    with 1(2) have "numeral_digits b n = (n mod b) # numeral_digits b (n div b)"
      by (subst numeral_digits.simps) simp
    with 1 False show ?thesis by auto
  qed
qed

lemma numeral_digits_length: "2 \<le> b \<Longrightarrow> n < b ^ k \<Longrightarrow> 0 < k \<Longrightarrow> length (numeral_digits b n) \<le> k"
proof (induction k arbitrary: n)
  case 0
  then show ?case by simp
next
  case (Suc k)
  show ?case
  proof (cases "n < b")
    case True
    with Suc.prems(1) show ?thesis by (subst numeral_digits.simps) simp
  next
    case False
    have lt: "n div b < b ^ k" using Suc.prems(1,2) by (metis less_mult_imp_div_less power_Suc2)
    have "0 < k" using False Suc.prems(2) by (cases k) auto
    with Suc lt False show ?thesis by (subst numeral_digits.simps) simp
  qed
qed

lemma numeral_digits_step:
  "2 \<le> b \<Longrightarrow> numeral_digits b n = (n mod b) # (if n div b = 0 then [] else numeral_digits b (n div b))"
  by (subst numeral_digits.simps) (auto simp: div_eq_0_iff)

text \<open>The loop writes the digits one after the other.\<close>

lemma print_digits_eq:
  assumes "2 \<le> unat base" and "unat base \<le> length digits"
    and "i + length (numeral_digits (unat base) (unat x)) \<le> length buf"
  shows "print_digits digits base x i buf =
    (let ds = map ((!) digits) (numeral_digits (unat base) (unat x))
     in Inr (take i buf @ ds @ drop (i + length ds) buf, i + length ds))"
  using assms
proof (induction digits base x i buf rule: print_digits.induct)
  case (1 digits base x i buf)
  let ?b = "unat base" and ?n = "unat x"
  have base: "base \<noteq> 0" "base \<noteq> 1" using 1(2) by auto
  have d: "unat (x mod base) = ?n mod ?b" "unat (x div base) = ?n div ?b" by (simp_all add: unat_mod unat_div)
  have lt: "?n mod ?b < length digits" using 1(2,3) by (meson mod_less_divisor order_less_le_trans zero_less_numeral)
  have z: "x div base = 0 \<longleftrightarrow> ?n div ?b = 0" using d(2) by (metis unsigned_eq_0_iff)
  note step = numeral_digits_step [OF 1(2), of ?n]
  have i: "i < length buf" using 1(4) by (simp add: step)
  let ?buf = "buf[i := digits ! (?n mod ?b)]"
  have hd: "take (i + 1) ?buf = take i buf @ [digits ! (?n mod ?b)]" "drop k ?buf = drop k buf" if "i < k" for k
    using i that by (simp_all add: take_Suc_conv_app_nth drop_update_cancel)
  show ?case
  proof (cases "?n div ?b = 0")
    case True
    with base lt i z d hd [of "Suc i"] show ?thesis
      by (subst print_digits.simps) (simp add: step upd_conv_take_nth_drop)
  next
    case False
    have "print_digits digits base (x div base) (i + 1) ?buf =
      (let ds = map ((!) digits) (numeral_digits ?b (unat (x div base)))
       in Inr (take (i + 1) ?buf @ ds @ drop (i + 1 + length ds) ?buf, i + 1 + length ds))"
      by (rule 1(1) [OF base _ _ refl]) (use 1(2-4) base lt i z d False in \<open>simp_all add: step\<close>)
    with base lt i z d False hd show ?thesis
      by (subst print_digits.simps) (simp add: step Let_def)
  qed
qed

text \<open>The value of a signed word, and its magnitude as the code computes it.\<close>

lemma sint_u32: "sint (x :: u32) = (if uint x < 2 ^ 31 then uint x else uint x - 2 ^ 32)"
proof -
  have "0 \<le> uint x" "uint x < 2 ^ 32" using uint_lt2p [of x] by simp_all
  moreover have "sint x = (uint x + 2 ^ 31) mod 2 ^ 32 - 2 ^ 31"
    by (simp add: sint_uint signed_take_bit_eq_take_bit_shift take_bit_eq_mod)
  moreover have "(uint x + 2 ^ 31) mod 2 ^ 32 = uint x - 2 ^ 31" if "\<not> uint x < 2 ^ 31"
  proof -
    have "(uint x + 2 ^ 31) mod 2 ^ 32 = (uint x + 2 ^ 31 - 2 ^ 32) mod 2 ^ 32" by (rule minus_mod_self2 [symmetric])
    also have "\<dots> = uint x - 2 ^ 31" using that \<open>uint x < 2 ^ 32\<close> by (subst mod_pos_pos_trivial) simp_all
    finally show ?thesis .
  qed
  ultimately show ?thesis by auto
qed

lemma magnitude: "sint (x :: u32) < 0 \<Longrightarrow> unat (- x) = nat (- sint x)"
proof -
  assume "sint x < 0"
  then have "sint x = uint x - 2 ^ 32" "0 < uint x" by (auto simp: sint_u32 split: if_splits)
  moreover have "uint (- x) = (- uint x) mod 2 ^ 32" by (simp add: uint_word_ariths)
  moreover have "(- uint x) mod 2 ^ 32 = 2 ^ 32 - uint x"
    using \<open>0 < uint x\<close> uint_lt2p [of x] by (simp add: zmod_zminus1_eq_if)
  ultimately show ?thesis by (metis minus_diff_eq nat_uint_eq)
qed

definition printed_value :: "u32 \<Rightarrow> bool \<Rightarrow> int" where
  "printed_value xx sign = (if sign then sint xx else uint xx)"

definition print_numeral :: "u8 list \<Rightarrow> nat \<Rightarrow> int \<Rightarrow> u8 list" where
  "print_numeral digits b v = (if v < 0 then [byte CHR ''-''] else []) @
     map ((!) digits) (rev (numeral_digits b (nat \<bar>v\<bar>)))"

lemma printint_with_numeral:
  assumes "unat base = 10 \<or> unat base = 16" and "length digits = 16"
    and "sign \<Longrightarrow> sint xx \<noteq> - (2 ^ 31)"
  shows "printint_with digits xx base sign = Inr (print_numeral digits (unat base) (printed_value xx sign))"
proof -
  define neg where "neg \<longleftrightarrow> sign \<and> sint xx < 0"
  define x where "x = (if neg then - xx else xx)"
  define ds where "ds = map ((!) digits) (numeral_digits (unat base) (unat x))"
  have v: "unat x = nat \<bar>printed_value xx sign\<bar>" "neg \<longleftrightarrow> printed_value xx sign < 0"
    using magnitude [of xx] uint_lt2p [of xx] by (auto simp: x_def neg_def printed_value_def sint_u32 split: if_splits)
  have "unat x < 2 ^ 32" using unsigned_less [of x] by simp
  then have "length (numeral_digits (unat base) (unat x)) \<le> 10"
    using assms(1) by (intro numeral_digits_length) auto
  then have len: "length ds \<le> 10" by (simp add: ds_def)
  let ?buf = "ds @ replicate (16 - length ds) 0"
  have run: "print_digits digits base x 0 (replicate 16 0) = Inr (?buf, length ds)"
    using print_digits_eq [of base digits 0 x "replicate 16 0"] assms(1,2) len by (auto simp: ds_def)
  have "take (Suc (length ds)) (?buf[length ds := c]) = ds @ [c]" for c
    using len by (simp add: list_update_append take_Suc_conv_app_nth)
  with run len assms(3) show ?thesis
    unfolding printint_with_def Let_def neg_def [symmetric] x_def [symmetric] print_numeral_def v(1) [symmetric] v(2) [symmetric]
    by (cases neg) (auto simp: ds_def rev_map neg_def)
qed

text \<open>Reading the printed digits gives the number back.\<close>

definition digit_value :: "u8 list \<Rightarrow> u8 \<Rightarrow> nat" where
  "digit_value digits c = length (takeWhile (\<lambda>d. d \<noteq> c) digits)"

definition read_numeral :: "u8 list \<Rightarrow> nat \<Rightarrow> u8 list \<Rightarrow> int" where
  "read_numeral digits b cs =
     (case cs of c # cs' \<Rightarrow> if c = byte CHR ''-'' then - int (digits_number b (map (digit_value digits) (rev cs')))
                            else int (digits_number b (map (digit_value digits) (rev cs)))
      | [] \<Rightarrow> 0)"

lemma digit_value_nth: "distinct ds \<Longrightarrow> k < length ds \<Longrightarrow> digit_value ds (ds ! k) = k"
proof (induction ds arbitrary: k)
  case Nil
  then show ?case by simp
next
  case (Cons d ds)
  then show ?case by (cases k) (auto simp: digit_value_def)
qed

lemma read_print_numeral:
  assumes "2 \<le> b" and "b \<le> length digits" and "distinct digits" and "byte CHR ''-'' \<notin> set digits"
  shows "read_numeral digits b (print_numeral digits b v) = v"
proof -
  let ?n = "nat \<bar>v\<bar>" and ?ds = "numeral_digits b (nat \<bar>v\<bar>)"
  have lt: "d < length digits" if "d \<in> set ?ds" for d
    using numeral_digits_less [OF assms(1) that] assms(2) by simp
  have "map (digit_value digits \<circ> (!) digits) ?ds = ?ds"
    by (intro map_idI) (use lt digit_value_nth [OF assms(3)] in auto)
  then have val: "digits_number b (map (digit_value digits) (rev (map ((!) digits) (rev ?ds)))) = ?n"
    using numeral_digits_value [OF assms(1)] by (simp add: rev_map)
  obtain d ds where ds: "rev ?ds = d # ds" using numeral_digits_step [OF assms(1), of ?n] by (cases "rev ?ds") auto
  then have "d \<in> set ?ds" by (metis list.set_intros(1) set_rev)
  then have "digits ! d \<noteq> byte CHR ''-''" using lt assms(4) by (metis nth_mem)
  with val ds show ?thesis by (auto simp: read_numeral_def print_numeral_def)
qed

end
