(* ===== verification/Xv6_Console.thy ===== *)
theory Xv6_Console
  imports Xv6_String Xv6_Printint Ring_Buffer
begin

text \<open>
  \<open>console.c\<close>: formatted output, the screen, and the line discipline of the input. The console
  lock is held throughout each of these functions; it is the subject of \<open>Xv6_Spinlock\<close> and
  leaves no trace here.
\<close>

section \<open>The screen\<close>

definition BACKSPACE :: u32 where "BACKSPACE = 0x100"
definition NEWLINE :: u32 where "NEWLINE = 10"

text \<open>
  The text memory of the display as cells of 16 bits, the cursor position that the controller
  holds, and the bytes sent to the serial port.
\<close>

record screen =
  crt :: "u16 list"
  cursor :: nat
  uart_out :: "u8 list"
  panicked :: bool

definition blank_cell :: u16 where "blank_cell = 0x0720"

definition char_cell :: "u32 \<Rightarrow> u16" where
  "char_cell c = ucast ((c AND 0xff) OR 0x0700)"

definition cga_scroll :: "u16 list \<Rightarrow> nat \<Rightarrow> (u16 list \<times> nat) result" where
  "cga_scroll cells pos =
     (if pos div 80 \<ge> 24 then
        bindE (memmove cells 0 80 (23 * 80)) (\<lambda>cells.
        let pos = pos - 80 in
        bindE (stosb cells pos 0 (24 * 80 - pos)) (\<lambda>cells. Inr (cells, pos)))
      else Inr (cells, pos))"

definition cgaputc :: "u32 \<Rightarrow> screen \<Rightarrow> screen result" where
  "cgaputc c s =
     (let pos = cursor s in
      bindE
        (if c = NEWLINE then Inr (crt s, pos + (80 - pos mod 80))
         else if c = BACKSPACE then Inr (crt s, if pos > 0 then pos - 1 else pos)
         else bindE (wr (crt s) pos (char_cell c)) (\<lambda>cells. Inr (cells, pos + 1)))
        (\<lambda>(cells, pos).
      if pos > 25 * 80 then Inl (Panic ''pos under/overflow'') else
      bindE (cga_scroll cells pos) (\<lambda>(cells, pos).
      bindE (wr cells pos blank_cell) (\<lambda>cells.
        Inr (s\<lparr>crt := cells, cursor := pos\<rparr>)))))"

definition uartputc :: "u8 \<Rightarrow> screen \<Rightarrow> screen" where
  "uartputc b s = s\<lparr>uart_out := uart_out s @ [b]\<rparr>"

definition consputc :: "u32 \<Rightarrow> screen \<Rightarrow> screen result" where
  "consputc c s =
     (if panicked s then Inl Diverges else
      let s = (if c = BACKSPACE then uartputc 8 (uartputc 32 (uartputc 8 s)) else uartputc (ucast c) s)
      in cgaputc c s)"

definition consolewrite :: "u8 list \<Rightarrow> screen \<Rightarrow> (nat \<times> screen) result" where
  "consolewrite buf s =
     bindE (loopE (\<lambda>c. consputc (ucast c)) buf s) (\<lambda>s. Inr (length buf, s))"

subsection \<open>Formatted output\<close>

text \<open>
  The characters that \<open>cprintf\<close> passes to \<open>consputc\<close>. \<open>fmt\<close> is the memory from the format on,
  \<open>args\<close> the words above it on the stack and \<open>strs\<close> the memory a string argument points to.
\<close>

fun c_chars :: "u8 list \<Rightarrow> u8 list result" where
  "c_chars [] = Inl OutOfBounds"
| "c_chars (c # cs) = (if c \<noteq> 0 then bindE (c_chars cs) (\<lambda>out. Inr (c # out)) else Inr [])"

definition next_arg :: "u32 list \<Rightarrow> (u32 \<times> u32 list) result" where
  "next_arg args = (case args of [] \<Rightarrow> Inl Indeterminate | a # as \<Rightarrow> Inr (a, as))"

definition null_text :: "u8 list" where "null_text = map byte ''(null)'' @ [0]"

definition cprintf_directive :: "(u32 \<Rightarrow> u8 list) \<Rightarrow> u8 \<Rightarrow> u32 list \<Rightarrow> (u8 list \<times> u32 list) result" where
  "cprintf_directive strs c args =
     (if c = byte CHR ''d'' then
        bindE (next_arg args) (\<lambda>(a, args). bindE (printint a 10 True) (\<lambda>out. Inr (out, args)))
      else if c = byte CHR ''x'' \<or> c = byte CHR ''p'' then
        bindE (next_arg args) (\<lambda>(a, args). bindE (printint a 16 False) (\<lambda>out. Inr (out, args)))
      else if c = byte CHR ''s'' then
        bindE (next_arg args) (\<lambda>(a, args).
        bindE (c_chars (if a = 0 then null_text else strs a)) (\<lambda>out. Inr (out, args)))
      else if c = byte CHR ''%'' then Inr ([byte CHR ''%''], args)
      else Inr ([byte CHR ''%'', c], args))"

function cprintf_loop :: "(u32 \<Rightarrow> u8 list) \<Rightarrow> u8 list \<Rightarrow> u32 list \<Rightarrow> u8 list result" where
  "cprintf_loop strs [] args = Inl OutOfBounds"
| "cprintf_loop strs (c # fmt) args =
     (if c = 0 then Inr []
      else if c \<noteq> byte CHR ''%'' then bindE (cprintf_loop strs fmt args) (\<lambda>out. Inr (c # out))
      else case fmt of
        [] \<Rightarrow> Inl OutOfBounds
      | c # fmt \<Rightarrow>
          if c = 0 then Inr []
          else bindE (cprintf_directive strs c args) (\<lambda>(text, args).
               bindE (cprintf_loop strs fmt args) (\<lambda>out. Inr (text @ out))))"
  by pat_completeness auto
termination by (relation "measure (\<lambda>(strs, fmt, args). length fmt)") auto

definition cprintf :: "(u32 \<Rightarrow> u8 list) \<Rightarrow> u8 list option \<Rightarrow> u32 list \<Rightarrow> screen \<Rightarrow> screen result" where
  "cprintf strs fmt args s =
     (case fmt of
        None \<Rightarrow> Inl (Panic ''null fmt'')
      | Some fmt \<Rightarrow> bindE (cprintf_loop strs fmt args) (\<lambda>out. loopE (\<lambda>c. consputc (ucast c)) out s))"

section \<open>The screen stays in its memory\<close>

definition screen_ok :: "screen \<Rightarrow> bool" where
  "screen_ok s \<longleftrightarrow> 2000 \<le> length (crt s) \<and> cursor s < 1920"

lemma cga_scroll_ok:
  assumes "2000 \<le> length cells" and "pos \<le> 1920"
  shows "cga_scroll cells pos = Inr
    (if pos = 1920 then (overwrite (overwrite cells 0 (take 1840 (drop 80 cells))) 1840 (replicate 80 0), 1840) else (cells, pos))"
proof (cases "pos = 1920")
  case True
  with assms show ?thesis by (simp add: cga_scroll_def memmove_moves stosb_fills Let_def)
next
  case False
  with assms(2) have "pos div 80 < 24" by (intro div_less_iff_less_mult [THEN iffD2]) simp_all
  with False show ?thesis by (simp add: cga_scroll_def)
qed

text \<open>Where the cursor goes before a scroll.\<close>

lemma cursor_moves:
  assumes "(pos :: nat) < 1920"
  shows "pos + (80 - pos mod 80) \<le> 1920" and "pos + 1 \<le> 1920" and "pos - 1 \<le> 1920"
proof -
  have "pos div 80 < 24" using assms by (intro div_less_iff_less_mult [THEN iffD2]) simp_all
  moreover have "pos mod 80 < 80" by simp
  moreover have "pos = 80 * (pos div 80) + pos mod 80" by simp
  ultimately show "pos + (80 - pos mod 80) \<le> 1920" by linarith
qed (use assms in simp_all)

lemma cgaputc_ok:
  assumes "screen_ok s"
  shows "\<exists>s'. cgaputc c s = Inr s' \<and> screen_ok s' \<and> uart_out s' = uart_out s \<and> panicked s' = panicked s"
proof -
  have s: "2000 \<le> length (crt s)" "cursor s < 1920" using assms by (simp_all add: screen_ok_def)
  obtain cells pos where mid: "(if c = NEWLINE then Inr (crt s, cursor s + (80 - cursor s mod 80))
         else if c = BACKSPACE then Inr (crt s, if cursor s > 0 then cursor s - 1 else cursor s)
         else bindE (wr (crt s) (cursor s) (char_cell c)) (\<lambda>cells. Inr (cells, cursor s + 1))) = Inr (cells, pos)"
      and m: "2000 \<le> length cells" "pos \<le> 1920"
    using s cursor_moves [OF s(2)] by (cases "c = NEWLINE"; cases "c = BACKSPACE") auto
  have "\<exists>cells' pos'. cga_scroll cells pos = Inr (cells', pos') \<and> 2000 \<le> length cells' \<and> pos' < 1920"
    using m by (simp add: cga_scroll_ok)
  with mid m show ?thesis by (auto simp: cgaputc_def screen_ok_def Let_def)
qed

lemma consputc_ok:
  assumes "screen_ok s" and "\<not> panicked s"
  shows "\<exists>s'. consputc c s = Inr s' \<and> screen_ok s' \<and> \<not> panicked s'"
proof -
  let ?s = "if c = BACKSPACE then uartputc 8 (uartputc 32 (uartputc 8 s)) else uartputc (ucast c) s"
  have "screen_ok ?s" "\<not> panicked ?s" using assms by (simp_all add: screen_ok_def uartputc_def)
  with cgaputc_ok [of ?s c] assms(2) show ?thesis by (auto simp: consputc_def Let_def)
qed

lemma consputc_all_ok:
  assumes "screen_ok s" and "\<not> panicked s"
  shows "\<exists>s'. loopE (\<lambda>c. consputc (f c)) cs s = Inr s' \<and> screen_ok s' \<and> \<not> panicked s'"
  using loopE_inv_total [where P = "\<lambda>s. screen_ok s \<and> \<not> panicked s" and f = "\<lambda>c. consputc (f c)"] consputc_ok assms
  by (metis (mono_tags, lifting))

lemma consolewrite_ok:
  assumes "screen_ok s" and "\<not> panicked s"
  shows "\<exists>s'. consolewrite buf s = Inr (length buf, s') \<and> screen_ok s' \<and> \<not> panicked s'"
  using consputc_all_ok [OF assms, of ucast buf] by (auto simp: consolewrite_def)

text \<open>A character that does not end the last line: it appears at the cursor, which moves on.\<close>

lemma cgaputc_char:
  assumes "screen_ok s" and "c \<noteq> NEWLINE" and "c \<noteq> BACKSPACE" and "cursor s + 1 < 1920"
  shows "cgaputc c s = Inr (s\<lparr>crt := (crt s)[cursor s := char_cell c, cursor s + 1 := blank_cell], cursor := cursor s + 1\<rparr>)"
  using assms by (simp add: cgaputc_def screen_ok_def cga_scroll_ok Let_def)

lemma cgaputc_char_scrolls:
  assumes "screen_ok s" and "c \<noteq> NEWLINE" and "c \<noteq> BACKSPACE" and "cursor s = 1919"
  shows "\<exists>s'. cgaputc c s = Inr s' \<and> cursor s' = 1840 \<and>
    (\<forall>i < 1839. crt s' ! i = crt s ! (i + 80)) \<and> crt s' ! 1839 = char_cell c \<and> crt s' ! 1840 = blank_cell \<and>
    (\<forall>i. 1840 < i \<and> i < 1920 \<longrightarrow> crt s' ! i = 0)"
proof -
  let ?cells = "(crt s)[1919 := char_cell c]"
  let ?new = "overwrite (overwrite ?cells 0 (take 1840 (drop 80 ?cells))) 1840 (replicate 80 0)"
  have len: "2000 \<le> length (crt s)" using assms(1) by (simp add: screen_ok_def)
  have "cgaputc c s = Inr (s\<lparr>crt := ?new[1840 := blank_cell], cursor := 1840\<rparr>)"
    using assms len by (simp add: cgaputc_def cga_scroll_ok Let_def)
  moreover have "?new ! i = (if i < 1840 then ?cells ! (i + 80) else 0)" if "i < 1920" for i
    using that len by (simp add: nth_overwrite add.commute)
  ultimately show ?thesis using len by (auto simp: nth_list_update_if)
qed

section \<open>The input\<close>

definition INPUT_BUF :: nat where "INPUT_BUF = 128"

record input =
  ibuf :: "u8 list"
  in_r :: u32
  in_w :: u32
  in_e :: u32

definition ctrl :: "char \<Rightarrow> u32" where
  "ctrl x = word_of_nat (of_char x) - word_of_nat (of_char CHR ''@'')"

function kill_line :: "input \<Rightarrow> input \<times> u32 list" where
  "kill_line s =
     (if in_e s \<noteq> in_w s \<and> ibuf s ! (unat (in_e s - 1) mod INPUT_BUF) \<noteq> 10 then
        case kill_line (s\<lparr>in_e := in_e s - 1\<rparr>) of (s, out) \<Rightarrow> (s, BACKSPACE # out)
      else (s, []))"
  by pat_completeness auto
termination
proof (relation "measure (\<lambda>s. unat (in_e s - in_w s))", goal_cases)
  case (2 s)
  then have "in_e s - in_w s \<noteq> 0" by simp
  from unat_minus_one [OF this] this show ?case by (simp add: algebra_simps unat_gt_0)
qed simp

declare kill_line.simps [simp del]

text \<open>
  One character of \<open>consoleintr\<close>: the new input, what is echoed, and whether the readers are
  woken. A process listing is the caller's business.
\<close>

definition console_key :: "u32 \<Rightarrow> input \<Rightarrow> input \<times> u32 list \<times> bool" where
  "console_key c s =
     (if c = ctrl CHR ''P'' then (s, [], False)
      else if c = ctrl CHR ''U'' then (case kill_line s of (s, out) \<Rightarrow> (s, out, False))
      else if c = ctrl CHR ''H'' \<or> c = 0x7f then
        if in_e s \<noteq> in_w s then (s\<lparr>in_e := in_e s - 1\<rparr>, [BACKSPACE], False) else (s, [], False)
      else if c \<noteq> 0 \<and> unat (in_e s - in_r s) < INPUT_BUF then
        (let c = (if c = 13 then 10 else c);
             s = s\<lparr>ibuf := (ibuf s)[unat (in_e s) mod INPUT_BUF := ucast c], in_e := in_e s + 1\<rparr>
         in if c = 10 \<or> c = ctrl CHR ''D'' \<or> in_e s = in_r s + word_of_nat INPUT_BUF
            then (s\<lparr>in_w := in_e s\<rparr>, [c], True) else (s, [c], False))
      else (s, [], False))"

text \<open>The loop over the characters that \<open>getc\<close> delivers; the flag is \<open>doprocdump\<close>.\<close>

fun consoleintr :: "u32 list \<Rightarrow> input \<Rightarrow> screen \<Rightarrow> (input \<times> screen \<times> nat \<times> bool) result" where
  "consoleintr [] s scr = Inr (s, scr, 0, False)"
| "consoleintr (c # cs) s scr =
     (case console_key c s of (s, out, wake) \<Rightarrow>
      bindE (loopE consputc out scr) (\<lambda>scr.
      bindE (consoleintr cs s scr) (\<lambda>(s, scr, wakes, dump).
        Inr (s, scr, wakes + (if wake then 1 else 0), dump \<or> c = ctrl CHR ''P''))))"

datatype console_read = CRead "u8 list" | CFails | CSleeps "u8 list"

text \<open>A stretch of \<open>consoleread\<close> with \<open>n\<close> bytes still wanted and the bytes \<open>got\<close> so far.\<close>

fun consoleread :: "bool \<Rightarrow> nat \<Rightarrow> u8 list \<Rightarrow> input \<Rightarrow> input \<times> console_read" where
  "consoleread killed 0 got s = (s, CRead got)"
| "consoleread killed (Suc n) got s =
     (if in_r s = in_w s then (s, if killed then CFails else CSleeps got)
      else
        let c = ibuf s ! (unat (in_r s) mod INPUT_BUF);
            s = s\<lparr>in_r := in_r s + 1\<rparr>
        in if c = ucast (ctrl CHR ''D'') then (if got \<noteq> [] then s\<lparr>in_r := in_r s - 1\<rparr> else s, CRead got)
           else if c = 10 then (s, CRead (got @ [c]))
           else consoleread killed n (got @ [c]) s)"

section \<open>The line discipline\<close>

text \<open>
  What the input is for its users: the bytes that can be read, and the line that is being
  edited, which readers do not see.
\<close>

definition ready :: "input \<Rightarrow> u8 list" where
  "ready s = ring_contents INPUT_BUF (ibuf s) (in_r s) (in_w s)"

definition editing :: "input \<Rightarrow> u8 list" where
  "editing s = ring_contents INPUT_BUF (ibuf s) (in_w s) (in_e s)"

definition input_ok :: "input \<Rightarrow> bool" where
  "input_ok s \<longleftrightarrow> ring_ok INPUT_BUF (ibuf s) (in_r s) (in_e s) \<and>
     unat (in_w s - in_r s) \<le> unat (in_e s - in_r s) \<and> 10 \<notin> set (editing s)"

definition edit_spec :: "u32 \<Rightarrow> u8 list \<times> u8 list \<Rightarrow> u8 list \<times> u8 list" where
  "edit_spec c st =
     (case st of (rdy, line) \<Rightarrow>
      if c = ctrl CHR ''P'' then (rdy, line)
      else if c = ctrl CHR ''U'' then (rdy, [])
      else if c = ctrl CHR ''H'' \<or> c = 0x7f then (rdy, butlast line)
      else if c \<noteq> 0 \<and> length rdy + length line < INPUT_BUF then
        (let line = line @ [if c = 13 then 10 else ucast c]
         in if c = 10 \<or> c = 13 \<or> c = ctrl CHR ''D'' \<or> length rdy + length line = INPUT_BUF
            then (rdy @ line, []) else (rdy, line))
      else (rdy, line))"

lemma INPUT_BUF_dvd: "INPUT_BUF dvd 2 ^ 32" "INPUT_BUF < 2 ^ 32" "0 < INPUT_BUF"
  by (simp_all add: INPUT_BUF_def)

lemma ctrl_codes: "ctrl CHR ''P'' = 16" "ctrl CHR ''U'' = 21" "ctrl CHR ''H'' = 8" "ctrl CHR ''D'' = 4"
  by (simp_all add: ctrl_def)

text \<open>The distances of the counters.\<close>

lemma input_counters:
  assumes "input_ok s"
  shows "length (ready s) + length (editing s) = unat (in_e s - in_r s)"
    and "ring_ok INPUT_BUF (ibuf s) (in_w s) (in_e s)" and "ring_ok INPUT_BUF (ibuf s) (in_r s) (in_w s)"
  using assms ring_split(1) [OF INPUT_BUF_dvd(1), of "in_w s" "in_r s" "in_e s"]
  by (auto simp: input_ok_def ready_def editing_def ring_ok_def)

text \<open>Taking back the last character of the line.\<close>

lemma input_unput:
  assumes "input_ok s" and "in_e s \<noteq> in_w s"
  shows "input_ok (s\<lparr>in_e := in_e s - 1\<rparr>)"
    and "editing s = editing (s\<lparr>in_e := in_e s - 1\<rparr>) @ [ibuf s ! (unat (in_e s - 1) mod INPUT_BUF)]"
    and "ready (s\<lparr>in_e := in_e s - 1\<rparr>) = ready s"
proof -
  note w = ring_unput [OF INPUT_BUF_dvd(1) input_counters(2) [OF assms(1)] assms(2) [symmetric]]
  show e: "editing s = editing (s\<lparr>in_e := in_e s - 1\<rparr>) @ [ibuf s ! (unat (in_e s - 1) mod INPUT_BUF)]"
    using w(2) by (simp add: editing_def)
  show "ready (s\<lparr>in_e := in_e s - 1\<rparr>) = ready s" by (simp add: ready_def)
  have d: "unat (in_e s - in_w s) = unat (in_e s - in_r s) - unat (in_w s - in_r s)"
    "unat (in_w s - in_r s) \<le> unat (in_e s - in_r s)" "ring_ok INPUT_BUF (ibuf s) (in_r s) (in_e s)"
    using ring_split(1) [OF INPUT_BUF_dvd(1), of "in_w s" "in_r s" "in_e s"] assms(1) by (auto simp: input_ok_def)
  have "0 < unat (in_e s - in_w s)" using assms(2) by (simp add: unat_gt_0)
  with d(1,2) have lt: "unat (in_w s - in_r s) < unat (in_e s - in_r s)" by simp
  then have "in_e s - in_r s \<noteq> 0" by (metis not_less_zero unsigned_0)
  from unat_minus_one [OF this] have "unat (in_e s - 1 - in_r s) = unat (in_e s - in_r s) - 1" by (simp add: algebra_simps)
  moreover have "10 \<notin> set (editing (s\<lparr>in_e := in_e s - 1\<rparr>))"
    using assms(1) arg_cong [OF e, of set] by (auto simp: input_ok_def)
  ultimately show "input_ok (s\<lparr>in_e := in_e s - 1\<rparr>)" using lt d(3) by (auto simp: input_ok_def ring_ok_def)
qed

lemma kill_line_eq:
  "input_ok s \<Longrightarrow> input_ok (fst (kill_line s)) \<and> ready (fst (kill_line s)) = ready s \<and> editing (fst (kill_line s)) = [] \<and>
    length (snd (kill_line s)) = length (editing s)"
proof (induction s rule: kill_line.induct)
  case (1 s)
  show ?case
  proof (cases "in_e s = in_w s")
    case True
    then have "editing s = []" by (simp add: editing_def ring_contents_def)
    with True 1(2) show ?thesis by (subst (1 2 3 4) kill_line.simps) simp
  next
    case False
    note u = input_unput [OF 1(2) False]
    have c: "ibuf s ! (unat (in_e s - 1) mod INPUT_BUF) \<noteq> 10"
      using 1(2) arg_cong [OF u(2), of set] by (auto simp: input_ok_def)
    have "length (editing s) = Suc (length (editing (s\<lparr>in_e := in_e s - 1\<rparr>)))" using arg_cong [OF u(2), of length] by simp
    with False c 1(1) [OF _ u(1)] u(3) show ?thesis
      by (subst (1 2 3 4) kill_line.simps) (auto split: prod.splits)
  qed
qed

text \<open>A character at the end of the line.\<close>

lemma input_put:
  fixes b :: u8
  assumes "input_ok s" and "unat (in_e s - in_r s) < INPUT_BUF"
  defines "s' \<equiv> s\<lparr>ibuf := (ibuf s)[unat (in_e s) mod INPUT_BUF := b], in_e := in_e s + 1\<rparr>"
  shows "ready s' = ready s" and "editing s' = editing s @ [b]" and "ring_ok INPUT_BUF (ibuf s') (in_r s') (in_e s')"
    and "unat (in_w s' - in_r s') \<le> unat (in_e s' - in_r s')" and "unat (in_e s' - in_r s') = unat (in_e s - in_r s) + 1"
proof -
  note inv = assms(1) [unfolded input_ok_def] and c = input_counters [OF assms(1)]
  note put_r = ring_put [OF INPUT_BUF_dvd(1) inv [THEN conjunct1] assms(2) INPUT_BUF_dvd(2), of b]
  have "unat (in_e s - in_w s) < INPUT_BUF" using assms(2) c(1) by (simp add: editing_def)
  note put_w = ring_put [OF INPUT_BUF_dvd(1) c(2) this INPUT_BUF_dvd(2), of b]
  show ed: "editing s' = editing s @ [b]" using put_w(2) by (simp add: editing_def s'_def)
  show ok: "ring_ok INPUT_BUF (ibuf s') (in_r s') (in_e s')" using put_r(1) by (simp add: s'_def)
  have "unat (in_e s + 1 - in_r s) = unat (in_e s - in_r s) + 1"
    using assms(2) INPUT_BUF_dvd(2) by (intro counter_distance) simp
  then show d: "unat (in_e s' - in_r s') = unat (in_e s - in_r s) + 1" by (simp add: s'_def)
  with inv show le: "unat (in_w s' - in_r s') \<le> unat (in_e s' - in_r s')" by (simp add: s'_def)
  have "ready s' @ editing s' = ring_contents INPUT_BUF (ibuf s') (in_r s') (in_e s')"
    using ring_split(2) [OF INPUT_BUF_dvd(1) le, of "ibuf s'"] by (simp add: ready_def editing_def)
  also have "\<dots> = ring_contents INPUT_BUF (ibuf s) (in_r s) (in_e s) @ [b]" using put_r(2) by (simp add: s'_def)
  also have "ring_contents INPUT_BUF (ibuf s) (in_r s) (in_e s) = ready s @ editing s"
    using ring_split(2) [OF INPUT_BUF_dvd(1), of "in_w s" "in_r s" "in_e s" "ibuf s"] inv by (simp add: ready_def editing_def)
  finally show "ready s' = ready s" using ed by simp
qed

text \<open>Handing the line over to the readers.\<close>

lemma input_commit:
  assumes "ring_ok INPUT_BUF (ibuf s) (in_r s) (in_e s)" and "unat (in_w s - in_r s) \<le> unat (in_e s - in_r s)"
  shows "input_ok (s\<lparr>in_w := in_e s\<rparr>)" and "ready (s\<lparr>in_w := in_e s\<rparr>) = ready s @ editing s"
    and "editing (s\<lparr>in_w := in_e s\<rparr>) = []"
  using assms ring_split(2) [OF INPUT_BUF_dvd(1) assms(2)]
  by (simp_all add: input_ok_def ready_def editing_def ring_contents_def)

lemma console_key_char:
  assumes "input_ok s" and "unat c < 256" and "c \<notin> {0, 16, 21, 8, 0x7f}"
  shows "input_ok (fst (console_key c s)) \<and>
    (ready (fst (console_key c s)), editing (fst (console_key c s))) = edit_spec c (ready s, editing s)"
proof (cases "unat (in_e s - in_r s) < INPUT_BUF")
  case False
  with assms(1,3) input_counters(1) [OF assms(1)] show ?thesis
    by (simp add: console_key_def edit_spec_def ctrl_codes)
next
  case True
  define d where "d = (if c = 13 then 10 else c)"
  define s' where "s' = s\<lparr>ibuf := (ibuf s)[unat (in_e s) mod INPUT_BUF := ucast d], in_e := in_e s + 1\<rparr>"
  note p = input_put [OF assms(1) True, of "ucast d", folded s'_def]
  have full: "in_e s' = in_r s' + word_of_nat INPUT_BUF \<longleftrightarrow> unat (in_e s' - in_r s') = INPUT_BUF"
    by (rule counter_full [OF INPUT_BUF_dvd(2)])
  have key: "fst (console_key c s) =
      (if d = 10 \<or> d = 4 \<or> unat (in_e s' - in_r s') = INPUT_BUF then s'\<lparr>in_w := in_e s'\<rparr> else s')"
    using assms(3) True full unfolding console_key_def ctrl_codes d_def [symmetric] Let_def s'_def [symmetric] by simp
  have len: "length (ready s) + length (editing s) < INPUT_BUF"
    "Suc (length (ready s) + length (editing s)) = INPUT_BUF \<longleftrightarrow> unat (in_e s' - in_r s') = INPUT_BUF"
    using True p(5) input_counters(1) [OF assms(1)] by simp_all
  have "unat d < 256" using assms(2) by (simp add: d_def)
  then have "unat (ucast d :: u8) = unat d" by (simp add: unsigned_ucast_eq take_bit_nat_eq_self)
  then have nl: "d \<noteq> 10 \<Longrightarrow> (ucast d :: u8) \<noteq> 10" by (auto simp: word_unat_eq_iff)
  have "ucast d = (if c = 13 then 10 else ucast c :: u8)" by (simp add: d_def)
  then have spec: "edit_spec c (ready s, editing s) = (if d = 10 \<or> d = 4 \<or> unat (in_e s' - in_r s') = INPUT_BUF
      then (ready s @ editing s @ [ucast d], []) else (ready s, editing s @ [ucast d]))"
    using assms(3) len by (auto simp: edit_spec_def ctrl_codes d_def Let_def)
  show ?thesis
    using key spec p input_commit [OF p(3,4)] assms(1) nl by (auto simp: input_ok_def)
qed

lemma console_key_refines:
  assumes "input_ok s" and "unat c < 256"
  shows "input_ok (fst (console_key c s)) \<and>
    (ready (fst (console_key c s)), editing (fst (console_key c s))) = edit_spec c (ready s, editing s)"
proof -
  consider "c \<notin> {0, 16, 21, 8, 0x7f}" | "c = 0 \<or> c = 16" | "c = 21" | "c = 8 \<or> c = 0x7f" by blast
  then show ?thesis
  proof cases
    case 1
    then show ?thesis by (rule console_key_char [OF assms])
  next
    case 2
    with assms(1) show ?thesis by (auto simp: console_key_def edit_spec_def ctrl_codes)
  next
    case 3
    with kill_line_eq [OF assms(1)] show ?thesis
      by (auto simp: console_key_def edit_spec_def ctrl_codes split: prod.splits)
  next
    case 4
    show ?thesis
    proof (cases "in_e s = in_w s")
      case True
      then have "editing s = []" by (simp add: editing_def ring_contents_def)
      with 4 True assms(1) show ?thesis by (auto simp: console_key_def edit_spec_def ctrl_codes)
    next
      case False
      note u = input_unput [OF assms(1) False]
      have "butlast (editing s) = editing (s\<lparr>in_e := in_e s - 1\<rparr>)" by (subst u(2)) simp
      with 4 False u(1,3) show ?thesis by (auto simp: console_key_def edit_spec_def ctrl_codes)
    qed
  qed
qed

lemma consoleintr_refines:
  assumes "input_ok s" and "screen_ok scr" and "\<not> panicked scr" and "\<forall>c \<in> set keys. unat c < 256"
  shows "\<exists>s' scr' wakes dump. consoleintr keys s scr = Inr (s', scr', wakes, dump) \<and> input_ok s' \<and> screen_ok scr' \<and>
    \<not> panicked scr' \<and> (ready s', editing s') = fold edit_spec keys (ready s, editing s)"
  using assms
proof (induction keys arbitrary: s scr)
  case Nil
  then show ?case by (intro exI [of _ s] exI [of _ scr] exI [of _ 0] exI [of _ False]) simp
next
  case (Cons c keys)
  obtain s1 out wake where k: "console_key c s = (s1, out, wake)" by (cases "console_key c s")
  have s1: "input_ok s1" "(ready s1, editing s1) = edit_spec c (ready s, editing s)"
    using console_key_refines [OF Cons.prems(1), of c] Cons.prems(4) k by simp_all
  obtain scr1 where "loopE consputc out scr = Inr scr1" "screen_ok scr1" "\<not> panicked scr1"
    using consputc_all_ok [OF Cons.prems(2,3), of id out] by auto
  with Cons.IH [OF s1(1)] Cons.prems(4) k s1(2) show ?case by fastforce
qed

text \<open>Reading takes from the bytes that are ready, up to a line break or an end-of-file mark.\<close>

fun read_spec :: "bool \<Rightarrow> nat \<Rightarrow> u8 list \<Rightarrow> u8 list \<Rightarrow> u8 list \<times> console_read" where
  "read_spec killed 0 got rdy = (rdy, CRead got)"
| "read_spec killed (Suc n) got [] = ([], if killed then CFails else CSleeps got)"
| "read_spec killed (Suc n) got (c # rdy) =
     (if c = 4 then (if got \<noteq> [] then c # rdy else rdy, CRead got)
      else if c = 10 then (rdy, CRead (got @ [c]))
      else read_spec killed n (got @ [c]) rdy)"

lemma input_get:
  assumes "input_ok s" and "in_r s \<noteq> in_w s"
  shows "input_ok (s\<lparr>in_r := in_r s + 1\<rparr>)" and "editing (s\<lparr>in_r := in_r s + 1\<rparr>) = editing s"
    and "ready s = ibuf s ! (unat (in_r s) mod INPUT_BUF) # ready (s\<lparr>in_r := in_r s + 1\<rparr>)"
proof -
  note c = input_counters [OF assms(1)]
  show "ready s = ibuf s ! (unat (in_r s) mod INPUT_BUF) # ready (s\<lparr>in_r := in_r s + 1\<rparr>)"
    using ring_get(2) [OF INPUT_BUF_dvd(1) c(3) assms(2)] by (simp add: ready_def)
  show e: "editing (s\<lparr>in_r := in_r s + 1\<rparr>) = editing s" by (simp add: editing_def)
  have step: "unat (x - (in_r s + 1)) = unat (x - in_r s) - 1" if "x \<noteq> in_r s" for x :: u32
    using unat_minus_one [of "x - in_r s"] that by (simp add: algebra_simps)
  have le: "unat (in_w s - in_r s) \<le> unat (in_e s - in_r s)" "ring_ok INPUT_BUF (ibuf s) (in_r s) (in_e s)"
    using assms(1) by (simp_all add: input_ok_def)
  have "0 < unat (in_w s - in_r s)" using assms(2) by (simp add: unat_gt_0)
  then have ne: "in_e s \<noteq> in_r s" using le(1) by auto
  with le step [OF ne] step [of "in_w s"] assms e show "input_ok (s\<lparr>in_r := in_r s + 1\<rparr>)"
    by (auto simp: input_ok_def ring_ok_def)
qed

lemma consoleread_refines:
  assumes "input_ok s"
  shows "input_ok (fst (consoleread killed n got s)) \<and> editing (fst (consoleread killed n got s)) = editing s \<and>
    (ready (fst (consoleread killed n got s)), snd (consoleread killed n got s)) = read_spec killed n got (ready s)"
  using assms
proof (induction n arbitrary: got s)
  case 0
  then show ?case by simp
next
  case (Suc n)
  show ?case
  proof (cases "in_r s = in_w s")
    case True
    then have "ready s = []" by (simp add: ready_def ring_contents_def)
    with True Suc.prems show ?thesis by simp
  next
    case False
    note g = input_get [OF Suc.prems False]
    from False g Suc.prems Suc.IH [OF g(1)] show ?thesis
      by (subst (1 2 3 4) consoleread.simps) (simp add: g(3) ctrl_codes Let_def)
  qed
qed

text \<open>A line of ordinary characters: typed, ended, and read.\<close>

definition ordinary :: "u8 \<Rightarrow> bool" where
  "ordinary c \<longleftrightarrow> c \<notin> {0, 4, 8, 10, 13, 16, 21, 0x7f}"

lemma fold_edit_line:
  assumes "\<forall>c \<in> set cs. ordinary c" and "length rdy + length line + length cs < INPUT_BUF"
  shows "fold edit_spec (map ucast cs) (rdy, line) = (rdy, line @ cs)"
  using assms
proof (induction cs arbitrary: line)
  case Nil
  then show ?case by simp
next
  case (Cons c cs)
  have c: "c \<notin> {0, 4, 8, 10, 13, 16, 21, 0x7f}" using Cons.prems(1) by (simp add: ordinary_def)
  have inj: "(ucast c :: u32) = ucast d \<longleftrightarrow> c = d" for d :: u8 by transfer simp
  have ne: "(ucast c :: u32) \<notin> {0, 4, 8, 10, 13, 16, 21, 0x7f}"
    using c inj [of 0] inj [of 4] inj [of 8] inj [of 10] inj [of 13] inj [of 16] inj [of 21] inj [of "0x7f"] by simp
  have "ucast (ucast c :: u32) = c" by transfer simp
  then have "edit_spec (ucast c) (rdy, line) = (rdy, line @ [c])"
    using ne Cons.prems(2) by (simp add: edit_spec_def ctrl_codes Let_def)
  with Cons.IH [of "line @ [c]"] Cons.prems show ?case by simp
qed

lemma read_spec_line:
  assumes "\<forall>c \<in> set cs. ordinary c" and "length cs < n"
  shows "read_spec killed n got (cs @ 10 # rest) = (rest, CRead (got @ cs @ [10]))"
  using assms
proof (induction cs arbitrary: n got)
  case Nil
  then show ?case by (cases n) auto
next
  case (Cons c cs)
  then show ?case by (cases n) (auto simp: ordinary_def)
qed

end
