(* ===== verification/Xv6_Kbd.thy ===== *)
theory Xv6_Kbd
  imports Xv6_Console
begin

text \<open>
  \<open>kbd.c\<close> and \<open>kbd.h\<close>: scan codes of the keyboard become characters. The port is a list of the
  codes that wait in the controller; an empty list is a status without the bit \<open>KBS_DIB\<close>. The
  interrupt handler passes the characters to \<open>consoleintr\<close>.
\<close>

section \<open>Tables\<close>

definition SHIFT :: u32 where "SHIFT = 1"
definition CTL :: u32 where "CTL = 2"
definition ALT :: u32 where "ALT = 4"
definition CAPSLOCK :: u32 where "CAPSLOCK = 8"
definition NUMLOCK :: u32 where "NUMLOCK = 16"
definition SCROLLLOCK :: u32 where "SCROLLLOCK = 32"
definition E0ESC :: u32 where "E0ESC = 64"

text \<open>An array of 256 bytes with designated entries; the others are 0.\<close>

definition entries :: "(nat \<times> u32) list \<Rightarrow> u8 \<Rightarrow> u32" where
  "entries xs i = (case map_of xs (unat i) of None \<Rightarrow> 0 | Some v \<Rightarrow> v)"

definition shiftcode :: "u8 \<Rightarrow> u32" where
  "shiftcode = entries [(0x1D, CTL), (0x2A, SHIFT), (0x36, SHIFT), (0x38, ALT), (0x9D, CTL), (0xB8, ALT)]"

definition togglecode :: "u8 \<Rightarrow> u32" where
  "togglecode = entries [(0x3A, CAPSLOCK), (0x45, NUMLOCK), (0x46, SCROLLLOCK)]"

text \<open>A table with a list of first entries and some designated ones.\<close>

definition key_table :: "nat list \<Rightarrow> (nat \<times> nat) list \<Rightarrow> u8 \<Rightarrow> u32" where
  "key_table start extra i = (if unat i < length start then word_of_nat (start ! unat i)
     else case map_of extra (unat i) of None \<Rightarrow> 0 | Some v \<Rightarrow> word_of_nat v)"

definition special_keys :: "(nat \<times> nat) list" where
  "special_keys = [(0xC8, 0xE2), (0xD0, 0xE3), (0xC9, 0xE6), (0xD1, 0xE7), (0xCB, 0xE4), (0xCD, 0xE5), (0x97, 0xE0), (0xCF, 0xE1), (0xD2, 0xE8), (0xD3, 0xE9)]"

definition normal_codes :: "nat list" where
  "normal_codes =
     [0, 27, 49, 50, 51, 52, 53, 54,
      55, 56, 57, 48, 45, 61, 8, 9,
      113, 119, 101, 114, 116, 121, 117, 105,
      111, 112, 91, 93, 10, 0, 97, 115,
      100, 102, 103, 104, 106, 107, 108, 59,
      39, 96, 0, 92, 122, 120, 99, 118,
      98, 110, 109, 44, 46, 47, 0, 42,
      0, 32, 0, 0, 0, 0, 0, 0,
      0, 0, 0, 0, 0, 0, 0, 55,
      56, 57, 45, 52, 53, 54, 43, 49,
      50, 51, 48, 46, 0, 0, 0, 0]"

definition shift_codes :: "nat list" where
  "shift_codes =
     [0, 27, 33, 64, 35, 36, 37, 94,
      38, 42, 40, 41, 95, 43, 8, 9,
      81, 87, 69, 82, 84, 89, 85, 73,
      79, 80, 123, 125, 10, 0, 65, 83,
      68, 70, 71, 72, 74, 75, 76, 58,
      34, 126, 0, 124, 90, 88, 67, 86,
      66, 78, 77, 60, 62, 63, 0, 42,
      0, 32, 0, 0, 0, 0, 0, 0,
      0, 0, 0, 0, 0, 0, 0, 55,
      56, 57, 45, 52, 53, 54, 43, 49,
      50, 51, 48, 46, 0, 0, 0, 0]"

definition ctl_codes :: "nat list" where
  "ctl_codes =
     [0, 0, 0, 0, 0, 0, 0, 0,
      0, 0, 0, 0, 0, 0, 0, 0,
      17, 23, 5, 18, 20, 25, 21, 9,
      15, 16, 0, 0, 13, 0, 1, 19,
      4, 6, 7, 8, 10, 11, 12, 0,
      0, 0, 0, 28, 26, 24, 3, 22,
      2, 14, 13, 0, 0, 239, 0, 0]"

definition normalmap :: "u8 \<Rightarrow> u32" where
  "normalmap = key_table normal_codes ((0x9C, 10) # (0xB5, 47) # special_keys)"

definition shiftmap :: "u8 \<Rightarrow> u32" where
  "shiftmap = key_table shift_codes ((0x9C, 10) # (0xB5, 47) # special_keys)"

definition ctlmap :: "u8 \<Rightarrow> u32" where
  "ctlmap = key_table ctl_codes ((0x9C, 13) # (0xB5, 239) # special_keys)"

definition charcode :: "u32 \<Rightarrow> u8 \<Rightarrow> u32" where
  "charcode k = (if k = 0 then normalmap else if k = 1 then shiftmap else ctlmap)"

section \<open>The driver\<close>

text \<open>\<open>kbdgetc\<close> after the byte \<open>data\<close> has been read from the port: the new \<open>shift\<close> and the result.\<close>

definition caps :: "u32 \<Rightarrow> u32" where
  "caps c = (if 97 \<le> c \<and> c \<le> 122 then c - 32 else if 65 \<le> c \<and> c \<le> 90 then c + 32 else c)"

definition kbd_press :: "u8 \<Rightarrow> u32 \<Rightarrow> u32 \<times> u32" where
  "kbd_press data shift =
     (let shift = shift OR shiftcode data;
          shift = shift XOR togglecode data;
          c = charcode (shift AND (CTL OR SHIFT)) data
      in (shift, if shift AND CAPSLOCK \<noteq> 0 then caps c else c))"

definition kbd_data :: "u8 \<Rightarrow> u32 \<Rightarrow> u32 \<times> u32" where
  "kbd_data data shift =
     (if data = 0xE0 then (shift OR E0ESC, 0)
      else if data AND 0x80 \<noteq> 0 then
        (let data = (if shift AND E0ESC \<noteq> 0 then data else data AND 0x7F)
         in (shift AND NOT (shiftcode data OR E0ESC), 0))
      else if shift AND E0ESC \<noteq> 0 then kbd_press (data OR 0x80) (shift AND NOT E0ESC)
      else kbd_press data shift)"

definition kbdgetc :: "u8 list \<Rightarrow> u32 \<Rightarrow> u8 list \<times> u32 \<times> u32" where
  "kbdgetc port shift =
     (case port of
        [] \<Rightarrow> ([], shift, - 1)
      | data # port \<Rightarrow> (case kbd_data data shift of (shift, c) \<Rightarrow> (port, shift, c)))"

text \<open>The loop \<open>while((c = getc()) >= 0)\<close> of \<open>consoleintr\<close> with \<open>kbdgetc\<close>: the characters it sees.\<close>

fun kbd_chars :: "u8 list \<Rightarrow> u32 \<Rightarrow> u32 list \<times> u32" where
  "kbd_chars [] shift = ([], shift)"
| "kbd_chars (data # port) shift =
     (case kbdgetc (data # port) shift of (port', shift, c) \<Rightarrow>
      case kbd_chars port shift of (cs, shift) \<Rightarrow> (c # cs, shift))"

definition kbdintr :: "u8 list \<Rightarrow> u32 \<Rightarrow> input \<Rightarrow> screen \<Rightarrow> (u32 \<times> input \<times> screen \<times> nat \<times> bool) result" where
  "kbdintr port shift s scr =
     (case kbd_chars port shift of (cs, shift) \<Rightarrow>
      bindE (consoleintr cs s scr) (\<lambda>(s, scr, wakes, dump). Inr (shift, s, scr, wakes, dump)))"

section \<open>Typing\<close>

text \<open>The codes of pressing and releasing the keys for a character, with the left shift key where it is needed.\<close>

definition scan_codes :: "u8 \<Rightarrow> u8 list" where
  "scan_codes c =
     (case find (\<lambda>i. normal_codes ! i = unat c) [0..<88] of
        Some i \<Rightarrow> [word_of_nat i, word_of_nat i + 0x80]
      | None \<Rightarrow> (case find (\<lambda>i. shift_codes ! i = unat c) [0..<88] of
          Some i \<Rightarrow> [0x2A, word_of_nat i, word_of_nat i + 0x80, 0xAA]
        | None \<Rightarrow> []))"

definition on_keyboard :: "u8 \<Rightarrow> bool" where
  "on_keyboard c \<longleftrightarrow> c = 10 \<or> (32 \<le> unat c \<and> unat c \<le> 126)"

lemma key_bits:
  assumes "i < 88"
  shows "(word_of_nat i :: u8) AND 0x80 = 0" and "(word_of_nat i + 0x80 :: u8) AND 0x80 \<noteq> 0"
    and "(word_of_nat i + 0x80 :: u8) AND 0x7F = word_of_nat i" and "(word_of_nat i + 0x80 :: u8) \<noteq> 0xE0" and "(word_of_nat i :: u8) \<noteq> 0xE0"
proof -
  have "\<forall>i \<in> set [0..<88]. (word_of_nat i :: u8) AND 0x80 = 0 \<and> (word_of_nat i + 0x80 :: u8) AND 0x80 \<noteq> 0 \<and>
      (word_of_nat i + 0x80 :: u8) AND 0x7F = word_of_nat i \<and> (word_of_nat i + 0x80 :: u8) \<noteq> 0xE0 \<and> (word_of_nat i :: u8) \<noteq> 0xE0"
    by (simp add: upt_conv_Cons)
  with assms show "(word_of_nat i :: u8) AND 0x80 = 0" "(word_of_nat i + 0x80 :: u8) AND 0x80 \<noteq> 0"
    "(word_of_nat i + 0x80 :: u8) AND 0x7F = word_of_nat i" "(word_of_nat i + 0x80 :: u8) \<noteq> 0xE0" "(word_of_nat i :: u8) \<noteq> 0xE0"
    by simp_all
qed

lemma unat_key: "i < 88 \<Longrightarrow> unat (word_of_nat i :: u8) = i"
  by (simp add: unat_of_nat)

text \<open>A key that is neither a modifier nor a lock.\<close>

definition plain_key :: "nat \<Rightarrow> bool" where
  "plain_key i \<longleftrightarrow> i < 88 \<and> i \<notin> {0x1D, 0x2A, 0x36, 0x38, 0x3A, 0x45, 0x46}"

lemma plain_key_codes:
  assumes "plain_key i"
  shows "shiftcode (word_of_nat i) = 0" and "togglecode (word_of_nat i) = 0"
  using assms by (auto simp: shiftcode_def togglecode_def entries_def plain_key_def unat_key split: option.splits)

lemma length_codes [simp]: "length normal_codes = 88" "length shift_codes = 88"
  by (simp_all add: normal_codes_def shift_codes_def)

lemma tables_at:
  "i < 88 \<Longrightarrow> normalmap (word_of_nat i) = word_of_nat (normal_codes ! i)"
  "i < 88 \<Longrightarrow> shiftmap (word_of_nat i) = word_of_nat (shift_codes ! i)"
  by (simp_all add: normalmap_def shiftmap_def key_table_def unat_key)

lemma press_release:
  assumes "plain_key i"
  shows "kbd_data (word_of_nat i) 0 = (0, word_of_nat (normal_codes ! i))" "kbd_data (word_of_nat i) SHIFT = (SHIFT, word_of_nat (shift_codes ! i))"
    "kbd_data (word_of_nat i + 0x80) 0 = (0, 0)" "kbd_data (word_of_nat i + 0x80) SHIFT = (SHIFT, 0)"
proof -
  have i: "i < 88" using assms by (simp add: plain_key_def)
  note simps = key_bits [OF i] plain_key_codes [OF assms] tables_at [OF i]
  show "kbd_data (word_of_nat i) 0 = (0, word_of_nat (normal_codes ! i))" "kbd_data (word_of_nat i) SHIFT = (SHIFT, word_of_nat (shift_codes ! i))"
    by (simp_all add: kbd_data_def kbd_press_def simps charcode_def SHIFT_def CTL_def E0ESC_def CAPSLOCK_def)
  show "kbd_data (word_of_nat i + 0x80) 0 = (0, 0)" "kbd_data (word_of_nat i + 0x80) SHIFT = (SHIFT, 0)"
    by (simp_all add: kbd_data_def simps SHIFT_def E0ESC_def)
qed

lemma shift_key: "kbd_data 0x2A 0 = (SHIFT, 0)" "kbd_data 0xAA SHIFT = (0, 0)"
  by (simp_all add: kbd_data_def kbd_press_def shiftcode_def togglecode_def entries_def charcode_def shiftmap_def key_table_def shift_codes_def
      SHIFT_def CTL_def E0ESC_def CAPSLOCK_def)

lemma no_modifier_codes:
  "normal_codes ! i \<noteq> 0 \<Longrightarrow> i < 88 \<Longrightarrow> plain_key i" "shift_codes ! i \<noteq> 0 \<Longrightarrow> i < 88 \<Longrightarrow> plain_key i"
  by (auto simp: plain_key_def normal_codes_def shift_codes_def)

lemma keyboard_complete:
  assumes "n = 10 \<or> 32 \<le> n \<and> n \<le> 126"
  shows "n \<in> set normal_codes \<union> set shift_codes"
proof -
  have "\<forall>n \<in> set (10 # [32..<127]). n \<in> set normal_codes \<union> set shift_codes"
    by (simp add: normal_codes_def shift_codes_def upt_conv_Cons)
  moreover have "n \<in> set (10 # [32..<127])" using assms by (auto simp del: upt_rec_numeral)
  ultimately show ?thesis by blast
qed

lemma type_char:
  assumes "on_keyboard c"
  shows "\<exists>cs. kbd_chars (scan_codes c @ port) 0 = (cs @ fst (kbd_chars port 0), snd (kbd_chars port 0)) \<and>
    filter (\<lambda>c. c \<noteq> 0) cs = [ucast c]"
proof -
  have known: "unat c \<in> set normal_codes \<union> set shift_codes"
    using assms by (intro keyboard_complete) (auto simp: on_keyboard_def)
  have c0: "unat c \<noteq> 0" using assms by (auto simp: on_keyboard_def)
  have uc: "word_of_nat (unat c) = (ucast c :: u32)" by simp
  have inj: "(ucast c :: u32) = ucast d \<longleftrightarrow> c = d" for d :: u8 by transfer simp
  have uc0: "(ucast c :: u32) \<noteq> 0" using c0 inj [of 0] by auto
  show ?thesis
  proof (cases "find (\<lambda>i. normal_codes ! i = unat c) [0..<88]")
    case (Some i)
    then have i: "i < 88" "normal_codes ! i = unat c" by (auto simp: find_Some_iff)
    then have p: "plain_key i" using no_modifier_codes(1) c0 by simp
    show ?thesis using Some press_release [OF p] i(2) uc uc0
      by (intro exI [of _ "[ucast c, 0]"]) (simp add: scan_codes_def kbdgetc_def split_def)
  next
    case None
    then have "unat c \<notin> set normal_codes" by (auto simp: find_None_iff in_set_conv_nth)
    with known have "unat c \<in> set shift_codes" by simp
    then have "find (\<lambda>i. shift_codes ! i = unat c) [0..<88] \<noteq> None" by (auto simp: find_None_iff in_set_conv_nth)
    then obtain i where s: "find (\<lambda>i. shift_codes ! i = unat c) [0..<88] = Some i" by blast
    then have i: "i < 88" "shift_codes ! i = unat c" by (auto simp: find_Some_iff)
    then have p: "plain_key i" using no_modifier_codes(2) c0 by simp
    show ?thesis using None s press_release [OF p] shift_key i(2) uc uc0
      by (intro exI [of _ "[0, ucast c, 0, 0]"]) (simp add: scan_codes_def kbdgetc_def split_def)
  qed
qed

lemma type_text:
  assumes "\<forall>c \<in> set cs. on_keyboard c"
  shows "filter (\<lambda>c. c \<noteq> 0) (fst (kbd_chars (concat (map scan_codes cs)) 0)) = map ucast cs \<and>
    snd (kbd_chars (concat (map scan_codes cs)) 0) = 0"
  using assms
proof (induction cs)
  case (Cons c cs)
  from Cons.prems obtain xs where "kbd_chars (scan_codes c @ concat (map scan_codes cs)) 0 =
      (xs @ fst (kbd_chars (concat (map scan_codes cs)) 0), snd (kbd_chars (concat (map scan_codes cs)) 0))"
    "filter (\<lambda>c. c \<noteq> 0) xs = [ucast c]"
    using type_char [of c] by (metis list.set_intros(1))
  with Cons show ?case by simp
qed simp

text \<open>A zero is no character for the console.\<close>

lemma fold_edit_nonzero: "fold edit_spec cs st = fold edit_spec (filter (\<lambda>c. c \<noteq> 0) cs) st"
proof -
  have "edit_spec 0 st = st" for st by (cases st) (simp add: edit_spec_def ctrl_codes)
  then show ?thesis by (induction cs arbitrary: st) auto
qed

lemma key_table_byte:
  assumes "\<forall>v \<in> set start. v < 256" and "\<forall>(i, v) \<in> set extra. v < 256"
  shows "unat (key_table start extra i) < 256"
proof (cases "unat i < length start")
  case True
  then have "start ! unat i < 256" using assms(1) by simp
  with True show ?thesis by (simp add: key_table_def unat_of_nat)
next
  case False
  show ?thesis
  proof (cases "map_of extra (unat i)")
    case (Some v)
    then have "v < 256" using assms(2) by (auto dest: map_of_SomeD)
    with False Some show ?thesis by (simp add: key_table_def unat_of_nat)
  qed (use False in \<open>simp add: key_table_def\<close>)
qed

lemma charcode_byte: "unat (charcode k i) < 256"
proof -
  have "\<forall>v \<in> set normal_codes. v < 256" "\<forall>v \<in> set shift_codes. v < 256" "\<forall>v \<in> set ctl_codes. v < 256" "\<forall>(i, v) \<in> set special_keys. v < 256"
    by (simp_all add: normal_codes_def shift_codes_def ctl_codes_def special_keys_def)
  then show ?thesis
    unfolding charcode_def normalmap_def shiftmap_def ctlmap_def by (auto intro!: key_table_byte)
qed

lemma caps_byte: "unat c < 256 \<Longrightarrow> unat (caps c) < 256"
  by (auto simp: caps_def word_le_nat_alt unat_sub_if' unat_word_ariths)

lemma kbd_data_byte: "unat (snd (kbd_data b shift)) < 256"
  by (auto simp: kbd_data_def kbd_press_def Let_def charcode_byte intro!: caps_byte)

lemma kbd_chars_byte: "c \<in> set (fst (kbd_chars port shift)) \<Longrightarrow> unat c < 256"
proof (induction port arbitrary: shift)
  case (Cons b port)
  then show ?case using kbd_data_byte [of b shift] by (auto simp: kbdgetc_def split_def)
qed simp

text \<open>From the keys to the reader: a line that is typed is the line that is read.\<close>

lemma kbdintr_line:
  assumes "input_ok s" and "ready s = []" and "editing s = []" and "screen_ok scr" and "\<not> panicked scr"
    and cs: "\<forall>c \<in> set cs. 32 \<le> unat c \<and> unat c \<le> 126" and len: "Suc (length cs) < INPUT_BUF"
  shows "\<exists>s' scr' wakes dump. kbdintr (concat (map scan_codes (cs @ [10]))) 0 s scr = Inr (0, s', scr', wakes, dump) \<and>
    screen_ok scr' \<and> input_ok s' \<and> editing s' = [] \<and> snd (consoleread killed (Suc (length cs)) [] s') = CRead (cs @ [10])"
proof -
  let ?port = "concat (map scan_codes (cs @ [10]))"
  have ord: "\<forall>c \<in> set cs. ordinary c" using cs by (auto simp: ordinary_def)
  have "\<forall>c \<in> set (cs @ [10]). on_keyboard c" using cs by (auto simp: on_keyboard_def)
  from type_text [OF this] have typed: "filter (\<lambda>c. c \<noteq> 0) (fst (kbd_chars ?port 0)) = map ucast (cs @ [10])" "snd (kbd_chars ?port 0) = 0"
    by auto
  obtain s' scr' wakes dump where ci: "consoleintr (fst (kbd_chars ?port 0)) s scr = Inr (s', scr', wakes, dump)" "input_ok s'" "screen_ok scr'"
      "(ready s', editing s') = fold edit_spec (fst (kbd_chars ?port 0)) ([], [])"
    using consoleintr_refines [OF assms(1,4,5)] kbd_chars_byte assms(2,3) by metis
  have "fold edit_spec (fst (kbd_chars ?port 0)) ([], []) = fold edit_spec (map ucast (cs @ [10])) ([], [])"
    using fold_edit_nonzero typed(1) by metis
  also have "\<dots> = edit_spec 10 ([], cs)" using fold_edit_line [OF ord, of "[]" "[]"] len by simp
  also have "\<dots> = (cs @ [10], [])" using len by (simp add: edit_spec_def ctrl_codes Let_def)
  finally have re: "ready s' = cs @ [10]" "editing s' = []" using ci(4) by simp_all
  have "snd (consoleread killed (Suc (length cs)) [] s') = CRead (cs @ [10])"
    using consoleread_refines [OF ci(2), of killed "Suc (length cs)" "[]"] read_spec_line [OF ord, of "Suc (length cs)" killed "[]" "[]"] re(1) by simp
  then show ?thesis using ci re typed(2) by (simp add: kbdintr_def split_def)
qed

end
