(* ===== verification/Xv6_Ulib.thy ===== *)
theory Xv6_Ulib
  imports Xv6_String Xv6_Printint
begin

text \<open>
  The library of the user programs, \<open>ulib.c\<close> and \<open>printf.c\<close>. A pointer to a string is the list of
  the bytes from there to the end of its object. The system calls are arguments: the bytes that
  \<open>read(0, &c, 1)\<close> delivers one by one are a list, whose end is a result below 1.
\<close>

section \<open>Strings\<close>

fun strcpy_loop :: "u8 list \<Rightarrow> u8 list \<Rightarrow> nat \<Rightarrow> u8 list result" where
  "strcpy_loop s [] i = Inl OutOfBounds"
| "strcpy_loop s (c # t) i = bindE (wr s i c) (\<lambda>s. if c \<noteq> 0 then strcpy_loop s t (i + 1) else Inr s)"

definition strcpy :: "u8 list \<Rightarrow> u8 list \<Rightarrow> u8 list result" where
  "strcpy s t = strcpy_loop s t 0"

fun strcmp :: "u8 list \<Rightarrow> u8 list \<Rightarrow> int result" where
  "strcmp (a # p) (b # q) = (if a \<noteq> 0 \<and> a = b then strcmp p q else Inr (uint a - uint b))"
| "strcmp _ _ = Inl OutOfBounds"

fun ulib_strlen :: "u8 list \<Rightarrow> nat \<Rightarrow> nat result" where
  "ulib_strlen [] n = Inl OutOfBounds"
| "ulib_strlen (c # s) n = (if c \<noteq> 0 then ulib_strlen s (n + 1) else Inr n)"

definition ulib_memset :: "u8 list \<Rightarrow> nat \<Rightarrow> u32 \<Rightarrow> nat \<Rightarrow> u8 list result" where
  "ulib_memset mem dst c n = stosb mem dst (ucast c) n"

text \<open>The index of the character, \<^const>\<open>None\<close> for a null pointer.\<close>

fun strchr_from :: "u8 list \<Rightarrow> u8 \<Rightarrow> nat \<Rightarrow> nat option result" where
  "strchr_from [] c i = Inl OutOfBounds"
| "strchr_from (x # s) c i = (if x = 0 then Inr None else if x = c then Inr (Some i) else strchr_from s c (i + 1))"

definition strchr :: "u8 list \<Rightarrow> u8 \<Rightarrow> nat option result" where
  "strchr s c = strchr_from s c 0"

fun gets_loop :: "u8 list \<Rightarrow> int \<Rightarrow> nat \<Rightarrow> u8 list \<Rightarrow> (u8 list \<times> nat \<times> u8 list) result" where
  "gets_loop buf mx i [] = Inr (buf, i, [])"
| "gets_loop buf mx i (c # inp) =
     (if int i + 1 < mx then
        bindE (wr buf i c) (\<lambda>buf.
        if c = 10 \<or> c = 13 then Inr (buf, i + 1, inp) else gets_loop buf mx (i + 1) inp)
      else Inr (buf, i, c # inp))"

definition gets :: "u8 list \<Rightarrow> int \<Rightarrow> u8 list \<Rightarrow> (u8 list \<times> u8 list) result" where
  "gets buf mx inp = bindE (gets_loop buf mx 0 inp) (\<lambda>(buf, i, inp). bindE (wr buf i 0) (\<lambda>buf. Inr (buf, inp)))"

definition ulib_stat ::
  "(u8 list \<Rightarrow> 'w \<Rightarrow> int \<times> 'w) \<Rightarrow> (int \<Rightarrow> 'w \<Rightarrow> int \<times> 'w) \<Rightarrow> (int \<Rightarrow> 'w \<Rightarrow> 'w) \<Rightarrow> u8 list \<Rightarrow> 'w \<Rightarrow> int \<times> 'w" where
  "ulib_stat open_rdonly fstat close n w =
     (let (fd, w) = open_rdonly n w in
      if fd < 0 then (- 1, w) else
      let (r, w) = fstat fd w in (r, close fd w))"

text \<open>An intermediate result of \<open>int\<close> arithmetic.\<close>

definition int32 :: "int \<Rightarrow> int result" where
  "int32 v = (if - (2 ^ 31) \<le> v \<and> v < 2 ^ 31 then Inr v else Inl SignedOverflow)"

fun atoi_loop :: "int \<Rightarrow> u8 list \<Rightarrow> int result" where
  "atoi_loop n [] = Inl OutOfBounds"
| "atoi_loop n (c # s) =
     (if 48 \<le> uint c \<and> uint c \<le> 57 then
        bindE (int32 (n * 10)) (\<lambda>v. bindE (int32 (v + uint c)) (\<lambda>v. bindE (int32 (v - 48)) (\<lambda>v. atoi_loop v s)))
      else Inr n)"

definition atoi :: "u8 list \<Rightarrow> int result" where
  "atoi s = atoi_loop 0 s"

definition ulib_memmove :: "u8 list \<Rightarrow> nat \<Rightarrow> nat \<Rightarrow> int \<Rightarrow> u8 list result" where
  "ulib_memmove mem vdst vsrc n = copy_up mem vdst vsrc (nat n)"

section \<open>Formatted output\<close>

text \<open>What \<open>printf\<close> writes, one byte a call of \<open>write\<close>; \<open>strs a\<close> is the object at the address \<open>a\<close>.\<close>

definition user_arg :: "u32 list \<Rightarrow> (u32 \<times> u32 list) result" where
  "user_arg args = (case args of [] \<Rightarrow> Inl OutOfBounds | a # args \<Rightarrow> Inr (a, args))"

fun string_chars :: "u8 list \<Rightarrow> u8 list result" where
  "string_chars [] = Inl OutOfBounds"
| "string_chars (c # s) = (if c \<noteq> 0 then bindE (string_chars s) (\<lambda>out. Inr (c # out)) else Inr [])"

definition printf_directive :: "(u32 \<Rightarrow> u8 list) \<Rightarrow> u8 \<Rightarrow> u32 list \<Rightarrow> (u8 list \<times> u32 list) result" where
  "printf_directive strs c args =
     (if c = byte CHR ''d'' then bindE (user_arg args) (\<lambda>(a, args). bindE (printint_user a 10 True) (\<lambda>out. Inr (out, args)))
      else if c = byte CHR ''x'' \<or> c = byte CHR ''p'' then
        bindE (user_arg args) (\<lambda>(a, args). bindE (printint_user a 16 False) (\<lambda>out. Inr (out, args)))
      else if c = byte CHR ''s'' then
        bindE (user_arg args) (\<lambda>(a, args).
        bindE (string_chars (if a = 0 then map byte ''(null)'' @ [0] else strs a)) (\<lambda>out. Inr (out, args)))
      else if c = byte CHR ''c'' then bindE (user_arg args) (\<lambda>(a, args). Inr ([ucast a], args))
      else if c = byte CHR ''%'' then Inr ([c], args)
      else Inr ([byte CHR ''%'', c], args))"

fun printf_loop :: "(u32 \<Rightarrow> u8 list) \<Rightarrow> u8 list \<Rightarrow> bool \<Rightarrow> u32 list \<Rightarrow> u8 list result" where
  "printf_loop strs [] state args = Inl OutOfBounds"
| "printf_loop strs (c # fmt) state args =
     (if c = 0 then Inr []
      else if \<not> state then
        (if c = byte CHR ''%'' then printf_loop strs fmt True args
         else bindE (printf_loop strs fmt False args) (\<lambda>out. Inr (c # out)))
      else bindE (printf_directive strs c args) (\<lambda>(text, args).
           bindE (printf_loop strs fmt False args) (\<lambda>out. Inr (text @ out))))"

definition printf :: "(u32 \<Rightarrow> u8 list) \<Rightarrow> u8 list \<Rightarrow> u32 list \<Rightarrow> u8 list result" where
  "printf strs fmt args = printf_loop strs fmt False args"

section \<open>What they compute\<close>

lemma strcpy_loop_eq:
  assumes "0 \<in> set t" and "i + length (c_str t) < length s"
  shows "strcpy_loop s t i = Inr (overwrite s i (c_str t @ [0]))"
  using assms
proof (induction t arbitrary: s i)
  case (Cons c t)
  show ?case
  proof (cases "c = 0")
    case True
    with Cons.prems show ?thesis using overwrite_Cons [of i s "[]" 0] by (simp add: c_str_def)
  next
    case False
    with Cons.prems have "strcpy_loop (s[i := c]) t (i + 1) = Inr (overwrite (s[i := c]) (i + 1) (c_str t @ [0]))"
      by (intro Cons.IH) (auto simp: c_str_def)
    with False Cons.prems show ?thesis using overwrite_Cons [of i s "c_str t @ [0]" c] by (simp add: c_str_def)
  qed
qed simp

lemma strcmp_equal_iff:
  assumes "0 \<in> set p" and "0 \<in> set q"
  shows "\<exists>r. strcmp p q = Inr r \<and> (r = 0 \<longleftrightarrow> c_str p = c_str q)"
  using assms
proof (induction p q rule: strcmp.induct)
  case (1 a p b q)
  show ?case
  proof (cases "a \<noteq> 0 \<and> a = b")
    case True
    with 1 show ?thesis by (auto simp: c_str_def)
  next
    case False
    then show ?thesis by (auto simp: c_str_def word_uint_eq_iff)
  qed
qed auto

lemma strchr_first:
  assumes "0 \<in> set s" and "c \<noteq> 0"
  shows "strchr_from s c i = Inr (if c \<in> set (c_str s) then Some (i + length (takeWhile (\<lambda>x. x \<noteq> c) s)) else None)"
  using assms by (induction s arbitrary: i) (auto simp: c_str_def)

lemma gets_loop_line:
  assumes "\<forall>c \<in> set line. c \<noteq> 10 \<and> c \<noteq> 13" and "int i + int (length line) + 1 < mx" and "nat mx \<le> length buf"
    and "e = 10 \<or> e = 13"
  shows "gets_loop buf mx i (line @ e # rest) = Inr (overwrite buf i (line @ [e]), i + length line + 1, rest)"
  using assms(1-3)
proof (induction line arbitrary: buf i)
  case Nil
  then have "i < length buf" by linarith
  with Nil assms(4) show ?case using overwrite_Cons [of i buf "[]" e] by auto
next
  case (Cons c line)
  then have i: "i < length buf" by simp
  have "gets_loop (buf[i := c]) mx (i + 1) (line @ e # rest) = Inr (overwrite (buf[i := c]) (i + 1) (line @ [e]), i + 1 + length line + 1, rest)"
    by (rule Cons.IH) (use Cons.prems in auto)
  moreover have "overwrite (buf[i := c]) (i + 1) (line @ [e]) = overwrite buf i (c # line @ [e])"
    using overwrite_Cons [of i buf "line @ [e]" c] Cons.prems i by simp
  ultimately show ?case using Cons.prems i by simp
qed

text \<open>A line that fits is read with its line break, terminated, and the rest of the input stays.\<close>

lemma gets_line:
  assumes "\<forall>c \<in> set line. c \<notin> {0, 10, 13}" and "int (length line) + 1 < mx" and "nat mx \<le> length buf"
  shows "\<exists>buf'. gets buf mx (line @ 10 # rest) = Inr (buf', rest) \<and> c_str buf' = line @ [10]"
proof -
  have l: "gets_loop buf mx 0 (line @ 10 # rest) = Inr (overwrite buf 0 (line @ [10]), length line + 1, rest)"
    using gets_loop_line [of line 0 mx buf 10 rest] assms by simp
  have len: "length line + 1 < length buf" using assms(2,3) by linarith
  then have "(overwrite buf 0 (line @ [10]))[length line + 1 := 0] = (line @ [10]) @ 0 # drop (length line + 2) buf"
    by (simp add: overwrite_def list_update_append drop_update_swap Cons_nth_drop_Suc [symmetric])
  moreover have "length line + 1 < length (overwrite buf 0 (line @ [10]))" using len by simp
  moreover have "0 \<notin> set (line @ [10])" using assms(1) by auto
  then have "c_str ((line @ [10]) @ 0 # drop (length line + 2) buf) = line @ [10]" by (rule c_str_prefix)
  ultimately show ?thesis using l by (simp add: gets_def)
qed

text \<open>
  \<open>memmove\<close> of the library copies upwards only: moving a block one place up fills the
  destination with its first byte.
\<close>

lemma ulib_memmove_overlap:
  assumes "s + n < length mem"
  shows "copy_up mem (s + 1) s n = Inr (overwrite mem (s + 1) (replicate n (mem ! s)))"
  using assms
proof (induction n arbitrary: mem s)
  case (Suc n)
  let ?m = "mem[s + 1 := mem ! s]"
  have "copy_up ?m (s + 1 + 1) (s + 1) n = Inr (overwrite ?m (s + 1 + 1) (replicate n (?m ! (s + 1))))"
    using Suc.prems by (intro Suc.IH) simp
  moreover have "overwrite ?m (Suc (s + 1)) (replicate n (mem ! s)) = overwrite mem (s + 1) (mem ! s # replicate n (mem ! s))"
    using Suc.prems by (intro overwrite_Cons) simp_all
  ultimately show ?case using Suc.prems by simp
qed simp

section \<open>Numbers\<close>

lemma digits_number_fold: "digits_number b ds = fold (\<lambda>d n. n * b + d) (rev ds) 0"
  by (induction ds) (simp_all add: mult.commute)

lemma fold_digits_ge: "n \<le> fold (\<lambda>d n. n * 10 + d) ds (n :: nat)"
proof (induction ds arbitrary: n)
  case (Cons d ds)
  have "n \<le> n * 10 + d" by simp
  also have "\<dots> \<le> fold (\<lambda>d n. n * 10 + d) ds (n * 10 + d)" by (rule Cons.IH)
  finally show ?case by simp
qed simp

lemma digit_byte: "d < 10 \<Longrightarrow> uint (digits_upper ! d) = 48 + int d"
proof -
  assume "d < 10"
  moreover have "\<forall>d \<in> set [0..<10]. uint (digits_upper ! d) = 48 + int d"
    by (simp add: upt_conv_Cons digits_upper_def byte_def)
  ultimately show ?thesis by simp
qed

lemma atoi_digits:
  assumes "\<forall>d \<in> set ds. d < 10" and "fold (\<lambda>d n. n * 10 + d) ds n + 48 < 2 ^ 31" and "\<not> (48 \<le> uint c \<and> uint c \<le> 57)"
  shows "atoi_loop (int n) (map ((!) digits_upper) ds @ c # rest) = Inr (int (fold (\<lambda>d n. n * 10 + d) ds n))"
  using assms(1,2)
proof (induction ds arbitrary: n)
  case Nil
  then show ?case using assms(3) by auto
next
  case (Cons d ds)
  have "n * 10 + d \<le> fold (\<lambda>d n. n * 10 + d) ds (n * 10 + d)" by (rule fold_digits_ge)
  then have "n * 10 + d + 48 < 2 ^ 31" using Cons.prems(2) by simp
  then have "int (n * 10 + d + 48) < int (2 ^ 31)" by (simp only: of_nat_less_iff)
  then have le: "int n * 10 + int d + 48 < 2 ^ 31" by simp
  have d: "d < 10" using Cons.prems(1) by simp
  have "int32 (int n * 10) = Inr (int n * 10)" "int32 (int n * 10 + (48 + int d)) = Inr (int n * 10 + (48 + int d))"
      "int32 (int n * 10 + (48 + int d) - 48) = Inr (int (n * 10 + d))"
    using le by (simp_all add: int32_def)
  with Cons.IH [of "n * 10 + d"] Cons.prems d show ?case by (simp add: digit_byte)
qed

text \<open>\<open>atoi\<close> reads back what \<open>printint\<close> has written.\<close>

lemma atoi_printint:
  assumes "0 \<le> sint x" and "sint x + 48 < 2 ^ 31"
  shows "\<exists>out. printint_user x 10 True = Inr out \<and> atoi (out @ 0 # rest) = Inr (sint x)"
proof -
  let ?n = "nat (sint x)" and ?ds = "numeral_digits 10 (nat (sint x))"
  have len: "length digits_upper = 16" by (simp add: digits_upper_def)
  have ten: "unat (10 :: u32) = 10" by simp
  have "sint x \<noteq> - (2 ^ 31)" using assms(1) by simp
  with len ten have out: "printint_user x 10 True = Inr (print_numeral digits_upper 10 (sint x))"
    unfolding printint_user_def using printint_with_numeral [of 10 digits_upper True x] by (simp add: printed_value_def)
  have num: "print_numeral digits_upper 10 (sint x) = map ((!) digits_upper) (rev ?ds)"
    using assms(1) by (simp add: print_numeral_def)
  have val: "fold (\<lambda>d n. n * 10 + d) (rev ?ds) 0 = ?n" by (simp add: digits_number_fold [symmetric] numeral_digits_value)
  have "\<forall>d \<in> set (rev ?ds). d < 10" using numeral_digits_less [of 10] by auto
  then have "atoi_loop (int 0) (map ((!) digits_upper) (rev ?ds) @ 0 # rest) = Inr (int ?n)"
    using atoi_digits [of "rev ?ds" 0 0 rest] val assms by simp
  with out num assms(1) show ?thesis by (simp add: atoi_def)
qed

text \<open>A format without directives is copied, and \<open>%d\<close> prints a number in decimal.\<close>

lemma printf_plain:
  assumes "0 \<notin> set xs" and "byte CHR ''%'' \<notin> set xs"
  shows "printf_loop strs (xs @ fmt) False args = bindE (printf_loop strs fmt False args) (\<lambda>out. Inr (xs @ out))"
  using assms
proof (induction xs)
  case Nil
  then show ?case by (cases "printf_loop strs fmt False args") simp_all
next
  case (Cons c xs)
  then show ?case by (cases "printf_loop strs fmt False args") auto
qed

end
