(* ===== verification/Xv6_Properties.thy ===== *)
theory Xv6_Properties
  imports Xv6_Log Xv6_Kalloc Xv6_Pipe Xv6_Kbd Xv6_Ulib
begin

text \<open>
  The properties of the xv6 kernel and of its user library, each with a witness on concrete data.
\<close>

section \<open>The log\<close>

text \<open>
  C26: a transaction is atomic. Whatever number \<open>k\<close> of the block writes of \<open>commit\<close> reach the disk
  before a crash, and however often the recovery after it is itself cut off, a recovery that runs to
  its end restores either the old contents of every block of the file system or the new ones: the
  old ones up to the write of the header, the new ones from there on.
\<close>
theorem commit_atomic:
  assumes "transaction l s" and "0 < lh_n (lh l)" and "written s = []"
  shows "\<exists>s'. commit l s = Inr (clear_head l, s') \<and> disk s' = apply_writes (written s') (disk s) \<and>
    same_files l (disk s') (\<lambda>b. store_read b s) \<and>
    (\<forall>k d. crashed l (apply_writes (take k (written s')) (disk s)) d \<longrightarrow>
      (\<exists>l'' s''. recover_from_log l (power_on d) = Inr (l'', s'') \<and> head_is l (disk s'') [] \<and>
        same_files l (disk s'') (if k \<le> length (log_blocks l) then disk s else (\<lambda>b. store_read b s))))"
  by (rule commit_crash [OF assms])

definition demo_log :: log where
  "demo_log = \<lparr>log_start = 2, log_size = 30, outstanding = 0, committing = True,
     lh = \<lparr>lh_n = 1, lh_block = 100 # replicate 29 0\<rparr>\<rparr>"

definition demo_store :: store where
  "demo_store = \<lparr>disk = (\<lambda>_. replicate 512 0), pinned = (\<lambda>_. None)(100 \<mapsto> replicate 512 7), written = []\<rparr>"

lemma demo_transaction: "transaction demo_log demo_store"
proof -
  have "log_block demo_log t \<noteq> 100" if "t < 30" for t
  proof -
    have "unat (log_block demo_log t) = t + 3"
      using that by (simp add: log_block_def demo_log_def unat_word_ariths unat_of_nat)
    with that show ?thesis by (auto simp: word_unat_eq_iff)
  qed
  moreover have "get32 (replicate 512 0) 0 = Inr 0"
    by (simp add: get32_def le_field_def numeral_eq_Suc)
  ultimately show ?thesis
    by (auto simp: transaction_def log_ok_def LOGSIZE_def head_is_def BSIZE_def log_blocks_def log_region_def log_cap_def demo_store_def demo_log_def)
qed

theorem commit_atomic_witness:
  "\<exists>s'. commit demo_log demo_store = Inr (clear_head demo_log, s') \<and> same_files demo_log (disk s') (\<lambda>b. store_read b demo_store)"
  using commit_atomic [OF demo_transaction] by (auto simp: demo_log_def demo_store_def)

text \<open>
  C27: the reservations of the log are sound. In every state that processes can reach by beginning,
  writing and ending file system calls from an idle log, the blocks in the log and the blocks that
  the running calls may still add do not exceed the size of the header, and when the log on disk is
  larger than the header, a call that has blocks left is never refused.
\<close>
theorem log_reservations:
  assumes "log_step\<^sup>*\<^sup>* (l0, s0, Map.empty) (l, s, left)"
    and "log_ok l0" and "outstanding l0 = 0" and "\<not> committing l0" and "int LOGSIZE < log_size l0"
  shows "lh_n (lh l) + (\<Sum>p \<in> dom left. int (the (left p))) \<le> int LOGSIZE \<and>
    (\<forall>p r b d. left p = Some (Suc r) \<longrightarrow> (\<exists>l' s'. log_write b d l s = Inr (l', s')))"
proof -
  have i0: "reserve_inv (l0, s0, Map.empty)" using assms(2-4) by (auto simp: log_ok_def log_cap_def)
  have i: "reserve_inv (l, s, left)" by (rule log_steps_inv [OF assms(1) i0])
  have "log_size l = log_size l0" using log_steps_size [OF assms(1) i0] by simp
  with log_write_accepted [OF i] assms(5) i show ?thesis by auto
qed

definition idle_log :: "int \<Rightarrow> log" where
  "idle_log n = \<lparr>log_start = 2, log_size = n, outstanding = 0, committing = False, lh = \<lparr>lh_n = 0, lh_block = replicate 30 0\<rparr>\<rparr>"

lemma idle_log_ok: "log_ok (idle_log n)" "outstanding (idle_log n) = 0" "\<not> committing (idle_log n)" "log_size (idle_log n) = n"
  by (simp_all add: idle_log_def log_ok_def LOGSIZE_def)

theorem log_reservations_witness:
  "\<exists>l' s'. log_write 100 [] (idle_log 31\<lparr>outstanding := 1\<rparr>) demo_store = Inr (l', s')"
proof -
  have "begin_op (idle_log 31) = Inr (idle_log 31\<lparr>outstanding := 1\<rparr>)"
    by (simp add: begin_op_def idle_log_def MAXOPBLOCKS_def LOGSIZE_def)
  then have "log_step\<^sup>*\<^sup>* (idle_log 31, demo_store, Map.empty) (idle_log 31\<lparr>outstanding := 1\<rparr>, demo_store, [0 \<mapsto> MAXOPBLOCKS])"
    by (intro r_into_rtranclp op_begins) simp_all
  from log_reservations [OF this idle_log_ok(1-3)] show ?thesis by (auto simp: idle_log_ok MAXOPBLOCKS_def LOGSIZE_def)
qed

text \<open>Three calls that have written \<open>k\<close> blocks together, one after the other.\<close>

definition full_left :: "nat \<Rightarrow> nat \<rightharpoonup> nat" where
  "full_left k = (\<lambda>p. if p = 0 then Some (10 - k) else if p = 1 then Some (10 - (k - 10)) else if p = 2 then Some (10 - (k - 20)) else None)"

definition full_log :: "nat \<Rightarrow> log" where
  "full_log k = (idle_log 30)\<lparr>outstanding := 3, lh := \<lparr>lh_n = int k, lh_block = map word_of_nat [100..<100 + k] @ replicate (30 - k) 0\<rparr>\<rparr>"

lemma full_log_start: "log_step\<^sup>*\<^sup>* (idle_log 30, s, Map.empty) (full_log 0, s, full_left 0)"
proof -
  let ?l = "\<lambda>n. idle_log 30\<lparr>outstanding := n\<rparr>"
  have b: "begin_op (?l n) = Inr (?l (n + 1))" if "n \<in> {0, 1, 2}" for n
    using that by (auto simp: begin_op_def idle_log_def MAXOPBLOCKS_def LOGSIZE_def)
  have 1: "log_step (?l 0, s, Map.empty) (?l 1, s, [0 \<mapsto> MAXOPBLOCKS])"
    using op_begins [OF _ b, of Map.empty 0 0 s] by simp
  have 2: "log_step (?l 1, s, [0 \<mapsto> MAXOPBLOCKS]) (?l 2, s, [0 \<mapsto> MAXOPBLOCKS, 1 \<mapsto> MAXOPBLOCKS])"
    using op_begins [OF _ b, of "[0 \<mapsto> MAXOPBLOCKS]" 1 1 s] by simp
  have 3: "log_step (?l 2, s, [0 \<mapsto> MAXOPBLOCKS, 1 \<mapsto> MAXOPBLOCKS]) (?l 3, s, [0 \<mapsto> MAXOPBLOCKS, 1 \<mapsto> MAXOPBLOCKS, 2 \<mapsto> MAXOPBLOCKS])"
    using op_begins [OF _ b, of "[0 \<mapsto> MAXOPBLOCKS, 1 \<mapsto> MAXOPBLOCKS]" 2 2 s] by simp
  have "?l 0 = idle_log 30" "?l 3 = full_log 0" by (simp_all add: idle_log_def full_log_def)
  moreover have "[0 \<mapsto> MAXOPBLOCKS, 1 \<mapsto> MAXOPBLOCKS, 2 \<mapsto> MAXOPBLOCKS] = full_left 0"
    by (auto simp: fun_eq_iff MAXOPBLOCKS_def full_left_def)
  moreover have "log_step\<^sup>*\<^sup>* (?l 0, s, Map.empty) (?l 3, s, [0 \<mapsto> MAXOPBLOCKS, 1 \<mapsto> MAXOPBLOCKS, 2 \<mapsto> MAXOPBLOCKS])"
    by (rule converse_rtranclp_into_rtranclp [of log_step, OF 1 converse_rtranclp_into_rtranclp [of log_step, OF 2 r_into_rtranclp [of log_step, OF 3]]])
  ultimately show ?thesis by simp
qed

lemma full_log_write:
  assumes "k < 29"
  shows "\<exists>s'. log_write (word_of_nat (100 + k)) d (full_log k) s = Inr (full_log (Suc k), s')"
proof -
  let ?bs = "map word_of_nat [100..<100 + k] :: u32 list"
  have new: "x \<noteq> word_of_nat (100 + k)" if x: "x \<in> set ?bs" for x :: u32
  proof -
    from x obtain j where j: "x = word_of_nat j" "j < 100 + k" by auto
    have "unat x = j" "unat (word_of_nat (100 + k) :: u32) = 100 + k"
      using assms j by (simp_all only: unat_of_nat) simp_all
    with j(2) show ?thesis by auto
  qed
  then have "takeWhile (\<lambda>x. x \<noteq> word_of_nat (100 + k)) ?bs = ?bs" by (intro takeWhile_eq_all_conv [THEN iffD2]) blast
  then have "length (takeWhile (\<lambda>x. x \<noteq> word_of_nat (100 + k)) ?bs) = k" by (simp only: length_map length_upt)
  moreover have "(?bs @ replicate (30 - k) 0)[k := word_of_nat (100 + k)] = map word_of_nat [100..<100 + Suc k] @ replicate (30 - Suc k) 0"
  proof -
    have "replicate (30 - k) (0 :: u32) = 0 # replicate (30 - Suc k) 0" using assms by (simp add: Suc_diff_Suc flip: replicate_Suc)
    moreover have "[100..<100 + Suc k] = [100..<100 + k] @ [100 + k]" using upt_Suc_append [of 100 "100 + k"] by simp
    ultimately show ?thesis by (simp add: list_update_append)
  qed
  ultimately show ?thesis using assms
    by (simp add: log_write_def full_log_def idle_log_def LOGSIZE_def Let_def)
qed

lemma full_left_step:
  assumes "k < 29"
  shows "\<exists>p r. full_left k p = Some (Suc r) \<and> full_left (Suc k) = (full_left k)(p \<mapsto> r)"
proof -
  consider "k < 10" | "10 \<le> k" "k < 20" | "20 \<le> k" by linarith
  then show ?thesis
  proof cases
    case 1
    then show ?thesis by (intro exI [of _ 0] exI [of _ "9 - k"]) (auto simp: fun_eq_iff full_left_def)
  next
    case 2
    then show ?thesis by (intro exI [of _ 1] exI [of _ "19 - k"]) (auto simp: fun_eq_iff full_left_def)
  next
    case 3
    with assms show ?thesis by (intro exI [of _ 2] exI [of _ "29 - k"]) (auto simp: fun_eq_iff full_left_def)
  qed
qed

lemma full_log_reached: "k \<le> 29 \<Longrightarrow> \<exists>s'. log_step\<^sup>*\<^sup>* (idle_log 30, s, Map.empty) (full_log k, s', full_left k)"
proof (induction k)
  case 0
  then show ?case using full_log_start by blast
next
  case (Suc k)
  then obtain s1 where r: "log_step\<^sup>*\<^sup>* (idle_log 30, s, Map.empty) (full_log k, s1, full_left k)" by auto
  have k: "k < 29" using Suc.prems by simp
  obtain s2 where w: "log_write (word_of_nat (100 + k)) [] (full_log k) s1 = Inr (full_log (Suc k), s2)"
    using full_log_write [OF k] by blast
  obtain p r' where "full_left k p = Some (Suc r')" "full_left (Suc k) = (full_left k)(p \<mapsto> r')"
    using full_left_step [OF k] by blast
  then have "log_step (full_log k, s1, full_left k) (full_log (Suc k), s2, full_left (Suc k))"
    using op_writes [OF _ w] by metis
  with r show ?case by (metis rtranclp.rtrancl_into_rtrancl)
qed

text \<open>
  C28: with the log that \<open>mkfs\<close> makes, of 30 blocks with the header, this fails: three calls that
  have been admitted with ten blocks each can be running and have blocks left when \<open>log_write\<close> panics.
\<close>
theorem log_too_small:
  "\<exists>l s left p r. log_step\<^sup>*\<^sup>* (idle_log 30, demo_store, Map.empty) (l, s, left) \<and> left p = Some (Suc r) \<and>
    log_write 200 [] l s = Inl (Panic ''too big a transaction'')"
proof -
  obtain s where s: "log_step\<^sup>*\<^sup>* (idle_log 30, demo_store, Map.empty) (full_log 29, s, full_left 29)"
    using full_log_reached [of 29 demo_store] by auto
  moreover have "full_left 29 2 = Some (Suc 0)" by (simp add: full_left_def)
  moreover have "log_write 200 [] (full_log 29) s = Inl (Panic ''too big a transaction'')"
    by (simp add: log_write_def full_log_def idle_log_def LOGSIZE_def)
  ultimately show ?thesis by blast
qed

section \<open>Locks and pages\<close>


definition demo_cpu :: cpu where "demo_cpu = \<lparr>ncli = 0, intena = False, FL_IF = True\<rparr>"
definition demo_lock :: spinlock where "demo_lock = \<lparr>locked = False, lk_name = ''demo'', lk_cpu = None, pcs = []\<rparr>"


text \<open>
  C30: the pages of the allocator have one owner. In every history of clients that take pages with
  \<open>kalloc\<close> and give back pages they own with \<open>kfree\<close>, a page is free or owned but never both and none
  is lost; a request is answered with a page that nobody owns, and with a null pointer only when
  every page is owned.
\<close>
theorem pages_have_one_owner:
  assumes "kmem_inv kend s0 xs" and "clients (kalloc me stack) (kfree kend me stack) 0 s0 s owned"
  shows "owned \<inter> free_pages kend s = {} \<and> owned \<union> free_pages kend s = set xs \<and>
    (\<exists>p s'. kalloc me stack s = Inr (p, s') \<and> p \<notin> owned \<and> (p = 0 \<longleftrightarrow> owned = set xs) \<and> (p \<noteq> 0 \<longrightarrow> p \<in> set xs))"
proof -
  have g: "\<exists>ys. kmem_inv kend s0 ys" using assms(1) by blast
  have "free_pages kend s0 = set xs" by (rule free_pages_eq [OF assms(1)])
  with kernel_pages.pages_partitioned [OF assms(2) g] kernel_pages.requests_served(1) [OF assms(2) g] show ?thesis by auto
qed

definition demo_kmem :: kmem where
  "demo_kmem = \<lparr>kmem_lock = demo_lock, use_lock = True, freelist = 0x80400000, kmem_mem = (\<lambda>_. 0), kmem_cpu = demo_cpu\<rparr>"

lemma demo_kmem_inv: "kmem_inv 0x80110000 demo_kmem [0x80400000]"
  by (simp add: kmem_inv_def demo_kmem_def load32_def page_ok_def aligned_def V2P_def PHYSTOP_def KERNBASE_def PGSIZE_def
      demo_lock_def cli_ok_def demo_cpu_def)

theorem pages_have_one_owner_witness:
  "\<exists>p s'. kalloc 0 [] demo_kmem = Inr (p, s') \<and> p = 0x80400000"
  using pages_have_one_owner [OF demo_kmem_inv boot, of 0 "[]"] by auto

text \<open>
  The function \<open>freerange\<close> ends and adds exactly the whole pages of its range to the free ones.
\<close>
theorem freerange_frees:
  assumes "kmem_inv kend s xs" and "aligned (PGROUNDUP vstart)" and "kend \<le> PGROUNDUP vstart" and "0x80000000 \<le> unat (PGROUNDUP vstart)"
    and "unat (PGROUNDUP vstart) \<le> 0x8E000000" and "unat vend \<le> 0x8E000000" and "set xs \<inter> pages_between (PGROUNDUP vstart) vend = {}"
  shows "\<exists>s' ys. freerange kend me stack vstart vend s = Inr s' \<and> kmem_inv kend s' ys \<and>
    set ys = set xs \<union> pages_between (PGROUNDUP vstart) vend"
  using freerange_adds [OF assms] unfolding freerange_def by blast

theorem freerange_frees_witness:
  "\<exists>s' ys. freerange 0x80110000 0 [] 0x80500001 0x80503000 demo_kmem = Inr s' \<and> kmem_inv 0x80110000 s' ys \<and>
    set ys = {0x80400000} \<union> pages_between 0x80501000 0x80503000"
proof -
  have r: "PGROUNDUP 0x80500001 = 0x80501000" by (simp add: PGROUNDUP_def PGSIZE_def)
  have "(0x80400000 :: u32) \<notin> pages_between 0x80501000 0x80503000" by (simp add: pages_between_def)
  then show ?thesis
    using freerange_frees [OF demo_kmem_inv, of "0x80500001" "0x80503000" 0 "[]"] r by (simp add: aligned_def PGSIZE_def)
qed

section \<open>Pipes, keyboard and console\<close>

text \<open>
  C32: a pipe is a queue. For every sequence of stretches of \<open>pipewrite\<close> and \<open>piperead\<close>, whether they
  finish, sleep or fail, and also when the 32-bit counters wrap around, the bytes that were in the
  pipe followed by those that went in are the bytes that came out followed by those that are in it.
\<close>
theorem pipe_is_a_queue:
  assumes "pipe_ok p" and "pipe_run ops p = (ins, outs, p')"
  shows "pipe_ok p' \<and> pipe_contents p @ ins = outs @ pipe_contents p'"
  by (rule pipe_fifo [OF assms])

theorem pipe_is_a_queue_witness:
  "\<exists>ins outs p'. pipe_run [PWrite False [1, 2, 3], PRead False 2] \<lparr>data = replicate 512 0, nread = - 2, nwrite = - 2, readopen = True, writeopen = True\<rparr> =
    (ins, outs, p') \<and> ins = outs @ pipe_contents p'"
proof -
  let ?p = "\<lparr>data = replicate 512 0, nread = - 2, nwrite = - 2, readopen = True, writeopen = True\<rparr> :: pipe"
  obtain ins outs p' where "pipe_run [PWrite False [1, 2, 3], PRead False 2] ?p = (ins, outs, p')" by (metis prod_cases3)
  moreover have "pipe_ok ?p" "pipe_contents ?p = []" by (simp_all add: pipe_ok_def ring_ok_def PIPESIZE_def pipe_contents_def ring_contents_def)
  ultimately show ?thesis using pipe_is_a_queue [of ?p] by (metis append_Nil)
qed

text \<open>
  C33: what is typed is read. The scan codes of the keys for a line of printable characters and the
  return key, with the shift key where the characters need it, go through the keyboard driver and the
  line discipline, and \<open>consoleread\<close> returns exactly the line.
\<close>
theorem typed_line_is_read:
  assumes "input_ok s" and "ready s = []" and "editing s = []" and "screen_ok scr" and "\<not> panicked scr"
    and "\<forall>c \<in> set cs. 32 \<le> unat c \<and> unat c \<le> 126" and "Suc (length cs) < INPUT_BUF"
  shows "\<exists>s' scr' wakes dump. kbdintr (concat (map scan_codes (cs @ [10]))) 0 s scr = Inr (0, s', scr', wakes, dump) \<and>
    screen_ok scr' \<and> input_ok s' \<and> editing s' = [] \<and> snd (consoleread killed (Suc (length cs)) [] s') = CRead (cs @ [10])"
  by (rule kbdintr_line [OF assms])

definition demo_input :: input where "demo_input = \<lparr>ibuf = replicate 128 0, in_r = 5, in_w = 5, in_e = 5\<rparr>"
definition demo_screen :: screen where "demo_screen = \<lparr>crt = replicate 2000 0, cursor = 0, uart_out = [], panicked = False\<rparr>"

lemma demo_console_ok:
  "input_ok demo_input" "ready demo_input = []" "editing demo_input = []" "screen_ok demo_screen" "\<not> panicked demo_screen"
  by (simp_all add: input_ok_def demo_input_def ring_ok_def INPUT_BUF_def editing_def ready_def ring_contents_def screen_ok_def demo_screen_def)

theorem typed_line_is_read_witness:
  "\<exists>s' scr' wakes dump. kbdintr (concat (map scan_codes (map byte ''Hi!'' @ [10]))) 0 demo_input demo_screen = Inr (0, s', scr', wakes, dump) \<and>
    snd (consoleread False 4 [] s') = CRead (map byte ''Hi!'' @ [10])"
proof -
  have "\<forall>c \<in> set (map byte ''Hi!''). 32 \<le> unat c \<and> unat c \<le> 126" "Suc (length (map byte ''Hi!'')) < INPUT_BUF"
    by (simp_all add: byte_def INPUT_BUF_def)
  from typed_line_is_read [OF demo_console_ok this, of False]
  have "\<exists>s' scr' wakes dump. kbdintr (concat (map scan_codes (map byte ''Hi!'' @ [10]))) 0 demo_input demo_screen = Inr (0, s', scr', wakes, dump) \<and>
      snd (consoleread False (Suc (length (map byte ''Hi!''))) [] s') = CRead (map byte ''Hi!'' @ [10])" by blast
  moreover have "Suc (length (map byte ''Hi!'')) = 4" by simp
  ultimately show ?thesis by (simp only:)
qed

text \<open>
  C34: the ring buffer of the console implements the editing of a line: after any keys the bytes that
  can be read and the line that is being edited are those of the abstract editor, which knows only
  two lists, and a reader takes from the first of them what the abstract reader takes.
\<close>
theorem console_refines_editor:
  assumes "input_ok s" and "screen_ok scr" and "\<not> panicked scr" and "\<forall>c \<in> set keys. unat c < 256"
  shows "\<exists>s' scr' wakes dump. consoleintr keys s scr = Inr (s', scr', wakes, dump) \<and> input_ok s' \<and> screen_ok scr' \<and>
    (ready s', editing s') = fold edit_spec keys (ready s, editing s) \<and>
    (ready (fst (consoleread killed n [] s')), snd (consoleread killed n [] s')) = read_spec killed n [] (ready s')"
  using consoleintr_refines [OF assms] consoleread_refines by blast

theorem console_refines_editor_witness:
  "\<exists>s' scr' wakes dump. consoleintr [97, 98, 8, 10] demo_input demo_screen = Inr (s', scr', wakes, dump) \<and> ready s' = [97, 10]"
proof -
  have "fold edit_spec [97, 98, 8, 10] ([], []) = ([97, 10], [])"
    by (simp add: edit_spec_def ctrl_codes INPUT_BUF_def Let_def)
  moreover have "\<forall>c \<in> set [97, 98, 8, 10 :: u32]. unat c < 256" by simp
  from console_refines_editor [OF demo_console_ok(1,4,5) this]
  obtain s' scr' wakes dump where "consoleintr [97, 98, 8, 10] demo_input demo_screen = Inr (s', scr', wakes, dump)"
    "(ready s', editing s') = fold edit_spec [97, 98, 8, 10] (ready demo_input, editing demo_input)" by blast
  ultimately show ?thesis unfolding demo_console_ok(2,3) by (metis fst_conv)
qed

text \<open>
  C35: \<open>consolewrite\<close> of any bytes keeps to the memory of the screen: it never faults, and the cursor
  stays within the first 24 of the 25 lines.
\<close>
theorem console_stays_on_screen:
  assumes "screen_ok s" and "\<not> panicked s"
  shows "\<exists>s'. consolewrite buf s = Inr (length buf, s') \<and> 2000 \<le> length (crt s') \<and> cursor s' < 24 * 80"
  using consolewrite_ok [OF assms, of buf] by (auto simp: screen_ok_def)

theorem console_stays_on_screen_witness:
  "\<exists>s'. consolewrite (replicate 2000 65) demo_screen = Inr (2000, s') \<and> cursor s' < 24 * 80"
  using console_stays_on_screen [OF demo_console_ok(4,5), of "replicate 2000 65"] by auto

section \<open>The libraries\<close>



text \<open>
  C37: the kernel's \<open>memset\<close>, which stores words when address and size are multiples of four, stores
  the same bytes as the byte-wise one of the user library.
\<close>
theorem memset_word_bytes:
  assumes "dst + n \<le> length mem"
  shows "memset mem dst c n = ulib_memset mem dst c n"
  using memset_fills [OF assms] stosb_fills [OF assms] by (simp add: ulib_memset_def)

theorem memset_word_bytes_witness: "memset (replicate 16 1) 4 0x1234 8 = ulib_memset (replicate 16 1) 4 0x1234 8"
  by (rule memset_word_bytes) simp

end
