(* ===== verification/Xv6_Bio.thy ===== *)
theory Xv6_Bio
  imports Xv6_Log
begin

text \<open>
  The buffer cache: \<open>bio.c\<close>, with the sleep locks of \<open>sleeplock.c\<close> and the disk in memory of
  \<open>memide.c\<close>. The buffers are linked into a ring through their \<open>prev\<close> and \<open>next\<close> fields, from the
  most to the least recently used one. A section under the spin lock \<open>bcache.lock\<close> or under the
  spin lock inside a sleep lock is one step of the model; between two such sections other
  processes may run, which is the relation \<open>bio_step\<close>.
\<close>

section \<open>Sleep locks\<close>

record sleeplock =
  sl_locked :: u32
  sl_name :: string
  sl_pid :: int

definition initsleeplock :: "sleeplock \<Rightarrow> string \<Rightarrow> sleeplock" where
  "initsleeplock lk name = lk\<lparr>sl_name := name, sl_locked := 0, sl_pid := 0\<rparr>"

text \<open>\<open>pid\<close> is the number of the calling process. The loop sleeps as long as the lock is held.\<close>

definition acquiresleep :: "int \<Rightarrow> sleeplock \<Rightarrow> sleeplock result" where
  "acquiresleep pid lk = (if sl_locked lk \<noteq> 0 then Inl Blocked else Inr (lk\<lparr>sl_locked := 1, sl_pid := pid\<rparr>))"

definition releasesleep :: "sleeplock \<Rightarrow> sleeplock" where
  "releasesleep lk = lk\<lparr>sl_locked := 0, sl_pid := 0\<rparr>"

definition holdingsleep :: "int \<Rightarrow> sleeplock \<Rightarrow> bool" where
  "holdingsleep pid lk \<longleftrightarrow> sl_locked lk \<noteq> 0 \<and> sl_pid lk = pid"

section \<open>The cache and the disk\<close>

definition NBUF :: nat where "NBUF = 30"
definition B_VALID :: u32 where "B_VALID = 0x2"
definition B_DIRTY :: u32 where "B_DIRTY = 0x4"

text \<open>A pointer to a buffer is its index; the index \<^const>\<open>NBUF\<close> is the list head \<open>bcache.head\<close>.\<close>

record bbuf =
  b_flags :: u32
  b_dev :: u32
  b_blockno :: u32
  b_lock :: sleeplock
  b_refcnt :: u32
  b_prev :: nat
  b_next :: nat
  b_data :: block

record bcache =
  bufs :: "nat \<Rightarrow> bbuf"
  memdisk :: "u8 list"
  disksize :: u32

definition upd_buf :: "nat \<Rightarrow> (bbuf \<Rightarrow> bbuf) \<Rightarrow> bcache \<Rightarrow> bcache" where
  "upd_buf b f c = c\<lparr>bufs := (bufs c)(b := f (bufs c b))\<rparr>"

definition b_set :: "u32 \<Rightarrow> bbuf \<Rightarrow> bool" where
  "b_set m b \<longleftrightarrow> b_flags b AND m \<noteq> 0"

abbreviation valid :: "bbuf \<Rightarrow> bool" where "valid \<equiv> b_set B_VALID"
abbreviation dirty :: "bbuf \<Rightarrow> bool" where "dirty \<equiv> b_set B_DIRTY"

text \<open>The image of the file system is linked to the kernel.\<close>

definition ideinit :: "u8 list \<Rightarrow> bcache \<Rightarrow> bcache" where
  "ideinit img c = c\<lparr>memdisk := img, disksize := word_of_nat (length img) div word_of_nat BSIZE\<rparr>"

text \<open>\<open>memmove\<close> between two objects: \<open>n\<close> bytes from place \<open>j\<close> of \<open>src\<close> to place \<open>i\<close> of \<open>dst\<close>.\<close>

definition move_bytes :: "u8 list \<Rightarrow> nat \<Rightarrow> u8 list \<Rightarrow> nat \<Rightarrow> nat \<Rightarrow> u8 list result" where
  "move_bytes dst i src j n =
     (if i + n \<le> length dst \<and> j + n \<le> length src then Inr (overwrite dst i (take n (drop j src))) else Inl OutOfBounds)"

definition iderw :: "int \<Rightarrow> nat \<Rightarrow> bcache \<Rightarrow> bcache result" where
  "iderw pid b c =
     (if \<not> holdingsleep pid (b_lock (bufs c b)) then Inl (Panic ''iderw: buf not locked'')
      else if b_flags (bufs c b) AND (B_VALID OR B_DIRTY) = B_VALID then Inl (Panic ''iderw: nothing to do'')
      else if b_dev (bufs c b) \<noteq> 1 then Inl (Panic ''iderw: request not for disk 1'')
      else if disksize c \<le> b_blockno (bufs c b) then Inl (Panic ''iderw: block out of range'')
      else
        let p = unat (b_blockno (bufs c b) * word_of_nat BSIZE) in
        bindE (if dirty (bufs c b)
               then bindE (move_bytes (memdisk c) p (b_data (bufs c b)) 0 BSIZE) (\<lambda>d.
                 Inr (upd_buf b (b_flags_update (\<lambda>f. f AND NOT B_DIRTY)) (c\<lparr>memdisk := d\<rparr>)))
               else bindE (move_bytes (b_data (bufs c b)) 0 (memdisk c) p BSIZE) (\<lambda>d.
                 Inr (upd_buf b (b_data_update (\<lambda>_. d)) c))) (\<lambda>c.
        Inr (upd_buf b (b_flags_update (\<lambda>f. f OR B_VALID)) c)))"

section \<open>The operations\<close>

definition set_next :: "nat \<Rightarrow> nat \<Rightarrow> bcache \<Rightarrow> bcache" where
  "set_next b x = upd_buf b (b_next_update (\<lambda>_. x))"

definition set_prev :: "nat \<Rightarrow> nat \<Rightarrow> bcache \<Rightarrow> bcache" where
  "set_prev b x = upd_buf b (b_prev_update (\<lambda>_. x))"

text \<open>The assignments that link a buffer behind the head, and those that unlink it.\<close>

definition link_front :: "nat \<Rightarrow> bcache \<Rightarrow> bcache" where
  "link_front b c =
     (let c = set_next b (b_next (bufs c NBUF)) c;
          c = set_prev b NBUF c;
          c = set_prev (b_next (bufs c NBUF)) b c
      in set_next NBUF b c)"

definition unlink :: "nat \<Rightarrow> bcache \<Rightarrow> bcache" where
  "unlink b c =
     (let c = set_prev (b_next (bufs c b)) (b_prev (bufs c b)) c
      in set_next (b_prev (bufs c b)) (b_next (bufs c b)) c)"

definition binit_step :: "nat \<Rightarrow> bcache \<Rightarrow> bcache" where
  "binit_step b c =
     (let c = set_next b (b_next (bufs c NBUF)) c;
          c = set_prev b NBUF c;
          c = upd_buf b (b_lock_update (\<lambda>lk. initsleeplock lk ''buffer'')) c;
          c = set_prev (b_next (bufs c NBUF)) b c
      in set_next NBUF b c)"

definition binit :: "bcache \<Rightarrow> bcache" where
  "binit c = fold binit_step [0..<NBUF] (set_next NBUF NBUF (set_prev NBUF NBUF c))"

text \<open>The two searches; \<open>n\<close> bounds the number of buffers they visit.\<close>

fun find_next :: "bcache \<Rightarrow> (bbuf \<Rightarrow> bool) \<Rightarrow> nat \<Rightarrow> nat \<Rightarrow> nat option result" where
  "find_next c P b 0 = Inl Diverges"
| "find_next c P b (Suc n) =
     (if b = NBUF then Inr None else if P (bufs c b) then Inr (Some b) else find_next c P (b_next (bufs c b)) n)"

fun find_prev :: "bcache \<Rightarrow> (bbuf \<Rightarrow> bool) \<Rightarrow> nat \<Rightarrow> nat \<Rightarrow> nat option result" where
  "find_prev c P b 0 = Inl Diverges"
| "find_prev c P b (Suc n) =
     (if b = NBUF then Inr None else if P (bufs c b) then Inr (Some b) else find_prev c P (b_prev (bufs c b)) n)"

text \<open>The part of \<open>bget\<close> under the lock of the cache.\<close>

definition bget_search :: "u32 \<Rightarrow> u32 \<Rightarrow> bcache \<Rightarrow> (nat \<times> bcache) result" where
  "bget_search dev blockno c =
     bindE (find_next c (\<lambda>b. b_dev b = dev \<and> b_blockno b = blockno) (b_next (bufs c NBUF)) (NBUF + 1)) (\<lambda>r.
     case r of
       Some b \<Rightarrow> Inr (b, upd_buf b (b_refcnt_update (\<lambda>r. r + 1)) c)
     | None \<Rightarrow>
        bindE (find_prev c (\<lambda>b. b_refcnt b = 0 \<and> \<not> dirty b) (b_prev (bufs c NBUF)) (NBUF + 1)) (\<lambda>r.
        case r of
          Some b \<Rightarrow> Inr (b, upd_buf b (\<lambda>x. x\<lparr>b_dev := dev, b_blockno := blockno, b_flags := 0, b_refcnt := 1\<rparr>) c)
        | None \<Rightarrow> Inl (Panic ''bget: no buffers'')))"

definition lock_buf :: "int \<Rightarrow> nat \<Rightarrow> bcache \<Rightarrow> bcache result" where
  "lock_buf pid b c = bindE (acquiresleep pid (b_lock (bufs c b))) (\<lambda>lk. Inr (upd_buf b (b_lock_update (\<lambda>_. lk)) c))"

definition bget :: "int \<Rightarrow> u32 \<Rightarrow> u32 \<Rightarrow> bcache \<Rightarrow> (nat \<times> bcache) result" where
  "bget pid dev blockno c =
     bindE (bget_search dev blockno c) (\<lambda>(b, c). bindE (lock_buf pid b c) (\<lambda>c. Inr (b, c)))"

definition bread_fill :: "int \<Rightarrow> nat \<Rightarrow> bcache \<Rightarrow> bcache result" where
  "bread_fill pid b c = (if \<not> valid (bufs c b) then iderw pid b c else Inr c)"

definition bread :: "int \<Rightarrow> u32 \<Rightarrow> u32 \<Rightarrow> bcache \<Rightarrow> (nat \<times> bcache) result" where
  "bread pid dev blockno c =
     bindE (bget pid dev blockno c) (\<lambda>(b, c). bindE (bread_fill pid b c) (\<lambda>c. Inr (b, c)))"

definition bwrite :: "int \<Rightarrow> nat \<Rightarrow> bcache \<Rightarrow> bcache result" where
  "bwrite pid b c =
     (if \<not> holdingsleep pid (b_lock (bufs c b)) then Inl (Panic ''bwrite'')
      else iderw pid b (upd_buf b (b_flags_update (\<lambda>f. f OR B_DIRTY)) c))"

text \<open>\<open>brelse\<close> up to the release of the buffer, and its part under the lock of the cache.\<close>

definition unlock_buf :: "int \<Rightarrow> nat \<Rightarrow> bcache \<Rightarrow> bcache result" where
  "unlock_buf pid b c =
     (if \<not> holdingsleep pid (b_lock (bufs c b)) then Inl (Panic ''brelse'')
      else Inr (upd_buf b (b_lock_update releasesleep) c))"

definition drop_buf :: "nat \<Rightarrow> bcache \<Rightarrow> bcache" where
  "drop_buf b c =
     (let c = upd_buf b (b_refcnt_update (\<lambda>r. r - 1)) c
      in if b_refcnt (bufs c b) = 0 then link_front b (unlink b c) else c)"

definition brelse :: "int \<Rightarrow> nat \<Rightarrow> bcache \<Rightarrow> bcache result" where
  "brelse pid b c = bindE (unlock_buf pid b c) (\<lambda>c. Inr (drop_buf b c))"

section \<open>The ring\<close>

text \<open>\<open>xs\<close> are the nodes that a link field visits from \<open>a\<close> to \<open>z\<close>.\<close>

fun chain :: "(nat \<Rightarrow> nat) \<Rightarrow> nat \<Rightarrow> nat list \<Rightarrow> nat \<Rightarrow> bool" where
  "chain f a [] z \<longleftrightarrow> f a = z"
| "chain f a (x # xs) z \<longleftrightarrow> f a = x \<and> chain f x xs z"

definition nexts :: "bcache \<Rightarrow> nat \<Rightarrow> nat" where "nexts c b = b_next (bufs c b)"
definition prevs :: "bcache \<Rightarrow> nat \<Rightarrow> nat" where "prevs c b = b_prev (bufs c b)"

definition lru :: "bcache \<Rightarrow> nat list \<Rightarrow> bool" where
  "lru c xs \<longleftrightarrow> distinct xs \<and> set xs = {..<NBUF} \<and> chain (nexts c) NBUF xs NBUF \<and> chain (prevs c) NBUF (rev xs) NBUF"

lemma chain_append: "chain f a (xs @ y # ys) z \<longleftrightarrow> chain f a xs y \<and> chain f y ys z"
  by (induction xs arbitrary: a) auto

lemma chain_cong: "(\<And>x. x \<in> set (a # xs) \<Longrightarrow> f x = g x) \<Longrightarrow> chain f a xs z = chain g a xs z"
  by (induction xs arbitrary: a) auto

lemma chain_upd_other: "y \<notin> set (a # xs) \<Longrightarrow> chain (f(y := v)) a xs z = chain f a xs z"
  by (rule chain_cong) auto

lemma chain_last: "chain f a xs z \<Longrightarrow> f (last (a # xs)) = z"
  by (induction xs arbitrary: a) (auto split: if_splits)

lemma chain_redirect:
  "distinct (a # xs) \<Longrightarrow> chain f a xs y \<Longrightarrow> chain (f(last (a # xs) := z)) a xs z"
proof (induction xs arbitrary: a)
  case Nil
  then show ?case by simp
next
  case (Cons x xs)
  have "distinct (x # xs)" and "chain f x xs y" using Cons.prems by simp_all
  from Cons.IH [OF this] have "chain (f(last (x # xs) := z)) x xs z" .
  moreover have "a \<noteq> last (x # xs)" using Cons.prems(1) last_in_set [of "x # xs"] by auto
  ultimately show ?case using Cons.prems by (simp add: fun_upd_def)
qed

lemma chain_first: "chain f a xs z \<Longrightarrow> f a = hd (xs @ [z])"
  by (cases xs) auto

text \<open>Unlinking \<open>b\<close>, and linking it behind the head, in one direction.\<close>

lemma chain_unlink:
  assumes "distinct (a # us @ b # vs)" and "chain f a (us @ b # vs) z"
  shows "chain (f(last (a # us) := f b)) a (us @ vs) z"
proof -
  have ab: "chain f a us b" and bz: "chain f b vs z" using assms(2) by (simp_all add: chain_append)
  have d: "distinct (a # us)" using assms(1) by simp
  show ?thesis
  proof (cases vs)
    case Nil
    then have "f b = z" using bz by simp
    then show ?thesis using chain_redirect [OF d ab, of z] Nil by simp
  next
    case (Cons v vs')
    then have fb: "f b = v" and vz: "chain f v vs' z" using bz by simp_all
    have "last (a # us) \<notin> set (v # vs')"
      using assms(1) Cons last_in_set [of "a # us"] by auto
    then have "chain (f(last (a # us) := f b)) v vs' z" using vz by (subst chain_upd_other) auto
    then show ?thesis using chain_redirect [OF d ab, of v] Cons by (simp add: chain_append fb)
  qed
qed

lemma chain_front:
  assumes "distinct (a # b # xs)" and "chain f a xs z"
  shows "chain (f(b := f a, a := b)) a (b # xs) z"
proof (cases xs)
  case Nil
  then show ?thesis using assms by auto
next
  case (Cons x ys)
  then have "chain (f(b := f a, a := b)) x ys z" using assms by (subst chain_cong [where g = f]) auto
  then show ?thesis using assms Cons by auto
qed

lemma chain_back:
  assumes "distinct (a # b # xs)" and "chain f a (rev xs) z" and "a = z"
  shows "chain (f(b := a, hd (xs @ [a]) := b)) a (rev (b # xs)) z"
proof (cases xs)
  case Nil
  then show ?thesis using assms by auto
next
  case (Cons x ys)
  then have "chain f a (rev ys @ [x]) z" using assms(2) by simp
  then have ax: "chain f a (rev ys) x" by (simp only: chain_append)
  have "chain (f(b := a, x := b)) a (rev ys) x"
    using ax assms(1) Cons by (subst chain_cong [where g = f]) auto
  moreover have "b \<noteq> x" using assms(1) Cons by auto
  ultimately show ?thesis using Cons assms(3) by (auto simp: chain_append)
qed

lemma links_simps [simp]:
  "nexts (set_next b x c) = (nexts c)(b := x)" "prevs (set_next b x c) = prevs c"
  "prevs (set_prev b x c) = (prevs c)(b := x)" "nexts (set_prev b x c) = nexts c"
  by (auto simp: nexts_def prevs_def set_next_def set_prev_def upd_buf_def fun_eq_iff)

lemma links_upd_buf:
  assumes "\<And>x. b_next (f x) = b_next x" and "\<And>x. b_prev (f x) = b_prev x"
  shows "nexts (upd_buf b f c) = nexts c" and "prevs (upd_buf b f c) = prevs c"
  using assms by (auto simp: nexts_def prevs_def upd_buf_def fun_eq_iff)

lemma lru_cong: "nexts c = nexts c' \<Longrightarrow> prevs c = prevs c' \<Longrightarrow> lru c xs = lru c' xs"
  by (simp add: lru_def)

lemma links_fold: "b_next (bufs c b) = nexts c b" "b_prev (bufs c b) = prevs c b"
  by (simp_all add: nexts_def prevs_def)

lemma link_front_links:
  assumes "b \<noteq> NBUF"
  shows "nexts (link_front b c) = (nexts c)(b := nexts c NBUF, NBUF := b)"
    and "prevs (link_front b c) = (prevs c)(b := NBUF, nexts c NBUF := b)"
  using assms by (simp_all add: link_front_def links_fold Let_def)

lemma unlink_links:
  assumes "nexts c b \<noteq> b"
  shows "nexts (unlink b c) = (nexts c)(prevs c b := nexts c b)"
    and "prevs (unlink b c) = (prevs c)(nexts c b := prevs c b)"
  using assms by (simp_all add: unlink_def links_fold Let_def)

lemma lru_neighbours:
  assumes "lru c (us @ b # vs)"
  shows "nexts c b = hd (vs @ [NBUF])" and "prevs c b = last (NBUF # us)" and "nexts c b \<noteq> b"
proof -
  have n: "chain (nexts c) b vs NBUF" and p: "chain (prevs c) NBUF (rev vs @ b # rev us) NBUF"
    using assms by (simp_all add: lru_def chain_append)
  show nx: "nexts c b = hd (vs @ [NBUF])" using chain_first [OF n] .
  have "chain (prevs c) b (rev us) NBUF" using p by (simp add: chain_append)
  from chain_first [OF this] show "prevs c b = last (NBUF # us)" by (cases us rule: rev_cases) auto
  have "b \<in> {..<NBUF}" "b \<notin> set vs" using assms by (auto simp: lru_def)
  then show "nexts c b \<noteq> b" by (cases vs) (auto simp: nx)
qed

lemma lru_move_front:
  assumes "lru c (us @ b # vs)"
  shows "lru (link_front b (unlink b c)) (b # us @ vs)"
proof -
  note nb = lru_neighbours [OF assms]
  have d: "distinct (us @ b # vs)" and s: "set (us @ b # vs) = {..<NBUF}"
    and n: "chain (nexts c) NBUF (us @ b # vs) NBUF" and p: "chain (prevs c) NBUF (rev vs @ b # rev us) NBUF"
    using assms by (simp_all add: lru_def)
  have out: "NBUF \<notin> set (us @ b # vs)" unfolding s by simp
  then have b: "b \<noteq> NBUF" by auto
  let ?c = "unlink b c"
  have n': "chain (nexts ?c) NBUF (us @ vs) NBUF"
    using chain_unlink [OF _ n] d out by (simp add: unlink_links [OF nb(3)] nb)
  have "chain ((prevs c)(last (NBUF # rev vs) := prevs c b)) NBUF (rev vs @ rev us) NBUF"
    using chain_unlink [OF _ p] d out by (auto simp del: last.simps)
  moreover have "last (NBUF # rev vs) = nexts c b" by (cases vs) (auto simp: nb)
  ultimately have p': "chain (prevs ?c) NBUF (rev (us @ vs)) NBUF" by (simp add: unlink_links [OF nb(3)])
  have d': "distinct (NBUF # b # us @ vs)" using d out b by auto
  have "chain (nexts (link_front b ?c)) NBUF (b # us @ vs) NBUF"
    using chain_front [OF d' n'] by (simp add: link_front_links [OF b])
  moreover have "chain (prevs (link_front b ?c)) NBUF (rev (b # us @ vs)) NBUF"
    using chain_back [OF d' p' refl] by (simp add: link_front_links [OF b] chain_first [OF n'])
  ultimately show ?thesis using d s by (auto simp: lru_def)
qed

lemma find_next_chain:
  assumes "chain (nexts c) a xs NBUF" and "NBUF \<notin> set xs" and "length xs < n"
  shows "find_next c P (nexts c a) n = Inr (find (\<lambda>b. P (bufs c b)) xs)"
  using assms
proof (induction xs arbitrary: a n)
  case Nil
  then show ?case by (cases n) auto
next
  case (Cons x xs)
  then obtain k where k: "n = Suc k" "length xs < k" by (cases n) auto
  have "find_next c P (nexts c x) k = Inr (find (\<lambda>b. P (bufs c b)) xs)"
    using Cons.IH [of x k] Cons.prems k(2) by simp
  then show ?case using Cons.prems k by (auto simp: links_fold)
qed

lemma find_prev_chain:
  assumes "chain (prevs c) a xs NBUF" and "NBUF \<notin> set xs" and "length xs < n"
  shows "find_prev c P (prevs c a) n = Inr (find (\<lambda>b. P (bufs c b)) xs)"
  using assms
proof (induction xs arbitrary: a n)
  case Nil
  then show ?case by (cases n) auto
next
  case (Cons x xs)
  then obtain k where k: "n = Suc k" "length xs < k" by (cases n) auto
  have "find_prev c P (prevs c x) k = Inr (find (\<lambda>b. P (bufs c b)) xs)"
    using Cons.IH [of x k] Cons.prems k(2) by simp
  then show ?case using Cons.prems k by (auto simp: links_fold)
qed

lemma lru_length: "lru c xs \<Longrightarrow> length xs = NBUF"
  using distinct_card [of xs] by (auto simp: lru_def)

lemma lru_searches:
  assumes "lru c xs"
  shows "find_next c P (b_next (bufs c NBUF)) (NBUF + 1) = Inr (find (\<lambda>b. P (bufs c b)) xs)"
    and "find_prev c P (b_prev (bufs c NBUF)) (NBUF + 1) = Inr (find (\<lambda>b. P (bufs c b)) (rev xs))"
  using assms lru_length [OF assms]
  by (simp_all add: lru_def links_fold find_next_chain find_prev_chain del: find_next.simps find_prev.simps)

text \<open>The ring that \<open>binit\<close> builds: the last buffer of the array comes first.\<close>

lemma binit_ring:
  assumes "m \<le> NBUF" and "c' = fold binit_step [0..<m] (set_next NBUF NBUF (set_prev NBUF NBUF c))"
  shows "chain (nexts c') NBUF (rev [0..<m]) NBUF \<and> chain (prevs c') NBUF [0..<m] NBUF"
  using assms
proof (induction m arbitrary: c')
  case 0
  then show ?case by simp
next
  case (Suc m)
  define d where "d = fold binit_step [0..<m] (set_next NBUF NBUF (set_prev NBUF NBUF c))"
  have IH: "chain (nexts d) NBUF (rev [0..<m]) NBUF" "chain (prevs d) NBUF (rev (rev [0..<m])) NBUF"
    using Suc.IH [OF _ d_def] Suc.prems(1) by simp_all
  have c': "c' = binit_step m d" using Suc.prems(2) by (simp add: d_def)
  have m: "m \<noteq> NBUF" using Suc.prems(1) by simp
  have links: "nexts c' = (nexts d)(m := nexts d NBUF, NBUF := m) \<and> prevs c' = (prevs d)(m := NBUF, hd (rev [0..<m] @ [NBUF]) := m)"
    unfolding chain_first [OF IH(1), symmetric] using m unfolding c' by (simp add: binit_step_def links_fold Let_def links_upd_buf)
  have dist: "distinct (NBUF # m # rev [0..<m])" using Suc.prems(1) by auto
  have upt: "rev [0..<Suc m] = m # rev [0..<m]" "[0..<Suc m] = rev (m # rev [0..<m])" by simp_all
  show ?case unfolding upt links [THEN conjunct1] links [THEN conjunct2]
    using chain_front [OF dist IH(1)] chain_back [OF dist IH(2) refl] by (simp only: rev_rev_ident simp_thms)
qed

lemma binit_lru: "lru (binit c) (rev [0..<NBUF])"
  using binit_ring [OF order_refl, of "binit c"] by (auto simp: lru_def binit_def)

end
