(* ===== verification/Xv6_Cache.thy ===== *)
theory Xv6_Cache
  imports Xv6_Bio
begin

text \<open>
  The buffer cache of \<open>bio.c\<close> under every interleaving of processes that use it: the steps are
  the locked sections of the operations of \<open>Xv6_Bio\<close>, and a client that changes a buffer marks it
  dirty (as \<open>log_write\<close> does) or writes it before it releases it.
\<close>

section \<open>The disk\<close>

definition disk_ok :: "bcache \<Rightarrow> bool" where
  "disk_ok c \<longleftrightarrow> unat (disksize c) * BSIZE \<le> length (memdisk c) \<and> length (memdisk c) < 2 ^ 32"

definition disk_block :: "bcache \<Rightarrow> u32 \<Rightarrow> block" where
  "disk_block c n = take BSIZE (drop (unat n * BSIZE) (memdisk c))"

lemma block_offset:
  assumes "disk_ok c" and "n < disksize c"
  shows "unat (n * word_of_nat BSIZE) = unat n * BSIZE" and "unat n * BSIZE + BSIZE \<le> length (memdisk c)"
proof -
  have "unat n + 1 \<le> unat (disksize c)" using assms(2) by (simp add: word_less_nat_alt)
  then have "(unat n + 1) * BSIZE \<le> unat (disksize c) * BSIZE" by (rule mult_right_mono) simp
  then show le: "unat n * BSIZE + BSIZE \<le> length (memdisk c)" using assms(1) by (simp add: disk_ok_def)
  then have "unat n * BSIZE < 2 ^ 32" using assms(1) by (simp add: disk_ok_def BSIZE_def)
  then show "unat (n * word_of_nat BSIZE) = unat n * BSIZE"
    by (simp add: unat_word_ariths unat_of_nat BSIZE_def)
qed

lemma length_disk_block: "disk_ok c \<Longrightarrow> n < disksize c \<Longrightarrow> length (disk_block c n) = BSIZE"
  using block_offset(2) [of c n] by (simp add: disk_block_def)

lemma disk_block_overwrite:
  assumes "disk_ok c" and "n < disksize c" and "m < disksize c" and "length d = BSIZE"
  shows "take BSIZE (drop (unat m * BSIZE) (overwrite (memdisk c) (unat n * BSIZE) d)) = (if m = n then d else disk_block c m)"
proof -
  note bn = block_offset(2) [OF assms(1,2)] and bm = block_offset(2) [OF assms(1,3)]
  have "unat m * BSIZE + BSIZE \<le> unat n * BSIZE \<or> unat n * BSIZE + BSIZE \<le> unat m * BSIZE" if "m \<noteq> n"
  proof -
    have "unat m + 1 \<le> unat n \<or> unat n + 1 \<le> unat m" using that by (metis Suc_eq_plus1 nat_neq_iff not_less_eq_eq not_le unsigned_word_eqI)
    then have "(unat m + 1) * BSIZE \<le> unat n * BSIZE \<or> (unat n + 1) * BSIZE \<le> unat m * BSIZE"
      by (metis mult_le_mono1)
    then show ?thesis by (simp add: add.commute)
  qed
  then show ?thesis
    by (intro nth_equalityI) (use bn bm assms(4) in \<open>auto simp: disk_block_def nth_overwrite\<close>)
qed

section \<open>Flags\<close>

lemma flag_bit:
  "f AND B_VALID = 0 \<longleftrightarrow> \<not> bit f 1" "f AND B_DIRTY = 0 \<longleftrightarrow> \<not> bit f 2"
  using and_exp_eq_0_iff_not_bit [of f 1] and_exp_eq_0_iff_not_bit [of f 2]
  by (simp_all add: B_VALID_def B_DIRTY_def)

lemma flag_values: "bit B_VALID n \<longleftrightarrow> n = 1" "bit B_DIRTY n \<longleftrightarrow> n = 2"
  using bit_exp_iff [where 'a = "32 word", of 1 n] bit_exp_iff [where 'a = "32 word", of 2 n]
  by (auto simp: B_VALID_def B_DIRTY_def)

lemma nothing_to_do: "f AND (B_VALID OR B_DIRTY) = B_VALID \<longleftrightarrow> f AND B_VALID \<noteq> 0 \<and> f AND B_DIRTY = 0"
proof
  assume "f AND (B_VALID OR B_DIRTY) = B_VALID"
  then have "bit (f AND (B_VALID OR B_DIRTY)) n = bit B_VALID n" for n by simp
  from this [of 1] this [of 2] show "f AND B_VALID \<noteq> 0 \<and> f AND B_DIRTY = 0"
    by (simp add: bit_simps flag_values flag_bit)
next
  assume "f AND B_VALID \<noteq> 0 \<and> f AND B_DIRTY = 0"
  then show "f AND (B_VALID OR B_DIRTY) = B_VALID"
    by (intro bit_word_eqI) (auto simp: bit_simps flag_values flag_bit)
qed

lemma flags_nonzero [simp]: "B_VALID \<noteq> 0" "B_DIRTY \<noteq> 0"
  by (simp_all add: B_VALID_def B_DIRTY_def)

lemma flag_ops [simp]:
  "(f OR B_VALID) AND B_VALID \<noteq> 0" "(f OR B_VALID) AND B_DIRTY = 0 \<longleftrightarrow> f AND B_DIRTY = 0"
  "(f OR B_DIRTY) AND B_DIRTY \<noteq> 0" "(f OR B_DIRTY) AND B_VALID = 0 \<longleftrightarrow> f AND B_VALID = 0"
  "(f AND NOT B_DIRTY) AND B_DIRTY = 0" "(f AND NOT B_DIRTY) AND B_VALID = 0 \<longleftrightarrow> f AND B_VALID = 0"
  unfolding flag_bit by (auto simp: bit_simps flag_values)

section \<open>Processes that use the cache\<close>

text \<open>
  Where a process is: outside, waiting for the lock of a buffer, with the locked buffer before its
  data is read, with the data, with data it has changed, and after it has unlocked the buffer.
\<close>

datatype phase = Out | Waiting nat | Locked nat | Held nat | Changed nat | Leaving nat

fun refers :: "phase \<Rightarrow> nat \<Rightarrow> bool" where
  "refers Out b = False"
| "refers (Waiting x) b = (x = b)"
| "refers (Locked x) b = (x = b)"
| "refers (Held x) b = (x = b)"
| "refers (Changed x) b = (x = b)"
| "refers (Leaving x) b = (x = b)"

fun locks :: "phase \<Rightarrow> nat \<Rightarrow> bool" where
  "locks (Locked x) b = (x = b)"
| "locks (Held x) b = (x = b)"
| "locks (Changed x) b = (x = b)"
| "locks _ b = False"

fun has_data :: "phase \<Rightarrow> nat \<Rightarrow> bool" where
  "has_data (Held x) b = (x = b)"
| "has_data (Changed x) b = (x = b)"
| "has_data _ b = False"

lemma locks_refers:
  "locks ph b \<Longrightarrow> refers ph b" "has_data ph b \<Longrightarrow> locks ph b" "has_data ph b \<Longrightarrow> refers ph b"
  by (cases ph; simp)+

type_synonym clients = "bcache \<times> (int \<Rightarrow> phase)"

inductive bio_step :: "int set \<Rightarrow> clients \<Rightarrow> clients \<Rightarrow> bool" for P where
  ask: "\<lbrakk>p \<in> P; ph p = Out; n < disksize c; bget_search 1 n c = Inr (b, c')\<rbrakk>
    \<Longrightarrow> bio_step P (c, ph) (c', ph(p := Waiting b))"
| lock: "\<lbrakk>p \<in> P; ph p = Waiting b; lock_buf p b c = Inr c'\<rbrakk> \<Longrightarrow> bio_step P (c, ph) (c', ph(p := Locked b))"
| fill: "\<lbrakk>p \<in> P; ph p = Locked b; bread_fill p b c = Inr c'\<rbrakk> \<Longrightarrow> bio_step P (c, ph) (c', ph(p := Held b))"
| change: "\<lbrakk>p \<in> P; has_data (ph p) b; length d = BSIZE\<rbrakk>
    \<Longrightarrow> bio_step P (c, ph) (upd_buf b (b_data_update (\<lambda>_. d)) c, ph(p := Changed b))"
| mark: "\<lbrakk>p \<in> P; has_data (ph p) b\<rbrakk>
    \<Longrightarrow> bio_step P (c, ph) (upd_buf b (b_flags_update (\<lambda>f. f OR B_DIRTY)) c, ph(p := Held b))"
| flush: "\<lbrakk>p \<in> P; has_data (ph p) b; bwrite p b c = Inr c'\<rbrakk> \<Longrightarrow> bio_step P (c, ph) (c', ph(p := Held b))"
| unlock: "\<lbrakk>p \<in> P; ph p = Held b; unlock_buf p b c = Inr c'\<rbrakk> \<Longrightarrow> bio_step P (c, ph) (c', ph(p := Leaving b))"
| leave: "\<lbrakk>p \<in> P; ph p = Leaving b\<rbrakk> \<Longrightarrow> bio_step P (c, ph) (drop_buf b c, ph(p := Out))"

section \<open>The invariant\<close>

text \<open>Of one buffer and the processes that refer to it.\<close>

definition ref_ok :: "int set \<Rightarrow> bcache \<Rightarrow> (int \<Rightarrow> phase) \<Rightarrow> nat \<Rightarrow> bool" where
  "ref_ok P c ph b \<longleftrightarrow> unat (b_refcnt (bufs c b)) = card {p \<in> P. refers (ph p) b}"

definition lock_ok :: "int set \<Rightarrow> bcache \<Rightarrow> (int \<Rightarrow> phase) \<Rightarrow> nat \<Rightarrow> bool" where
  "lock_ok P c ph b \<longleftrightarrow>
     (sl_locked (b_lock (bufs c b)) \<noteq> 0 \<longleftrightarrow> (\<exists>p \<in> P. locks (ph p) b)) \<and>
     (\<forall>p \<in> P. locks (ph p) b \<longrightarrow> sl_pid (b_lock (bufs c b)) = p)"

definition data_ok :: "int set \<Rightarrow> bcache \<Rightarrow> (int \<Rightarrow> phase) \<Rightarrow> nat \<Rightarrow> bool" where
  "data_ok P c ph b \<longleftrightarrow>
     length (b_data (bufs c b)) = BSIZE \<and>
     (dirty (bufs c b) \<longrightarrow> valid (bufs c b)) \<and>
     (\<forall>p \<in> P. has_data (ph p) b \<longrightarrow> valid (bufs c b)) \<and>
     (valid (bufs c b) \<or> (\<exists>p \<in> P. refers (ph p) b) \<longrightarrow> b_dev (bufs c b) = 1) \<and>
     (b_dev (bufs c b) = 1 \<longrightarrow> b_blockno (bufs c b) < disksize c) \<and>
     (valid (bufs c b) \<and> \<not> dirty (bufs c b) \<and> (\<forall>p \<in> P. ph p \<noteq> Changed b) \<longrightarrow>
        b_data (bufs c b) = disk_block c (b_blockno (bufs c b)))"

definition buf_ok :: "int set \<Rightarrow> bcache \<Rightarrow> (int \<Rightarrow> phase) \<Rightarrow> nat \<Rightarrow> bool" where
  "buf_ok P c ph b \<longleftrightarrow> ref_ok P c ph b \<and> lock_ok P c ph b \<and> data_ok P c ph b"

definition one_buf :: "bcache \<Rightarrow> bool" where
  "one_buf c \<longleftrightarrow> (\<forall>i < NBUF. \<forall>j < NBUF. b_dev (bufs c i) = 1 \<and> b_dev (bufs c j) = 1 \<and>
     b_blockno (bufs c i) = b_blockno (bufs c j) \<longrightarrow> i = j)"

definition cache_inv :: "int set \<Rightarrow> clients \<Rightarrow> bool" where
  "cache_inv P s \<longleftrightarrow> (case s of (c, ph) \<Rightarrow>
     disk_ok c \<and> (\<exists>xs. lru c xs) \<and> one_buf c \<and> (\<forall>p \<in> P. \<forall>b. refers (ph p) b \<longrightarrow> b < NBUF) \<and>
     (\<forall>b < NBUF. buf_ok P c ph b))"

text \<open>The contents of a block as the processes see it: in its buffer, or else on the disk.\<close>

definition view :: "bcache \<Rightarrow> u32 \<Rightarrow> block" where
  "view c n = (case find (\<lambda>b. b_dev (bufs c b) = 1 \<and> b_blockno (bufs c b) = n \<and> valid (bufs c b)) [0..<NBUF] of
     Some b \<Rightarrow> b_data (bufs c b) | None \<Rightarrow> disk_block c n)"

subsection \<open>What a step leaves alone\<close>

definition same_buf :: "bbuf \<Rightarrow> bbuf \<Rightarrow> bool" where
  "same_buf x y \<longleftrightarrow> b_flags x = b_flags y \<and> b_dev x = b_dev y \<and> b_blockno x = b_blockno y \<and> b_lock x = b_lock y \<and>
     b_refcnt x = b_refcnt y \<and> b_data x = b_data y"

lemma same_buf_refl [simp]: "same_buf x x" by (simp add: same_buf_def)

lemma buf_ok_other:
  assumes "buf_ok P c ph b" and "same_buf (bufs c' b) (bufs c b)" and "disksize c' = disksize c"
    and "b_dev (bufs c b) = 1 \<Longrightarrow> disk_block c' (b_blockno (bufs c b)) = disk_block c (b_blockno (bufs c b))"
    and "p \<in> P \<Longrightarrow> \<not> refers (ph p) b" and "p \<in> P \<Longrightarrow> \<not> refers x b"
  shows "buf_ok P c' (ph(p := x)) b"
proof -
  have eq: "refers ((ph(p := x)) q) b = refers (ph q) b" "locks ((ph(p := x)) q) b = locks (ph q) b"
    "has_data ((ph(p := x)) q) b = has_data (ph q) b" "((ph(p := x)) q = Changed b) = (ph q = Changed b)" if "q \<in> P" for q
    using that assms(5,6) by (auto dest: locks_refers)
  have "{q \<in> P. refers ((ph(p := x)) q) b} = {q \<in> P. refers (ph q) b}" using eq by blast
  then have "ref_ok P c' (ph(p := x)) b" using assms(1,2) by (simp add: buf_ok_def ref_ok_def same_buf_def)
  moreover have "lock_ok P c' (ph(p := x)) b"
    using assms(1,2) eq by (auto simp: buf_ok_def lock_ok_def same_buf_def simp del: fun_upd_apply)
  moreover have "data_ok P c' (ph(p := x)) b"
    using assms(1-4) eq by (auto simp: buf_ok_def data_ok_def same_buf_def b_set_def simp del: fun_upd_apply)
  ultimately show ?thesis by (simp add: buf_ok_def)
qed

lemma inv_step:
  assumes "cache_inv P (c, ph)" and "b < NBUF" and "\<exists>xs. lru c' xs" and "disk_ok c'" and "disksize c' = disksize c"
    and "\<And>i. i < NBUF \<Longrightarrow> i \<noteq> b \<Longrightarrow> same_buf (bufs c' i) (bufs c i)"
    and "\<And>i. i < NBUF \<Longrightarrow> i \<noteq> b \<Longrightarrow> b_dev (bufs c i) = 1 \<Longrightarrow>
      disk_block c' (b_blockno (bufs c i)) = disk_block c (b_blockno (bufs c i))"
    and "one_buf c'" and "\<And>i. refers (ph p) i \<or> refers x i \<Longrightarrow> i = b" and "buf_ok P c' (ph(p := x)) b"
  shows "cache_inv P (c', ph(p := x))"
proof -
  have "buf_ok P c' (ph(p := x)) i" if "i < NBUF" "i \<noteq> b" for i
    using that assms(1,5,6,7,9) by (intro buf_ok_other [of P c ph i c' p x]) (auto simp: cache_inv_def)
  with assms show ?thesis by (auto simp: cache_inv_def)
qed

lemma one_buf_same:
  assumes "one_buf c" and "\<And>i. i < NBUF \<Longrightarrow> b_dev (bufs c' i) = b_dev (bufs c i) \<and> b_blockno (bufs c' i) = b_blockno (bufs c i)"
  shows "one_buf c'"
  using assms by (auto simp: one_buf_def)

text \<open>The usual step: one buffer changes, but neither its block nor its links, and not the disk.\<close>

lemma inv_upd:
  assumes inv: "cache_inv P (c, ph)" and "b < NBUF"
    and f: "\<And>x. b_next (f x) = b_next x" "\<And>x. b_prev (f x) = b_prev x" "\<And>x. b_dev (f x) = b_dev x" "\<And>x. b_blockno (f x) = b_blockno x"
    and "\<And>i. refers (ph p) i \<or> refers x i \<Longrightarrow> i = b" and "buf_ok P (upd_buf b f c) (ph(p := x)) b"
  shows "cache_inv P (upd_buf b f c, ph(p := x))"
proof (rule inv_step [OF inv assms(2)])
  show "\<exists>xs. lru (upd_buf b f c) xs" using inv by (simp add: cache_inv_def lru_def links_upd_buf f)
  show "disk_ok (upd_buf b f c)" using inv by (simp add: cache_inv_def disk_ok_def upd_buf_def)
  show "one_buf (upd_buf b f c)"
    by (rule one_buf_same [of c]) (use inv f in \<open>auto simp: cache_inv_def upd_buf_def\<close>)
qed (use assms in \<open>auto simp: upd_buf_def disk_block_def\<close>)

lemma bufs_upd [simp]: "bufs (upd_buf b f c) i = (if i = b then f (bufs c b) else bufs c i)"
  "memdisk (upd_buf b f c) = memdisk c" "disksize (upd_buf b f c) = disksize c"
  "disk_block (upd_buf b f c) = disk_block c"
  by (auto simp: upd_buf_def disk_block_def fun_eq_iff)

subsection \<open>The steps keep the invariant\<close>

lemma users_add:
  assumes "finite P" and "p \<in> P" and "\<not> refers (ph p) b" and "refers x b"
  shows "card {q \<in> P. refers ((ph(p := x)) q) b} = Suc (card {q \<in> P. refers (ph q) b})"
proof -
  have "{q \<in> P. refers ((ph(p := x)) q) b} = insert p {q \<in> P. refers (ph q) b}" using assms by auto
  then show ?thesis using assms by simp
qed

lemma users_remove:
  assumes "finite P" and "p \<in> P" and "refers (ph p) b" and "\<not> refers x b"
  shows "card {q \<in> P. refers ((ph(p := x)) q) b} = card {q \<in> P. refers (ph q) b} - 1"
    and "0 < card {q \<in> P. refers (ph q) b}"
proof -
  have "{q \<in> P. refers ((ph(p := x)) q) b} = {q \<in> P. refers (ph q) b} - {p}" using assms by auto
  moreover have p: "p \<in> {q \<in> P. refers (ph q) b}" using assms by simp
  ultimately show "card {q \<in> P. refers ((ph(p := x)) q) b} = card {q \<in> P. refers (ph q) b} - 1" using assms(1) by simp
  show "0 < card {q \<in> P. refers (ph q) b}" using p assms(1) by (auto simp: card_gt_0_iff)
qed

lemma users_same:
  assumes "refers (ph p) b = refers x b"
  shows "{q \<in> P. refers ((ph(p := x)) q) b} = {q \<in> P. refers (ph q) b}"
  using assms by auto

lemma lock_ok_same:
  assumes "lock_ok P c ph b" and "b_lock (bufs c' b) = b_lock (bufs c b)" and "locks (ph p) b = locks x b"
  shows "lock_ok P c' (ph(p := x)) b"
proof -
  have "locks ((ph(p := x)) q) b = locks (ph q) b" for q using assms(3) by simp
  then show ?thesis using assms(1,2) by (simp add: lock_ok_def del: fun_upd_apply)
qed

lemma bget_search_eq:
  assumes "lru c xs"
  shows "bget_search dev n c = (case find (\<lambda>b. b_dev (bufs c b) = dev \<and> b_blockno (bufs c b) = n) xs of
     Some b \<Rightarrow> Inr (b, upd_buf b (b_refcnt_update (\<lambda>r. r + 1)) c)
   | None \<Rightarrow> (case find (\<lambda>b. b_refcnt (bufs c b) = 0 \<and> \<not> dirty (bufs c b)) (rev xs) of
       Some b \<Rightarrow> Inr (b, upd_buf b (\<lambda>x. x\<lparr>b_dev := dev, b_blockno := n, b_flags := 0, b_refcnt := 1\<rparr>) c)
     | None \<Rightarrow> Inl (Panic ''bget: no buffers'')))"
  unfolding bget_search_def lru_searches [OF assms] by (simp split: option.splits)

text \<open>The two ways in which a search succeeds.\<close>

lemma bget_search_cases:
  assumes "lru c xs" and "bget_search dev n c = Inr (b, c')"
  obtains (cached) "b < NBUF" "b_dev (bufs c b) = dev" "b_blockno (bufs c b) = n" "c' = upd_buf b (b_refcnt_update (\<lambda>r. r + 1)) c"
  | (recycled) "b < NBUF" "\<forall>i < NBUF. \<not> (b_dev (bufs c i) = dev \<and> b_blockno (bufs c i) = n)" "b_refcnt (bufs c b) = 0"
      "\<not> dirty (bufs c b)" "c' = upd_buf b (\<lambda>x. x\<lparr>b_dev := dev, b_blockno := n, b_flags := 0, b_refcnt := 1\<rparr>) c"
proof -
  have xs: "set xs = {..<NBUF}" using assms(1) by (simp add: lru_def)
  show thesis
  proof (cases "find (\<lambda>b. b_dev (bufs c b) = dev \<and> b_blockno (bufs c b) = n) xs")
    case (Some i)
    then have "i < NBUF" "b_dev (bufs c i) = dev" "b_blockno (bufs c i) = n" using xs by (auto simp: find_Some_iff)
    then show ?thesis using assms(2) Some by (intro cached) (auto simp: bget_search_eq [OF assms(1)])
  next
    case None
    then have none: "\<forall>i < NBUF. \<not> (b_dev (bufs c i) = dev \<and> b_blockno (bufs c i) = n)" using xs by (auto simp: find_None_iff)
    from None assms(2) obtain i where i: "find (\<lambda>b. b_refcnt (bufs c b) = 0 \<and> \<not> dirty (bufs c b)) (rev xs) = Some i"
      by (auto simp: bget_search_eq [OF assms(1)] split: option.splits)
    then have "i \<in> set (rev xs)" "b_refcnt (bufs c i) = 0" "\<not> dirty (bufs c i)"
      unfolding find_Some_iff by (metis nth_mem)+
    then show ?thesis using none assms(2) None i xs by (intro recycled) (auto simp: bget_search_eq [OF assms(1)])
  qed
qed

lemma ask_cached:
  assumes inv: "cache_inv P (c, ph)" and P: "finite P" "card P < 2 ^ 32" and "p \<in> P" "ph p = Out" "b < NBUF" "b_dev (bufs c b) = 1"
  shows "cache_inv P (upd_buf b (b_refcnt_update (\<lambda>r. r + 1)) c, ph(p := Waiting b))"
proof (rule inv_upd [OF inv assms(6)])
  let ?c = "upd_buf b (b_refcnt_update (\<lambda>r. r + 1)) c" and ?ph = "ph(p := Waiting b)"
  have old: "ref_ok P c ph b" "lock_ok P c ph b" "data_ok P c ph b" using inv assms(6) by (simp_all add: cache_inv_def buf_ok_def)
  let ?n = "card {q \<in> P. refers (ph q) b}"
  have add: "card {q \<in> P. refers (?ph q) b} = Suc ?n" using assms by (intro users_add) auto
  have "Suc ?n \<le> card P" unfolding add [symmetric] using P by (intro card_mono) auto
  then have "unat (b_refcnt (bufs c b) + 1) = Suc ?n"
    using old P by (simp add: ref_ok_def unat_word_ariths)
  then have "ref_ok P ?c ?ph b" unfolding ref_ok_def add by simp
  moreover have "lock_ok P ?c ?ph b" using old(2) assms(5) by (intro lock_ok_same) auto
  moreover have "data_ok P ?c ?ph b" using old(3) assms by (auto simp: data_ok_def b_set_def)
  ultimately show "buf_ok P ?c ?ph b" by (simp add: buf_ok_def)
qed (use assms in auto)

lemma idle_buf:
  assumes "ref_ok P c ph b" and "b_refcnt (bufs c b) = 0" and "finite P" and "p \<in> P"
  shows "\<not> refers (ph p) b"
  using assms by (auto simp: ref_ok_def)

lemma ask_recycled:
  assumes inv: "cache_inv P (c, ph)" and P: "finite P" and p: "p \<in> P" "ph p = Out" and b: "b < NBUF" "b_refcnt (bufs c b) = 0"
    and n: "n < disksize c" "\<forall>i < NBUF. \<not> (b_dev (bufs c i) = 1 \<and> b_blockno (bufs c i) = n)"
  shows "cache_inv P (upd_buf b (\<lambda>x. x\<lparr>b_dev := 1, b_blockno := n, b_flags := 0, b_refcnt := 1\<rparr>) c, ph(p := Waiting b))"
    (is "cache_inv P (?c, ?ph)")
proof (rule inv_step [OF inv b(1)])
  have old: "ref_ok P c ph b" "lock_ok P c ph b" "data_ok P c ph b" using inv b by (simp_all add: cache_inv_def buf_ok_def)
  note idle = idle_buf [OF old(1) b(2) P]
  then have "{q \<in> P. refers (?ph q) b} = {p}" using p by auto
  then have "ref_ok P ?c ?ph b" by (simp add: ref_ok_def)
  moreover have "lock_ok P ?c ?ph b" using old(2) p by (intro lock_ok_same) auto
  moreover have "data_ok P ?c ?ph b" using old(3) idle n(1) by (auto simp: data_ok_def b_set_def dest: locks_refers)
  ultimately show "buf_ok P ?c ?ph b" by (simp add: buf_ok_def)
  show "\<exists>xs. lru ?c xs" using inv by (simp add: cache_inv_def lru_def links_upd_buf)
  show "disk_ok ?c" using inv by (simp add: cache_inv_def disk_ok_def)
  show "one_buf ?c" using inv n(2) by (auto simp: cache_inv_def one_buf_def)
qed (use p in auto)

text \<open>A transfer, for the holder of a buffer of a block on the disk.\<close>

lemma iderw_read:
  assumes "disk_ok c" and "holdingsleep p (b_lock (bufs c b))" and "b_dev (bufs c b) = 1" and "b_blockno (bufs c b) < disksize c"
    and "\<not> valid (bufs c b)" and "\<not> dirty (bufs c b)" and "length (b_data (bufs c b)) = BSIZE"
  shows "iderw p b c = Inr (upd_buf b (\<lambda>x. x\<lparr>b_flags := b_flags x OR B_VALID, b_data := disk_block c (b_blockno x)\<rparr>) c)"
  using assms block_offset [OF assms(1,4)]
  by (cases "bufs c b") (simp add: iderw_def b_set_def nothing_to_do not_le Let_def move_bytes_def overwrite_def disk_block_def upd_buf_def)

lemma iderw_write:
  assumes "disk_ok c" and "holdingsleep p (b_lock (bufs c b))" and "b_dev (bufs c b) = 1" and "b_blockno (bufs c b) < disksize c"
    and "dirty (bufs c b)" and "length (b_data (bufs c b)) = BSIZE"
  shows "iderw p b c = Inr (upd_buf b (\<lambda>x. x\<lparr>b_flags := (b_flags x AND NOT B_DIRTY) OR B_VALID\<rparr>)
    (c\<lparr>memdisk := overwrite (memdisk c) (unat (b_blockno (bufs c b)) * BSIZE) (b_data (bufs c b))\<rparr>))"
  using assms block_offset [OF assms(1,4)]
  by (cases "bufs c b") (simp add: iderw_def b_set_def nothing_to_do not_le Let_def move_bytes_def upd_buf_def)

lemma inv_parts:
  assumes "cache_inv P (c, ph)" and "b < NBUF"
  shows "disk_ok c" "ref_ok P c ph b" "lock_ok P c ph b" "data_ok P c ph b"
  using assms by (simp_all add: cache_inv_def buf_ok_def)

lemma inv_refers: "cache_inv P (c, ph) \<Longrightarrow> p \<in> P \<Longrightarrow> refers (ph p) b \<Longrightarrow> b < NBUF"
  by (auto simp: cache_inv_def)

lemma inv_lru: "cache_inv P (c, ph) \<Longrightarrow> \<exists>xs. lru c xs"
  by (simp add: cache_inv_def)

lemma refers_unique: "refers ph i \<Longrightarrow> refers ph j \<Longrightarrow> i = j"
  by (cases ph) auto

lemma ref_ok_same:
  assumes "ref_ok P c ph b" and "b_refcnt (bufs c' b) = b_refcnt (bufs c b)" and "refers (ph p) b = refers x b"
  shows "ref_ok P c' (ph(p := x)) b"
  using assms users_same [of ph p b x P] by (simp add: ref_ok_def del: fun_upd_apply)

lemma refers_dev: "data_ok P c ph b \<Longrightarrow> p \<in> P \<Longrightarrow> refers (ph p) b \<Longrightarrow> b_dev (bufs c b) = 1"
  by (auto simp: data_ok_def)

lemma holder:
  assumes "cache_inv P (c, ph)" and "p \<in> P" and "locks (ph p) b"
  shows "b < NBUF" and "holdingsleep p (b_lock (bufs c b))" and "b_dev (bufs c b) = 1" and "b_blockno (bufs c b) < disksize c"
    and "\<And>q. q \<in> P \<Longrightarrow> locks (ph q) b \<Longrightarrow> q = p"
proof -
  show b: "b < NBUF" using inv_refers [OF assms(1,2)] locks_refers(1) [OF assms(3)] by simp
  note ok = inv_parts [OF assms(1) b]
  show "holdingsleep p (b_lock (bufs c b))" using ok(3) assms(2,3) by (auto simp: lock_ok_def holdingsleep_def)
  show dev: "b_dev (bufs c b) = 1" using ok(4) assms(2) locks_refers(1) [OF assms(3)] by (auto simp: data_ok_def)
  show "b_blockno (bufs c b) < disksize c" using ok(4) dev by (simp add: data_ok_def)
  show "\<And>q. q \<in> P \<Longrightarrow> locks (ph q) b \<Longrightarrow> q = p" using ok(3) assms(2,3) by (auto simp: lock_ok_def)
qed

lemma lock_inv_step:
  assumes inv: "cache_inv P (c, ph)" and p: "p \<in> P" "ph p = Waiting b" and "lock_buf p b c = Inr c'"
  shows "cache_inv P (c', ph(p := Locked b))"
proof -
  have b: "b < NBUF" using inv_refers [OF inv p(1)] p(2) by simp
  have free: "sl_locked (b_lock (bufs c b)) = 0"
    and c': "c' = upd_buf b (b_lock_update (\<lambda>_. (b_lock (bufs c b))\<lparr>sl_locked := 1, sl_pid := p\<rparr>)) c"
    using assms(4) by (auto simp: lock_buf_def acquiresleep_def split: if_splits)
  note ok = inv_parts [OF inv b]
  show ?thesis unfolding c'
  proof (rule inv_upd [OF inv b])
    let ?c = "upd_buf b (b_lock_update (\<lambda>_. (b_lock (bufs c b))\<lparr>sl_locked := 1, sl_pid := p\<rparr>)) c" and ?ph = "ph(p := Locked b)"
    have "ref_ok P ?c ?ph b" using ok(2) p by (intro ref_ok_same) auto
    moreover have "lock_ok P ?c ?ph b" using ok(3) free p(1) by (auto simp: lock_ok_def)
    moreover have "b_dev (bufs c b) = 1" using refers_dev [OF ok(4) p(1)] p(2) by simp
    then have "data_ok P ?c ?ph b" using ok(4) p by (auto simp: data_ok_def b_set_def)
    ultimately show "buf_ok P ?c ?ph b" by (simp add: buf_ok_def)
  qed (use p in auto)
qed

text \<open>A step of the holder of a buffer that changes only its flags and its data.\<close>

lemma holder_step:
  assumes inv: "cache_inv P (c, ph)" and p: "p \<in> P" "locks (ph p) b" "locks x b"
    and f: "\<And>x. b_next (f x) = b_next x" "\<And>x. b_prev (f x) = b_prev x" "\<And>x. b_dev (f x) = b_dev x" "\<And>x. b_blockno (f x) = b_blockno x"
      "\<And>x. b_lock (f x) = b_lock x" "\<And>x. b_refcnt (f x) = b_refcnt x"
    and "data_ok P (upd_buf b f c) (ph(p := x)) b"
  shows "cache_inv P (upd_buf b f c, ph(p := x))"
proof (rule inv_upd [OF inv holder(1) [OF inv p(1,2)] f(1-4)])
  note ok = inv_parts [OF inv holder(1) [OF inv p(1,2)]]
  have "ref_ok P (upd_buf b f c) (ph(p := x)) b"
    using ok(2) p f locks_refers(1) by (intro ref_ok_same) auto
  moreover have "lock_ok P (upd_buf b f c) (ph(p := x)) b" using ok(3) p f by (intro lock_ok_same) auto
  ultimately show "buf_ok P (upd_buf b f c) (ph(p := x)) b" using assms(11) by (simp add: buf_ok_def)
  show "\<And>i. refers (ph p) i \<or> refers x i \<Longrightarrow> i = b" using p locks_refers(1) refers_unique by blast
qed

lemma fill_result:
  assumes inv: "cache_inv P (c, ph)" and p: "p \<in> P" "ph p = Locked b"
  shows "bread_fill p b c = Inr (upd_buf b (if valid (bufs c b) then id
    else (\<lambda>x. x\<lparr>b_flags := b_flags x OR B_VALID, b_data := disk_block c (b_blockno x)\<rparr>)) c)"
proof -
  have l: "locks (ph p) b" using p by simp
  note h = holder [OF inv p(1) l] and ok = inv_parts [OF inv holder(1) [OF inv p(1) l]]
  show ?thesis
  proof (cases "valid (bufs c b)")
    case True
    then show ?thesis by (simp add: bread_fill_def upd_buf_def)
  next
    case False
    then have "\<not> dirty (bufs c b)" "length (b_data (bufs c b)) = BSIZE" using ok(4) by (auto simp: data_ok_def)
    with False iderw_read [OF ok(1) h(2,3,4)] show ?thesis by (simp add: bread_fill_def)
  qed
qed

lemma fill_inv_step:
  assumes inv: "cache_inv P (c, ph)" and p: "p \<in> P" "ph p = Locked b" and "bread_fill p b c = Inr c'"
  shows "cache_inv P (c', ph(p := Held b))"
proof -
  have l: "locks (ph p) b" using p by simp
  note h = holder [OF inv p(1) l] and ok = inv_parts [OF inv holder(1) [OF inv p(1) l]]
  have other: "\<not> has_data (ph q) b" "ph q \<noteq> Changed b" if "q \<in> P" for q
    using that h(5) [of q] p(2) locks_refers(2) [of "ph q" b] by auto
  note len = length_disk_block [OF ok(1) h(4)]
  show ?thesis
  proof (cases "valid (bufs c b)")
    case True
    then have c': "c' = upd_buf b id c" using assms(4) fill_result [OF inv p] by simp
    show ?thesis unfolding c'
      by (rule holder_step [OF inv p(1) l]) (use ok(4) True other h(3) in \<open>auto simp: data_ok_def\<close>)
  next
    case False
    let ?f = "\<lambda>x. x\<lparr>b_flags := b_flags x OR B_VALID, b_data := disk_block c (b_blockno x)\<rparr>"
    from False have c': "c' = upd_buf b ?f c" using assms(4) fill_result [OF inv p] by simp
    have "data_ok P (upd_buf b ?f c) (ph(p := Held b)) b"
      using h(3,4) len by (auto simp: data_ok_def b_set_def)
    then show ?thesis unfolding c' by (intro holder_step [OF inv p(1) l]) auto
  qed
qed

lemma change_inv_step:
  assumes inv: "cache_inv P (c, ph)" and p: "p \<in> P" "has_data (ph p) b" and "length d = BSIZE"
  shows "cache_inv P (upd_buf b (b_data_update (\<lambda>_. d)) c, ph(p := Changed b))"
proof -
  note l = locks_refers(2) [OF p(2)]
  note h = holder [OF inv p(1) l] and ok = inv_parts [OF inv holder(1) [OF inv p(1) l]]
  have "data_ok P (upd_buf b (b_data_update (\<lambda>_. d)) c) (ph(p := Changed b)) b"
    using ok(4) h(3) p assms(4) by (auto simp: data_ok_def b_set_def)
  then show ?thesis by (intro holder_step [OF inv p(1) l]) auto
qed

lemma mark_inv_step:
  assumes inv: "cache_inv P (c, ph)" and p: "p \<in> P" "has_data (ph p) b"
  shows "cache_inv P (upd_buf b (b_flags_update (\<lambda>f. f OR B_DIRTY)) c, ph(p := Held b))"
proof -
  note l = locks_refers(2) [OF p(2)]
  note h = holder [OF inv p(1) l] and ok = inv_parts [OF inv holder(1) [OF inv p(1) l]]
  have "data_ok P (upd_buf b (b_flags_update (\<lambda>f. f OR B_DIRTY)) c) (ph(p := Held b)) b"
    using ok(4) h(3) p by (auto simp: data_ok_def b_set_def)
  then show ?thesis by (intro holder_step [OF inv p(1) l]) auto
qed

lemma unlock_result:
  assumes "cache_inv P (c, ph)" and "p \<in> P" and "locks (ph p) b"
  shows "unlock_buf p b c = Inr (upd_buf b (b_lock_update releasesleep) c)"
  using holder [OF assms] by (simp add: unlock_buf_def)

lemma unlock_inv_step:
  assumes inv: "cache_inv P (c, ph)" and p: "p \<in> P" "ph p = Held b" and "unlock_buf p b c = Inr c'"
  shows "cache_inv P (c', ph(p := Leaving b))"
proof -
  have l: "locks (ph p) b" using p by simp
  note h = holder [OF inv p(1) l] and ok = inv_parts [OF inv holder(1) [OF inv p(1) l]]
  have c': "c' = upd_buf b (b_lock_update releasesleep) c" using assms(4) unlock_result [OF inv p(1) l] by simp
  show ?thesis unfolding c'
  proof (rule inv_upd [OF inv h(1)])
    let ?c = "upd_buf b (b_lock_update releasesleep) c" and ?ph = "ph(p := Leaving b)"
    have "ref_ok P ?c ?ph b" using ok(2) p by (intro ref_ok_same) auto
    moreover have "lock_ok P ?c ?ph b" using h(5) by (auto simp: lock_ok_def releasesleep_def)
    moreover have "data_ok P ?c ?ph b" using ok(4) h(3) p by (auto simp: data_ok_def b_set_def)
    ultimately show "buf_ok P ?c ?ph b" by (simp add: buf_ok_def)
  qed (use p in auto)
qed

lemma write_result:
  assumes inv: "cache_inv P (c, ph)" and p: "p \<in> P" "has_data (ph p) b"
  shows "bwrite p b c = Inr (upd_buf b (\<lambda>x. x\<lparr>b_flags := ((b_flags x OR B_DIRTY) AND NOT B_DIRTY) OR B_VALID\<rparr>)
    (c\<lparr>memdisk := overwrite (memdisk c) (unat (b_blockno (bufs c b)) * BSIZE) (b_data (bufs c b))\<rparr>))"
proof -
  note l = locks_refers(2) [OF p(2)]
  note h = holder [OF inv p(1) l] and ok = inv_parts [OF inv holder(1) [OF inv p(1) l]]
  let ?c = "upd_buf b (b_flags_update (\<lambda>f. f OR B_DIRTY)) c"
  have "disk_ok ?c" using ok(1) by (simp add: disk_ok_def)
  moreover have "dirty (bufs ?c b)" by (simp add: b_set_def)
  moreover have "length (b_data (bufs ?c b)) = BSIZE" using ok(4) by (simp add: data_ok_def)
  ultimately have "iderw p b ?c = Inr (upd_buf b (\<lambda>x. x\<lparr>b_flags := (b_flags x AND NOT B_DIRTY) OR B_VALID\<rparr>)
    (?c\<lparr>memdisk := overwrite (memdisk ?c) (unat (b_blockno (bufs ?c b)) * BSIZE) (b_data (bufs ?c b))\<rparr>))"
    using h by (intro iderw_write) auto
  then show ?thesis using h(2) by (cases "bufs c b") (simp add: bwrite_def upd_buf_def)
qed

lemma write_inv_step:
  assumes inv: "cache_inv P (c, ph)" and p: "p \<in> P" "has_data (ph p) b" and "bwrite p b c = Inr c'"
  shows "cache_inv P (c', ph(p := Held b))"
    and "n < disksize c \<Longrightarrow> disk_block c' n = (if n = b_blockno (bufs c b) then b_data (bufs c b) else disk_block c n)"
proof -
  note l = locks_refers(2) [OF p(2)]
  note h = holder [OF inv p(1) l] and ok = inv_parts [OF inv holder(1) [OF inv p(1) l]]
  let ?f = "\<lambda>x. x\<lparr>b_flags := ((b_flags x OR B_DIRTY) AND NOT B_DIRTY) OR B_VALID\<rparr>"
  let ?d = "overwrite (memdisk c) (unat (b_blockno (bufs c b)) * BSIZE) (b_data (bufs c b))"
  let ?c = "upd_buf b ?f (c\<lparr>memdisk := ?d\<rparr>)"
  have c': "c' = ?c" using assms(4) write_result [OF inv p] by simp
  have len: "length (b_data (bufs c b)) = BSIZE" using ok(4) by (simp add: data_ok_def)
  then have lend: "length ?d = length (memdisk c)" using block_offset(2) [OF ok(1) h(4)] by simp
  have blk: "disk_block ?c n = (if n = b_blockno (bufs c b) then b_data (bufs c b) else disk_block c n)"
    if "n < disksize c" for n
    using disk_block_overwrite [OF ok(1) h(4) that len] by (simp add: disk_block_def)
  then show "n < disksize c \<Longrightarrow> disk_block c' n = (if n = b_blockno (bufs c b) then b_data (bufs c b) else disk_block c n)"
    by (simp add: c')
  have bufs: "bufs ?c i = (if i = b then ?f (bufs c b) else bufs c i)" for i by simp
  show "cache_inv P (c', ph(p := Held b))" unfolding c'
  proof (rule inv_step [OF inv h(1)])
    have "ref_ok P ?c (ph(p := Held b)) b" using ok(2) p locks_refers(3) by (intro ref_ok_same) auto
    moreover have "lock_ok P ?c (ph(p := Held b)) b" using ok(3) l by (intro lock_ok_same) auto
    moreover have "valid (bufs ?c b)" "\<not> dirty (bufs ?c b)" by (simp_all add: b_set_def)
    then have "data_ok P ?c (ph(p := Held b)) b" using h(3,4) len blk [OF h(4)] by (simp add: data_ok_def)
    ultimately show "buf_ok P ?c (ph(p := Held b)) b" by (simp add: buf_ok_def)
    have "nexts ?c = nexts c" "prevs ?c = prevs c" by (auto simp: nexts_def prevs_def fun_eq_iff)
    then show "\<exists>xs. lru ?c xs" using inv_lru [OF inv] lru_cong by blast
    show "disk_ok ?c" using ok(1) lend by (simp add: disk_ok_def)
    show "one_buf ?c" by (rule one_buf_same [of c]) (use inv in \<open>auto simp: cache_inv_def\<close>)
    show "disk_block ?c (b_blockno (bufs c i)) = disk_block c (b_blockno (bufs c i))"
      if "i < NBUF" "i \<noteq> b" "b_dev (bufs c i) = 1" for i
    proof -
      have "b_blockno (bufs c i) \<noteq> b_blockno (bufs c b)" using inv that h(1,3) by (auto simp: cache_inv_def one_buf_def)
      moreover have "b_blockno (bufs c i) < disksize c" using inv_parts(4) [OF inv that(1)] that(3) by (simp add: data_ok_def)
      ultimately show ?thesis using blk by simp
    qed
    show "\<And>i. refers (ph p) i \<or> refers (Held b) i \<Longrightarrow> i = b"
      using locks_refers(3) [OF p(2)] refers_unique by auto
  qed auto
qed

lemma links_same:
  "same_buf (bufs (link_front b c) i) (bufs c i)" "memdisk (link_front b c) = memdisk c" "disksize (link_front b c) = disksize c"
  "same_buf (bufs (unlink b c) i) (bufs c i)" "memdisk (unlink b c) = memdisk c" "disksize (unlink b c) = disksize c"
  by (simp_all add: link_front_def unlink_def Let_def set_next_def set_prev_def same_buf_def)

lemma same_buf_trans: "same_buf x y \<Longrightarrow> same_buf y z \<Longrightarrow> same_buf x z"
  by (simp add: same_buf_def)

lemma drop_buf_same:
  "same_buf (bufs (drop_buf b c) i) (if i = b then (bufs c b)\<lparr>b_refcnt := b_refcnt (bufs c b) - 1\<rparr> else bufs c i)"
  "memdisk (drop_buf b c) = memdisk c" "disksize (drop_buf b c) = disksize c"
proof -
  let ?c = "upd_buf b (b_refcnt_update (\<lambda>r. r - 1)) c"
  have "same_buf (bufs (link_front b (unlink b ?c)) i) (bufs ?c i)"
    using links_same(1) links_same(4) same_buf_trans by blast
  then show "same_buf (bufs (drop_buf b c) i) (if i = b then (bufs c b)\<lparr>b_refcnt := b_refcnt (bufs c b) - 1\<rparr> else bufs c i)"
    by (auto simp: drop_buf_def Let_def same_buf_def)
qed (simp_all add: drop_buf_def Let_def links_same)

lemma drop_buf_lru:
  assumes "lru c xs" and "b < NBUF"
  shows "\<exists>ys. lru (drop_buf b c) ys"
proof -
  let ?c = "upd_buf b (b_refcnt_update (\<lambda>r. r - 1)) c"
  have "lru ?c xs" using assms(1) by (simp add: lru_def links_upd_buf)
  moreover from this obtain us vs where "xs = us @ b # vs"
    using assms(2) split_list [of b xs] by (auto simp: lru_def)
  ultimately show ?thesis using lru_move_front [of ?c us b vs] by (auto simp: drop_buf_def Let_def)
qed

lemma leave_inv_step:
  assumes inv: "cache_inv P (c, ph)" and P: "finite P" and p: "p \<in> P" "ph p = Leaving b"
  shows "cache_inv P (drop_buf b c, ph(p := Out))" (is "cache_inv P (?c, ?ph)")
proof (rule inv_step [OF inv, of b])
  show b: "b < NBUF" using inv_refers [OF inv p(1)] p(2) by simp
  note ok = inv_parts [OF inv b] and same = drop_buf_same(1) [of b c]
  have users: "card {q \<in> P. refers (?ph q) b} = card {q \<in> P. refers (ph q) b} - 1" "0 < card {q \<in> P. refers (ph q) b}"
    using users_remove [OF P p(1), of ph b Out] p(2) by simp_all
  then have pos: "b_refcnt (bufs c b) \<noteq> 0" and cnt: "unat (b_refcnt (bufs c b)) = card {q \<in> P. refers (ph q) b}"
    using ok(2) by (auto simp: ref_ok_def)
  have "ref_ok P ?c ?ph b"
    unfolding ref_ok_def users using same [of b] unat_minus_one [OF pos] cnt by (simp add: same_buf_def)
  moreover have "lock_ok P ?c ?ph b" using ok(3) same [of b] p(2) by (intro lock_ok_same) (auto simp: same_buf_def)
  moreover have "disk_block ?c = disk_block c" by (auto simp: disk_block_def drop_buf_same fun_eq_iff)
  then have "data_ok P ?c ?ph b"
    using ok(4) same [of b] p by (auto simp: data_ok_def same_buf_def b_set_def drop_buf_same)
  ultimately show "buf_ok P ?c ?ph b" by (simp add: buf_ok_def)
  show "\<exists>xs. lru ?c xs" using inv_lru [OF inv] drop_buf_lru [OF _ b] by blast
  show "disk_ok ?c" using ok(1) by (simp add: disk_ok_def drop_buf_same)
  show "disksize ?c = disksize c" by (simp add: drop_buf_same)
  show "one_buf ?c"
    by (rule one_buf_same [of c]) (use inv same in \<open>auto simp: cache_inv_def same_buf_def split: if_splits\<close>)
  show "same_buf (bufs ?c i) (bufs c i)" if "i \<noteq> b" for i using same [of i] that by simp
  show "disk_block ?c n = disk_block c n" for n by (simp add: disk_block_def drop_buf_same)
qed (use p in auto)

lemma bio_step_inv:
  assumes "bio_step P s s'" and "finite P" and "card P < 2 ^ 32" and "cache_inv P s"
  shows "cache_inv P s'"
  using assms
proof (induction rule: bio_step.induct)
  case (ask p ph n c b c')
  then obtain xs where xs: "lru c xs" using inv_lru by blast
  from xs ask(4) show ?case
    by (cases rule: bget_search_cases) (use ask ask_cached ask_recycled in \<open>auto simp del: fun_upd_apply\<close>)
qed (auto intro: lock_inv_step fill_inv_step change_inv_step mark_inv_step write_inv_step(1) unlock_inv_step leave_inv_step)

lemma bio_reach_inv:
  assumes "(bio_step P)\<^sup>*\<^sup>* s s'" and "finite P" and "card P < 2 ^ 32" and "cache_inv P s"
  shows "cache_inv P s'"
  using assms by (induction rule: rtranclp_induct) (auto intro: bio_step_inv)

section \<open>What the processes see\<close>

definition holds_block :: "bcache \<Rightarrow> u32 \<Rightarrow> nat \<Rightarrow> bool" where
  "holds_block c n b \<longleftrightarrow> b < NBUF \<and> b_dev (bufs c b) = 1 \<and> b_blockno (bufs c b) = n \<and> valid (bufs c b)"

lemma view_buf:
  assumes "one_buf c" and "holds_block c n b"
  shows "view c n = b_data (bufs c b)"
proof -
  let ?Q = "\<lambda>b. b_dev (bufs c b) = 1 \<and> b_blockno (bufs c b) = n \<and> valid (bufs c b)"
  obtain i where i: "find ?Q [0..<NBUF] = Some i"
    using assms(2) by (cases "find ?Q [0..<NBUF]") (auto simp: find_None_iff holds_block_def)
  then have "i < NBUF" "?Q i" by (auto simp: find_Some_iff)
  then have "i = b" using assms by (auto simp: one_buf_def holds_block_def)
  then show ?thesis using i by (simp add: view_def)
qed

lemma view_disk:
  assumes "\<And>b. \<not> holds_block c n b"
  shows "view c n = disk_block c n"
proof -
  have "find (\<lambda>b. b_dev (bufs c b) = 1 \<and> b_blockno (bufs c b) = n \<and> valid (bufs c b)) [0..<NBUF] = None"
    using assms by (auto simp: find_None_iff holds_block_def)
  then show ?thesis by (simp add: view_def)
qed

lemma view_same:
  assumes "one_buf c" and "one_buf c'" and "\<And>b. holds_block c' n b = holds_block c n b"
    and "\<And>b. holds_block c n b \<Longrightarrow> b_data (bufs c' b) = b_data (bufs c b)" and "disk_block c' n = disk_block c n"
  shows "view c' n = view c n"
proof (cases "\<exists>b. holds_block c n b")
  case True
  then show ?thesis using assms view_buf by metis
next
  case False
  then show ?thesis using assms view_disk by metis
qed

lemma inv_one_buf: "cache_inv P (c, ph) \<Longrightarrow> one_buf c"
  by (simp add: cache_inv_def)

lemma clean_view:
  assumes "cache_inv P (c, ph)" and "b < NBUF" and "\<not> dirty (bufs c b)" and "\<And>p. p \<in> P \<Longrightarrow> \<not> refers (ph p) b"
    and "holds_block c n b"
  shows "view c n = disk_block c n"
proof -
  have "\<forall>p \<in> P. ph p \<noteq> Changed b" using assms(4) by fastforce
  then have "b_data (bufs c b) = disk_block c n"
    using inv_parts(4) [OF assms(1,2)] assms(3,5) by (auto simp: data_ok_def holds_block_def)
  then show ?thesis using view_buf [OF inv_one_buf [OF assms(1)] assms(5)] by simp
qed

lemma recycle_view:
  assumes inv: "cache_inv P (c, ph)" and inv': "cache_inv P (c', ph')" and P: "finite P"
    and b: "b < NBUF" "b_refcnt (bufs c b) = 0" "\<not> dirty (bufs c b)"
    and none: "\<forall>i < NBUF. \<not> (b_dev (bufs c i) = 1 \<and> b_blockno (bufs c i) = m)"
    and c': "c' = upd_buf b (\<lambda>x. x\<lparr>b_dev := 1, b_blockno := m, b_flags := 0, b_refcnt := 1\<rparr>) c"
  shows "view c' n = view c n"
proof -
  note idle = idle_buf [OF inv_parts(2) [OF inv b(1)] b(2) P]
  have holds: "holds_block c' n i \<longleftrightarrow> holds_block c n i \<and> i \<noteq> b" for i
    using none by (auto simp: holds_block_def c' b_set_def)
  show ?thesis
  proof (cases "holds_block c n b")
    case True
    then have "\<not> holds_block c' n i" for i
      using holds inv_one_buf [OF inv] by (auto simp: one_buf_def holds_block_def)
    then have "view c' n = disk_block c n" using view_disk [of c' n] by (simp add: c')
    then show ?thesis using clean_view [OF inv b(1,3) idle True] by simp
  next
    case False
    then show ?thesis using inv_one_buf [OF inv] inv_one_buf [OF inv'] holds by (intro view_same) (auto simp: c')
  qed
qed

lemma fill_view:
  assumes inv: "cache_inv P (c, ph)" and p: "p \<in> P" "ph p = Locked b" and fill: "bread_fill p b c = Inr c'"
  shows "view c' n = view c n"
proof (cases "valid (bufs c b)")
  case True
  then have "c' = upd_buf b id c" using fill fill_result [OF inv p] by simp
  then show ?thesis by (simp add: upd_buf_def)
next
  case False
  then have c': "c' = upd_buf b (\<lambda>x. x\<lparr>b_flags := b_flags x OR B_VALID, b_data := disk_block c (b_blockno x)\<rparr>) c"
    using fill fill_result [OF inv p] by simp
  have l: "locks (ph p) b" using p by simp
  note h = holder [OF inv p(1) l]
  note one = inv_one_buf [OF inv] inv_one_buf [OF fill_inv_step [OF inv p fill]]
  have holds: "holds_block c' n i \<longleftrightarrow> holds_block c n i \<or> i = b \<and> n = b_blockno (bufs c b)" for i
    using h by (auto simp: holds_block_def c' b_set_def)
  show ?thesis
  proof (cases "n = b_blockno (bufs c b)")
    case True
    then have "\<not> holds_block c n i" for i
      using one(1) h False by (auto simp: one_buf_def holds_block_def)
    then have "view c n = disk_block c n" by (rule view_disk)
    moreover have "view c' n = b_data (bufs c' b)" using view_buf [OF one(2)] holds True by simp
    ultimately show ?thesis using True by (simp add: c')
  next
    case neq: False
    then have "\<And>i. holds_block c n i \<Longrightarrow> i \<noteq> b" using False by (auto simp: holds_block_def)
    then show ?thesis using neq holds one by (intro view_same) (auto simp: c')
  qed
qed

lemma write_view:
  assumes inv: "cache_inv P (c, ph)" and p: "p \<in> P" "has_data (ph p) b" and wr: "bwrite p b c = Inr c'" and n: "n < disksize c"
  shows "view c' n = view c n"
proof -
  note l = locks_refers(2) [OF p(2)]
  note h = holder [OF inv p(1) l] and ok = inv_parts [OF inv holder(1) [OF inv p(1) l]]
  note one = inv_one_buf [OF inv] inv_one_buf [OF write_inv_step(1) [OF inv p wr]]
  have bufs': "bufs c' i = (if i = b then (bufs c b)\<lparr>b_flags := ((b_flags (bufs c b) OR B_DIRTY) AND NOT B_DIRTY) OR B_VALID\<rparr>
      else bufs c i)" for i
    using wr unfolding write_result [OF inv p] by auto
  have "valid (bufs c b)" using ok(4) p by (auto simp: data_ok_def)
  then have holds: "holds_block c' n i = holds_block c n i" for i
    by (simp add: holds_block_def bufs' b_set_def)
  have data: "b_data (bufs c' i) = b_data (bufs c i)" for i by (simp add: bufs')
  show ?thesis
  proof (cases "n = b_blockno (bufs c b)")
    case True
    then have "holds_block c n b" using h \<open>valid (bufs c b)\<close> by (simp add: holds_block_def)
    then show ?thesis using view_buf one holds data by metis
  next
    case False
    then have "disk_block c' n = disk_block c n" using write_inv_step(2) [OF inv p wr n] by simp
    then show ?thesis using one holds data by (intro view_same) auto
  qed
qed

text \<open>Steps that change neither a block's buffer nor its validity nor its data.\<close>

lemma quiet_view:
  assumes "cache_inv P (c, ph)" and "cache_inv P (c', ph')" and "memdisk c' = memdisk c"
    and "\<And>i. b_dev (bufs c' i) = b_dev (bufs c i)" "\<And>i. b_blockno (bufs c' i) = b_blockno (bufs c i)"
      "\<And>i. valid (bufs c' i) = valid (bufs c i)" "\<And>i. b_data (bufs c' i) = b_data (bufs c i)"
  shows "view c' n = view c n"
  using assms inv_one_buf by (intro view_same) (auto simp: holds_block_def disk_block_def)

lemma change_view:
  assumes inv: "cache_inv P (c, ph)" and p: "p \<in> P" "has_data (ph p) b" and "length d = BSIZE"
  shows "view (upd_buf b (b_data_update (\<lambda>_. d)) c) n = (if n = b_blockno (bufs c b) then d else view c n)"
proof -
  let ?c = "upd_buf b (b_data_update (\<lambda>_. d)) c"
  note l = locks_refers(2) [OF p(2)]
  note h = holder [OF inv p(1) l] and ok = inv_parts [OF inv holder(1) [OF inv p(1) l]]
  note one = inv_one_buf [OF inv] inv_one_buf [OF change_inv_step [OF inv p assms(4)]]
  have "valid (bufs c b)" using ok(4) p by (auto simp: data_ok_def)
  then have b: "holds_block ?c (b_blockno (bufs c b)) b" using h by (simp add: holds_block_def b_set_def)
  have holds: "holds_block ?c n i = holds_block c n i" for i by (simp add: holds_block_def b_set_def)
  show ?thesis
  proof (cases "n = b_blockno (bufs c b)")
    case True
    then show ?thesis using view_buf [OF one(2) b] by simp
  next
    case False
    then have "\<not> holds_block c n b" by (simp add: holds_block_def)
    then have "view ?c n = view c n" using one holds by (intro view_same) auto
    then show ?thesis using False by simp
  qed
qed

lemma ask_view:
  assumes "bget_search 1 m c = Inr (b, c')" and "finite P" and inv: "cache_inv P (c, ph)" and inv': "cache_inv P (c', ph')"
  shows "view c' n = view c n" and "b < NBUF" and "b_blockno (bufs c' b) = m"
proof -
  obtain xs where "lru c xs" using inv_lru [OF inv] by blast
  from this assms(1) have "view c' n = view c n \<and> b < NBUF \<and> b_blockno (bufs c' b) = m"
  proof (cases rule: bget_search_cases)
    case cached
    then show ?thesis using quiet_view [OF inv inv'] by (auto simp: b_set_def)
  next
    case recycled
    then show ?thesis using recycle_view [OF inv inv' assms(2)] by simp
  qed
  then show "view c' n = view c n" and "b < NBUF" and "b_blockno (bufs c' b) = m" by simp_all
qed

lemma lock_view:
  assumes "lock_buf p b c = Inr c'" and "cache_inv P (c, ph)" and "cache_inv P (c', ph')"
  shows "view c' n = view c n" and "b_blockno (bufs c' b) = b_blockno (bufs c b)"
  using assms quiet_view [OF assms(2,3)] by (auto simp: lock_buf_def b_set_def)

text \<open>Only a process that changes the buffer it holds changes what is seen, and only of that block.\<close>

lemma bio_step_view:
  assumes "bio_step P (c, ph) (c', ph')" and "finite P" and "card P < 2 ^ 32" and inv: "cache_inv P (c, ph)"
  shows "(\<forall>n < disksize c. view c' n = view c n) \<or>
    (\<exists>p \<in> P. \<exists>b d. has_data (ph p) b \<and> ph' = ph(p := Changed b) \<and> c' = upd_buf b (b_data_update (\<lambda>_. d)) c \<and>
      (\<forall>n. view c' n = (if n = b_blockno (bufs c b) then d else view c n)))"
proof -
  have inv': "cache_inv P (c', ph')" using bio_step_inv assms by blast
  from assms(1) show ?thesis
  proof (cases rule: bio_step.cases)
    case (ask p m b)
    then show ?thesis using ask_view [OF _ assms(2) inv inv'] by simp
  next
    case (lock p b)
    then show ?thesis using lock_view [OF _ inv inv'] by simp
  next
    case (fill p b)
    then show ?thesis using fill_view [OF inv] by simp
  next
    case (change p b d)
    then show ?thesis using change_view [OF inv change(3,4,5)] by blast
  next
    case (mark p b)
    then show ?thesis using quiet_view [OF inv inv'] by (auto simp: b_set_def)
  next
    case (flush p b)
    then show ?thesis using write_view [OF inv] by simp
  next
    case (unlock p b)
    then show ?thesis using quiet_view [OF inv inv'] by (auto simp: unlock_buf_def b_set_def split: if_splits)
  next
    case (leave p b)
    have "same_buf (bufs c' i) (if i = b then (bufs c b)\<lparr>b_refcnt := b_refcnt (bufs c b) - 1\<rparr> else bufs c i)" for i
      unfolding leave by (rule drop_buf_same(1))
    then have "view c' n = view c n" for n using leave
      by (intro quiet_view [OF inv inv']) (auto simp: same_buf_def b_set_def drop_buf_same split: if_splits)
    then show ?thesis by simp
  qed
qed

lemma holder_view:
  assumes inv: "cache_inv P (c, ph)" and p: "p \<in> P" "has_data (ph p) b"
  shows "view c (b_blockno (bufs c b)) = b_data (bufs c b)"
proof -
  note l = locks_refers(2) [OF p(2)]
  note h = holder [OF inv p(1) l] and ok = inv_parts [OF inv holder(1) [OF inv p(1) l]]
  have "valid (bufs c b)" using ok(4) p by (auto simp: data_ok_def)
  then show ?thesis using view_buf [OF inv_one_buf [OF inv]] h by (simp add: holds_block_def)
qed

lemma one_holder:
  assumes inv: "cache_inv P (c, ph)" and "p \<in> P" "q \<in> P" and "locks (ph p) i" "locks (ph q) j"
    and "b_blockno (bufs c i) = b_blockno (bufs c j)"
  shows "p = q"
proof -
  note h = holder [OF inv assms(2,4)] and h' = holder [OF inv assms(3,5)]
  have "i = j" using h h' inv_one_buf [OF inv] assms(6) by (auto simp: one_buf_def)
  then show ?thesis using h'(5) [OF assms(2)] assms(4) by simp
qed

section \<open>The cache at the start\<close>

text \<open>The variables of the kernel are zero before it runs.\<close>

definition zero_buf :: bbuf where
  "zero_buf = \<lparr>b_flags = 0, b_dev = 0, b_blockno = 0, b_lock = \<lparr>sl_locked = 0, sl_name = [], sl_pid = 0\<rparr>,
     b_refcnt = 0, b_prev = 0, b_next = 0, b_data = replicate BSIZE 0\<rparr>"

definition boot_cache :: "u8 list \<Rightarrow> bcache" where
  "boot_cache img = binit (ideinit img \<lparr>bufs = (\<lambda>_. zero_buf), memdisk = [], disksize = 0\<rparr>)"

definition fresh_buf :: "bbuf \<Rightarrow> bool" where
  "fresh_buf b \<longleftrightarrow> b_flags b = 0 \<and> b_dev b = 0 \<and> sl_locked (b_lock b) = 0 \<and> b_refcnt b = 0 \<and> length (b_data b) = BSIZE"

lemma binit_fresh:
  assumes "\<And>i. fresh_buf (bufs c i)"
  shows "fresh_buf (bufs (fold binit_step bs c) i) \<and> memdisk (fold binit_step bs c) = memdisk c \<and>
    disksize (fold binit_step bs c) = disksize c"
  using assms
proof (induction bs arbitrary: c)
  case (Cons b bs)
  have "fresh_buf (bufs (binit_step b c) i)" for i
    using Cons.prems [of i] by (auto simp: fresh_buf_def binit_step_def Let_def set_next_def set_prev_def initsleeplock_def)
  moreover have "memdisk (binit_step b c) = memdisk c" "disksize (binit_step b c) = disksize c"
    by (simp_all add: binit_step_def Let_def set_next_def set_prev_def)
  ultimately show ?case using Cons.IH [of "binit_step b c"] by simp
qed simp

lemma boot_cache_fields:
  "fresh_buf (bufs (boot_cache img) i)" "memdisk (boot_cache img) = img"
  "disksize (boot_cache img) = word_of_nat (length img) div word_of_nat BSIZE"
proof -
  let ?c = "set_next NBUF NBUF (set_prev NBUF NBUF (ideinit img \<lparr>bufs = (\<lambda>_. zero_buf), memdisk = [], disksize = 0\<rparr>))"
  have fresh: "fresh_buf (bufs ?c i)" for i
    by (simp add: set_next_def set_prev_def ideinit_def fresh_buf_def zero_buf_def)
  have mem: "memdisk ?c = img" "disksize ?c = word_of_nat (length img) div word_of_nat BSIZE"
    by (simp_all add: set_next_def set_prev_def ideinit_def)
  note f = binit_fresh [of ?c "[0..<NBUF]", OF fresh]
  show "fresh_buf (bufs (boot_cache img) i)" using f by (simp only: boot_cache_def binit_def)
  show "memdisk (boot_cache img) = img" using f mem by (simp only: boot_cache_def binit_def)
  show "disksize (boot_cache img) = word_of_nat (length img) div word_of_nat BSIZE"
    using f mem by (simp only: boot_cache_def binit_def)
qed

lemma boot_disksize: "length img < 2 ^ 32 \<Longrightarrow> unat (disksize (boot_cache img)) = length img div BSIZE"
  unfolding boot_cache_fields by (simp add: unat_div unat_of_nat BSIZE_def)

lemma boot_cache_inv:
  assumes "length img < 2 ^ 32"
  shows "cache_inv P (boot_cache img, \<lambda>_. Out)"
proof -
  let ?c = "boot_cache img"
  have "unat (disksize ?c) * BSIZE \<le> length img" unfolding boot_disksize [OF assms] by simp
  then have "disk_ok ?c" using assms by (simp add: disk_ok_def boot_cache_fields)
  moreover have "\<exists>xs. lru ?c xs" unfolding boot_cache_def using binit_lru by blast
  moreover have fresh: "fresh_buf (bufs ?c i)" for i by (rule boot_cache_fields)
  then have "one_buf ?c" by (auto simp: one_buf_def fresh_buf_def)
  moreover have "buf_ok P ?c (\<lambda>_. Out) b" for b
    using fresh [of b] by (auto simp: buf_ok_def ref_ok_def lock_ok_def data_ok_def fresh_buf_def b_set_def)
  ultimately show ?thesis by (simp add: cache_inv_def)
qed

lemma boot_view: "view (boot_cache img) n = take BSIZE (drop (unat n * BSIZE) img)"
proof -
  have "\<not> holds_block (boot_cache img) n b" for b
    using boot_cache_fields(1) [of img b] by (simp add: holds_block_def fresh_buf_def)
  then show ?thesis using view_disk [of "boot_cache img" n] by (simp add: disk_block_def boot_cache_fields)
qed

text \<open>A whole call of \<open>bread\<close> by a process that is outside, when no other one holds the buffer.\<close>

lemma bread_result:
  assumes inv: "cache_inv P (c, ph)" and P: "finite P" "card P < 2 ^ 32" and p: "p \<in> P" "ph p = Out" and n: "n < disksize c"
    and "bread p 1 n c = Inr (b, c')"
  shows "cache_inv P (c', ph(p := Held b))" and "b_blockno (bufs c' b) = n" and "b_data (bufs c' b) = view c n"
    and "view c' m = view c m"
proof -
  obtain c1 c2 where s: "bget_search 1 n c = Inr (b, c1)" "lock_buf p b c1 = Inr c2" "bread_fill p b c2 = Inr c'"
    using assms(7) by (auto simp: bread_def bget_def)
  have "bio_step P (c, ph) (c1, ph(p := Waiting b))" by (rule bio_step.ask) (use p n s in auto)
  from bio_step_inv [OF this P inv] have i1: "cache_inv P (c1, ph(p := Waiting b))" .
  have i2: "cache_inv P (c2, ph(p := Locked b))" using lock_inv_step [OF i1 p(1) _ s(2)] by simp
  show i3: "cache_inv P (c', ph(p := Held b))" using fill_inv_step [OF i2 p(1) _ s(3)] by simp
  have "view c2 m = view c m" for m using ask_view(1) [OF s(1) P(1) inv i1] lock_view(1) [OF s(2) i1 i2] by simp
  then show same: "view c' m = view c m" for m using fill_view [OF i2 p(1) _ s(3)] by simp
  have "b_blockno (bufs c2 b) = n" using ask_view(3) [OF s(1) P(1) inv i1] lock_view(2) [OF s(2) i1 i2] by simp
  then show blk: "b_blockno (bufs c' b) = n" using s(3) fill_result [OF i2 p(1), of b] by auto
  show "b_data (bufs c' b) = view c n" using holder_view [OF i3 p(1)] blk same by simp
qed

text \<open>When all processes are outside, a block can be read unless every buffer is pinned.\<close>

lemma bread_returns:
  assumes inv: "cache_inv P (c, ph)" and P: "finite P" "card P < 2 ^ 32" and p: "p \<in> P" "ph p = Out" and n: "n < disksize c"
    and out: "\<And>q. q \<in> P \<Longrightarrow> ph q = Out" and free: "\<exists>i < NBUF. \<not> dirty (bufs c i)"
  shows "\<exists>b c'. bread p 1 n c = Inr (b, c')"
proof -
  obtain xs where xs: "lru c xs" using inv_lru [OF inv] by blast
  have idle: "b_refcnt (bufs c i) = 0" if "i < NBUF" for i
  proof -
    have "{q \<in> P. refers (ph q) i} = {}" using out by auto
    with inv_parts(2) [OF inv that] have "unat (b_refcnt (bufs c i)) = 0" by (simp only: ref_ok_def card.empty)
    then show ?thesis by (simp add: unsigned_eq_0_iff)
  qed
  have "find (\<lambda>b. b_refcnt (bufs c b) = 0 \<and> \<not> dirty (bufs c b)) (rev xs) \<noteq> None"
    unfolding find_None_iff using free idle xs by (auto simp: lru_def)
  then obtain b c1 where s: "bget_search 1 n c = Inr (b, c1)"
    unfolding bget_search_eq [OF xs] by (fastforce split: option.splits)
  have "bio_step P (c, ph) (c1, ph(p := Waiting b))" by (rule bio_step.ask) (use p n s in auto)
  from bio_step_inv [OF this P inv] have i1: "cache_inv P (c1, ph(p := Waiting b))" .
  have b: "b < NBUF" using inv_refers [OF i1 p(1)] by simp
  have "\<not> locks ((ph(p := Waiting b)) q) b" if "q \<in> P" for q using out [OF that] by simp
  then have "sl_locked (b_lock (bufs c1 b)) = 0" using inv_parts(3) [OF i1 b] unfolding lock_ok_def by blast
  then obtain c2 where l: "lock_buf p b c1 = Inr c2" by (auto simp: lock_buf_def acquiresleep_def)
  have i2: "cache_inv P (c2, ph(p := Locked b))" using lock_inv_step [OF i1 p(1) _ l] by simp
  obtain c3 where "bread_fill p b c2 = Inr c3" using fill_result [OF i2 p(1), of b] by simp
  then show ?thesis using s l by (simp add: bread_def bget_def)
qed

end
