(* ===== verification/Xv6_Fs.thy ===== *)
theory Xv6_Fs
  imports Xv6_Bio
begin

text \<open>
  \<open>fs.c\<close>, \<open>fs.h\<close> and the inodes of \<open>file.h\<close>: blocks, inodes, their contents, directories and path
  names. The functions run inside a transaction on the store that the log and the buffer cache
  provide (\<open>Xv6_Log\<close>): \<open>bread\<close> gives the contents of a block, and a block that has been changed goes
  to \<open>log_write\<close>. The cache is taken to have a buffer for every block that a call holds at the same
  time. A pointer to an inode is its index in the table \<open>icache\<close>.
\<close>

section \<open>On disk\<close>

record superblock =
  sb_size :: u32
  sb_nblocks :: u32
  sb_ninodes :: u32
  sb_nlog :: u32
  sb_logstart :: u32
  sb_inodestart :: u32
  sb_bmapstart :: u32

definition NDIRECT :: nat where "NDIRECT = 12"
definition NINDIRECT :: nat where "NINDIRECT = BSIZE div 4"
definition MAXFILE :: nat where "MAXFILE = NDIRECT + NINDIRECT"
definition DINODE_SIZE :: nat where "DINODE_SIZE = 64"
definition IPB :: nat where "IPB = BSIZE div DINODE_SIZE"
definition BPB :: nat where "BPB = BSIZE * 8"
definition DIRSIZ :: nat where "DIRSIZ = 14"
definition DIRENT_SIZE :: nat where "DIRENT_SIZE = 16"
definition NINODE :: nat where "NINODE = 50"
definition NDEV :: int where "NDEV = 10"
definition ROOTDEV :: u32 where "ROOTDEV = 1"
definition ROOTINO :: u32 where "ROOTINO = 1"
definition T_DIR :: u16 where "T_DIR = 1"
definition T_FILE :: u16 where "T_FILE = 2"
definition T_DEV :: u16 where "T_DEV = 3"

definition IBLOCK :: "u32 \<Rightarrow> superblock \<Rightarrow> u32" where
  "IBLOCK i sb = i div word_of_nat IPB + sb_inodestart sb"

definition BBLOCK :: "u32 \<Rightarrow> superblock \<Rightarrow> u32" where
  "BBLOCK b sb = b div word_of_nat BPB + sb_bmapstart sb"

definition put16 :: "u8 list \<Rightarrow> nat \<Rightarrow> u16 \<Rightarrow> u8 list result" where
  "put16 d off v = (if off + 2 \<le> length d then Inr (overwrite d off (le_encode 2 (unat v))) else Inl OutOfBounds)"

definition get16 :: "u8 list \<Rightarrow> nat \<Rightarrow> u16 result" where
  "get16 d off = bindE (le_field d off 2) (\<lambda>v. Inr (word_of_nat v))"

section \<open>In memory\<close>

record inode =
  i_dev :: u32
  i_inum :: u32
  i_ref :: int
  i_lock :: sleeplock
  i_valid :: bool
  i_type :: u16
  i_major :: u16
  i_minor :: u16
  i_nlink :: u16
  i_size :: u32
  i_addrs :: "u32 list"

record fs =
  fs_log :: log
  fs_store :: store
  fs_disksize :: u32
  fs_sb :: superblock
  icache :: "nat \<Rightarrow> inode"

definition upd_inode :: "nat \<Rightarrow> (inode \<Rightarrow> inode) \<Rightarrow> fs \<Rightarrow> fs" where
  "upd_inode ip f st = st\<lparr>icache := (icache st)(ip := f (icache st ip))\<rparr>"

text \<open>The data of the buffer that \<open>bread\<close> returns, and \<open>log_write\<close> of that buffer.\<close>

definition fs_read :: "u32 \<Rightarrow> u32 \<Rightarrow> fs \<Rightarrow> block result" where
  "fs_read dev b st =
     (if dev \<noteq> 1 then Inl (Panic ''iderw: request not for disk 1'')
      else if fs_disksize st \<le> b then Inl (Panic ''iderw: block out of range'')
      else Inr (store_read b (fs_store st)))"

definition fs_write :: "u32 \<Rightarrow> block \<Rightarrow> fs \<Rightarrow> fs result" where
  "fs_write b d st =
     bindE (log_write b d (fs_log st) (fs_store st)) (\<lambda>(l, s). Inr (st\<lparr>fs_log := l, fs_store := s\<rparr>))"

section \<open>Blocks\<close>

definition readsb :: "u32 \<Rightarrow> fs \<Rightarrow> superblock result" where
  "readsb dev st =
     bindE (fs_read dev 1 st) (\<lambda>d.
     bindE (get32 d 0) (\<lambda>size. bindE (get32 d 4) (\<lambda>nblocks. bindE (get32 d 8) (\<lambda>ninodes.
     bindE (get32 d 12) (\<lambda>nlog. bindE (get32 d 16) (\<lambda>logstart. bindE (get32 d 20) (\<lambda>inodestart.
     bindE (get32 d 24) (\<lambda>bmapstart.
     Inr \<lparr>sb_size = size, sb_nblocks = nblocks, sb_ninodes = ninodes, sb_nlog = nlog, sb_logstart = logstart,
       sb_inodestart = inodestart, sb_bmapstart = bmapstart\<rparr>))))))))"

definition bzero :: "u32 \<Rightarrow> u32 \<Rightarrow> fs \<Rightarrow> fs result" where
  "bzero dev bno st =
     bindE (fs_read dev bno st) (\<lambda>d.
     bindE (memset d 0 0 BSIZE) (\<lambda>d. fs_write bno d st))"

text \<open>The inner loop of \<open>balloc\<close>: the first clear bit among those of the list, below the size.\<close>

fun free_bit :: "block \<Rightarrow> nat \<Rightarrow> nat \<Rightarrow> nat list \<Rightarrow> nat option result" where
  "free_bit d b sz [] = Inr None"
| "free_bit d b sz (bi # bis) =
     (if b + bi < sz then
        bindE (rd d (bi div 8)) (\<lambda>x.
        if x AND push_bit (bi mod 8) 1 = 0 then Inr (Some bi) else free_bit d b sz bis)
      else Inr None)"

text \<open>The outer loop, over the first block numbers of the blocks of the bitmap.\<close>

fun balloc_from :: "u32 \<Rightarrow> nat list \<Rightarrow> fs \<Rightarrow> (u32 \<times> fs) result" where
  "balloc_from dev [] st = Inl (Panic ''balloc: out of blocks'')"
| "balloc_from dev (b # bs) st =
     (let bb = BBLOCK (word_of_nat b) (fs_sb st) in
      bindE (fs_read dev bb st) (\<lambda>d.
      bindE (free_bit d b (unat (sb_size (fs_sb st))) [0..<BPB]) (\<lambda>r.
      case r of
        Some bi \<Rightarrow>
          bindE (rd d (bi div 8)) (\<lambda>x.
          bindE (wr d (bi div 8) (x OR push_bit (bi mod 8) 1)) (\<lambda>d.
          bindE (fs_write bb d st) (\<lambda>st.
          bindE (bzero dev (word_of_nat (b + bi)) st) (\<lambda>st. Inr (word_of_nat (b + bi), st)))))
      | None \<Rightarrow> balloc_from dev bs st)))"

definition bitmap_starts :: "superblock \<Rightarrow> nat list" where
  "bitmap_starts sb = map (\<lambda>k. k * BPB) [0..<(unat (sb_size sb) + BPB - 1) div BPB]"

definition balloc :: "u32 \<Rightarrow> fs \<Rightarrow> (u32 \<times> fs) result" where
  "balloc dev st = balloc_from dev (bitmap_starts (fs_sb st)) st"

definition bfree :: "u32 \<Rightarrow> u32 \<Rightarrow> fs \<Rightarrow> fs result" where
  "bfree dev b st =
     (let bb = BBLOCK b (fs_sb st) in
      bindE (fs_read dev bb st) (\<lambda>d.
      let bi = unat b mod BPB in
      bindE (rd d (bi div 8)) (\<lambda>x.
      if x AND push_bit (bi mod 8) 1 = 0 then Inl (Panic ''freeing free block'')
      else bindE (wr d (bi div 8) (x AND NOT (push_bit (bi mod 8) 1))) (\<lambda>d. fs_write bb d st))))"

section \<open>Inodes\<close>

text \<open>The offsets of the fields of \<open>struct dinode\<close>.\<close>

definition dinode_off :: "u32 \<Rightarrow> nat" where
  "dinode_off inum = unat inum mod IPB * DINODE_SIZE"

text \<open>The report of the super block on the console is left out.\<close>

definition iinit :: "u32 \<Rightarrow> fs \<Rightarrow> fs result" where
  "iinit dev st =
     (let st = fold (\<lambda>i. upd_inode i (i_lock_update (\<lambda>lk. initsleeplock lk ''inode''))) [0..<NINODE] st in
      bindE (readsb dev st) (\<lambda>sb. Inr (st\<lparr>fs_sb := sb\<rparr>)))"

text \<open>The loop of \<open>iget\<close>, with the empty slot that it remembers.\<close>

fun iget_scan :: "u32 \<Rightarrow> u32 \<Rightarrow> (nat \<Rightarrow> inode) \<Rightarrow> nat list \<Rightarrow> nat option \<Rightarrow> nat + nat option" where
  "iget_scan dev inum c [] slot = Inr slot"
| "iget_scan dev inum c (ip # ips) slot =
     (if i_ref (c ip) > 0 \<and> i_dev (c ip) = dev \<and> i_inum (c ip) = inum then Inl ip
      else iget_scan dev inum c ips (if slot = None \<and> i_ref (c ip) = 0 then Some ip else slot))"

definition iget :: "u32 \<Rightarrow> u32 \<Rightarrow> fs \<Rightarrow> (nat \<times> fs) result" where
  "iget dev inum st =
     (case iget_scan dev inum (icache st) [0..<NINODE] None of
        Inl ip \<Rightarrow> Inr (ip, upd_inode ip (i_ref_update (\<lambda>r. r + 1)) st)
      | Inr None \<Rightarrow> Inl (Panic ''iget: no inodes'')
      | Inr (Some ip) \<Rightarrow> Inr (ip, upd_inode ip (\<lambda>x. x\<lparr>i_dev := dev, i_inum := inum, i_ref := 1, i_valid := False\<rparr>) st))"

fun ialloc_from :: "u32 \<Rightarrow> u16 \<Rightarrow> nat list \<Rightarrow> fs \<Rightarrow> (nat \<times> fs) result" where
  "ialloc_from dev type [] st = Inl (Panic ''ialloc: no inodes'')"
| "ialloc_from dev type (i # is) st =
     (let inum = word_of_nat i; ib = IBLOCK inum (fs_sb st); off = dinode_off inum in
      bindE (fs_read dev ib st) (\<lambda>d.
      bindE (get16 d off) (\<lambda>ty.
      if ty = 0 then
        bindE (memset d off 0 DINODE_SIZE) (\<lambda>d.
        bindE (put16 d off type) (\<lambda>d.
        bindE (fs_write ib d st) (\<lambda>st. iget dev inum st)))
      else ialloc_from dev type is st)))"

definition ialloc :: "u32 \<Rightarrow> u16 \<Rightarrow> fs \<Rightarrow> (nat \<times> fs) result" where
  "ialloc dev type st = ialloc_from dev type [1..<unat (sb_ninodes (fs_sb st))] st"

definition iupdate :: "nat \<Rightarrow> fs \<Rightarrow> fs result" where
  "iupdate ip st =
     (let x = icache st ip; ib = IBLOCK (i_inum x) (fs_sb st); off = dinode_off (i_inum x) in
      bindE (fs_read (i_dev x) ib st) (\<lambda>d.
      bindE (put16 d off (i_type x)) (\<lambda>d.
      bindE (put16 d (off + 2) (i_major x)) (\<lambda>d.
      bindE (put16 d (off + 4) (i_minor x)) (\<lambda>d.
      bindE (put16 d (off + 6) (i_nlink x)) (\<lambda>d.
      bindE (put32 d (off + 8) (i_size x)) (\<lambda>d.
      bindE (loopE (\<lambda>k d. bindE (rd (i_addrs x) k) (\<lambda>a. put32 d (off + 12 + 4 * k) a)) [0..<NDIRECT + 1] d) (\<lambda>d.
      fs_write ib d st))))))))"

definition idup :: "nat \<Rightarrow> fs \<Rightarrow> nat \<times> fs" where
  "idup ip st = (ip, upd_inode ip (i_ref_update (\<lambda>r. r + 1)) st)"

text \<open>What \<open>ilock\<close> reads of an inode that is not valid.\<close>

definition read_dinode :: "block \<Rightarrow> nat \<Rightarrow> inode \<Rightarrow> inode result" where
  "read_dinode d off x =
     bindE (get16 d off) (\<lambda>type. bindE (get16 d (off + 2)) (\<lambda>major. bindE (get16 d (off + 4)) (\<lambda>minor.
     bindE (get16 d (off + 6)) (\<lambda>nlink. bindE (get32 d (off + 8)) (\<lambda>size.
     bindE (loopE (\<lambda>k as. bindE (get32 d (off + 12 + 4 * k)) (\<lambda>a. wr as k a)) [0..<NDIRECT + 1] (i_addrs x)) (\<lambda>addrs.
     Inr (x\<lparr>i_type := type, i_major := major, i_minor := minor, i_nlink := nlink, i_size := size, i_addrs := addrs,
       i_valid := True\<rparr>)))))))"

text \<open>\<^const>\<open>None\<close> is the null pointer, \<open>pid\<close> the number of the calling process.\<close>

definition ilock :: "int \<Rightarrow> nat option \<Rightarrow> fs \<Rightarrow> fs result" where
  "ilock pid p st =
     (case p of None \<Rightarrow> Inl (Panic ''ilock'')
      | Some ip \<Rightarrow>
        if i_ref (icache st ip) < 1 then Inl (Panic ''ilock'') else
        bindE (acquiresleep pid (i_lock (icache st ip))) (\<lambda>lk.
        let st = upd_inode ip (i_lock_update (\<lambda>_. lk)) st; x = icache st ip in
        if \<not> i_valid x then
          bindE (fs_read (i_dev x) (IBLOCK (i_inum x) (fs_sb st)) st) (\<lambda>d.
          bindE (read_dinode d (dinode_off (i_inum x)) x) (\<lambda>x.
          if i_type x = 0 then Inl (Panic ''ilock: no type'') else Inr (upd_inode ip (\<lambda>_. x) st)))
        else Inr st))"

definition iunlock :: "int \<Rightarrow> nat option \<Rightarrow> fs \<Rightarrow> fs result" where
  "iunlock pid p st =
     (case p of None \<Rightarrow> Inl (Panic ''iunlock'')
      | Some ip \<Rightarrow>
        if \<not> holdingsleep pid (i_lock (icache st ip)) \<or> i_ref (icache st ip) < 1 then Inl (Panic ''iunlock'')
        else Inr (upd_inode ip (i_lock_update releasesleep) st))"

section \<open>The contents of an inode\<close>

definition set_addr :: "nat \<Rightarrow> nat \<Rightarrow> u32 \<Rightarrow> fs \<Rightarrow> fs" where
  "set_addr ip k a = upd_inode ip (i_addrs_update (\<lambda>as. as[k := a]))"

text \<open>The address in a slot of the inode; an empty slot gets a new block.\<close>

definition addr_or_alloc :: "nat \<Rightarrow> nat \<Rightarrow> fs \<Rightarrow> (u32 \<times> fs) result" where
  "addr_or_alloc ip k st =
     bindE (rd (i_addrs (icache st ip)) k) (\<lambda>addr.
     if addr = 0 then bindE (balloc (i_dev (icache st ip)) st) (\<lambda>(addr, st). Inr (addr, set_addr ip k addr st))
     else Inr (addr, st))"

text \<open>The entry number \<open>i\<close> of the indirect block \<open>addr\<close>.\<close>

definition bmap_indirect :: "nat \<Rightarrow> nat \<Rightarrow> u32 \<Rightarrow> fs \<Rightarrow> (u32 \<times> fs) result" where
  "bmap_indirect ip i addr st =
     bindE (fs_read (i_dev (icache st ip)) addr st) (\<lambda>d.
     bindE (get32 d (4 * i)) (\<lambda>a.
     if a = 0 then
       bindE (balloc (i_dev (icache st ip)) st) (\<lambda>(a, st).
       bindE (put32 d (4 * i) a) (\<lambda>d.
       bindE (fs_write addr d st) (\<lambda>st. Inr (a, st))))
     else Inr (a, st)))"

definition bmap :: "nat \<Rightarrow> u32 \<Rightarrow> fs \<Rightarrow> (u32 \<times> fs) result" where
  "bmap ip bn st =
     (if unat bn < NDIRECT then addr_or_alloc ip (unat bn) st
      else
        let bn = bn - word_of_nat NDIRECT in
        if unat bn < NINDIRECT
        then bindE (addr_or_alloc ip NDIRECT st) (\<lambda>(addr, st). bmap_indirect ip (unat bn) addr st)
        else Inl (Panic ''bmap: out of range''))"

definition itrunc :: "nat \<Rightarrow> fs \<Rightarrow> fs result" where
  "itrunc ip st =
     bindE (loopE (\<lambda>i st.
       bindE (rd (i_addrs (icache st ip)) i) (\<lambda>a.
       if a \<noteq> 0 then bindE (bfree (i_dev (icache st ip)) a st) (\<lambda>st. Inr (set_addr ip i 0 st)) else Inr st)) [0..<NDIRECT] st) (\<lambda>st.
     bindE (rd (i_addrs (icache st ip)) NDIRECT) (\<lambda>ind.
     bindE (if ind \<noteq> 0 then
         bindE (fs_read (i_dev (icache st ip)) ind st) (\<lambda>d.
         bindE (loopE (\<lambda>j st.
           bindE (get32 d (4 * j)) (\<lambda>a. if a \<noteq> 0 then bfree (i_dev (icache st ip)) a st else Inr st)) [0..<NINDIRECT] st) (\<lambda>st.
         bindE (bfree (i_dev (icache st ip)) ind st) (\<lambda>st. Inr (set_addr ip NDIRECT 0 st))))
       else Inr st) (\<lambda>st.
     iupdate ip (upd_inode ip (i_size_update (\<lambda>_. 0)) st))))"

definition iput :: "int \<Rightarrow> nat \<Rightarrow> fs \<Rightarrow> fs result" where
  "iput pid ip st =
     bindE (acquiresleep pid (i_lock (icache st ip))) (\<lambda>lk.
     let st = upd_inode ip (i_lock_update (\<lambda>_. lk)) st in
     bindE (if i_valid (icache st ip) \<and> i_nlink (icache st ip) = 0 \<and> i_ref (icache st ip) = 1 then
         bindE (itrunc ip st) (\<lambda>st.
         bindE (iupdate ip (upd_inode ip (i_type_update (\<lambda>_. 0)) st)) (\<lambda>st.
         Inr (upd_inode ip (i_valid_update (\<lambda>_. False)) st)))
       else Inr st) (\<lambda>st.
     let st = upd_inode ip (i_lock_update releasesleep) st
     in Inr (upd_inode ip (i_ref_update (\<lambda>r. r - 1)) st)))"

definition iunlockput :: "int \<Rightarrow> nat \<Rightarrow> fs \<Rightarrow> fs result" where
  "iunlockput pid ip st = bindE (iunlock pid (Some ip) st) (iput pid ip)"

record stat =
  st_type :: u16
  st_dev :: u32
  st_ino :: u32
  st_nlink :: u16
  st_size :: u32

definition stati :: "nat \<Rightarrow> fs \<Rightarrow> stat" where
  "stati ip st = (let x = icache st ip in
     \<lparr>st_type = i_type x, st_dev = i_dev x, st_ino = i_inum x, st_nlink = i_nlink x, st_size = i_size x\<rparr>)"

text \<open>
  The table of device functions, by major number: a read gives its return value and the bytes it
  has stored, a write gets the bytes.
\<close>

record devsw =
  dev_read :: "int \<Rightarrow> (nat \<Rightarrow> u32 \<Rightarrow> fs \<Rightarrow> ((int \<times> u8 list) \<times> fs) result) option"
  dev_write :: "int \<Rightarrow> (nat \<Rightarrow> u8 list \<Rightarrow> u32 \<Rightarrow> fs \<Rightarrow> (int \<times> fs) result) option"

definition bytes_at :: "u8 list \<Rightarrow> nat \<Rightarrow> nat \<Rightarrow> u8 list result" where
  "bytes_at d off n = (if off + n \<le> length d then Inr (take n (drop off d)) else Inl OutOfBounds)"

definition chunk :: "nat \<Rightarrow> nat \<Rightarrow> nat" where
  "chunk off rest = min rest (BSIZE - off mod BSIZE)"

lemma chunk_pos: "0 < rest \<Longrightarrow> 0 < chunk off rest"
  by (simp add: chunk_def BSIZE_def)

text \<open>The loop of \<open>readi\<close>; \<open>rest\<close> is \<open>n - tot\<close>.\<close>

function readi_loop :: "nat \<Rightarrow> nat \<Rightarrow> nat \<Rightarrow> fs \<Rightarrow> (u8 list \<times> fs) result" where
  "readi_loop ip off rest st =
     (if rest = 0 then Inr ([], st) else
      bindE (bmap ip (word_of_nat (off div BSIZE)) st) (\<lambda>(a, st).
      bindE (fs_read (i_dev (icache st ip)) a st) (\<lambda>d.
      let m = chunk off rest in
      bindE (bytes_at d (off mod BSIZE) m) (\<lambda>bs.
      bindE (readi_loop ip (off + m) (rest - m) st) (\<lambda>(cs, st). Inr (bs @ cs, st))))))"
  by pat_completeness auto
termination
  by (relation "measure (\<lambda>(ip, off, rest, st). rest)") (auto simp: chunk_pos diff_less)

declare readi_loop.simps [simp del]

definition readi :: "devsw \<Rightarrow> nat \<Rightarrow> u32 \<Rightarrow> u32 \<Rightarrow> fs \<Rightarrow> ((int \<times> u8 list) \<times> fs) result" where
  "readi devs ip off n st =
     (let x = icache st ip in
      if i_type x = T_DEV then
        (if sint (i_major x) < 0 \<or> sint (i_major x) \<ge> NDEV then Inr ((- 1, []), st)
         else case dev_read devs (sint (i_major x)) of None \<Rightarrow> Inr ((- 1, []), st) | Some f \<Rightarrow> f ip n st)
      else if off > i_size x \<or> off + n < off then Inr ((- 1, []), st)
      else
        let n = (if off + n > i_size x then i_size x - off else n) in
        bindE (readi_loop ip (unat off) (unat n) st) (\<lambda>(bs, st). Inr ((sint n, bs), st)))"

text \<open>The loop of \<open>writei\<close>; \<open>src\<close> are the bytes that are still to be written.\<close>

function writei_loop :: "nat \<Rightarrow> nat \<Rightarrow> u8 list \<Rightarrow> fs \<Rightarrow> fs result" where
  "writei_loop ip off src st =
     (if src = [] then Inr st else
      bindE (bmap ip (word_of_nat (off div BSIZE)) st) (\<lambda>(a, st).
      bindE (fs_read (i_dev (icache st ip)) a st) (\<lambda>d.
      let m = chunk off (length src) in
      bindE (move_bytes d (off mod BSIZE) src 0 m) (\<lambda>d.
      bindE (fs_write a d st) (\<lambda>st.
      writei_loop ip (off + m) (drop m src) st)))))"
  by pat_completeness auto
termination
  by (relation "measure (\<lambda>(ip, off, src, st). length src)") (auto simp: chunk_pos diff_less)

declare writei_loop.simps [simp del]

definition writei :: "devsw \<Rightarrow> nat \<Rightarrow> u8 list \<Rightarrow> u32 \<Rightarrow> u32 \<Rightarrow> fs \<Rightarrow> (int \<times> fs) result" where
  "writei devs ip src off n st =
     (let x = icache st ip in
      if i_type x = T_DEV then
        (if sint (i_major x) < 0 \<or> sint (i_major x) \<ge> NDEV then Inr (- 1, st)
         else case dev_write devs (sint (i_major x)) of None \<Rightarrow> Inr (- 1, st) | Some f \<Rightarrow> f ip src n st)
      else if off > i_size x \<or> off + n < off then Inr (- 1, st)
      else if unat (off + n) > MAXFILE * BSIZE then Inr (- 1, st)
      else
        bindE (bytes_at src 0 (unat n)) (\<lambda>src.
        bindE (writei_loop ip (unat off) src st) (\<lambda>st.
        let off = off + n in
        if n > 0 \<and> off > i_size (icache st ip)
        then bindE (iupdate ip (upd_inode ip (i_size_update (\<lambda>_. off)) st)) (\<lambda>st. Inr (sint n, st))
        else Inr (sint n, st))))"

section \<open>Directories\<close>

definition namecmp :: "u8 list \<Rightarrow> u8 list \<Rightarrow> int result" where
  "namecmp s t = strncmp s t 0 DIRSIZ"

definition dir_offsets :: "u32 \<Rightarrow> nat list" where
  "dir_offsets sz = map (\<lambda>k. k * DIRENT_SIZE) [0..<(unat sz + DIRENT_SIZE - 1) div DIRENT_SIZE]"

text \<open>The result is the inode and the offset of the entry (for \<open>poff\<close>), \<^const>\<open>None\<close> a null pointer.\<close>

fun dirlookup_from :: "devsw \<Rightarrow> nat \<Rightarrow> u8 list \<Rightarrow> nat list \<Rightarrow> fs \<Rightarrow> ((nat \<times> nat) option \<times> fs) result" where
  "dirlookup_from devs dp name [] st = Inr (None, st)"
| "dirlookup_from devs dp name (off # offs) st =
     bindE (readi devs dp (word_of_nat off) (word_of_nat DIRENT_SIZE) st) (\<lambda>((r, de), st).
     if r \<noteq> int DIRENT_SIZE then Inl (Panic ''dirlookup read'') else
     bindE (get16 de 0) (\<lambda>inum.
     if inum = 0 then dirlookup_from devs dp name offs st else
     bindE (namecmp name (drop 2 de)) (\<lambda>c.
     if c = 0 then bindE (iget (i_dev (icache st dp)) (ucast inum) st) (\<lambda>(ip, st). Inr (Some (ip, off), st))
     else dirlookup_from devs dp name offs st)))"

definition dirlookup :: "devsw \<Rightarrow> nat \<Rightarrow> u8 list \<Rightarrow> fs \<Rightarrow> ((nat \<times> nat) option \<times> fs) result" where
  "dirlookup devs dp name st =
     (if i_type (icache st dp) \<noteq> T_DIR then Inl (Panic ''dirlookup not DIR'')
      else dirlookup_from devs dp name (dir_offsets (i_size (icache st dp))) st)"

text \<open>The loop of \<open>dirlink\<close>: the offset of the first empty entry, or the one behind the last.\<close>

fun empty_entry :: "devsw \<Rightarrow> nat \<Rightarrow> nat list \<Rightarrow> nat \<Rightarrow> fs \<Rightarrow> (nat \<times> fs) result" where
  "empty_entry devs dp [] after st = Inr (after, st)"
| "empty_entry devs dp (off # offs) after st =
     bindE (readi devs dp (word_of_nat off) (word_of_nat DIRENT_SIZE) st) (\<lambda>((r, de), st).
     if r \<noteq> int DIRENT_SIZE then Inl (Panic ''dirlink read'') else
     bindE (get16 de 0) (\<lambda>inum.
     if inum = 0 then Inr (off, st) else empty_entry devs dp offs after st))"

text \<open>Both fields of the entry \<open>de\<close> are set before it is written, so its old contents do not matter.\<close>

definition dirlink :: "devsw \<Rightarrow> int \<Rightarrow> nat \<Rightarrow> u8 list \<Rightarrow> u32 \<Rightarrow> fs \<Rightarrow> (int \<times> fs) result" where
  "dirlink devs pid dp name inum st =
     bindE (dirlookup devs dp name st) (\<lambda>(r, st).
     case r of
       Some (ip, _) \<Rightarrow> bindE (iput pid ip st) (\<lambda>st. Inr (- 1, st))
     | None \<Rightarrow>
        let offs = dir_offsets (i_size (icache st dp)) in
        bindE (empty_entry devs dp offs (length offs * DIRENT_SIZE) st) (\<lambda>(off, st).
        bindE (strncpy (replicate DIRSIZ 0) name (int DIRSIZ)) (\<lambda>de_name.
        let de = le_encode 2 (unat (ucast inum :: u16)) @ de_name in
        bindE (writei devs dp de (word_of_nat off) (word_of_nat DIRENT_SIZE) st) (\<lambda>(r, st).
        if r \<noteq> int DIRENT_SIZE then Inl (Panic ''dirlink'') else Inr (0, st)))))"

section \<open>Paths\<close>

text \<open>A path is the memory from the pointer on; reading behind its end is a fault.\<close>

abbreviation slash :: u8 where "slash \<equiv> 47"

fun skip_slashes :: "u8 list \<Rightarrow> u8 list result" where
  "skip_slashes [] = Inl OutOfBounds"
| "skip_slashes (c # cs) = (if c = slash then skip_slashes cs else Inr (c # cs))"

fun scan_elem :: "u8 list \<Rightarrow> (u8 list \<times> u8 list) result" where
  "scan_elem [] = Inl OutOfBounds"
| "scan_elem (c # cs) =
     (if c \<noteq> slash \<and> c \<noteq> 0 then bindE (scan_elem cs) (\<lambda>(e, rest). Inr (c # e, rest)) else Inr ([], c # cs))"

definition skipelem :: "u8 list \<Rightarrow> u8 list \<Rightarrow> (u8 list \<times> u8 list) option result" where
  "skipelem path name =
     bindE (skip_slashes path) (\<lambda>s.
     bindE (rd s 0) (\<lambda>c.
     if c = 0 then Inr None else
     bindE (scan_elem s) (\<lambda>(e, path).
     bindE (if length e \<ge> DIRSIZ then move_bytes name 0 e 0 DIRSIZ
            else bindE (move_bytes name 0 e 0 (length e)) (\<lambda>name. wr name (length e) 0)) (\<lambda>name.
     bindE (skip_slashes path) (\<lambda>path. Inr (Some (path, name)))))))"

lemma skip_slashes_length: "skip_slashes p = Inr q \<Longrightarrow> length q \<le> length p"
  by (induction p) (auto split: if_splits)

lemma scan_elem_length: "scan_elem p = Inr (e, q) \<Longrightarrow> length q + length e = length p"
  by (induction p arbitrary: e) (auto split: if_splits)

lemma scan_elem_first: "scan_elem (c # cs) = Inr (e, q) \<Longrightarrow> c \<noteq> slash \<Longrightarrow> c \<noteq> 0 \<Longrightarrow> e \<noteq> []"
  by auto

lemma skip_slashes_first: "skip_slashes p = Inr (c # cs) \<Longrightarrow> c \<noteq> slash"
  by (induction p) (auto split: if_splits)

lemma skipelem_shorter:
  assumes "skipelem path name = Inr (Some (path', name'))"
  shows "length path' < length path"
proof -
  obtain s e p where s: "skip_slashes path = Inr s" "s \<noteq> []" "s ! 0 \<noteq> 0" "scan_elem s = Inr (e, p)" "skip_slashes p = Inr path'"
    using assms by (auto simp: skipelem_def split: if_splits)
  from s(2) obtain c cs where c: "s = c # cs" by (cases s) auto
  then have "e \<noteq> []" using scan_elem_first [of c cs e p] skip_slashes_first [of path c cs] s by auto
  then have "0 < length e" by simp
  then show ?thesis
    using skip_slashes_length [OF s(1)] scan_elem_length [OF s(4)] skip_slashes_length [OF s(5)] by linarith
qed

text \<open>The loop of \<open>namex\<close>; the result is the inode and the contents of \<open>name\<close>.\<close>

function namex_loop ::
  "devsw \<Rightarrow> int \<Rightarrow> bool \<Rightarrow> nat \<Rightarrow> u8 list \<Rightarrow> u8 list \<Rightarrow> fs \<Rightarrow> ((nat option \<times> u8 list) \<times> fs) result" where
  "namex_loop devs pid nameiparent ip path name st =
     bindE (skipelem path name) (\<lambda>r.
     case r of
       None \<Rightarrow>
        if nameiparent then bindE (iput pid ip st) (\<lambda>st. Inr ((None, name), st)) else Inr ((Some ip, name), st)
     | Some (path, name) \<Rightarrow>
        bindE (ilock pid (Some ip) st) (\<lambda>st.
        if i_type (icache st ip) \<noteq> T_DIR then bindE (iunlockput pid ip st) (\<lambda>st. Inr ((None, name), st)) else
        bindE (rd path 0) (\<lambda>c.
        if nameiparent \<and> c = 0 then bindE (iunlock pid (Some ip) st) (\<lambda>st. Inr ((Some ip, name), st)) else
        bindE (dirlookup devs ip name st) (\<lambda>(n, st).
        bindE (iunlockput pid ip st) (\<lambda>st.
        case n of None \<Rightarrow> Inr ((None, name), st)
        | Some (ip, _) \<Rightarrow> namex_loop devs pid nameiparent ip path name st)))))"
  by pat_completeness auto
termination
  by (relation "measure (\<lambda>(devs, pid, par, ip, path, name, st). length path)") (auto dest: skipelem_shorter)

declare namex_loop.simps [simp del]

definition namex ::
  "devsw \<Rightarrow> int \<Rightarrow> nat \<Rightarrow> u8 list \<Rightarrow> bool \<Rightarrow> u8 list \<Rightarrow> fs \<Rightarrow> ((nat option \<times> u8 list) \<times> fs) result" where
  "namex devs pid cwd path nameiparent name st =
     bindE (rd path 0) (\<lambda>c.
     bindE (if c = slash then iget ROOTDEV ROOTINO st else Inr (idup cwd st)) (\<lambda>(ip, st).
     namex_loop devs pid nameiparent ip path name st))"

definition namei :: "devsw \<Rightarrow> int \<Rightarrow> nat \<Rightarrow> u8 list \<Rightarrow> fs \<Rightarrow> (nat option \<times> fs) result" where
  "namei devs pid cwd path st =
     bindE (namex devs pid cwd path False (replicate DIRSIZ 0) st) (\<lambda>((ip, _), st). Inr (ip, st))"

definition nameiparent :: "devsw \<Rightarrow> int \<Rightarrow> nat \<Rightarrow> u8 list \<Rightarrow> u8 list \<Rightarrow> fs \<Rightarrow> ((nat option \<times> u8 list) \<times> fs) result" where
  "nameiparent devs pid cwd path name st = namex devs pid cwd path True name st"

end
