(* ===== verification/Xv6_Inode.thy ===== *)
theory Xv6_Inode
  imports Xv6_Fs
begin

text \<open>
  What the operations of \<open>Xv6_Fs\<close> on blocks and on the contents of inodes compute: allocation,
  the map from block numbers of a file to blocks of the disk, and reading and writing of bytes.
\<close>

section \<open>Writing blocks\<close>

abbreviation blk :: "fs \<Rightarrow> u32 \<Rightarrow> block" where
  "blk st n \<equiv> store_read n (fs_store st)"

text \<open>The running transaction has room for \<open>k\<close> more calls of \<open>log_write\<close>.\<close>

definition room :: "fs \<Rightarrow> nat \<Rightarrow> bool" where
  "room st k \<longleftrightarrow> transaction (fs_log st) (fs_store st) \<and> 1 \<le> outstanding (fs_log st) \<and>
     lh_n (lh (fs_log st)) + int k \<le> int (log_cap (fs_log st))"

lemma room_mono: "room st k \<Longrightarrow> j \<le> k \<Longrightarrow> room st j"
  by (auto simp: room_def)

definition same_log :: "log \<Rightarrow> log \<Rightarrow> bool" where
  "same_log l' l \<longleftrightarrow> log_start l' = log_start l \<and> log_size l' = log_size l \<and> outstanding l' = outstanding l \<and> committing l' = committing l"

lemma same_log_refl [simp]: "same_log l l" by (simp add: same_log_def)
lemma same_log_trans: "same_log a b \<Longrightarrow> same_log b c \<Longrightarrow> same_log a c" by (simp add: same_log_def)

lemma same_log_region: "same_log l' l \<Longrightarrow> log_region l' = log_region l"
  by (simp add: same_log_def log_region_def log_block_def log_cap_def)

definition same_rest :: "fs \<Rightarrow> fs \<Rightarrow> bool" where
  "same_rest st' st \<longleftrightarrow> same_log (fs_log st') (fs_log st) \<and> fs_sb st' = fs_sb st \<and> fs_disksize st' = fs_disksize st \<and> icache st' = icache st"

lemma same_rest_refl [simp]: "same_rest st st" by (simp add: same_rest_def)
lemma same_rest_trans: "same_rest a b \<Longrightarrow> same_rest b c \<Longrightarrow> same_rest a c" by (simp add: same_rest_def same_log_def)

lemma log_write_transaction:
  assumes "log_write b d l s = Inr (l', s')" and "transaction l s" and "lh_n (lh l) < int LOGSIZE" and "b \<notin> log_region l"
  shows "transaction l' s'"
proof -
  have ok: "log_ok l" using assms(2) by (simp add: transaction_def)
  note some = log_write_some [OF assms(1) ok] and blocks = log_write_blocks [OF assms(1) ok assms(3)]
  have "log_region l' = log_region l" using some by (intro same_log_region) (simp add: same_log_def)
  then show ?thesis using assms(2,4) some by (auto simp: transaction_def blocks head_is_def)
qed

lemma fs_write_ok:
  assumes "room st (Suc k)" and "b \<notin> log_region (fs_log st)"
  obtains st' where "fs_write b d st = Inr st'" and "same_rest st' st" and "room st' k"
    and "\<And>n. blk st' n = (if n = b then d else blk st n)"
proof -
  let ?l = "fs_log st"
  have tr: "transaction ?l (fs_store st)" and c: "lh_n (lh ?l) < int (log_cap ?l)" and o: "1 \<le> outstanding ?l"
    using assms(1) by (auto simp: room_def)
  then have ok: "log_ok ?l" by (simp add: transaction_def)
  then have n: "lh_n (lh ?l) < int LOGSIZE" "lh_n (lh ?l) < log_size ?l - 1" using c by (auto simp: log_ok_def log_cap_def)
  let ?i = "length (takeWhile (\<lambda>x. x \<noteq> b) (take (nat (lh_n (lh ?l))) (lh_block (lh ?l))))"
  have "?i \<le> nat (lh_n (lh ?l))" by (rule order_trans [OF length_takeWhile_le]) simp
  then have "?i < length (lh_block (lh ?l))" using n(1) ok by (auto simp: log_ok_def)
  then obtain l' where l: "log_write b d ?l (fs_store st) = Inr (l', (fs_store st)\<lparr>pinned := (pinned (fs_store st))(b \<mapsto> d)\<rparr>)"
    using n o by (simp add: log_write_def Let_def not_le)
  let ?st = "st\<lparr>fs_log := l', fs_store := (fs_store st)\<lparr>pinned := (pinned (fs_store st))(b \<mapsto> d)\<rparr>\<rparr>"
  show thesis
  proof (rule that [of ?st])
    show "fs_write b d st = Inr ?st" by (simp add: fs_write_def l)
    show "same_rest ?st st" using log_write_some [OF l ok] by (simp add: same_rest_def same_log_def)
    show "room ?st k" using log_write_some [OF l ok] log_write_transaction [OF l tr n(1) assms(2)] assms(1) by (auto simp: room_def log_cap_def)
    show "\<And>n. blk ?st n = (if n = b then d else blk st n)" by (simp add: store_read_def split: option.splits)
  qed
qed

section \<open>The layout of the disk\<close>

text \<open>
  The log comes first, then the inodes, the bitmap and, from \<open>ds\<close> on, the data blocks, all on the disk;
  every block behind the log has its size, and the bitmap marks all blocks before the data as used.
\<close>

definition bit_at :: "block \<Rightarrow> nat \<Rightarrow> bool" where
  "bit_at d k \<longleftrightarrow> d ! (k div 8) AND push_bit (k mod 8) 1 \<noteq> 0"

definition used :: "fs \<Rightarrow> nat \<Rightarrow> bool" where
  "used st b \<longleftrightarrow> bit_at (blk st (BBLOCK (word_of_nat b) (fs_sb st))) (b mod BPB)"

definition sized :: "fs \<Rightarrow> u32 \<Rightarrow> bool" where
  "sized st n \<longleftrightarrow> unat (sb_inodestart (fs_sb st)) \<le> unat n \<and> n < fs_disksize st"

definition layout :: "nat \<Rightarrow> fs \<Rightarrow> bool" where
  "layout ds st \<longleftrightarrow>
     (\<forall>n \<in> log_region (fs_log st). unat n < unat (sb_inodestart (fs_sb st))) \<and>
     unat (sb_inodestart (fs_sb st)) \<le> unat (sb_bmapstart (fs_sb st)) \<and>
     unat (sb_bmapstart (fs_sb st)) + (unat (sb_size (fs_sb st)) + BPB - 1) div BPB \<le> ds \<and>
     0 < unat (sb_bmapstart (fs_sb st)) \<and>
     ds \<le> unat (sb_size (fs_sb st)) \<and> unat (sb_size (fs_sb st)) \<le> unat (fs_disksize st) \<and>
     (\<forall>n. sized st n \<longrightarrow> length (blk st n) = BSIZE) \<and> (\<forall>b < ds. used st b)"

lemma BBLOCK_at:
  assumes "layout ds st" and "b < unat (sb_size (fs_sb st))"
  shows "unat (BBLOCK (word_of_nat b) (fs_sb st)) = b div BPB + unat (sb_bmapstart (fs_sb st))"
    and "unat (BBLOCK (word_of_nat b) (fs_sb st)) < ds"
proof -
  let ?s = "unat (sb_size (fs_sb st))"
  have "?s < 2 ^ 32" using unsigned_less [of "sb_size (fs_sb st)"] by simp
  then have b: "unat (word_of_nat b :: u32) = b" using assms(2) by (simp add: unat_of_nat)
  have bpb: "unat (word_of_nat BPB :: u32) = BPB" by (simp add: BPB_def BSIZE_def)
  have "b div BPB < (?s + BPB - 1) div BPB"
  proof -
    have "b + BPB \<le> ?s + BPB - 1" using assms(2) by simp
    then have "(b + BPB) div BPB \<le> (?s + BPB - 1) div BPB" by (rule div_le_mono)
    then show ?thesis by (simp add: BPB_def BSIZE_def)
  qed
  then have lt: "b div BPB + unat (sb_bmapstart (fs_sb st)) < ds" "ds \<le> ?s" using assms(1) by (auto simp: layout_def)
  then have "b div BPB + unat (sb_bmapstart (fs_sb st)) < 2 ^ 32" using \<open>?s < 2 ^ 32\<close> by linarith
  then show eq: "unat (BBLOCK (word_of_nat b) (fs_sb st)) = b div BPB + unat (sb_bmapstart (fs_sb st))"
    by (simp add: BBLOCK_def unat_word_ariths unat_div b bpb)
  show "unat (BBLOCK (word_of_nat b) (fs_sb st)) < ds" unfolding eq using lt by simp
qed

definition in_data :: "nat \<Rightarrow> fs \<Rightarrow> u32 \<Rightarrow> bool" where
  "in_data ds st a \<longleftrightarrow> ds \<le> unat a \<and> unat a < unat (sb_size (fs_sb st))"

lemma sized_block:
  assumes "layout ds st" and "sized st n"
  shows "n < fs_disksize st" and "length (blk st n) = BSIZE" and "n \<notin> log_region (fs_log st)"
  using assms by (auto simp: layout_def sized_def)

lemma bitmap_block:
  assumes "layout ds st" and "b < unat (sb_size (fs_sb st))"
  shows "sized st (BBLOCK (word_of_nat b) (fs_sb st))"
  using BBLOCK_at [OF assms] assms(1) by (auto simp: layout_def sized_def word_less_nat_alt)

lemma data_block:
  assumes "layout ds st" and "in_data ds st n"
  shows "sized st n"
  using assms by (auto simp: layout_def sized_def in_data_def word_less_nat_alt)

lemma sized_same: "same_rest st' st \<Longrightarrow> sized st' n = sized st n"
  by (simp add: same_rest_def sized_def)

section \<open>Allocation\<close>

lemma bit_at_set:
  assumes "k < BPB" and "length d = BSIZE" and "j < BPB"
  shows "bit_at (d[k div 8 := d ! (k div 8) OR push_bit (k mod 8) 1]) j \<longleftrightarrow> j = k \<or> bit_at d j"
proof -
  have k8: "k div 8 < length d" using assms by (simp add: BPB_def)
  show ?thesis
  proof (cases "j div 8 = k div 8")
    case True
    then have "j = k \<longleftrightarrow> j mod 8 = k mod 8" by (metis div_mult_mod_eq)
    moreover have "bit (d ! (k div 8) OR push_bit (k mod 8) 1) (j mod 8) \<longleftrightarrow> j mod 8 = k mod 8 \<or> bit (d ! (k div 8)) (j mod 8)"
      by (auto simp: bit_simps bit_exp_iff)
    ultimately show ?thesis using True k8 by (simp add: bit_at_def and_exp_eq_0_iff_not_bit)
  next
    case False
    then show ?thesis using k8 by (auto simp: bit_at_def)
  qed
qed

lemma free_bit_result:
  assumes "length d = BSIZE" and "\<And>k. k \<in> set ks \<Longrightarrow> k < BPB"
  shows "free_bit d b sz ks = Inr (find (\<lambda>k. \<not> bit_at d k) (takeWhile (\<lambda>k. b + k < sz) ks))"
  using assms(2)
proof (induction ks)
  case (Cons k ks)
  have "k div 8 < length d" using Cons.prems [of k] assms(1) by (simp add: BPB_def)
  then show ?case using Cons by (auto simp: bit_at_def)
qed simp

lemma takeWhile_upt: "takeWhile (\<lambda>k. b + k < sz) [0..<n] = [0..<min n (sz - b)]"
proof (induction n)
  case (Suc n)
  show ?case
  proof (cases "b + n < sz")
    case True
    then have "takeWhile (\<lambda>k. b + k < sz) [0..<n] = [0..<n]" using Suc by (simp add: min_def)
    then show ?thesis using True by (simp add: takeWhile_append min_def)
  next
    case False
    show ?thesis
    proof (cases "sz - b < n")
      case True
      then have "\<exists>x \<in> set [0..<n]. \<not> b + x < sz" by (intro bexI [of _ "sz - b"]) auto
      then have "takeWhile (\<lambda>k. b + k < sz) ([0..<n] @ [n]) = takeWhile (\<lambda>k. b + k < sz) [0..<n]"
        by (auto intro: takeWhile_append1)
      then show ?thesis using Suc True by (simp add: min_def)
    next
      case small: False
      then have "sz - b = n \<or> n \<le> sz - b" "sz - b \<le> n" using False by auto
      then have eq: "sz - b = n" by auto
      then have "takeWhile (\<lambda>k. b + k < sz) [0..<n] = [0..<n]" using Suc by simp
      then show ?thesis using False eq by (simp add: takeWhile_append)
    qed
  qed
qed simp

text \<open>What the allocator has done when it has returned the block \<open>a\<close>.\<close>

definition allocated :: "fs \<Rightarrow> u32 \<Rightarrow> fs \<Rightarrow> bool" where
  "allocated st a st' \<longleftrightarrow>
     same_rest st' st \<and> unat a < unat (sb_size (fs_sb st)) \<and> \<not> used st (unat a) \<and>
     (\<forall>b < unat (sb_size (fs_sb st)). used st' b \<longleftrightarrow> b = unat a \<or> used st b) \<and>
     blk st' a = replicate BSIZE 0 \<and>
     (\<forall>n. n \<noteq> a \<and> n \<noteq> BBLOCK a (fs_sb st) \<longrightarrow> blk st' n = blk st n) \<and>
     (\<forall>n. sized st n \<longrightarrow> length (blk st' n) = BSIZE)"

lemma used_after:
  assumes "layout ds st" and k: "b = m * BPB + k" "k < BPB" "b < unat (sb_size (fs_sb st))" and j: "j < unat (sb_size (fs_sb st))"
    and d: "d = blk st (BBLOCK (word_of_nat b) (fs_sb st))"
    and blk': "blk st' (BBLOCK (word_of_nat j) (fs_sb st)) =
      (if BBLOCK (word_of_nat j) (fs_sb st) = BBLOCK (word_of_nat b) (fs_sb st) then d[k div 8 := d ! (k div 8) OR push_bit (k mod 8) 1]
       else blk st (BBLOCK (word_of_nat j) (fs_sb st)))" and "fs_sb st' = fs_sb st"
  shows "used st' j \<longleftrightarrow> j = b \<or> used st j"
proof -
  have bd: "b div BPB = m" "b mod BPB = k" using k by (auto simp: BPB_def BSIZE_def)
  have bpb: "j mod BPB < BPB" by (simp add: BPB_def BSIZE_def)
  have len: "length d = BSIZE"
    using sized_block(2) [OF assms(1) bitmap_block [OF assms(1) k(3)]] d by simp
  have same: "BBLOCK (word_of_nat j) (fs_sb st) = BBLOCK (word_of_nat b) (fs_sb st) \<longleftrightarrow> j div BPB = m"
    using BBLOCK_at(1) [OF assms(1) k(3)] BBLOCK_at(1) [OF assms(1) j] bd by (metis add_right_cancel unsigned_word_eqI)
  show ?thesis
  proof (cases "j div BPB = m")
    case True
    then have "j = b \<longleftrightarrow> j mod BPB = k" using bd by (metis div_mult_mod_eq)
    moreover have "BBLOCK (word_of_nat j) (fs_sb st) = BBLOCK (word_of_nat b) (fs_sb st)" using same True by simp
    ultimately show ?thesis using bit_at_set [OF k(2) len bpb] blk' assms(8) d by (simp add: used_def)
  next
    case False
    then have "BBLOCK (word_of_nat j) (fs_sb st) \<noteq> BBLOCK (word_of_nat b) (fs_sb st)" "j \<noteq> b" using same bd by auto
    then show ?thesis using blk' assms(8) by (simp add: used_def)
  qed
qed

lemma bzero_ok:
  assumes "room st (Suc k)" and "b < fs_disksize st" and "length (blk st b) = BSIZE" and "b \<notin> log_region (fs_log st)"
  obtains st' where "bzero 1 b st = Inr st'" and "same_rest st' st" and "room st' k"
    and "\<And>n. blk st' n = (if n = b then replicate BSIZE 0 else blk st n)"
proof -
  obtain st' where st': "fs_write b (replicate BSIZE 0) st = Inr st'" "same_rest st' st" "room st' k"
    "\<And>n. blk st' n = (if n = b then replicate BSIZE 0 else blk st n)"
    using fs_write_ok [OF assms(1,4), of "replicate BSIZE 0"] by metis
  have "memset (blk st b) 0 0 BSIZE = Inr (overwrite (blk st b) 0 (replicate BSIZE 0))"
    using memset_fills [of 0 BSIZE "blk st b" 0] assms(3) by simp
  moreover have "overwrite (blk st b) 0 (replicate BSIZE 0) = replicate BSIZE 0"
    using assms(3) by (simp add: overwrite_def)
  ultimately show thesis using that [OF _ st'(2-4)] st'(1) assms(2) by (simp add: bzero_def fs_read_def)
qed

lemma balloc_bit:
  assumes lay: "layout ds st" and room: "room st (Suc (Suc j))" and b: "b = m * BPB + k" "k < BPB" "b < unat (sb_size (fs_sb st))"
    and free: "\<not> used st b" and d: "d = blk st (BBLOCK (word_of_nat b) (fs_sb st))"
  shows "\<exists>st'. bindE (fs_write (BBLOCK (word_of_nat b) (fs_sb st)) (d[k div 8 := d ! (k div 8) OR push_bit (k mod 8) 1]) st)
      (bzero 1 (word_of_nat b)) = Inr st' \<and> allocated st (word_of_nat b) st' \<and> room st' j"
proof -
  let ?bb = "BBLOCK (word_of_nat b) (fs_sb st)" and ?d = "d[k div 8 := d ! (k div 8) OR push_bit (k mod 8) 1]"
  have size: "unat (sb_size (fs_sb st)) < 2 ^ 32" using unsigned_less [of "sb_size (fs_sb st)"] by simp
  then have ub: "unat (word_of_nat b :: u32) = b" using b(3) by (simp add: unat_of_nat)
  note bb = BBLOCK_at [OF lay b(3)]
  have meta: "\<And>i. i < ds \<Longrightarrow> used st i" using lay by (simp add: layout_def)
  then have "ds \<le> b" using free not_le by blast
  then have sz: "sized st (word_of_nat b)" "sized st ?bb"
    using data_block [OF lay] bitmap_block [OF lay b(3)] b(3) by (auto simp: in_data_def ub)
  note lens = sized_block(2) [OF lay] and out = sized_block(3) [OF lay]
  have ne: "word_of_nat b \<noteq> ?bb" using \<open>ds \<le> b\<close> bb(2) ub by auto
  obtain s1 where s1: "fs_write ?bb ?d st = Inr s1" "same_rest s1 st" "room s1 (Suc j)"
    "\<And>n. blk s1 n = (if n = ?bb then ?d else blk st n)"
    using fs_write_ok [OF room out [OF sz(2)], of ?d] by blast
  have "length (blk s1 (word_of_nat b)) = BSIZE" using s1(4) ne lens sz(1) by simp
  moreover have "word_of_nat b < fs_disksize s1" using s1(2) sz(1) by (simp add: same_rest_def sized_def)
  moreover have "word_of_nat b \<notin> log_region (fs_log s1)" using s1(2) out [OF sz(1)] same_log_region [of "fs_log s1" "fs_log st"] by (simp add: same_rest_def)
  ultimately obtain s2 where s2: "bzero 1 (word_of_nat b) s1 = Inr s2" "same_rest s2 s1" "room s2 j"
    "\<And>n. blk s2 n = (if n = word_of_nat b then replicate BSIZE 0 else blk s1 n)"
    using bzero_ok [OF s1(3), of "word_of_nat b"] by blast
  have same: "same_rest s2 st" using same_rest_trans s1(2) s2(2) by blast
  then have sb: "fs_sb s2 = fs_sb st" by (simp add: same_rest_def)
  have "used s2 i \<longleftrightarrow> i = b \<or> used st i" if i: "i < unat (sb_size (fs_sb st))" for i
  proof (rule used_after [OF lay b i d _ sb])
    have "unat (BBLOCK (word_of_nat i) (fs_sb st)) < ds" using BBLOCK_at(2) [OF lay i] .
    then have "BBLOCK (word_of_nat i) (fs_sb st) \<noteq> word_of_nat b" using \<open>ds \<le> b\<close> ub by auto
    then show "blk s2 (BBLOCK (word_of_nat i) (fs_sb st)) = (if BBLOCK (word_of_nat i) (fs_sb st) = ?bb then ?d
      else blk st (BBLOCK (word_of_nat i) (fs_sb st)))" by (simp add: s2(4) s1(4))
  qed
  moreover have "length (blk s2 n) = BSIZE" if "sized st n" for n
    using lens [OF that] lens [OF sz(2)] by (auto simp: s2(4) s1(4) d)
  moreover have "blk s2 n = blk st n" if "n \<noteq> word_of_nat b \<and> n \<noteq> ?bb" for n using that by (simp add: s2(4) s1(4))
  ultimately have "allocated st (word_of_nat b) s2"
    unfolding allocated_def ub using same b(3) free s2(4) [of "word_of_nat b"] by simp
  then show ?thesis using s1(1) s2(1,3) by auto
qed

lemma balloc_from_ok:
  assumes lay: "layout ds st" and room: "room st (Suc (Suc j))"
    and ms: "\<And>m. m \<in> set ms \<Longrightarrow> m * BPB < unat (sb_size (fs_sb st))"
    and free: "\<exists>m \<in> set ms. \<exists>k < BPB. m * BPB + k < unat (sb_size (fs_sb st)) \<and> \<not> used st (m * BPB + k)"
  shows "\<exists>a st'. balloc_from 1 (map (\<lambda>m. m * BPB) ms) st = Inr (a, st') \<and> allocated st a st' \<and> room st' j"
  using ms free
proof (induction ms)
  case Nil
  then show ?case by simp
next
  case (Cons m ms)
  let ?sz = "unat (sb_size (fs_sb st))" and ?bb = "BBLOCK (word_of_nat (m * BPB)) (fs_sb st)"
  let ?d = "blk st ?bb"
  have m: "m * BPB < ?sz" using Cons.prems(1) by simp
  note bb = BBLOCK_at [OF lay m]
  have bpb: "0 < BPB" by (simp add: BPB_def BSIZE_def)
  have rdok: "fs_read 1 ?bb st = Inr ?d" and len: "length ?d = BSIZE"
    using sized_block [OF lay bitmap_block [OF lay m]] by (simp_all add: fs_read_def not_le)
  have same: "BBLOCK (word_of_nat (m * BPB + k)) (fs_sb st) = ?bb" if "k < BPB" "m * BPB + k < ?sz" for k
    using BBLOCK_at(1) [OF lay that(2)] bb(1) that bpb by (simp add: word_unat_eq_iff)
  have bit: "bit_at ?d k = used st (m * BPB + k)" if "k < BPB" "m * BPB + k < ?sz" for k
    using same [OF that] that by (simp add: used_def)
  have fb: "free_bit ?d (m * BPB) ?sz [0..<BPB] = Inr (find (\<lambda>k. \<not> bit_at ?d k) [0..<min BPB (?sz - m * BPB)])"
    using free_bit_result [OF len, of "[0..<BPB]"] by (simp add: takeWhile_upt)
  show ?case
  proof (cases "find (\<lambda>k. \<not> bit_at ?d k) [0..<min BPB (?sz - m * BPB)]")
    case (Some k)
    then have "k < min BPB (?sz - m * BPB)" and nb: "\<not> bit_at ?d k" by (auto simp: find_Some_iff)
    then have k: "k < BPB" "m * BPB + k < ?sz" by auto
    have "k div 8 < length ?d" unfolding len using k(1) by (simp add: BPB_def)
    moreover have "\<not> used st (m * BPB + k)" using bit [OF k] nb by simp
    from balloc_bit [OF lay room refl k(1) k(2) this refl] obtain st' where
      "bindE (fs_write ?bb (?d[k div 8 := ?d ! (k div 8) OR push_bit (k mod 8) 1]) st) (bzero 1 (word_of_nat (m * BPB + k))) = Inr st'"
      "allocated st (word_of_nat (m * BPB + k)) st'" "room st' j"
      unfolding same [OF k] by blast
    ultimately show ?thesis using Some rdok fb by (auto simp: Let_def)
  next
    case None
    then have full: "used st (m * BPB + k)" if "k < BPB" "m * BPB + k < ?sz" for k
      using bit [OF that] that by (auto simp: find_None_iff)
    then have "\<exists>m \<in> set ms. \<exists>k < BPB. m * BPB + k < ?sz \<and> \<not> used st (m * BPB + k)" using Cons.prems(2) by auto
    with Cons.IH Cons.prems(1) show ?thesis using None rdok fb by (simp add: Let_def)
  qed
qed

lemma balloc_ok:
  assumes lay: "layout ds st" and room: "room st (Suc (Suc j))" and free: "\<exists>b < unat (sb_size (fs_sb st)). \<not> used st b"
  shows "\<exists>a st'. balloc 1 st = Inr (a, st') \<and> allocated st a st' \<and> room st' j"
proof -
  let ?sz = "unat (sb_size (fs_sb st))" and ?n = "(unat (sb_size (fs_sb st)) + BPB - 1) div BPB"
  have bpb: "0 < BPB" by (simp add: BPB_def BSIZE_def)
  have lt: "m < ?n \<longleftrightarrow> m * BPB < ?sz" for m using bpb by (simp add: less_eq_Suc_le [of m] less_eq_div_iff_mult_less_eq) linarith
  obtain b where b: "b < ?sz" "\<not> used st b" using free by blast
  then have "b div BPB * BPB < ?sz" using div_times_less_eq_dividend [of b BPB] by linarith
  then have "b div BPB \<in> set [0..<?n]" using lt by simp
  moreover have "b mod BPB < BPB" "b div BPB * BPB + b mod BPB = b" using bpb by simp_all
  ultimately have "\<exists>m \<in> set [0..<?n]. \<exists>k < BPB. m * BPB + k < ?sz \<and> \<not> used st (m * BPB + k)" using b by metis
  moreover have "\<And>m. m \<in> set [0..<?n] \<Longrightarrow> m * BPB < ?sz" using lt by simp
  ultimately show ?thesis unfolding balloc_def bitmap_starts_def by (intro balloc_from_ok [OF lay room]) auto
qed

section \<open>The blocks of a file\<close>

definition word_at :: "block \<Rightarrow> nat \<Rightarrow> u32" where
  "word_at d i = word_of_nat (le_bytes (take 4 (drop (4 * i) d)))"

lemma get32_word_at: "4 * i + 4 \<le> length d \<Longrightarrow> get32 d (4 * i) = Inr (word_at d i)"
  by (simp add: get32_def le_field_def word_at_def)

lemma word_at_put:
  assumes "4 * i + 4 \<le> length d" and "4 * j + 4 \<le> length d"
  shows "word_at (overwrite d (4 * i) (le_encode 4 (unat a))) j = (if j = i then a else word_at d j)"
proof -
  let ?d = "overwrite d (4 * i) (le_encode 4 (unat a))"
  have l: "length ?d = length d" using assms(1) by simp
  have "j \<noteq> i \<Longrightarrow> 4 * j + 4 \<le> 4 * i \<or> 4 * i + 4 \<le> 4 * j" by linarith
  then have "get32 ?d (4 * j) = Inr (if j = i then a else word_at d j)"
    using get_put_same [OF assms(1), of a] get_put_other [OF assms(1), of "4 * j" a] get32_word_at [OF assms(2)] by auto
  then show ?thesis using get32_word_at [of j ?d] assms(2) l by simp
qed

lemma word_at_zero: "word_at (replicate n 0) j = 0"
proof -
  have "le_bytes (replicate m 0) = 0" for m by (induction m) auto
  then show ?thesis by (simp add: word_at_def)
qed

text \<open>The indirect block and the block that holds block number \<open>k\<close> of the file; 0 if there is none.\<close>

definition ind :: "fs \<Rightarrow> nat \<Rightarrow> u32" where
  "ind st ip = i_addrs (icache st ip) ! NDIRECT"

definition addr :: "fs \<Rightarrow> nat \<Rightarrow> nat \<Rightarrow> u32" where
  "addr st ip k = (if k < NDIRECT then i_addrs (icache st ip) ! k
     else if ind st ip = 0 then 0 else word_at (blk st (ind st ip)) (k - NDIRECT))"

text \<open>All blocks that belong to the file; the indirect block has the last number.\<close>

definition slot :: "fs \<Rightarrow> nat \<Rightarrow> nat \<Rightarrow> u32" where
  "slot st ip k = (if k = MAXFILE then ind st ip else addr st ip k)"

text \<open>An inode whose blocks are distinct data blocks that the bitmap marks as used.\<close>

definition file_ok :: "nat \<Rightarrow> nat \<Rightarrow> fs \<Rightarrow> bool" where
  "file_ok ds ip st \<longleftrightarrow> layout ds st \<and> i_dev (icache st ip) = 1 \<and> length (i_addrs (icache st ip)) = NDIRECT + 1 \<and>
     (\<forall>k \<le> MAXFILE. slot st ip k \<noteq> 0 \<longrightarrow> in_data ds st (slot st ip k) \<and> used st (unat (slot st ip k))) \<and>
     (\<forall>j \<le> MAXFILE. \<forall>k \<le> MAXFILE. slot st ip j \<noteq> 0 \<and> slot st ip j = slot st ip k \<longrightarrow> j = k)"

definition same_inode :: "inode \<Rightarrow> inode \<Rightarrow> bool" where
  "same_inode x y \<longleftrightarrow> x\<lparr>i_addrs := []\<rparr> = y\<lparr>i_addrs := []\<rparr>"

text \<open>The new block \<open>a\<close> has been put into the empty slot \<open>k\<close>.\<close>

definition grown :: "nat \<Rightarrow> nat \<Rightarrow> fs \<Rightarrow> nat \<Rightarrow> u32 \<Rightarrow> fs \<Rightarrow> bool" where
  "grown ds ip st k a st' \<longleftrightarrow>
     fs_sb st' = fs_sb st \<and> fs_disksize st' = fs_disksize st \<and> (\<forall>i. i \<noteq> ip \<longrightarrow> icache st' i = icache st i) \<and>
     same_inode (icache st' ip) (icache st ip) \<and> length (i_addrs (icache st' ip)) = NDIRECT + 1 \<and>
     same_log (fs_log st') (fs_log st) \<and> (\<forall>n. sized st n \<longrightarrow> length (blk st' n) = BSIZE) \<and>
     in_data ds st a \<and> \<not> used st (unat a) \<and>
     (\<forall>b < unat (sb_size (fs_sb st)). used st' b \<longleftrightarrow> b = unat a \<or> used st b) \<and>
     (\<forall>j \<le> MAXFILE. slot st' ip j = (if j = k then a else slot st ip j)) \<and>
     blk st' a = replicate BSIZE 0 \<and>
     (\<forall>n. in_data ds st n \<and> n \<noteq> a \<and> n \<noteq> ind st ip \<longrightarrow> blk st' n = blk st n)"

lemma layout_pos: "layout ds st \<Longrightarrow> 0 < ds"
  by (auto simp: layout_def)

lemma grown_nonzero: "layout ds st \<Longrightarrow> grown ds ip st k a st' \<Longrightarrow> a \<noteq> 0"
  using layout_pos by (fastforce simp: grown_def in_data_def)

lemma grown_file_ok:
  assumes ok: "file_ok ds ip st" and k: "k \<le> MAXFILE" "slot st ip k = 0" and g: "grown ds ip st k a st'"
  shows "file_ok ds ip st'"
proof -
  have lay: "layout ds st" using ok by (simp add: file_ok_def)
  then have "ds \<le> unat (sb_size (fs_sb st))" by (simp add: layout_def)
  moreover have "log_region (fs_log st') = log_region (fs_log st)" using g by (intro same_log_region) (simp add: grown_def)
  ultimately have "layout ds st'" using lay g by (auto simp: layout_def grown_def sized_def)
  moreover have "i_dev (icache st' ip) = 1"
    using ok g by (cases "icache st' ip"; cases "icache st ip") (auto simp: file_ok_def grown_def same_inode_def)
  moreover have "in_data ds st' (slot st' ip j) \<and> used st' (unat (slot st' ip j))" if "j \<le> MAXFILE" "slot st' ip j \<noteq> 0" for j
    using that ok g by (auto simp: file_ok_def grown_def in_data_def)
  moreover have "i = j" if ij: "i \<le> MAXFILE" "j \<le> MAXFILE" "slot st' ip i \<noteq> 0" "slot st' ip i = slot st' ip j" for i j
  proof -
    have "slot st ip x \<noteq> a" if "x \<le> MAXFILE" "slot st ip x \<noteq> 0" for x
      using ok g that by (auto simp: file_ok_def grown_def)
    moreover have "a \<noteq> 0" using grown_nonzero [OF lay g] .
    ultimately show ?thesis using ij ok g by (auto simp: file_ok_def grown_def split: if_splits)
  qed
  moreover have "length (i_addrs (icache st' ip)) = NDIRECT + 1" using g by (simp add: grown_def)
  ultimately show ?thesis unfolding file_ok_def by blast
qed

lemma allocated_in_data:
  assumes "layout ds st" and "allocated st a st'"
  shows "in_data ds st a" and "\<And>n. in_data ds st n \<Longrightarrow> n \<noteq> a \<Longrightarrow> blk st' n = blk st n"
proof -
  have "ds \<le> unat a"
  proof (rule ccontr)
    assume "\<not> ds \<le> unat a"
    then have "used st (unat a)" using assms(1) by (simp add: layout_def)
    then show False using assms(2) by (simp add: allocated_def)
  qed
  then show "in_data ds st a" using assms(2) by (simp add: in_data_def allocated_def)
  fix n assume n: "in_data ds st n" "n \<noteq> a"
  have "unat (BBLOCK (word_of_nat (unat a)) (fs_sb st)) < ds"
    using BBLOCK_at(2) [OF assms(1), of "unat a"] assms(2) by (simp add: allocated_def)
  then have "n \<noteq> BBLOCK a (fs_sb st)" using n(1) by (auto simp: in_data_def)
  then show "blk st' n = blk st n" using assms(2) n(2) by (simp add: allocated_def)
qed

lemma set_addr_simps [simp]:
  "blk (set_addr ip k a st) n = blk st n" "fs_sb (set_addr ip k a st) = fs_sb st"
  "fs_disksize (set_addr ip k a st) = fs_disksize st" "fs_log (set_addr ip k a st) = fs_log st" "used (set_addr ip k a st) b = used st b"
  "room (set_addr ip k a st) j = room st j" "i_addrs (icache (set_addr ip k a st) ip) = (i_addrs (icache st ip))[k := a]"
  "same_inode (icache (set_addr ip k a st) ip) (icache st ip)" "i \<noteq> ip \<Longrightarrow> icache (set_addr ip k a st) i = icache st i"
  by (simp_all add: set_addr_def upd_inode_def used_def room_def same_inode_def)

lemma slot_cases: "k \<le> MAXFILE \<Longrightarrow> slot st ip k = (if k < NDIRECT then i_addrs (icache st ip) ! k else if k = MAXFILE then ind st ip
    else if ind st ip = 0 then 0 else word_at (blk st (ind st ip)) (k - NDIRECT))"
  by (auto simp: slot_def addr_def MAXFILE_def NINDIRECT_def BSIZE_def)

lemma file_ind:
  assumes "file_ok ds ip st" and "ind st ip \<noteq> 0"
  shows "in_data ds st (ind st ip)" "used st (unat (ind st ip))" "length (blk st (ind st ip)) = BSIZE" "ind st ip < fs_disksize st"
    "ind st ip \<notin> log_region (fs_log st)"
proof -
  have "slot st ip MAXFILE = ind st ip" by (simp add: slot_def)
  then show d: "in_data ds st (ind st ip)" and "used st (unat (ind st ip))" using assms by (auto simp: file_ok_def)
  moreover have "layout ds st" using assms(1) by (simp add: file_ok_def)
  ultimately show "ind st ip < fs_disksize st" "length (blk st (ind st ip)) = BSIZE" "ind st ip \<notin> log_region (fs_log st)"
    using sized_block [OF _ data_block] by blast+
qed

lemma alloc_blk_ind:
  assumes "file_ok ds ip st" and "allocated st a s1" and "ind st ip \<noteq> 0"
  shows "blk s1 (ind st ip) = blk st (ind st ip)"
proof -
  have "ind st ip \<noteq> a" using file_ind(2) [OF assms(1,3)] assms(2) by (auto simp: allocated_def)
  moreover have "layout ds st" using assms(1) by (simp add: file_ok_def)
  ultimately show ?thesis using allocated_in_data(2) [OF _ assms(2)] file_ind(1) [OF assms(1,3)] by blast
qed

lemma alloc_direct:
  assumes ok: "file_ok ds ip st" and k: "k \<le> NDIRECT" "i_addrs (icache st ip) ! k = 0" and al: "allocated st a s1"
  shows "grown ds ip st (if k = NDIRECT then MAXFILE else k) a (set_addr ip k a s1)"
proof -
  let ?st = "set_addr ip k a s1" and ?as = "i_addrs (icache st ip)"
  have lay: "layout ds st" and len: "length ?as = NDIRECT + 1" using ok by (simp_all add: file_ok_def)
  have s1: "fs_sb s1 = fs_sb st" "fs_disksize s1 = fs_disksize st" "icache s1 = icache st"
    using al by (auto simp: allocated_def same_rest_def)
  have az: "blk s1 a = replicate BSIZE 0" using al by (simp add: allocated_def)
  have inds: "ind ?st ip = (if k = NDIRECT then a else ind st ip)" using len k(1) by (simp add: ind_def s1)
  have "slot ?st ip j = (if j = (if k = NDIRECT then MAXFILE else k) then a else slot st ip j)" if j: "j \<le> MAXFILE" for j
  proof -
    have kM: "k \<noteq> MAXFILE" "NDIRECT < MAXFILE" using k(1) by (auto simp: MAXFILE_def NINDIRECT_def BSIZE_def)
    show ?thesis
    proof (cases "k = NDIRECT")
      case True
      then have "ind st ip = 0" using k(2) by (simp add: ind_def)
      moreover have "ind ?st ip = a" using inds True by simp
      ultimately show ?thesis using True j kM len by (simp add: slot_cases az word_at_zero s1)
    next
      case False
      then show ?thesis using j kM len k(1) alloc_blk_ind [OF ok al] by (auto simp: slot_cases inds s1 nth_list_update_if)
    qed
  qed
  moreover have "same_inode (icache ?st ip) (icache st ip)" using set_addr_simps(8) [of ip k a s1] unfolding s1(3) .
  ultimately show ?thesis
    using allocated_in_data [OF lay al] al len s1 by (auto simp: grown_def allocated_def same_rest_def)
qed

lemma alloc_entry:
  assumes ok: "file_ok ds ip st" and i: "i < NINDIRECT" "ind st ip \<noteq> 0" and al: "allocated st a s1"
    and st': "same_rest st' s1"
      "\<And>n. blk st' n = (if n = ind st ip then overwrite (blk st (ind st ip)) (4 * i) (le_encode 4 (unat a)) else blk s1 n)"
  shows "grown ds ip st (NDIRECT + i) a st'"
proof -
  have lay: "layout ds st" and len: "length (i_addrs (icache st ip)) = NDIRECT + 1" using ok by (simp_all add: file_ok_def)
  note fi = file_ind [OF ok i(2)]
  have rest: "fs_sb st' = fs_sb st" "fs_disksize st' = fs_disksize st" "icache st' = icache st"
    using al st'(1) by (auto simp: allocated_def same_rest_def)
  have ia: "ind st ip \<noteq> a" using fi(2) al by (auto simp: allocated_def)
  have inds: "ind st' ip = ind st ip" by (simp add: ind_def rest)
  have i4: "4 * i + 4 \<le> length (blk st (ind st ip))" using i(1) fi(3) by (simp add: NINDIRECT_def BSIZE_def)
  have "slot st' ip j = (if j = NDIRECT + i then a else slot st ip j)" if j: "j \<le> MAXFILE" for j
  proof -
    have M: "NDIRECT + i \<noteq> MAXFILE" using i(1) by (simp add: MAXFILE_def)
    have "4 * (j - NDIRECT) + 4 \<le> length (blk st (ind st ip))" if "j \<noteq> MAXFILE" "NDIRECT \<le> j"
      using that j fi(3) by (auto simp: MAXFILE_def NINDIRECT_def BSIZE_def)
    then show ?thesis using j M i(2) word_at_put [OF i4, of "j - NDIRECT" a] by (auto simp: slot_cases inds rest st'(2))
  qed
  moreover have "used st' b = used s1 b" if "b < unat (sb_size (fs_sb st))" for b
  proof -
    have "unat (BBLOCK (word_of_nat b) (fs_sb st)) < ds" using BBLOCK_at(2) [OF lay that] .
    then have "BBLOCK (word_of_nat b) (fs_sb st) \<noteq> ind st ip" using fi(1) by (auto simp: in_data_def)
    moreover have "fs_sb s1 = fs_sb st" using al by (simp add: allocated_def same_rest_def)
    ultimately show ?thesis by (simp add: used_def rest st'(2))
  qed
  moreover have "\<forall>n. sized st n \<longrightarrow> length (blk st' n) = BSIZE" using al fi(3) i4 by (auto simp: st'(2) allocated_def)
  moreover have "same_log (fs_log st') (fs_log st)"
    using al st'(1) same_log_trans by (auto simp: allocated_def same_rest_def)
  moreover have "blk st' a = replicate BSIZE 0" using al ia by (simp add: st'(2) allocated_def)
  ultimately show ?thesis
    using allocated_in_data [OF lay al] al len rest by (auto simp: grown_def allocated_def same_inode_def st'(2))
qed

section \<open>The map of a file\<close>

text \<open>The number of free blocks.\<close>

definition frees :: "fs \<Rightarrow> nat" where
  "frees st = card {b. b < unat (sb_size (fs_sb st)) \<and> \<not> used st b}"

lemma grown_frees:
  assumes "grown ds ip st k a st'"
  shows "frees st = Suc (frees st')"
proof -
  let ?F = "\<lambda>s. {b. b < unat (sb_size (fs_sb st)) \<and> \<not> used s b}"
  have "?F st = insert (unat a) (?F st')" "unat a \<notin> ?F st'" using assms by (auto simp: grown_def in_data_def)
  then show ?thesis using assms by (simp add: frees_def grown_def)
qed

lemma frees_some: "0 < frees st \<Longrightarrow> \<exists>b < unat (sb_size (fs_sb st)). \<not> used st b"
  by (auto simp: frees_def card_gt_0_iff)

text \<open>
  What has not changed after \<open>bmap\<close> on block number \<open>k\<close> of the file: the other block numbers, the
  contents of the blocks the file has, and the used data blocks of other files. A new block is zero.
\<close>

definition mapped :: "nat \<Rightarrow> nat \<Rightarrow> fs \<Rightarrow> nat \<Rightarrow> fs \<Rightarrow> bool" where
  "mapped ds ip st k st' \<longleftrightarrow> file_ok ds ip st' \<and> same_log (fs_log st') (fs_log st) \<and>
     fs_sb st' = fs_sb st \<and> fs_disksize st' = fs_disksize st \<and> (\<forall>i. i \<noteq> ip \<longrightarrow> icache st' i = icache st i) \<and>
     same_inode (icache st' ip) (icache st ip) \<and>
     addr st' ip k \<noteq> 0 \<and> (\<forall>j < MAXFILE. j \<noteq> k \<longrightarrow> addr st' ip j = addr st ip j) \<and>
     (addr st ip k \<noteq> 0 \<longrightarrow> addr st' ip k = addr st ip k) \<and>
     (\<forall>j < MAXFILE. addr st ip j \<noteq> 0 \<longrightarrow> blk st' (addr st ip j) = blk st (addr st ip j)) \<and>
     (addr st ip k = 0 \<longrightarrow> blk st' (addr st' ip k) = replicate BSIZE 0) \<and>
     (\<forall>b < unat (sb_size (fs_sb st)). used st b \<longrightarrow> used st' b) \<and>
     (\<forall>j \<le> MAXFILE. slot st' ip j \<noteq> slot st ip j \<longrightarrow> \<not> used st (unat (slot st' ip j))) \<and>
     (\<forall>n. in_data ds st n \<and> used st (unat n) \<and> (\<forall>j \<le> MAXFILE. slot st ip j \<noteq> n) \<longrightarrow> blk st' n = blk st n)"

lemma mapped_refl: "file_ok ds ip st \<Longrightarrow> addr st ip k \<noteq> 0 \<Longrightarrow> mapped ds ip st k st"
  by (simp add: mapped_def same_inode_def)

lemma slot_addr: "k < MAXFILE \<Longrightarrow> slot st ip k = addr st ip k"
  by (simp add: slot_def)

lemma addr_not_ind:
  assumes "file_ok ds ip st" and "k < MAXFILE" and "addr st ip k \<noteq> 0"
  shows "addr st ip k \<noteq> ind st ip" and "in_data ds st (addr st ip k)" and "used st (unat (addr st ip k))"
proof -
  have s: "slot st ip k = addr st ip k" "slot st ip MAXFILE = ind st ip" using assms(2) by (simp_all add: slot_def)
  then show "addr st ip k \<noteq> ind st ip" using assms unfolding file_ok_def by (metis less_imp_le_nat less_irrefl order_refl)
  show "in_data ds st (addr st ip k)" and "used st (unat (addr st ip k))"
    using assms s unfolding file_ok_def by (metis less_imp_le_nat)+
qed

text \<open>One or two steps of growth.\<close>

lemma grown_mapped:
  assumes ok: "file_ok ds ip st" and k: "k < MAXFILE" "addr st ip k = 0" and g: "grown ds ip st k a st'"
  shows "mapped ds ip st k st'"
proof -
  have "layout ds st" using ok by (simp add: file_ok_def)
  then have a: "a \<noteq> 0" using grown_nonzero g by blast
  have addrs: "addr st' ip j = (if j = k then a else addr st ip j)" if "j < MAXFILE" for j
    using g that unfolding grown_def by (metis less_imp_le_nat slot_addr)
  have na: "n \<noteq> a" if "used st (unat n)" for n using g that by (auto simp: grown_def)
  have blks: "blk st' (addr st ip j) = blk st (addr st ip j)" if "j < MAXFILE" "addr st ip j \<noteq> 0" for j
    using g addr_not_ind [OF ok that] na by (auto simp: grown_def)
  have frame: "blk st' n = blk st n" if "in_data ds st n" "used st (unat n)" "\<forall>j \<le> MAXFILE. slot st ip j \<noteq> n" for n
  proof -
    have "n \<noteq> ind st ip" using that(3) by (auto simp: slot_def)
    then show ?thesis using g that na by (auto simp: grown_def)
  qed
  have "file_ok ds ip st'" using grown_file_ok [OF ok _ _ g] k by (simp add: slot_addr)
  then show ?thesis using g a k addrs blks frame by (auto simp: mapped_def grown_def)
qed

lemma grown_ind_mapped:
  assumes ok: "file_ok ds ip st" and "ind st ip = 0" and g: "grown ds ip st MAXFILE a s1" and m: "mapped ds ip s1 k st'" and k: "k < MAXFILE"
  shows "mapped ds ip st k st'"
proof -
  have ok1: "file_ok ds ip s1" using grown_file_ok [OF ok _ _ g] assms(2) by (simp add: slot_def)
  have addrs: "addr s1 ip j = addr st ip j" if "j < MAXFILE" for j
    using g that unfolding grown_def by (metis less_imp_le_nat less_irrefl slot_addr)
  have na: "n \<noteq> a" if "used st (unat n)" for n using g that by (auto simp: grown_def)
  have blks: "blk s1 (addr st ip j) = blk st (addr st ip j)" if "j < MAXFILE" "addr st ip j \<noteq> 0" for j
    using g addr_not_ind [OF ok that] na by (auto simp: grown_def)
  have frame: "blk st' n = blk st n" if n: "in_data ds st n" "used st (unat n)" "\<forall>j \<le> MAXFILE. slot st ip j \<noteq> n" for n
  proof -
    have "n \<noteq> ind st ip" using n(3) by (auto simp: slot_def)
    then have "blk s1 n = blk st n" using g n na by (auto simp: grown_def)
    moreover have "used s1 (unat n)" "in_data ds s1 n" using g n by (auto simp: grown_def in_data_def)
    moreover have "\<forall>j \<le> MAXFILE. slot s1 ip j \<noteq> n" using g n(3) na [OF n(2)] by (auto simp: grown_def)
    ultimately show ?thesis using m by (simp add: mapped_def)
  qed
  have slots: "\<not> used st (unat (slot st' ip j))" if j: "j \<le> MAXFILE" "slot st' ip j \<noteq> slot st ip j" for j
  proof (cases "slot st' ip j = slot s1 ip j")
    case True
    then have "slot st' ip j = a" using g j by (auto simp: grown_def split: if_splits)
    then show ?thesis using g by (simp add: grown_def)
  next
    case False
    then have "\<not> used s1 (unat (slot st' ip j))" using m j by (simp add: mapped_def)
    moreover have "slot st' ip j \<noteq> 0"
    proof
      assume "slot st' ip j = 0"
      moreover have "layout ds s1" using ok1 by (simp add: file_ok_def)
      then have "used s1 0" using layout_pos [of ds s1] by (simp add: layout_def)
      ultimately show False using \<open>\<not> used s1 (unat (slot st' ip j))\<close> by simp
    qed
    then have "in_data ds st' (slot st' ip j)" using m j by (simp add: mapped_def file_ok_def)
    then have "unat (slot st' ip j) < unat (sb_size (fs_sb st))" using m g by (simp add: mapped_def grown_def in_data_def)
    ultimately show ?thesis using g by (auto simp: grown_def)
  qed
  show ?thesis using m g addrs k blks frame slots by (auto simp: mapped_def grown_def same_inode_def same_log_def)
qed

lemma addr_or_alloc_ok:
  assumes ok: "file_ok ds ip st" and k: "k \<le> NDIRECT" "i_addrs (icache st ip) ! k = 0" and "room st (Suc (Suc j))" and "0 < frees st"
  shows "\<exists>a st'. addr_or_alloc ip k st = Inr (a, st') \<and> grown ds ip st (if k = NDIRECT then MAXFILE else k) a st' \<and> room st' j"
proof -
  have lay: "layout ds st" and dev: "i_dev (icache st ip) = 1" and len: "k < length (i_addrs (icache st ip))"
    using ok k(1) by (auto simp: file_ok_def)
  from balloc_ok [OF lay assms(4) frees_some [OF assms(5)]] obtain a s1
    where s1: "balloc 1 st = Inr (a, s1)" "allocated st a s1" "room s1 j" by blast
  then show ?thesis using alloc_direct [OF ok k s1(2)] dev len k(2) by (auto simp: addr_or_alloc_def)
qed

lemma addr_or_alloc_same:
  "k < length (i_addrs (icache st ip)) \<Longrightarrow> i_addrs (icache st ip) ! k \<noteq> 0 \<Longrightarrow> addr_or_alloc ip k st = Inr (i_addrs (icache st ip) ! k, st)"
  by (simp add: addr_or_alloc_def)

text \<open>The part of \<open>bmap\<close> behind the indirect block.\<close>

lemma bmap_entry:
  assumes ok: "file_ok ds ip st" and i: "i < NINDIRECT" "ind st ip \<noteq> 0" and room: "room st (Suc (Suc (Suc j)))" and "0 < frees st"
  shows "\<exists>a st'. bmap_indirect ip i (ind st ip) st = Inr (a, st') \<and>
    mapped ds ip st (NDIRECT + i) st' \<and> a = addr st' ip (NDIRECT + i) \<and> room st' j \<and> frees st \<le> Suc (frees st')"
proof -
  have lay: "layout ds st" and dev: "i_dev (icache st ip) = 1" using ok by (simp_all add: file_ok_def)
  note fi = file_ind [OF ok i(2)]
  have i4: "4 * i + 4 \<le> length (blk st (ind st ip))" using i(1) fi(3) by (simp add: NINDIRECT_def BSIZE_def)
  have rd: "fs_read (i_dev (icache st ip)) (ind st ip) st = Inr (blk st (ind st ip))"
    using fi(4) dev by (simp add: fs_read_def not_le)
  have M: "NDIRECT + i < MAXFILE" using i(1) by (simp add: MAXFILE_def)
  have entry: "addr st ip (NDIRECT + i) = word_at (blk st (ind st ip)) i" using i(2) by (simp add: addr_def)
  show ?thesis
  proof (cases "word_at (blk st (ind st ip)) i = 0")
    case False
    then show ?thesis
      using mapped_refl [OF ok] entry room room_mono [OF room, of j] rd get32_word_at [OF i4] by (simp add: bmap_indirect_def)
  next
    case True
    from balloc_ok [OF lay room frees_some [OF assms(5)]] obtain a s1
      where s1: "balloc 1 st = Inr (a, s1)" "allocated st a s1" "room s1 (Suc j)" by blast
    let ?d = "overwrite (blk st (ind st ip)) (4 * i) (le_encode 4 (unat a))"
    have out: "ind st ip \<notin> log_region (fs_log s1)" using fi(5) s1(2) same_log_region [of "fs_log s1" "fs_log st"] by (simp add: allocated_def same_rest_def)
    obtain s2 where s2: "fs_write (ind st ip) ?d s1 = Inr s2" "same_rest s2 s1" "room s2 j"
      "\<And>n. blk s2 n = (if n = ind st ip then ?d else blk s1 n)"
      using fs_write_ok [OF s1(3) out, of ?d] by blast
    have g: "grown ds ip st (NDIRECT + i) a s2" by (rule alloc_entry [OF ok i s1(2) s2(2,4)])
    then have "addr s2 ip (NDIRECT + i) = a" using M unfolding grown_def by (metis less_imp_le_nat slot_addr)
    moreover have "mapped ds ip st (NDIRECT + i) s2" using grown_mapped [OF ok M _ g] entry True by simp
    ultimately show ?thesis
      using True rd get32_word_at [OF i4] s1(1) s2(1,3) dev i4 grown_frees [OF g] by (simp add: bmap_indirect_def put32_in)
  qed
qed

lemma bmap_ok:
  assumes ok: "file_ok ds ip st" and k: "k < MAXFILE" and room: "room st (5 + j)" and free: "2 \<le> frees st"
  shows "\<exists>a st'. bmap ip (word_of_nat k) st = Inr (a, st') \<and> mapped ds ip st k st' \<and> a = addr st' ip k \<and> room st' j \<and>
    frees st \<le> frees st' + 2"
proof -
  have len: "length (i_addrs (icache st ip)) = NDIRECT + 1" using ok by (simp add: file_ok_def)
  have r: "room st (Suc (Suc (Suc (Suc (Suc j)))))" by (rule room_mono [OF room]) simp
  have "k < 2 ^ 32" using k by (simp add: MAXFILE_def NDIRECT_def NINDIRECT_def BSIZE_def)
  then have uk: "unat (word_of_nat k :: u32) = k" by (simp add: unat_of_nat)
  show ?thesis
  proof (cases "k < NDIRECT")
    case True
    then have a: "addr st ip k = i_addrs (icache st ip) ! k" by (simp add: addr_def)
    show ?thesis
    proof (cases "i_addrs (icache st ip) ! k = 0")
      case zero: True
      have "\<exists>a st'. addr_or_alloc ip k st = Inr (a, st') \<and> grown ds ip st (if k = NDIRECT then MAXFILE else k) a st' \<and> room st' j"
        using True free room_mono [OF room, of "Suc (Suc j)"] by (intro addr_or_alloc_ok [OF ok _ zero]) auto
      then obtain b s where s: "addr_or_alloc ip k st = Inr (b, s)" "grown ds ip st k b s" "room s j" using True by auto
      have "addr s ip k = b" using s(2) k unfolding grown_def by (metis less_imp_le_nat slot_addr)
      then show ?thesis using s True grown_mapped [OF ok k _ s(2)] a zero grown_frees [OF s(2)] by (simp add: bmap_def uk)
    next
      case False
      then show ?thesis
        using addr_or_alloc_same [of k st ip] len True mapped_refl [OF ok] a room_mono [OF room, of j] by (simp add: bmap_def uk)
    qed
  next
    case False
    then obtain i where i: "k = NDIRECT + i" "i < NINDIRECT" using k by (metis MAXFILE_def add_less_cancel_left le_add_diff_inverse not_less)
    have ui: "unat (word_of_nat k - word_of_nat NDIRECT :: u32) = i"
      using i(2) unfolding i(1) by (simp add: unat_of_nat NINDIRECT_def BSIZE_def)
    show ?thesis
    proof (cases "ind st ip = 0")
      case zero: True
      then have z: "i_addrs (icache st ip) ! NDIRECT = 0" by (simp add: ind_def)
      obtain b s where s: "addr_or_alloc ip NDIRECT st = Inr (b, s)" "grown ds ip st MAXFILE b s" "room s (Suc (Suc (Suc j)))"
        using addr_or_alloc_ok [OF ok order_refl z r] free by auto
      have ok': "file_ok ds ip s" using grown_file_ok [OF ok _ _ s(2)] zero by (simp add: slot_def)
      have ib: "ind s ip = b" using s(2) unfolding grown_def slot_def by auto
      have "layout ds st" using ok by (simp add: file_ok_def)
      then have b: "ind s ip \<noteq> 0" using grown_nonzero s(2) ib by blast
      have f: "0 < frees s" "frees st = Suc (frees s)" using grown_frees [OF s(2)] free by simp_all
      from bmap_entry [OF ok' i(2) b s(3) f(1)] obtain a st' where
        e: "bmap_indirect ip i (ind s ip) s = Inr (a, st')" "mapped ds ip s k st'" "a = addr st' ip k" "room st' j" "frees s \<le> Suc (frees st')"
        unfolding i(1) by blast
      have "bmap ip (word_of_nat k) st = Inr (a, st')" using s(1) e(1) False i(2) by (simp add: bmap_def uk ui Let_def ib)
      then show ?thesis using e grown_ind_mapped [OF ok zero s(2) e(2) k] f(2) by auto
    next
      case nz: False
      then have "i_addrs (icache st ip) ! NDIRECT \<noteq> 0" by (simp add: ind_def)
      then have s: "addr_or_alloc ip NDIRECT st = Inr (ind st ip, st)" using addr_or_alloc_same [of NDIRECT st ip] len by (simp add: ind_def)
      from bmap_entry [OF ok i(2) nz room_mono [OF room, of "Suc (Suc (Suc j))"]] free obtain a st' where
        e: "bmap_indirect ip i (ind st ip) st = Inr (a, st')" "mapped ds ip st k st'" "a = addr st' ip k" "room st' j" "frees st \<le> Suc (frees st')"
        unfolding i(1) by auto
      have "bmap ip (word_of_nat k) st = Inr (a, st')" using s e(1) False i(2) by (simp add: bmap_def uk ui Let_def)
      then show ?thesis using e by auto
    qed
  qed
qed

end
