(* ===== verification/Xv6_File.thy ===== *)
theory Xv6_File
  imports Xv6_Inode
begin

text \<open>
  Reading and writing the bytes of a file: \<open>readi\<close> and \<open>writei\<close> of \<open>fs.c\<close> implement a file that is a
  list of bytes.
\<close>

section \<open>The bytes of a file\<close>

definition fblock :: "fs \<Rightarrow> nat \<Rightarrow> nat \<Rightarrow> block" where
  "fblock st ip k = (if addr st ip k = 0 then replicate BSIZE 0 else blk st (addr st ip k))"

definition byte :: "fs \<Rightarrow> nat \<Rightarrow> nat \<Rightarrow> u8" where
  "byte st ip p = fblock st ip (p div BSIZE) ! (p mod BSIZE)"

definition content :: "fs \<Rightarrow> nat \<Rightarrow> u8 list" where
  "content st ip = map (byte st ip) [0..<unat (i_size (icache st ip))]"

lemma BSIZE_pos [simp]: "0 < BSIZE" by (simp add: BSIZE_def)

lemma length_fblock:
  assumes "file_ok ds ip st" and "k < MAXFILE"
  shows "length (fblock st ip k) = BSIZE"
proof (cases "addr st ip k = 0")
  case False
  then have "in_data ds st (addr st ip k)" using addr_not_ind(2) [OF assms] by simp
  moreover have "layout ds st" using assms(1) by (simp add: file_ok_def)
  ultimately have "length (blk st (addr st ip k)) = BSIZE" using sized_block(2) data_block by blast
  then show ?thesis using False by (simp add: fblock_def)
qed (simp add: fblock_def)

lemma mapped_fblock:
  assumes "mapped ds ip st k st'" and "j < MAXFILE"
  shows "fblock st' ip j = fblock st ip j"
proof (cases "j = k")
  case True
  then show ?thesis using assms by (auto simp: mapped_def fblock_def)
next
  case False
  then show ?thesis using assms by (auto simp: mapped_def fblock_def)
qed

section \<open>What is kept\<close>

text \<open>
  Of the file: its inode apart from the addresses, and the blocks it has. Of the others: their inodes,
  and every used data block that does not belong to the file.
\<close>

definition kept :: "nat \<Rightarrow> nat \<Rightarrow> fs \<Rightarrow> fs \<Rightarrow> bool" where
  "kept ds ip st st' \<longleftrightarrow> file_ok ds ip st' \<and> same_log (fs_log st') (fs_log st) \<and> fs_sb st' = fs_sb st \<and> fs_disksize st' = fs_disksize st \<and>
     (\<forall>i. i \<noteq> ip \<longrightarrow> icache st' i = icache st i) \<and> same_inode (icache st' ip) (icache st ip) \<and>
     (\<forall>i < MAXFILE. addr st ip i \<noteq> 0 \<longrightarrow> addr st' ip i \<noteq> 0) \<and>
     (\<forall>b < unat (sb_size (fs_sb st)). used st b \<longrightarrow> used st' b) \<and>
     (\<forall>j \<le> MAXFILE. slot st' ip j \<noteq> slot st ip j \<longrightarrow> \<not> used st (unat (slot st' ip j))) \<and>
     (\<forall>n. in_data ds st n \<and> used st (unat n) \<and> (\<forall>j \<le> MAXFILE. slot st ip j \<noteq> n) \<longrightarrow> blk st' n = blk st n)"

lemma mapped_kept:
  assumes "mapped ds ip st k st'"
  shows "kept ds ip st st'"
proof -
  have "addr st' ip i \<noteq> 0" if "i < MAXFILE" "addr st ip i \<noteq> 0" for i
    using assms that by (cases "i = k") (auto simp: mapped_def)
  then show ?thesis using assms by (simp add: mapped_def kept_def)
qed

lemma kept_trans:
  assumes a: "kept ds ip s1 s2" and b: "kept ds ip s2 s3" and ok: "file_ok ds ip s1"
  shows "kept ds ip s1 s3"
proof -
  have sb: "fs_sb s2 = fs_sb s1" "fs_disksize s2 = fs_disksize s1" using a by (simp_all add: kept_def)
  have mono: "used s2 b" if "used s1 b" "b < unat (sb_size (fs_sb s1))" for b using a that by (simp add: kept_def)
  have slots: "\<not> used s1 (unat (slot s3 ip j))" if j: "j \<le> MAXFILE" "slot s3 ip j \<noteq> slot s1 ip j" for j
  proof (cases "slot s3 ip j = slot s2 ip j")
    case True
    then show ?thesis using a j by (simp add: kept_def)
  next
    case False
    then have n2: "\<not> used s2 (unat (slot s3 ip j))" using b j by (simp add: kept_def)
    show ?thesis
    proof (cases "slot s3 ip j = 0")
      case True
      have "layout ds s2" using a by (simp add: kept_def file_ok_def)
      then have "used s2 0" using layout_pos [of ds s2] by (simp add: layout_def)
      then show ?thesis using n2 True by simp
    next
      case nz: False
      then have "in_data ds s3 (slot s3 ip j)" using b j by (simp add: kept_def file_ok_def)
      then have "unat (slot s3 ip j) < unat (sb_size (fs_sb s1))" using b sb by (simp add: kept_def in_data_def)
      then show ?thesis using mono n2 by blast
    qed
  qed
  have frame: "blk s3 n = blk s1 n" if n: "in_data ds s1 n" "used s1 (unat n)" "\<forall>j \<le> MAXFILE. slot s1 ip j \<noteq> n" for n
  proof -
    have "blk s2 n = blk s1 n" using a n by (simp add: kept_def)
    moreover have "in_data ds s2 n" "used s2 (unat n)" using n mono sb by (auto simp: in_data_def)
    moreover have "\<forall>j \<le> MAXFILE. slot s2 ip j \<noteq> n" using a n unfolding kept_def by metis
    ultimately show ?thesis using b by (simp add: kept_def)
  qed
  show ?thesis using a b sb mono slots frame unfolding kept_def same_inode_def same_log_def by simp
qed

text \<open>Writing a data block of the file.\<close>

lemma write_data:
  assumes ok: "file_ok ds ip st" and k: "k < MAXFILE" "addr st ip k \<noteq> 0" and d: "length d = BSIZE" and "room st (Suc j)"
  obtains st' where "fs_write (addr st ip k) d st = Inr st'" and "same_rest st' st" and "room st' j" and "file_ok ds ip st'"
    and "addr st' ip = addr st ip" and "\<And>i. i < MAXFILE \<Longrightarrow> fblock st' ip i = (if i = k then d else fblock st ip i)"
    and "kept ds ip st st'" and "frees st' = frees st"
proof -
  let ?a = "addr st ip k"
  note a = addr_not_ind [OF ok k]
  have lay: "layout ds st" using ok by (simp add: file_ok_def)
  have out: "?a \<notin> log_region (fs_log st)" using sized_block(3) [OF lay data_block [OF lay a(2)]] .
  obtain st' where st': "fs_write ?a d st = Inr st'" "same_rest st' st" "room st' j" "\<And>n. blk st' n = (if n = ?a then d else blk st n)"
    using fs_write_ok [OF assms(5) out, of d] by blast
  have rest: "fs_sb st' = fs_sb st" "fs_disksize st' = fs_disksize st" "icache st' = icache st" "same_log (fs_log st') (fs_log st)"
    "log_region (fs_log st') = log_region (fs_log st)"
    using st'(2) same_log_region by (auto simp: same_rest_def)
  have inds: "ind st' ip = ind st ip" by (simp add: ind_def rest)
  have "addr st' ip i = addr st ip i" for i using a(1) by (simp add: addr_def inds rest st'(4))
  then have addrs: "addr st' ip = addr st ip" by (rule ext)
  then have slots: "slot st' ip = slot st ip" by (auto simp: slot_def inds fun_eq_iff)
  have used: "used st' b = used st b" if "b < unat (sb_size (fs_sb st))" for b
  proof -
    have "BBLOCK (word_of_nat b) (fs_sb st) \<noteq> ?a" using BBLOCK_at(2) [OF lay that] a(2) by (auto simp: in_data_def)
    then show ?thesis by (simp add: used_def rest st'(4))
  qed
  have fb: "fblock st' ip i = (if i = k then d else fblock st ip i)" if "i < MAXFILE" for i
  proof -
    have "addr st ip i \<noteq> ?a" if "i \<noteq> k" "addr st ip i \<noteq> 0"
      using ok that \<open>i < MAXFILE\<close> k unfolding file_ok_def by (metis less_imp_le_nat slot_addr)
    then show ?thesis using k(2) by (auto simp: fblock_def addrs st'(4))
  qed
  have "layout ds st'" using lay d used by (auto simp: layout_def sized_def rest st'(4))
  then have "file_ok ds ip st'" using ok used by (auto simp: file_ok_def rest slots in_data_def)
  moreover have "frees st' = frees st" using used by (auto simp: frees_def rest intro: arg_cong [of _ _ card])
  moreover have "kept ds ip st st'"
  proof -
    have "blk st' n = blk st n" if "\<forall>j \<le> MAXFILE. slot st ip j \<noteq> n" for n
      using that k(1) slot_addr [OF k(1), of st ip] by (auto simp: st'(4))
    then show ?thesis using calculation used by (auto simp: kept_def rest slots addrs same_inode_def)
  qed
  ultimately show thesis using that [of st'] st' addrs fb by auto
qed

section \<open>Chunks\<close>

text \<open>The number of rounds of the loops for \<open>n\<close> bytes from offset \<open>off\<close> on.\<close>

definition chunks :: "nat \<Rightarrow> nat \<Rightarrow> nat" where
  "chunks off n = (if n = 0 then 0 else (off + n - 1) div BSIZE - off div BSIZE + 1)"

lemma chunk_bounds: "chunk off n \<le> n" "off mod BSIZE + chunk off n \<le> BSIZE"
  by (auto simp: chunk_def BSIZE_def)

lemma chunks_step:
  assumes "0 < n"
  shows "chunks off n = Suc (chunks (off + chunk off n) (n - chunk off n))"
proof (cases "n \<le> BSIZE - off mod BSIZE")
  case True
  then have "off mod BSIZE + (n - 1) < BSIZE" using assms mod_less_divisor [OF BSIZE_pos, of off] by linarith
  then have "(off + (n - 1)) div BSIZE = off div BSIZE"
    by (metis (no_types, lifting) add.right_neutral add_mult_distrib2 div_less div_mult_self4 BSIZE_pos less_not_refl2 mult_div_mod_eq add.assoc)
  then show ?thesis using True assms by (simp add: chunks_def chunk_def)
next
  case False
  let ?m = "BSIZE - off mod BSIZE"
  have m: "chunk off n = ?m" "?m < n" using False by (auto simp: chunk_def)
  have "off + ?m = (off div BSIZE + 1) * BSIZE"
    using div_mult_mod_eq [of off BSIZE] mod_less_divisor [OF BSIZE_pos, of off] unfolding add_mult_distrib by linarith
  then have "(off + ?m) div BSIZE = off div BSIZE + 1" by simp
  moreover have "off div BSIZE + 1 \<le> (off + n - 1) div BSIZE"
    unfolding calculation [symmetric] using m(2) by (intro div_le_mono) simp
  moreover have "off + ?m + (n - ?m) - 1 = off + n - 1"
    using m(2) mod_less_divisor [OF BSIZE_pos, of off] by linarith
  ultimately have "chunks (off + ?m) (n - ?m) = (off + n - 1) div BSIZE - (off div BSIZE + 1) + 1"
    and "chunks off n = (off + n - 1) div BSIZE - off div BSIZE + 1" "off div BSIZE + 1 \<le> (off + n - 1) div BSIZE"
    using m(2) assms by (simp_all add: chunks_def)
  then show ?thesis unfolding m(1) by linarith
qed

lemma block_position: "r < BSIZE \<Longrightarrow> (q * BSIZE + r) div BSIZE = q" "r < BSIZE \<Longrightarrow> (q * BSIZE + r) mod BSIZE = r"
  by simp_all

lemma chunk_positions:
  assumes "off \<le> p" and "p < off + chunk off n"
  shows "p div BSIZE = off div BSIZE" and "p mod BSIZE = off mod BSIZE + (p - off)"
proof -
  have lt: "off mod BSIZE + (p - off) < BSIZE" using assms chunk_bounds(2) [of off n] by linarith
  have p: "p = off div BSIZE * BSIZE + (off mod BSIZE + (p - off))" using assms(1) by simp
  show "p div BSIZE = off div BSIZE" using block_position(1) [OF lt, of "off div BSIZE"] p by metis
  show "p mod BSIZE = off mod BSIZE + (p - off)" using block_position(2) [OF lt, of "off div BSIZE"] p by metis
qed

section \<open>Reading\<close>

lemma mapped_same_addr:
  assumes ok: "file_ok ds ip st" and k: "k < MAXFILE" "addr st ip k \<noteq> 0"
  shows "bmap ip (word_of_nat k) st = Inr (addr st ip k, st)"
proof -
  have len: "length (i_addrs (icache st ip)) = NDIRECT + 1" using ok by (simp add: file_ok_def)
  have "k < 2 ^ 32" using k(1) by (simp add: MAXFILE_def NDIRECT_def NINDIRECT_def BSIZE_def)
  then have uk: "unat (word_of_nat k :: u32) = k" by (simp add: unat_of_nat)
  show ?thesis
  proof (cases "k < NDIRECT")
    case True
    then show ?thesis using k(2) addr_or_alloc_same [of k st ip] len by (simp add: bmap_def uk addr_def)
  next
    case False
    then obtain i where i: "k = NDIRECT + i" "i < NINDIRECT" using k(1) by (metis MAXFILE_def add_less_cancel_left le_add_diff_inverse not_less)
    have ui: "unat (word_of_nat k - word_of_nat NDIRECT :: u32) = i"
      using i(2) unfolding i(1) by (simp add: unat_of_nat NINDIRECT_def BSIZE_def)
    have nz: "ind st ip \<noteq> 0" and w: "word_at (blk st (ind st ip)) i \<noteq> 0" "addr st ip k = word_at (blk st (ind st ip)) i"
      using k(2) False i by (auto simp: addr_def split: if_splits)
    have "addr_or_alloc ip NDIRECT st = Inr (ind st ip, st)"
      using addr_or_alloc_same [of NDIRECT st ip] len nz by (simp add: ind_def)
    moreover note fi = file_ind [OF ok nz]
    have "4 * i + 4 \<le> length (blk st (ind st ip))" using i(2) fi(3) by (simp add: NINDIRECT_def BSIZE_def)
    then have "bmap_indirect ip i (ind st ip) st = Inr (word_at (blk st (ind st ip)) i, st)"
      using fi(4) ok w(1) by (simp add: bmap_indirect_def fs_read_def not_le get32_word_at file_ok_def)
    ultimately show ?thesis using False i(2) w(2) by (simp add: bmap_def uk ui Let_def)
  qed
qed

lemma map_byte_chunk:
  assumes "file_ok ds ip st" and "off div BSIZE < MAXFILE"
  shows "take (chunk off n) (drop (off mod BSIZE) (fblock st ip (off div BSIZE))) = map (byte st ip) [off..<off + chunk off n]"
proof (rule nth_equalityI)
  have len: "length (fblock st ip (off div BSIZE)) = BSIZE" using length_fblock [OF assms] .
  then show "length (take (chunk off n) (drop (off mod BSIZE) (fblock st ip (off div BSIZE)))) = length (map (byte st ip) [off..<off + chunk off n])"
    using chunk_bounds(2) [of off n] by simp
  fix i assume "i < length (take (chunk off n) (drop (off mod BSIZE) (fblock st ip (off div BSIZE))))"
  then have i: "i < chunk off n" by simp
  then show "take (chunk off n) (drop (off mod BSIZE) (fblock st ip (off div BSIZE))) ! i = map (byte st ip) [off..<off + chunk off n] ! i"
    using len chunk_positions [of off "off + i" n] chunk_bounds(2) [of off n] by (simp add: byte_def)
qed

text \<open>A read of bytes that all have a block changes nothing.\<close>

lemma readi_loop_ok:
  assumes ok: "file_ok ds ip st" and "off + n \<le> MAXFILE * BSIZE" and "\<And>p. off \<le> p \<Longrightarrow> p < off + n \<Longrightarrow> addr st ip (p div BSIZE) \<noteq> 0"
  shows "readi_loop ip off n st = Inr (map (byte st ip) [off..<off + n], st)"
  using assms(2,3)
proof (induction n arbitrary: off rule: less_induct)
  case (less n)
  show ?case
  proof (cases "n = 0")
    case True
    then show ?thesis by (simp add: readi_loop.simps)
  next
    case False
    let ?m = "chunk off n" and ?k = "off div BSIZE"
    have m: "0 < ?m" "?m \<le> n" "off mod BSIZE + ?m \<le> BSIZE" using False chunk_pos chunk_bounds by auto
    have k: "?k < MAXFILE" using less.prems(1) False by (simp add: div_less_iff_less_mult)
    have nz: "addr st ip ?k \<noteq> 0" using less.prems(2) [of off] False by simp
    have "in_data ds st (addr st ip ?k)" using addr_not_ind(2) [OF ok k nz] .
    then have "addr st ip ?k < fs_disksize st" using ok sized_block(1) data_block unfolding file_ok_def by blast
    then have rd: "fs_read (i_dev (icache st ip)) (addr st ip ?k) st = Inr (fblock st ip ?k)"
      using ok nz by (simp add: fs_read_def not_le file_ok_def fblock_def)
    have bytes: "bytes_at (fblock st ip ?k) (off mod BSIZE) ?m = Inr (map (byte st ip) [off..<off + ?m])"
      using length_fblock [OF ok k] m(3) map_byte_chunk [OF ok k, of n] by (simp add: bytes_at_def)
    have "readi_loop ip (off + ?m) (n - ?m) st = Inr (map (byte st ip) [off + ?m..<off + ?m + (n - ?m)], st)"
      using m less.prems by (intro less.IH) auto
    moreover have "[off..<off + n] = [off..<off + ?m] @ [off + ?m..<off + n]"
      using upt_add_eq_append [of off "off + ?m" "n - ?m"] m(2) by simp
    ultimately show ?thesis
      using False mapped_same_addr [OF ok k nz] rd bytes m(2) by (subst readi_loop.simps) (simp add: Let_def)
  qed
qed

section \<open>Writing\<close>

text \<open>The bytes of the file after the bytes \<open>src\<close> have been written at \<open>off\<close>.\<close>

definition wrote :: "nat \<Rightarrow> fs \<Rightarrow> nat \<Rightarrow> u8 list \<Rightarrow> fs \<Rightarrow> bool" where
  "wrote ip st off src st' \<longleftrightarrow> (\<forall>p < MAXFILE * BSIZE.
     byte st' ip p = (if off \<le> p \<and> p < off + length src then src ! (p - off) else byte st ip p))"

text \<open>One round of the loop.\<close>

lemma writei_round:
  assumes ok: "file_ok ds ip st" and src: "src \<noteq> []" and k: "off div BSIZE < MAXFILE" and room: "room st (6 + j)" and free: "2 \<le> frees st"
    and m: "m = chunk off (length src)"
  obtains a s1 s2 where "bmap ip (word_of_nat (off div BSIZE)) st = Inr (a, s1)"
    and "fs_read (i_dev (icache s1 ip)) a s1 = Inr (fblock st ip (off div BSIZE))"
    and "fs_write a (overwrite (fblock st ip (off div BSIZE)) (off mod BSIZE) (take m src)) s1 = Inr s2"
    and "kept ds ip st s2" and "addr s2 ip (off div BSIZE) \<noteq> 0" and "wrote ip st off (take m src) s2"
    and "room s2 j" and "frees st \<le> frees s2 + 2"
proof -
  let ?k = "off div BSIZE"
  have "room st (5 + Suc j)" using room by simp
  from bmap_ok [OF ok k this free] obtain a s1 where
    s1: "bmap ip (word_of_nat ?k) st = Inr (a, s1)" "mapped ds ip st ?k s1" "a = addr s1 ip ?k" "room s1 (Suc j)" "frees st \<le> frees s1 + 2"
    by blast
  have ok1: "file_ok ds ip s1" and nz: "addr s1 ip ?k \<noteq> 0" using s1(2) by (simp_all add: mapped_def)
  note fb = mapped_fblock [OF s1(2)]
  have len: "length (fblock st ip ?k) = BSIZE" using length_fblock [OF ok k] .
  have ml: "length (take m src) = m" "off mod BSIZE + m \<le> BSIZE" using chunk_bounds [of off "length src"] by (simp_all add: m)
  let ?d = "overwrite (fblock st ip ?k) (off mod BSIZE) (take m src)"
  have "length ?d = BSIZE" using len ml by simp
  then obtain s2 where s2: "fs_write (addr s1 ip ?k) ?d s1 = Inr s2" "room s2 j" "kept ds ip s1 s2" "frees s2 = frees s1"
    "addr s2 ip = addr s1 ip" "\<And>i. i < MAXFILE \<Longrightarrow> fblock s2 ip i = (if i = ?k then ?d else fblock s1 ip i)"
    using write_data [OF ok1 k nz _ s1(4), of ?d] by metis
  have "in_data ds s1 (addr s1 ip ?k)" using addr_not_ind(2) [OF ok1 k nz] .
  then have "addr s1 ip ?k < fs_disksize s1" using ok1 sized_block(1) data_block unfolding file_ok_def by blast
  then have "fs_read (i_dev (icache s1 ip)) a s1 = Inr (fblock s1 ip ?k)"
    using ok1 nz s1(3) by (simp add: fs_read_def not_le file_ok_def fblock_def)
  moreover have "wrote ip st off (take m src) s2" unfolding wrote_def ml(1)
  proof (intro allI impI)
    fix p assume p: "p < MAXFILE * BSIZE"
    then have pk: "p div BSIZE < MAXFILE" by (simp add: div_less_iff_less_mult)
    have pm: "p mod BSIZE < BSIZE" by simp
    have in_chunk: "off \<le> p \<and> p < off + m \<longleftrightarrow> p div BSIZE = ?k \<and> off mod BSIZE \<le> p mod BSIZE \<and> p mod BSIZE < off mod BSIZE + m"
    proof
      assume "off \<le> p \<and> p < off + m"
      then show "p div BSIZE = ?k \<and> off mod BSIZE \<le> p mod BSIZE \<and> p mod BSIZE < off mod BSIZE + m"
        using chunk_positions [of off p "length src"] m by auto
    next
      assume "p div BSIZE = ?k \<and> off mod BSIZE \<le> p mod BSIZE \<and> p mod BSIZE < off mod BSIZE + m"
      moreover have "p = p div BSIZE * BSIZE + p mod BSIZE" "off = ?k * BSIZE + off mod BSIZE" by simp_all
      ultimately show "off \<le> p \<and> p < off + m" by (metis add.assoc nat_add_left_cancel_le nat_add_left_cancel_less)
    qed
    have "p - off = p mod BSIZE - off mod BSIZE" if "off \<le> p \<and> p < off + m"
      using chunk_positions(2) [of off p "length src"] that m by simp
    then show "byte s2 ip p = (if off \<le> p \<and> p < off + m then take m src ! (p - off) else byte st ip p)"
      using pk s2(6) fb [OF pk] in_chunk len ml pm by (auto simp: byte_def nth_overwrite)
  qed
  ultimately show thesis
    using that [of a s1 s2] s1 s2 nz fb [OF k] kept_trans [OF mapped_kept [OF s1(2)] s2(3) ok] by simp
qed

lemma wrote_append:
  assumes "wrote ip s1 off (take m src) s2" and "wrote ip s2 (off + m) (drop m src) s3" and "m \<le> length src"
  shows "wrote ip s1 off src s3"
  using assms by (auto simp: wrote_def nth_append min_def)

lemma writei_loop_ok:
  assumes "file_ok ds ip st" and "off + length src \<le> MAXFILE * BSIZE" and "room st (6 * chunks off (length src) + j)"
    and "2 * chunks off (length src) \<le> frees st"
  shows "\<exists>st'. writei_loop ip off src st = Inr st' \<and> kept ds ip st st' \<and> wrote ip st off src st' \<and> room st' j \<and>
    frees st \<le> frees st' + 2 * chunks off (length src) \<and>
    (\<forall>p. off \<le> p \<and> p < off + length src \<longrightarrow> addr st' ip (p div BSIZE) \<noteq> 0)"
  using assms
proof (induction "length src" arbitrary: off src st rule: less_induct)
  case less
  show ?case
  proof (cases "src = []")
    case True
    then show ?thesis using less.prems by (auto simp: writei_loop.simps kept_def wrote_def chunks_def same_inode_def)
  next
    case False
    let ?m = "chunk off (length src)"
    have m: "0 < ?m" "?m \<le> length src" "off mod BSIZE + ?m \<le> BSIZE" using False chunk_pos chunk_bounds by auto
    have ch: "chunks off (length src) = Suc (chunks (off + ?m) (length (drop ?m src)))" using chunks_step [of "length src" off] False by simp
    have "0 < length src" using False by simp
    then have "off < MAXFILE * BSIZE" using less.prems(2) by linarith
    then have k: "off div BSIZE < MAXFILE" by (simp add: div_less_iff_less_mult)
    have room: "room st (6 + (6 * chunks (off + ?m) (length (drop ?m src)) + j))" using less.prems(3) by (simp add: ch add.assoc)
    have free: "2 \<le> frees st" using less.prems(4) ch by simp
    obtain a s1 s2 where r: "bmap ip (word_of_nat (off div BSIZE)) st = Inr (a, s1)"
      "fs_read (i_dev (icache s1 ip)) a s1 = Inr (fblock st ip (off div BSIZE))"
      "fs_write a (overwrite (fblock st ip (off div BSIZE)) (off mod BSIZE) (take ?m src)) s1 = Inr s2"
      "kept ds ip st s2" "addr s2 ip (off div BSIZE) \<noteq> 0" "wrote ip st off (take ?m src) s2"
      "room s2 (6 * chunks (off + ?m) (length (drop ?m src)) + j)" "frees st \<le> frees s2 + 2"
      by (rule writei_round [OF less.prems(1) False k room free refl])
    have ok2: "file_ok ds ip s2" using r(4) by (simp add: kept_def)
    have "length (drop ?m src) < length src" using m by simp
    moreover have "off + ?m + length (drop ?m src) \<le> MAXFILE * BSIZE" using less.prems(2) m by simp
    moreover have "2 * chunks (off + ?m) (length (drop ?m src)) \<le> frees s2" using less.prems(4) r(8) ch by simp
    ultimately obtain st' where st': "writei_loop ip (off + ?m) (drop ?m src) s2 = Inr st'" "kept ds ip s2 st'"
      "wrote ip s2 (off + ?m) (drop ?m src) st'" "room st' j"
      "frees s2 \<le> frees st' + 2 * chunks (off + ?m) (length (drop ?m src))"
      "\<forall>p. off + ?m \<le> p \<and> p < off + ?m + length (drop ?m src) \<longrightarrow> addr st' ip (p div BSIZE) \<noteq> 0"
      using less.hyps [OF _ ok2 _ r(7)] by blast
    have "move_bytes (fblock st ip (off div BSIZE)) (off mod BSIZE) src 0 ?m =
        Inr (overwrite (fblock st ip (off div BSIZE)) (off mod BSIZE) (take ?m src))"
      using length_fblock [OF less.prems(1) k] m by (simp add: move_bytes_def)
    then have "writei_loop ip off src st = Inr st'"
      using False r st'(1) by (subst writei_loop.simps) (simp add: Let_def)
    moreover have "addr st' ip (p div BSIZE) \<noteq> 0" if "off \<le> p" "p < off + length src" for p
    proof (cases "p < off + ?m")
      case True
      then have "p div BSIZE = off div BSIZE" using chunk_positions(1) that(1) by blast
      then show ?thesis using r(5) st'(2) k by (simp add: kept_def)
    next
      case False
      then show ?thesis using st'(6) that m by simp
    qed
    moreover have "frees st \<le> frees st' + 2 * chunks off (length src)" using r(8) st'(5) unfolding ch by simp
    ultimately show ?thesis
      using kept_trans [OF r(4) st'(2) less.prems(1)] wrote_append [OF r(6) st'(3) m(2)] st'(4) by blast
  qed
qed

section \<open>The inode on disk\<close>

definition dinode_bytes :: "inode \<Rightarrow> u8 list" where
  "dinode_bytes x = concat (map (\<lambda>(n, v). le_encode n v)
     ([(2, unat (i_type x)), (2, unat (i_major x)), (2, unat (i_minor x)), (2, unat (i_nlink x)), (4, unat (i_size x))] @
      map (\<lambda>a. (4, unat a)) (i_addrs x)))"

lemma length_dinode_bytes: "length (i_addrs x) = NDIRECT + 1 \<Longrightarrow> length (dinode_bytes x) = DINODE_SIZE"
  unfolding dinode_bytes_def length_concat_fields by (simp add: o_def sum_list_triv NDIRECT_def DINODE_SIZE_def)

lemma dinode_fits: "dinode_off inum + DINODE_SIZE \<le> BSIZE"
proof -
  have "unat inum mod IPB \<le> 7" by (simp add: IPB_def BSIZE_def DINODE_SIZE_def less_Suc_eq_le [symmetric])
  then show ?thesis by (simp add: dinode_off_def DINODE_SIZE_def BSIZE_def)
qed

lemma put_addrs:
  assumes "base + 4 * n \<le> length d" and "n \<le> length as"
  shows "loopE (\<lambda>k d. bindE (rd as k) (\<lambda>a. put32 d (base + 4 * k) a)) [0..<n] d =
    Inr (overwrite d base (concat (map (\<lambda>a. le_encode 4 (unat a)) (take n as))))"
  using assms
proof (induction n)
  case (Suc n)
  let ?w = "\<lambda>n. concat (map (\<lambda>a. le_encode 4 (unat (a :: u32))) (take n as))"
  have len: "length (?w m) = 4 * m" if "m \<le> length as" for m
    using that by (simp add: length_concat o_def sum_list_triv)
  have t: "?w (Suc n) = ?w n @ le_encode 4 (unat (as ! n))" using Suc.prems(2) by (simp add: take_Suc_conv_app_nth)
  have "overwrite (overwrite d base (?w n)) (base + 4 * n) (le_encode 4 (unat (as ! n))) = overwrite d base (?w (Suc n))"
    unfolding t using overwrite_append [of base "?w n" "le_encode 4 (unat (as ! n))" d] len [of n] Suc.prems by simp
  then show ?case using Suc len [of n] by (simp add: loopE_append put32_in)
qed simp

lemma put_fields:
  assumes "off + 64 \<le> length d"
  shows "bindE (put16 d off a) (\<lambda>d. bindE (put16 d (off + 2) b) (\<lambda>d. bindE (put16 d (off + 4) c) (\<lambda>d.
    bindE (put16 d (off + 6) e) (\<lambda>d. put32 d (off + 8) f)))) =
    Inr (overwrite d off (le_encode 2 (unat a) @ le_encode 2 (unat b) @ le_encode 2 (unat c) @ le_encode 2 (unat e) @ le_encode 4 (unat f)))"
proof -
  have o: "overwrite (overwrite d off xs) (off + k) ys = overwrite d off (xs @ ys)"
    if "length xs = k" "k + length ys \<le> 64" for xs ys k
    using overwrite_append [of off xs ys d] assms that by simp
  show ?thesis using assms by (simp add: put16_def put32_in o del: add_2_eq_Suc')
qed

lemma iupdate_ok:
  assumes dev: "i_dev (icache st ip) = 1" and len: "length (i_addrs (icache st ip)) = NDIRECT + 1" and room: "room st (Suc j)"
    and ib: "ib = IBLOCK (i_inum (icache st ip)) (fs_sb st)" "ib < fs_disksize st" "length (blk st ib) = BSIZE" "ib \<notin> log_region (fs_log st)"
  obtains st' where "iupdate ip st = Inr st'" and "same_rest st' st" and "room st' j"
    and "\<And>n. blk st' n = (if n = ib then overwrite (blk st ib) (dinode_off (i_inum (icache st ip))) (dinode_bytes (icache st ip)) else blk st n)"
proof -
  let ?x = "icache st ip" and ?d = "blk st ib" and ?off = "dinode_off (i_inum (icache st ip))"
  have fits: "?off + 64 \<le> length ?d" using dinode_fits [of "i_inum ?x"] ib(3) by (simp add: DINODE_SIZE_def)
  let ?h = "le_encode 2 (unat (i_type ?x)) @ le_encode 2 (unat (i_major ?x)) @ le_encode 2 (unat (i_minor ?x)) @
    le_encode 2 (unat (i_nlink ?x)) @ le_encode 4 (unat (i_size ?x))"
  let ?w = "concat (map (\<lambda>a. le_encode 4 (unat a)) (i_addrs ?x))"
  have d: "dinode_bytes ?x = ?h @ ?w" by (simp add: dinode_bytes_def o_def)
  have lh: "length ?h = 12" and lw: "length ?w = 52" using len by (simp_all add: length_concat o_def sum_list_triv NDIRECT_def)
  have "loopE (\<lambda>k d. bindE (rd (i_addrs ?x) k) (\<lambda>a. put32 d (?off + 12 + 4 * k) a)) [0..<NDIRECT + 1] (overwrite ?d ?off ?h) =
      Inr (overwrite (overwrite ?d ?off ?h) (?off + 12) (concat (map (\<lambda>a. le_encode 4 (unat a)) (take (NDIRECT + 1) (i_addrs ?x)))))"
    using fits lh len by (intro put_addrs) (simp_all add: NDIRECT_def)
  also have "\<dots> = Inr (overwrite ?d ?off (dinode_bytes ?x))"
    unfolding d using overwrite_append [of ?off ?h ?w ?d] fits lh lw len by simp
  finally have loop: "loopE (\<lambda>k d. bindE (rd (i_addrs ?x) k) (\<lambda>a. put32 d (?off + 12 + 4 * k) a)) [0..<NDIRECT + 1] (overwrite ?d ?off ?h) =
      Inr (overwrite ?d ?off (dinode_bytes ?x))" .
  obtain st' where st': "fs_write ib (overwrite ?d ?off (dinode_bytes ?x)) st = Inr st'" "same_rest st' st" "room st' j"
    "\<And>n. blk st' n = (if n = ib then overwrite ?d ?off (dinode_bytes ?x) else blk st n)"
    using fs_write_ok [OF room ib(4), of "overwrite ?d ?off (dinode_bytes ?x)"] by blast
  have rd: "fs_read (i_dev ?x) ib st = Inr ?d" using ib(2) dev by (simp add: fs_read_def not_le)
  have "iupdate ip st = bindE (bindE (put16 ?d ?off (i_type ?x)) (\<lambda>d. bindE (put16 d (?off + 2) (i_major ?x)) (\<lambda>d.
      bindE (put16 d (?off + 4) (i_minor ?x)) (\<lambda>d. bindE (put16 d (?off + 6) (i_nlink ?x)) (\<lambda>d. put32 d (?off + 8) (i_size ?x))))))
    (\<lambda>d. bindE (loopE (\<lambda>k d. bindE (rd (i_addrs ?x) k) (\<lambda>a. put32 d (?off + 12 + 4 * k) a)) [0..<NDIRECT + 1] d) (\<lambda>d. fs_write ib d st))"
    by (simp only: iupdate_def Let_def ib(1) [symmetric] rd bindE_simps bindE_assoc)
  also have "\<dots> = Inr st'" unfolding put_fields [OF fits] using loop st'(1) by simp
  finally show thesis using that st' by blast
qed

section \<open>Files as lists of bytes\<close>

text \<open>
  A file whose bytes all have a block, which is not a device, and whose inode lies between the log
  and the bitmap.
\<close>

definition inode_placed :: "nat \<Rightarrow> fs \<Rightarrow> bool" where
  "inode_placed ip st \<longleftrightarrow> (let ib = IBLOCK (i_inum (icache st ip)) (fs_sb st)
     in sb_inodestart (fs_sb st) \<le> ib \<and> ib < sb_bmapstart (fs_sb st))"

definition regular :: "nat \<Rightarrow> nat \<Rightarrow> fs \<Rightarrow> bool" where
  "regular ds ip st \<longleftrightarrow> file_ok ds ip st \<and> i_type (icache st ip) \<noteq> T_DEV \<and> unat (i_size (icache st ip)) \<le> MAXFILE * BSIZE \<and>
     (\<forall>p < unat (i_size (icache st ip)). addr st ip (p div BSIZE) \<noteq> 0) \<and>
     inode_placed ip st"

lemma MAXFILE_bytes: "MAXFILE * BSIZE = 71680"
  by (simp add: MAXFILE_def NDIRECT_def NINDIRECT_def BSIZE_def)

lemma readi_content:
  assumes reg: "regular ds ip st" and off: "unat off \<le> length (content st ip)" and n: "unat off + unat n < 2 ^ 32"
  shows "readi devs ip off n st = Inr ((int (min (unat n) (length (content st ip) - unat off)),
    take (unat n) (drop (unat off) (content st ip))), st)"
proof -
  let ?x = "icache st ip"
  have ok: "file_ok ds ip st" and ty: "i_type ?x \<noteq> T_DEV" and sz: "unat (i_size ?x) \<le> 71680"
    and nz: "\<And>p. p < unat (i_size ?x) \<Longrightarrow> addr st ip (p div BSIZE) \<noteq> 0"
    using reg by (auto simp: regular_def MAXFILE_bytes)
  have len: "length (content st ip) = unat (i_size ?x)" by (simp add: content_def)
  have sum: "unat (off + n) = unat off + unat n" using n by (simp add: unat_word_ariths)
  then have c: "\<not> (off > i_size ?x \<or> off + n < off)" using off len by (simp add: word_less_nat_alt)
  define n' where "n' = (if off + n > i_size ?x then i_size ?x - off else n)"
  have n': "unat n' = min (unat n) (unat (i_size ?x) - unat off)"
    using sum off len by (auto simp: n'_def word_less_nat_alt word_le_nat_alt unat_sub)
  have "readi_loop ip (unat off) (unat n') st = Inr (map (byte st ip) [unat off..<unat off + unat n'], st)"
    using off len sz n' nz by (intro readi_loop_ok [OF ok]) (auto simp: MAXFILE_bytes)
  moreover have "map (byte st ip) [unat off..<unat off + unat n'] = take (unat n) (drop (unat off) (content st ip))"
    using off len unfolding n' by (simp add: content_def drop_map take_map take_upt min_def)
  moreover have "sint n' = int (unat n')" using sz n' by (simp add: sint_nonneg_u32)
  ultimately show ?thesis using ty c len n' by (simp add: readi_def Let_def n'_def [symmetric])
qed

lemma content_wrote:
  assumes w: "wrote ip st off src st'" and off: "off \<le> unat (i_size (icache st ip))" and "off + length src \<le> MAXFILE * BSIZE"
    and sz: "unat (i_size (icache st ip)) \<le> MAXFILE * BSIZE" and sz': "unat (i_size (icache st' ip)) = max (unat (i_size (icache st ip))) (off + length src)"
  shows "content st' ip = take off (content st ip) @ src @ drop (off + length src) (content st ip)"
proof -
  let ?c = "content st ip @ replicate (off + length src - length (content st ip)) 0"
  have "content st' ip = overwrite ?c off src"
  proof (rule nth_equalityI)
    have len: "length (content st ip) = unat (i_size (icache st ip))" "length (content st' ip) = unat (i_size (icache st' ip))"
      by (simp_all add: content_def)
    have lc: "length ?c = max (unat (i_size (icache st ip))) (off + length src)" using len by simp
    show "length (content st' ip) = length (overwrite ?c off src)" using len lc sz' by simp
    fix p assume "p < length (content st' ip)"
    then have p: "p < max (unat (i_size (icache st ip))) (off + length src)" using len sz' by simp
    then have b: "byte st' ip p = (if off \<le> p \<and> p < off + length src then src ! (p - off) else byte st ip p)"
      using w assms(3) sz by (auto simp: wrote_def)
    have "content st' ip ! p = byte st' ip p" using p sz' by (simp add: content_def)
    moreover have "overwrite ?c off src ! p = (if off \<le> p \<and> p < off + length src then src ! (p - off) else ?c ! p)"
      using p lc by (intro nth_overwrite) auto
    moreover have "?c ! p = byte st ip p" if "\<not> (off \<le> p \<and> p < off + length src)"
    proof -
      have "p < unat (i_size (icache st ip))" using that p off by auto
      then show ?thesis using len by (simp add: nth_append content_def)
    qed
    ultimately show "content st' ip ! p = overwrite ?c off src ! p" using b by simp
  qed
  then show ?thesis using off by (simp add: overwrite_def content_def)
qed

text \<open>An update of the inode block leaves the files as they are.\<close>

lemma meta_write:
  assumes ok: "file_ok ds ip st" and ib: "unat ib < unat (sb_bmapstart (fs_sb st))" and same: "same_rest st' st"
    and blk: "\<And>n. n \<noteq> ib \<Longrightarrow> blk st' n = blk st n" and len: "length (blk st' ib) = BSIZE"
  shows "file_ok ds ip st'" and "addr st' ip = addr st ip" and "p < MAXFILE * BSIZE \<Longrightarrow> byte st' ip p = byte st ip p"
    and "in_data ds st n \<Longrightarrow> blk st' n = blk st n" and "used st' b = used st b \<or> \<not> b < unat (sb_size (fs_sb st))"
    and "slot st' ip = slot st ip"
proof -
  have lay: "layout ds st" using ok by (simp add: file_ok_def)
  then have ds: "unat ib < ds" using ib by (auto simp: layout_def)
  have rest: "fs_sb st' = fs_sb st" "fs_disksize st' = fs_disksize st" "icache st' = icache st"
    "log_region (fs_log st') = log_region (fs_log st)"
    using same same_log_region by (auto simp: same_rest_def)
  have data: "blk st' n = blk st n" if "in_data ds st n" for n using that ds by (intro blk) (auto simp: in_data_def)
  then show "in_data ds st n \<Longrightarrow> blk st' n = blk st n" .
  have used: "used st' b = used st b" if "b < unat (sb_size (fs_sb st))" for b
  proof -
    have "unat (BBLOCK (word_of_nat b) (fs_sb st)) \<noteq> unat ib" using BBLOCK_at(1) [OF lay that] ib by simp
    then have "BBLOCK (word_of_nat b) (fs_sb st) \<noteq> ib" by metis
    then show ?thesis using blk [of "BBLOCK (word_of_nat b) (fs_sb st)"] by (simp add: used_def rest)
  qed
  then show "used st' b = used st b \<or> \<not> b < unat (sb_size (fs_sb st))" by blast
  have inds: "ind st' ip = ind st ip" by (simp add: ind_def rest)
  have "addr st' ip i = addr st ip i" for i
  proof (cases "ind st ip = 0")
    case False
    then show ?thesis using data file_ind(1) [OF ok] by (simp add: addr_def inds rest)
  qed (simp add: addr_def inds rest)
  then show addrs: "addr st' ip = addr st ip" by (rule ext)
  then show slots: "slot st' ip = slot st ip" by (auto simp: slot_def inds fun_eq_iff)
  have "length (blk st' n) = BSIZE" if "sized st n" for n using lay len blk that by (cases "n = ib") (auto simp: layout_def)
  then have "layout ds st'" using lay used by (auto simp: layout_def sized_def rest)
  then show "file_ok ds ip st'" using ok used by (auto simp: file_ok_def rest slots in_data_def)
  assume "p < MAXFILE * BSIZE"
  then have "p div BSIZE < MAXFILE" by (simp add: div_less_iff_less_mult)
  then show "byte st' ip p = byte st ip p" using data addr_not_ind(2) [OF ok] by (auto simp: byte_def fblock_def addrs)
qed

lemma size_upd [simp]:
  fixes f :: "u32 \<Rightarrow> u32" and ip :: nat and st :: fs
  defines "st' \<equiv> upd_inode ip (i_size_update f) st"
  shows "blk st' n = blk st n" "fs_sb st' = fs_sb st" "fs_disksize st' = fs_disksize st" "room st' j = room st j"
    "addr st' ip = addr st ip" "byte st' ip p = byte st ip p" "file_ok ds ip st' = file_ok ds ip st" "in_data ds st' a = in_data ds st a"
    "i \<noteq> ip \<Longrightarrow> icache st' i = icache st i" "icache st' ip = i_size_update f (icache st ip)"
    "fs_log st' = fs_log st" "used st' b = used st b" "slot st' ip = slot st ip"
proof -
  show b: "blk st' n = blk st n" "fs_sb st' = fs_sb st" "fs_disksize st' = fs_disksize st" "room st' j = room st j"
    "in_data ds st' a = in_data ds st a" "i \<noteq> ip \<Longrightarrow> icache st' i = icache st i" "icache st' ip = i_size_update f (icache st ip)"
    "fs_log st' = fs_log st"
    for n j ds a i by (simp_all add: st'_def upd_inode_def room_def in_data_def)
  show "used st' b = used st b" for b by (simp add: used_def b)
  then have lay: "layout ds st' = layout ds st" and used: "used st' = used st" by (auto simp: layout_def sized_def b)
  have ind: "ind st' ip = ind st ip" by (simp add: ind_def b)
  show addr: "addr st' ip = addr st ip" by (auto simp: addr_def ind b fun_eq_iff)
  then show "slot st' ip = slot st ip" by (auto simp: slot_def ind fun_eq_iff)
  then show "file_ok ds ip st' = file_ok ds ip st" by (simp add: file_ok_def lay used b)
  show "byte st' ip p = byte st ip p" by (simp add: byte_def fblock_def addr b)
qed

text \<open>Storing a new size.\<close>

lemma resize_ok:
  assumes ok: "file_ok ds ip st" and pl: "inode_placed ip st" and room: "room st (Suc j)"
  obtains st' where "iupdate ip (upd_inode ip (i_size_update (\<lambda>_. n)) st) = Inr st'" and "file_ok ds ip st'"
    and "addr st' ip = addr st ip" and "slot st' ip = slot st ip" and "\<And>p. p < MAXFILE * BSIZE \<Longrightarrow> byte st' ip p = byte st ip p"
    and "\<And>b. in_data ds st b \<Longrightarrow> blk st' b = blk st b" and "fs_sb st' = fs_sb st" and "fs_disksize st' = fs_disksize st"
    and "same_log (fs_log st') (fs_log st)" and "icache st' = (icache st)(ip := (icache st ip)\<lparr>i_size := n\<rparr>)" and "room st' j"
    and "\<And>b. b < unat (sb_size (fs_sb st)) \<Longrightarrow> used st' b = used st b"
proof -
  let ?s = "upd_inode ip (i_size_update (\<lambda>_. n)) st" and ?ib = "IBLOCK (i_inum (icache st ip)) (fs_sb st)"
  have oks: "file_ok ds ip ?s" using ok by simp
  then have lay: "layout ds ?s" and dev: "i_dev (icache ?s ip) = 1" and la: "length (i_addrs (icache ?s ip)) = NDIRECT + 1"
    unfolding file_ok_def by blast+
  have ib: "unat (sb_inodestart (fs_sb st)) \<le> unat ?ib" "unat ?ib < unat (sb_bmapstart (fs_sb ?s))"
    using pl by (simp_all add: inode_placed_def Let_def word_le_nat_alt word_less_nat_alt)
  then have "sized ?s ?ib" using lay by (auto simp: sized_def layout_def word_less_nat_alt)
  note sz = sized_block [OF lay this]
  obtain st' where st': "iupdate ip ?s = Inr st'" "same_rest st' ?s" "room st' j"
    "\<And>m. blk st' m = (if m = ?ib then overwrite (blk ?s ?ib) (dinode_off (i_inum (icache ?s ip))) (dinode_bytes (icache ?s ip)) else blk ?s m)"
    using iupdate_ok [OF dev la, of j ?ib] room sz by auto
  have bl: "blk st' m = blk ?s m" if "m \<noteq> ?ib" for m using st'(4) that by simp
  have lb: "length (blk st' ?ib) = BSIZE"
    unfolding st'(4) using sz(2) dinode_fits [of "i_inum (icache ?s ip)"] length_dinode_bytes [OF la] by simp
  note mw = meta_write [OF oks ib(2) st'(2) bl lb]
  have "icache st' = (icache st)(ip := (icache st ip)\<lparr>i_size := n\<rparr>)" using st'(2) by (auto simp: same_rest_def upd_inode_def)
  moreover have "used st' b = used st b" if "b < unat (sb_size (fs_sb st))" for b using mw(5) [of b] that by simp
  moreover have "byte st' ip p = byte st ip p" if "p < MAXFILE * BSIZE" for p using mw(3) that by simp
  moreover have "blk st' b = blk st b" if "in_data ds st b" for b using mw(4) that by simp
  ultimately show thesis using that [of st'] st'(1-3) mw(1,2,6) by (simp add: same_rest_def)
qed

text \<open>\<open>writei\<close> up to the update of the inode.\<close>

lemma writei_start:
  assumes reg: "regular ds ip st" and off: "unat off \<le> length (content st ip)" and n: "unat off + length src \<le> MAXFILE * BSIZE"
    and loop: "writei_loop ip (unat off) src st = Inr s1" and size: "i_size (icache s1 ip) = i_size (icache st ip)"
  shows "writei devs ip src off (word_of_nat (length src)) st =
    (if 0 < length src \<and> unat off + length src > unat (i_size (icache st ip))
     then bindE (iupdate ip (upd_inode ip (i_size_update (\<lambda>_. off + word_of_nat (length src))) s1)) (\<lambda>st. Inr (int (length src), st))
     else Inr (int (length src), s1))"
    and "unat (off + word_of_nat (length src)) = unat off + length src"
proof -
  let ?n = "word_of_nat (length src) :: u32"
  have ty: "i_type (icache st ip) \<noteq> T_DEV" using reg by (simp add: regular_def)
  have un: "unat ?n = length src" using n by (simp add: unat_of_nat MAXFILE_bytes)
  show sum: "unat (off + ?n) = unat off + length src" using n un by (simp add: unat_word_ariths MAXFILE_bytes)
  then have c: "\<not> (off > i_size (icache st ip) \<or> off + ?n < off)" "\<not> unat (off + ?n) > MAXFILE * BSIZE"
    using off n by (simp_all add: word_less_nat_alt content_def)
  have "sint ?n = int (length src)" using un n by (simp add: sint_nonneg_u32 MAXFILE_bytes)
  then show "writei devs ip src off ?n st =
    (if 0 < length src \<and> unat off + length src > unat (i_size (icache st ip))
     then bindE (iupdate ip (upd_inode ip (i_size_update (\<lambda>_. off + ?n)) s1)) (\<lambda>st. Inr (int (length src), st))
     else Inr (int (length src), s1))"
    using ty c loop size sum un by (simp add: writei_def Let_def bytes_at_def word_less_nat_alt)
qed

lemma same_inode_fields:
  assumes "same_inode x y"
  shows "i_size x = i_size y" "i_type x = i_type y" "i_inum x = i_inum y" "i_dev x = i_dev y" "i_ref x = i_ref y" "i_lock x = i_lock y"
    "i_valid x = i_valid y"
  using assms by (cases x; cases y; simp add: same_inode_def)+

text \<open>The data blocks that are in use and do not belong to the file.\<close>

definition foreign :: "nat \<Rightarrow> nat \<Rightarrow> fs \<Rightarrow> u32 \<Rightarrow> bool" where
  "foreign ds ip st b \<longleftrightarrow> in_data ds st b \<and> used st (unat b) \<and> (\<forall>j \<le> MAXFILE. slot st ip j \<noteq> b)"

lemma kept_foreign: "kept ds ip st st' \<Longrightarrow> foreign ds ip st b \<Longrightarrow> blk st' b = blk st b \<and> foreign ds ip st' b"
  unfolding kept_def foreign_def in_data_def by metis

text \<open>
  \<open>writei\<close> on a file: the bytes are replaced, and the file grows when the end is passed. The
  inode keeps everything but its addresses and its size.
\<close>

lemma writei_content:
  assumes reg: "regular ds ip st" and off: "unat off \<le> length (content st ip)" and n: "unat off + length src \<le> MAXFILE * BSIZE"
    and room: "room st (6 * chunks (unat off) (length src) + 1)" and free: "2 * chunks (unat off) (length src) \<le> frees st"
  shows "\<exists>st'. writei devs ip src off (word_of_nat (length src)) st = Inr (int (length src), st') \<and> regular ds ip st' \<and>
    content st' ip = take (unat off) (content st ip) @ src @ drop (unat off + length src) (content st ip) \<and>
    (\<forall>i. i \<noteq> ip \<longrightarrow> icache st' i = icache st i) \<and> (\<forall>b. foreign ds ip st b \<longrightarrow> blk st' b = blk st b \<and> foreign ds ip st' b) \<and>
    frees st \<le> frees st' + 2 * chunks (unat off) (length src) \<and> fs_sb st' = fs_sb st \<and> fs_disksize st' = fs_disksize st \<and>
    same_inode ((icache st' ip)\<lparr>i_size := 0\<rparr>) ((icache st ip)\<lparr>i_size := 0\<rparr>) \<and> same_log (fs_log st') (fs_log st) \<and> room st' 0"
proof -
  let ?x = "icache st ip" and ?n = "word_of_nat (length src) :: u32"
  have ok: "file_ok ds ip st" and ty: "i_type ?x \<noteq> T_DEV" and sz: "unat (i_size ?x) \<le> 71680"
    and nz: "\<And>p. p < unat (i_size ?x) \<Longrightarrow> addr st ip (p div BSIZE) \<noteq> 0" and pl: "inode_placed ip st"
    using reg by (auto simp: regular_def MAXFILE_bytes)
  have len: "length (content st ip) = unat (i_size ?x)" by (simp add: content_def)
  obtain s1 where s1: "writei_loop ip (unat off) src st = Inr s1" "kept ds ip st s1" "wrote ip st (unat off) src s1" "room s1 1"
    "frees st \<le> frees s1 + 2 * chunks (unat off) (length src)"
    "\<forall>p. unat off \<le> p \<and> p < unat off + length src \<longrightarrow> addr s1 ip (p div BSIZE) \<noteq> 0"
    using writei_loop_ok [OF ok n room free] by blast
  have k1: "file_ok ds ip s1" "fs_sb s1 = fs_sb st" "same_inode (icache s1 ip) ?x" "same_log (fs_log s1) (fs_log st)"
    "\<And>i. i \<noteq> ip \<Longrightarrow> icache s1 i = icache st i" "fs_disksize s1 = fs_disksize st" using s1(2) by (simp_all add: kept_def)
  note x1 = same_inode_fields [OF k1(3)]
  have pl1: "inode_placed ip s1" using pl by (simp add: inode_placed_def x1 k1(2))
  have nz1: "addr s1 ip (p div BSIZE) \<noteq> 0" if "p < max (unat (i_size ?x)) (unat off + length src)" for p
  proof (cases "unat off \<le> p \<and> p < unat off + length src")
    case False
    then have p: "p < unat (i_size ?x)" using that off len by auto
    then have "p div BSIZE < MAXFILE" using sz by (simp add: div_less_iff_less_mult MAXFILE_bytes)
    then show ?thesis using nz [OF p] s1(2) by (simp add: kept_def)
  qed (use s1(6) in blast)
  note start = writei_start(1) [OF reg off n s1(1) x1(1), of devs] writei_start(2) [OF reg off n s1(1) x1(1)]
  note f1 = kept_foreign [OF s1(2)]
  show ?thesis
  proof (cases "0 < length src \<and> unat off + length src > unat (i_size ?x)")
    case False
    then have mx: "max (unat (i_size ?x)) (unat off + length src) = unat (i_size ?x)" using off len by auto
    have "regular ds ip s1" using k1(1) ty sz nz1 pl1 by (simp add: regular_def x1 mx MAXFILE_bytes)
    moreover have "content s1 ip = take (unat off) (content st ip) @ src @ drop (unat off + length src) (content st ip)"
      using off len n sz mx by (intro content_wrote [OF s1(3)]) (simp_all add: x1 MAXFILE_bytes)
    moreover have "same_inode ((icache s1 ip)\<lparr>i_size := 0\<rparr>) (?x\<lparr>i_size := 0\<rparr>)"
      using k1(3) by (cases ?x; cases "icache s1 ip"; simp add: same_inode_def)
    moreover have "writei devs ip src off ?n st = Inr (int (length src), s1)" unfolding start(1) using False by (simp only: if_False)
    ultimately show ?thesis using f1 s1(5) k1(2,4,5,6) room_mono [OF s1(4), of 0] by blast
  next
    case True
    then have mx: "max (unat (i_size ?x)) (unat off + length src) = unat (off + ?n)" using start(2) by simp
    have "room s1 (Suc 0)" using s1(4) by simp
    then obtain st' where
      st': "iupdate ip (upd_inode ip (i_size_update (\<lambda>_. off + ?n)) s1) = Inr st'" "file_ok ds ip st'"
        "addr st' ip = addr s1 ip" "slot st' ip = slot s1 ip" "\<And>p. p < MAXFILE * BSIZE \<Longrightarrow> byte st' ip p = byte s1 ip p"
        "\<And>b. in_data ds s1 b \<Longrightarrow> blk st' b = blk s1 b" "fs_sb st' = fs_sb s1" "fs_disksize st' = fs_disksize s1"
        "same_log (fs_log st') (fs_log s1)" "icache st' = (icache s1)(ip := (icache s1 ip)\<lparr>i_size := off + ?n\<rparr>)" "room st' 0"
        "\<And>b. b < unat (sb_size (fs_sb s1)) \<Longrightarrow> used st' b = used s1 b"
      by (rule resize_ok [OF k1(1) pl1, of 0 "off + ?n"]) (rule that)
    have w: "wrote ip st (unat off) src st'" using s1(3) st'(5) by (simp add: wrote_def)
    have "regular ds ip st'" unfolding regular_def
    proof (intro conjI allI impI)
      show "inode_placed ip st'" using pl1 by (simp add: inode_placed_def st'(7,10))
      show "unat (i_size (icache st' ip)) \<le> MAXFILE * BSIZE" using n start(2) by (simp add: st'(10))
      fix p assume "p < unat (i_size (icache st' ip))"
      then show "addr st' ip (p div BSIZE) \<noteq> 0" using nz1 [of p] mx by (simp add: st'(3,10))
    qed (use st'(2) ty in \<open>simp_all add: st'(10) x1\<close>)
    moreover have "content st' ip = take (unat off) (content st ip) @ src @ drop (unat off + length src) (content st ip)"
      using off len n sz mx by (intro content_wrote [OF w]) (simp_all add: st'(10) MAXFILE_bytes)
    moreover have "same_inode ((icache st' ip)\<lparr>i_size := 0\<rparr>) (?x\<lparr>i_size := 0\<rparr>)"
      using k1(3) by (cases ?x; cases "icache s1 ip"; simp add: same_inode_def st'(10))
    moreover have "blk st' b = blk st b \<and> foreign ds ip st' b" if "foreign ds ip st b" for b
    proof -
      have s: "blk s1 b = blk st b" "in_data ds s1 b" "used s1 (unat b)" "\<forall>j \<le> MAXFILE. slot s1 ip j \<noteq> b"
        using f1 [OF that] by (simp_all add: foreign_def)
      then have "used st' (unat b)" using st'(12) [of "unat b"] by (simp add: in_data_def)
      then show ?thesis using s st'(6) [OF s(2)] by (simp add: foreign_def in_data_def st'(4,7))
    qed
    moreover have "frees st' = frees s1" using st'(12) by (auto simp: frees_def st'(7) intro: arg_cong [of _ _ card])
    then have "frees st \<le> frees st' + 2 * chunks (unat off) (length src)" using s1(5) by simp
    moreover have "fs_sb st' = fs_sb st" "fs_disksize st' = fs_disksize st" using st'(7,8) k1(2,6) by simp_all
    moreover have "writei devs ip src off ?n st = Inr (int (length src), st')" unfolding start(1) using True st'(1) by (simp only: if_True simp_thms bindE_simps)
    moreover have "\<forall>i. i \<noteq> ip \<longrightarrow> icache st' i = icache st i" using k1(5) by (simp add: st'(10))
    ultimately show ?thesis using same_log_trans [OF st'(9) k1(4)] st'(11) by blast
  qed
qed

section \<open>Reading an inode back\<close>

lemma le_field_overwrite:
  assumes "q + n \<le> length xs" and "off + length xs \<le> length d"
  shows "le_field (overwrite d off xs) (off + q) n = le_field xs q n"
proof -
  have "take n (drop (off + q) (overwrite d off xs)) = take n (drop q xs)"
    by (rule nth_equalityI) (use assms in \<open>auto simp: nth_overwrite\<close>)
  then show ?thesis using assms by (simp add: le_field_def)
qed

lemma dinode_field:
  assumes "k < 5 + length (i_addrs y)"
    and "([(2, unat (i_type y)), (2, unat (i_major y)), (2, unat (i_minor y)), (2, unat (i_nlink y)), (4, unat (i_size y))] @
      map (\<lambda>a. (4, unat a)) (i_addrs y)) ! k = (n, v)" and "v < 256 ^ n"
    and "q = sum_list (map fst (take k ([(2, unat (i_type y)), (2, unat (i_major y)), (2, unat (i_minor y)), (2, unat (i_nlink y)),
      (4, unat (i_size y))] @ map (\<lambda>a. (4, unat a)) (i_addrs y))))"
  shows "le_field (dinode_bytes y) q n = Inr v"
  using le_field_struct [of k "[(2, unat (i_type y)), (2, unat (i_major y)), (2, unat (i_minor y)), (2, unat (i_nlink y)), (4, unat (i_size y))] @
      map (\<lambda>a. (4, unat a)) (i_addrs y)" n v q "[]"] assms by (simp add: dinode_bytes_def)

lemma unat16: "unat (x :: u16) < 256 ^ 2" and unat32: "unat (y :: u32) < 256 ^ 4"
  using unsigned_less [of x] unsigned_less [of y] by simp_all

lemma dinode_fields:
  "le_field (dinode_bytes y) 0 2 = Inr (unat (i_type y))" "le_field (dinode_bytes y) 2 2 = Inr (unat (i_major y))"
  "le_field (dinode_bytes y) 4 2 = Inr (unat (i_minor y))" "le_field (dinode_bytes y) 6 2 = Inr (unat (i_nlink y))"
  "le_field (dinode_bytes y) 8 4 = Inr (unat (i_size y))"
  "k < length (i_addrs y) \<Longrightarrow> le_field (dinode_bytes y) (12 + 4 * k) 4 = Inr (unat (i_addrs y ! k))"
proof -
  show "le_field (dinode_bytes y) 0 2 = Inr (unat (i_type y))"
    by (rule dinode_field [of 0 y, OF _ _ unat16]) simp_all
  show "le_field (dinode_bytes y) 2 2 = Inr (unat (i_major y))"
    by (rule dinode_field [of "Suc 0" y, OF _ _ unat16]) simp_all
  show "le_field (dinode_bytes y) 4 2 = Inr (unat (i_minor y))"
    by (rule dinode_field [of "Suc (Suc 0)" y, OF _ _ unat16]) simp_all
  show "le_field (dinode_bytes y) 6 2 = Inr (unat (i_nlink y))"
    by (rule dinode_field [of "Suc (Suc (Suc 0))" y, OF _ _ unat16]) simp_all
  show "le_field (dinode_bytes y) 8 4 = Inr (unat (i_size y))"
    by (rule dinode_field [of "Suc (Suc (Suc (Suc 0)))" y, OF _ _ unat32]) simp_all
  show "le_field (dinode_bytes y) (12 + 4 * k) 4 = Inr (unat (i_addrs y ! k))" if "k < length (i_addrs y)"
    by (rule dinode_field [of "Suc (Suc (Suc (Suc (Suc k))))" y, OF _ _ unat32])
      (use that in \<open>simp_all add: take_map o_def sum_list_triv\<close>)
qed

lemma get_addrs:
  assumes "n \<le> length as" and "length as = length bs" and "\<And>k. k < n \<Longrightarrow> get32 d (base + 4 * k) = Inr (bs ! k)"
  shows "loopE (\<lambda>k as. bindE (get32 d (base + 4 * k)) (\<lambda>a. wr as k a)) [0..<n] as = Inr (take n bs @ drop n as)"
  using assms
proof (induction n)
  case (Suc n)
  then have "n < length as" "n < length bs" by simp_all
  then have "(take n bs @ drop n as)[n := bs ! n] = take (Suc n) bs @ drop (Suc n) as"
    using Suc.prems(2) by (intro nth_equalityI) (auto simp: nth_list_update nth_append min_def not_less less_Suc_eq)
  then show ?case using Suc by (simp add: loopE_append)
qed simp

lemma read_dinode_bytes:
  assumes "off + DINODE_SIZE \<le> length d" and "length (i_addrs y) = NDIRECT + 1" and "length (i_addrs x) = NDIRECT + 1"
  shows "read_dinode (overwrite d off (dinode_bytes y)) off x =
    Inr (x\<lparr>i_type := i_type y, i_major := i_major y, i_minor := i_minor y, i_nlink := i_nlink y, i_size := i_size y,
      i_addrs := i_addrs y, i_valid := True\<rparr>)"
proof -
  let ?d = "overwrite d off (dinode_bytes y)"
  have len: "length (dinode_bytes y) = 64" using length_dinode_bytes [OF assms(2)] by (simp add: DINODE_SIZE_def)
  have f: "le_field ?d (off + q) n = le_field (dinode_bytes y) q n" if "q + n \<le> 64" for q n
    using that assms(1) len by (intro le_field_overwrite) (simp_all add: DINODE_SIZE_def)
  have g: "get16 ?d off = Inr (i_type y)" "get16 ?d (off + 2) = Inr (i_major y)" "get16 ?d (off + 4) = Inr (i_minor y)"
    "get16 ?d (off + 6) = Inr (i_nlink y)" "get32 ?d (off + 8) = Inr (i_size y)"
    using f [of 0 2] f [of 2 2] f [of 4 2] f [of 6 2] f [of 8 4] by (simp_all add: get16_def get32_def dinode_fields del: add_2_eq_Suc')
  have "get32 ?d (off + 12 + 4 * k) = Inr (i_addrs y ! k)" if "k < NDIRECT + 1" for k
    using f [of "12 + 4 * k" 4] that assms(2) dinode_fields(6) [of k y] by (simp add: get32_def add.assoc NDIRECT_def)
  then have "loopE (\<lambda>k as. bindE (get32 ?d (off + 12 + 4 * k)) (\<lambda>a. wr as k a)) [0..<NDIRECT + 1] (i_addrs x) = Inr (i_addrs y)"
    using get_addrs [of "NDIRECT + 1" "i_addrs x" "i_addrs y" ?d "off + 12"] assms(2,3) by simp
  then show ?thesis unfolding read_dinode_def g bindE_simps by simp
qed

text \<open>Another inode keeps its bytes.\<close>

lemma dinode_place:
  assumes "IBLOCK i sb = IBLOCK j sb" and "dinode_off i = dinode_off j"
  shows "i = j"
proof -
  have u: "unat (word_of_nat IPB :: u32) = IPB" "0 < IPB" "0 < DINODE_SIZE" by (simp_all add: IPB_def BSIZE_def DINODE_SIZE_def)
  have "i div word_of_nat IPB = j div word_of_nat IPB" using assms(1) by (simp add: IBLOCK_def)
  then have "unat i div IPB = unat j div IPB" by (metis u(1) unat_div)
  moreover have "unat i mod IPB = unat j mod IPB" using assms(2) u(3) by (simp add: dinode_off_def)
  ultimately have "unat i = unat j" by (metis div_mult_mod_eq)
  then show ?thesis by (simp add: word_unat_eq_iff)
qed

lemma dinode_apart:
  assumes "dinode_off i \<noteq> dinode_off j"
  shows "dinode_off i + DINODE_SIZE \<le> dinode_off j \<or> dinode_off j + DINODE_SIZE \<le> dinode_off i"
proof -
  have "unat i mod IPB + 1 \<le> unat j mod IPB \<or> unat j mod IPB + 1 \<le> unat i mod IPB" using assms by (auto simp: dinode_off_def)
  then have "(unat i mod IPB + 1) * DINODE_SIZE \<le> unat j mod IPB * DINODE_SIZE \<or> (unat j mod IPB + 1) * DINODE_SIZE \<le> unat i mod IPB * DINODE_SIZE"
    by (metis mult_le_mono1)
  then show ?thesis by (simp add: dinode_off_def add.commute)
qed

lemma dinode_other:
  assumes "length d = BSIZE" and "length xs = DINODE_SIZE" and "dinode_off i \<noteq> dinode_off j"
  shows "take DINODE_SIZE (drop (dinode_off j) (overwrite d (dinode_off i) xs)) = take DINODE_SIZE (drop (dinode_off j) d)"
  by (rule nth_equalityI) (use assms dinode_apart [OF assms(3)] dinode_fits [of i] dinode_fits [of j] in \<open>auto simp: nth_overwrite\<close>)

end
