(* ===== verification/Xv6_Filetable.thy ===== *)
theory Xv6_Filetable
  imports Xv6_File Xv6_Pipe Xv6_Kalloc
begin

text \<open>
  \<open>file.c\<close>, the \<open>struct file\<close> of \<open>file.h\<close> and \<open>pipealloc\<close> of \<open>pipe.c\<close>: open files over the inodes of
  \<open>fs.c\<close> and over pipes. A pointer to an open file is its index in the table. The parts of a call
  that hold the lock of the table are taken as one step.
\<close>

section \<open>Open files\<close>

datatype fd_type = FD_NONE | FD_PIPE | FD_INODE

record ofile =
  f_type :: fd_type
  f_ref :: int
  f_readable :: bool
  f_writable :: bool
  f_pipe :: u32
  f_ip :: nat
  f_off :: u32

text \<open>
  The state the calls share: the table, the file system, the pipes by the address of their page, the
  page allocator, and the calls of \<open>wakeup\<close> on a pipe so far. The contents of a page that holds a pipe
  are in \<open>pipes\<close>, those of the other pages in the memory of the allocator.
\<close>

record files =
  ftable :: "nat \<Rightarrow> ofile"
  fl_fs :: fs
  pipes :: "u32 \<Rightarrow> pipe option"
  fl_kmem :: kmem
  woken :: "(u32 \<times> wakeup) list"

definition NFILE :: nat where "NFILE = 100"

definition upd_file :: "nat \<Rightarrow> (ofile \<Rightarrow> ofile) \<Rightarrow> files \<Rightarrow> files" where
  "upd_file f g fl = fl\<lparr>ftable := (ftable fl)(f := g (ftable fl f))\<rparr>"

definition filealloc :: "files \<Rightarrow> nat option \<times> files" where
  "filealloc fl =
     (case find (\<lambda>f. f_ref (ftable fl f) = 0) [0..<NFILE] of
        None \<Rightarrow> (None, fl)
      | Some f \<Rightarrow> (Some f, upd_file f (f_ref_update (\<lambda>_. 1)) fl))"

definition filedup :: "nat \<Rightarrow> files \<Rightarrow> (nat \<times> files) result" where
  "filedup f fl =
     (if f_ref (ftable fl f) < 1 then Inl (Panic ''filedup'')
      else Inr (f, upd_file f (f_ref_update (\<lambda>r. r + 1)) fl))"

text \<open>A transaction on the file system.\<close>

definition fs_begin :: "fs \<Rightarrow> fs result" where
  "fs_begin st = bindE (begin_op (fs_log st)) (\<lambda>l. Inr (st\<lparr>fs_log := l\<rparr>))"

definition fs_end :: "fs \<Rightarrow> fs result" where
  "fs_end st = bindE (end_op (fs_log st) (fs_store st)) (\<lambda>(l, s). Inr (st\<lparr>fs_log := l, fs_store := s\<rparr>))"

definition the_pipe :: "u32 \<Rightarrow> files \<Rightarrow> pipe result" where
  "the_pipe p fl = (case pipes fl p of None \<Rightarrow> Inl Indeterminate | Some x \<Rightarrow> Inr x)"

definition set_pipe :: "u32 \<Rightarrow> pipe \<Rightarrow> wakeup list \<Rightarrow> files \<Rightarrow> files" where
  "set_pipe p x ws fl = fl\<lparr>pipes := (pipes fl)(p \<mapsto> x), woken := woken fl @ map (\<lambda>w. (p, w)) ws\<rparr>"

text \<open>The arguments \<open>kend\<close>, \<open>me\<close> and \<open>stack\<close> are those of \<open>kfree\<close>, \<open>pid\<close> is the process.\<close>

definition close_pipe :: "u32 \<Rightarrow> nat \<Rightarrow> u32 list \<Rightarrow> u32 \<Rightarrow> bool \<Rightarrow> files \<Rightarrow> files result" where
  "close_pipe kend me stack p writable fl =
     bindE (the_pipe p fl) (\<lambda>x.
     case pipeclose writable x of (x, ws, freed) \<Rightarrow>
     let fl = set_pipe p x ws fl in
     if freed then
       bindE (kfree kend me stack p (fl_kmem fl)) (\<lambda>k. Inr (fl\<lparr>fl_kmem := k, pipes := (pipes fl)(p := None)\<rparr>))
     else Inr fl)"

definition fileclose :: "u32 \<Rightarrow> nat \<Rightarrow> u32 list \<Rightarrow> int \<Rightarrow> nat \<Rightarrow> files \<Rightarrow> files result" where
  "fileclose kend me stack pid f fl =
     (if f_ref (ftable fl f) < 1 then Inl (Panic ''fileclose'') else
      let fl = upd_file f (f_ref_update (\<lambda>r. r - 1)) fl in
      if f_ref (ftable fl f) > 0 then Inr fl else
      let ff = ftable fl f;
          fl = upd_file f (\<lambda>x. x\<lparr>f_ref := 0, f_type := FD_NONE\<rparr>) fl
      in case f_type ff of
           FD_PIPE \<Rightarrow> close_pipe kend me stack (f_pipe ff) (f_writable ff) fl
         | FD_INODE \<Rightarrow>
             bindE (fs_begin (fl_fs fl)) (\<lambda>st.
             bindE (iput pid (f_ip ff) st) (\<lambda>st.
             bindE (fs_end st) (\<lambda>st. Inr (fl\<lparr>fl_fs := st\<rparr>))))
         | FD_NONE \<Rightarrow> Inr fl)"

definition filestat :: "int \<Rightarrow> nat \<Rightarrow> files \<Rightarrow> ((int \<times> stat option) \<times> files) result" where
  "filestat pid f fl =
     (if f_type (ftable fl f) = FD_INODE then
        let ip = f_ip (ftable fl f) in
        bindE (ilock pid (Some ip) (fl_fs fl)) (\<lambda>st.
        let s = stati ip st in
        bindE (iunlock pid (Some ip) st) (\<lambda>st. Inr ((0, Some s), fl\<lparr>fl_fs := st\<rparr>)))
      else Inr ((- 1, None), fl))"

text \<open>How a read ends: with the return value and the bytes stored, or asleep in a pipe.\<close>

datatype fread_end = Returned int "u8 list" | Asleep

definition read_pipe :: "bool \<Rightarrow> u32 \<Rightarrow> int \<Rightarrow> files \<Rightarrow> (fread_end \<times> files) result" where
  "read_pipe killed p n fl =
     bindE (the_pipe p fl) (\<lambda>x.
     case piperead killed (nat n) x of (x, ws, e) \<Rightarrow>
     Inr (case e of Read bs \<Rightarrow> Returned (int (length bs)) bs | ReadFails \<Rightarrow> Returned (- 1) [] | ReadSleeps \<Rightarrow> Asleep,
          set_pipe p x ws fl))"

definition fileread :: "devsw \<Rightarrow> int \<Rightarrow> bool \<Rightarrow> nat \<Rightarrow> int \<Rightarrow> files \<Rightarrow> (fread_end \<times> files) result" where
  "fileread devs pid killed f n fl =
     (let ff = ftable fl f; ip = f_ip ff in
      if \<not> f_readable ff then Inr (Returned (- 1) [], fl) else
      case f_type ff of
        FD_PIPE \<Rightarrow> read_pipe killed (f_pipe ff) n fl
      | FD_INODE \<Rightarrow>
          bindE (ilock pid (Some ip) (fl_fs fl)) (\<lambda>st.
          bindE (readi devs ip (f_off ff) (word_of_int n) st) (\<lambda>((r, bs), st).
          let fl = (if r > 0 then upd_file f (f_off_update (\<lambda>off. off + word_of_int r)) fl else fl) in
          bindE (iunlock pid (Some ip) st) (\<lambda>st. Inr (Returned r bs, fl\<lparr>fl_fs := st\<rparr>))))
      | FD_NONE \<Rightarrow> Inl (Panic ''fileread''))"

text \<open>
  One round of the loop of \<open>filewrite\<close>: a transaction that writes \<open>n1\<close> bytes at the offset of the
  file. The result is what \<open>writei\<close> has returned.
\<close>

definition write_round :: "devsw \<Rightarrow> int \<Rightarrow> nat \<Rightarrow> u8 list \<Rightarrow> int \<Rightarrow> files \<Rightarrow> (int \<times> files) result" where
  "write_round devs pid f src n1 fl =
     (let ff = ftable fl f; ip = f_ip ff in
      bindE (fs_begin (fl_fs fl)) (\<lambda>st.
      bindE (ilock pid (Some ip) st) (\<lambda>st.
      bindE (writei devs ip src (f_off ff) (word_of_int n1) st) (\<lambda>(r, st).
      let fl = (if r > 0 then upd_file f (f_off_update (\<lambda>off. off + word_of_int r)) fl else fl) in
      bindE (iunlock pid (Some ip) st) (\<lambda>st.
      bindE (fs_end st) (\<lambda>st. Inr (r, fl\<lparr>fl_fs := st\<rparr>)))))))"

definition write_max :: int where
  "write_max = (int MAXOPBLOCKS - 1 - 1 - 2) div 2 * 512"

function filewrite_loop :: "devsw \<Rightarrow> int \<Rightarrow> nat \<Rightarrow> u8 list \<Rightarrow> int \<Rightarrow> int \<Rightarrow> files \<Rightarrow> (int \<times> files) result" where
  "filewrite_loop devs pid f buf i n fl =
     (if i < n then
        let n1 = (if n - i > write_max then write_max else n - i) in
        bindE (write_round devs pid f (drop (nat i) buf) n1 fl) (\<lambda>(r, fl).
        if r < 0 then Inr (i, fl)
        else if r \<noteq> n1 then Inl (Panic ''short filewrite'')
        else filewrite_loop devs pid f buf (i + r) n fl)
      else Inr (i, fl))"
  by pat_completeness auto
termination
  by (relation "measure (\<lambda>(devs, pid, f, buf, i, n, fl). nat (n - i))")
    (auto simp: write_max_def MAXOPBLOCKS_def split: if_splits)

declare filewrite_loop.simps [simp del]

definition write_pipe :: "bool \<Rightarrow> u32 \<Rightarrow> u8 list \<Rightarrow> int \<Rightarrow> files \<Rightarrow> (write_end \<times> files) result" where
  "write_pipe killed p buf n fl =
     bindE (the_pipe p fl) (\<lambda>x.
     bindE (bytes_at buf 0 (nat n)) (\<lambda>src.
     case pipewrite killed src x of (x, ws, e) \<Rightarrow> Inr (e, set_pipe p x ws fl)))"

definition filewrite :: "devsw \<Rightarrow> int \<Rightarrow> bool \<Rightarrow> nat \<Rightarrow> u8 list \<Rightarrow> int \<Rightarrow> files \<Rightarrow> (write_end \<times> files) result" where
  "filewrite devs pid killed f buf n fl =
     (let ff = ftable fl f in
      if \<not> f_writable ff then Inr (Wrote (- 1), fl) else
      case f_type ff of
        FD_PIPE \<Rightarrow> write_pipe killed (f_pipe ff) buf n fl
      | FD_INODE \<Rightarrow>
          bindE (filewrite_loop devs pid f buf 0 n fl) (\<lambda>(i, fl). Inr (Wrote (if i = n then n else - 1), fl))
      | FD_NONE \<Rightarrow> Inl (Panic ''filewrite''))"

section \<open>New pipes\<close>

text \<open>
  The pipe in a page that the allocator has handed out: its buffer lies behind the spin lock of 52
  bytes and holds what the page holds.
\<close>

definition fresh_pipe :: "memory \<Rightarrow> u32 \<Rightarrow> pipe" where
  "fresh_pipe m p = \<lparr>data = map (\<lambda>i. m (p + 52 + word_of_nat i)) [0..<PIPESIZE], nread = 0, nwrite = 0,
     readopen = True, writeopen = True\<rparr>"

text \<open>The label \<open>bad\<close> of \<open>pipealloc\<close>, which is reached only when no page has been taken.\<close>

definition pipealloc_bad :: "u32 \<Rightarrow> nat \<Rightarrow> u32 list \<Rightarrow> int \<Rightarrow> nat option \<Rightarrow> nat option \<Rightarrow> files \<Rightarrow> ((int \<times> (nat \<times> nat) option) \<times> files) result" where
  "pipealloc_bad kend me stack pid f0 f1 fl =
     bindE (case f0 of None \<Rightarrow> Inr fl | Some f \<Rightarrow> fileclose kend me stack pid f fl) (\<lambda>fl.
     bindE (case f1 of None \<Rightarrow> Inr fl | Some f \<Rightarrow> fileclose kend me stack pid f fl) (\<lambda>fl.
     Inr ((- 1, None), fl)))"

definition pipealloc :: "u32 \<Rightarrow> nat \<Rightarrow> u32 list \<Rightarrow> int \<Rightarrow> files \<Rightarrow> ((int \<times> (nat \<times> nat) option) \<times> files) result" where
  "pipealloc kend me stack pid fl =
     (case filealloc fl of
        (None, fl) \<Rightarrow> pipealloc_bad kend me stack pid None None fl
      | (Some f0, fl) \<Rightarrow>
        case filealloc fl of
          (None, fl) \<Rightarrow> pipealloc_bad kend me stack pid (Some f0) None fl
        | (Some f1, fl) \<Rightarrow>
          bindE (kalloc me stack (fl_kmem fl)) (\<lambda>(p, k).
          let fl = fl\<lparr>fl_kmem := k\<rparr> in
          if p = 0 then pipealloc_bad kend me stack pid (Some f0) (Some f1) fl else
          let fl = fl\<lparr>pipes := (pipes fl)(p \<mapsto> fresh_pipe (kmem_mem k) p)\<rparr>;
              fl = upd_file f0 (\<lambda>x. x\<lparr>f_type := FD_PIPE, f_readable := True, f_writable := False, f_pipe := p\<rparr>) fl;
              fl = upd_file f1 (\<lambda>x. x\<lparr>f_type := FD_PIPE, f_readable := False, f_writable := True, f_pipe := p\<rparr>) fl
          in Inr ((0, Some (f0, f1)), fl)))"

section \<open>Transactions\<close>

text \<open>
  Two states of the file system that agree on the inode up to its lock, on the super block and on all
  blocks behind the log: a file is the same in both.
\<close>

definition same_view :: "nat \<Rightarrow> fs \<Rightarrow> fs \<Rightarrow> bool" where
  "same_view ip st' st \<longleftrightarrow> fs_sb st' = fs_sb st \<and> fs_disksize st' = fs_disksize st \<and>
     log_region (fs_log st') = log_region (fs_log st) \<and> (\<forall>n. n \<notin> log_region (fs_log st) \<longrightarrow> blk st' n = blk st n) \<and>
     (icache st' ip)\<lparr>i_lock := i_lock (icache st ip)\<rparr> = icache st ip"

lemma same_view_fields:
  assumes "same_view ip st' st"
  shows "i_addrs (icache st' ip) = i_addrs (icache st ip)" "i_size (icache st' ip) = i_size (icache st ip)"
    "i_type (icache st' ip) = i_type (icache st ip)" "i_inum (icache st' ip) = i_inum (icache st ip)"
    "i_dev (icache st' ip) = i_dev (icache st ip)" "i_ref (icache st' ip) = i_ref (icache st ip)" "i_valid (icache st' ip) = i_valid (icache st ip)"
  using assms by (cases "icache st ip"; cases "icache st' ip"; simp add: same_view_def)+

lemma same_view_file:
  assumes reg: "regular ds ip st" and v: "same_view ip st' st"
  shows "regular ds ip st'" and "content st' ip = content st ip" and "frees st' = frees st"
    and "foreign ds ip st' b = foreign ds ip st b" and "foreign ds ip st b \<Longrightarrow> blk st' b = blk st b"
proof -
  have ok: "file_ok ds ip st" and lay: "layout ds st" using reg unfolding regular_def file_ok_def by blast+
  note x = same_view_fields [OF v]
  have sb: "fs_sb st' = fs_sb st" "fs_disksize st' = fs_disksize st" "log_region (fs_log st') = log_region (fs_log st)"
    using v by (simp_all add: same_view_def)
  have blk: "blk st' n = blk st n" if "sized st n" for n using v sized_block(3) [OF lay that] by (simp add: same_view_def)
  have used: "used st' b = used st b" if "b < unat (sb_size (fs_sb st))" for b
    using blk [OF bitmap_block [OF lay that]] by (simp add: used_def sb)
  have inds: "ind st' ip = ind st ip" by (simp add: ind_def x)
  have "addr st' ip k = addr st ip k" for k
    using blk [OF data_block [OF lay file_ind(1) [OF ok]]] by (auto simp: addr_def inds x)
  then have addrs: "addr st' ip = addr st ip" by (rule ext)
  then have slots: "slot st' ip = slot st ip" by (auto simp: slot_def inds fun_eq_iff)
  have data: "in_data ds st' a = in_data ds st a" for a by (simp add: in_data_def sb)
  have "layout ds st'" using lay used blk by (auto simp: layout_def sized_def sb)
  then have "file_ok ds ip st'" using ok used by (auto simp: file_ok_def slots data x) (auto simp: in_data_def)
  then show "regular ds ip st'" using reg by (simp add: regular_def inode_placed_def addrs x sb)
  have "byte st' ip p = byte st ip p" if "p < unat (i_size (icache st ip))" for p
  proof -
    have nz: "addr st ip (p div BSIZE) \<noteq> 0" "p div BSIZE < MAXFILE" using reg that by (auto simp: regular_def div_less_iff_less_mult)
    show ?thesis using blk [OF data_block [OF lay addr_not_ind(2) [OF ok nz(2,1)]]] by (simp add: byte_def fblock_def addrs)
  qed
  then show "content st' ip = content st ip" by (simp add: content_def x)
  show "frees st' = frees st" using used by (auto simp: frees_def sb intro: arg_cong [of _ _ card])
  show "foreign ds ip st' b = foreign ds ip st b" using used by (auto simp: foreign_def data slots in_data_def sb)
  show "blk st' b = blk st b" if "foreign ds ip st b" using that blk data_block [OF lay] by (simp add: foreign_def)
qed

lemma same_view_refl: "same_view ip st st" by (simp add: same_view_def)

lemma same_view_trans: "same_view ip a b \<Longrightarrow> same_view ip b c \<Longrightarrow> same_view ip a c"
  by (cases "icache a ip"; cases "icache b ip"; cases "icache c ip"; simp add: same_view_def)

lemma same_view_lock: "same_view ip (upd_inode ip (i_lock_update g) st) st"
  by (simp add: same_view_def upd_inode_def)

text \<open>Between transactions the log is empty and nothing is pinned.\<close>

definition idle :: "fs \<Rightarrow> bool" where
  "idle st \<longleftrightarrow> transaction (fs_log st) (fs_store st) \<and> lh_n (lh (fs_log st)) = 0 \<and> outstanding (fs_log st) = 0 \<and>
     \<not> committing (fs_log st)"

lemma idle_clean: "idle st \<Longrightarrow> pinned (fs_store st) b = None"
  by (cases "pinned (fs_store st) b") (auto simp: idle_def transaction_def log_blocks_def)

lemma log_upd [simp]:
  fixes l :: log and k :: int and c :: bool
  defines "l' \<equiv> l\<lparr>outstanding := k\<rparr>" and "l'' \<equiv> l\<lparr>committing := c\<rparr>"
  shows "log_ok l' = log_ok l" "head_is l' d bs = head_is l d bs" "log_blocks l' = log_blocks l" "log_region l' = log_region l"
    "log_cap l' = log_cap l" "transaction l' s = transaction l s"
    "log_ok l'' = log_ok l" "head_is l'' d bs = head_is l d bs" "log_blocks l'' = log_blocks l" "log_region l'' = log_region l"
    "log_cap l'' = log_cap l" "transaction l'' s = transaction l s"
  by (simp_all add: l'_def l''_def transaction_def log_ok_def head_is_def log_blocks_def log_region_def log_block_def [abs_def] log_cap_def)

lemma log_region_clear [simp]: "log_region (clear_head l) = log_region l"
  by (simp add: log_region_def log_block_def [abs_def] log_cap_def clear_head_def)

lemma fs_begin_idle:
  assumes "idle st"
  obtains st' where "fs_begin st = Inr st'" and "same_view ip st' st" and "room st' (log_cap (fs_log st))"
    and "icache st' = icache st" and "outstanding (fs_log st') = 1" and "\<not> committing (fs_log st')" and "log_cap (fs_log st') = log_cap (fs_log st)"
proof -
  let ?st = "st\<lparr>fs_log := (fs_log st)\<lparr>outstanding := 1\<rparr>\<rparr>"
  have "fs_begin st = Inr ?st" using assms by (simp add: fs_begin_def begin_op_def idle_def MAXOPBLOCKS_def LOGSIZE_def)
  then show thesis using assms by (intro that [of ?st]) (simp_all add: same_view_def room_def idle_def)
qed

text \<open>\<open>end_op\<close> of the only transaction writes everything to the disk.\<close>

lemma fs_end_commits:
  assumes "room st 0" and "outstanding (fs_log st) = 1" and "\<not> committing (fs_log st)"
  obtains st' where "fs_end st = Inr st'" and "same_view ip st' st" and "idle st'" and "icache st' = icache st"
    and "log_cap (fs_log st') = log_cap (fs_log st)"
proof -
  let ?l = "(fs_log st)\<lparr>outstanding := 0, committing := True\<rparr>" and ?s = "fs_store st"
  have tr: "transaction ?l ?s" "log_ok ?l" using assms(1) by (simp_all add: room_def) (simp add: transaction_def)
  show thesis
  proof (cases "0 < lh_n (lh (fs_log st))")
    case False
    let ?st = "st\<lparr>fs_log := (fs_log st)\<lparr>outstanding := 0, committing := False\<rparr>\<rparr>"
    have "lh_n (lh (fs_log st)) = 0" using False tr(2) by (simp add: log_ok_def)
    moreover have "fs_end st = Inr ?st" using assms(2,3) False by (simp add: fs_end_def end_op_def commit_def)
    ultimately show thesis using tr by (intro that [of ?st]) (simp_all add: same_view_def idle_def)
  next
    case True
    then obtain ws where ws: "commit ?l ?s = Inr (clear_head ?l, run_writes ws ?s)"
      "same_files ?l (apply_writes ws (disk ?s)) (\<lambda>b. store_read b ?s)" "head_is ?l (apply_writes ws (disk ?s)) []"
      "set (log_blocks ?l) \<subseteq> fst ` set ws"
      using commit_writes [OF tr(1)] by auto
    let ?l' = "(clear_head ?l)\<lparr>committing := False\<rparr>" and ?st = "st\<lparr>fs_log := (clear_head ?l)\<lparr>committing := False\<rparr>, fs_store := run_writes ws ?s\<rparr>"
    have clean: "pinned (run_writes ws ?s) b = None" for b
      using tr(1) ws(4) by (auto simp: pinned_run_writes transaction_def)
    have "log_ok (clear_head ?l)" by (rule clear_head_facts(1) [OF tr(2)])
    moreover have "head_is (clear_head ?l) (disk (run_writes ws ?s)) []" using ws(3) by (simp add: head_is_def clear_head_facts run_writes_fields)
    ultimately have "transaction ?l' (run_writes ws ?s)" using clean by (simp add: transaction_def) (simp add: transaction_def clear_head_facts)
    moreover have "fs_end st = Inr ?st" using assms(2,3) ws(1) by (simp add: fs_end_def end_op_def)
    moreover have "blk ?st b = blk st b" if "b \<notin> log_region (fs_log st)" for b
      using ws(2) that clean by (simp add: store_read_clean run_writes_fields same_files_def)
    ultimately show thesis by (intro that [of ?st]) (simp_all add: same_view_def idle_def clear_head_facts, simp_all add: clear_head_def)
  qed
qed

section \<open>Writing a file\<close>

text \<open>A file between two calls: nobody holds the inode, which is in memory, and the log is idle.\<close>

definition file_ready :: "nat \<Rightarrow> nat \<Rightarrow> fs \<Rightarrow> bool" where
  "file_ready ds ip st \<longleftrightarrow> regular ds ip st \<and> idle st \<and> sl_locked (i_lock (icache st ip)) = 0 \<and> 1 \<le> i_ref (icache st ip) \<and>
     i_valid (icache st ip) \<and> 25 \<le> log_cap (fs_log st)"

lemma chunks_of_round:
  assumes "n \<le> 1536"
  shows "chunks off n \<le> 4"
proof -
  have "off + n - 1 \<le> off + 1535" using assms by simp
  then have "(off + n - 1) div BSIZE \<le> (off + 1535) div BSIZE" by (rule div_le_mono)
  also have "\<dots> \<le> off div BSIZE + 3" by (simp add: BSIZE_def)
  finally show ?thesis by (simp add: chunks_def le_diff_conv)
qed

lemma writei_take:
  assumes "i_type (icache st ip) \<noteq> T_DEV" and "unat n \<le> length src"
  shows "writei devs ip src off n st = writei devs ip (take (unat n) src) off n st"
  using assms by (simp add: writei_def Let_def bytes_at_def)

lemma lock_valid:
  assumes "sl_locked (i_lock (icache st ip)) = 0" and "1 \<le> i_ref (icache st ip)" and "i_valid (icache st ip)"
  shows "ilock pid (Some ip) st = Inr (upd_inode ip (i_lock_update (\<lambda>lk. lk\<lparr>sl_locked := 1, sl_pid := pid\<rparr>)) st)"
  using assms by (cases "icache st ip") (simp add: ilock_def acquiresleep_def upd_inode_def Let_def)

lemma unlock_held:
  assumes "i_lock (icache st ip) = lk\<lparr>sl_locked := 1, sl_pid := pid\<rparr>" and "1 \<le> i_ref (icache st ip)"
  shows "iunlock pid (Some ip) st = Inr (upd_inode ip (i_lock_update releasesleep) st)"
  using assms by (simp add: iunlock_def holdingsleep_def)

lemma room_cong: "fs_log st' = fs_log st \<Longrightarrow> fs_store st' = fs_store st \<Longrightarrow> room st' k = room st k"
  by (simp add: room_def)

lemma write_round_ok:
  fixes fl f
  defines "ip \<equiv> f_ip (ftable fl f)" and "st \<equiv> fl_fs fl" and "off \<equiv> f_off (ftable fl f)"
  assumes ready: "file_ready ds ip st" and off: "unat off \<le> length (content st ip)" and m: "0 < m" "m \<le> 1536" "m \<le> length src"
    and n: "unat off + m \<le> MAXFILE * BSIZE" and free: "8 \<le> frees st"
  obtains st' where "write_round devs pid f src (int m) fl = Inr (int m, upd_file f (f_off_update (\<lambda>k. k + word_of_nat m)) fl\<lparr>fl_fs := st'\<rparr>)"
    and "file_ready ds ip st'" and "content st' ip = take (unat off) (content st ip) @ take m src @ drop (unat off + m) (content st ip)"
    and "frees st \<le> frees st' + 8" and "\<And>b. foreign ds ip st b \<Longrightarrow> blk st' b = blk st b \<and> foreign ds ip st' b"
    and "\<And>i. i \<noteq> ip \<Longrightarrow> icache st' i = icache st i"
proof -
  have reg: "regular ds ip st" and idle: "idle st" and x: "sl_locked (i_lock (icache st ip)) = 0" "1 \<le> i_ref (icache st ip)" "i_valid (icache st ip)"
    and cap: "25 \<le> log_cap (fs_log st)" using ready by (simp_all add: file_ready_def)
  have um: "unat (word_of_nat m :: u32) = m" using m by (simp add: unat_of_nat)
  have ch: "chunks (unat off) m \<le> 4" by (rule chunks_of_round [OF m(2)])
  obtain s1 where s1: "fs_begin st = Inr s1" "same_view ip s1 st" "room s1 (log_cap (fs_log st))" "icache s1 = icache st"
    "outstanding (fs_log s1) = 1" "\<not> committing (fs_log s1)" "log_cap (fs_log s1) = log_cap (fs_log st)"
    by (rule fs_begin_idle [OF idle, of ip])
  let ?s2 = "upd_inode ip (i_lock_update (\<lambda>lk. lk\<lparr>sl_locked := 1, sl_pid := pid\<rparr>)) s1"
  have s2: "ilock pid (Some ip) s1 = Inr ?s2" by (rule lock_valid) (use x in \<open>simp_all add: s1(4)\<close>)
  have v2: "same_view ip ?s2 st" by (rule same_view_trans [OF same_view_lock s1(2)])
  note f2 = same_view_file [OF reg v2]
  have lg: "fs_log ?s2 = fs_log s1" "fs_store ?s2 = fs_store s1" by (simp_all add: upd_inode_def)
  have "room ?s2 (6 * chunks (unat off) (length (take m src)) + 1)"
    using room_mono [OF s1(3)] cap ch m(3) by (simp add: room_cong [OF lg])
  moreover have "2 * chunks (unat off) (length (take m src)) \<le> frees ?s2" using ch m(3) free by (simp add: f2(3))
  ultimately obtain s3 where s3: "writei devs ip (take m src) off (word_of_nat (length (take m src))) ?s2 = Inr (int (length (take m src)), s3)"
      "regular ds ip s3" "content s3 ip = take (unat off) (content ?s2 ip) @ take m src @ drop (unat off + length (take m src)) (content ?s2 ip)"
      "\<forall>i. i \<noteq> ip \<longrightarrow> icache s3 i = icache ?s2 i" "\<forall>b. foreign ds ip ?s2 b \<longrightarrow> blk s3 b = blk ?s2 b \<and> foreign ds ip s3 b"
      "frees ?s2 \<le> frees s3 + 2 * chunks (unat off) (length (take m src))"
      "same_inode ((icache s3 ip)\<lparr>i_size := 0\<rparr>) ((icache ?s2 ip)\<lparr>i_size := 0\<rparr>)" "same_log (fs_log s3) (fs_log ?s2)" "room s3 0"
    using writei_content [OF f2(1), of off "take m src" devs] off n m(3) f2(2) by auto
  have ty: "i_type (icache ?s2 ip) \<noteq> T_DEV" using f2(1) by (simp add: regular_def)
  have w: "writei devs ip src off (word_of_nat m) ?s2 = Inr (int m, s3)" using writei_take [OF ty, of "word_of_nat m" src] s3(1) m(3) um by simp
  have x3: "i_lock (icache s3 ip) = (i_lock (icache st ip))\<lparr>sl_locked := 1, sl_pid := pid\<rparr>" "i_ref (icache s3 ip) = i_ref (icache st ip)"
    "i_valid (icache s3 ip) = i_valid (icache st ip)"
    using same_inode_fields [OF s3(7)] by (simp_all add: upd_inode_def s1(4))
  let ?s4 = "upd_inode ip (i_lock_update releasesleep) s3"
  have s4: "iunlock pid (Some ip) s3 = Inr ?s4" by (rule unlock_held [OF x3(1)]) (use x3(2) x(2) in simp)
  have lg3: "outstanding (fs_log s3) = 1" "\<not> committing (fs_log s3)" "log_cap (fs_log s3) = log_cap (fs_log st)"
    using s3(8) s1(5-7) by (simp_all add: same_log_def lg log_cap_def)
  have lg4: "fs_log ?s4 = fs_log s3" "fs_store ?s4 = fs_store s3" by (simp_all add: upd_inode_def)
  obtain st' where st': "fs_end ?s4 = Inr st'" "same_view ip st' ?s4" "idle st'" "icache st' = icache ?s4" "log_cap (fs_log st') = log_cap (fs_log ?s4)"
    by (rule fs_end_commits [of ?s4 ip]) (use s3(9) lg3 in \<open>simp_all add: room_cong [OF lg4] lg4\<close>)
  have v4: "same_view ip st' s3" by (rule same_view_trans [OF st'(2) same_view_lock])
  note f4 = same_view_file [OF s3(2) v4]
  have x4: "icache st' ip = i_lock_update releasesleep (icache s3 ip)" by (simp add: st'(4) upd_inode_def)
  show thesis
  proof (rule that [of st'])
    have "word_of_int (int m) = (word_of_nat m :: u32)" by simp
    then show "write_round devs pid f src (int m) fl = Inr (int m, upd_file f (f_off_update (\<lambda>k. k + word_of_nat m)) fl\<lparr>fl_fs := st'\<rparr>)"
      using s1(1) s2 w s4 st'(1) m(1) by (simp add: write_round_def Let_def ip_def st_def off_def)
    show "file_ready ds ip st'"
      using f4(1) st'(3,5) x x3 cap lg3(3) lg4(1) by (simp add: file_ready_def x4 releasesleep_def)
    show "content st' ip = take (unat off) (content st ip) @ take m src @ drop (unat off + m) (content st ip)"
      using s3(3) m(3) by (simp add: f4(2) f2(2))
    show "frees st \<le> frees st' + 8" using s3(6) ch m(3) by (simp add: f4(3) f2(3))
    show "icache st' i = icache st i" if "i \<noteq> ip" for i using s3(4) that by (simp add: st'(4) upd_inode_def s1(4))
    show "blk st' b = blk st b \<and> foreign ds ip st' b" if "foreign ds ip st b" for b
      using s3(5) f2(4,5) f4(4,5) that by metis
  qed
qed

lemma splice_twice:
  assumes "off \<le> length c" and "m \<le> length s"
  defines "c' \<equiv> take off c @ take m s @ drop (off + m) c"
  shows "take (off + m) c' @ drop m s @ drop (off + length s) c' = take off c @ s @ drop (off + length s) c"
    and "off + m \<le> length c'"
proof -
  have "take (off + m) c' = take off c @ take m s" using assms by (simp add: c'_def)
  moreover have "drop (off + length s) c' = drop (off + length s) c" using assms by (simp add: c'_def add.commute)
  ultimately show "take (off + m) c' @ drop m s @ drop (off + length s) c' = take off c @ s @ drop (off + length s) c" by simp
  show "off + m \<le> length c'" using assms by (simp add: c'_def)
qed

lemma filewrite_loop_ok:
  assumes "file_ready ds ip (fl_fs fl)" and "ip = f_ip (ftable fl f)" and "off = f_off (ftable fl f)"
    and "unat off \<le> length (content (fl_fs fl) ip)" and "i \<le> length buf"
    and "unat off + (length buf - i) \<le> MAXFILE * BSIZE" and "8 * ((length buf - i + 1535) div 1536) \<le> frees (fl_fs fl)"
  shows "\<exists>st'. filewrite_loop devs pid f buf (int i) (int (length buf)) fl =
      Inr (int (length buf), upd_file f (f_off_update (\<lambda>k. k + word_of_nat (length buf - i))) fl\<lparr>fl_fs := st'\<rparr>) \<and>
    file_ready ds ip st' \<and> content st' ip = take (unat off) (content (fl_fs fl) ip) @ drop i buf @
      drop (unat off + length (drop i buf)) (content (fl_fs fl) ip) \<and>
    (\<forall>b. foreign ds ip (fl_fs fl) b \<longrightarrow> blk st' b = blk (fl_fs fl) b) \<and> (\<forall>j. j \<noteq> ip \<longrightarrow> icache st' j = icache (fl_fs fl) j)"
  using assms
proof (induction "length buf - i" arbitrary: i fl off rule: less_induct)
  case less
  let ?st = "fl_fs fl" and ?c = "content (fl_fs fl) ip" and ?s = "drop i buf"
  show ?case
  proof (cases "i = length buf")
    case True
    moreover have "fl = upd_file f (f_off_update (\<lambda>k. k)) fl" by (cases fl; cases "ftable fl f") (auto simp: upd_file_def)
    ultimately show ?thesis using less.prems by (intro exI [of _ ?st]) (simp add: filewrite_loop.simps)
  next
    case False
    define m where "m = min 1536 (length buf - i)"
    have m: "0 < m" "m \<le> 1536" "m \<le> length ?s" using False less.prems(5) by (auto simp: m_def)
    have n1: "(if int (length buf) - int i > write_max then write_max else int (length buf) - int i) = int m"
      using less.prems(5) by (auto simp: m_def write_max_def MAXOPBLOCKS_def)
    have div: "(length buf - i + 1535) div 1536 = Suc ((length buf - (i + m) + 1535) div 1536)"
    proof (cases "length buf - i \<le> 1536")
      case True
      then have "m = length buf - i" by (simp add: m_def)
      moreover have "(length buf - i + 1535) div 1536 = 1" using True m(1) calculation by (intro div_nat_eqI) simp_all
      ultimately show ?thesis by simp
    next
      case False
      then have "length buf - i + 1535 = (length buf - (i + m) + 1535) + 1536" by (simp add: m_def)
      then show ?thesis by simp
    qed
    have fr: "8 * Suc ((length buf - (i + m) + 1535) div 1536) \<le> frees ?st" using less.prems(7) unfolding div .
    then have "unat off + m \<le> MAXFILE * BSIZE" "8 \<le> frees ?st" using less.prems(6) m(3) by simp_all
    from write_round_ok [OF less.prems(1) [unfolded less.prems(2)] less.prems(4) [unfolded less.prems(2,3)] m this [unfolded less.prems(3)], of devs pid]
    obtain s1 where s1: "write_round devs pid f ?s (int m) fl = Inr (int m, upd_file f (f_off_update (\<lambda>k. k + word_of_nat m)) fl\<lparr>fl_fs := s1\<rparr>)"
      "file_ready ds ip s1" "content s1 ip = take (unat off) ?c @ take m ?s @ drop (unat off + m) ?c" "frees ?st \<le> frees s1 + 8"
      "\<And>b. foreign ds ip ?st b \<Longrightarrow> blk s1 b = blk ?st b \<and> foreign ds ip s1 b" "\<And>j. j \<noteq> ip \<Longrightarrow> icache s1 j = icache ?st j"
      unfolding less.prems(2,3) by blast
    let ?fl = "upd_file f (f_off_update (\<lambda>k. k + word_of_nat m)) fl\<lparr>fl_fs := s1\<rparr>" and ?off = "off + word_of_nat m"
    have uo: "unat ?off = unat off + m"
      using less.prems(6) m by (simp add: unat_word_ariths unat_of_nat MAXFILE_bytes)
    have fl1: "fl_fs ?fl = s1" "f_ip (ftable ?fl f) = ip" "f_off (ftable ?fl f) = ?off" using less.prems(2,3) by (simp_all add: upd_file_def)
    note sp = splice_twice [OF less.prems(4) m(3), folded s1(3)]
    have lt: "length buf - (i + m) < length buf - i" and le: "i + m \<le> length buf" using m False less.prems(5) by auto
    have sp2: "unat ?off \<le> length (content s1 ip)" using sp(2) uo by simp
    have sm: "unat ?off + (length buf - (i + m)) \<le> MAXFILE * BSIZE" using uo less.prems(6) m(3) by simp
    have fr1: "8 * ((length buf - (i + m) + 1535) div 1536) \<le> frees s1" using order_trans [OF fr s1(4)] by (simp only: mult_Suc_right add.commute [of _ 8] nat_add_left_cancel_le)
    obtain st' where st': "filewrite_loop devs pid f buf (int (i + m)) (int (length buf)) ?fl =
        Inr (int (length buf), upd_file f (f_off_update (\<lambda>k. k + word_of_nat (length buf - (i + m)))) ?fl\<lparr>fl_fs := st'\<rparr>)"
      "file_ready ds ip st'" "content st' ip = take (unat ?off) (content s1 ip) @ drop (i + m) buf @ drop (unat ?off + length (drop (i + m) buf)) (content s1 ip)"
      "\<And>b. foreign ds ip s1 b \<Longrightarrow> blk st' b = blk s1 b" "\<And>j. j \<noteq> ip \<Longrightarrow> icache st' j = icache s1 j"
      using less.hyps [OF lt, of ?fl ?off, unfolded fl1(1), OF s1(2) fl1(2) [symmetric] fl1(3) [symmetric] sp2 le sm fr1] by blast
    have "filewrite_loop devs pid f buf (int i) (int (length buf)) fl = filewrite_loop devs pid f buf (int (i + m)) (int (length buf)) ?fl"
      using False less.prems(5) s1(1) n1 by (subst filewrite_loop.simps) simp
    moreover have "upd_file f (f_off_update (\<lambda>k. k + word_of_nat (length buf - (i + m)))) ?fl\<lparr>fl_fs := st'\<rparr> =
        upd_file f (f_off_update (\<lambda>k. k + word_of_nat (length buf - i))) fl\<lparr>fl_fs := st'\<rparr>"
    proof -
      have "length buf - i = m + (length buf - (i + m))" using le by simp
      then have "(word_of_nat (length buf - i) :: u32) = word_of_nat m + word_of_nat (length buf - (i + m))"
        by (metis of_nat_add)
      then show ?thesis by (simp add: upd_file_def comp_def add.assoc)
    qed
    moreover have "content st' ip = take (unat off) ?c @ ?s @ drop (unat off + length ?s) ?c"
    proof -
      have e: "unat off + m + length (drop (i + m) buf) = unat off + length ?s" "drop (i + m) buf = drop m ?s"
        using le by (simp_all add: add.commute)
      show ?thesis unfolding st'(3) uo e(1) unfolding e(2) by (rule sp(1))
    qed
    moreover have "\<forall>b. foreign ds ip ?st b \<longrightarrow> blk st' b = blk ?st b" using s1(5) st'(4) by metis
    ultimately show ?thesis using st'(1,2,5) s1(6) by (intro exI [of _ st']) simp
  qed
qed

text \<open>Reading through any open file of the inode.\<close>

lemma fileread_ok:
  fixes fl g
  defines "ip \<equiv> f_ip (ftable fl g)" and "st \<equiv> fl_fs fl" and "off \<equiv> f_off (ftable fl g)"
  assumes ready: "file_ready ds ip st" and g: "f_type (ftable fl g) = FD_INODE" "f_readable (ftable fl g)"
    and off: "unat off \<le> length (content st ip)" and n: "n < 2 ^ 31"
  shows "\<exists>fl'. fileread devs pid killed g (int n) fl =
      Inr (Returned (int (min n (length (content st ip) - unat off))) (take n (drop (unat off) (content st ip))), fl') \<and>
    f_off (ftable fl' g) = off + word_of_nat (min n (length (content st ip) - unat off)) \<and>
    file_ready ds ip (fl_fs fl') \<and> content (fl_fs fl') ip = content st ip"
proof -
  have reg: "regular ds ip st" and idle: "idle st" and x: "sl_locked (i_lock (icache st ip)) = 0" "1 \<le> i_ref (icache st ip)" "i_valid (icache st ip)"
    and cap: "25 \<le> log_cap (fs_log st)" using ready by (simp_all add: file_ready_def)
  let ?s1 = "upd_inode ip (i_lock_update (\<lambda>lk. lk\<lparr>sl_locked := 1, sl_pid := pid\<rparr>)) st"
  have s1: "ilock pid (Some ip) st = Inr ?s1" by (rule lock_valid [OF x])
  note f1 = same_view_file [OF reg same_view_lock [of ip "\<lambda>lk. lk\<lparr>sl_locked := 1, sl_pid := pid\<rparr>"]]
  have "length (content st ip) \<le> 71680" using reg by (simp add: regular_def content_def MAXFILE_bytes)
  then have "unat off + unat (word_of_nat n :: u32) < 2 ^ 32" "unat (word_of_nat n :: u32) = n" using off n by (simp_all add: unat_of_nat)
  then have rd: "readi devs ip off (word_of_int (int n)) ?s1 =
      Inr ((int (min n (length (content st ip) - unat off)), take n (drop (unat off) (content st ip))), ?s1)"
    using readi_content [OF f1(1), of off "word_of_nat n" devs] off by (simp add: f1(2))
  let ?s2 = "upd_inode ip (i_lock_update releasesleep) ?s1" and ?r = "int (min n (length (content st ip) - unat off))"
  have s2: "iunlock pid (Some ip) ?s1 = Inr ?s2"
    by (rule unlock_held [where lk = "i_lock (icache st ip)"]) (use x(2) in \<open>simp_all add: upd_inode_def\<close>)
  note f2 = same_view_file [OF reg same_view_trans [OF same_view_lock [of ip releasesleep ?s1] same_view_lock]]
  let ?fl = "(if ?r > 0 then upd_file g (f_off_update (\<lambda>k. k + word_of_int ?r)) fl else fl)\<lparr>fl_fs := ?s2\<rparr>"
  have adv: "f_off (ftable ((if int r > 0 then upd_file g (f_off_update (\<lambda>k. k + word_of_int (int r))) fl else fl)\<lparr>fl_fs := s\<rparr>) g) =
      off + word_of_nat r" for r s
    by (cases "r = 0") (simp_all add: upd_file_def off_def)
  have "fileread devs pid killed g (int n) fl = Inr (Returned ?r (take n (drop (unat off) (content st ip))), ?fl)"
    using g s1 rd s2 by (simp add: fileread_def Let_def ip_def st_def off_def)
  moreover have "f_off (ftable ?fl g) = off + word_of_nat (min n (length (content st ip) - unat off))"
    by (rule adv)
  moreover have "idle ?s2" using idle by (simp add: idle_def upd_inode_def)
  then have "file_ready ds ip ?s2" using f2(1) x cap by (simp add: file_ready_def) (simp add: upd_inode_def releasesleep_def)
  ultimately show ?thesis using f2(2) by (intro exI [of _ ?fl]) simp
qed

end
