(* ===== verification/Fs_Properties.thy ===== *)
theory Fs_Properties
  imports Xv6_Cache Xv6_Filetable
begin

text \<open>
  The properties of the xv6 file system below the system calls, each with a witness on concrete
  data.
\<close>

section \<open>The buffer cache\<close>

text \<open>
  C38: the buffer cache is coherent. In every state that processes can reach from the start of the
  kernel by reading, changing, marking, writing and releasing blocks in any interleaving: two
  processes never hold the same block; the holder of a block sees the contents that the last holder
  left; a step changes the contents that are seen only when it is a change by the holder, and only
  of that block, so that recycling a buffer loses nothing; the calls of a holder never panic; and
  \<open>bread\<close> returns the contents of the block it is asked for, and does return when no buffer is in
  use and not all of them are pinned.
\<close>
theorem cache_coherent:
  assumes P: "finite P" "card P < 2 ^ 32" and "length img < 2 ^ 32"
    and reach: "(bio_step P)\<^sup>*\<^sup>* (boot_cache img, \<lambda>_. Out) (c, ph)"
  shows "(\<forall>p \<in> P. \<forall>q \<in> P. \<forall>i j. locks (ph p) i \<and> locks (ph q) j \<and> b_blockno (bufs c i) = b_blockno (bufs c j) \<longrightarrow> p = q) \<and>
    (\<forall>p \<in> P. \<forall>b. has_data (ph p) b \<longrightarrow> b_data (bufs c b) = view c (b_blockno (bufs c b))) \<and>
    (\<forall>c' ph'. bio_step P (c, ph) (c', ph') \<longrightarrow>
      (\<forall>n < disksize c. view c' n = view c n) \<or>
      (\<exists>p \<in> P. \<exists>b d. has_data (ph p) b \<and> ph' = ph(p := Changed b) \<and> c' = upd_buf b (b_data_update (\<lambda>_. d)) c \<and>
        (\<forall>n. view c' n = (if n = b_blockno (bufs c b) then d else view c n)))) \<and>
    (\<forall>p \<in> P. \<forall>b. (ph p = Locked b \<longrightarrow> ok (bread_fill p b c)) \<and> (has_data (ph p) b \<longrightarrow> ok (bwrite p b c)) \<and>
      (locks (ph p) b \<longrightarrow> ok (brelse p b c))) \<and>
    (\<forall>p \<in> P. \<forall>n < disksize c. ph p = Out \<longrightarrow>
      (\<forall>b c'. bread p 1 n c = Inr (b, c') \<longrightarrow> b_blockno (bufs c' b) = n \<and> b_data (bufs c' b) = view c n) \<and>
      ((\<forall>q \<in> P. ph q = Out) \<and> (\<exists>i < NBUF. \<not> dirty (bufs c i)) \<longrightarrow> (\<exists>b c'. bread p 1 n c = Inr (b, c'))))"
proof -
  have inv: "cache_inv P (c, ph)" using bio_reach_inv [OF reach P boot_cache_inv] assms(3) by simp
  have "ok (brelse p b c)" if "p \<in> P" "locks (ph p) b" for p b
    using unlock_result [OF inv that] by (simp add: brelse_def)
  moreover note one_holder [OF inv] holder_view [OF inv] bio_step_view [OF _ P inv] fill_result [OF inv] write_result [OF inv]
    bread_result [OF inv P] bread_returns [OF inv P]
  ultimately show ?thesis by (intro conjI ballI allI impI; (elim conjE)?; simp; blast)
qed

theorem cache_coherent_witness:
  "\<exists>b c'. bread 1 1 1 (boot_cache (replicate 1024 7)) = Inr (b, c') \<and> b_data (bufs c' b) = replicate 512 7"
proof -
  let ?c = "boot_cache (replicate 1024 7)"
  have len: "length (replicate 1024 (7 :: u8)) < 2 ^ 32" by simp
  have "unat (disksize ?c) = 2" using boot_disksize [OF len] by (simp add: BSIZE_def)
  then have "1 < disksize ?c" by (simp add: word_less_nat_alt)
  moreover have "\<not> dirty (bufs ?c 0)" using boot_cache_fields(1) [of "replicate 1024 7" 0] by (simp add: fresh_buf_def b_set_def)
  then have "\<exists>i < NBUF. \<not> dirty (bufs ?c i)" by (intro exI [of _ 0]) (simp add: NBUF_def)
  moreover have "view ?c 1 = replicate 512 7" by (simp add: boot_view BSIZE_def)
  moreover have P: "finite {1, 2 :: int}" "card {1, 2 :: int} < 2 ^ 32" by simp_all
  note last = cache_coherent [OF P len rtranclp.rtrancl_refl, THEN conjunct2, THEN conjunct2, THEN conjunct2, THEN conjunct2]
  note bspec [OF last, of 1, THEN spec [of _ 1]]
  ultimately show ?thesis by (simp, blast)
qed

section \<open>Files\<close>

text \<open>
  C39: a file is a list of bytes. \<open>writei\<close> of bytes at an offset within a file replaces them and lets
  the file grow to at most \<open>MAXFILE\<close> blocks, \<open>readi\<close> afterwards returns the bytes of the new list, cut
  off at its end, and the blocks of other files and their inodes stay as they are. It returns when
  the transaction has room for its writes and two blocks are free for every block it touches.
\<close>
theorem file_is_bytes:
  assumes "regular ds ip st" and "unat off \<le> length (content st ip)" and "unat off + length src \<le> MAXFILE * BSIZE"
    and "room st (6 * chunks (unat off) (length src) + 1)" and "2 * chunks (unat off) (length src) \<le> frees st"
  shows "\<exists>st'. writei devs ip src off (word_of_nat (length src)) st = Inr (int (length src), st') \<and> regular ds ip st' \<and>
    content st' ip = take (unat off) (content st ip) @ src @ drop (unat off + length src) (content st ip) \<and>
    (\<forall>r n. unat r \<le> length (content st' ip) \<and> unat r + unat n < 2 ^ 32 \<longrightarrow>
      readi devs ip r n st' = Inr ((int (min (unat n) (length (content st' ip) - unat r)),
        take (unat n) (drop (unat r) (content st' ip))), st')) \<and>
    (\<forall>i. i \<noteq> ip \<longrightarrow> icache st' i = icache st i) \<and>
    (\<forall>b. foreign ds ip st b \<longrightarrow> blk st' b = blk st b)"
  using writei_content [OF assms, of devs] readi_content by blast

text \<open>
  A disk of 80 blocks: the log has the blocks 2 to 31, as \<open>mkfs\<close> places it, block 32 holds the inodes,
  block 33 the bitmap, and the data starts at block 34.
\<close>

definition demo_fs :: fs where
  "demo_fs = \<lparr>fs_log = \<lparr>log_start = 2, log_size = 30, outstanding = 1, committing = False,
       lh = \<lparr>lh_n = 0, lh_block = replicate 30 0\<rparr>\<rparr>,
     fs_store = \<lparr>disk = (\<lambda>b. if b = 33 then [255, 255, 255, 255, 3] @ replicate 507 0 else replicate 512 0), pinned = (\<lambda>_. None), written = []\<rparr>,
     fs_disksize = 80,
     fs_sb = \<lparr>sb_size = 80, sb_nblocks = 46, sb_ninodes = 8, sb_nlog = 30, sb_logstart = 2, sb_inodestart = 32, sb_bmapstart = 33\<rparr>,
     icache = (\<lambda>_. \<lparr>i_dev = 1, i_inum = 1, i_ref = 1, i_lock = \<lparr>sl_locked = 0, sl_name = [], sl_pid = 0\<rparr>, i_valid = True,
       i_type = 2, i_major = 0, i_minor = 0, i_nlink = 1, i_size = 0, i_addrs = replicate 13 0\<rparr>)\<rparr>"

definition no_devices :: devsw where
  "no_devices = \<lparr>dev_read = (\<lambda>_. None), dev_write = (\<lambda>_. None)\<rparr>"

lemma demo_used:
  assumes "b < 80"
  shows "used demo_fs b \<longleftrightarrow> b < 34"
proof -
  have "word_of_nat b div (4096 :: u32) = 0"
    using assms by (simp add: word_unat_eq_iff unat_div unat_of_nat)
  then have "BBLOCK (word_of_nat b) (fs_sb demo_fs) = 33" by (simp add: BBLOCK_def demo_fs_def BPB_def BSIZE_def)
  then have u: "used demo_fs b \<longleftrightarrow> bit (([255, 255, 255, 255, 3] @ replicate 507 0 :: block) ! (b div 8)) (b mod 8)"
    using assms by (simp add: used_def bit_at_def store_read_def demo_fs_def BPB_def BSIZE_def and_exp_eq_0_iff_not_bit)
  have m: "(255 :: u8) = mask 8" "(3 :: u8) = mask 2" by (simp_all add: mask_eq_exp_minus_1)
  have bits: "bit (255 :: u8) k \<longleftrightarrow> k < 8" "bit (3 :: u8) k \<longleftrightarrow> k < 2" for k
    unfolding m by (auto simp: bit_mask_iff simp del: mask_numeral)
  have "b div 8 < 4 \<or> b div 8 = 4 \<or> 5 \<le> b div 8" by linarith
  then show ?thesis
  proof (elim disjE)
    assume "b div 8 < 4"
    then have "([255, 255, 255, 255, 3] @ replicate 507 0 :: block) ! (b div 8) = 255" "b < 34"
      by (auto simp: nth_Cons' nth_append)
    then show ?thesis using u bits(1) [of "b mod 8"] by simp
  next
    assume d: "b div 8 = 4"
    then have "b = 32 + b mod 8" by (metis div_mult_mod_eq mult.commute numeral_times_numeral semiring_norm(12,13))
    then show ?thesis using u bits(2) [of "b mod 8"] d by auto
  next
    assume d: "5 \<le> b div 8"
    then have "([255, 255, 255, 255, 3] @ replicate 507 0 :: block) ! (b div 8) = 0" using assms by (simp add: nth_append)
    moreover have "40 \<le> b" using d by simp
    ultimately show ?thesis using u by simp
  qed
qed

lemma demo_ready: "transaction (fs_log demo_fs) (fs_store demo_fs)"
proof -
  have "get32 (replicate 512 0) 0 = Inr 0" by (simp add: get32_def le_field_def numeral_eq_Suc)
  then show ?thesis
    by (simp add: transaction_def log_ok_def head_is_def log_blocks_def log_cap_def demo_fs_def LOGSIZE_def BSIZE_def)
qed

lemma demo_region: "n \<in> log_region (fs_log demo_fs) \<Longrightarrow> unat n < 32"
  by (auto simp: log_region_def log_block_def log_cap_def LOGSIZE_def demo_fs_def unat_word_ariths unat_of_nat)

lemma demo_regular: "regular 34 0 demo_fs" "room demo_fs 13" "4 \<le> frees demo_fs" "content demo_fs 0 = []"
proof -
  have size: "unat (sb_size (fs_sb demo_fs)) = 80" "unat (fs_disksize demo_fs) = 80" by (simp_all add: demo_fs_def)
  have "layout 34 demo_fs"
    using demo_used demo_region by (auto simp: layout_def size) (auto simp: demo_fs_def BPB_def BSIZE_def store_read_def)
  moreover have "slot demo_fs 0 k = 0" for k
  proof -
    have "ind demo_fs 0 = 0" by (simp add: ind_def demo_fs_def NDIRECT_def)
    then show ?thesis by (auto simp: slot_def addr_def) (simp add: demo_fs_def NDIRECT_def)
  qed
  ultimately have "file_ok 34 0 demo_fs" by (simp add: file_ok_def) (simp add: demo_fs_def NDIRECT_def)
  then show "regular 34 0 demo_fs"
    by (simp add: regular_def inode_placed_def) (simp add: demo_fs_def T_DEV_def IBLOCK_def IPB_def BSIZE_def DINODE_SIZE_def word_less_nat_alt)
  show "room demo_fs 13" using demo_ready by (simp add: room_def) (simp add: log_cap_def demo_fs_def LOGSIZE_def)
  have "{34, 35, 36, 37} \<subseteq> {b. b < 80 \<and> \<not> used demo_fs b}" using demo_used by auto
  then have "card {34, 35, 36, 37 :: nat} \<le> card {b. b < 80 \<and> \<not> used demo_fs b}" by (intro card_mono) auto
  then show "4 \<le> frees demo_fs" by (simp add: frees_def size)
  show "content demo_fs 0 = []" by (simp add: content_def demo_fs_def)
qed

theorem file_is_bytes_witness:
  "\<exists>st'. writei no_devices 0 (replicate 600 7) 0 600 demo_fs = Inr (600, st') \<and>
    readi no_devices 0 510 100 st' = Inr ((90, replicate 90 7), st')"
proof -
  let ?s = "replicate 600 (7 :: u8)"
  have c: "chunks 0 600 = 2" by (simp add: chunks_def BSIZE_def)
  obtain st' where st': "writei no_devices 0 ?s 0 600 demo_fs = Inr (600, st')" "content st' 0 = ?s"
    and rd: "\<forall>r n. unat r \<le> length (content st' 0) \<and> unat r + unat n < 2 ^ 32 \<longrightarrow>
      readi no_devices 0 r n st' = Inr ((int (min (unat n) (length (content st' 0) - unat r)), take (unat n) (drop (unat r) (content st' 0))), st')"
    using file_is_bytes [OF demo_regular(1), of 0 ?s no_devices] demo_regular(2-4) c by (auto simp: MAXFILE_bytes)
  have "readi no_devices 0 510 100 st' = Inr ((90, replicate 90 7), st')"
    using rd [rule_format, of 510 100] st'(2) by simp
  then show ?thesis using st'(1) by blast
qed

section \<open>Open files\<close>

text \<open>
  C24: what is written to an open file is on the disk and is read back. \<open>filewrite\<close> of a buffer of any
  length that fits into a file splits it into transactions of at most three blocks, each of which
  fits into the log; it returns the length, the bytes of the file are replaced from the offset on, the
  offset advances, no block is left in memory only and the log is empty, and the data blocks of other
  files stay as they are. Afterwards \<open>fileread\<close> through any open file of the inode returns the bytes
  from its offset on and advances it.
\<close>
theorem file_write_read:
  assumes "f_type (ftable fl f) = FD_INODE" and "f_writable (ftable fl f)" and "file_ready ds (f_ip (ftable fl f)) (fl_fs fl)"
    and "unat (f_off (ftable fl f)) \<le> length (content (fl_fs fl) (f_ip (ftable fl f)))"
    and "unat (f_off (ftable fl f)) + length buf \<le> MAXFILE * BSIZE" and "8 * ((length buf + 1535) div 1536) \<le> frees (fl_fs fl)"
  shows "\<exists>fl'. filewrite devs pid killed f buf (int (length buf)) fl = Inr (Wrote (int (length buf)), fl') \<and>
    content (fl_fs fl') (f_ip (ftable fl f)) =
      take (unat (f_off (ftable fl f))) (content (fl_fs fl) (f_ip (ftable fl f))) @ buf @
      drop (unat (f_off (ftable fl f)) + length buf) (content (fl_fs fl) (f_ip (ftable fl f))) \<and>
    ftable fl' = (ftable fl)(f := (ftable fl f)\<lparr>f_off := f_off (ftable fl f) + word_of_nat (length buf)\<rparr>) \<and>
    (\<forall>b. pinned (fs_store (fl_fs fl')) b = None) \<and> lh_n (lh (fs_log (fl_fs fl'))) = 0 \<and>
    (\<forall>b. foreign ds (f_ip (ftable fl f)) (fl_fs fl) b \<longrightarrow> blk (fl_fs fl') b = blk (fl_fs fl) b) \<and>
    (\<forall>g n pid' killed'. f_type (ftable fl' g) = FD_INODE \<and> f_readable (ftable fl' g) \<and> f_ip (ftable fl' g) = f_ip (ftable fl f) \<and>
        unat (f_off (ftable fl' g)) \<le> length (content (fl_fs fl') (f_ip (ftable fl f))) \<and> n < 2 ^ 31 \<longrightarrow>
      (\<exists>fl''. fileread devs pid' killed' g (int n) fl' = Inr (Returned
          (int (min n (length (content (fl_fs fl') (f_ip (ftable fl f))) - unat (f_off (ftable fl' g)))))
          (take n (drop (unat (f_off (ftable fl' g))) (content (fl_fs fl') (f_ip (ftable fl f))))), fl'') \<and>
        f_off (ftable fl'' g) = f_off (ftable fl' g) +
          word_of_nat (min n (length (content (fl_fs fl') (f_ip (ftable fl f))) - unat (f_off (ftable fl' g))))))"
proof -
  let ?ip = "f_ip (ftable fl f)" and ?off = "f_off (ftable fl f)"
  obtain st' where st': "filewrite_loop devs pid f buf (int 0) (int (length buf)) fl =
      Inr (int (length buf), upd_file f (f_off_update (\<lambda>k. k + word_of_nat (length buf - 0))) fl\<lparr>fl_fs := st'\<rparr>)"
    "file_ready ds ?ip st'" "content st' ?ip = take (unat ?off) (content (fl_fs fl) ?ip) @ drop 0 buf @
      drop (unat ?off + length (drop 0 buf)) (content (fl_fs fl) ?ip)" "\<forall>b. foreign ds ?ip (fl_fs fl) b \<longrightarrow> blk st' b = blk (fl_fs fl) b"
    using filewrite_loop_ok [OF assms(3) refl refl assms(4), of 0 buf devs pid] assms(5,6) by auto
  let ?fl = "upd_file f (f_off_update (\<lambda>k. k + word_of_nat (length buf))) fl\<lparr>fl_fs := st'\<rparr>"
  have fs: "fl_fs ?fl = st'" by (simp add: upd_file_def)
  have "idle st'" using st'(2) by (simp add: file_ready_def)
  then have clean: "\<forall>b. pinned (fs_store st') b = None" "lh_n (lh (fs_log st')) = 0" using idle_clean by (auto simp: idle_def)
  have tab: "ftable ?fl = (ftable fl)(f := (ftable fl f)\<lparr>f_off := ?off + word_of_nat (length buf)\<rparr>)"
    by (cases "ftable fl f") (simp add: upd_file_def)
  have "filewrite devs pid killed f buf (int (length buf)) fl = Inr (Wrote (int (length buf)), ?fl)"
    using assms(1,2) st'(1) by (simp add: filewrite_def)
  moreover have "\<exists>fl''. fileread devs pid' killed' g (int n) ?fl = Inr (Returned
          (int (min n (length (content st' ?ip) - unat (f_off (ftable ?fl g)))))
          (take n (drop (unat (f_off (ftable ?fl g))) (content st' ?ip))), fl'') \<and>
        f_off (ftable fl'' g) = f_off (ftable ?fl g) + word_of_nat (min n (length (content st' ?ip) - unat (f_off (ftable ?fl g))))"
    if "f_type (ftable ?fl g) = FD_INODE \<and> f_readable (ftable ?fl g) \<and> f_ip (ftable ?fl g) = ?ip \<and>
        unat (f_off (ftable ?fl g)) \<le> length (content st' ?ip) \<and> n < 2 ^ 31" for g n pid' killed'
    using fileread_ok [of ds ?fl g n devs pid' killed'] that st'(2) unfolding fs by auto
  ultimately show ?thesis
    using st'(3,4) clean tab by (intro exI [of _ ?fl]) (simp only: fs drop_0 simp_thms list.size, blast)
qed

text \<open>Two open files of the inode of the disk above, one to write and one to read.\<close>

definition demo_files :: "kmem \<Rightarrow> files" where
  "demo_files k = \<lparr>ftable = (\<lambda>_. \<lparr>f_type = FD_NONE, f_ref = 0, f_readable = False, f_writable = False, f_pipe = 0, f_ip = 0, f_off = 0\<rparr>)
      (0 := \<lparr>f_type = FD_INODE, f_ref = 1, f_readable = False, f_writable = True, f_pipe = 0, f_ip = 0, f_off = 0\<rparr>,
       1 := \<lparr>f_type = FD_INODE, f_ref = 1, f_readable = True, f_writable = False, f_pipe = 0, f_ip = 0, f_off = 0\<rparr>),
     fl_fs = demo_fs\<lparr>fs_log := (fs_log demo_fs)\<lparr>outstanding := 0\<rparr>\<rparr>, pipes = (\<lambda>_. None), fl_kmem = k, woken = []\<rparr>"

lemma demo_files_ready: "file_ready 34 0 (fl_fs (demo_files k))" "16 \<le> frees (fl_fs (demo_files k))" "content (fl_fs (demo_files k)) 0 = []"
proof -
  have v: "same_view 0 (fl_fs (demo_files k)) demo_fs" by (simp add: same_view_def demo_files_def)
  note f = same_view_file [OF demo_regular(1) v]
  have "idle (fl_fs (demo_files k))" using demo_ready by (simp add: idle_def demo_files_def) (simp add: demo_fs_def)
  then show "file_ready 34 0 (fl_fs (demo_files k))" using f(1)
    by (simp add: file_ready_def) (simp add: demo_files_def demo_fs_def log_cap_def LOGSIZE_def)
  have size: "unat (sb_size (fs_sb demo_fs)) = 80" by (simp add: demo_fs_def)
  have "{40..<56} \<subseteq> {b. b < 80 \<and> \<not> used demo_fs b}" using demo_used by auto
  then have "card {40..<56 :: nat} \<le> card {b. b < 80 \<and> \<not> used demo_fs b}" by (intro card_mono) auto
  then show "16 \<le> frees (fl_fs (demo_files k))" unfolding f(3) by (simp add: frees_def size)
  show "content (fl_fs (demo_files k)) 0 = []" unfolding f(2) by (rule demo_regular(4))
qed

theorem file_write_read_witness:
  "\<forall>k. \<exists>fl' fl''. filewrite no_devices 5 False 0 (replicate 2000 7) 2000 (demo_files k) = Inr (Wrote 2000, fl') \<and>
    fileread no_devices 6 False 1 1990 fl' = Inr (Returned 1990 (replicate 1990 7), fl'')"
proof
  fix k
  let ?s = "replicate 2000 (7 :: u8)"
  have tab: "ftable (demo_files k) 0 = \<lparr>f_type = FD_INODE, f_ref = 1, f_readable = False, f_writable = True, f_pipe = 0, f_ip = 0, f_off = 0\<rparr>"
    "ftable (demo_files k) 1 = \<lparr>f_type = FD_INODE, f_ref = 1, f_readable = True, f_writable = False, f_pipe = 0, f_ip = 0, f_off = 0\<rparr>"
    by (simp_all add: demo_files_def)
  have e: "f_ip (ftable (demo_files k) 0) = 0" "f_off (ftable (demo_files k) 0) = 0" "f_type (ftable (demo_files k) 0) = FD_INODE"
    "f_writable (ftable (demo_files k) 0)" by (simp_all add: tab)
  have h: "unat (0 :: u32) \<le> length (content (fl_fs (demo_files k)) 0)" "unat (0 :: u32) + length ?s \<le> MAXFILE * BSIZE"
    "8 * ((length ?s + 1535) div 1536) \<le> frees (fl_fs (demo_files k))" using demo_files_ready(2) [of k] by (simp_all add: MAXFILE_bytes)
  obtain fl' where fl': "filewrite no_devices 5 False 0 ?s (int (length ?s)) (demo_files k) = Inr (Wrote (int (length ?s)), fl')"
    "content (fl_fs fl') 0 = take (unat (0 :: u32)) (content (fl_fs (demo_files k)) 0) @ ?s @ drop (unat (0 :: u32) + length ?s) (content (fl_fs (demo_files k)) 0)"
    "ftable fl' = (ftable (demo_files k))(0 := (ftable (demo_files k) 0)\<lparr>f_off := 0 + word_of_nat (length ?s)\<rparr>)"
    and rd: "\<forall>g n pid' killed'. f_type (ftable fl' g) = FD_INODE \<and> f_readable (ftable fl' g) \<and> f_ip (ftable fl' g) = 0 \<and>
        unat (f_off (ftable fl' g)) \<le> length (content (fl_fs fl') 0) \<and> n < 2 ^ 31 \<longrightarrow>
      (\<exists>fl''. fileread no_devices pid' killed' g (int n) fl' = Inr (Returned
          (int (min n (length (content (fl_fs fl') 0) - unat (f_off (ftable fl' g)))))
          (take n (drop (unat (f_off (ftable fl' g))) (content (fl_fs fl') 0))), fl''))"
    using file_write_read [of "demo_files k" 0 34 ?s no_devices 5 False, unfolded e(1,2), OF e(3,4) demo_files_ready(1) h] by blast
  have c: "content (fl_fs fl') 0 = ?s" "ftable fl' 1 = ftable (demo_files k) 1" using fl'(2,3) demo_files_ready(3) [of k] by simp_all
  have "\<exists>fl''. fileread no_devices 6 False 1 1990 fl' = Inr (Returned 1990 (replicate 1990 7), fl'')"
    using rd [rule_format, of 1 1990 6 False] by (simp add: c tab(2) del: One_nat_def)
  then show "\<exists>fl' fl''. filewrite no_devices 5 False 0 (replicate 2000 7) 2000 (demo_files k) = Inr (Wrote 2000, fl') \<and>
    fileread no_devices 6 False 1 1990 fl' = Inr (Returned 1990 (replicate 1990 7), fl'')" using fl'(1) by auto
qed

section \<open>Inodes\<close>

text \<open>
  C40: an inode survives on disk. After \<open>iupdate\<close> of an inode, \<open>ilock\<close> of a cache entry for the same
  inode number whose contents are not valid reads back the type, the device numbers, the link
  count, the size and all block addresses; and the bytes of every other inode on the disk are the
  ones they were before.
\<close>
theorem inode_roundtrip:
  assumes "i_dev (icache st ip) = 1" and "length (i_addrs (icache st ip)) = NDIRECT + 1" and "room st 1"
    and "IBLOCK (i_inum (icache st ip)) (fs_sb st) < fs_disksize st"
    and "length (blk st (IBLOCK (i_inum (icache st ip)) (fs_sb st))) = BSIZE"
    and "IBLOCK (i_inum (icache st ip)) (fs_sb st) \<notin> log_region (fs_log st)" and "i_type (icache st ip) \<noteq> 0"
  shows "\<exists>st'. iupdate ip st = Inr st' \<and> icache st' = icache st \<and>
    (\<forall>jp pid. i_ref (icache st' jp) \<ge> 1 \<and> \<not> i_valid (icache st' jp) \<and> sl_locked (i_lock (icache st' jp)) = 0 \<and>
        i_dev (icache st' jp) = 1 \<and> i_inum (icache st' jp) = i_inum (icache st ip) \<and> length (i_addrs (icache st' jp)) = NDIRECT + 1 \<longrightarrow>
      (\<exists>st''. ilock pid (Some jp) st' = Inr st'' \<and> i_valid (icache st'' jp) \<and> holdingsleep pid (i_lock (icache st'' jp)) \<and>
        i_type (icache st'' jp) = i_type (icache st ip) \<and> i_major (icache st'' jp) = i_major (icache st ip) \<and>
        i_minor (icache st'' jp) = i_minor (icache st ip) \<and> i_nlink (icache st'' jp) = i_nlink (icache st ip) \<and>
        i_size (icache st'' jp) = i_size (icache st ip) \<and> i_addrs (icache st'' jp) = i_addrs (icache st ip))) \<and>
    (\<forall>i. i \<noteq> i_inum (icache st ip) \<longrightarrow>
      take DINODE_SIZE (drop (dinode_off i) (blk st' (IBLOCK i (fs_sb st)))) =
      take DINODE_SIZE (drop (dinode_off i) (blk st (IBLOCK i (fs_sb st)))))"
proof -
  let ?x = "icache st ip" and ?ib = "IBLOCK (i_inum (icache st ip)) (fs_sb st)"
  have "room st (Suc 0)" using assms(3) by simp
  from iupdate_ok [OF assms(1,2) this refl assms(4,5,6)] obtain st' where st': "iupdate ip st = Inr st'" "same_rest st' st"
    "\<And>n. blk st' n = (if n = ?ib then overwrite (blk st ?ib) (dinode_off (i_inum ?x)) (dinode_bytes ?x) else blk st n)"
    by blast
  have "take DINODE_SIZE (drop (dinode_off i) (blk st' (IBLOCK i (fs_sb st)))) =
      take DINODE_SIZE (drop (dinode_off i) (blk st (IBLOCK i (fs_sb st))))" if "i \<noteq> i_inum ?x" for i
  proof (cases "IBLOCK i (fs_sb st) = ?ib")
    case True
    then have "dinode_off (i_inum ?x) \<noteq> dinode_off i" using dinode_place [of i "fs_sb st" "i_inum ?x"] that by auto
    from dinode_other [OF assms(5) length_dinode_bytes [OF assms(2)] this] show ?thesis by (simp add: st'(3) True)
  qed (simp add: st'(3))
  moreover have "\<exists>st''. ilock pid (Some jp) st' = Inr st'' \<and> i_valid (icache st'' jp) \<and> holdingsleep pid (i_lock (icache st'' jp)) \<and>
        i_type (icache st'' jp) = i_type ?x \<and> i_major (icache st'' jp) = i_major ?x \<and>
        i_minor (icache st'' jp) = i_minor ?x \<and> i_nlink (icache st'' jp) = i_nlink ?x \<and>
        i_size (icache st'' jp) = i_size ?x \<and> i_addrs (icache st'' jp) = i_addrs ?x"
    if j: "i_ref (icache st' jp) \<ge> 1" "\<not> i_valid (icache st' jp)" "sl_locked (i_lock (icache st' jp)) = 0" "i_dev (icache st' jp) = 1"
      "i_inum (icache st' jp) = i_inum ?x" "length (i_addrs (icache st' jp)) = NDIRECT + 1" for jp pid
  proof -
    let ?l = "(i_lock (icache st' jp))\<lparr>sl_locked := 1, sl_pid := pid\<rparr>"
    let ?y = "(icache st' jp)\<lparr>i_lock := ?l\<rparr>"
    have fit: "dinode_off (i_inum ?x) + DINODE_SIZE \<le> length (blk st ?ib)" using dinode_fits assms(5) by simp
    have "read_dinode (overwrite (blk st ?ib) (dinode_off (i_inum ?x)) (dinode_bytes ?x)) (dinode_off (i_inum ?x)) ?y =
      Inr (?y\<lparr>i_type := i_type ?x, i_major := i_major ?x, i_minor := i_minor ?x, i_nlink := i_nlink ?x, i_size := i_size ?x,
        i_addrs := i_addrs ?x, i_valid := True\<rparr>)"
      by (rule read_dinode_bytes [OF fit assms(2)]) (simp add: j(6))
    moreover have "fs_sb st' = fs_sb st" "fs_disksize st' = fs_disksize st" using st'(2) by (simp_all add: same_rest_def)
    ultimately show ?thesis
      using j assms(4,7) by (simp add: ilock_def acquiresleep_def upd_inode_def fs_read_def st'(3) not_le Let_def holdingsleep_def)
  qed
  moreover have "icache st' = icache st" using st'(2) by (simp add: same_rest_def)
  ultimately show ?thesis using st'(1) by blast
qed

definition demo_inodes :: fs where
  "demo_inodes = demo_fs\<lparr>icache := (icache demo_fs)(0 := (icache demo_fs 0)\<lparr>i_size := 77\<rparr>, 1 := (icache demo_fs 1)\<lparr>i_valid := False\<rparr>)\<rparr>"

theorem inode_roundtrip_witness:
  "\<exists>st' st''. iupdate 0 demo_inodes = Inr st' \<and> ilock 5 (Some 1) st' = Inr st'' \<and> i_size (icache st'' 1) = 77"
proof -
  have ib: "IBLOCK (i_inum (icache demo_inodes 0)) (fs_sb demo_inodes) = 32"
    by (simp add: demo_inodes_def demo_fs_def IBLOCK_def IPB_def BSIZE_def DINODE_SIZE_def word_unat_eq_iff unat_div)
  have same: "fs_log demo_inodes = fs_log demo_fs" "fs_store demo_inodes = fs_store demo_fs" by (simp_all add: demo_inodes_def)
  have h: "i_dev (icache demo_inodes 0) = 1" "length (i_addrs (icache demo_inodes 0)) = NDIRECT + 1" "room demo_inodes 1"
    "IBLOCK (i_inum (icache demo_inodes 0)) (fs_sb demo_inodes) < fs_disksize demo_inodes"
    "length (blk demo_inodes (IBLOCK (i_inum (icache demo_inodes 0)) (fs_sb demo_inodes))) = BSIZE"
    "IBLOCK (i_inum (icache demo_inodes 0)) (fs_sb demo_inodes) \<notin> log_region (fs_log demo_inodes)" "i_type (icache demo_inodes 0) \<noteq> 0"
  proof -
    show "room demo_inodes 1" using room_mono [OF demo_regular(2), of 1] by (simp add: room_def same)
    show "IBLOCK (i_inum (icache demo_inodes 0)) (fs_sb demo_inodes) \<notin> log_region (fs_log demo_inodes)"
      unfolding ib same using demo_region [of 32] by auto
  qed (unfold ib, simp_all add: demo_inodes_def demo_fs_def NDIRECT_def BSIZE_def store_read_def)
  obtain st' where st': "iupdate 0 demo_inodes = Inr st'" "icache st' = icache demo_inodes"
    and lock: "\<And>jp pid. i_ref (icache st' jp) \<ge> 1 \<and> \<not> i_valid (icache st' jp) \<and> sl_locked (i_lock (icache st' jp)) = 0 \<and>
        i_dev (icache st' jp) = 1 \<and> i_inum (icache st' jp) = i_inum (icache demo_inodes 0) \<and> length (i_addrs (icache st' jp)) = NDIRECT + 1 \<Longrightarrow>
      \<exists>st''. ilock pid (Some jp) st' = Inr st'' \<and> i_size (icache st'' jp) = i_size (icache demo_inodes 0)"
    using inode_roundtrip [OF h] by blast
  have "\<exists>st''. ilock 5 (Some 1) st' = Inr st'' \<and> i_size (icache st'' 1) = i_size (icache demo_inodes 0)"
    by (rule lock) (simp add: st'(2) demo_inodes_def demo_fs_def NDIRECT_def)
  then show ?thesis using st'(1) by (simp add: demo_inodes_def)
qed

end
