(* ===== verification/Xv6_Vm.thy ===== *)
theory Xv6_Vm
  imports Xv6_Fs Xv6_Kalloc
begin

text \<open>
  \<open>vm.c\<close>: page tables. They lie in pages of the allocator, in the memory of bytes of \<open>Xv6_Kalloc\<close>, which
  is indexed by the addresses the kernel uses. What the processor does with the register \<open>cr3\<close> and with
  segments (\<open>seginit\<close>, \<open>switchkvm\<close>, \<open>switchuvm\<close> beyond its checks) is not part of the model.
\<close>

section \<open>Addresses and entries\<close>

definition PTE_P :: u32 where "PTE_P = 1"
definition PTE_W :: u32 where "PTE_W = 2"
definition PTE_U :: u32 where "PTE_U = 4"
definition EXTMEM :: u32 where "EXTMEM = 0x100000"
definition DEVSPACE :: u32 where "DEVSPACE = 0xFE000000"
definition KERNLINK :: u32 where "KERNLINK = KERNBASE + EXTMEM"
definition NPDENTRIES :: nat where "NPDENTRIES = 1024"

definition P2V :: "u32 \<Rightarrow> u32" where "P2V a = a + KERNBASE"
definition PDX :: "u32 \<Rightarrow> u32" where "PDX va = drop_bit 22 va AND 0x3FF"
definition PTX :: "u32 \<Rightarrow> u32" where "PTX va = drop_bit 12 va AND 0x3FF"
definition PGADDR :: "u32 \<Rightarrow> u32 \<Rightarrow> u32 \<Rightarrow> u32" where "PGADDR d t k = push_bit 22 d OR push_bit 12 t OR k"
definition PGROUNDDOWN :: "u32 \<Rightarrow> u32" where "PGROUNDDOWN a = a AND NOT (PGSIZE - 1)"
definition PTE_ADDR :: "u32 \<Rightarrow> u32" where "PTE_ADDR pte = pte AND NOT 0xFFF"
definition PTE_FLAGS :: "u32 \<Rightarrow> u32" where "PTE_FLAGS pte = pte AND 0xFFF"

text \<open>
  What the functions need of their surroundings: the linker symbols \<open>end\<close> and \<open>data\<close>, the index of
  the processor and its call stack.
\<close>

record kenv =
  ke_end :: u32
  ke_data :: u32
  ke_me :: nat
  ke_stack :: "u32 list"

abbreviation kalloc_in :: "kenv \<Rightarrow> kmem \<Rightarrow> (u32 \<times> kmem) result" where
  "kalloc_in e k \<equiv> kalloc (ke_me e) (ke_stack e) k"

abbreviation kfree_in :: "kenv \<Rightarrow> u32 \<Rightarrow> kmem \<Rightarrow> kmem result" where
  "kfree_in e v k \<equiv> kfree (ke_end e) (ke_me e) (ke_stack e) v k"

definition poke :: "u32 \<Rightarrow> u32 \<Rightarrow> kmem \<Rightarrow> kmem" where
  "poke a v k = k\<lparr>kmem_mem := store32 (kmem_mem k) a v\<rparr>"

definition zero_page :: "u32 \<Rightarrow> kmem \<Rightarrow> kmem" where
  "zero_page a k = k\<lparr>kmem_mem := fill (kmem_mem k) a 0 4096\<rparr>"

text \<open>\<open>memmove\<close> of bytes that have been read before into the memory at \<open>a\<close>.\<close>

definition poke_bytes :: "u32 \<Rightarrow> u8 list \<Rightarrow> kmem \<Rightarrow> kmem" where
  "poke_bytes a bs k = k\<lparr>kmem_mem := (\<lambda>x. if unat (x - a) < length bs then bs ! unat (x - a) else kmem_mem k x)\<rparr>"

definition peek_bytes :: "u32 \<Rightarrow> nat \<Rightarrow> kmem \<Rightarrow> u8 list" where
  "peek_bytes a n k = map (\<lambda>i. kmem_mem k (a + word_of_nat i)) [0..<n]"

section \<open>The operations\<close>

definition walkpgdir :: "kenv \<Rightarrow> u32 \<Rightarrow> u32 \<Rightarrow> bool \<Rightarrow> kmem \<Rightarrow> (u32 option \<times> kmem) result" where
  "walkpgdir e pgdir va alloc k =
     (let pde = pgdir + 4 * PDX va; v = load32 (kmem_mem k) pde in
      if v AND PTE_P \<noteq> 0 then Inr (Some (P2V (PTE_ADDR v) + 4 * PTX va), k)
      else if \<not> alloc then Inr (None, k)
      else
        bindE (kalloc_in e k) (\<lambda>(pgtab, k).
        if pgtab = 0 then Inr (None, k) else
        let k = zero_page pgtab k;
            k = poke pde (V2P pgtab OR PTE_P OR PTE_W OR PTE_U) k
        in Inr (Some (pgtab + 4 * PTX va), k)))"

text \<open>The pages from \<open>a\<close> to \<open>b\<close>, both rounded down, in steps of a page.\<close>

definition pages_to :: "u32 \<Rightarrow> u32 \<Rightarrow> u32 list" where
  "pages_to a b = map (\<lambda>i. a + word_of_nat i * PGSIZE) [0..<Suc (unat (b - a) div 4096)]"

fun mappages_loop :: "kenv \<Rightarrow> u32 \<Rightarrow> u32 list \<Rightarrow> u32 \<Rightarrow> u32 \<Rightarrow> kmem \<Rightarrow> (int \<times> kmem) result" where
  "mappages_loop e pgdir [] pa perm k = Inr (0, k)"
| "mappages_loop e pgdir (a # as) pa perm k =
     bindE (walkpgdir e pgdir a True k) (\<lambda>(r, k).
     case r of None \<Rightarrow> Inr (- 1, k)
     | Some pte \<Rightarrow>
       if load32 (kmem_mem k) pte AND PTE_P \<noteq> 0 then Inl (Panic ''remap'')
       else mappages_loop e pgdir as (pa + PGSIZE) perm (poke pte (pa OR perm OR PTE_P) k))"

definition mappages :: "kenv \<Rightarrow> u32 \<Rightarrow> u32 \<Rightarrow> u32 \<Rightarrow> u32 \<Rightarrow> u32 \<Rightarrow> kmem \<Rightarrow> (int \<times> kmem) result" where
  "mappages e pgdir va sz pa perm k =
     mappages_loop e pgdir (pages_to (PGROUNDDOWN va) (PGROUNDDOWN (va + sz - 1))) pa perm k"

text \<open>
  The loop of \<open>deallocuvm\<close>. An address that wraps around would start the loop again at 0; the model
  calls that \<^const>\<open>Diverges\<close>. Sizes of processes are at most \<^const>\<open>KERNBASE\<close>, where it does not happen.
\<close>

function dealloc_loop :: "kenv \<Rightarrow> u32 \<Rightarrow> u32 \<Rightarrow> u32 \<Rightarrow> kmem \<Rightarrow> kmem result" where
  "dealloc_loop e pgdir a oldsz k =
     (if a < oldsz then
        bindE (walkpgdir e pgdir a False k) (\<lambda>(r, k).
        bindE (case r of
            None \<Rightarrow> Inr (PGADDR (PDX a + 1) 0 0 - PGSIZE, k)
          | Some pte \<Rightarrow>
            let v = load32 (kmem_mem k) pte in
            if v AND PTE_P \<noteq> 0 then
              (let pa = PTE_ADDR v in
               if pa = 0 then Inl (Panic ''kfree'')
               else bindE (kfree_in e (P2V pa) k) (\<lambda>k. Inr (a, poke pte 0 k)))
            else Inr (a, k)) (\<lambda>(a', k).
        if a' + PGSIZE \<le> a then Inl Diverges
        else dealloc_loop e pgdir (a' + PGSIZE) oldsz k))
      else Inr k)"
  by pat_completeness auto
termination
  by (relation "measure (\<lambda>(e, pgdir, a, oldsz, k). unat oldsz - unat a)") (auto simp: word_le_nat_alt word_less_nat_alt not_le)

declare dealloc_loop.simps [simp del]

definition deallocuvm :: "kenv \<Rightarrow> u32 \<Rightarrow> u32 \<Rightarrow> u32 \<Rightarrow> kmem \<Rightarrow> (u32 \<times> kmem) result" where
  "deallocuvm e pgdir oldsz newsz k =
     (if newsz \<ge> oldsz then Inr (oldsz, k)
      else bindE (dealloc_loop e pgdir (PGROUNDUP newsz) oldsz k) (\<lambda>k. Inr (newsz, k)))"

definition freevm :: "kenv \<Rightarrow> u32 \<Rightarrow> kmem \<Rightarrow> kmem result" where
  "freevm e pgdir k =
     (if pgdir = 0 then Inl (Panic ''freevm: no pgdir'') else
      bindE (deallocuvm e pgdir KERNBASE 0 k) (\<lambda>(_, k).
      bindE (loopE (\<lambda>i k.
          let v = load32 (kmem_mem k) (pgdir + 4 * word_of_nat i) in
          if v AND PTE_P \<noteq> 0 then kfree_in e (P2V (PTE_ADDR v)) k else Inr k) [0..<NPDENTRIES] k) (\<lambda>k.
      kfree_in e pgdir k)))"

text \<open>The table of the mappings of the kernel: virtual address, first physical address, end, permission.\<close>

definition kmap :: "kenv \<Rightarrow> (u32 \<times> u32 \<times> u32 \<times> u32) list" where
  "kmap e =
     [(KERNBASE, 0, EXTMEM, PTE_W),
      (KERNLINK, V2P KERNLINK, V2P (ke_data e), 0),
      (ke_data e, V2P (ke_data e), PHYSTOP, PTE_W),
      (DEVSPACE, DEVSPACE, 0, PTE_W)]"

fun setupkvm_loop :: "kenv \<Rightarrow> u32 \<Rightarrow> (u32 \<times> u32 \<times> u32 \<times> u32) list \<Rightarrow> kmem \<Rightarrow> (u32 \<times> kmem) result" where
  "setupkvm_loop e pgdir [] k = Inr (pgdir, k)"
| "setupkvm_loop e pgdir ((virt, start, stop, perm) # ms) k =
     bindE (mappages e pgdir virt (stop - start) start perm k) (\<lambda>(r, k).
     if r < 0 then bindE (freevm e pgdir k) (\<lambda>k. Inr (0, k))
     else setupkvm_loop e pgdir ms k)"

definition setupkvm :: "kenv \<Rightarrow> kmem \<Rightarrow> (u32 \<times> kmem) result" where
  "setupkvm e k =
     bindE (kalloc_in e k) (\<lambda>(pgdir, k).
     if pgdir = 0 then Inr (0, k) else
     let k = zero_page pgdir k in
     if P2V PHYSTOP > DEVSPACE then Inl (Panic ''PHYSTOP too high'')
     else setupkvm_loop e pgdir (kmap e) k)"

definition inituvm :: "kenv \<Rightarrow> u32 \<Rightarrow> u8 list \<Rightarrow> kmem \<Rightarrow> kmem result" where
  "inituvm e pgdir init k =
     (if length init \<ge> 4096 then Inl (Panic ''inituvm: more than a page'') else
      bindE (kalloc_in e k) (\<lambda>(mem, k).
      if mem = 0 then Inl NullPointer else
      let k = zero_page mem k in
      bindE (mappages e pgdir 0 PGSIZE (V2P mem) (PTE_W OR PTE_U) k) (\<lambda>(_, k).
      Inr (poke_bytes mem init k))))"

text \<open>The pages of the loop of \<open>allocuvm\<close>, for \<open>newsz\<close> below \<^const>\<open>KERNBASE\<close>.\<close>

definition pages_below :: "u32 \<Rightarrow> u32 \<Rightarrow> u32 list" where
  "pages_below a sz = map (\<lambda>i. a + word_of_nat i * PGSIZE) [0..<(unat sz - unat a + 4095) div 4096]"

fun alloc_loop :: "kenv \<Rightarrow> u32 \<Rightarrow> u32 list \<Rightarrow> u32 \<Rightarrow> u32 \<Rightarrow> kmem \<Rightarrow> (u32 \<times> kmem) result" where
  "alloc_loop e pgdir [] oldsz newsz k = Inr (newsz, k)"
| "alloc_loop e pgdir (a # as) oldsz newsz k =
     bindE (kalloc_in e k) (\<lambda>(mem, k).
     if mem = 0 then bindE (deallocuvm e pgdir newsz oldsz k) (\<lambda>(_, k). Inr (0, k)) else
     let k = zero_page mem k in
     bindE (mappages e pgdir a PGSIZE (V2P mem) (PTE_W OR PTE_U) k) (\<lambda>(r, k).
     if r < 0 then
       bindE (deallocuvm e pgdir newsz oldsz k) (\<lambda>(_, k).
       bindE (kfree_in e mem k) (\<lambda>k. Inr (0, k)))
     else alloc_loop e pgdir as oldsz newsz k))"

definition allocuvm :: "kenv \<Rightarrow> u32 \<Rightarrow> u32 \<Rightarrow> u32 \<Rightarrow> kmem \<Rightarrow> (u32 \<times> kmem) result" where
  "allocuvm e pgdir oldsz newsz k =
     (if newsz \<ge> KERNBASE then Inr (0, k)
      else if newsz < oldsz then Inr (oldsz, k)
      else alloc_loop e pgdir (pages_below (PGROUNDUP oldsz) newsz) oldsz newsz k)"

text \<open>\<open>loaduvm\<close>: \<open>readi\<close> fills the pages with bytes of the file.\<close>

fun load_loop :: "devsw \<Rightarrow> kenv \<Rightarrow> u32 \<Rightarrow> u32 \<Rightarrow> nat \<Rightarrow> u32 \<Rightarrow> u32 list \<Rightarrow> u32 \<Rightarrow> kmem \<times> fs \<Rightarrow> (int \<times> kmem \<times> fs) result" where
  "load_loop devs e pgdir va ip off [] sz (k, st) = Inr (0, k, st)"
| "load_loop devs e pgdir va ip off (i # is) sz (k, st) =
     bindE (walkpgdir e pgdir (va + i) False k) (\<lambda>(r, k).
     case r of None \<Rightarrow> Inl (Panic ''loaduvm: address should exist'')
     | Some pte \<Rightarrow>
       let pa = PTE_ADDR (load32 (kmem_mem k) pte);
           n = (if sz - i < PGSIZE then sz - i else PGSIZE)
       in bindE (readi devs ip (off + i) n st) (\<lambda>((got, bs), st).
          let k = poke_bytes (P2V pa) bs k in
          if word_of_int got \<noteq> n then Inr (- 1, k, st)
          else load_loop devs e pgdir va ip off is sz (k, st)))"

definition loaduvm :: "devsw \<Rightarrow> kenv \<Rightarrow> u32 \<Rightarrow> u32 \<Rightarrow> nat \<Rightarrow> u32 \<Rightarrow> u32 \<Rightarrow> kmem \<times> fs \<Rightarrow> (int \<times> kmem \<times> fs) result" where
  "loaduvm devs e pgdir va ip off sz s =
     (if va mod PGSIZE \<noteq> 0 then Inl (Panic ''loaduvm: addr must be page aligned'')
      else load_loop devs e pgdir va ip off (pages_below 0 sz) sz s)"

definition clearpteu :: "kenv \<Rightarrow> u32 \<Rightarrow> u32 \<Rightarrow> kmem \<Rightarrow> kmem result" where
  "clearpteu e pgdir uva k =
     bindE (walkpgdir e pgdir uva False k) (\<lambda>(r, k).
     case r of None \<Rightarrow> Inl (Panic ''clearpteu'')
     | Some pte \<Rightarrow> Inr (poke pte (load32 (kmem_mem k) pte AND NOT PTE_U) k))"

fun copy_loop :: "kenv \<Rightarrow> u32 \<Rightarrow> u32 \<Rightarrow> u32 list \<Rightarrow> kmem \<Rightarrow> (u32 \<times> kmem) result" where
  "copy_loop e pgdir d [] k = Inr (d, k)"
| "copy_loop e pgdir d (i # is) k =
     bindE (walkpgdir e pgdir i False k) (\<lambda>(r, k).
     case r of None \<Rightarrow> Inl (Panic ''copyuvm: pte should exist'')
     | Some pte \<Rightarrow>
       let v = load32 (kmem_mem k) pte in
       if v AND PTE_P = 0 then Inl (Panic ''copyuvm: page not present'') else
       let pa = PTE_ADDR v; flags = PTE_FLAGS v in
       bindE (kalloc_in e k) (\<lambda>(mem, k).
       if mem = 0 then bindE (freevm e d k) (\<lambda>k. Inr (0, k)) else
       let k = poke_bytes mem (peek_bytes (P2V pa) 4096 k) k in
       bindE (mappages e d i PGSIZE (V2P mem) flags k) (\<lambda>(r, k).
       if r < 0 then
         bindE (kfree_in e mem k) (\<lambda>k. bindE (freevm e d k) (\<lambda>k. Inr (0, k)))
       else copy_loop e pgdir d is k)))"

definition copyuvm :: "kenv \<Rightarrow> u32 \<Rightarrow> u32 \<Rightarrow> kmem \<Rightarrow> (u32 \<times> kmem) result" where
  "copyuvm e pgdir sz k =
     bindE (setupkvm e k) (\<lambda>(d, k).
     if d = 0 then Inr (0, k) else copy_loop e pgdir d (pages_below 0 sz) k)"

text \<open>\<open>uva2ka\<close> does not test the pointer that \<open>walkpgdir\<close> returns.\<close>

definition uva2ka :: "kenv \<Rightarrow> u32 \<Rightarrow> u32 \<Rightarrow> kmem \<Rightarrow> (u32 \<times> kmem) result" where
  "uva2ka e pgdir uva k =
     bindE (walkpgdir e pgdir uva False k) (\<lambda>(r, k).
     case r of None \<Rightarrow> Inl NullPointer
     | Some pte \<Rightarrow>
       let v = load32 (kmem_mem k) pte in
       Inr (if v AND PTE_P = 0 then 0 else if v AND PTE_U = 0 then 0 else P2V (PTE_ADDR v), k))"

lemma page_part: "va - PGROUNDDOWN va = va AND 0xFFF" "unat (va - PGROUNDDOWN va) = unat va mod 4096"
proof -
  have m: "(0xFFF :: u32) = mask 12" by (simp add: mask_eq_exp_minus_1)
  have "va = (va AND mask 12) + (va AND NOT (mask 12))"
    by (subst disjunctive_add_eq_or) (auto simp: bit_eq_iff bit_simps)
  then show eq: "va - PGROUNDDOWN va = va AND 0xFFF"
    unfolding m by (simp add: PGROUNDDOWN_def PGSIZE_def m diff_eq_eq)
  have "unat (va AND mask 12) = unat va mod 2 ^ 12"
    by (simp add: take_bit_eq_mask [symmetric] take_bit_eq_mod unat_mod)
  then show "unat (va - PGROUNDDOWN va) = unat va mod 4096" unfolding eq m by simp
qed

function copyout :: "kenv \<Rightarrow> u32 \<Rightarrow> u32 \<Rightarrow> u8 list \<Rightarrow> kmem \<Rightarrow> (int \<times> kmem) result" where
  "copyout e pgdir va buf k =
     (if buf = [] then Inr (0, k) else
      let va0 = PGROUNDDOWN va in
      bindE (uva2ka e pgdir va0 k) (\<lambda>(pa0, k).
      if pa0 = 0 then Inr (- 1, k) else
      let n = min (4096 - unat (va - va0)) (length buf) in
      copyout e pgdir (va0 + PGSIZE) (drop n buf) (poke_bytes (pa0 + (va - va0)) (take n buf) k)))"
  by pat_completeness auto
termination by (relation "measure (\<lambda>(e, pgdir, va, buf, k). length buf)") (auto simp: page_part(2))

declare copyout.simps [simp del]

text \<open>The checks of \<open>switchuvm\<close>; the rest loads registers.\<close>

definition switchuvm :: "u32 \<Rightarrow> u32 \<Rightarrow> unit result" where
  "switchuvm kstack pgdir =
     (if kstack = 0 then Inl (Panic ''switchuvm: no kstack'')
      else if pgdir = 0 then Inl (Panic ''switchuvm: no pgdir'') else Inr ())"

end
