(* ===== verification/Xv6_Space.thy ===== *)
theory Xv6_Space
  imports Xv6_Vm
begin

text \<open>
  What the page tables of \<open>Xv6_Vm\<close> mean: the entry of a virtual address, the pages that an address space
  owns, and the effect of \<open>walkpgdir\<close> and \<open>mappages\<close> on them. Memory is framed by whole pages.
\<close>

section \<open>Pages of memory\<close>

definition same_page :: "memory \<Rightarrow> memory \<Rightarrow> u32 \<Rightarrow> bool" where
  "same_page m' m p \<longleftrightarrow> (\<forall>k. unat k < 4096 \<longrightarrow> m' (p + k) = m (p + k))"

lemma same_page_refl [simp]: "same_page m m p" by (simp add: same_page_def)
lemma same_page_trans: "same_page a b p \<Longrightarrow> same_page b c p \<Longrightarrow> same_page a c p" by (simp add: same_page_def)

lemma page_apart:
  fixes p q k j :: u32
  assumes "aligned p" and "aligned q" and "p \<noteq> q" and "unat k < 4096" and "unat j < 4096"
  shows "p + k \<noteq> q + j"
proof
  assume "p + k = q + j"
  then have eq: "unat p + unat k = unat q + unat j" using aligned_add [OF assms(1,4)] aligned_add [OF assms(2,5)] by simp
  obtain a b where "unat p = 4096 * a" "unat q = 4096 * b"
    using aligned_unat [OF assms(1)] aligned_unat [OF assms(2)] by (auto simp: mod_eq_0_iff_dvd elim!: dvdE)
  with eq assms(4,5) have "a = b" by linarith
  then have "p = q" using \<open>unat p = 4096 * a\<close> \<open>unat q = 4096 * b\<close> by (simp add: word_unat_eq_iff)
  with assms(3) show False ..
qed

lemma offset_unat:
  fixes k j :: u32
  assumes "unat k + 4 \<le> 4096" and "unat j < 4"
  shows "unat (k + j) = unat k + unat j" "unat (k + j) < 4096"
proof -
  show "unat (k + j) = unat k + unat j" using assms by (intro unat_add_no_wrap) simp
  then show "unat (k + j) < 4096" using assms by simp
qed

lemma store_same_page:
  assumes "aligned p" and "aligned q" and "p \<noteq> q" and "unat k + 4 \<le> 4096"
  shows "same_page (store32 m (q + k) v) m p"
  unfolding same_page_def
proof (intro allI impI)
  fix i :: u32 assume i: "unat i < 4096"
  have "p + i \<noteq> q + (k + j)" if "unat j < 4" for j by (rule page_apart [OF assms(1-3) i offset_unat(2) [OF assms(4) that]])
  from this [of 0] this [of 1] this [of 2] this [of 3] show "store32 m (q + k) v (p + i) = m (p + i)"
    by (simp add: store32_def add.assoc)
qed

lemma fill_same_page:
  assumes "aligned p" and "aligned q" and "p \<noteq> q" and "n \<le> 4096"
  shows "same_page (fill m q c n) m p"
proof -
  have "\<not> unat (p + i - q) < n" if "unat i < 4096" for i
    using page_apart [OF assms(1-3) that, of "p + i - q"] assms(4) by auto
  then show ?thesis by (simp add: same_page_def fill_def)
qed

lemma load_same_page:
  assumes "same_page m' m p" and "unat k + 4 \<le> 4096"
  shows "load32 m' (p + k) = load32 m (p + k)"
  by (rule load_cong) (use assms offset_unat(2) [OF assms(2)] in \<open>simp add: same_page_def add.assoc\<close>)

lemma load_fill_zero:
  assumes "unat k + 4 \<le> 4096"
  shows "load32 (fill m p 0 4096) (p + k) = 0"
proof -
  have "fill m p 0 4096 (p + k + j) = 0" if "unat j < 4" for j
    using offset_unat(2) [OF assms that] by (simp add: fill_def add.assoc)
  from this [of 0] this [of 1] this [of 2] this [of 3] show ?thesis by (simp add: load32_def)
qed

text \<open>Words of a page at different indices.\<close>

lemma index_unat:
  fixes i :: u32
  assumes "unat i < 1024"
  shows "unat (4 * i) = 4 * unat i" "unat (4 * i) + 4 \<le> 4096"
proof -
  show "unat (4 * i) = 4 * unat i" using assms by (subst unat_mult_lem [THEN iffD1]) simp_all
  then show "unat (4 * i) + 4 \<le> 4096" using assms by simp
qed

lemma load_store_index:
  fixes i j :: u32
  assumes "unat i < 1024" and "unat j < 1024"
  shows "load32 (store32 m (p + 4 * i) v) (p + 4 * j) = (if i = j then v else load32 m (p + 4 * j))"
proof (cases "i = j")
  case False
  then have ne: "unat i \<noteq> unat j" by (simp add: word_unat_eq_iff)
  have ab: "p + (4 * j + a) \<noteq> p + (4 * i + b)" if "unat a < 4" "unat b < 4" for a b
  proof
    assume "p + (4 * j + a) = p + (4 * i + b)"
    then have "4 * unat j + unat a = 4 * unat i + unat b"
      using offset_unat(1) [OF index_unat(2) that(1), of j] offset_unat(1) [OF index_unat(2) that(2), of i] assms index_unat(1)
      by (metis add_left_cancel)
    then show False using ne that by linarith
  qed
  have sep: "store32 m (p + 4 * i) v (p + 4 * j + a) = m (p + 4 * j + a)" if "unat a < 4" for a
    using ab [OF that, of 0] ab [OF that, of 1] ab [OF that, of 2] ab [OF that, of 3] by (simp add: store32_def add.assoc)
  show ?thesis using False by (simp, intro load_cong sep)
qed (simp add: load_store)

section \<open>Address spaces\<close>

definition present :: "u32 \<Rightarrow> bool" where "present v \<longleftrightarrow> v AND PTE_P \<noteq> 0"
definition page_of :: "u32 \<Rightarrow> u32" where "page_of v = P2V (PTE_ADDR v)"

abbreviation pde :: "kmem \<Rightarrow> u32 \<Rightarrow> u32 \<Rightarrow> u32" where
  "pde k d i \<equiv> load32 (kmem_mem k) (d + 4 * i)"

text \<open>The entry for a virtual address, 0 where there is no page table.\<close>

definition entry :: "kmem \<Rightarrow> u32 \<Rightarrow> u32 \<Rightarrow> u32" where
  "entry k d va = (if present (pde k d (PDX va)) then load32 (kmem_mem k) (page_of (pde k d (PDX va)) + 4 * PTX va) else 0)"

definition tables :: "kmem \<Rightarrow> u32 \<Rightarrow> u32 set" where
  "tables k d = {page_of (pde k d i) |i. unat i < 1024 \<and> present (pde k d i)}"

text \<open>
  A page directory \<open>d\<close> whose page tables are pages of their own, none of them free; \<open>xs\<close> are the free
  pages.
\<close>

definition space_ok :: "u32 \<Rightarrow> kmem \<Rightarrow> u32 \<Rightarrow> u32 list \<Rightarrow> bool" where
  "space_ok kend k d xs \<longleftrightarrow> kmem_inv kend k xs \<and> page_ok kend d \<and> d \<notin> set xs \<and>
     (\<forall>p \<in> tables k d. page_ok kend p \<and> p \<noteq> d \<and> p \<notin> set xs) \<and>
     (\<forall>i j. unat i < 1024 \<and> unat j < 1024 \<and> present (pde k d i) \<and> present (pde k d j) \<and>
        page_of (pde k d i) = page_of (pde k d j) \<longrightarrow> i = j)"

lemma index_lt: "unat (PDX va) < 1024" "unat (PTX va) < 1024"
proof -
  have m: "(0x3FF :: u32) = mask 10" by (simp add: mask_eq_exp_minus_1)
  have "unat (x AND mask 10) = unat x mod 1024" for x :: u32
    by (simp add: take_bit_eq_mask [symmetric] take_bit_eq_mod unat_mod)
  then show "unat (PDX va) < 1024" "unat (PTX va) < 1024" by (simp_all add: PDX_def PTX_def m)
qed

lemma page_ok_aligned: "page_ok kend p \<Longrightarrow> aligned p" by (simp add: page_ok_def)

lemma kmem_inv_frame:
  assumes "kmem_inv kend k xs" and "\<And>x. x \<in> set xs \<Longrightarrow> same_page m (kmem_mem k) x"
  shows "kmem_inv kend (k\<lparr>kmem_mem := m\<rparr>) xs"
proof -
  have "load32 m x = load32 (kmem_mem k) x" if "x \<in> set xs" for x
    using load_same_page [OF assms(2) [OF that], of 0] by simp
  then show ?thesis using assms(1) free_list_cong [of xs m "kmem_mem k"] by (simp add: kmem_inv_def)
qed

lemma aligned_bits:
  fixes x :: u32
  assumes "aligned x" and "n < 12"
  shows "\<not> bit x n"
proof -
  have "take_bit 12 x = 0" using assms(1) by (simp add: aligned_def PGSIZE_def take_bit_eq_mod)
  then show ?thesis using assms(2) by (metis bit_0_eq bit_take_bit_iff bot_apply bot_bool_def)
qed

lemma V2P_aligned:
  assumes "page_ok kend x"
  shows "aligned (V2P x)" and "P2V (V2P x) = x"
proof -
  obtain q where "unat x = 4096 * q" using aligned_unat [of x] assms by (auto simp: page_ok_def mod_eq_0_iff_dvd elim!: dvdE)
  moreover have "KERNBASE \<le> x" using V2P_range(1) [of x] assms by (simp add: page_ok_def KERNBASE_def word_le_nat_alt)
  then have "unat (V2P x) = unat x - 0x80000000" by (simp add: V2P_def unat_sub) (simp add: KERNBASE_def)
  ultimately have "unat (V2P x) = 4096 * (q - 524288)" by (simp add: diff_mult_distrib2)
  then show "aligned (V2P x)" by (simp add: aligned_def word_unat_eq_iff unat_mod)
qed (simp add: V2P_def P2V_def)

text \<open>An entry that is made of an aligned address and flags gives them back.\<close>

lemma PTE_ADDR_made:
  assumes "aligned a" and "f AND NOT 0xFFF = 0"
  shows "PTE_ADDR (a OR f) = a" and "PTE_FLAGS (a OR f) = f"
proof -
  have m: "(0xFFF :: u32) = mask 12" by (simp add: mask_eq_exp_minus_1)
  have f: "\<not> bit f n" if "12 \<le> n" for n
  proof
    assume b: "bit f n"
    then have "n < 32" using bit_imp_le_length by fastforce
    then have "bit (f AND NOT 0xFFF) n" using b that unfolding m by (simp add: bit_simps)
    then show False using assms(2) by simp
  qed
  show "PTE_ADDR (a OR f) = a"
    unfolding PTE_ADDR_def m
  proof (rule bit_word_eqI)
    show "bit ((a OR f) AND NOT (mask 12)) n = bit a n" if "n < LENGTH(32)" for n
      using aligned_bits [OF assms(1), of n] f [of n] that by (cases "n < 12") (auto simp: bit_simps)
  qed
  show "PTE_FLAGS (a OR f) = f"
    unfolding PTE_FLAGS_def m
  proof (rule bit_word_eqI)
    show "bit ((a OR f) AND mask 12) n = bit f n" if "n < LENGTH(32)" for n
      using aligned_bits [OF assms(1), of n] f [of n] that by (cases "n < 12") (auto simp: bit_simps)
  qed
qed

lemma present_made [simp]: "present (a OR f OR PTE_P)"
proof -
  have "bit (a OR f OR PTE_P) 0" by (simp add: PTE_P_def bit_simps)
  then have "bit ((a OR f OR PTE_P) AND PTE_P) 0" by (simp add: PTE_P_def bit_simps)
  then show ?thesis unfolding present_def by (metis bit_0_eq bot_apply bot_bool_def)
qed

lemma not_present_0 [simp]: "\<not> present 0" by (simp add: present_def)

lemma new_table_entry:
  assumes "page_ok kend x"
  shows "present (V2P x OR PTE_P OR PTE_W OR PTE_U)" and "page_of (V2P x OR PTE_P OR PTE_W OR PTE_U) = x"
proof -
  let ?f = "PTE_P OR PTE_W OR PTE_U"
  have "V2P x OR PTE_P OR PTE_W OR PTE_U = V2P x OR (PTE_W OR PTE_U) OR PTE_P" by (simp add: or.assoc or.commute or.left_commute)
  then show "present (V2P x OR PTE_P OR PTE_W OR PTE_U)" by simp
  have "?f AND NOT 0xFFF = 0" by (simp add: PTE_P_def PTE_W_def PTE_U_def)
  then show "page_of (V2P x OR PTE_P OR PTE_W OR PTE_U) = x"
    using PTE_ADDR_made(1) [OF V2P_aligned(1) [OF assms], of ?f] V2P_aligned(2) [OF assms] by (simp add: page_of_def or.assoc)
qed

lemma tables_I: "unat i < 1024 \<Longrightarrow> present (pde k d i) \<Longrightarrow> page_of (pde k d i) \<in> tables k d"
  by (auto simp: tables_def)

lemma space_pages:
  assumes "space_ok kend k d xs"
  shows "kmem_inv kend k xs" "page_ok kend d" "aligned d" "d \<notin> set xs" "distinct xs" "x \<in> set xs \<Longrightarrow> page_ok kend x"
    "p \<in> tables k d \<Longrightarrow> page_ok kend p \<and> aligned p \<and> p \<noteq> d \<and> p \<notin> set xs"
  using assms by (auto simp: space_ok_def kmem_inv_def page_ok_def)

lemma space_table:
  assumes "space_ok kend k d xs" and "present (pde k d (PDX va))"
  shows "page_ok kend (page_of (pde k d (PDX va)))" "aligned (page_of (pde k d (PDX va)))" "page_of (pde k d (PDX va)) \<noteq> d"
    "page_of (pde k d (PDX va)) \<notin> set xs"
  using space_pages(7) [OF assms(1) tables_I [OF index_lt(1) assms(2)]] by simp_all

text \<open>Writing one entry of a page table.\<close>

lemma poke_entry:
  fixes k :: kmem and d v va :: u32
  assumes sp: "space_ok kend k d xs" and pr: "present (pde k d (PDX va))"
  defines "k' \<equiv> poke (page_of (pde k d (PDX va)) + 4 * PTX va) v k"
  shows "space_ok kend k' d xs" and "tables k' d = tables k d"
    and "entry k' d va' = (if PDX va' = PDX va \<and> PTX va' = PTX va then v else entry k d va')"
    and "aligned p \<Longrightarrow> p \<noteq> page_of (pde k d (PDX va)) \<Longrightarrow> same_page (kmem_mem k') (kmem_mem k) p"
proof -
  let ?t = "page_of (pde k d (PDX va))"
  note t = space_table [OF sp pr] and pages = space_pages [OF sp]
  have mem: "kmem_mem k' = store32 (kmem_mem k) (?t + 4 * PTX va) v" by (simp add: k'_def poke_def)
  show frame: "same_page (kmem_mem k') (kmem_mem k) p" if "aligned p" "p \<noteq> ?t" for p
    unfolding mem by (rule store_same_page [OF that(1) t(2) that(2) index_unat(2) [OF index_lt(2)]])
  have pdes: "pde k' d i = pde k d i" if "unat i < 1024" for i
    by (rule load_same_page [OF frame [OF pages(3) t(3) [symmetric]] index_unat(2) [OF that]])
  then show tabs: "tables k' d = tables k d" by (auto simp: tables_def) metis+
  have "kmem_inv kend (k\<lparr>kmem_mem := kmem_mem k'\<rparr>) xs"
    by (rule kmem_inv_frame [OF pages(1) frame]) (use pages(6) t(4) in \<open>auto simp: page_ok_def\<close>)
  then have "kmem_inv kend k' xs" by (simp add: k'_def poke_def)
  moreover have "i = j" if "unat i < 1024" "unat j < 1024" "present (pde k' d i)" "present (pde k' d j)"
      "page_of (pde k' d i) = page_of (pde k' d j)" for i j
    using that sp pdes [OF that(1)] pdes [OF that(2)] unfolding space_ok_def by metis
  ultimately show "space_ok kend k' d xs" using pages(2,4,7) by (auto simp: space_ok_def tabs)
  show "entry k' d va' = (if PDX va' = PDX va \<and> PTX va' = PTX va then v else entry k d va')"
  proof (cases "PDX va' = PDX va")
    case True
    then show ?thesis using pr pdes [OF index_lt(1)] load_store_index [OF index_lt(2) index_lt(2), of "kmem_mem k" ?t va v va']
      by (auto simp: entry_def mem)
  next
    case False
    show ?thesis
    proof (cases "present (pde k d (PDX va'))")
      case True
      then have "page_of (pde k d (PDX va')) \<noteq> ?t" using sp pr False index_lt(1) unfolding space_ok_def by blast
      from frame [OF space_table(2) [OF sp True] this] have "same_page (kmem_mem k') (kmem_mem k) (page_of (pde k d (PDX va')))" .
      then show ?thesis using True False pdes [OF index_lt(1)] load_same_page [OF _ index_unat(2) [OF index_lt(2)]]
        by (simp add: entry_def)
    qed (use False pdes [OF index_lt(1)] in \<open>simp add: entry_def\<close>)
  qed
qed

text \<open>\<open>walkpgdir\<close> with allocation: there is a table afterwards, and no entry has changed.\<close>

lemma walk_table:
  assumes sp: "space_ok (ke_end e) k d xs" and av: "present (pde k d (PDX va)) \<or> xs \<noteq> []"
  obtains k' xs' where "walkpgdir e d va True k = Inr (Some (page_of (pde k' d (PDX va)) + 4 * PTX va), k')"
    and "present (pde k' d (PDX va))" and "space_ok (ke_end e) k' d xs'" and "\<And>va'. entry k' d va' = entry k d va'"
    and "set xs' \<union> tables k' d = set xs \<union> tables k d" and "set xs' \<subseteq> set xs"
    and "\<And>p. aligned p \<Longrightarrow> p \<noteq> d \<Longrightarrow> p \<notin> set xs \<Longrightarrow> same_page (kmem_mem k') (kmem_mem k) p"
proof (cases "present (pde k d (PDX va))")
  case True
  then have "walkpgdir e d va True k = Inr (Some (page_of (pde k d (PDX va)) + 4 * PTX va), k)"
    by (simp add: walkpgdir_def Let_def present_def page_of_def)
  then show thesis using sp True by (intro that [of k xs]) simp_all
next
  case False
  then obtain x xs' where xs: "xs = x # xs'" using av by (cases xs) auto
  note pages = space_pages [OF sp]
  have x: "page_ok (ke_end e) x" "aligned x" "x \<noteq> d" "x \<notin> set xs'" "x \<noteq> 0"
    using pages(4,5) pages(6) [of x] page_nonzero [of "ke_end e" x] by (auto simp: xs page_ok_def)
  obtain k1 where k1: "kalloc_in e k = Inr (x, k1)" "kmem_inv (ke_end e) k1 xs'" "kmem_mem k1 = kmem_mem k"
    using kalloc_takes [OF pages(1), of "ke_me e" "ke_stack e"] by (auto simp: xs)
  let ?v = "V2P x OR PTE_P OR PTE_W OR PTE_U" and ?i = "PDX va"
  let ?k = "poke (d + 4 * ?i) ?v (zero_page x k1)"
  have mem: "kmem_mem ?k = store32 (fill (kmem_mem k) x 0 4096) (d + 4 * ?i) ?v" by (simp add: poke_def zero_page_def k1(3))
  note v = new_table_entry [OF x(1)]
  have frame: "same_page (kmem_mem ?k) (kmem_mem k) p" if "aligned p" "p \<noteq> d" "p \<noteq> x" for p
    unfolding mem
    by (rule same_page_trans [OF store_same_page [OF that(1) pages(3) that(2) index_unat(2) [OF index_lt(1)]] fill_same_page [OF that(1) x(2) that(3)]]) simp
  have zero: "load32 (kmem_mem ?k) (x + 4 * j) = 0" if "unat j < 1024" for j
    unfolding mem
    using load_same_page [OF store_same_page [OF x(2) pages(3) x(3) index_unat(2) [OF index_lt(1)]] index_unat(2) [OF that]]
      load_fill_zero [OF index_unat(2) [OF that]] by simp
  have pdes: "pde ?k d j = (if j = ?i then ?v else pde k d j)" if "unat j < 1024" for j
    unfolding mem using load_store_index [OF index_lt(1) that] load_same_page [OF fill_same_page [OF pages(3) x(2)] index_unat(2) [OF that]] x(3)
    by auto
  have tabs: "tables ?k d = insert x (tables k d)"
  proof -
    have "x \<in> tables ?k d" using tables_I [of ?i ?k d] pdes [OF index_lt(1)] v index_lt(1) by simp
    moreover have "page_of (pde k d j) \<in> tables ?k d" if "unat j < 1024" "present (pde k d j)" for j
      using tables_I [of j ?k d] pdes [OF that(1)] that False by (cases "j = ?i") auto
    ultimately show ?thesis using pdes v by (auto simp: tables_def split: if_splits)
  qed
  have fresh: "page_of (pde k d j) \<noteq> x" if "unat j < 1024" "present (pde k d j)" for j
    using pages(7) [OF tables_I [OF that]] by (auto simp: xs)
  have "walkpgdir e d va True k = Inr (Some (page_of (pde ?k d ?i) + 4 * PTX va), ?k)"
    using False k1(1) x(5) pdes [OF index_lt(1)] v by (simp add: walkpgdir_def Let_def present_def)
  moreover have "present (pde ?k d ?i)" using pdes [OF index_lt(1)] v by simp
  moreover have "space_ok (ke_end e) ?k d xs'"
  proof -
    have "kmem_inv (ke_end e) (k1\<lparr>kmem_mem := kmem_mem ?k\<rparr>) xs'"
      by (rule kmem_inv_frame [OF k1(2)], unfold k1(3), rule frame) (use pages(4,6) x(4) in \<open>auto simp: xs page_ok_def\<close>)
    then have "kmem_inv (ke_end e) ?k xs'" by (simp add: poke_def zero_page_def)
    moreover have "\<forall>p \<in> tables ?k d. page_ok (ke_end e) p \<and> p \<noteq> d \<and> p \<notin> set xs'"
      using x pages(7) by (auto simp: tabs xs)
    moreover have "i = j" if "unat i < 1024" "unat j < 1024" "present (pde ?k d i)" "present (pde ?k d j)"
        "page_of (pde ?k d i) = page_of (pde ?k d j)" for i j
      using that pdes [OF that(1)] pdes [OF that(2)] v(2) fresh sp unfolding space_ok_def by (metis (full_types))
    ultimately show ?thesis using pages(2,4) by (auto simp: space_ok_def xs)
  qed
  moreover have "entry ?k d va' = entry k d va'" for va'
  proof (cases "PDX va' = ?i")
    case True
    then show ?thesis using False pdes [OF index_lt(1), of va'] v zero [OF index_lt(2)] by (simp add: entry_def)
  next
    case ne: False
    show ?thesis
    proof (cases "present (pde k d (PDX va'))")
      case True
      have "same_page (kmem_mem ?k) (kmem_mem k) (page_of (pde k d (PDX va')))"
        by (rule frame [OF space_table(2,3) [OF sp True] fresh [OF index_lt(1) True]])
      then show ?thesis using ne True pdes [OF index_lt(1), of va'] load_same_page [OF _ index_unat(2) [OF index_lt(2)]]
        by (simp add: entry_def)
    qed (use ne pdes [OF index_lt(1), of va'] in \<open>simp add: entry_def\<close>)
  qed
  moreover have "set xs' \<union> tables ?k d = set xs \<union> tables k d" by (auto simp: tabs xs)
  moreover have "same_page (kmem_mem ?k) (kmem_mem k) p" if "aligned p" "p \<noteq> d" "p \<notin> set xs" for p
    using frame [OF that(1,2)] that(3) by (simp add: xs)
  ultimately show thesis by (intro that [of ?k xs']) (auto simp: xs)
qed

lemma walk_none:
  assumes "space_ok (ke_end e) k d []" and "\<not> present (pde k d (PDX va))"
  shows "\<exists>k'. walkpgdir e d va True k = Inr (None, k') \<and> space_ok (ke_end e) k' d [] \<and> kmem_mem k' = kmem_mem k"
proof -
  obtain k1 where k1: "kalloc_in e k = Inr (0, k1)" "kmem_inv (ke_end e) k1 []" "kmem_mem k1 = kmem_mem k"
    using kalloc_takes [OF space_pages(1) [OF assms(1)], of "ke_me e" "ke_stack e"] by auto
  have "space_ok (ke_end e) k1 d []" using assms(1) k1(2,3) unfolding space_ok_def tables_def by simp
  then show ?thesis using assms(2) k1(1,3) by (intro exI [of _ k1]) (simp add: walkpgdir_def Let_def present_def)
qed

section \<open>Mapping a range\<close>

definition vpage :: "u32 \<Rightarrow> u32 \<times> u32" where "vpage va = (PDX va, PTX va)"

lemma entry_vpage: "vpage va = vpage va' \<Longrightarrow> entry k d va = entry k d va'"
  by (simp add: vpage_def entry_def)

text \<open>
  What the loop of \<open>mappages\<close> has done when it ends: the first \<open>j\<close> pages are mapped, all of them unless
  the allocator ran out; the other entries are as before; and every page that was free or held a
  table still is one or the other.
\<close>

definition mapped_upto :: "u32 \<Rightarrow> u32 \<Rightarrow> u32 list \<Rightarrow> nat \<Rightarrow> u32 \<Rightarrow> u32 \<Rightarrow> kmem \<Rightarrow> u32 list \<Rightarrow> kmem \<Rightarrow> u32 list \<Rightarrow> bool" where
  "mapped_upto kend d as j pa perm k xs k' xs' \<longleftrightarrow> space_ok kend k' d xs' \<and>
     set xs' \<union> tables k' d = set xs \<union> tables k d \<and> set xs' \<subseteq> set xs \<and>
     (\<forall>p. aligned p \<and> p \<noteq> d \<and> p \<notin> set xs \<and> p \<notin> tables k d \<longrightarrow> same_page (kmem_mem k') (kmem_mem k) p) \<and>
     (\<forall>va. vpage va \<notin> vpage ` set (take j as) \<longrightarrow> entry k' d va = entry k d va) \<and>
     (\<forall>i < j. entry k' d (as ! i) = (pa + word_of_nat i * PGSIZE) OR perm OR PTE_P)"

lemma mappages_loop_ok:
  assumes "space_ok (ke_end e) k d xs" and "\<forall>a \<in> set as. \<not> present (entry k d a)" and "distinct (map vpage as)"
  shows "\<exists>r k' xs' j. mappages_loop e d as pa perm k = Inr (r, k') \<and> j \<le> length as \<and> mapped_upto (ke_end e) d as j pa perm k xs k' xs' \<and>
    (r = 0 \<and> j = length as \<or> r = - 1 \<and> j < length as \<and> xs' = [])"
  using assms
proof (induction as arbitrary: k pa xs)
  case Nil
  then show ?case by (auto simp: mapped_upto_def)
next
  case (Cons a as)
  note sp = Cons.prems(1)
  show ?case
  proof (cases "present (pde k d (PDX a)) \<or> xs \<noteq> []")
    case False
    then obtain k' where k': "walkpgdir e d a True k = Inr (None, k')" "space_ok (ke_end e) k' d []" "kmem_mem k' = kmem_mem k"
      using walk_none [of e k d a] sp by auto
    then have "mapped_upto (ke_end e) d (a # as) 0 pa perm k xs k' []"
      using False by (simp add: mapped_upto_def tables_def entry_def)
    then show ?thesis using k'(1) by (intro exI [of _ "- 1"] exI [of _ k'] exI [of _ "[]"] exI [of _ 0]) simp
  next
    case True
    obtain k1 xs1 where w: "walkpgdir e d a True k = Inr (Some (page_of (pde k1 d (PDX a)) + 4 * PTX a), k1)"
      "present (pde k1 d (PDX a))" "space_ok (ke_end e) k1 d xs1" "\<And>va'. entry k1 d va' = entry k d va'"
      "set xs1 \<union> tables k1 d = set xs \<union> tables k d" "set xs1 \<subseteq> set xs"
      "\<And>p. aligned p \<Longrightarrow> p \<noteq> d \<Longrightarrow> p \<notin> set xs \<Longrightarrow> same_page (kmem_mem k1) (kmem_mem k) p"
      by (rule walk_table [OF sp True]) (rule that)
    let ?pte = "page_of (pde k1 d (PDX a)) + 4 * PTX a" and ?v = "pa OR perm OR PTE_P"
    let ?k2 = "poke ?pte ?v k1"
    note pk = poke_entry [OF w(3,2), where v = ?v]
    have e2: "entry ?k2 d va = (if vpage va = vpage a then ?v else entry k d va)" for va
      using pk(3) [of va] w(4) by (auto simp: vpage_def)
    have "load32 (kmem_mem k1) ?pte = entry k1 d a" using w(2) by (simp add: entry_def)
    then have np: "load32 (kmem_mem k1) ?pte AND PTE_P = 0" using Cons.prems(2) w(4) by (simp add: present_def)
    have "\<forall>b \<in> set as. \<not> present (entry ?k2 d b)" using Cons.prems(2,3) by (auto simp: e2) (metis imageI)
    then obtain r k' xs' j where ih: "mappages_loop e d as (pa + PGSIZE) perm ?k2 = Inr (r, k')" "j \<le> length as"
      "mapped_upto (ke_end e) d as j (pa + PGSIZE) perm ?k2 xs1 k' xs'" "r = 0 \<and> j = length as \<or> r = - 1 \<and> j < length as \<and> xs' = []"
      using Cons.IH [OF pk(1), of "pa + PGSIZE"] Cons.prems(3) by auto
    note m = ih(3) [unfolded mapped_upto_def pk(2)]
    have "mapped_upto (ke_end e) d (a # as) (Suc j) pa perm k xs k' xs'" unfolding mapped_upto_def
    proof (intro conjI allI impI)
      show "space_ok (ke_end e) k' d xs'" "set xs' \<union> tables k' d = set xs \<union> tables k d" "set xs' \<subseteq> set xs" using m w(5,6) by auto
      fix p assume p: "aligned p \<and> p \<noteq> d \<and> p \<notin> set xs \<and> p \<notin> tables k d"
      then have p1: "p \<notin> set xs1" "p \<notin> tables k1 d" using w(5) by auto
      then have "p \<noteq> page_of (pde k1 d (PDX a))" using tables_I [OF index_lt(1) w(2)] by auto
      then have "same_page (kmem_mem ?k2) (kmem_mem k1) p" "same_page (kmem_mem k1) (kmem_mem k) p" using p pk(4) w(7) by blast+
      moreover have "same_page (kmem_mem k') (kmem_mem ?k2) p" using m p p1 by blast
      ultimately show "same_page (kmem_mem k') (kmem_mem k) p" using same_page_trans by blast
    next
      fix va assume "vpage va \<notin> vpage ` set (take (Suc j) (a # as))"
      then have "vpage va \<noteq> vpage a" "vpage va \<notin> vpage ` set (take j as)" by auto
      then show "entry k' d va = entry k d va" using m e2 by simp
    next
      fix i assume i: "i < Suc j"
      show "entry k' d ((a # as) ! i) = (pa + word_of_nat i * PGSIZE) OR perm OR PTE_P"
      proof (cases i)
        case 0
        have "vpage a \<notin> vpage ` set (take j as)" using Cons.prems(3) by (auto dest: in_set_takeD)
        then show ?thesis using m e2 [of a] 0 by simp
      next
        case (Suc n)
        then show ?thesis using m i by (simp add: algebra_simps)
      qed
    qed
    then show ?thesis using w(1) np ih by (intro exI [of _ r] exI [of _ k'] exI [of _ xs'] exI [of _ "Suc j"]) auto
  qed
qed

end
