(* ===== verification/Xv6_Copy.thy ===== *)
theory Xv6_Copy
  imports Xv6_Space
begin

text \<open>
  The user part of an address space: \<open>deallocuvm\<close> and \<open>freevm\<close> give every page back, \<open>setupkvm\<close> makes a
  space without user pages, and \<open>copyuvm\<close> copies the memory of a process.
\<close>

section \<open>Addresses by pages\<close>

lemma drop_bit_unat: "unat (drop_bit n (x :: u32)) = unat x div 2 ^ n"
proof -
  have "unat x < 2 ^ 32" using unsigned_less [of x] by simp
  then have "take_bit 32 (unat x) = unat x" by (rule take_bit_nat_eq_self)
  then show ?thesis by (simp add: unsigned_drop_bit_eq drop_bit_eq_div [where a = "unat x"])
qed

lemma index_values: "unat (PDX va) = unat va div 4096 div 1024" "unat (PTX va) = unat va div 4096 mod 1024"
proof -
  have m: "(0x3FF :: u32) = mask 10" by (simp add: mask_eq_exp_minus_1)
  have a: "unat (x AND mask 10) = unat x mod 1024" for x :: u32
    by (simp add: take_bit_eq_mask [symmetric] take_bit_eq_mod unat_mod)
  have "unat va div 4194304 < 1024" using unsigned_less [of va] by (simp add: div_less_iff_less_mult)
  then show "unat (PDX va) = unat va div 4096 div 1024"
    by (simp add: PDX_def m a drop_bit_unat div_mult2_eq [symmetric])
  show "unat (PTX va) = unat va div 4096 mod 1024" by (simp add: PTX_def m a drop_bit_unat)
qed

lemma vpage_eq: "vpage va = vpage va' \<longleftrightarrow> unat va div 4096 = unat va' div 4096"
  by (auto simp: vpage_def word_unat_eq_iff index_values) (metis div_mult_mod_eq)

lemma page_step:
  assumes "aligned a" and "unat a + 4096 * i < 2 ^ 32"
  shows "unat (a + word_of_nat i * PGSIZE) = unat a + 4096 * i" and "aligned (a + word_of_nat i * PGSIZE)"
proof -
  have "unat (word_of_nat i * PGSIZE :: u32) = 4096 * i"
    using assms(2) by (subst unat_mult_lem [THEN iffD1]) (simp_all add: unat_of_nat)
  then show u: "unat (a + word_of_nat i * PGSIZE) = unat a + 4096 * i" using assms(2) by (subst unat_add_no_wrap) simp_all
  show "aligned (a + word_of_nat i * PGSIZE)"
    using aligned_unat [OF assms(1)] by (simp add: aligned_def word_unat_eq_iff unat_mod u)
qed

lemma vpages_distinct:
  assumes "aligned a" and "unat a + 4096 * n \<le> 2 ^ 32"
  shows "distinct (map vpage (map (\<lambda>i. a + word_of_nat i * PGSIZE) [0..<n]))"
proof -
  have "unat (a + word_of_nat i * PGSIZE) div 4096 = unat a div 4096 + i" if "i < n" for i
    using page_step(1) [OF assms(1), of i] assms(2) that aligned_unat [OF assms(1)] by (simp add: div_plus_div_distrib_dvd_right)
  then show ?thesis by (auto simp: distinct_conv_nth vpage_eq)
qed

section \<open>The pages of a process\<close>

definition user :: "u32 \<Rightarrow> bool" where "user va \<longleftrightarrow> unat va < 2 ^ 31"

definition upages :: "kmem \<Rightarrow> u32 \<Rightarrow> u32 set" where
  "upages k d = {page_of (entry k d va) |va. user va \<and> present (entry k d va)}"

definition owned :: "kmem \<Rightarrow> u32 \<Rightarrow> u32 set" where
  "owned k d = insert d (tables k d \<union> upages k d)"

text \<open>An address space whose user pages are pages of its own, each mapped at one place.\<close>

definition user_ok :: "u32 \<Rightarrow> kmem \<Rightarrow> u32 \<Rightarrow> u32 list \<Rightarrow> bool" where
  "user_ok kend k d xs \<longleftrightarrow> space_ok kend k d xs \<and>
     (\<forall>p \<in> upages k d. page_ok kend p \<and> p \<noteq> d \<and> p \<notin> tables k d \<and> p \<notin> set xs) \<and>
     (\<forall>va va'. user va \<and> user va' \<and> present (entry k d va) \<and> present (entry k d va') \<and>
        page_of (entry k d va) = page_of (entry k d va') \<longrightarrow> vpage va = vpage va')"

lemma upages_I: "user va \<Longrightarrow> present (entry k d va) \<Longrightarrow> page_of (entry k d va) \<in> upages k d"
  by (auto simp: upages_def)

lemma kfree_page:
  assumes "kmem_inv (ke_end e) k xs" and "page_ok (ke_end e) v" and "v \<notin> set xs"
  obtains k' where "kfree_in e v k = Inr k'" and "kmem_inv (ke_end e) k' (v # xs)"
    and "\<And>p. aligned p \<Longrightarrow> p \<noteq> v \<Longrightarrow> same_page (kmem_mem k') (kmem_mem k) p"
proof -
  obtain k' where k': "kfree_in e v k = Inr k'" "kmem_inv (ke_end e) k' (v # xs)"
      "\<forall>a. 4096 \<le> unat (a - v) \<longrightarrow> kmem_mem k' a = kmem_mem k a"
    using kfree_adds [OF assms] by blast
  have "same_page (kmem_mem k') (kmem_mem k) p" if "aligned p" "p \<noteq> v" for p
    unfolding same_page_def
  proof (intro allI impI)
    fix i :: u32 assume i: "unat i < 4096"
    have "4096 \<le> unat (p + i - v)"
      using page_apart [OF that(1) page_ok_aligned [OF assms(2)] that(2) i, of "p + i - v"] by (cases "4096 \<le> unat (p + i - v)") auto
    then show "kmem_mem k' (p + i) = kmem_mem k (p + i)" using k'(3) by blast
  qed
  then show thesis using k' by (intro that [of k']) auto
qed

lemma tables_card: "finite (tables k d)" "card (tables k d) \<le> 1024"
proof -
  have i: "\<exists>n < 1024. i = word_of_nat n" if "unat i < 1024" for i :: u32 using that by (intro exI [of _ "unat i"]) simp
  have sub: "tables k d \<subseteq> (\<lambda>n. page_of (pde k d (word_of_nat n))) ` {..<1024}"
  proof
    fix x assume "x \<in> tables k d"
    then obtain i where "unat i < 1024" "x = page_of (pde k d i)" by (auto simp: tables_def)
    then show "x \<in> (\<lambda>n. page_of (pde k d (word_of_nat n))) ` {..<1024}" using i by blast
  qed
  then show "finite (tables k d)" by (rule finite_subset) simp
  have "card (tables k d) \<le> card ((\<lambda>n. page_of (pde k d (word_of_nat n))) ` {..<1024 :: nat})" by (rule card_mono [OF _ sub]) simp
  also have "\<dots> \<le> card {..<1024 :: nat}" by (rule card_image_le) simp
  finally show "card (tables k d) \<le> 1024" by simp
qed

lemma owned_card:
  assumes "finite (upages k d)"
  shows "card (owned k d) \<le> 1025 + card (upages k d)"
proof -
  have "card (owned k d) \<le> Suc (card (tables k d \<union> upages k d))" unfolding owned_def by (rule card_insert_le_m1) simp_all
  also have "\<dots> \<le> Suc (card (tables k d) + card (upages k d))" using card_Un_le by simp
  finally show ?thesis using tables_card(2) [of k d] by simp
qed

text \<open>What only depends on the pages of the directory and the tables.\<close>

lemma tables_frame:
  assumes sp: "space_ok kend k d xs" and "same_page (kmem_mem k') (kmem_mem k) d"
    and "\<And>p. p \<in> tables k d \<Longrightarrow> same_page (kmem_mem k') (kmem_mem k) p"
  shows "unat i < 1024 \<Longrightarrow> pde k' d i = pde k d i" and "tables k' d = tables k d" and "entry k' d va = entry k d va"
    and "upages k' d = upages k d"
proof -
  show pdes: "pde k' d i = pde k d i" if "unat i < 1024" for i by (rule load_same_page [OF assms(2) index_unat(2) [OF that]])
  then show "tables k' d = tables k d" by (auto simp: tables_def) metis+
  show entries: "entry k' d va = entry k d va" for va
    using load_same_page [OF assms(3) [OF tables_I [OF index_lt(1)]] index_unat(2) [OF index_lt(2)]]
    by (simp add: entry_def pdes [OF index_lt(1)])
  then show "upages k' d = upages k d" by (simp add: upages_def)
qed

section \<open>Giving pages back\<close>

lemma walk_lookup:
  "walkpgdir e d va False k = Inr (if present (pde k d (PDX va)) then Some (page_of (pde k d (PDX va)) + 4 * PTX va) else None, k)"
  by (simp add: walkpgdir_def Let_def present_def page_of_def)

lemma pte_entry: "present (pde k d (PDX va)) \<Longrightarrow> load32 (kmem_mem k) (page_of (pde k d (PDX va)) + 4 * PTX va) = entry k d va"
  by (simp add: entry_def)

lemma user_ok_inj:
  assumes "user_ok kend k d xs" and "user va" and "user va'" and "present (entry k d va)" and "present (entry k d va')"
    and "page_of (entry k d va) = page_of (entry k d va')"
  shows "vpage va = vpage va'"
  using assms unfolding user_ok_def by blast

text \<open>One page: \<open>kfree\<close> and the clearing of its entry.\<close>

lemma unmap_page:
  assumes ok: "user_ok (ke_end e) k d xs" and va: "user va" "present (entry k d va)"
  defines "v \<equiv> page_of (entry k d va)"
  obtains k1 where "kfree_in e v k = Inr k1"
    and "user_ok (ke_end e) (poke (page_of (pde k d (PDX va)) + 4 * PTX va) 0 k1) d (v # xs)"
    and "tables (poke (page_of (pde k d (PDX va)) + 4 * PTX va) 0 k1) d = tables k d"
    and "\<And>va'. entry (poke (page_of (pde k d (PDX va)) + 4 * PTX va) 0 k1) d va' = (if vpage va' = vpage va then 0 else entry k d va')"
    and "insert v (upages (poke (page_of (pde k d (PDX va)) + 4 * PTX va) 0 k1) d) = upages k d"
    and "\<And>p. aligned p \<Longrightarrow> p \<notin> tables k d \<Longrightarrow> p \<noteq> v \<Longrightarrow>
      same_page (kmem_mem (poke (page_of (pde k d (PDX va)) + 4 * PTX va) 0 k1)) (kmem_mem k) p"
proof -
  have sp: "space_ok (ke_end e) k d xs" using ok by (simp add: user_ok_def)
  note pages = space_pages [OF sp]
  have pr: "present (pde k d (PDX va))" using va(2) by (simp add: entry_def split: if_splits)
  have vu: "v \<in> upages k d" unfolding v_def by (rule upages_I [OF va])
  then have v: "page_ok (ke_end e) v" "v \<noteq> d" "v \<notin> tables k d" "v \<notin> set xs" using ok by (auto simp: user_ok_def)
  obtain k1 where k1: "kfree_in e v k = Inr k1" "kmem_inv (ke_end e) k1 (v # xs)"
    "\<And>p. aligned p \<Longrightarrow> p \<noteq> v \<Longrightarrow> same_page (kmem_mem k1) (kmem_mem k) p"
    by (rule kfree_page [OF pages(1) v(1,4)]) (rule that)
  have "same_page (kmem_mem k1) (kmem_mem k) d" using k1(3) [OF pages(3)] v(2) by simp
  moreover have "same_page (kmem_mem k1) (kmem_mem k) p" if "p \<in> tables k d" for p using k1(3) pages(7) [OF that] that v(3) by auto
  ultimately have fr: "\<And>i. unat i < 1024 \<Longrightarrow> pde k1 d i = pde k d i" "tables k1 d = tables k d" "\<And>va. entry k1 d va = entry k d va"
    using tables_frame [OF sp] by blast+
  have sp1: "space_ok (ke_end e) k1 d (v # xs)"
  proof -
    have "i = j" if "unat i < 1024" "unat j < 1024" "present (pde k1 d i)" "present (pde k1 d j)" "page_of (pde k1 d i) = page_of (pde k1 d j)" for i j
      using that sp fr(1) [OF that(1)] fr(1) [OF that(2)] unfolding space_ok_def by metis
    then show ?thesis using k1(2) pages(2,4,7) v(2,3) by (auto simp: space_ok_def fr(2))
  qed
  have pr1: "present (pde k1 d (PDX va))" using pr fr(1) [OF index_lt(1)] by simp
  note pk = poke_entry [OF sp1 pr1, where v = 0, unfolded fr(1) [OF index_lt(1)] fr(2)]
  let ?k = "poke (page_of (pde k d (PDX va)) + 4 * PTX va) 0 k1"
  have e2: "entry ?k d va' = (if vpage va' = vpage va then 0 else entry k d va')" for va' using pk(3) [of va'] fr(3) by (auto simp: vpage_def)
  have up: "insert v (upages ?k d) = upages k d"
  proof -
    have sub: "upages ?k d \<subseteq> upages k d" by (auto simp: upages_def e2)
    have "page_of (entry k d va') \<in> insert v (upages ?k d)" if "user va'" "present (entry k d va')" for va'
    proof (cases "vpage va' = vpage va")
      case True
      show ?thesis unfolding v_def entry_vpage [OF True] by simp
    next
      case False
      then show ?thesis using that upages_I [of va' ?k d] by (simp add: e2)
    qed
    then have "upages k d \<subseteq> insert v (upages ?k d)" by (subst upages_def) blast
    then show ?thesis using vu sub by blast
  qed
  have nv: "v \<notin> upages ?k d"
  proof
    assume "v \<in> upages ?k d"
    then obtain va' where "user va'" "present (entry k d va')" "page_of (entry k d va') = v" "vpage va' \<noteq> vpage va"
      by (auto simp: upages_def e2 split: if_splits)
    then show False using user_ok_inj [OF ok _ va(1) _ va(2)] unfolding v_def by blast
  qed
  have inj: "vpage va1 = vpage va2" if "user va1" "user va2" "present (entry ?k d va1)" "present (entry ?k d va2)"
      "page_of (entry ?k d va1) = page_of (entry ?k d va2)" for va1 va2
  proof -
    have "entry ?k d va1 = entry k d va1" "entry ?k d va2 = entry k d va2" using that(3,4) e2 [of va1] e2 [of va2] by auto
    then show ?thesis using user_ok_inj [OF ok that(1,2)] that(3-5) by simp
  qed
  have "page_ok (ke_end e) p \<and> p \<noteq> d \<and> p \<notin> tables k d \<and> p \<notin> set (v # xs)" if "p \<in> upages ?k d" for p
  proof -
    have "p \<in> upages k d" "p \<noteq> v" using that up nv by blast+
    then show ?thesis using ok by (simp add: user_ok_def)
  qed
  with pk(1) inj have "user_ok (ke_end e) ?k d (v # xs)" unfolding user_ok_def pk(2) by blast
  moreover have "same_page (kmem_mem ?k) (kmem_mem k) p" if "aligned p" "p \<notin> tables k d" "p \<noteq> v" for p
  proof -
    have "p \<noteq> page_of (pde k d (PDX va))" using tables_I [OF index_lt(1) pr] that(2) by auto
    then show ?thesis using same_page_trans [OF pk(4) [OF that(1)] k1(3) [OF that(1,3)]] by simp
  qed
  ultimately show thesis using that [OF k1(1) _ pk(2) e2 up] by blast
qed

text \<open>Where \<open>deallocuvm\<close> goes on after a missing page table.\<close>

lemma next_table:
  assumes "user a"
  shows "unat (PGADDR (PDX a + 1) 0 0) = (unat a div 4194304 + 1) * 4194304"
proof -
  have "unat a div 4194304 < 512" using assms by (simp add: user_def div_less_iff_less_mult)
  then have p: "unat (PDX a + 1) = unat a div 4194304 + 1" "unat (PDX a + 1) \<le> 512"
    by (simp_all add: unat_word_ariths index_values div_mult2_eq [symmetric])
  define i where "i = PDX a + 1"
  have "PGADDR i 0 0 = i * 4194304" by (simp add: PGADDR_def push_bit_eq_mult)
  moreover have "unat (i * 4194304) = unat i * 4194304" using p(2) by (subst unat_mult_lem [THEN iffD1]) (simp_all add: i_def)
  ultimately show ?thesis using p(1) by (simp add: i_def)
qed

text \<open>
  The loop of \<open>deallocuvm\<close> from \<open>a\<close> on: the present entries of the pages up to the size are cleared, and
  their pages are free.
\<close>

definition in_pages :: "u32 \<Rightarrow> u32 \<Rightarrow> u32 \<Rightarrow> bool" where
  "in_pages a b va \<longleftrightarrow> unat a div 4096 \<le> unat va div 4096 \<and> 4096 * (unat va div 4096) < unat b"

definition unmapped :: "kenv \<Rightarrow> u32 \<Rightarrow> u32 \<Rightarrow> u32 \<Rightarrow> kmem \<Rightarrow> u32 list \<Rightarrow> kmem \<Rightarrow> u32 list \<Rightarrow> bool" where
  "unmapped e d a b k xs k' xs' \<longleftrightarrow> user_ok (ke_end e) k' d xs' \<and> tables k' d = tables k d \<and>
     (\<forall>va. entry k' d va = (if in_pages a b va \<and> present (entry k d va) then 0 else entry k d va)) \<and>
     set xs' \<union> upages k' d = set xs \<union> upages k d \<and> set xs \<subseteq> set xs' \<and>
     (\<forall>p. aligned p \<and> p \<notin> tables k d \<and> p \<notin> upages k d \<longrightarrow> same_page (kmem_mem k') (kmem_mem k) p)"

lemma dealloc_loop_ok:
  assumes "user_ok (ke_end e) k d xs" and "aligned a" and "unat oldsz \<le> 2 ^ 31" and "KERNBASE < ke_end e"
  shows "\<exists>k' xs'. dealloc_loop e d a oldsz k = Inr k' \<and> unmapped e d a oldsz k xs k' xs'"
  using assms
proof (induction "unat oldsz - unat a" arbitrary: a k xs rule: less_induct)
  case less
  note ok = less.prems(1)
  obtain q where q: "unat a = 4096 * q" using aligned_unat [OF less.prems(2)] by (auto simp: mod_eq_0_iff_dvd elim!: dvdE)
  show ?case
  proof (cases "a < oldsz")
    case False
    then have "unmapped e d a oldsz k xs k xs" using ok q unfolding unmapped_def in_pages_def
      by (auto simp: word_less_nat_alt not_less)
    then show ?thesis using False by (subst dealloc_loop.simps) auto
  next
    case True
    then have a: "unat a < unat oldsz" "user a" using less.prems(3) by (auto simp: word_less_nat_alt user_def)
    have "4096 * q < 4096 * 524288" using a(1) less.prems(3) q by simp
    then have q19: "q < 524288" by simp
    show ?thesis
    proof (cases "present (pde k d (PDX a))")
      case False
      let ?b = "PGADDR (PDX a + 1) 0 0"
      have b: "unat ?b = (q div 1024 + 1) * 4194304" using next_table [OF a(2)] by (simp add: q div_mult2_eq [symmetric])
      have "q < 1024 + q div 1024 * 1024" by (rule dividend_less_div_times) simp
      then have ab: "unat a < unat ?b" unfolding b q by simp
      have "unat ?b mod 4096 = 0" unfolding b by simp
      then have al: "aligned ?b" by (simp add: aligned_def word_unat_eq_iff unat_mod)
      have "unat oldsz - unat ?b < unat oldsz - unat a" using ab a(1) by linarith
      from less.hyps [OF this ok al less.prems(3,4)] obtain k' xs' where ih: "dealloc_loop e d ?b oldsz k = Inr k'" "unmapped e d ?b oldsz k xs k' xs'"
        by blast
      have absent: "\<not> present (entry k d va)" if "unat a div 4096 \<le> unat va div 4096" "unat va div 4096 < unat ?b div 4096" for va
      proof -
        have "unat ?b div 4096 = (q div 1024 + 1) * 1024" by (simp add: b)
        then have "unat va div 4096 div 1024 = q div 1024" using that by (simp add: q)
        then have "PDX va = PDX a" by (simp add: word_unat_eq_iff index_values q)
        then show ?thesis using False by (simp add: entry_def)
      qed
      have le: "unat a div 4096 \<le> unat ?b div 4096" using ab by (intro div_le_mono) simp
      have same: "in_pages a oldsz va \<and> present (entry k d va) \<longleftrightarrow> in_pages ?b oldsz va \<and> present (entry k d va)" for va
      proof (cases "unat va div 4096 < unat ?b div 4096")
        case True
        then show ?thesis using absent [of va] by (auto simp: in_pages_def)
      next
        case False
        then show ?thesis using le by (auto simp: in_pages_def)
      qed
      have "unmapped e d a oldsz k xs k' xs'" using ih(2) unfolding unmapped_def same .
      moreover have "dealloc_loop e d a oldsz k = dealloc_loop e d ?b oldsz k"
        using True False ab by (subst dealloc_loop.simps) (simp add: walk_lookup word_le_nat_alt)
      ultimately show ?thesis using ih(1) by auto
    next
      case pr: True
      let ?b = "a + PGSIZE" and ?v = "entry k d a" and ?pte = "page_of (pde k d (PDX a)) + 4 * PTX a"
      have b: "unat ?b = 4096 * (q + 1)" using q q19 by (subst unat_add_no_wrap) simp_all
      then have al: "aligned ?b" by (simp add: aligned_def word_unat_eq_iff unat_mod)
      have lt: "unat oldsz - unat ?b < unat oldsz - unat a" using a(1) by (simp add: b q)
      have nw: "\<not> ?b \<le> a" by (simp add: word_le_nat_alt b q)
      have split: "in_pages a oldsz va \<longleftrightarrow> vpage va = vpage a \<or> in_pages ?b oldsz va" for va
        using a(1) by (auto simp: in_pages_def vpage_eq b q)
      show ?thesis
      proof (cases "present ?v")
        case False
        from less.hyps [OF lt ok al less.prems(3,4)] obtain k' xs' where ih: "dealloc_loop e d ?b oldsz k = Inr k'" "unmapped e d ?b oldsz k xs k' xs'"
          by blast
        have same: "in_pages a oldsz va \<and> present (entry k d va) \<longleftrightarrow> in_pages ?b oldsz va \<and> present (entry k d va)" for va
          using False entry_vpage [of va a k d] by (auto simp: split)
        have "unmapped e d a oldsz k xs k' xs'" using ih(2) unfolding unmapped_def same .
        moreover have "dealloc_loop e d a oldsz k = dealloc_loop e d ?b oldsz k"
          using True pr False nw by (subst dealloc_loop.simps) (simp add: walk_lookup pte_entry Let_def present_def)
        ultimately show ?thesis using ih(1) by auto
      next
        case pv: True
        obtain k1 where k1: "kfree_in e (page_of ?v) k = Inr k1" "user_ok (ke_end e) (poke ?pte 0 k1) d (page_of ?v # xs)"
          "tables (poke ?pte 0 k1) d = tables k d" "\<And>va'. entry (poke ?pte 0 k1) d va' = (if vpage va' = vpage a then 0 else entry k d va')"
          "insert (page_of ?v) (upages (poke ?pte 0 k1) d) = upages k d"
          "\<And>p. aligned p \<Longrightarrow> p \<notin> tables k d \<Longrightarrow> p \<noteq> page_of ?v \<Longrightarrow> same_page (kmem_mem (poke ?pte 0 k1)) (kmem_mem k) p"
          by (rule unmap_page [OF ok a(2) pv]) (rule that)
        let ?k = "poke ?pte 0 k1"
        from less.hyps [OF lt k1(2) al less.prems(3,4)] obtain k' xs' where ih: "dealloc_loop e d ?b oldsz ?k = Inr k'"
          "unmapped e d ?b oldsz ?k (page_of ?v # xs) k' xs'" by blast
        note un = ih(2) [unfolded unmapped_def k1(3)]
        have vu: "page_of ?v \<in> upages k d" by (rule upages_I [OF a(2) pv])
        have "unmapped e d a oldsz k xs k' xs'" unfolding unmapped_def
        proof (intro conjI allI impI)
          show "user_ok (ke_end e) k' d xs'" "tables k' d = tables k d" using un by blast+
          show "set xs' \<union> upages k' d = set xs \<union> upages k d" "set xs \<subseteq> set xs'" using un k1(5) by auto
          show "entry k' d va = (if in_pages a oldsz va \<and> present (entry k d va) then 0 else entry k d va)" for va
          proof (cases "vpage va = vpage a")
            case True
            then show ?thesis using un entry_vpage [OF True, of k d] pv by (simp add: k1(4) split)
          next
            case False
            then show ?thesis using un by (simp add: k1(4) split)
          qed
          fix p assume p: "aligned p \<and> p \<notin> tables k d \<and> p \<notin> upages k d"
          then have "p \<noteq> page_of ?v" "p \<notin> upages ?k d" using vu k1(5) by auto
          then have "same_page (kmem_mem ?k) (kmem_mem k) p" "same_page (kmem_mem k') (kmem_mem ?k) p" using p un k1(6) by blast+
          then show "same_page (kmem_mem k') (kmem_mem k) p" using same_page_trans by blast
        qed
        moreover have "PTE_ADDR ?v \<noteq> 0"
        proof
          assume "PTE_ADDR ?v = 0"
          then have "page_of ?v = KERNBASE" by (simp add: page_of_def P2V_def)
          moreover have "page_ok (ke_end e) (page_of ?v)" using ok vu by (simp add: user_ok_def)
          ultimately have "ke_end e \<le> KERNBASE" by (simp add: page_ok_def)
          then show False using less.prems(4) by (metis leD)
        qed
        then have "dealloc_loop e d a oldsz k = dealloc_loop e d ?b oldsz ?k"
          using True pr pv nw k1(1) [unfolded page_of_def [of ?v]]
          by (subst dealloc_loop.simps) (simp add: walk_lookup pte_entry [OF pr] Let_def present_def)
        ultimately show ?thesis using ih(1) by auto
      qed
    qed
  qed
qed

lemma KERNBASE_unat [simp]: "unat KERNBASE = 2 ^ 31"
  by (simp add: KERNBASE_def)

lemma space_ok_inj:
  assumes "space_ok kend k d xs" and "unat i < 1024" and "unat j < 1024" and "present (pde k d i)" and "present (pde k d j)"
    and "page_of (pde k d i) = page_of (pde k d j)"
  shows "i = j"
  using assms unfolding space_ok_def by blast

text \<open>The loop of \<open>freevm\<close> over the page directory.\<close>

lemma free_tables:
  assumes "space_ok (ke_end e) k d xs"
  shows "\<exists>k' ys. loopE (\<lambda>i k. let v = pde k d (word_of_nat i) in if v AND PTE_P \<noteq> 0 then kfree_in e (P2V (PTE_ADDR v)) k else Inr k)
      [0..<NPDENTRIES] k = Inr k' \<and> kmem_inv (ke_end e) k' ys \<and> set ys = set xs \<union> tables k d \<and>
    (\<forall>p. aligned p \<and> p \<notin> tables k d \<longrightarrow> same_page (kmem_mem k') (kmem_mem k) p)"
proof -
  note pages = space_pages [OF assms]
  define T where "T n = {page_of (pde k d (word_of_nat i)) |i. i < n \<and> present (pde k d (word_of_nat i))}" for n
  define P where "P n k' \<longleftrightarrow> (\<exists>ys. kmem_inv (ke_end e) k' ys \<and> set ys = set xs \<union> T n) \<and>
    (\<forall>p. aligned p \<and> p \<notin> tables k d \<longrightarrow> same_page (kmem_mem k') (kmem_mem k) p)" for n and k' :: kmem
  have u: "unat (word_of_nat i :: u32) = i" if "i < 1024" for i using that by (simp add: unat_of_nat)
  have TN: "T 1024 = tables k d"
  proof -
    have "\<exists>n < 1024. i = word_of_nat n" if "unat i < 1024" for i :: u32 using that by (intro exI [of _ "unat i"]) simp
    then show ?thesis using u unfolding T_def tables_def by (metis (no_types, lifting))
  qed
  have "\<exists>k'. loopE (\<lambda>i k. let v = pde k d (word_of_nat i) in if v AND PTE_P \<noteq> 0 then kfree_in e (P2V (PTE_ADDR v)) k else Inr k)
      [0..<1024] k = Inr k' \<and> P 1024 k'"
  proof (rule loopE_upt_total [where P = P])
    show "P 0 k" using pages(1) by (auto simp: P_def T_def)
    fix i k' assume i: "i < 1024" and P: "P i k'"
    then obtain ys where ys: "kmem_inv (ke_end e) k' ys" "set ys = set xs \<union> T i" by (auto simp: P_def)
    have fr: "aligned p \<Longrightarrow> p \<notin> tables k d \<Longrightarrow> same_page (kmem_mem k') (kmem_mem k) p" for p using P by (auto simp: P_def)
    have d: "d \<notin> tables k d" using pages(7) by blast
    have same: "pde k' d (word_of_nat i) = pde k d (word_of_nat i)"
      by (rule load_same_page [OF fr [OF pages(3) d] index_unat(2)]) (use i u in simp)
    let ?v = "pde k d (word_of_nat i)"
    have TS: "T (Suc i) = (if present ?v then insert (page_of ?v) (T i) else T i)" by (auto simp: T_def less_Suc_eq)
    show "\<exists>s'. (let v = pde k' d (word_of_nat i) in if v AND PTE_P \<noteq> 0 then kfree_in e (P2V (PTE_ADDR v)) k' else Inr k') = Inr s' \<and> P (Suc i) s'"
    proof (cases "present ?v")
      case False
      then show ?thesis using P same by (simp add: P_def TS) (simp add: present_def)
    next
      case True
      have t: "page_of ?v \<in> tables k d" using i u by (intro tables_I True) simp
      have "page_of ?v \<notin> T i"
      proof
        assume "page_of ?v \<in> T i"
        then obtain j where j: "j < i" "present (pde k d (word_of_nat j))" "page_of ?v = page_of (pde k d (word_of_nat j))" by (auto simp: T_def)
        then have "(word_of_nat i :: u32) = word_of_nat j"
          using space_ok_inj [OF assms, of "word_of_nat i" "word_of_nat j"] True i u [of i] u [of j] by simp
        then show False using u [of i] u [of j] i j(1) by simp
      qed
      then have "page_of ?v \<notin> set ys" using ys(2) pages(7) [OF t] by simp
      then obtain k2 where k2: "kfree_in e (page_of ?v) k' = Inr k2" "kmem_inv (ke_end e) k2 (page_of ?v # ys)"
        "\<And>p. aligned p \<Longrightarrow> p \<noteq> page_of ?v \<Longrightarrow> same_page (kmem_mem k2) (kmem_mem k') p"
        using kfree_page [OF ys(1)] pages(7) [OF t] by blast
      have "P (Suc i) k2" unfolding P_def
      proof (intro conjI allI impI)
        show "\<exists>ys. kmem_inv (ke_end e) k2 ys \<and> set ys = set xs \<union> T (Suc i)"
          using k2(2) True ys(2) by (intro exI [of _ "page_of ?v # ys"]) (simp add: TS)
        fix p assume p: "aligned p \<and> p \<notin> tables k d"
        then have "p \<noteq> page_of ?v" using t by auto
        then show "same_page (kmem_mem k2) (kmem_mem k) p" using p same_page_trans [OF k2(3) fr] by blast
      qed
      then show ?thesis using k2(1) True same by (simp add: present_def page_of_def)
    qed
  qed simp
  then show ?thesis unfolding P_def TN NPDENTRIES_def by blast
qed

lemma user_in_pages: "in_pages 0 KERNBASE va \<longleftrightarrow> user va"
proof -
  have "4096 * (unat va div 4096) < 4096 * 524288 \<longleftrightarrow> unat va < 4096 * 524288" by (simp add: div_less_iff_less_mult)
  then show ?thesis by (simp add: in_pages_def user_def)
qed

lemma freevm_ok:
  assumes ok: "user_ok (ke_end e) k d xs" and ke: "KERNBASE < ke_end e"
  shows "\<exists>k' ys. freevm e d k = Inr k' \<and> kmem_inv (ke_end e) k' ys \<and> set ys = set xs \<union> owned k d \<and>
    (\<forall>p. aligned p \<and> p \<notin> owned k d \<longrightarrow> same_page (kmem_mem k') (kmem_mem k) p)"
proof -
  have al: "aligned 0" by (simp add: aligned_def)
  obtain k1 xs1 where k1: "dealloc_loop e d 0 KERNBASE k = Inr k1" "unmapped e d 0 KERNBASE k xs k1 xs1"
    using dealloc_loop_ok [OF ok al _ ke, of KERNBASE] by auto
  note un = k1(2) [unfolded unmapped_def user_in_pages]
  have sp1: "space_ok (ke_end e) k1 d xs1" using un by (simp add: user_ok_def)
  have t1: "tables k1 d = tables k d" using un by blast
  note pages = space_pages [OF sp1]
  have "upages k1 d = {}" using un by (auto simp: upages_def)
  then have xs1: "set xs1 = set xs \<union> upages k d" using un by simp
  obtain k2 ys where k2: "loopE (\<lambda>i k. let v = pde k d (word_of_nat i) in if v AND PTE_P \<noteq> 0 then kfree_in e (P2V (PTE_ADDR v)) k else Inr k)
      [0..<NPDENTRIES] k1 = Inr k2" "kmem_inv (ke_end e) k2 ys" "set ys = set xs1 \<union> tables k d"
      "\<And>p. aligned p \<Longrightarrow> p \<notin> tables k d \<Longrightarrow> same_page (kmem_mem k2) (kmem_mem k1) p"
    using free_tables [OF sp1, unfolded t1] by blast
  have "d \<notin> tables k d" using pages(7) un by auto
  then have "d \<notin> set ys" using k2(3) pages(4) by simp
  then obtain k3 where k3: "kfree_in e d k2 = Inr k3" "kmem_inv (ke_end e) k3 (d # ys)"
      "\<And>p. aligned p \<Longrightarrow> p \<noteq> d \<Longrightarrow> same_page (kmem_mem k3) (kmem_mem k2) p"
    using kfree_page [OF k2(2) pages(2)] by blast
  have "PGROUNDUP 0 = 0" by (simp add: PGROUNDUP_def PGSIZE_def)
  moreover have "\<not> KERNBASE \<le> 0" by (simp add: KERNBASE_def)
  ultimately have "deallocuvm e d KERNBASE 0 k = Inr (0, k1)" using k1(1) by (simp add: deallocuvm_def)
  then have "freevm e d k = Inr k3" using k2(1) k3(1) page_nonzero [OF pages(2)] by (simp add: freevm_def)
  moreover have "set (d # ys) = set xs \<union> owned k d" using k2(3) xs1 by (auto simp: owned_def)
  moreover have "same_page (kmem_mem k3) (kmem_mem k) p" if "aligned p" "p \<notin> owned k d" for p
  proof -
    have "p \<noteq> d" "p \<notin> tables k d" "p \<notin> upages k d" using that(2) by (auto simp: owned_def)
    then have "same_page (kmem_mem k3) (kmem_mem k2) p" "same_page (kmem_mem k2) (kmem_mem k1) p" "same_page (kmem_mem k1) (kmem_mem k) p"
      using that(1) k3(3) k2(4) un by blast+
    then show ?thesis using same_page_trans by blast
  qed
  ultimately show ?thesis using k3(2) by (intro exI [of _ k3] exI [of _ "d # ys"]) simp
qed

section \<open>A new address space\<close>

text \<open>What the linker has to see to: the kernel's data lies behind its text, on a page boundary, below the end of memory.\<close>

definition env_ok :: "kenv \<Rightarrow> bool" where
  "env_ok e \<longleftrightarrow> aligned (ke_data e) \<and> KERNLINK < ke_data e \<and> ke_data e < P2V PHYSTOP \<and> KERNBASE < ke_end e"

lemma PGROUNDDOWN_unat: "unat (PGROUNDDOWN a) = 4096 * (unat a div 4096)"
proof -
  have le: "PGROUNDDOWN a \<le> a" unfolding PGROUNDDOWN_def by (rule word_and_le2)
  then have "unat a - unat (PGROUNDDOWN a) = unat a mod 4096" using page_part(2) [of a] by (simp add: unat_sub)
  moreover have "unat (PGROUNDDOWN a) \<le> unat a" using le by (simp add: word_le_nat_alt)
  ultimately have "unat (PGROUNDDOWN a) = unat a - unat a mod 4096" by linarith
  then show ?thesis by (simp only: minus_mod_eq_mult_div)
qed

lemma range_pages:
  assumes "aligned virt" and "aligned sz" and "0 < unat sz" and "unat virt + unat sz \<le> 2 ^ 32"
  shows "pages_to (PGROUNDDOWN virt) (PGROUNDDOWN (virt + sz - 1)) = map (\<lambda>i. virt + word_of_nat i * PGSIZE) [0..<unat sz div 4096]"
proof -
  obtain p q where pq: "unat virt = 4096 * p" "unat sz = 4096 * q"
    using aligned_unat [OF assms(1)] aligned_unat [OF assms(2)] by (auto simp: mod_eq_0_iff_dvd elim!: dvdE)
  have q: "0 < q" using assms(3) pq by simp
  have "unat (sz - 1) = 4096 * q - 1" using assms(3) pq by (subst unat_sub) (simp_all add: word_le_nat_alt)
  then have "unat (virt + (sz - 1)) = 4096 * p + (4096 * q - 1)"
    using assms(4) pq q by (subst unat_add_no_wrap) simp_all
  moreover have "4096 * p + (4096 * q - 1) = 4096 * (p + q - 1) + 4095" using q by (simp add: algebra_simps)
  ultimately have "unat (virt + sz - 1) div 4096 = p + q - 1" by (simp add: add_diff_eq)
  then have last: "unat (PGROUNDDOWN (virt + sz - 1)) = 4096 * (p + q - 1)" by (simp add: PGROUNDDOWN_unat)
  have first: "PGROUNDDOWN virt = virt" by (simp add: word_unat_eq_iff PGROUNDDOWN_unat pq)
  have "unat (PGROUNDDOWN (virt + sz - 1) - virt) = 4096 * (q - 1)"
    using q by (subst unat_sub) (simp_all add: word_le_nat_alt last pq flip: diff_mult_distrib2)
  then have "Suc (unat (PGROUNDDOWN (virt + sz - 1) - virt) div 4096) = unat sz div 4096" using q by (simp add: pq)
  then show ?thesis unfolding first pages_to_def by simp
qed

lemma range_vpages:
  assumes "aligned virt" and "aligned sz" and "unat virt + unat sz \<le> 2 ^ 32"
  shows "vpage va \<in> vpage ` set (map (\<lambda>i. virt + word_of_nat i * PGSIZE) [0..<unat sz div 4096]) \<longleftrightarrow>
    unat virt \<le> unat va \<and> unat va < unat virt + unat sz"
proof -
  obtain p q where pq: "unat virt = 4096 * p" "unat sz = 4096 * q"
    using aligned_unat [OF assms(1)] aligned_unat [OF assms(2)] by (auto simp: mod_eq_0_iff_dvd elim!: dvdE)
  have u: "unat (virt + word_of_nat i * PGSIZE) div 4096 = p + i" if "i < q" for i
    using page_step(1) [OF assms(1), of i] assms(3) pq that by simp
  have "vpage va \<in> vpage ` set (map (\<lambda>i. virt + word_of_nat i * PGSIZE) [0..<q]) \<longleftrightarrow> (\<exists>i < q. unat va div 4096 = p + i)"
    using u by (auto simp: image_iff vpage_eq)
  also have "\<dots> \<longleftrightarrow> p \<le> unat va div 4096 \<and> unat va div 4096 < p + q"
    by (auto intro: exI [of _ "unat va div 4096 - p"])
  also have "\<dots> \<longleftrightarrow> unat virt \<le> unat va \<and> unat va < unat virt + unat sz"
    by (simp add: pq less_eq_div_iff_mult_less_eq div_less_iff_less_mult algebra_simps)
  finally show ?thesis by (simp add: pq)
qed

text \<open>Mapping a range of the kernel into a space without user pages.\<close>

definition bare :: "u32 \<Rightarrow> kmem \<Rightarrow> u32 \<Rightarrow> u32 list \<Rightarrow> bool" where
  "bare kend k d xs \<longleftrightarrow> space_ok kend k d xs \<and> (\<forall>va. user va \<longrightarrow> \<not> present (entry k d va))"

lemma bare_user: "bare kend k d xs \<Longrightarrow> user_ok kend k d xs" "bare kend k d xs \<Longrightarrow> upages k d = {}"
  by (auto simp: bare_def user_ok_def upages_def)

lemma map_range:
  assumes bare: "bare (ke_end e) k d xs" and v: "aligned virt" "2 ^ 31 \<le> unat virt" and sz: "aligned sz" "0 < unat sz" "unat virt + unat sz \<le> 2 ^ 32"
    and absent: "\<And>va. unat virt \<le> unat va \<Longrightarrow> unat va < unat virt + unat sz \<Longrightarrow> \<not> present (entry k d va)"
  shows "\<exists>r k' xs'. mappages e d virt sz pa perm k = Inr (r, k') \<and> bare (ke_end e) k' d xs' \<and> set xs' \<union> tables k' d = set xs \<union> tables k d \<and>
    set xs' \<subseteq> set xs \<and> (\<forall>p. aligned p \<and> p \<noteq> d \<and> p \<notin> set xs \<and> p \<notin> tables k d \<longrightarrow> same_page (kmem_mem k') (kmem_mem k) p) \<and>
    (r = 0 \<or> r = - 1 \<and> xs' = []) \<and> (\<forall>va. \<not> (unat virt \<le> unat va \<and> unat va < unat virt + unat sz) \<longrightarrow> entry k' d va = entry k d va)"
proof -
  let ?as = "map (\<lambda>i. virt + word_of_nat i * PGSIZE) [0..<unat sz div 4096]"
  have sp: "space_ok (ke_end e) k d xs" using bare by (simp add: bare_def)
  have n: "unat virt + 4096 * (unat sz div 4096) \<le> 2 ^ 32" using sz(3) by (metis add_left_mono le_trans times_div_less_eq_dividend)
  note in_as = range_vpages [OF v(1) sz(1,3)]
  have "\<not> present (entry k d a)" if "a \<in> set ?as" for a using in_as [of a] that by (intro absent) (metis imageI)+
  then obtain r k' xs' j where m: "mappages_loop e d ?as pa perm k = Inr (r, k')" "mapped_upto (ke_end e) d ?as j pa perm k xs k' xs'"
      "r = 0 \<or> r = - 1 \<and> xs' = []"
    using mappages_loop_ok [OF sp _ vpages_distinct [OF v(1) n], of pa perm] by blast
  note mu = m(2) [unfolded mapped_upto_def]
  have out: "entry k' d va = entry k d va" if "\<not> (unat virt \<le> unat va \<and> unat va < unat virt + unat sz)" for va
  proof -
    have "vpage va \<notin> vpage ` set (take j ?as)" using in_as [of va] that by (auto dest!: in_set_takeD)
    then show ?thesis using mu by blast
  qed
  have "bare (ke_end e) k' d xs'" using mu bare out v(2) unfolding bare_def user_def by (metis leD le_less_trans)
  moreover have "mappages e d virt sz pa perm k = Inr (r, k')" using m(1) range_pages [OF v(1) sz] by (simp add: mappages_def)
  ultimately show ?thesis using mu m(3) out by (intro exI [of _ r] exI [of _ k'] exI [of _ xs']) blast
qed

text \<open>The rest of a list of ranges, each behind the one before it.\<close>

fun ranges_ok :: "nat \<Rightarrow> (u32 \<times> u32 \<times> u32 \<times> u32) list \<Rightarrow> bool" where
  "ranges_ok n [] \<longleftrightarrow> True"
| "ranges_ok n ((virt, start, stop, perm) # ms) \<longleftrightarrow> aligned virt \<and> n \<le> unat virt \<and> aligned (stop - start) \<and> 0 < unat (stop - start) \<and>
     unat virt + unat (stop - start) \<le> 2 ^ 32 \<and> ranges_ok (unat virt + unat (stop - start)) ms"

lemma setupkvm_loop_ok:
  assumes "bare (ke_end e) k d xs" and "KERNBASE < ke_end e" and "ranges_ok n ms" and "2 ^ 31 \<le> n"
    and "\<And>va. n \<le> unat va \<Longrightarrow> \<not> present (entry k d va)"
  shows "\<exists>r k' xs'. setupkvm_loop e d ms k = Inr (r, k') \<and>
    (\<forall>p. aligned p \<and> p \<noteq> d \<and> p \<notin> set xs \<and> p \<notin> tables k d \<longrightarrow> same_page (kmem_mem k') (kmem_mem k) p) \<and>
    (r = 0 \<and> kmem_inv (ke_end e) k' xs' \<and> set xs' = insert d (set xs \<union> tables k d) \<and> card (set xs \<union> tables k d) \<le> 1024 \<or>
     r = d \<and> bare (ke_end e) k' d xs' \<and> set xs' \<union> tables k' d = set xs \<union> tables k d \<and> set xs' \<subseteq> set xs)"
  using assms
proof (induction ms arbitrary: k xs n)
  case Nil
  then show ?case by (intro exI [of _ d] exI [of _ k] exI [of _ xs]) simp
next
  case (Cons m ms)
  obtain virt start stop perm where mm: "m = (virt, start, stop, perm)" by (cases m)
  have rg: "aligned virt" "n \<le> unat virt" "aligned (stop - start)" "0 < unat (stop - start)" "unat virt + unat (stop - start) \<le> 2 ^ 32"
    "ranges_ok (unat virt + unat (stop - start)) ms" using Cons.prems(3) by (simp_all add: mm)
  have v: "2 ^ 31 \<le> unat virt" using rg(2) Cons.prems(4) by simp
  obtain r k1 xs1 where m1: "mappages e d virt (stop - start) start perm k = Inr (r, k1)" "bare (ke_end e) k1 d xs1"
    "set xs1 \<union> tables k1 d = set xs \<union> tables k d" "set xs1 \<subseteq> set xs"
    "\<And>p. aligned p \<Longrightarrow> p \<noteq> d \<Longrightarrow> p \<notin> set xs \<Longrightarrow> p \<notin> tables k d \<Longrightarrow> same_page (kmem_mem k1) (kmem_mem k) p" "r = 0 \<or> r = - 1 \<and> xs1 = []"
    "\<And>va. \<not> (unat virt \<le> unat va \<and> unat va < unat virt + unat (stop - start)) \<Longrightarrow> entry k1 d va = entry k d va"
    using map_range [OF Cons.prems(1) rg(1) v rg(3-5) Cons.prems(5), of start perm] rg(2) by auto
  show ?case
  proof (cases "r = 0")
    case True
    have "\<not> present (entry k1 d va)" if "unat virt + unat (stop - start) \<le> unat va" for va
      using m1(7) [of va] Cons.prems(5) [of va] that rg(2) by simp
    moreover have "2 ^ 31 \<le> unat virt + unat (stop - start)" using v by simp
    ultimately obtain r' k' xs' where ih: "setupkvm_loop e d ms k1 = Inr (r', k')"
      "\<And>p. aligned p \<Longrightarrow> p \<noteq> d \<Longrightarrow> p \<notin> set xs1 \<Longrightarrow> p \<notin> tables k1 d \<Longrightarrow> same_page (kmem_mem k') (kmem_mem k1) p"
      "r' = 0 \<and> kmem_inv (ke_end e) k' xs' \<and> set xs' = insert d (set xs1 \<union> tables k1 d) \<and> card (set xs1 \<union> tables k1 d) \<le> 1024 \<or>
       r' = d \<and> bare (ke_end e) k' d xs' \<and> set xs' \<union> tables k' d = set xs1 \<union> tables k1 d \<and> set xs' \<subseteq> set xs1"
      using Cons.IH [OF m1(2) Cons.prems(2) rg(6)] by blast
    have "same_page (kmem_mem k') (kmem_mem k) p" if p: "aligned p" "p \<noteq> d" "p \<notin> set xs" "p \<notin> tables k d" for p
    proof -
      have "p \<notin> set xs1" "p \<notin> tables k1 d" using p(3,4) m1(3) by blast+
      then show ?thesis using same_page_trans [OF ih(2) [OF p(1,2)] m1(5) [OF p]] by blast
    qed
    moreover have "setupkvm_loop e d (m # ms) k = Inr (r', k')" using m1(1) True ih(1) by (simp add: mm)
    ultimately show ?thesis using ih(3) m1(3,4) by (intro exI [of _ r'] exI [of _ k'] exI [of _ xs']) auto
  next
    case False
    obtain k' ys where f: "freevm e d k1 = Inr k'" "kmem_inv (ke_end e) k' ys" "set ys = set xs1 \<union> owned k1 d"
      "\<And>p. aligned p \<Longrightarrow> p \<notin> owned k1 d \<Longrightarrow> same_page (kmem_mem k') (kmem_mem k1) p"
      using freevm_ok [OF bare_user(1) [OF m1(2)] Cons.prems(2)] by blast
    have own: "owned k1 d = insert d (tables k1 d)" using bare_user(2) [OF m1(2)] by (simp add: owned_def)
    have "same_page (kmem_mem k') (kmem_mem k) p" if p: "aligned p" "p \<noteq> d" "p \<notin> set xs" "p \<notin> tables k d" for p
    proof -
      have "p \<notin> owned k1 d" using p(2-4) m1(3) unfolding own by blast
      then show ?thesis using same_page_trans [OF f(4) [OF p(1)] m1(5) [OF p]] by blast
    qed
    moreover have "setupkvm_loop e d (m # ms) k = Inr (0, k')" using m1(1,6) False f(1) by (simp add: mm)
    moreover have "set ys = insert d (set xs \<union> tables k d)" using f(3) m1(3) unfolding own by blast
    moreover have "set xs \<union> tables k d = tables k1 d" using m1(3,6) False by auto
    then have "card (set xs \<union> tables k d) \<le> 1024" using tables_card(2) by simp
    ultimately show ?thesis using f(2) by (intro exI [of _ 0] exI [of _ k'] exI [of _ ys]) simp
  qed
qed

lemma kmap_ok:
  assumes "env_ok e"
  shows "ranges_ok (2 ^ 31) (kmap e)"
proof -
  let ?d = "ke_data e"
  have d: "aligned ?d" "2148532224 < unat ?d" "unat ?d < 2382364672"
    using assms by (simp_all add: env_ok_def KERNLINK_def KERNBASE_def EXTMEM_def P2V_def PHYSTOP_def word_less_nat_alt)
  obtain q where q: "unat ?d = 4096 * q" using aligned_unat [OF d(1)] by (auto simp: mod_eq_0_iff_dvd elim!: dvdE)
  have c: "KERNBASE = 0x80000000" "V2P KERNLINK = 0x100000" "KERNLINK = 0x80100000" by (simp_all add: KERNLINK_def KERNBASE_def EXTMEM_def V2P_def)
  have s2: "unat (V2P ?d - V2P KERNLINK) = unat ?d - 2148532224"
  proof -
    have "V2P ?d - V2P KERNLINK = ?d - 0x80100000" by (simp add: V2P_def KERNLINK_def KERNBASE_def EXTMEM_def)
    then show ?thesis using d by (simp add: unat_sub word_le_nat_alt)
  qed
  have s3: "unat (PHYSTOP - V2P ?d) = 2382364672 - unat ?d"
  proof -
    have "PHYSTOP - V2P ?d = 0x8E000000 - ?d" by (simp add: V2P_def PHYSTOP_def KERNBASE_def)
    then show ?thesis using d by (simp add: unat_sub word_le_nat_alt)
  qed
  have al: "aligned x \<longleftrightarrow> unat x mod 4096 = 0" for x by (simp add: aligned_def word_unat_eq_iff unat_mod)
  have "(unat ?d - 2148532224) mod 4096 = 0" "(2382364672 - unat ?d) mod 4096 = 0"
    using d unfolding q by (simp_all add: mod_eq_0_iff_dvd dvd_diff_nat)
  then show ?thesis using d s2 s3 by (simp add: kmap_def al c) (simp add: EXTMEM_def DEVSPACE_def)
qed

lemma setupkvm_ok:
  assumes inv: "kmem_inv (ke_end e) k xs" and env: "env_ok e"
  shows "\<exists>d k' xs'. setupkvm e k = Inr (d, k') \<and> kmem_inv (ke_end e) k' xs' \<and>
    (\<forall>p. aligned p \<and> p \<notin> set xs \<longrightarrow> same_page (kmem_mem k') (kmem_mem k) p) \<and>
    (d = 0 \<and> set xs' = set xs \<and> length xs \<le> 1025 \<or> d \<noteq> 0 \<and> bare (ke_end e) k' d xs' \<and> set xs' \<union> owned k' d = set xs)"
proof -
  have ke: "KERNBASE < ke_end e" using env by (simp add: env_ok_def)
  obtain k1 where k1: "kalloc_in e k = Inr (case xs of [] \<Rightarrow> 0 | x # _ \<Rightarrow> x, k1)" "kmem_inv (ke_end e) k1 (tl xs)" "kmem_mem k1 = kmem_mem k"
    using kalloc_takes [OF inv, of "ke_me e" "ke_stack e"] by auto
  show ?thesis
  proof (cases xs)
    case Nil
    then show ?thesis using k1 by (intro exI [of _ 0] exI [of _ k1] exI [of _ "[]"]) (simp add: setupkvm_def)
  next
    case (Cons d xs1)
    have d: "page_ok (ke_end e) d" "aligned d" "d \<notin> set xs1" "d \<noteq> 0" using inv page_nonzero by (auto simp: kmem_inv_def Cons page_ok_def)
    let ?k = "zero_page d k1"
    have mem: "kmem_mem ?k = fill (kmem_mem k) d 0 4096" by (simp add: zero_page_def k1(3))
    have "kmem_inv (ke_end e) (k1\<lparr>kmem_mem := kmem_mem ?k\<rparr>) xs1"
    proof (rule kmem_inv_frame)
      show "kmem_inv (ke_end e) k1 xs1" using k1(2) Cons by simp
      fix x assume x: "x \<in> set xs1"
      then have "aligned x" "x \<noteq> d" using inv d(3) by (auto simp: kmem_inv_def Cons page_ok_def)
      then show "same_page (kmem_mem ?k) (kmem_mem k1) x" unfolding mem k1(3) using fill_same_page [OF _ d(2)] by simp
    qed
    then have inv1: "kmem_inv (ke_end e) ?k xs1" by (simp add: zero_page_def)
    have z: "pde ?k d i = 0" if "unat i < 1024" for i unfolding mem by (rule load_fill_zero [OF index_unat(2) [OF that]])
    then have t: "tables ?k d = {}" and en: "entry ?k d va = 0" for va using index_lt by (auto simp: tables_def entry_def)
    have "bare (ke_end e) ?k d xs1" using inv1 d z by (auto simp: bare_def space_ok_def t en)
    from setupkvm_loop_ok [OF this ke kmap_ok [OF env]] obtain r k' xs' where m: "setupkvm_loop e d (kmap e) ?k = Inr (r, k')"
      "\<And>p. aligned p \<Longrightarrow> p \<noteq> d \<Longrightarrow> p \<notin> set xs1 \<Longrightarrow> same_page (kmem_mem k') (kmem_mem ?k) p"
      "r = 0 \<and> kmem_inv (ke_end e) k' xs' \<and> set xs' = insert d (set xs1) \<and> card (set xs1) \<le> 1024 \<or>
       r = d \<and> bare (ke_end e) k' d xs' \<and> set xs' \<union> tables k' d = set xs1 \<and> set xs' \<subseteq> set xs1"
      unfolding t en by auto
    have "same_page (kmem_mem k') (kmem_mem k) p" if "aligned p" "p \<notin> set xs" for p
    proof -
      have p: "p \<noteq> d" "p \<notin> set xs1" using that(2) Cons by auto
      have "same_page (kmem_mem ?k) (kmem_mem k) p" unfolding mem by (rule fill_same_page [OF that(1) d(2) p(1)]) simp
      then show ?thesis using same_page_trans [OF m(2) [OF that(1) p]] by blast
    qed
    moreover have "setupkvm e k = Inr (r, k')" using k1(1) d(4) m(1) Cons
      by (simp add: setupkvm_def) (simp add: P2V_def PHYSTOP_def KERNBASE_def DEVSPACE_def)
    moreover have "kmem_inv (ke_end e) k' xs'" using m(3) by (auto simp: bare_def space_ok_def)
    moreover have "distinct xs1" using inv by (simp add: kmem_inv_def Cons)
    then have "length xs1 = card (set xs1)" by (simp add: distinct_card)
    then have "r = 0 \<and> set xs' = set xs \<and> length xs \<le> 1025 \<or> r \<noteq> 0 \<and> bare (ke_end e) k' r xs' \<and> set xs' \<union> owned k' r = set xs"
      using m(3) d(4) Cons bare_user(2) [of "ke_end e" k' d xs'] by (auto simp: owned_def)
    ultimately show ?thesis by (intro exI [of _ r] exI [of _ k'] exI [of _ xs']) simp
  qed
qed

section \<open>Copying the memory of a process\<close>

definition same_contents :: "kmem \<Rightarrow> u32 \<Rightarrow> kmem \<Rightarrow> u32 \<Rightarrow> bool" where
  "same_contents k' p' k p \<longleftrightarrow> (\<forall>i. unat i < 4096 \<longrightarrow> kmem_mem k' (p' + i) = kmem_mem k (p + i))"

lemma poke_copy:
  assumes "aligned mem"
  shows "same_contents (poke_bytes mem (peek_bytes p 4096 k) k) mem k p"
    and "aligned x \<Longrightarrow> x \<noteq> mem \<Longrightarrow> same_page (kmem_mem (poke_bytes mem (peek_bytes p 4096 k) k)) (kmem_mem k) x"
proof -
  have len: "length (peek_bytes p 4096 k) = 4096" by (simp add: peek_bytes_def)
  have nth: "peek_bytes p 4096 k ! unat i = kmem_mem k (p + i)" if "unat i < 4096" for i :: u32 using that by (simp add: peek_bytes_def)
  show "same_contents (poke_bytes mem (peek_bytes p 4096 k) k) mem k p"
    using nth by (simp add: same_contents_def poke_bytes_def len)
  show "same_page (kmem_mem (poke_bytes mem (peek_bytes p 4096 k) k)) (kmem_mem k) x" if "aligned x" "x \<noteq> mem"
  proof -
    have "\<not> unat (x + i - mem) < 4096" if "unat i < 4096" for i
      using page_apart [OF \<open>aligned x\<close> assms \<open>x \<noteq> mem\<close> that, of "x + i - mem"] by auto
    then show ?thesis by (simp add: same_page_def poke_bytes_def len)
  qed
qed

text \<open>One user page that is mapped to a page \<open>mem\<close> of its own.\<close>

lemma map_user_page:
  assumes ok: "user_ok (ke_end e) k d xs" and i: "aligned i" "user i" "\<not> present (entry k d i)"
    and mem: "page_ok (ke_end e) mem" "mem \<notin> set xs" "mem \<notin> owned k d" and fl: "f AND NOT 0xFFF = 0"
  shows "\<exists>r k' xs'. mappages e d i PGSIZE (V2P mem) f k = Inr (r, k') \<and>
    (\<forall>p. aligned p \<and> p \<notin> set xs \<and> p \<notin> owned k d \<longrightarrow> same_page (kmem_mem k') (kmem_mem k) p) \<and>
    (\<forall>p \<in> upages k d. same_page (kmem_mem k') (kmem_mem k) p) \<and>
    (r = - 1 \<and> user_ok (ke_end e) k' d xs' \<and> set xs' \<union> owned k' d = set xs \<union> owned k d \<and> xs' = [] \<and> upages k' d = upages k d \<or>
     r = 0 \<and> user_ok (ke_end e) k' d xs' \<and> set xs' \<union> owned k' d = insert mem (set xs \<union> owned k d) \<and>
     upages k' d = insert mem (upages k d) \<and>
     (\<forall>va. entry k' d va = (if vpage va = vpage i then V2P mem OR f OR PTE_P else entry k d va)))"
proof -
  have sp: "space_ok (ke_end e) k d xs" using ok by (simp add: user_ok_def)
  note pages = space_pages [OF sp]
  have sz: "aligned PGSIZE" "unat PGSIZE = 4096" by (simp_all add: aligned_def)
  have "unat i + unat PGSIZE \<le> 2 ^ 32" using i(2) by (simp add: user_def)
  then have pg: "pages_to (PGROUNDDOWN i) (PGROUNDDOWN (i + PGSIZE - 1)) = [i]" using range_pages [OF i(1) sz(1)] by simp
  obtain r k' xs' j where m: "mappages_loop e d [i] (V2P mem) f k = Inr (r, k')" "j \<le> 1" "mapped_upto (ke_end e) d [i] j (V2P mem) f k xs k' xs'"
    "r = 0 \<and> j = 1 \<or> r = - 1 \<and> j < 1 \<and> xs' = []"
    using mappages_loop_ok [OF sp, of "[i]" "V2P mem" f] i(3) by auto
  note mu = m(3) [unfolded mapped_upto_def]
  have fr: "same_page (kmem_mem k') (kmem_mem k) p" if "aligned p" "p \<noteq> d" "p \<notin> set xs" "p \<notin> tables k d" for p using mu that by blast
  have fro: "same_page (kmem_mem k') (kmem_mem k) p" if "aligned p" "p \<notin> set xs" "p \<notin> owned k d" for p
    using fr that by (auto simp: owned_def)
  have up: "page_ok (ke_end e) p \<and> p \<noteq> d \<and> p \<notin> tables k d \<and> p \<notin> set xs" if "p \<in> upages k d" for p using ok that by (simp add: user_ok_def)
  have fru: "same_page (kmem_mem k') (kmem_mem k) p" if "p \<in> upages k d" for p using fr up [OF that] by (simp add: page_ok_def)
  have tb: "p \<in> tables k' d \<Longrightarrow> p \<in> set xs \<or> p \<in> tables k d" "p \<in> set xs' \<Longrightarrow> p \<in> set xs" for p using mu by blast+
  have run: "mappages e d i PGSIZE (V2P mem) f k = Inr (r, k')" using m(1) pg by (simp add: mappages_def)
  show ?thesis
  proof (cases "j = 0")
    case True
    then have en: "entry k' d va = entry k d va" for va using mu by simp
    then have ups: "upages k' d = upages k d" by (simp add: upages_def)
    have "user_ok (ke_end e) k' d xs'" unfolding user_ok_def ups en
    proof (intro conjI ballI allI impI)
      show "space_ok (ke_end e) k' d xs'" using mu by blast
      show "page_ok (ke_end e) p" "p \<noteq> d" "p \<notin> tables k' d" "p \<notin> set xs'" if "p \<in> upages k d" for p using up [OF that] tb [of p] by auto
      show "vpage va = vpage va'" if "user va \<and> user va' \<and> present (entry k d va) \<and> present (entry k d va') \<and>
          page_of (entry k d va) = page_of (entry k d va')" for va va' using user_ok_inj [OF ok] that by blast
    qed
    moreover have "set xs' \<union> owned k' d = set xs \<union> owned k d" using mu by (auto simp: owned_def ups)
    ultimately show ?thesis using run m(4) True fro fru ups by (intro exI [of _ r] exI [of _ k'] exI [of _ xs']) simp
  next
    case False
    then have j: "j = 1" "r = 0" using m(2,4) by auto
    let ?v = "V2P mem OR f OR PTE_P"
    have en: "entry k' d va = (if vpage va = vpage i then ?v else entry k d va)" for va
      using mu j(1) entry_vpage [of va i k' d] by auto
    have "(f OR PTE_P) AND NOT 0xFFF = 0" using fl by (simp add: bit.conj_disj_distrib2 PTE_P_def)
    then have pv: "page_of ?v = mem" "present ?v"
      using PTE_ADDR_made(1) [OF V2P_aligned(1) [OF mem(1)], of "f OR PTE_P"] V2P_aligned(2) [OF mem(1)] by (simp_all add: page_of_def or.assoc)
    have old: "vpage va \<noteq> vpage i" if "present (entry k d va)" for va using that i(3) entry_vpage [of va i k d] by auto
    have ups: "upages k' d = insert mem (upages k d)"
    proof
      show "upages k' d \<subseteq> insert mem (upages k d)" by (auto simp: upages_def en pv)
      have "mem \<in> upages k' d" using upages_I [of i k' d] i(2) by (simp add: en pv)
      moreover have "page_of (entry k d va) \<in> upages k' d" if "user va" "present (entry k d va)" for va
        using upages_I [of va k' d] that old [OF that(2)] by (simp add: en)
      ultimately show "insert mem (upages k d) \<subseteq> upages k' d" by (auto simp: upages_def [of k d])
    qed
    have mo: "mem \<noteq> d" "mem \<notin> tables k d" "mem \<notin> upages k d" using mem(3) by (auto simp: owned_def)
    have "user_ok (ke_end e) k' d xs'" unfolding user_ok_def
    proof (intro conjI ballI allI impI)
      show "space_ok (ke_end e) k' d xs'" using mu by blast
      fix p assume "p \<in> upages k' d"
      then have "p = mem \<or> p \<in> upages k d" by (simp add: ups)
      then show "page_ok (ke_end e) p" "p \<noteq> d" "p \<notin> tables k' d" "p \<notin> set xs'" using up [of p] mo mem(1,2) tb [of p] by auto
    next
      fix va va'
      assume a: "user va \<and> user va' \<and> present (entry k' d va) \<and> present (entry k' d va') \<and> page_of (entry k' d va) = page_of (entry k' d va')"
      show "vpage va = vpage va'"
      proof (cases "vpage va = vpage i \<or> vpage va' = vpage i")
        case True
        then show ?thesis using a mo(3) upages_I [of va k d] upages_I [of va' k d] by (auto simp: en pv split: if_splits)
      next
        case False
        then show ?thesis using a user_ok_inj [OF ok, of va va'] by (simp add: en)
      qed
    qed
    moreover have "set xs' \<union> owned k' d = insert mem (set xs \<union> owned k d)" using mu by (auto simp: owned_def ups)
    ultimately show ?thesis using run j(2) fro fru en ups by (intro exI [of _ r] exI [of _ k'] exI [of _ xs']) simp
  qed
qed

lemma user_ok_frame:
  assumes ok: "user_ok kend k d xs" and inv: "kmem_inv kend k' ys" and dis: "set ys \<inter> owned k d = {}"
    and fr: "\<And>q. q = d \<or> q \<in> tables k d \<Longrightarrow> same_page (kmem_mem k') (kmem_mem k) q"
  shows "user_ok kend k' d ys" and "owned k' d = owned k d" and "entry k' d va = entry k d va" and "upages k' d = upages k d"
proof -
  have sp: "space_ok kend k d xs" using ok by (simp add: user_ok_def)
  note pages = space_pages [OF sp]
  have f: "unat i < 1024 \<Longrightarrow> pde k' d i = pde k d i" "tables k' d = tables k d" "entry k' d va = entry k d va" "upages k' d = upages k d" for i va
    using tables_frame [OF sp] fr by blast+
  show "entry k' d va = entry k d va" "upages k' d = upages k d" "owned k' d = owned k d" by (simp_all add: owned_def f)
  have "i = j" if "unat i < 1024" "unat j < 1024" "present (pde k' d i)" "present (pde k' d j)" "page_of (pde k' d i) = page_of (pde k' d j)" for i j
    using space_ok_inj [OF sp that(1,2)] that by (simp add: f(1))
  then have "space_ok kend k' d ys" using inv pages(2,7) dis unfolding space_ok_def f(2) by (auto simp: owned_def)
  moreover have "vpage va = vpage va'" if "user va \<and> user va' \<and> present (entry k d va) \<and> present (entry k d va') \<and>
      page_of (entry k d va) = page_of (entry k d va')" for va va' using user_ok_inj [OF ok] that by blast
  moreover have "page_ok kend q \<and> q \<noteq> d \<and> q \<notin> tables k d \<and> q \<notin> set ys" if "q \<in> upages k d" for q
    using ok that dis by (auto simp: user_ok_def owned_def)
  ultimately show "user_ok kend k' d ys" unfolding user_ok_def f by blast
qed

lemma owned_page:
  assumes "user_ok kend k d xs" and "q \<in> owned k d"
  shows "page_ok kend q" "aligned q" "q \<notin> set xs"
proof -
  have sp: "space_ok kend k d xs" using assms(1) by (simp add: user_ok_def)
  show "page_ok kend q" "q \<notin> set xs" using assms space_pages(2,4,7) [OF sp] by (auto simp: owned_def user_ok_def)
  then show "aligned q" by (simp add: page_ok_def)
qed

text \<open>The pages of \<open>d\<close> have the contents and the flags of the pages of \<open>p\<close> at the same addresses.\<close>

definition copied :: "kmem \<Rightarrow> u32 \<Rightarrow> kmem \<Rightarrow> u32 \<Rightarrow> bool" where
  "copied k d k0 p \<longleftrightarrow> (\<forall>va. user va \<and> present (entry k d va) \<longrightarrow>
     PTE_FLAGS (entry k d va) = PTE_FLAGS (entry k0 p va) \<and> same_contents k (page_of (entry k d va)) k0 (page_of (entry k0 p va)))"

lemma flags_present:
  assumes "present v"
  shows "PTE_FLAGS v AND NOT 0xFFF = 0" and "PTE_FLAGS v OR PTE_P = PTE_FLAGS v"
proof -
  show "PTE_FLAGS v AND NOT 0xFFF = 0" by (simp add: PTE_FLAGS_def and.assoc)
  have "bit v 0"
  proof (rule ccontr)
    assume "\<not> bit v 0"
    then have "v AND PTE_P = 0" by (intro bit_word_eqI) (auto simp: PTE_P_def bit_simps intro!: gr0I)
    then show False using assms by (simp add: present_def)
  qed
  then show "PTE_FLAGS v OR PTE_P = PTE_FLAGS v"
    by (intro bit_word_eqI) (auto simp: PTE_FLAGS_def PTE_P_def bit_simps)
qed

text \<open>One round of the loop of \<open>copyuvm\<close> after the allocation of the page \<open>mem\<close>.\<close>

lemma copy_page:
  assumes p: "user_ok (ke_end e) k0 p xs0" and d: "user_ok (ke_end e) k d (mem # xs)" "set (mem # xs) \<union> owned k d = set xs0"
    and fr: "\<And>q. aligned q \<Longrightarrow> q \<notin> set xs0 \<Longrightarrow> same_page (kmem_mem k) (kmem_mem k0) q"
    and cp: "copied k d k0 p" and i: "aligned i" "user i" "present (entry k0 p i)" "\<not> present (entry k d i)"
    and k1: "kmem_inv (ke_end e) k1 xs" "kmem_mem k1 = kmem_mem k"
  defines "k2 \<equiv> poke_bytes mem (peek_bytes (page_of (entry k0 p i)) 4096 k1) k1"
  shows "\<exists>r k3 xs3. mappages e d i PGSIZE (V2P mem) (PTE_FLAGS (entry k0 p i)) k2 = Inr (r, k3) \<and> mem \<notin> set xs3 \<and>
    (\<forall>q. aligned q \<and> q \<notin> set xs0 \<longrightarrow> same_page (kmem_mem k3) (kmem_mem k0) q) \<and> user_ok (ke_end e) k3 d xs3 \<and>
    (r = - 1 \<and> mem \<notin> owned k3 d \<and> insert mem (set xs3 \<union> owned k3 d) = set xs0 \<and> xs3 = [] \<and> upages k3 d = upages k d \<or>
     r = 0 \<and> set xs3 \<union> owned k3 d = set xs0 \<and> copied k3 d k0 p \<and> upages k3 d = insert mem (upages k d) \<and>
     (\<forall>va. present (entry k3 d va) \<longleftrightarrow> vpage va = vpage i \<or> present (entry k d va)))"
proof -
  let ?pp = "page_of (entry k0 p i)" and ?f = "PTE_FLAGS (entry k0 p i)"
  have spd: "space_ok (ke_end e) k d (mem # xs)" using d(1) by (simp add: user_ok_def)
  note pages = space_pages [OF spd]
  have mem: "page_ok (ke_end e) mem" "aligned mem" "mem \<notin> set xs" using pages(5,6) by (auto simp: page_ok_def)
  have mo: "mem \<notin> owned k d" using owned_page(3) [OF d(1)] by auto
  have pp: "?pp \<in> owned k0 p" using upages_I [OF i(2,3)] by (simp add: owned_def)
  note ppg = owned_page [OF p pp]
  have k2m: "kmem_mem k2 = kmem_mem (poke_bytes mem (peek_bytes ?pp 4096 k) k)" 
    unfolding k2_def poke_bytes_def peek_bytes_def k1(2) by simp
  have fr2: "same_page (kmem_mem k2) (kmem_mem k) q" if "aligned q" "q \<noteq> mem" for q unfolding k2m by (rule poke_copy(2) [OF mem(2) that])
  have "kmem_inv (ke_end e) (k1\<lparr>kmem_mem := kmem_mem k2\<rparr>) xs"
    by (rule kmem_inv_frame [OF k1(1)], unfold k1(2), rule fr2) (use pages(6) mem(3) in \<open>auto simp: page_ok_def\<close>)
  then have inv2: "kmem_inv (ke_end e) k2 xs" by (simp add: k2_def poke_bytes_def)
  have dis: "set xs \<inter> owned k d = {}" using owned_page(3) [OF d(1)] by auto
  have fr2o: "same_page (kmem_mem k2) (kmem_mem k) q" if "q \<in> owned k d" for q using fr2 owned_page(2) [OF d(1) that] that mo by blast
  then have "q = d \<or> q \<in> tables k d \<Longrightarrow> same_page (kmem_mem k2) (kmem_mem k) q" for q by (auto simp: owned_def)
  note u2 = user_ok_frame [OF d(1) inv2 dis this]
  have np: "\<not> present (entry k2 d i)" using i(4) by (simp add: u2(3))
  have mo2: "mem \<notin> owned k2 d" using mo by (simp add: u2(2))
  obtain r k3 xs3 where m: "mappages e d i PGSIZE (V2P mem) ?f k2 = Inr (r, k3)"
    "\<And>q. aligned q \<Longrightarrow> q \<notin> set xs \<Longrightarrow> q \<notin> owned k2 d \<Longrightarrow> same_page (kmem_mem k3) (kmem_mem k2) q"
    "\<And>q. q \<in> upages k2 d \<Longrightarrow> same_page (kmem_mem k3) (kmem_mem k2) q"
    "r = - 1 \<and> user_ok (ke_end e) k3 d xs3 \<and> set xs3 \<union> owned k3 d = set xs \<union> owned k2 d \<and> xs3 = [] \<and> upages k3 d = upages k2 d \<or>
     r = 0 \<and> user_ok (ke_end e) k3 d xs3 \<and> set xs3 \<union> owned k3 d = insert mem (set xs \<union> owned k2 d) \<and> upages k3 d = insert mem (upages k2 d) \<and>
     (\<forall>va. entry k3 d va = (if vpage va = vpage i then V2P mem OR ?f OR PTE_P else entry k2 d va))"
    using map_user_page [OF u2(1) i(1,2) np mem(1,3) mo2 flags_present(1) [OF i(3)]] by blast
  have fr3: "same_page (kmem_mem k3) (kmem_mem k0) q" if "aligned q" "q \<notin> set xs0" for q
  proof -
    have "q \<noteq> mem" "q \<notin> set xs" "q \<notin> owned k2 d" using that(2) d(2) by (auto simp: u2(2))
    then show ?thesis using same_page_trans [OF m(2) [OF that(1)] same_page_trans [OF fr2 fr]] that by blast
  qed
  show ?thesis
  proof (cases "r = 0")
    case False
    then have x: "user_ok (ke_end e) k3 d xs3" "set xs3 \<union> owned k3 d = set xs \<union> owned k d" "r = - 1" "xs3 = []" "upages k3 d = upages k d"
      using m(4) u2(2,4) by auto
    then have "mem \<notin> set xs3" "mem \<notin> owned k3 d" using mem(3) mo by blast+
    moreover have "insert mem (set xs3 \<union> owned k3 d) = set xs0" using x(2) d(2) by auto
    ultimately show ?thesis using m(1) x(1,3-5) fr3 by blast
  next
    case True
    then have x: "user_ok (ke_end e) k3 d xs3" "set xs3 \<union> owned k3 d = insert mem (set xs \<union> owned k d)"
      and ups: "upages k3 d = insert mem (upages k d)" using m(4) u2(2,4) by auto
    have x3:
      "\<And>va. entry k3 d va = (if vpage va = vpage i then V2P mem OR ?f OR PTE_P else entry k d va)" using m(4) True u2(3) by auto
    note x = x x3
    have new: "page_of (V2P mem OR ?f OR PTE_P) = mem" "PTE_FLAGS (V2P mem OR ?f OR PTE_P) = ?f" "present (V2P mem OR ?f OR PTE_P)"
      using PTE_ADDR_made [OF V2P_aligned(1) [OF mem(1)] flags_present(1) [OF i(3)]] V2P_aligned(2) [OF mem(1)] flags_present(2) [OF i(3)]
      by (simp_all add: page_of_def or.assoc del: present_made) (metis present_made or.assoc)
    have "mem \<in> upages k3 d" using upages_I [of i k3 d] i(2) by (simp add: x(3) new)
    then have "mem \<notin> set xs3" using owned_page(3) [OF x(1), of mem] by (simp add: owned_def)
    moreover have "copied k3 d k0 p" unfolding copied_def
    proof (intro allI impI)
      fix va assume va: "user va \<and> present (entry k3 d va)"
      show "PTE_FLAGS (entry k3 d va) = PTE_FLAGS (entry k0 p va) \<and> same_contents k3 (page_of (entry k3 d va)) k0 (page_of (entry k0 p va))"
      proof (cases "vpage va = vpage i")
        case True
        have "same_page (kmem_mem k3) (kmem_mem k2) mem" using m(2) mem(2,3) mo2 by blast
        moreover have "same_contents k2 mem k ?pp" using poke_copy(1) [OF mem(2), of ?pp k] by (simp add: same_contents_def k2m)
        moreover have "same_page (kmem_mem k) (kmem_mem k0) ?pp" using fr ppg(2,3) by blast
        ultimately have "same_contents k3 mem k0 ?pp" by (simp add: same_contents_def same_page_def)
        then show ?thesis using True entry_vpage [OF True, of k0 p] by (simp add: x(3) new)
      next
        case False
        then have en: "entry k3 d va = entry k d va" by (simp add: x(3))
        then have pr: "present (entry k d va)" using va by simp
        have u: "page_of (entry k d va) \<in> upages k d" using upages_I pr va by blast
        then have "same_page (kmem_mem k3) (kmem_mem k) (page_of (entry k d va))"
          using same_page_trans [OF m(3) fr2o] by (simp add: u2(4) owned_def)
        then show ?thesis using cp va pr unfolding copied_def en by (simp add: same_contents_def same_page_def)
      qed
    qed
    moreover have "set xs3 \<union> owned k3 d = set xs0" using x(2) d(2) by auto
    moreover have "present (entry k3 d va) \<longleftrightarrow> vpage va = vpage i \<or> present (entry k d va)" for va by (simp add: x(3) new(3))
    ultimately show ?thesis using m(1) True x(1) fr3 ups by blast
  qed
qed

lemma copy_loop_ok:
  assumes p: "user_ok (ke_end e) k0 p xs0" and ke: "KERNBASE < ke_end e"
    and "user_ok (ke_end e) k d xs" and "set xs \<union> owned k d = set xs0"
    and "\<And>q. aligned q \<Longrightarrow> q \<notin> set xs0 \<Longrightarrow> same_page (kmem_mem k) (kmem_mem k0) q" and "copied k d k0 p"
    and "\<forall>i \<in> set is. aligned i \<and> user i \<and> present (entry k0 p i) \<and> \<not> present (entry k d i)" and "distinct (map vpage is)"
  shows "\<exists>r k' xs'. copy_loop e p d is k = Inr (r, k') \<and> kmem_inv (ke_end e) k' xs' \<and>
    (\<forall>q. aligned q \<and> q \<notin> set xs0 \<longrightarrow> same_page (kmem_mem k') (kmem_mem k0) q) \<and>
    (r = 0 \<and> set xs' = set xs0 \<and> card (set xs0) \<le> 1026 + card (upages k d) + length is \<or>
     r = d \<and> user_ok (ke_end e) k' d xs' \<and> set xs' \<union> owned k' d = set xs0 \<and> copied k' d k0 p \<and>
      (\<forall>va. present (entry k' d va) \<longleftrightarrow> vpage va \<in> vpage ` set is \<or> present (entry k d va)))"
  using assms(3-8)
proof (induction "is" arbitrary: k xs)
  case Nil
  then have "kmem_inv (ke_end e) k xs" by (simp add: user_ok_def space_ok_def)
  then show ?case using Nil by (intro exI [of _ d] exI [of _ k] exI [of _ xs]) simp
next
  case (Cons i "is")
  note d = Cons.prems(1,2) and fr = Cons.prems(3)
  have "upages k d \<subseteq> set xs0" using d(2) by (auto simp: owned_def)
  then have fin: "finite (upages k d)" by (rule finite_subset) simp
  have i: "aligned i" "user i" "present (entry k0 p i)" "\<not> present (entry k d i)" using Cons.prems(5) by auto
  have sp0: "space_ok (ke_end e) k0 p xs0" and spd: "space_ok (ke_end e) k d xs" using p d(1) by (simp_all add: user_ok_def)
  have frp: "same_page (kmem_mem k) (kmem_mem k0) q" if "q = p \<or> q \<in> tables k0 p" for q
    using fr owned_page(2,3) [OF p, of q] that by (auto simp: owned_def)
  have pd: "pde k p (PDX i) = pde k0 p (PDX i)" and en: "entry k p i = entry k0 p i"
    using tables_frame [OF sp0 frp frp] index_lt(1) by blast+
  have pr: "present (pde k p (PDX i))" using i(3) by (simp add: pd entry_def split: if_splits)
  have walk: "walkpgdir e p i False k = Inr (Some (page_of (pde k p (PDX i)) + 4 * PTX i), k)" using pr by (simp add: walk_lookup)
  have v: "load32 (kmem_mem k) (page_of (pde k p (PDX i)) + 4 * PTX i) = entry k0 p i" using pte_entry [OF pr] en by simp
  let ?v = "entry k0 p i"
  obtain k1 where k1: "kalloc_in e k = Inr (case xs of [] \<Rightarrow> 0 | x # _ \<Rightarrow> x, k1)" "kmem_inv (ke_end e) k1 (tl xs)" "kmem_mem k1 = kmem_mem k"
    using kalloc_takes [OF space_pages(1) [OF spd], of "ke_me e" "ke_stack e"] by auto
  show ?case
  proof (cases xs)
    case Nil
    have inv1: "kmem_inv (ke_end e) k1 []" using k1(2) Nil by simp
    note u1 = user_ok_frame [OF d(1) inv1]
    have "user_ok (ke_end e) k1 d []" "owned k1 d = owned k d" using u1 by (simp_all add: k1(3))
    then obtain k' ys where f: "freevm e d k1 = Inr k'" "kmem_inv (ke_end e) k' ys" "set ys = owned k d"
      "\<And>q. aligned q \<Longrightarrow> q \<notin> owned k d \<Longrightarrow> same_page (kmem_mem k') (kmem_mem k1) q"
      using freevm_ok [OF _ ke] by force
    have "copy_loop e p d (i # is) k = Inr (0, k')"
      using walk v i(3) k1(1) Nil f(1) by (simp add: Let_def present_def)
    moreover have "set ys = set xs0" using f(3) d(2) Nil by simp
    moreover have "same_page (kmem_mem k') (kmem_mem k0) q" if "aligned q" "q \<notin> set xs0" for q
      using f(4) [OF that(1)] that(2) fr [OF that] calculation(2) f(3) same_page_trans by (simp add: k1(3))
    moreover have "card (set xs0) \<le> 1026 + card (upages k d) + length (i # is)" using owned_card [OF fin] calculation(2) f(3) by simp
    ultimately show ?thesis using f(2) by (intro exI [of _ 0] exI [of _ k'] exI [of _ ys]) simp
  next
    case (Cons mem xs1)
    have k1': "kalloc_in e k = Inr (mem, k1)" "kmem_inv (ke_end e) k1 xs1" using k1 Cons by simp_all
    have mem: "page_ok (ke_end e) mem" using space_pages(6) [OF spd] Cons by simp
    let ?k2 = "poke_bytes mem (peek_bytes (page_of ?v) 4096 k1) k1"
    obtain r k3 xs3 where m: "mappages e d i PGSIZE (V2P mem) (PTE_FLAGS ?v) ?k2 = Inr (r, k3)" "mem \<notin> set xs3"
      "\<And>q. aligned q \<Longrightarrow> q \<notin> set xs0 \<Longrightarrow> same_page (kmem_mem k3) (kmem_mem k0) q" "user_ok (ke_end e) k3 d xs3"
      "r = - 1 \<and> mem \<notin> owned k3 d \<and> insert mem (set xs3 \<union> owned k3 d) = set xs0 \<and> xs3 = [] \<and> upages k3 d = upages k d \<or>
       r = 0 \<and> set xs3 \<union> owned k3 d = set xs0 \<and> copied k3 d k0 p \<and> upages k3 d = insert mem (upages k d) \<and>
       (\<forall>va. present (entry k3 d va) \<longleftrightarrow> vpage va = vpage i \<or> present (entry k d va))"
      using copy_page [OF p d [unfolded Cons] fr Cons.prems(4) i k1'(2) k1(3)] by blast
    have step: "copy_loop e p d (i # is) k = (if r < 0 then bindE (kfree_in e mem k3) (\<lambda>k. bindE (freevm e d k) (\<lambda>k. Inr (0, k)))
        else copy_loop e p d is k3)"
      using walk v i(3) k1'(1) m(1) page_nonzero [OF mem] by (simp add: Let_def present_def page_of_def)
    show ?thesis
    proof (cases "r = 0")
      case True
      then have x: "set xs3 \<union> owned k3 d = set xs0" "copied k3 d k0 p"
        "\<And>va. present (entry k3 d va) \<longleftrightarrow> vpage va = vpage i \<or> present (entry k d va)" "upages k3 d = insert mem (upages k d)" using m(5) by auto
      have "\<forall>j \<in> set is. aligned j \<and> user j \<and> present (entry k0 p j) \<and> \<not> present (entry k3 d j)"
        using Cons.prems(5,6) by (auto simp: x(3)) (metis imageI)
      moreover have "distinct (map vpage is)" using Cons.prems(6) by simp
      ultimately obtain r' k' xs' where ih: "copy_loop e p d is k3 = Inr (r', k')" "kmem_inv (ke_end e) k' xs'"
        "\<forall>q. aligned q \<and> q \<notin> set xs0 \<longrightarrow> same_page (kmem_mem k') (kmem_mem k0) q"
        "r' = 0 \<and> set xs' = set xs0 \<and> card (set xs0) \<le> 1026 + card (upages k3 d) + length is \<or> r' = d \<and> user_ok (ke_end e) k' d xs' \<and> set xs' \<union> owned k' d = set xs0 \<and> copied k' d k0 p \<and>
          (\<forall>va. present (entry k' d va) \<longleftrightarrow> vpage va \<in> vpage ` set is \<or> present (entry k3 d va))"
        using Cons.IH [OF m(4) x(1) m(3) x(2)] by blast
      have "copy_loop e p d (i # is) k = Inr (r', k')" using step True ih(1) by simp
      moreover have "card (upages k3 d) \<le> Suc (card (upages k d))" unfolding x(4) using fin by (simp add: card_insert_if)
      ultimately show ?thesis using ih(2-4) by (intro exI [of _ r'] exI [of _ k'] exI [of _ xs']) (auto simp: x(3))
    next
      case False
      then have x: "r = - 1" "mem \<notin> owned k3 d" "insert mem (set xs3 \<union> owned k3 d) = set xs0" "xs3 = []" "upages k3 d = upages k d" using m(5) by auto
      have "kmem_inv (ke_end e) k3 xs3" using m(4) by (simp add: user_ok_def space_ok_def)
      then obtain k4 where k4: "kfree_in e mem k3 = Inr k4" "kmem_inv (ke_end e) k4 (mem # xs3)"
        "\<And>q. aligned q \<Longrightarrow> q \<noteq> mem \<Longrightarrow> same_page (kmem_mem k4) (kmem_mem k3) q" using kfree_page [OF _ mem m(2)] by blast
      have dis: "set (mem # xs3) \<inter> owned k3 d = {}" using x(2) owned_page(3) [OF m(4)] by auto
      have frd: "same_page (kmem_mem k4) (kmem_mem k3) q" if "q = d \<or> q \<in> tables k3 d" for q
        using k4(3) owned_page(2) [OF m(4), of q] that x(2) by (auto simp: owned_def)
      have u4: "user_ok (ke_end e) k4 d (mem # xs3)" "owned k4 d = owned k3 d" using user_ok_frame [OF m(4) k4(2) dis] frd by blast+
      obtain k' ys where f: "freevm e d k4 = Inr k'" "kmem_inv (ke_end e) k' ys" "set ys = set (mem # xs3) \<union> owned k3 d"
        "\<And>q. aligned q \<Longrightarrow> q \<notin> owned k3 d \<Longrightarrow> same_page (kmem_mem k') (kmem_mem k4) q"
        using freevm_ok [OF u4(1) ke] unfolding u4(2) by blast
      have "copy_loop e p d (i # is) k = Inr (0, k')" using step x(1) k4(1) f(1) by simp
      moreover have ys: "set ys = set xs0" using f(3) x(3) by auto
      moreover have "same_page (kmem_mem k') (kmem_mem k0) q" if "aligned q" "q \<notin> set xs0" for q
      proof -
        have "q \<notin> owned k3 d" "q \<noteq> mem" using that(2) x(3) by blast+
        then show ?thesis using same_page_trans [OF f(4) same_page_trans [OF k4(3) m(3)]] that by blast
      qed
      moreover have "card (set xs0) \<le> Suc (card (owned k3 d))" using x(3,4) card_insert_le_m1 [of "Suc (card (owned k3 d))" "owned k3 d" mem] by simp
      then have "card (set xs0) \<le> 1026 + card (upages k d) + length (i # is)" using owned_card [of k3 d] fin x(5) by simp
      ultimately show ?thesis using f(2) by (intro exI [of _ 0] exI [of _ k'] exI [of _ ys]) simp
    qed
  qed
qed

lemma copyuvm_ok:
  assumes p: "user_ok (ke_end e) k p xs" and env: "env_ok e" and sz: "unat sz \<le> 2 ^ 31"
    and all: "\<And>va. va < sz \<Longrightarrow> present (entry k p va)"
  shows "\<exists>d k' xs'. copyuvm e p sz k = Inr (d, k') \<and> kmem_inv (ke_end e) k' xs' \<and>
    (\<forall>q. aligned q \<and> q \<notin> set xs \<longrightarrow> same_page (kmem_mem k') (kmem_mem k) q) \<and>
    (d = 0 \<and> set xs' = set xs \<and> length xs \<le> 1026 + (unat sz + 4095) div 4096 \<or>
     d \<noteq> 0 \<and> user_ok (ke_end e) k' d xs' \<and> set xs' \<union> owned k' d = set xs \<and> copied k' d k p \<and>
      (\<forall>va. user va \<longrightarrow> (present (entry k' d va) \<longleftrightarrow> 4096 * (unat va div 4096) < unat sz)))"
proof -
  have inv: "kmem_inv (ke_end e) k xs" using p by (simp add: user_ok_def space_ok_def)
  have ke: "KERNBASE < ke_end e" using env by (simp add: env_ok_def)
  obtain d k1 xs1 where s: "setupkvm e k = Inr (d, k1)" "kmem_inv (ke_end e) k1 xs1"
    "\<And>q. aligned q \<Longrightarrow> q \<notin> set xs \<Longrightarrow> same_page (kmem_mem k1) (kmem_mem k) q"
    "d = 0 \<and> set xs1 = set xs \<and> length xs \<le> 1025 \<or> d \<noteq> 0 \<and> bare (ke_end e) k1 d xs1 \<and> set xs1 \<union> owned k1 d = set xs"
    using setupkvm_ok [OF inv env] by blast
  show ?thesis
  proof (cases "d = 0")
    case True
    then show ?thesis using s by (intro exI [of _ 0] exI [of _ k1] exI [of _ xs1]) (simp add: copyuvm_def)
  next
    case False
    then have b: "bare (ke_end e) k1 d xs1" "set xs1 \<union> owned k1 d = set xs" using s(4) by auto
    let ?n = "(unat sz + 4095) div 4096" and ?is = "pages_below 0 sz"
    have is_def: "?is = map (\<lambda>i. 0 + word_of_nat i * PGSIZE) [0..<?n]" by (simp add: pages_below_def)
    have n: "i < ?n \<longleftrightarrow> 4096 * i < unat sz" for i
      using less_eq_div_iff_mult_less_eq [of 4096 "Suc i" "unat sz + 4095"] by (auto simp: Suc_le_eq)
    have al0: "aligned 0" by (simp add: aligned_def)
    have u: "unat (0 + word_of_nat i * PGSIZE :: u32) = 4096 * i" "aligned (0 + word_of_nat i * PGSIZE)" if "i < ?n" for i
      using page_step [OF al0, of i] that n [of i] sz by simp_all
    have "aligned a \<and> user a \<and> present (entry k p a) \<and> \<not> present (entry k1 d a)" if "a \<in> set ?is" for a
    proof -
      obtain i where i: "i < ?n" "a = 0 + word_of_nat i * PGSIZE" using \<open>a \<in> set ?is\<close> unfolding is_def by auto
      have a: "unat a = 4096 * i" "aligned a" using u [OF i(1)] by (simp_all add: i(2))
      then have "user a" "a < sz" using i(1) n [of i] sz by (auto simp: user_def word_less_nat_alt)
      then show ?thesis using a(2) all b(1) by (simp add: bare_def)
    qed
    moreover have "distinct (map vpage ?is)" unfolding is_def
      by (rule vpages_distinct [OF al0]) (use sz in \<open>simp add: div_le_dividend\<close>)
    moreover have "copied k1 d k p" using b(1) unfolding copied_def bare_def by blast
    ultimately obtain r k' xs' where c: "copy_loop e p d ?is k1 = Inr (r, k')" "kmem_inv (ke_end e) k' xs'"
      "\<forall>q. aligned q \<and> q \<notin> set xs \<longrightarrow> same_page (kmem_mem k') (kmem_mem k) q"
      "r = 0 \<and> set xs' = set xs \<and> card (set xs) \<le> 1026 + card (upages k1 d) + length ?is \<or> r = d \<and> user_ok (ke_end e) k' d xs' \<and> set xs' \<union> owned k' d = set xs \<and> copied k' d k p \<and>
        (\<forall>va. present (entry k' d va) \<longleftrightarrow> vpage va \<in> vpage ` set ?is \<or> present (entry k1 d va))"
      using copy_loop_ok [OF p ke bare_user(1) [OF b(1)] b(2) s(3), of ?is] by blast
    have "vpage va \<in> vpage ` set ?is \<longleftrightarrow> 4096 * (unat va div 4096) < unat sz" for va
    proof -
      have "vpage va \<in> vpage ` set ?is \<longleftrightarrow> (\<exists>i < ?n. unat va div 4096 = i)" unfolding is_def using u(1) by (auto simp: image_iff vpage_eq)
      then show ?thesis by (simp add: n)
    qed
    then have "r = d \<Longrightarrow> r \<noteq> 0 \<Longrightarrow> \<forall>va. user va \<longrightarrow> (present (entry k' d va) \<longleftrightarrow> 4096 * (unat va div 4096) < unat sz)"
      using c(4) b(1) by (simp add: bare_def)
    moreover have "length xs = card (set xs)" using inv by (simp add: kmem_inv_def distinct_card)
    then have "card (set xs) \<le> 1026 + card (upages k1 d) + length ?is \<Longrightarrow> length xs \<le> 1026 + ?n"
      using bare_user(2) [OF b(1)] by (simp add: is_def)
    moreover have "copyuvm e p sz k = Inr (r, k')" using s(1) False c(1) by (simp add: copyuvm_def)
    ultimately show ?thesis using c(2-4) False by (intro exI [of _ r] exI [of _ k'] exI [of _ xs']) auto
  qed
qed

end
