(* ===== verification/Vm_Properties.thy ===== *)
theory Vm_Properties
  imports Xv6_Copy
begin

text \<open>
  What the virtual memory system promises: \<open>fork\<close> copies the memory of the parent, and giving an address
  space back frees all of its pages.
\<close>

section \<open>A concrete parent\<close>

text \<open>
  A machine with about 1500 free pages, a page directory with one page table, and one page of user memory
  at address 0.
\<close>

definition demo_env :: kenv where
  "demo_env = \<lparr>ke_end = 0x80110000, ke_data = 0x80108000, ke_me = 0, ke_stack = []\<rparr>"

definition boot_kmem :: kmem where
  "boot_kmem = \<lparr>kmem_lock = \<lparr>locked = False, lk_name = [], lk_cpu = None, pcs = replicate 10 0\<rparr>, use_lock = False, freelist = 0,
     kmem_mem = (\<lambda>_. 0), kmem_cpu = \<lparr>ncli = 0, intena = False, FL_IF = True\<rparr>\<rparr>"

definition build_space :: "kmem \<Rightarrow> kmem" where
  "build_space k = poke 0x80402000 0x403007 (poke 0x80401000 0x402007 (zero_page 0x80402000 (zero_page 0x80401000 k)))"

definition demo_space :: kmem where
  "demo_space = (case freerange 0x80110000 0 [] 0x80500000 0x80B00000 boot_kmem of Inr k \<Rightarrow> build_space k | Inl _ \<Rightarrow> boot_kmem)"

lemma demo_free:
  obtains k ys where "freerange 0x80110000 0 [] 0x80500000 0x80B00000 boot_kmem = Inr k" and "kmem_inv 0x80110000 k ys"
    and "set ys = pages_between 0x80500000 0x80B00000"
proof -
  have "kmem_inv 0x80110000 boot_kmem []" by (simp add: kmem_inv_def boot_kmem_def cli_ok_def)
  from freerange_adds [OF this, of "0x80500000" "0x80B00000" 0 "[]"] show thesis
    using that by (auto simp: freerange_def PGROUNDUP_def PGSIZE_def aligned_def)
qed

lemma pages_between_large:
  assumes "aligned a" and "unat a + 4096 * n \<le> unat b"
  shows "n \<le> card (pages_between a b)"
proof -
  let ?f = "\<lambda>i. a + word_of_nat i * PGSIZE"
  have b: "unat b < 2 ^ 32" using unsigned_less [of b] by simp
  have u: "unat (?f i) = unat a + 4096 * i" "aligned (?f i)" if "i < n" for i using page_step [OF assms(1), of i] that assms(2) b by simp_all
  have "inj_on ?f {..<n}" using u(1) by (intro inj_onI) (metis add_left_cancel lessThan_iff mult_left_cancel zero_neq_numeral)
  then have "card (?f ` {..<n}) = n" by (simp add: card_image)
  moreover have "?f ` {..<n} \<subseteq> pages_between a b" using u assms(2) by (auto simp: pages_between_def)
  ultimately show ?thesis using card_mono [of "pages_between a b" "?f ` {..<n}"] by simp
qed

lemma build_space_tables:
  fixes i :: u32
  assumes "unat i < 1024"
  shows "pde (build_space k) 0x80401000 i = (if i = 0 then 0x402007 else 0)"
    and "load32 (kmem_mem (build_space k)) (0x80402000 + 4 * i) = (if i = 0 then 0x403007 else 0)"
    and "aligned p \<Longrightarrow> p \<noteq> 0x80401000 \<Longrightarrow> p \<noteq> 0x80402000 \<Longrightarrow> same_page (kmem_mem (build_space k)) (kmem_mem k) p"
proof -
  let ?d = "0x80401000 :: u32" and ?t = "0x80402000 :: u32"
  have al: "aligned ?d" "aligned ?t" "?d \<noteq> ?t" by (simp_all add: aligned_def PGSIZE_def)
  let ?m1 = "fill (kmem_mem k) ?d 0 4096" and ?m2 = "fill (fill (kmem_mem k) ?d 0 4096) ?t 0 4096"
  let ?m3 = "store32 ?m2 (?d + 4 * 0) 0x402007"
  have mem: "kmem_mem (build_space k) = store32 ?m3 (?t + 4 * 0) 0x403007" by (simp add: build_space_def poke_def zero_page_def)
  have st: "same_page (kmem_mem (build_space k)) ?m3 p" if "aligned p" "p \<noteq> ?t" for p
    unfolding mem by (rule store_same_page [OF that(1) al(2) that(2)]) simp
  have sd: "same_page ?m3 ?m2 p" if "aligned p" "p \<noteq> ?d" for p by (rule store_same_page [OF that(1) al(1) that(2)]) simp
  note idx = index_unat(2) [OF assms]
  have "load32 ?m2 (?d + 4 * i) = 0"
    using load_same_page [OF fill_same_page [OF al(1,2,3)] idx] load_fill_zero [OF idx, of "kmem_mem k" ?d] by simp
  moreover have "load32 ?m3 (?d + 4 * i) = (if 0 = i then 0x402007 else load32 ?m2 (?d + 4 * i))"
    by (rule load_store_index) (use assms in simp_all)
  ultimately show "pde (build_space k) ?d i = (if i = 0 then 0x402007 else 0)" using load_same_page [OF st [OF al(1,3)] idx] by auto
  have "load32 ?m3 (?t + 4 * i) = 0"
    using load_same_page [OF sd [OF al(2) al(3) [symmetric]] idx] load_fill_zero [OF idx, of ?m1 ?t] by simp
  moreover have "load32 (kmem_mem (build_space k)) (?t + 4 * i) = (if 0 = i then 0x403007 else load32 ?m3 (?t + 4 * i))"
    unfolding mem by (rule load_store_index) (use assms in simp_all)
  ultimately show "load32 (kmem_mem (build_space k)) (?t + 4 * i) = (if i = 0 then 0x403007 else 0)" by auto
  show "same_page (kmem_mem (build_space k)) (kmem_mem k) p" if p: "aligned p" "p \<noteq> ?d" "p \<noteq> ?t"
  proof -
    have "same_page ?m2 ?m1 p" "same_page ?m1 (kmem_mem k) p" using fill_same_page [OF p(1)] al p by simp_all
    then show ?thesis using st [OF p(1,3)] sd [OF p(1,2)] same_page_trans by blast
  qed
qed

lemma build_space_entry:
  "entry (build_space k) 0x80401000 va = (if PDX va = 0 \<and> PTX va = 0 then 0x403007 else 0)"
  using build_space_tables(1) [OF index_lt(1), of k va] build_space_tables(2) [OF index_lt(2), of k va] build_space_tables(1) [of 0 k]
  by (cases "PDX va = 0"; cases "PTX va = 0") (simp_all add: entry_def present_def PTE_P_def page_of_def PTE_ADDR_def P2V_def KERNBASE_def)

lemma build_space_ok:
  assumes inv: "kmem_inv 0x80110000 k ys" and out: "0x80401000 \<notin> set ys" "0x80402000 \<notin> set ys" "0x80403000 \<notin> set ys"
  shows "user_ok 0x80110000 (build_space k) 0x80401000 ys"
proof -
  let ?k = "build_space k" and ?d = "0x80401000 :: u32" and ?t = "0x80402000 :: u32"
  have pg: "page_ok 0x80110000 ?d" "page_ok 0x80110000 ?t" "page_ok 0x80110000 0x80403000"
    by (simp_all add: page_ok_def aligned_def PGSIZE_def V2P_def PHYSTOP_def KERNBASE_def)
  have v: "page_of 0x402007 = ?t" "page_of 0x403007 = 0x80403000" "present 0x402007" "present 0x403007"
    by (simp_all add: page_of_def PTE_ADDR_def P2V_def KERNBASE_def present_def PTE_P_def)
  have pr: "present (pde ?k ?d i) \<longleftrightarrow> i = 0" if "unat i < 1024" for i by (simp add: build_space_tables(1) [OF that] v)
  have "tables ?k ?d = {?t}"
  proof -
    have z: "pde ?k ?d 0 = 0x402007" using build_space_tables(1) [of 0 k] by simp
    have "?t \<in> tables ?k ?d" using tables_I [of 0 ?k ?d] z v by simp
    moreover have "p = ?t" if "p \<in> tables ?k ?d" for p using that pr z v by (auto simp: tables_def)
    ultimately show ?thesis by blast
  qed
  moreover have "upages ?k ?d \<subseteq> {0x80403000}" by (auto simp: upages_def build_space_entry v split: if_splits)
  moreover have "kmem_inv 0x80110000 (k\<lparr>kmem_mem := kmem_mem ?k\<rparr>) ys"
  proof (rule kmem_inv_frame [OF inv])
    fix x assume x: "x \<in> set ys"
    then have "aligned x" using inv by (auto simp: kmem_inv_def page_ok_def)
    then show "same_page (kmem_mem ?k) (kmem_mem k) x" using build_space_tables(3) [of 0 x k] x out by auto
  qed
  then have "kmem_inv 0x80110000 ?k ys" by (simp add: build_space_def poke_def zero_page_def)
  moreover have "vpage va = vpage va'" if "present (entry ?k ?d va)" "present (entry ?k ?d va')" for va va'
    using that by (auto simp: build_space_entry vpage_def split: if_splits)
  ultimately show ?thesis using pg out pr unfolding user_ok_def space_ok_def by auto
qed

lemma demo_space_ok:
  obtains ys where "user_ok 0x80110000 demo_space 0x80401000 ys" and "1500 \<le> length ys"
    and "\<And>va. entry demo_space 0x80401000 va = (if PDX va = 0 \<and> PTX va = 0 then 0x403007 else 0)"
    and "set ys = pages_between 0x80500000 0x80B00000"
proof -
  obtain k ys where k: "freerange 0x80110000 0 [] 0x80500000 0x80B00000 boot_kmem = Inr k" "kmem_inv 0x80110000 k ys"
    "set ys = pages_between 0x80500000 0x80B00000" by (rule demo_free)
  have s: "demo_space = build_space k" by (simp add: demo_space_def k(1))
  have "1500 \<le> card (pages_between 0x80500000 0x80B00000)" by (rule pages_between_large) (simp_all add: aligned_def PGSIZE_def)
  then have "1500 \<le> length ys" using k(2,3) by (simp add: kmem_inv_def flip: distinct_card)
  moreover have "user_ok 0x80110000 demo_space 0x80401000 ys" unfolding s
    by (rule build_space_ok [OF k(2)]) (simp_all add: k(3) pages_between_def)
  moreover have "entry demo_space 0x80401000 va = (if PDX va = 0 \<and> PTX va = 0 then 0x403007 else 0)" for va by (simp add: s build_space_entry)
  ultimately show thesis using that k(3) by blast
qed

lemma demo_env_ok: "env_ok demo_env" "ke_end demo_env = 0x80110000"
  by (simp_all add: env_ok_def demo_env_def aligned_def PGSIZE_def KERNLINK_def EXTMEM_def P2V_def PHYSTOP_def KERNBASE_def)

section \<open>Fork and exit\<close>

lemma owned_pages:
  assumes "user_ok kend k d xs" and "q \<in> owned k d"
  shows "aligned q" and "q \<notin> set xs"
  using assms by (auto simp: user_ok_def owned_def space_ok_def page_ok_def)

text \<open>
  C20: \<open>fork\<close> copies memory. For a well-formed parent all of whose pages below its size are mapped,
  \<open>copyuvm\<close> neither panics nor faults. If it returns 0 there were not enough free pages and all of them are
  free again. Otherwise the child is well-formed, consists of pages that were free before and has no page
  in common with the parent, has exactly the pages below the size, with the parent's flags and contents.
  The parent's tables and pages are unchanged.
\<close>
theorem fork_copies_memory:
  assumes parent: "user_ok (ke_end e) k p xs" and env: "env_ok e" and sz: "unat sz \<le> 2 ^ 31"
    and all: "\<And>va. va < sz \<Longrightarrow> present (entry k p va)"
  shows "\<exists>d k' xs'. copyuvm e p sz k = Inr (d, k') \<and>
    user_ok (ke_end e) k' p xs' \<and> (\<forall>va. entry k' p va = entry k p va) \<and>
    (\<forall>q \<in> owned k p. same_page (kmem_mem k') (kmem_mem k) q) \<and>
    (d = 0 \<and> set xs' = set xs \<and> length xs \<le> 1026 + (unat sz + 4095) div 4096 \<or>
     d \<noteq> 0 \<and> user_ok (ke_end e) k' d xs' \<and> set xs' \<union> owned k' d = set xs \<and> owned k' d \<inter> owned k p = {} \<and> copied k' d k p \<and>
      (\<forall>va. user va \<longrightarrow> (present (entry k' d va) \<longleftrightarrow> 4096 * (unat va div 4096) < unat sz)))"
proof -
  obtain d k' xs' where c: "copyuvm e p sz k = Inr (d, k')" "kmem_inv (ke_end e) k' xs'"
    "\<forall>q. aligned q \<and> q \<notin> set xs \<longrightarrow> same_page (kmem_mem k') (kmem_mem k) q"
    "d = 0 \<and> set xs' = set xs \<and> length xs \<le> 1026 + (unat sz + 4095) div 4096 \<or>
     d \<noteq> 0 \<and> user_ok (ke_end e) k' d xs' \<and> set xs' \<union> owned k' d = set xs \<and> copied k' d k p \<and>
      (\<forall>va. user va \<longrightarrow> (present (entry k' d va) \<longleftrightarrow> 4096 * (unat va div 4096) < unat sz))"
    using copyuvm_ok [OF assms] by blast
  have fr: "same_page (kmem_mem k') (kmem_mem k) q" if "q \<in> owned k p" for q using c(3) owned_pages [OF parent that] by blast
  have dis: "set xs' \<inter> owned k p = {}" using c(4) owned_pages(2) [OF parent] by blast
  have fr': "same_page (kmem_mem k') (kmem_mem k) q" if "q = p \<or> q \<in> tables k p" for q
    using fr [of q] that by (auto simp: owned_def)
  have "user_ok (ke_end e) k' p xs'" "\<forall>va. entry k' p va = entry k p va"
    using user_ok_frame [OF parent c(2) dis fr'] by blast+
  moreover have "d \<noteq> 0 \<Longrightarrow> owned k' d \<inter> owned k p = {}" using c(4) owned_pages(2) [OF parent] by blast
  ultimately show ?thesis using c(1,4) fr by (intro exI [of _ d] exI [of _ k'] exI [of _ xs']) blast
qed

text \<open>On the concrete machine the copy succeeds.\<close>

lemma first_page: "PDX va = 0 \<and> PTX va = 0 \<longleftrightarrow> unat va < 4096"
proof -
  have "PDX va = 0 \<and> PTX va = 0 \<longleftrightarrow> unat va div 4096 div 1024 = 0 \<and> unat va div 4096 mod 1024 = 0"
    by (simp add: word_unat_eq_iff index_values)
  also have "\<dots> \<longleftrightarrow> unat va div 4096 = 0" by (metis div_0 mod_0 mod_div_mult_eq mult_zero_left plus_nat.add_0)
  finally show ?thesis by (simp add: div_eq_0_iff)
qed

theorem fork_copies_memory_witness:
  "\<exists>d k' xs'. copyuvm demo_env 0x80401000 4096 demo_space = Inr (d, k') \<and> d \<noteq> 0 \<and> user_ok 0x80110000 k' d xs' \<and>
    present (entry k' d 0) \<and> same_contents k' (page_of (entry k' d 0)) demo_space 0x80403000"
proof -
  obtain ys where ys: "user_ok 0x80110000 demo_space 0x80401000 ys" "1500 \<le> length ys"
    "\<And>va. entry demo_space 0x80401000 va = (if PDX va = 0 \<and> PTX va = 0 then 0x403007 else 0)" by (rule demo_space_ok) (rule that)
  have "present (entry demo_space 0x80401000 va)" if "va < 4096" for va
    using that by (simp add: ys(3) first_page word_less_nat_alt present_def PTE_P_def)
  moreover have "unat (4096 :: u32) \<le> 2 ^ 31" by simp
  ultimately have r: "\<exists>d k' xs'. copyuvm demo_env 0x80401000 4096 demo_space = Inr (d, k') \<and>
      (d = 0 \<and> length ys \<le> 1026 + (unat (4096 :: u32) + 4095) div 4096 \<or>
       d \<noteq> 0 \<and> user_ok 0x80110000 k' d xs' \<and> copied k' d demo_space 0x80401000 \<and>
       (\<forall>va. user va \<longrightarrow> (present (entry k' d va) \<longleftrightarrow> 4096 * (unat va div 4096) < unat (4096 :: u32))))"
    using fork_copies_memory [OF ys(1) [folded demo_env_ok(2)] demo_env_ok(1), of 4096] unfolding demo_env_ok(2) by blast
  have few: "\<not> length ys \<le> 1026 + (unat (4096 :: u32) + 4095) div 4096" using ys(2) by simp
  obtain d k' xs' where c: "copyuvm demo_env 0x80401000 4096 demo_space = Inr (d, k')"
    and d: "d \<noteq> 0" "user_ok 0x80110000 k' d xs'" "copied k' d demo_space 0x80401000"
    and pr: "\<forall>va. user va \<longrightarrow> (present (entry k' d va) \<longleftrightarrow> 4096 * (unat va div 4096) < unat (4096 :: u32))"
    using r few by blast
  have d4: "present (entry k' d 0)" using pr [rule_format, of 0] by (simp add: user_def)
  have "entry demo_space 0x80401000 0 = 0x403007" by (simp add: ys(3) PDX_def PTX_def)
  then have "page_of (entry demo_space 0x80401000 0) = 0x80403000" by (simp add: page_of_def PTE_ADDR_def P2V_def KERNBASE_def)
  moreover have "same_contents k' (page_of (entry k' d 0)) demo_space (page_of (entry demo_space 0x80401000 0))"
    using d(3) d4 unfolding copied_def by (simp add: user_def)
  ultimately show ?thesis using c d d4 by (intro exI [of _ d] exI [of _ k'] exI [of _ xs']) simp
qed

end
