(* ===== verification/Xv6_Sched.thy ===== *)
theory Xv6_Sched
  imports Uefi
begin

text \<open>
  An abstract machine for the life of processes: what \<open>proc.c\<close> promises about states, process ids,
  parents and sleeping, for every interleaving of the critical sections. \<open>Xv6_Life\<close> shows that the table of
  \<open>Xv6_Proc\<close> implements it.
\<close>

section \<open>The machine\<close>

datatype procstate = UNUSED | EMBRYO | SLEEPING | RUNNABLE | RUNNING | ZOMBIE

text \<open>What a process sleeps on is an address: that of a process in \<open>wait\<close>, or another one.\<close>

datatype chan = Proc_Chan nat | Chan u32

definition NPROC :: nat where "NPROC = 64"
definition NCPU :: nat where "NCPU = 8"

record task =
  t_state :: procstate
  t_pid :: int
  t_parent :: "nat option"
  t_chan :: "chan option"
  t_killed :: bool
  t_stack :: bool
  t_space :: bool

text \<open>
  Where a process is inside the system calls that have several critical sections: \<open>wait\<close>, \<open>fork\<close> (a slot
  has been taken, it has a stack, it is complete) and \<open>exit\<close>.
\<close>

datatype call_phase = Outside | In_wait | Forking nat | Copying nat | Forked nat | Exiting

record sched =
  tasks :: "nat \<Rightarrow> task"
  t_init :: "nat option"
  t_next :: int
  on_cpu :: "nat \<Rightarrow> nat option"
  phase :: "nat \<Rightarrow> call_phase"

definition upd :: "nat \<Rightarrow> (task \<Rightarrow> task) \<Rightarrow> sched \<Rightarrow> sched" where
  "upd i f m = m\<lparr>tasks := (tasks m)(i := f (tasks m i))\<rparr>"

definition to_state :: "nat \<Rightarrow> procstate \<Rightarrow> sched \<Rightarrow> sched" where
  "to_state i st = upd i (t_state_update (\<lambda>_. st))"

definition to_phase :: "nat \<Rightarrow> call_phase \<Rightarrow> sched \<Rightarrow> sched" where
  "to_phase i p m = m\<lparr>phase := (phase m)(i := p)\<rparr>"

definition free_cpu :: "nat \<Rightarrow> sched \<Rightarrow> sched" where
  "free_cpu c m = m\<lparr>on_cpu := (on_cpu m)(c := None)\<rparr>"

definition woken_task :: "chan option \<Rightarrow> task \<Rightarrow> task" where
  "woken_task c t = (if t_state t = SLEEPING \<and> t_chan t = c then t\<lparr>t_state := RUNNABLE\<rparr> else t)"

definition wake :: "chan option \<Rightarrow> sched \<Rightarrow> sched" where
  "wake c m = m\<lparr>tasks := (\<lambda>i. if i < NPROC then woken_task c (tasks m i) else tasks m i)\<rparr>"

definition runs :: "sched \<Rightarrow> nat \<Rightarrow> nat \<Rightarrow> bool" where
  "runs m c i \<longleftrightarrow> c < NCPU \<and> i < NPROC \<and> on_cpu m c = Some i"

definition child :: "sched \<Rightarrow> nat \<Rightarrow> nat \<Rightarrow> bool" where
  "child m i j \<longleftrightarrow> j < NPROC \<and> t_parent (tasks m j) = Some i"

text \<open>The end of a process: its children go to the first process, and whoever may wait for one is woken.\<close>

definition ended :: "nat \<Rightarrow> sched \<Rightarrow> sched" where
  "ended i m =
     (let m1 = wake (map_option Proc_Chan (t_parent (tasks m i))) m;
          m2 = (if \<exists>j. child m i j \<and> t_state (tasks m j) = ZOMBIE then wake (map_option Proc_Chan (t_init m)) m1 else m1);
          m3 = m2\<lparr>tasks := (\<lambda>j. if child m i j then (tasks m2 j)\<lparr>t_parent := t_init m\<rparr> else tasks m2 j)\<rparr>
      in to_state i ZOMBIE m3)"

inductive sched_step :: "sched \<Rightarrow> sched \<Rightarrow> bool" where
  take_slot: "runs m c i \<Longrightarrow> phase m i = Outside \<Longrightarrow> np < NPROC \<Longrightarrow> t_state (tasks m np) = UNUSED \<Longrightarrow>
    sched_step m (to_phase i (Forking np) (upd np (\<lambda>t. t\<lparr>t_state := EMBRYO, t_pid := t_next m\<rparr>) (m\<lparr>t_next := t_next m + 1\<rparr>)))"
| got_stack: "runs m c i \<Longrightarrow> phase m i = Forking np \<Longrightarrow>
    sched_step m (to_phase i (Copying np) (upd np (t_stack_update (\<lambda>_. True)) m))"
| no_stack: "runs m c i \<Longrightarrow> phase m i = Forking np \<Longrightarrow>
    sched_step m (to_phase i Outside (upd np (\<lambda>t. t\<lparr>t_stack := False, t_state := UNUSED\<rparr>) m))"
| copied_space: "runs m c i \<Longrightarrow> phase m i = Copying np \<Longrightarrow>
    sched_step m (to_phase i (Forked np) (upd np (\<lambda>t. t\<lparr>t_space := True, t_parent := Some i\<rparr>) m))"
| no_space: "runs m c i \<Longrightarrow> phase m i = Copying np \<Longrightarrow>
    sched_step m (to_phase i Outside (upd np (\<lambda>t. t\<lparr>t_space := False, t_stack := False, t_state := UNUSED\<rparr>) m))"
| publish: "runs m c i \<Longrightarrow> phase m i = Forked np \<Longrightarrow>
    sched_step m (to_phase i Outside (to_state np RUNNABLE m))"
| closed_files: "runs m c i \<Longrightarrow> phase m i = Outside \<Longrightarrow> t_init m \<noteq> Some i \<Longrightarrow> sched_step m (to_phase i Exiting m)"
| finish: "runs m c i \<Longrightarrow> phase m i = Exiting \<Longrightarrow> sched_step m (free_cpu c (to_phase i Outside (ended i m)))"
| reaped: "runs m c i \<Longrightarrow> phase m i \<in> {Outside, In_wait} \<Longrightarrow> child m i j \<Longrightarrow> t_state (tasks m j) = ZOMBIE \<Longrightarrow>
    sched_step m (to_phase i Outside (upd j (\<lambda>t. t\<lparr>t_stack := False, t_pid := 0, t_parent := None, t_killed := False, t_state := UNUSED\<rparr>) m))"
| nothing_to_wait: "runs m c i \<Longrightarrow> phase m i \<in> {Outside, In_wait} \<Longrightarrow> (\<forall>j. \<not> child m i j) \<or> t_killed (tasks m i) \<Longrightarrow>
    sched_step m (to_phase i Outside m)"
| wait_asleep: "runs m c i \<Longrightarrow> phase m i \<in> {Outside, In_wait} \<Longrightarrow> \<forall>j. child m i j \<longrightarrow> t_state (tasks m j) \<noteq> ZOMBIE \<Longrightarrow>
    child m i k \<Longrightarrow> \<not> t_killed (tasks m i) \<Longrightarrow>
    sched_step m (free_cpu c (to_phase i In_wait (upd i (\<lambda>t. t\<lparr>t_chan := Some (Proc_Chan i), t_state := SLEEPING\<rparr>) m)))"
| sleeps: "runs m c i \<Longrightarrow> phase m i \<in> {Outside, Exiting} \<Longrightarrow>
    sched_step m (free_cpu c (upd i (\<lambda>t. t\<lparr>t_chan := Some (Chan a), t_state := SLEEPING\<rparr>) m))"
| yields: "runs m c i \<Longrightarrow> phase m i \<noteq> In_wait \<Longrightarrow> sched_step m (free_cpu c (to_state i RUNNABLE m))"
| wakes: "sched_step m (wake (Some (Chan a)) m)"
| kills: "p < NPROC \<Longrightarrow> sched_step m (upd p (\<lambda>t. t\<lparr>t_killed := True, t_state := (if t_state t = SLEEPING then RUNNABLE else t_state t)\<rparr>) m)"
| dispatched: "c < NCPU \<Longrightarrow> on_cpu m c = None \<Longrightarrow> p < NPROC \<Longrightarrow> t_state (tasks m p) = RUNNABLE \<Longrightarrow>
    sched_step m (upd p (\<lambda>t. t\<lparr>t_state := RUNNING, t_chan := None\<rparr>) (m\<lparr>on_cpu := (on_cpu m)(c := Some p)\<rparr>))"

section \<open>The invariant\<close>

definition active :: "task \<Rightarrow> bool" where
  "active t \<longleftrightarrow> t_state t \<in> {SLEEPING, RUNNABLE, RUNNING}"

definition builds :: "call_phase \<Rightarrow> nat \<Rightarrow> bool" where
  "builds ph np \<longleftrightarrow> ph \<in> {Forking np, Copying np, Forked np}"

definition cpu_inv :: "sched \<Rightarrow> bool" where
  "cpu_inv m \<longleftrightarrow>
     (\<forall>c < NCPU. \<forall>i. on_cpu m c = Some i \<longrightarrow> i < NPROC \<and> t_state (tasks m i) = RUNNING) \<and>
     (\<forall>i < NPROC. t_state (tasks m i) = RUNNING \<longrightarrow> (\<exists>c < NCPU. on_cpu m c = Some i)) \<and>
     (\<forall>c < NCPU. \<forall>d < NCPU. on_cpu m c = on_cpu m d \<and> on_cpu m c \<noteq> None \<longrightarrow> c = d)"

definition pid_inv :: "sched \<Rightarrow> bool" where
  "pid_inv m \<longleftrightarrow> 0 < t_next m \<and>
     (\<forall>i < NPROC. t_state (tasks m i) \<noteq> UNUSED \<longrightarrow> 0 < t_pid (tasks m i) \<and> t_pid (tasks m i) < t_next m) \<and>
     (\<forall>i < NPROC. \<forall>j < NPROC. t_state (tasks m i) \<noteq> UNUSED \<and> t_state (tasks m j) \<noteq> UNUSED \<and>
        t_pid (tasks m i) = t_pid (tasks m j) \<longrightarrow> i = j)"

text \<open>Which slot is being filled by whom, and in which state the caller of a system call is.\<close>

definition phase_inv :: "sched \<Rightarrow> bool" where
  "phase_inv m \<longleftrightarrow>
     (\<forall>i < NPROC. phase m i \<noteq> Outside \<longrightarrow> active (tasks m i)) \<and>
     (\<forall>i < NPROC. \<forall>np. builds (phase m i) np \<longrightarrow> np < NPROC \<and> t_state (tasks m np) = EMBRYO \<and> t_state (tasks m i) \<noteq> SLEEPING \<and>
        t_parent (tasks m np) = (if phase m i = Forked np then Some i else None)) \<and>
     (\<forall>i < NPROC. \<forall>j < NPROC. \<forall>np. builds (phase m i) np \<and> builds (phase m j) np \<longrightarrow> i = j) \<and>
     (\<forall>np < NPROC. t_state (tasks m np) = EMBRYO \<longrightarrow> (\<exists>i < NPROC. builds (phase m i) np))"

text \<open>Who has a parent. The first process never ends.\<close>

definition parent_inv :: "sched \<Rightarrow> bool" where
  "parent_inv m \<longleftrightarrow>
     (\<exists>r < NPROC. t_init m = Some r \<and> active (tasks m r) \<and> t_parent (tasks m r) = None \<and> phase m r \<noteq> Exiting) \<and>
     (\<forall>i < NPROC. \<forall>j. t_parent (tasks m i) = Some j \<longrightarrow> j < NPROC \<and> j \<noteq> i \<and> active (tasks m j) \<and> t_state (tasks m i) \<noteq> UNUSED) \<and>
     (\<forall>i < NPROC. (active (tasks m i) \<or> t_state (tasks m i) = ZOMBIE) \<and> t_init m \<noteq> Some i \<longrightarrow> t_parent (tasks m i) \<noteq> None)"

text \<open>No wakeup is lost: who sleeps in \<open>wait\<close> has a child, none that has ended, and has not been killed.\<close>

definition wait_inv :: "sched \<Rightarrow> bool" where
  "wait_inv m \<longleftrightarrow>
     (\<forall>i < NPROC. phase m i = In_wait \<and> t_state (tasks m i) = SLEEPING \<longrightarrow>
        t_chan (tasks m i) = Some (Proc_Chan i) \<and> \<not> t_killed (tasks m i) \<and> (\<exists>j. child m i j) \<and>
        (\<forall>j. child m i j \<longrightarrow> t_state (tasks m j) \<noteq> ZOMBIE))"

text \<open>Who can be run has a kernel stack and an address space.\<close>

definition stack_inv :: "sched \<Rightarrow> bool" where
  "stack_inv m \<longleftrightarrow>
     (\<forall>i < NPROC. active (tasks m i) \<longrightarrow> t_stack (tasks m i) \<and> t_space (tasks m i)) \<and>
     (\<forall>i < NPROC. \<forall>np. (phase m i = Copying np \<longrightarrow> t_stack (tasks m np)) \<and>
        (phase m i = Forked np \<longrightarrow> t_stack (tasks m np) \<and> t_space (tasks m np)))"

definition sched_inv :: "sched \<Rightarrow> bool" where
  "sched_inv m \<longleftrightarrow> cpu_inv m \<and> pid_inv m \<and> phase_inv m \<and> parent_inv m \<and> wait_inv m \<and> stack_inv m"

section \<open>The invariant is kept\<close>

lemma sched_simps [simp]:
  "tasks (upd i f m) = (tasks m)(i := f (tasks m i))" "t_init (upd i f m) = t_init m" "t_next (upd i f m) = t_next m"
  "on_cpu (upd i f m) = on_cpu m" "phase (upd i f m) = phase m"
  "tasks (to_phase i p m) = tasks m" "t_init (to_phase i p m) = t_init m" "t_next (to_phase i p m) = t_next m"
  "on_cpu (to_phase i p m) = on_cpu m" "phase (to_phase i p m) = (phase m)(i := p)"
  "tasks (free_cpu c m) = tasks m" "t_init (free_cpu c m) = t_init m" "t_next (free_cpu c m) = t_next m"
  "on_cpu (free_cpu c m) = (on_cpu m)(c := None)" "phase (free_cpu c m) = phase m"
  "tasks (wake ch m) = (\<lambda>i. if i < NPROC then woken_task ch (tasks m i) else tasks m i)"
  "t_init (wake ch m) = t_init m" "t_next (wake ch m) = t_next m" "on_cpu (wake ch m) = on_cpu m" "phase (wake ch m) = phase m"
  by (simp_all add: upd_def to_phase_def free_cpu_def wake_def)

lemma woken_simps [simp]:
  "t_pid (woken_task c t) = t_pid t" "t_parent (woken_task c t) = t_parent t" "t_chan (woken_task c t) = t_chan t"
  "t_killed (woken_task c t) = t_killed t" "t_stack (woken_task c t) = t_stack t" "t_space (woken_task c t) = t_space t"
  "active (woken_task c t) = active t"
  by (auto simp: woken_task_def active_def)

lemma woken_state:
  "t_state (woken_task c t) = (if t_state t = SLEEPING \<and> t_chan t = c then RUNNABLE else t_state t)"
  by (simp add: woken_task_def)

lemma ended_simps [simp]:
  "t_init (ended i m) = t_init m" "t_next (ended i m) = t_next m" "on_cpu (ended i m) = on_cpu m" "phase (ended i m) = phase m"
  by (simp_all add: ended_def Let_def to_state_def)

text \<open>The tasks after the end of task \<open>i\<close>.\<close>

lemma ended_task:
  assumes "j < NPROC"
  shows "t_pid (tasks (ended i m) j) = t_pid (tasks m j)" "t_chan (tasks (ended i m) j) = t_chan (tasks m j)"
    "t_killed (tasks (ended i m) j) = t_killed (tasks m j)" "t_stack (tasks (ended i m) j) = t_stack (tasks m j)"
    "t_space (tasks (ended i m) j) = t_space (tasks m j)"
    "j \<noteq> i \<Longrightarrow> active (tasks (ended i m) j) = active (tasks m j)"
    "t_parent (tasks (ended i m) j) = (if t_parent (tasks m j) = Some i then t_init m else t_parent (tasks m j))"
    "t_state (tasks (ended i m) j) =
       (if j = i then ZOMBIE
        else if t_state (tasks m j) = SLEEPING \<and>
          (t_chan (tasks m j) = map_option Proc_Chan (t_parent (tasks m i)) \<or>
           (\<exists>k. child m i k \<and> t_state (tasks m k) = ZOMBIE) \<and> t_chan (tasks m j) = map_option Proc_Chan (t_init m))
        then RUNNABLE else t_state (tasks m j))"
  using assms by (auto simp: ended_def Let_def to_state_def child_def woken_state active_def)

lemmas sched_defs = upd_def to_state_def to_phase_def free_cpu_def wake_def

lemma sched_invD:
  assumes "sched_inv m"
  shows "cpu_inv m" "pid_inv m" "phase_inv m" "parent_inv m" "wait_inv m" "stack_inv m"
  using assms by (simp_all add: sched_inv_def)

lemma runs_running: "cpu_inv m \<Longrightarrow> runs m c i \<Longrightarrow> t_state (tasks m i) = RUNNING"
  by (auto simp: cpu_inv_def runs_def)

lemma runsD:
  assumes "sched_inv m" and "runs m c i"
  shows "i < NPROC" "c < NCPU" "on_cpu m c = Some i" "t_state (tasks m i) = RUNNING" "active (tasks m i)"
  using assms runs_running [of m c i] by (auto simp: runs_def sched_inv_def active_def)

lemma buildsD:
  assumes "sched_inv m" and "i < NPROC" and "builds (phase m i) np"
  shows "np < NPROC" "t_state (tasks m np) = EMBRYO" "\<not> active (tasks m np)" "t_parent (tasks m np) = (if phase m i = Forked np then Some i else None)"
    "j < NPROC \<Longrightarrow> builds (phase m j) np \<longleftrightarrow> j = i"
proof -
  have inv: "phase_inv m" using assms(1) by (simp add: sched_inv_def)
  from inv assms(2,3) show *: "np < NPROC" "t_state (tasks m np) = EMBRYO" "t_parent (tasks m np) = (if phase m i = Forked np then Some i else None)"
    unfolding phase_inv_def by blast+
  then show "\<not> active (tasks m np)" by (simp add: active_def)
  show "j < NPROC \<Longrightarrow> builds (phase m j) np \<longleftrightarrow> j = i" using inv assms(2,3) unfolding phase_inv_def by blast
qed

lemma builds_simps [simp]: "builds (Forking a) b = (b = a)" "builds (Copying a) b = (b = a)" "builds (Forked a) b = (b = a)"
  "\<not> builds Outside b" "\<not> builds In_wait b" "\<not> builds Exiting b"
  by (auto simp: builds_def)

lemma builds_not_Normal: "builds p q \<Longrightarrow> p \<noteq> Outside" by auto

lemma cpu_keep:
  assumes "cpu_inv m" and "on_cpu m' = on_cpu m"
    and "\<And>i. i < NPROC \<Longrightarrow> t_state (tasks m' i) = RUNNING \<longleftrightarrow> t_state (tasks m i) = RUNNING"
  shows "cpu_inv m'"
  using assms unfolding cpu_inv_def by metis

lemma cpu_leave:
  assumes "sched_inv m" and "runs m c i" and "on_cpu m' = (on_cpu m)(c := None)"
    and "\<And>j. j < NPROC \<Longrightarrow> t_state (tasks m' j) = RUNNING \<longleftrightarrow> j \<noteq> i \<and> t_state (tasks m j) = RUNNING"
  shows "cpu_inv m'"
proof -
  note r = runsD [OF assms(1,2)]
  have inv: "cpu_inv m" using assms(1) by (simp add: sched_inv_def)
  have 1: "d < NCPU \<Longrightarrow> on_cpu m' d = Some j \<Longrightarrow> d \<noteq> c \<and> on_cpu m d = Some j \<and> j \<noteq> i" for d j
    using inv r(2,3) unfolding assms(3) cpu_inv_def by (metis fun_upd_apply option.distinct(1))
  have 2: "d < NCPU \<Longrightarrow> on_cpu m d = Some j \<Longrightarrow> j \<noteq> i \<Longrightarrow> on_cpu m' d = Some j" for d j
    using r(3) unfolding assms(3) by auto
  show ?thesis unfolding cpu_inv_def
  proof (intro conjI allI impI)
    fix d j assume "d < NCPU" "on_cpu m' d = Some j"
    then show "j < NPROC" "t_state (tasks m' j) = RUNNING" using 1 [of d j] inv assms(4) [of j] unfolding cpu_inv_def by blast+
  next
    fix j assume "j < NPROC" "t_state (tasks m' j) = RUNNING"
    then show "\<exists>d < NCPU. on_cpu m' d = Some j" using assms(4) [of j] inv 2 unfolding cpu_inv_def by blast
  next
    fix a b assume "a < NCPU" "b < NCPU" "on_cpu m' a = on_cpu m' b \<and> on_cpu m' a \<noteq> None"
    then show "a = b" using 1 inv unfolding cpu_inv_def by (metis option.exhaust)
  qed
qed

lemma cpu_enter:
  assumes "cpu_inv m" and "c < NCPU" and "on_cpu m c = None" and "p < NPROC" and "t_state (tasks m p) \<noteq> RUNNING"
    and "on_cpu m' = (on_cpu m)(c := Some p)"
    and "\<And>j. j < NPROC \<Longrightarrow> t_state (tasks m' j) = RUNNING \<longleftrightarrow> j = p \<or> t_state (tasks m j) = RUNNING"
  shows "cpu_inv m'"
  unfolding cpu_inv_def
proof (intro conjI allI impI)
  fix d j assume "d < NCPU" "on_cpu m' d = Some j"
  then show "j < NPROC" "t_state (tasks m' j) = RUNNING" using assms unfolding cpu_inv_def by (auto split: if_splits)
next
  fix j assume "j < NPROC" "t_state (tasks m' j) = RUNNING"
  then show "\<exists>d < NCPU. on_cpu m' d = Some j" using assms unfolding cpu_inv_def by (metis fun_upd_apply option.distinct(1))
next
  fix a b assume "a < NCPU" "b < NCPU" "on_cpu m' a = on_cpu m' b \<and> on_cpu m' a \<noteq> None"
  then show "a = b" using assms unfolding cpu_inv_def by (auto split: if_splits) metis
qed

lemma cpu_step:
  assumes "sched_step m m'" and "sched_inv m"
  shows "cpu_inv m'"
  using assms
proof (induction rule: sched_step.induct)
  case (take_slot m c i np)
  then show ?case by (intro cpu_keep [OF sched_invD(1) [OF take_slot.prems]]) auto
next
  case (got_stack m c i np)
  then show ?case by (intro cpu_keep [OF sched_invD(1) [OF got_stack.prems]]) auto
next
  case (no_stack m c i np)
  then show ?case using buildsD [OF no_stack.prems, of i np] runsD [OF no_stack.prems no_stack.hyps(1)]
    by (intro cpu_keep [OF sched_invD(1) [OF no_stack.prems]]) auto
next
  case (copied_space m c i np)
  then show ?case by (intro cpu_keep [OF sched_invD(1) [OF copied_space.prems]]) auto
next
  case (no_space m c i np)
  then show ?case using buildsD [OF no_space.prems, of i np] runsD [OF no_space.prems no_space.hyps(1)]
    by (intro cpu_keep [OF sched_invD(1) [OF no_space.prems]]) auto
next
  case (publish m c i np)
  then show ?case using buildsD [OF publish.prems, of i np] runsD [OF publish.prems publish.hyps(1)]
    by (intro cpu_keep [OF sched_invD(1) [OF publish.prems]]) (auto simp: to_state_def)
next
  case (closed_files m c i)
  then show ?case by (intro cpu_keep [OF sched_invD(1) [OF closed_files.prems]]) auto
next
  case (finish m c i)
  then show ?case by (intro cpu_leave [OF finish.prems finish.hyps(1)]) (auto simp: ended_task)
next
  case (reaped m c i j)
  then show ?case by (intro cpu_keep [OF sched_invD(1) [OF reaped.prems]]) auto
next
  case (nothing_to_wait m c i)
  then show ?case by (intro cpu_keep [OF sched_invD(1) [OF nothing_to_wait.prems]]) auto
next
  case (wait_asleep m c i k)
  then show ?case by (intro cpu_leave [OF wait_asleep.prems wait_asleep.hyps(1)]) auto
next
  case (sleeps m c i a)
  then show ?case by (intro cpu_leave [OF sleeps.prems sleeps.hyps(1)]) auto
next
  case (yields m c i)
  then show ?case by (intro cpu_leave [OF yields.prems yields.hyps(1)]) (auto simp: to_state_def)
next
  case (wakes m a)
  then show ?case by (intro cpu_keep [OF sched_invD(1) [OF wakes.prems]]) (auto simp: woken_state)
next
  case (kills p m)
  then show ?case by (intro cpu_keep [OF sched_invD(1) [OF kills.prems]]) auto
next
  case (dispatched c m p)
  then show ?case by (intro cpu_enter [OF sched_invD(1) [OF dispatched.prems] dispatched.hyps(1-3)]) auto
qed


lemma pid_keep:
  assumes "pid_inv m" and "t_next m' = t_next m"
    and "\<And>i. i < NPROC \<Longrightarrow> t_state (tasks m' i) \<noteq> UNUSED \<Longrightarrow>
      t_state (tasks m i) \<noteq> UNUSED \<and> t_pid (tasks m' i) = t_pid (tasks m i)"
  shows "pid_inv m'"
  using assms unfolding pid_inv_def by metis

lemma pid_new:
  assumes "pid_inv m" and "t_next m' = t_next m + 1" and "t_pid (tasks m' np) = t_next m"
    and same: "\<And>i. i < NPROC \<Longrightarrow> i \<noteq> np \<Longrightarrow> tasks m' i = tasks m i"
  shows "pid_inv m'"
proof -
  have old: "0 < t_pid (tasks m j) \<and> t_pid (tasks m j) < t_next m" if "j < NPROC" "t_state (tasks m j) \<noteq> UNUSED" for j
    using assms(1) that unfolding pid_inv_def by blast
  have nxt: "0 < t_next m" using assms(1) by (simp add: pid_inv_def)
  have new: "0 < t_pid (tasks m' j) \<and> t_pid (tasks m' j) \<le> t_next m \<and> (t_pid (tasks m' j) = t_next m \<longleftrightarrow> j = np)"
    if "j < NPROC" "t_state (tasks m' j) \<noteq> UNUSED" for j
    using same [OF that(1)] old [of j] that assms(3) nxt by (cases "j = np") auto
  have "j = k" if "j < NPROC" "k < NPROC" "t_state (tasks m' j) \<noteq> UNUSED" "t_state (tasks m' k) \<noteq> UNUSED"
    "t_pid (tasks m' j) = t_pid (tasks m' k)" for j k
  proof (cases "j = np \<or> k = np")
    case True
    then show ?thesis using new [of j] new [of k] that by metis
  next
    case False
    then show ?thesis using same [of j] same [of k] that assms(1) unfolding pid_inv_def by metis
  qed
  then show ?thesis using new assms(2) nxt unfolding pid_inv_def by (metis add1_zle_eq add_strict_increasing le_add_same_cancel1 order_le_less zle_add1_eq_le zless_add1_eq)
qed

lemma running_state: "sched_inv m \<Longrightarrow> runs m c i \<Longrightarrow> t_state (tasks m i) = RUNNING" by (rule runsD)

lemma pid_step:
  assumes "sched_step m m'" and "sched_inv m"
  shows "pid_inv m'"
proof -
  have inv: "pid_inv m" using assms(2) by (simp add: sched_inv_def)
  show ?thesis using assms(1)
  proof cases
    case (take_slot c i np)
    then show ?thesis by (intro pid_new [OF inv, of m' np]) auto
  next
    case (no_stack c i np)
    then show ?thesis by (intro pid_keep [OF inv]) (auto split: if_splits)
  next
    case (publish c i np)
    then show ?thesis using buildsD(2) [OF assms(2), of i np] by (intro pid_keep [OF inv]) (auto simp: to_state_def runs_def split: if_splits)
  next
    case (finish c i)
    then show ?thesis using runsD [OF assms(2) finish(2)] by (intro pid_keep [OF inv]) (auto simp: ended_task split: if_splits)
  qed (use runsD [OF assms(2)] in \<open>auto intro!: pid_keep [OF inv] simp: to_state_def woken_state split: if_splits\<close>)
qed


lemma phase_invD:
  assumes "phase_inv m" and "i < NPROC"
  shows "phase m i \<noteq> Outside \<Longrightarrow> active (tasks m i)"
    and "builds (phase m i) np \<Longrightarrow> np < NPROC" and "builds (phase m i) np \<Longrightarrow> t_state (tasks m np) = EMBRYO"
    and "builds (phase m i) np \<Longrightarrow> t_state (tasks m i) \<noteq> SLEEPING"
    and "builds (phase m i) np \<Longrightarrow> t_parent (tasks m np) = (if phase m i = Forked np then Some i else None)"
    and "builds (phase m i) np \<Longrightarrow> j < NPROC \<Longrightarrow> builds (phase m j) np \<Longrightarrow> j = i"
    and "t_state (tasks m i) = EMBRYO \<Longrightarrow> \<exists>j < NPROC. builds (phase m j) i"
  using assms unfolding phase_inv_def by blast+

lemma phase_invI:
  assumes "\<And>i. i < NPROC \<Longrightarrow> phase m i \<noteq> Outside \<Longrightarrow> active (tasks m i)"
    and "\<And>i np. i < NPROC \<Longrightarrow> builds (phase m i) np \<Longrightarrow> np < NPROC \<and> t_state (tasks m np) = EMBRYO \<and>
      t_state (tasks m i) \<noteq> SLEEPING \<and> t_parent (tasks m np) = (if phase m i = Forked np then Some i else None)"
    and "\<And>i j np. i < NPROC \<Longrightarrow> j < NPROC \<Longrightarrow> builds (phase m i) np \<Longrightarrow> builds (phase m j) np \<Longrightarrow> j = i"
    and "\<And>np. np < NPROC \<Longrightarrow> t_state (tasks m np) = EMBRYO \<Longrightarrow> \<exists>i < NPROC. builds (phase m i) np"
  shows "phase_inv m"
  using assms unfolding phase_inv_def by blast

text \<open>Steps that leave the slots under construction alone.\<close>

lemma phase_keep:
  assumes inv: "phase_inv m"
    and ph: "\<And>i np. i < NPROC \<Longrightarrow> builds (phase m i) np \<or> builds (phase m' i) np \<Longrightarrow>
      builds (phase m i) np \<and> builds (phase m' i) np \<and> (phase m' i = Forked np \<longleftrightarrow> phase m i = Forked np) \<and> t_state (tasks m' i) \<noteq> SLEEPING"
    and act: "\<And>i. i < NPROC \<Longrightarrow> phase m' i \<noteq> Outside \<Longrightarrow> active (tasks m' i)"
    and emb: "\<And>i. i < NPROC \<Longrightarrow> t_state (tasks m i) = EMBRYO \<or> t_state (tasks m' i) = EMBRYO \<Longrightarrow>
      t_state (tasks m' i) = EMBRYO \<and> t_state (tasks m i) = EMBRYO \<and> t_parent (tasks m' i) = t_parent (tasks m i)"
  shows "phase_inv m'"
proof (rule phase_invI)
  fix i np assume i: "i < NPROC" and b: "builds (phase m' i) np"
  note p = ph [OF i disjI2 [OF b]]
  then have np: "np < NPROC" "t_state (tasks m np) = EMBRYO" "t_parent (tasks m np) = (if phase m i = Forked np then Some i else None)"
    using phase_invD [OF inv i] by blast+
  then show "np < NPROC \<and> t_state (tasks m' np) = EMBRYO \<and> t_state (tasks m' i) \<noteq> SLEEPING \<and>
      t_parent (tasks m' np) = (if phase m' i = Forked np then Some i else None)"
    using p emb [OF np(1) disjI1 [OF np(2)]] by simp
next
  fix i j np assume "i < NPROC" "j < NPROC" "builds (phase m' i) np" "builds (phase m' j) np"
  then show "j = i" using ph phase_invD(6) [OF inv] by blast
next
  fix np assume np: "np < NPROC" "t_state (tasks m' np) = EMBRYO"
  then have "t_state (tasks m np) = EMBRYO" using emb by blast
  then show "\<exists>i < NPROC. builds (phase m' i) np" using phase_invD(7) [OF inv np(1)] ph by blast
qed (rule act)

lemma phase_same:
  assumes inv: "phase_inv m"
    and ph: "\<And>i. i < NPROC \<Longrightarrow> phase m' i = phase m i \<or> (phase m i \<in> {Outside, In_wait, Exiting} \<and> phase m' i \<in> {Outside, In_wait, Exiting})"
    and awake: "\<And>i. i < NPROC \<Longrightarrow> t_state (tasks m i) \<noteq> SLEEPING \<Longrightarrow> phase m i \<notin> {Outside, In_wait, Exiting} \<Longrightarrow> t_state (tasks m' i) \<noteq> SLEEPING"
    and act: "\<And>i. i < NPROC \<Longrightarrow> phase m' i \<noteq> Outside \<Longrightarrow> (phase m i \<noteq> Outside \<Longrightarrow> active (tasks m i)) \<Longrightarrow> active (tasks m' i)"
    and emb: "\<And>i. i < NPROC \<Longrightarrow> t_state (tasks m i) = EMBRYO \<or> t_state (tasks m' i) = EMBRYO \<Longrightarrow>
      t_state (tasks m' i) = EMBRYO \<and> t_state (tasks m i) = EMBRYO \<and> t_parent (tasks m' i) = t_parent (tasks m i)"
  shows "phase_inv m'"
proof (rule phase_keep [OF inv])
  fix i np assume i: "i < NPROC" and b: "builds (phase m i) np \<or> builds (phase m' i) np"
  then have "phase m' i = phase m i" "phase m i \<notin> {Outside, In_wait, Exiting}" using ph [OF i] by (auto simp: builds_def)
  then show "builds (phase m i) np \<and> builds (phase m' i) np \<and> (phase m' i = Forked np \<longleftrightarrow> phase m i = Forked np) \<and> t_state (tasks m' i) \<noteq> SLEEPING"
    using b awake [OF i] phase_invD(4) [OF inv i] by auto
qed (use act phase_invD(1) [OF inv] emb in blast)+

text \<open>The end of a construction.\<close>

lemma phase_drop:
  assumes inv: "phase_inv m" and i: "i < NPROC" "builds (phase m i) np" "phase m' = (phase m)(i := Outside)"
    and np: "t_state (tasks m' np) \<noteq> EMBRYO" and same: "\<And>j. j < NPROC \<Longrightarrow> j \<noteq> np \<Longrightarrow> tasks m' j = tasks m j"
  shows "phase_inv m'"
proof -
  have not_np: "j \<noteq> np" if "j < NPROC" "active (tasks m j)" for j using phase_invD(3) [OF inv i(1,2)] that(2) by (auto simp: active_def)
  show ?thesis
  proof (rule phase_invI)
    fix j assume j: "j < NPROC" "phase m' j \<noteq> Outside"
    then have "active (tasks m j)" using phase_invD(1) [OF inv j(1)] i(3) by (auto split: if_splits)
    then show "active (tasks m' j)" using same [OF j(1)] not_np [OF j(1)] by simp
  next
    fix j q assume j: "j < NPROC" and b: "builds (phase m' j) q"
    then have ji: "j \<noteq> i" "builds (phase m j) q" "phase m' j = phase m j" using i(3) by (auto split: if_splits)
    then have "q \<noteq> np" using phase_invD(6) [OF inv i(1,2) j] by auto
    moreover have "j \<noteq> np" using not_np [OF j phase_invD(1) [OF inv j builds_not_Normal [OF ji(2)]]] by simp
    ultimately show "q < NPROC \<and> t_state (tasks m' q) = EMBRYO \<and> t_state (tasks m' j) \<noteq> SLEEPING \<and>
        t_parent (tasks m' q) = (if phase m' j = Forked q then Some j else None)"
      using phase_invD(2-5) [OF inv j ji(2)] same j ji(3) by simp
  next
    fix a b q assume "a < NPROC" "b < NPROC" "builds (phase m' a) q" "builds (phase m' b) q"
    then show "b = a" using phase_invD(6) [OF inv] i(3) by (auto split: if_splits)
  next
    fix q assume q: "q < NPROC" "t_state (tasks m' q) = EMBRYO"
    then have "q \<noteq> np" using np by auto
    then obtain j where j: "j < NPROC" "builds (phase m j) q" using phase_invD(7) [OF inv q(1)] same q by auto
    then have "j \<noteq> i" using \<open>q \<noteq> np\<close> i(2) by (auto simp: builds_def)
    then show "\<exists>j < NPROC. builds (phase m' j) q" using j i(3) by auto
  qed
qed

lemma phase_step:
  assumes "sched_step m m'" and "sched_inv m"
  shows "phase_inv m'"
proof -
  have inv: "phase_inv m" using assms(2) by (simp add: sched_inv_def)
  note D = phase_invD [OF inv]
  show ?thesis using assms(1)
  proof cases
    case (take_slot c i np)
    note r = runsD [OF assms(2) take_slot(2)]
    show ?thesis
    proof (rule phase_invI)
      fix j assume j: "j < NPROC" "phase m' j \<noteq> Outside"
      then have "active (tasks m j)" using D(1) [OF j(1)] r(5) by (cases "j = i") (auto simp: take_slot(1))
      then show "active (tasks m' j)" using take_slot(5) by (auto simp: take_slot(1) active_def)
    next
      fix j q assume j: "j < NPROC" and b: "builds (phase m' j) q"
      show "q < NPROC \<and> t_state (tasks m' q) = EMBRYO \<and> t_state (tasks m' j) \<noteq> SLEEPING \<and>
          t_parent (tasks m' q) = (if phase m' j = Forked q then Some j else None)"
      proof (cases "j = i")
        case True
        have "t_parent (tasks m np) \<noteq> Some k" for k using sched_invD(4) [OF assms(2)] take_slot(4,5) unfolding parent_inv_def by blast
        then have "t_parent (tasks m np) = None" by (meson not_None_eq)
        then show ?thesis using True b r take_slot by (auto simp: take_slot(1))
      next
        case False
        then have bj: "builds (phase m j) q" using b by (simp add: take_slot(1))
        then have "q \<noteq> np" "j \<noteq> np" using D(3) [OF j bj] D(1) [OF j builds_not_Normal [OF bj]] take_slot(5) by (auto simp: active_def)
        then show ?thesis using False D(2-5) [OF j bj] by (simp add: take_slot(1))
      qed
    next
      fix a b q assume ab: "a < NPROC" "b < NPROC" "builds (phase m' a) q" "builds (phase m' b) q"
      have "\<not> builds (phase m d) np" if "d < NPROC" for d using D(3) [OF that, of np] take_slot(5) by auto
      then show "b = a" using ab D(6) by (auto simp: take_slot(1) split: if_splits)
    next
      fix q assume q: "q < NPROC" "t_state (tasks m' q) = EMBRYO"
      show "\<exists>j < NPROC. builds (phase m' j) q"
      proof (cases "q = np")
        case True
        then show ?thesis using r(1) by (auto simp: take_slot(1) intro: exI [of _ i])
      next
        case False
        then obtain j where j: "j < NPROC" "builds (phase m j) q" using D(7) [OF q(1)] q by (auto simp: take_slot(1))
        then have "j \<noteq> i" using take_slot(3) by auto
        then show ?thesis using j by (auto simp: take_slot(1))
      qed
    qed
  next
    case (got_stack c i np)
    note r = runsD [OF assms(2) got_stack(2)]
    have bi: "builds (phase m i) np" using got_stack(3) by simp
    note np = D(3) [OF r(1) bi]
    show ?thesis
    proof (rule phase_keep [OF inv])
      fix j q assume "j < NPROC" "builds (phase m j) q \<or> builds (phase m' j) q"
      then have "builds (phase m j) q \<and> builds (phase m' j) q \<and> (phase m' j = Forked q \<longleftrightarrow> phase m j = Forked q)"
        using got_stack(3) by (auto simp: got_stack(1) split: if_splits)
      then show "builds (phase m j) q \<and> builds (phase m' j) q \<and> (phase m' j = Forked q \<longleftrightarrow> phase m j = Forked q) \<and> t_state (tasks m' j) \<noteq> SLEEPING"
        using D(4) [OF \<open>j < NPROC\<close>, of q] by (auto simp: got_stack(1))
    next
      fix j assume j: "j < NPROC" "phase m' j \<noteq> Outside"
      then have "active (tasks m j)" using D(1) [OF j(1)] r(5) by (cases "j = i") (auto simp: got_stack(1))
      then show "active (tasks m' j)" by (auto simp: got_stack(1) active_def)
    qed (auto simp: got_stack(1) split: if_splits)
  next
    case (no_stack c i np)
    note r = runsD [OF assms(2) no_stack(2)]
    show ?thesis by (rule phase_drop [OF inv r(1), where np = np]) (use no_stack in auto)
  next
    case (no_space c i np)
    note r = runsD [OF assms(2) no_space(2)]
    show ?thesis by (rule phase_drop [OF inv r(1), where np = np]) (use no_space in auto)
  next
    case (publish c i np)
    note r = runsD [OF assms(2) publish(2)]
    show ?thesis by (rule phase_drop [OF inv r(1), where np = np]) (use publish in \<open>auto simp: to_state_def\<close>)
  next
    case (copied_space c i np)
    note r = runsD [OF assms(2) copied_space(2)]
    have bi: "builds (phase m i) np" using copied_space(3) by simp
    note np = D(2-6) [OF r(1) bi]
    show ?thesis
    proof (rule phase_invI)
      fix j assume j: "j < NPROC" "phase m' j \<noteq> Outside"
      then have "active (tasks m j)" using D(1) [OF j(1)] r(5) by (cases "j = i") (auto simp: copied_space(1))
      then show "active (tasks m' j)" by (auto simp: copied_space(1) active_def)
    next
      fix j q assume j: "j < NPROC" and b: "builds (phase m' j) q"
      then have bj: "builds (phase m j) q" using bi by (auto simp: copied_space(1) split: if_splits)
      have "j = i \<longleftrightarrow> q = np" using np(5) [OF j] bj copied_space(3) by auto
      then show "q < NPROC \<and> t_state (tasks m' q) = EMBRYO \<and> t_state (tasks m' j) \<noteq> SLEEPING \<and>
          t_parent (tasks m' q) = (if phase m' j = Forked q then Some j else None)"
        using D(2-5) [OF j bj] by (auto simp: copied_space(1))
    next
      fix a b q assume ab: "a < NPROC" "b < NPROC" "builds (phase m' a) q" "builds (phase m' b) q"
      then have "builds (phase m a) q" "builds (phase m b) q" using bi by (auto simp: copied_space(1) split: if_splits)
      then show "b = a" using D(6) ab(1,2) by blast
    next
      fix q assume q: "q < NPROC" "t_state (tasks m' q) = EMBRYO"
      then have "t_state (tasks m q) = EMBRYO" by (auto simp: copied_space(1) split: if_splits)
      then obtain j where "j < NPROC" "builds (phase m j) q" using D(7) [OF q(1)] by blast
      then show "\<exists>j < NPROC. builds (phase m' j) q" using copied_space(3) by (intro exI [of _ j]) (auto simp: copied_space(1))
    qed
  next
    case (closed_files c i)
    note r = runsD [OF assms(2) closed_files(2)]
    show ?thesis by (rule phase_same [OF inv]) (use closed_files r in \<open>auto split: if_splits\<close>)
  next
    case (finish c i)
    note r = runsD [OF assms(2) finish(2)]
    have "t_parent (tasks m q) \<noteq> Some i" if "q < NPROC" "t_state (tasks m q) = EMBRYO" for q
      using D(7) [OF that] D(5) finish(3) by (auto split: if_splits)
    then show ?thesis by (intro phase_same [OF inv]) (use finish r in \<open>auto split: if_splits simp: ended_task\<close>)
  next
    case (reaped c i j)
    note r = runsD [OF assms(2) reaped(2)]
    show ?thesis by (rule phase_same [OF inv]) (use reaped r in \<open>auto split: if_splits simp: active_def\<close>)
  next
    case (nothing_to_wait c i)
    note r = runsD [OF assms(2) nothing_to_wait(2)]
    show ?thesis by (rule phase_same [OF inv]) (use nothing_to_wait r in \<open>auto split: if_splits\<close>)
  next
    case (wait_asleep c i k)
    note r = runsD [OF assms(2) wait_asleep(2)]
    show ?thesis by (rule phase_same [OF inv]) (use wait_asleep r in \<open>auto split: if_splits simp: active_def\<close>)
  next
    case (sleeps c i a)
    note r = runsD [OF assms(2) sleeps(2)]
    show ?thesis by (rule phase_same [OF inv]) (use sleeps r in \<open>auto split: if_splits simp: active_def\<close>)
  next
    case (yields c i)
    note r = runsD [OF assms(2) yields(2)]
    show ?thesis by (rule phase_same [OF inv]) (use yields r in \<open>auto split: if_splits simp: active_def to_state_def\<close>)
  next
    case (wakes a)
    show ?thesis by (rule phase_same [OF inv]) (use wakes in \<open>auto split: if_splits simp: woken_state\<close>)
  next
    case (kills p)
    show ?thesis by (rule phase_same [OF inv]) (use kills in \<open>auto split: if_splits simp: active_def\<close>)
  next
    case (dispatched c p)
    show ?thesis by (rule phase_same [OF inv]) (use dispatched in \<open>auto split: if_splits simp: active_def\<close>)
  qed
qed

lemma first_task:
  assumes "parent_inv m"
  obtains r where "r < NPROC" "t_init m = Some r" "active (tasks m r)" "t_parent (tasks m r) = None" "phase m r \<noteq> Exiting"
  using assms unfolding parent_inv_def by blast

lemma parent_invD:
  assumes "parent_inv m" and "i < NPROC"
  shows "t_parent (tasks m i) = Some j \<Longrightarrow> j < NPROC \<and> j \<noteq> i" and "t_parent (tasks m i) = Some j \<Longrightarrow> active (tasks m j)"
    and "t_parent (tasks m i) = Some j \<Longrightarrow> t_state (tasks m i) \<noteq> UNUSED"
    and "active (tasks m i) \<or> t_state (tasks m i) = ZOMBIE \<Longrightarrow> t_init m \<noteq> Some i \<Longrightarrow> t_parent (tasks m i) \<noteq> None"
  using assms unfolding parent_inv_def by blast+

lemma parent_upd:
  assumes inv: "parent_inv m" and init: "t_init m' = t_init m"
    and act: "\<And>j. j < NPROC \<Longrightarrow> active (tasks m j) \<Longrightarrow> active (tasks m' j)"
    and par: "\<And>j. j < NPROC \<Longrightarrow>
      t_parent (tasks m' j) = t_parent (tasks m j) \<and> (t_state (tasks m' j) = UNUSED \<longrightarrow> t_state (tasks m j) = UNUSED) \<and>
        (active (tasks m' j) \<or> t_state (tasks m' j) = ZOMBIE \<longrightarrow> active (tasks m j) \<or> t_state (tasks m j) = ZOMBIE) \<or>
      t_parent (tasks m' j) = None \<and> \<not> active (tasks m' j) \<and> t_state (tasks m' j) \<noteq> ZOMBIE \<or>
      (\<exists>k < NPROC. k \<noteq> j \<and> t_parent (tasks m' j) = Some k \<and> active (tasks m k) \<and> t_state (tasks m' j) \<noteq> UNUSED)"
    and first: "\<And>r. r < NPROC \<Longrightarrow> t_init m = Some r \<Longrightarrow> active (tasks m r) \<Longrightarrow> phase m r \<noteq> Exiting \<Longrightarrow>
      t_parent (tasks m' r) = t_parent (tasks m r) \<and> phase m' r \<noteq> Exiting"
  shows "parent_inv m'"
  unfolding parent_inv_def
proof (intro conjI allI impI)
  obtain r where r: "r < NPROC" "t_init m = Some r" "active (tasks m r)" "t_parent (tasks m r) = None" "phase m r \<noteq> Exiting"
    by (rule first_task [OF inv])
  then show "\<exists>r < NPROC. t_init m' = Some r \<and> active (tasks m' r) \<and> t_parent (tasks m' r) = None \<and> phase m' r \<noteq> Exiting"
    using init act [OF r(1,3)] first [OF r(1,2,3,5)] by auto
next
  fix i j assume i: "i < NPROC" "t_parent (tasks m' i) = Some j"
  then have "j < NPROC \<and> j \<noteq> i \<and> active (tasks m j) \<and> t_state (tasks m' i) \<noteq> UNUSED"
    using par [OF i(1)] parent_invD(1-3) [OF inv i(1), of j] by auto
  then show "j < NPROC" "j \<noteq> i" "active (tasks m' j)" "t_state (tasks m' i) \<noteq> UNUSED" using act by blast+
next
  fix i assume "i < NPROC" "(active (tasks m' i) \<or> t_state (tasks m' i) = ZOMBIE) \<and> t_init m' \<noteq> Some i"
  then show "t_parent (tasks m' i) \<noteq> None" using par [of i] parent_invD(4) [OF inv, of i] init by auto
qed

lemma parent_finish:
  assumes inv: "parent_inv m" and i: "i < NPROC" "active (tasks m i)" "phase m i = Exiting"
  shows "parent_inv (free_cpu c (to_phase i Outside (ended i m)))"
proof -
  obtain r where r: "r < NPROC" "t_init m = Some r" "active (tasks m r)" "t_parent (tasks m r) = None" "phase m r \<noteq> Exiting"
    by (rule first_task [OF inv])
  have ri: "r \<noteq> i" using r(5) i(3) by auto
  let ?m = "ended i m"
  have par: "t_parent (tasks ?m j) = (if t_parent (tasks m j) = Some i then Some r else t_parent (tasks m j))" if "j < NPROC" for j
    using ended_task(7) [OF that] r(2) by simp
  have act: "active (tasks ?m j)" if "j < NPROC" "active (tasks m j)" "j \<noteq> i" for j using ended_task(6) [OF that(1,3)] that(2) by simp
  have st: "t_state (tasks ?m j) = UNUSED \<longleftrightarrow> t_state (tasks m j) = UNUSED \<and> j \<noteq> i" if "j < NPROC" for j using ended_task(8) [OF that] by auto
  have za: "active (tasks ?m j) \<or> t_state (tasks ?m j) = ZOMBIE \<Longrightarrow> active (tasks m j) \<or> t_state (tasks m j) = ZOMBIE" if "j < NPROC" for j
    using ended_task(6,8) [OF that] i(2) by (cases "j = i") (auto split: if_splits)
  show ?thesis unfolding parent_inv_def
  proof (intro conjI allI impI)
    show "\<exists>q < NPROC. t_init (free_cpu c (to_phase i Outside ?m)) = Some q \<and> active (tasks (free_cpu c (to_phase i Outside ?m)) q) \<and>
        t_parent (tasks (free_cpu c (to_phase i Outside ?m)) q) = None \<and> phase (free_cpu c (to_phase i Outside ?m)) q \<noteq> Exiting"
      using r ri act [OF r(1,3)] par [OF r(1)] by auto
  next
    fix j k assume j: "j < NPROC" "t_parent (tasks (free_cpu c (to_phase i Outside ?m)) j) = Some k"
    then have p: "t_parent (tasks m j) \<noteq> None" "k = r \<or> k \<noteq> i \<and> t_parent (tasks m j) = Some k" using par [OF j(1)] by (auto split: if_splits)
    have "j \<noteq> r" using p(1) r(4) by auto
    then have "k < NPROC \<and> k \<noteq> j \<and> active (tasks m k) \<and> k \<noteq> i" using p(2) parent_invD(1,2) [OF inv j(1)] r(1,3) ri by auto
    moreover have "t_state (tasks m j) \<noteq> UNUSED" using parent_invD(3) [OF inv j(1)] p(1) by auto
    ultimately show "k < NPROC" "k \<noteq> j" "active (tasks (free_cpu c (to_phase i Outside ?m)) k)"
      "t_state (tasks (free_cpu c (to_phase i Outside ?m)) j) \<noteq> UNUSED" using act st [OF j(1)] by auto
  next
    fix j assume "j < NPROC" "(active (tasks (free_cpu c (to_phase i Outside ?m)) j) \<or> t_state (tasks (free_cpu c (to_phase i Outside ?m)) j) = ZOMBIE) \<and>
      t_init (free_cpu c (to_phase i Outside ?m)) \<noteq> Some j"
    then show "t_parent (tasks (free_cpu c (to_phase i Outside ?m)) j) \<noteq> None" using par [of j] za [of j] parent_invD(4) [OF inv, of j] by auto
  qed
qed

lemma parent_step:
  assumes "sched_step m m'" and "sched_inv m"
  shows "parent_inv m'"
proof -
  have inv: "parent_inv m" using assms(2) by (simp add: sched_inv_def)
  show ?thesis using assms(1)
  proof cases
    case (take_slot c i np)
    show ?thesis by (rule parent_upd [OF inv]) (use take_slot in \<open>auto simp: active_def\<close>)
  next
    case (got_stack c i np)
    show ?thesis by (rule parent_upd [OF inv]) (use got_stack in \<open>auto simp: active_def\<close>)
  next
    case (no_stack c i np)
    note b = buildsD [OF assms(2) runsD(1) [OF assms(2) no_stack(2)], of np]
    show ?thesis by (rule parent_upd [OF inv]) (use no_stack b in \<open>auto simp: active_def\<close>)
  next
    case (copied_space c i np)
    note r = runsD [OF assms(2) copied_space(2)]
    note b = buildsD [OF assms(2) r(1), of np]
    have "t_init m \<noteq> Some np" using b(3) copied_space(3) first_task [OF inv] by fastforce
    then show ?thesis by (intro parent_upd [OF inv]) (use copied_space b r in \<open>auto simp: active_def\<close>)
  next
    case (no_space c i np)
    note b = buildsD [OF assms(2) runsD(1) [OF assms(2) no_space(2)], of np]
    show ?thesis by (rule parent_upd [OF inv]) (use no_space b in \<open>auto simp: active_def\<close>)
  next
    case (publish c i np)
    note r = runsD [OF assms(2) publish(2)]
    note b = buildsD [OF assms(2) r(1), of np]
    show ?thesis by (rule parent_upd [OF inv]) (use publish b r in \<open>auto simp: active_def to_state_def\<close>)
  next
    case (closed_files c i)
    show ?thesis by (rule parent_upd [OF inv]) (use closed_files in auto)
  next
    case (finish c i)
    note r = runsD [OF assms(2) finish(2)]
    show ?thesis using parent_finish [OF inv r(1,5) finish(3)] finish(1) by simp
  next
    case (reaped c i j)
    have "t_init m \<noteq> Some j" using reaped(5) first_task [OF inv] by (force simp: active_def)
    then show ?thesis by (intro parent_upd [OF inv]) (use reaped in \<open>auto simp: active_def\<close>)
  next
    case (nothing_to_wait c i)
    show ?thesis by (rule parent_upd [OF inv]) (use nothing_to_wait in auto)
  next
    case (wait_asleep c i k)
    note r = runsD [OF assms(2) wait_asleep(2)]
    show ?thesis by (rule parent_upd [OF inv]) (use wait_asleep r in \<open>auto simp: active_def\<close>)
  next
    case (sleeps c i a)
    note r = runsD [OF assms(2) sleeps(2)]
    show ?thesis by (rule parent_upd [OF inv]) (use sleeps r in \<open>auto simp: active_def\<close>)
  next
    case (yields c i)
    note r = runsD [OF assms(2) yields(2)]
    show ?thesis by (rule parent_upd [OF inv]) (use yields r in \<open>auto simp: active_def to_state_def\<close>)
  next
    case (wakes a)
    show ?thesis by (rule parent_upd [OF inv]) (use wakes in \<open>auto simp: woken_state\<close>)
  next
    case (kills p)
    show ?thesis by (rule parent_upd [OF inv]) (use kills in \<open>auto simp: active_def\<close>)
  next
    case (dispatched c p)
    show ?thesis by (rule parent_upd [OF inv]) (use dispatched in \<open>auto simp: active_def\<close>)
  qed
qed

lemma wait_upd:
  assumes inv: "wait_inv m"
    and step: "\<And>i. i < NPROC \<Longrightarrow> phase m' i = In_wait \<Longrightarrow> t_state (tasks m' i) = SLEEPING \<Longrightarrow>
      phase m i = In_wait \<and> t_state (tasks m i) = SLEEPING \<and> t_chan (tasks m' i) = t_chan (tasks m i) \<and>
      (t_killed (tasks m' i) \<longrightarrow> t_killed (tasks m i)) \<and> (\<forall>j. child m i j \<longrightarrow> child m' i j) \<and>
      (\<forall>j. child m' i j \<longrightarrow> t_state (tasks m' j) = ZOMBIE \<longrightarrow> child m i j \<and> t_state (tasks m j) = ZOMBIE)"
  shows "wait_inv m'"
  unfolding wait_inv_def
proof (intro allI impI)
  fix i assume i: "i < NPROC" "phase m' i = In_wait \<and> t_state (tasks m' i) = SLEEPING"
  note s = step [OF i(1) conjunct1 [OF i(2)] conjunct2 [OF i(2)]]
  then have "t_chan (tasks m i) = Some (Proc_Chan i) \<and> \<not> t_killed (tasks m i) \<and> (\<exists>j. child m i j) \<and>
      (\<forall>j. child m i j \<longrightarrow> t_state (tasks m j) \<noteq> ZOMBIE)" using inv i(1) unfolding wait_inv_def by blast
  then show "t_chan (tasks m' i) = Some (Proc_Chan i) \<and> \<not> t_killed (tasks m' i) \<and> (\<exists>j. child m' i j) \<and>
      (\<forall>j. child m' i j \<longrightarrow> t_state (tasks m' j) \<noteq> ZOMBIE)" using s by metis
qed

lemma wait_finish:
  assumes inv: "sched_inv m" and i: "i < NPROC" "active (tasks m i)" "phase m i = Exiting"
  shows "wait_inv (free_cpu c (to_phase i Outside (ended i m)))"
proof (rule wait_upd [OF sched_invD(5) [OF inv]])
  let ?m = "free_cpu c (to_phase i Outside (ended i m))"
  fix k assume k: "k < NPROC" "phase ?m k = In_wait" "t_state (tasks ?m k) = SLEEPING"
  have pinv: "parent_inv m" using inv by (simp add: sched_inv_def)
  have ph: "phase m k = In_wait" "k \<noteq> i" using k(2,3) ended_task(8) [OF k(1), of i m] by (auto split: if_splits)
  have st: "t_state (tasks m k) = SLEEPING"
    and nw: "t_chan (tasks m k) \<noteq> map_option Proc_Chan (t_parent (tasks m i))"
      "(\<exists>j. child m i j \<and> t_state (tasks m j) = ZOMBIE) \<Longrightarrow> t_chan (tasks m k) \<noteq> map_option Proc_Chan (t_init m)"
    using k(3) ended_task(8) [OF k(1), of i m] by (auto split: if_splits)
  have ch: "t_chan (tasks m k) = Some (Proc_Chan k)" using sched_invD(5) [OF inv] k(1) ph(1) st unfolding wait_inv_def by blast
  have "child ?m k j" if "child m k j" for j using that ph(2) ended_task(7) [of j i m] by (auto simp: child_def)
  moreover have "child m k j \<and> t_state (tasks m j) = ZOMBIE" if j: "child ?m k j" "t_state (tasks ?m j) = ZOMBIE" for j
  proof -
    have jn: "j < NPROC" using j(1) by (simp add: child_def)
    have "j \<noteq> i"
    proof
      assume "j = i"
      then have "t_parent (tasks m i) = Some k" using j(1) ended_task(7) [OF i(1), of i m] parent_invD(1) [OF pinv i(1)]
        by (auto simp: child_def split: if_splits)
      then show False using nw(1) ch by simp
    qed
    then have z: "t_state (tasks m j) = ZOMBIE" using j(2) ended_task(8) [OF jn, of i m] by (auto split: if_splits)
    have "t_parent (tasks m j) \<noteq> Some i"
    proof
      assume p: "t_parent (tasks m j) = Some i"
      then have "t_init m = Some k" using j(1) ended_task(7) [OF jn, of i m] by (simp add: child_def)
      moreover have "\<exists>j. child m i j \<and> t_state (tasks m j) = ZOMBIE" using p jn z by (auto simp: child_def)
      ultimately show False using nw(2) ch by simp
    qed
    then show ?thesis using j(1) ended_task(7) [OF jn, of i m] z by (simp add: child_def)
  qed
  ultimately show "phase m k = In_wait \<and> t_state (tasks m k) = SLEEPING \<and> t_chan (tasks ?m k) = t_chan (tasks m k) \<and>
      (t_killed (tasks ?m k) \<longrightarrow> t_killed (tasks m k)) \<and> (\<forall>j. child m k j \<longrightarrow> child ?m k j) \<and>
      (\<forall>j. child ?m k j \<longrightarrow> t_state (tasks ?m j) = ZOMBIE \<longrightarrow> child m k j \<and> t_state (tasks m j) = ZOMBIE)"
    using ph(1) st ended_task(2,3) [OF k(1), of i m] by simp
qed

lemma wait_step:
  assumes "sched_step m m'" and "sched_inv m"
  shows "wait_inv m'"
proof -
  have inv: "wait_inv m" using assms(2) by (simp add: sched_inv_def)
  show ?thesis using assms(1)
  proof cases
    case (take_slot c i np)
    show ?thesis by (rule wait_upd [OF inv]) (use take_slot in \<open>auto simp: child_def split: if_splits\<close>)
  next
    case (got_stack c i np)
    show ?thesis by (rule wait_upd [OF inv]) (use got_stack in \<open>auto simp: child_def split: if_splits\<close>)
  next
    case (no_stack c i np)
    show ?thesis by (rule wait_upd [OF inv]) (use no_stack in \<open>auto simp: child_def split: if_splits\<close>)
  next
    case (copied_space c i np)
    note r = runsD [OF assms(2) copied_space(2)]
    note b = buildsD [OF assms(2) r(1), of np]
    show ?thesis by (rule wait_upd [OF inv]) (use copied_space b r in \<open>auto simp: child_def split: if_splits\<close>)
  next
    case (no_space c i np)
    show ?thesis by (rule wait_upd [OF inv]) (use no_space in \<open>auto simp: child_def split: if_splits\<close>)
  next
    case (publish c i np)
    show ?thesis by (rule wait_upd [OF inv]) (use publish in \<open>auto simp: child_def to_state_def split: if_splits\<close>)
  next
    case (closed_files c i)
    show ?thesis by (rule wait_upd [OF inv]) (use closed_files in \<open>auto simp: child_def split: if_splits\<close>)
  next
    case (finish c i)
    note r = runsD [OF assms(2) finish(2)]
    show ?thesis using wait_finish [OF assms(2) r(1,5) finish(3)] finish(1) by simp
  next
    case (reaped c i j)
    note r = runsD [OF assms(2) reaped(2)]
    show ?thesis by (rule wait_upd [OF inv]) (use reaped r in \<open>auto simp: child_def split: if_splits\<close>)
  next
    case (nothing_to_wait c i)
    show ?thesis by (rule wait_upd [OF inv]) (use nothing_to_wait in \<open>auto simp: child_def split: if_splits\<close>)
  next
    case (wait_asleep c i k)
    have "child m' x y = child m x y" for x y by (auto simp: wait_asleep(1) child_def)
    moreover have "t_state (tasks m' y) = ZOMBIE \<Longrightarrow> t_state (tasks m y) = ZOMBIE" for y by (auto simp: wait_asleep(1) split: if_splits)
    moreover have "phase m q = In_wait \<and> t_state (tasks m q) = SLEEPING \<and> tasks m' q = tasks m q"
      if "phase m' q = In_wait" "t_state (tasks m' q) = SLEEPING" "q \<noteq> i" for q using that by (simp add: wait_asleep(1))
    moreover have "t_chan (tasks m' i) = Some (Proc_Chan i)" "t_killed (tasks m' i) = t_killed (tasks m i)" by (simp_all add: wait_asleep(1))
    ultimately show ?thesis using inv wait_asleep(4-6) unfolding wait_inv_def by metis
  next
    case (sleeps c i a)
    show ?thesis by (rule wait_upd [OF inv]) (use sleeps in \<open>auto simp: child_def split: if_splits\<close>)
  next
    case (yields c i)
    show ?thesis by (rule wait_upd [OF inv]) (use yields in \<open>auto simp: child_def to_state_def split: if_splits\<close>)
  next
    case (wakes a)
    show ?thesis by (rule wait_upd [OF inv]) (use wakes in \<open>auto simp: child_def woken_state split: if_splits\<close>)
  next
    case (kills p)
    show ?thesis by (rule wait_upd [OF inv]) (use kills in \<open>auto simp: child_def split: if_splits\<close>)
  next
    case (dispatched c p)
    show ?thesis by (rule wait_upd [OF inv]) (use dispatched in \<open>auto simp: child_def split: if_splits\<close>)
  qed
qed

lemma stack_upd:
  assumes inv: "stack_inv m"
    and act: "\<And>j. j < NPROC \<Longrightarrow> active (tasks m' j) \<Longrightarrow> (active (tasks m j) \<Longrightarrow> t_stack (tasks m j) \<and> t_space (tasks m j)) \<Longrightarrow>
      t_stack (tasks m' j) \<and> t_space (tasks m' j)"
    and copy: "\<And>i np. i < NPROC \<Longrightarrow> phase m' i = Copying np \<Longrightarrow> (phase m i = Copying np \<Longrightarrow> t_stack (tasks m np)) \<Longrightarrow> t_stack (tasks m' np)"
    and made: "\<And>i np. i < NPROC \<Longrightarrow> phase m' i = Forked np \<Longrightarrow> (phase m i = Forked np \<Longrightarrow> t_stack (tasks m np) \<and> t_space (tasks m np)) \<Longrightarrow>
      t_stack (tasks m' np) \<and> t_space (tasks m' np)"
  shows "stack_inv m'"
  using inv act copy made unfolding stack_inv_def by blast

lemma stack_drop:
  assumes inv: "stack_inv m" and pinv: "phase_inv m" and i: "i < NPROC" "builds (phase m i) np" "phase m' = (phase m)(i := Outside)"
    and same: "\<And>j. j \<noteq> np \<Longrightarrow> tasks m' j = tasks m j"
    and new: "active (tasks m' np) \<Longrightarrow> t_stack (tasks m' np) \<and> t_space (tasks m' np)"
  shows "stack_inv m'"
  unfolding stack_inv_def
proof (intro conjI allI impI)
  fix j assume "j < NPROC" "active (tasks m' j)"
  then show "t_stack (tasks m' j)" "t_space (tasks m' j)" using inv new same [of j] unfolding stack_inv_def by (metis)+
next
  fix j q assume j: "j < NPROC"
  have tasks: "phase m j = phase m' j \<and> tasks m' q = tasks m q" if "builds (phase m' j) q"
  proof -
    have "j \<noteq> i" "builds (phase m j) q" using that i(3) by (auto split: if_splits)
    then have "q \<noteq> np" using phase_invD(6) [OF pinv i(1,2) j] by auto
    then show ?thesis using same \<open>j \<noteq> i\<close> i(3) by simp
  qed
  show "t_stack (tasks m' q)" if "phase m' j = Copying q" using tasks that inv j unfolding stack_inv_def by (metis builds_simps(2))
  show "t_stack (tasks m' q)" "t_space (tasks m' q)" if "phase m' j = Forked q"
    using tasks that inv j unfolding stack_inv_def by (metis builds_simps(3))+
qed

lemma stack_step:
  assumes "sched_step m m'" and "sched_inv m"
  shows "stack_inv m'"
proof -
  have inv: "stack_inv m" using assms(2) by (simp add: sched_inv_def)
  note D = sched_invD [OF assms(2)]
  have running: "active (tasks m i)" "t_stack (tasks m i)" "t_space (tasks m i)" "i < NPROC" if "runs m c i" for c i
    using runsD [OF assms(2) that] inv by (auto simp: stack_inv_def)
  show ?thesis using assms(1)
  proof cases
    case (take_slot c i np)
    show ?thesis by (rule stack_upd [OF inv]) (use take_slot in \<open>auto simp: active_def split: if_splits\<close>)
  next
    case (got_stack c i np)
    show ?thesis by (rule stack_upd [OF inv]) (use got_stack in \<open>auto simp: active_def split: if_splits\<close>)
  next
    case (no_stack c i np)
    then show ?thesis by (intro stack_drop [OF inv D(3) running(4) [OF no_stack(2)], of np]) (auto simp: active_def)
  next
    case (copied_space c i np)
    have "t_stack (tasks m np)" using inv running(4) [OF copied_space(2)] copied_space(3) unfolding stack_inv_def by blast
    then show ?thesis by (intro stack_upd [OF inv]) (use copied_space in \<open>auto simp: active_def split: if_splits\<close>)
  next
    case (no_space c i np)
    then show ?thesis by (intro stack_drop [OF inv D(3) running(4) [OF no_space(2)], of np]) (auto simp: active_def)
  next
    case (publish c i np)
    have "t_stack (tasks m np) \<and> t_space (tasks m np)" using inv running(4) [OF publish(2)] publish(3) unfolding stack_inv_def by blast
    then show ?thesis using publish by (intro stack_drop [OF inv D(3) running(4) [OF publish(2)], of np]) (auto simp: to_state_def)
  next
    case (closed_files c i)
    show ?thesis by (rule stack_upd [OF inv]) (use closed_files in \<open>auto split: if_splits\<close>)
  next
    case (finish c i)
    have built: "np < NPROC" if "j < NPROC" "builds (phase m j) np" for j np using phase_invD(2) [OF D(3) that] .
    have keep: "active (tasks m' j) \<Longrightarrow> active (tasks m j)" "t_stack (tasks m' j) = t_stack (tasks m j)" "t_space (tasks m' j) = t_space (tasks m j)"
      if "j < NPROC" for j using ended_task [OF that, of i m] running(1) [OF finish(2)] by (auto simp: finish(1))
    have ph: "phase m' j = (if j = i then Outside else phase m j)" for j by (simp add: finish(1))
    show ?thesis
    proof (rule stack_upd [OF inv])
      fix j np assume "j < NPROC" "phase m' j = Copying np" "phase m j = Copying np \<Longrightarrow> t_stack (tasks m np)"
      then show "t_stack (tasks m' np)" using ph [of j] built [of j np] keep [of np] by (auto split: if_splits)
    next
      fix j np assume "j < NPROC" "phase m' j = Forked np" "phase m j = Forked np \<Longrightarrow> t_stack (tasks m np) \<and> t_space (tasks m np)"
      then show "t_stack (tasks m' np) \<and> t_space (tasks m' np)" using ph [of j] built [of j np] keep [of np] by (auto split: if_splits)
    qed (use keep in blast)
  next
    case (reaped c i j)
    have "phase m k \<noteq> Copying j" "phase m k \<noteq> Forked j" if "k < NPROC" for k using phase_invD(3) [OF D(3) that, of j] reaped(5) by auto
    then show ?thesis by (intro stack_upd [OF inv]) (use reaped in \<open>auto simp: active_def split: if_splits\<close>)
  next
    case (nothing_to_wait c i)
    show ?thesis by (rule stack_upd [OF inv]) (use nothing_to_wait in \<open>auto split: if_splits\<close>)
  next
    case (wait_asleep c i k)
    show ?thesis by (rule stack_upd [OF inv]) (use wait_asleep running [OF wait_asleep(2)] in \<open>auto split: if_splits\<close>)
  next
    case (sleeps c i a)
    show ?thesis by (rule stack_upd [OF inv]) (use sleeps running [OF sleeps(2)] in \<open>auto split: if_splits\<close>)
  next
    case (yields c i)
    show ?thesis by (rule stack_upd [OF inv]) (use yields running [OF yields(2)] in \<open>auto simp: to_state_def split: if_splits\<close>)
  next
    case (wakes a)
    show ?thesis by (rule stack_upd [OF inv]) (use wakes in \<open>auto split: if_splits\<close>)
  next
    case (kills p)
    show ?thesis by (rule stack_upd [OF inv]) (use kills in \<open>auto simp: active_def split: if_splits\<close>)
  next
    case (dispatched c p)
    show ?thesis by (rule stack_upd [OF inv]) (use dispatched in \<open>auto simp: active_def split: if_splits\<close>)
  qed
qed

lemma sched_step_inv: "sched_step m m' \<Longrightarrow> sched_inv m \<Longrightarrow> sched_inv m'"
  by (simp add: sched_inv_def [of m'] cpu_step pid_step phase_step parent_step wait_step stack_step)

lemma sched_reach_inv: "sched_step\<^sup>*\<^sup>* m m' \<Longrightarrow> sched_inv m \<Longrightarrow> sched_inv m'"
  by (induction rule: rtranclp_induct) (auto intro: sched_step_inv)

end
