(* ===== verification/Xv6_Proc.thy ===== *)
theory Xv6_Proc
  imports Xv6_Filetable Xv6_Vm Xv6_Sched
begin

text \<open>
  \<open>proc.c\<close>: the table of processes. A pointer to a process is its index in the table. What runs with
  \<open>ptable.lock\<close> held is one function of the state; the locking itself is in the last section. Kernel
  stacks, trap frames and contexts lie in pages of the allocator.
\<close>

section \<open>Processes\<close>

record proc =
  p_sz :: u32
  p_pgdir :: u32
  p_kstack :: u32
  p_state :: procstate
  p_pid :: int
  p_parent :: "nat option"
  p_tf :: u32
  p_context :: u32
  p_chan :: "chan option"
  p_killed :: bool
  p_ofile :: "nat option list"
  p_cwd :: "nat option"
  p_name :: "u8 list"

definition NOFILE :: nat where "NOFILE = 16"
definition KSTACKSIZE :: u32 where "KSTACKSIZE = 4096"

text \<open>The sizes of \<open>struct trapframe\<close> and \<open>struct context\<close>, and the offsets of their fields.\<close>

definition TF_SIZE :: nat where "TF_SIZE = 76"
definition TF_EAX :: u32 where "TF_EAX = 28"
definition CONTEXT_SIZE :: nat where "CONTEXT_SIZE = 20"
definition CONTEXT_EIP :: u32 where "CONTEXT_EIP = 16"

text \<open>The table, the process of every processor, and the state of the files with the page allocator.\<close>

record kernel =
  procs :: "nat \<Rightarrow> proc"
  initproc :: "nat option"
  nextpid :: int
  cpu_proc :: "nat \<Rightarrow> nat option"
  k_files :: files

text \<open>The surroundings: those of the page tables, and the addresses of \<open>forkret\<close> and \<open>trapret\<close>.\<close>

record penv =
  pe_mem :: kenv
  pe_forkret :: u32
  pe_trapret :: u32

abbreviation k_mem :: "kernel \<Rightarrow> kmem" where "k_mem s \<equiv> fl_kmem (k_files s)"

definition set_mem :: "kmem \<Rightarrow> kernel \<Rightarrow> kernel" where
  "set_mem k s = s\<lparr>k_files := (k_files s)\<lparr>fl_kmem := k\<rparr>\<rparr>"

definition upd_proc :: "nat \<Rightarrow> (proc \<Rightarrow> proc) \<Rightarrow> kernel \<Rightarrow> kernel" where
  "upd_proc p f s = s\<lparr>procs := (procs s)(p := f (procs s p))\<rparr>"

definition set_state :: "nat \<Rightarrow> procstate \<Rightarrow> kernel \<Rightarrow> kernel" where
  "set_state p st = upd_proc p (p_state_update (\<lambda>_. st))"

section \<open>Creating a process\<close>

text \<open>\<open>allocproc\<close>: what it does under the lock, and the kernel stack behind it.\<close>

definition alloc_slot :: "kernel \<Rightarrow> (nat option \<times> kernel) result" where
  "alloc_slot s =
     (case find (\<lambda>p. p_state (procs s p) = UNUSED) [0..<NPROC] of
        None \<Rightarrow> Inr (None, s)
      | Some p \<Rightarrow>
          if nextpid s \<ge> 2 ^ 31 - 1 then Inl SignedOverflow
          else Inr (Some p, upd_proc p (\<lambda>x. x\<lparr>p_state := EMBRYO, p_pid := nextpid s\<rparr>) (s\<lparr>nextpid := nextpid s + 1\<rparr>)))"

definition new_stack :: "penv \<Rightarrow> nat \<Rightarrow> kernel \<Rightarrow> (bool \<times> kernel) result" where
  "new_stack e p s =
     bindE (kalloc_in (pe_mem e) (k_mem s)) (\<lambda>(stk, k).
     let s = upd_proc p (p_kstack_update (\<lambda>_. stk)) (set_mem k s) in
     if stk = 0 then Inr (False, set_state p UNUSED s) else
     let sp = stk + KSTACKSIZE;
         sp = sp - word_of_nat TF_SIZE;
         s = upd_proc p (p_tf_update (\<lambda>_. sp)) s;
         sp = sp - 4;
         k = poke sp (pe_trapret e) k;
         sp = sp - word_of_nat CONTEXT_SIZE;
         s = upd_proc p (p_context_update (\<lambda>_. sp)) s;
         k = k\<lparr>kmem_mem := fill (kmem_mem k) sp 0 CONTEXT_SIZE\<rparr>;
         k = poke (sp + CONTEXT_EIP) (pe_forkret e) k
     in Inr (True, set_mem k s))"

definition allocproc :: "penv \<Rightarrow> kernel \<Rightarrow> (nat option \<times> kernel) result" where
  "allocproc e s =
     bindE (alloc_slot s) (\<lambda>(r, s).
     case r of None \<Rightarrow> Inr (None, s)
     | Some p \<Rightarrow> bindE (new_stack e p s) (\<lambda>(ok, s). Inr (if ok then Some p else None, s)))"

text \<open>\<open>growproc\<close>, up to the reload of the page table.\<close>

definition growproc :: "penv \<Rightarrow> nat \<Rightarrow> int \<Rightarrow> kernel \<Rightarrow> (int \<times> kernel) result" where
  "growproc e me n s =
     (let cur = procs s me; sz = p_sz cur in
      bindE (if n > 0 then allocuvm (pe_mem e) (p_pgdir cur) sz (sz + word_of_int n) (k_mem s)
             else if n < 0 then deallocuvm (pe_mem e) (p_pgdir cur) sz (sz + word_of_int n) (k_mem s)
             else Inr (sz, k_mem s)) (\<lambda>(sz, k).
      let s = set_mem k s in
      if n \<noteq> 0 \<and> sz = 0 then Inr (- 1, s) else
      let s = upd_proc me (p_sz_update (\<lambda>_. sz)) s in
      bindE (switchuvm (p_kstack (procs s me)) (p_pgdir (procs s me))) (\<lambda>_. Inr (0, s))))"

definition dup_file :: "nat \<Rightarrow> nat \<Rightarrow> nat \<Rightarrow> kernel \<Rightarrow> kernel result" where
  "dup_file me np i s =
     bindE (rd (p_ofile (procs s me)) i) (\<lambda>f.
     case f of None \<Rightarrow> Inr s
     | Some f \<Rightarrow>
         bindE (filedup f (k_files s)) (\<lambda>(f, fl).
         bindE (wr (p_ofile (procs s np)) i (Some f)) (\<lambda>fs.
         Inr (upd_proc np (p_ofile_update (\<lambda>_. fs)) (s\<lparr>k_files := fl\<rparr>)))))"

text \<open>What \<open>fork\<close> does between \<open>allocproc\<close> and the last critical section.\<close>

definition fork_copy :: "penv \<Rightarrow> nat \<Rightarrow> nat \<Rightarrow> kernel \<Rightarrow> (bool \<times> kernel) result" where
  "fork_copy e me np s =
     (let cur = procs s me in
      bindE (copyuvm (pe_mem e) (p_pgdir cur) (p_sz cur) (k_mem s)) (\<lambda>(d, k).
      let s = upd_proc np (p_pgdir_update (\<lambda>_. d)) (set_mem k s) in
      if d = 0 then
        bindE (kfree_in (pe_mem e) (p_kstack (procs s np)) (k_mem s)) (\<lambda>k.
        Inr (False, upd_proc np (\<lambda>x. x\<lparr>p_kstack := 0, p_state := UNUSED\<rparr>) (set_mem k s)))
      else
      let s = upd_proc np (\<lambda>x. x\<lparr>p_sz := p_sz cur, p_parent := Some me\<rparr>) s;
          tf = p_tf (procs s np);
          k = poke_bytes tf (peek_bytes (p_tf cur) TF_SIZE k) k;
          k = poke (tf + TF_EAX) 0 k;
          s = set_mem k s
      in bindE (loopE (dup_file me np) [0..<NOFILE] s) (\<lambda>s.
      case p_cwd cur of None \<Rightarrow> Inl NullPointer
      | Some c \<Rightarrow>
      let (ip, st) = idup c (fl_fs (k_files s));
          s = upd_proc np (p_cwd_update (\<lambda>_. Some ip)) (s\<lparr>k_files := (k_files s)\<lparr>fl_fs := st\<rparr>\<rparr>)
      in bindE (safestrcpy (p_name (procs s np)) (p_name cur) 16) (\<lambda>nm.
      Inr (True, upd_proc np (p_name_update (\<lambda>_. nm)) s)))))"

definition fork :: "penv \<Rightarrow> nat \<Rightarrow> kernel \<Rightarrow> (int \<times> kernel) result" where
  "fork e me s =
     bindE (allocproc e s) (\<lambda>(r, s).
     case r of None \<Rightarrow> Inr (- 1, s)
     | Some np \<Rightarrow>
         bindE (fork_copy e me np s) (\<lambda>(ok, s).
         if \<not> ok then Inr (- 1, s)
         else Inr (p_pid (procs s np), set_state np RUNNABLE s)))"

section \<open>Sleeping and waking\<close>

definition wakeup1 :: "chan option \<Rightarrow> kernel \<Rightarrow> kernel" where
  "wakeup1 c s =
     fold (\<lambda>p s. if p_state (procs s p) = SLEEPING \<and> p_chan (procs s p) = c then set_state p RUNNABLE s else s) [0..<NPROC] s"

text \<open>What \<open>sleep\<close> does to the table before it gives the processor away, and after it has it back.\<close>

definition fall_asleep :: "nat \<Rightarrow> chan option \<Rightarrow> kernel \<Rightarrow> kernel" where
  "fall_asleep me c s = upd_proc me (\<lambda>x. x\<lparr>p_chan := c, p_state := SLEEPING\<rparr>) s"

definition tidy_up :: "nat \<Rightarrow> kernel \<Rightarrow> kernel" where
  "tidy_up me s = upd_proc me (p_chan_update (\<lambda>_. None)) s"

definition kill :: "int \<Rightarrow> kernel \<Rightarrow> int \<times> kernel" where
  "kill pid s =
     (case find (\<lambda>p. p_pid (procs s p) = pid) [0..<NPROC] of
        None \<Rightarrow> (- 1, s)
      | Some p \<Rightarrow>
          let s = upd_proc p (p_killed_update (\<lambda>_. True)) s in
          (0, if p_state (procs s p) = SLEEPING then set_state p RUNNABLE s else s))"

section \<open>Ending a process\<close>

definition close_file :: "penv \<Rightarrow> nat \<Rightarrow> nat \<Rightarrow> kernel \<Rightarrow> kernel result" where
  "close_file e me fd s =
     bindE (rd (p_ofile (procs s me)) fd) (\<lambda>f.
     case f of None \<Rightarrow> Inr s
     | Some f \<Rightarrow>
         bindE (fileclose (ke_end (pe_mem e)) (ke_me (pe_mem e)) (ke_stack (pe_mem e)) (p_pid (procs s me)) f (k_files s)) (\<lambda>fl.
         bindE (wr (p_ofile (procs s me)) fd None) (\<lambda>fs.
         Inr (upd_proc me (p_ofile_update (\<lambda>_. fs)) (s\<lparr>k_files := fl\<rparr>)))))"

definition exit_files :: "penv \<Rightarrow> nat \<Rightarrow> kernel \<Rightarrow> kernel result" where
  "exit_files e me s =
     (if initproc s = Some me then Inl (Panic ''init exiting'') else
      bindE (loopE (close_file e me) [0..<NOFILE] s) (\<lambda>s.
      bindE (fs_begin (fl_fs (k_files s))) (\<lambda>st.
      case p_cwd (procs s me) of None \<Rightarrow> Inl NullPointer
      | Some c \<Rightarrow>
      bindE (iput (p_pid (procs s me)) c st) (\<lambda>st.
      bindE (fs_end st) (\<lambda>st.
      Inr (upd_proc me (p_cwd_update (\<lambda>_. None)) (s\<lparr>k_files := (k_files s)\<lparr>fl_fs := st\<rparr>\<rparr>)))))))"

definition pass_to_init :: "nat \<Rightarrow> nat \<Rightarrow> kernel \<Rightarrow> kernel" where
  "pass_to_init me p s =
     (if p_parent (procs s p) = Some me then
        let s = upd_proc p (p_parent_update (\<lambda>_. initproc s)) s in
        if p_state (procs s p) = ZOMBIE then wakeup1 (map_option Proc_Chan (initproc s)) s else s
      else s)"

text \<open>The critical section of \<open>exit\<close>.\<close>

definition exit_final :: "nat \<Rightarrow> kernel \<Rightarrow> kernel" where
  "exit_final me s =
     (let s = wakeup1 (map_option Proc_Chan (p_parent (procs s me))) s;
          s = fold (pass_to_init me) [0..<NPROC] s
      in set_state me ZOMBIE s)"

definition reap :: "penv \<Rightarrow> nat \<Rightarrow> kernel \<Rightarrow> (int \<times> kernel) result" where
  "reap e p s =
     (let pid = p_pid (procs s p) in
      bindE (kfree_in (pe_mem e) (p_kstack (procs s p)) (k_mem s)) (\<lambda>k.
      let s = upd_proc p (p_kstack_update (\<lambda>_. 0)) (set_mem k s) in
      bindE (freevm (pe_mem e) (p_pgdir (procs s p)) (k_mem s)) (\<lambda>k.
      let s = upd_proc p (\<lambda>x. x\<lparr>p_pid := 0, p_parent := None, p_name := (p_name x)[0 := 0], p_killed := False, p_state := UNUSED\<rparr>) (set_mem k s)
      in Inr (pid, s))))"

text \<open>One round of the loop of \<open>wait\<close>: it returns a value, or the process has fallen asleep.\<close>

definition wait_round :: "penv \<Rightarrow> nat \<Rightarrow> kernel \<Rightarrow> (int option \<times> kernel) result" where
  "wait_round e me s =
     (case find (\<lambda>p. p_parent (procs s p) = Some me \<and> p_state (procs s p) = ZOMBIE) [0..<NPROC] of
        Some p \<Rightarrow> bindE (reap e p s) (\<lambda>(pid, s). Inr (Some pid, s))
      | None \<Rightarrow>
          let havekids = list_ex (\<lambda>p. p_parent (procs s p) = Some me) [0..<NPROC] in
          if \<not> havekids \<or> p_killed (procs s me) then Inr (Some (- 1), s)
          else Inr (None, fall_asleep me (Some (Proc_Chan me)) s))"

section \<open>The scheduler\<close>

text \<open>The loop of \<open>scheduler\<close> for a process that it finds runnable, up to the switch, and behind it.\<close>

definition dispatch :: "nat \<Rightarrow> nat \<Rightarrow> kernel \<Rightarrow> kernel result" where
  "dispatch c p s =
     (let s = s\<lparr>cpu_proc := (cpu_proc s)(c := Some p)\<rparr> in
      bindE (switchuvm (p_kstack (procs s p)) (p_pgdir (procs s p))) (\<lambda>_.
      Inr (set_state p RUNNING s)))"

definition back_in_scheduler :: "nat \<Rightarrow> kernel \<Rightarrow> kernel" where
  "back_in_scheduler c s = s\<lparr>cpu_proc := (cpu_proc s)(c := None)\<rparr>"

text \<open>\<open>forkret\<close> on behalf of the first process sets up the file system; \<open>first\<close> is its static variable.\<close>

definition forkret :: "bool \<Rightarrow> kernel \<Rightarrow> (bool \<times> kernel) result" where
  "forkret first s =
     (if first then
        bindE (iinit ROOTDEV (fl_fs (k_files s))) (\<lambda>st.
        bindE (readsb ROOTDEV st) (\<lambda>sb.
        bindE (initlog (sb_logstart sb) (uint (sb_nlog sb)) (fs_log st) (fs_store st)) (\<lambda>(l, d).
        Inr (False, s\<lparr>k_files := (k_files s)\<lparr>fl_fs := st\<lparr>fs_log := l, fs_store := d\<rparr>\<rparr>\<rparr>))))
      else Inr (False, s))"

section \<open>The first process\<close>

definition SEG_UCODE :: u16 where "SEG_UCODE = 3"
definition SEG_UDATA :: u16 where "SEG_UDATA = 4"
definition DPL_USER :: u16 where "DPL_USER = 3"
definition FLAG_IF :: u32 where "FLAG_IF = 0x200"

text \<open>The offsets of the other fields of \<open>struct trapframe\<close> that \<open>userinit\<close> sets.\<close>

definition TF_ES :: u32 where "TF_ES = 40"
definition TF_DS :: u32 where "TF_DS = 44"
definition TF_EIP :: u32 where "TF_EIP = 56"
definition TF_CS :: u32 where "TF_CS = 60"
definition TF_EFLAGS :: u32 where "TF_EFLAGS = 64"
definition TF_ESP :: u32 where "TF_ESP = 68"
definition TF_SS :: u32 where "TF_SS = 72"

definition poke16 :: "u32 \<Rightarrow> u16 \<Rightarrow> kmem \<Rightarrow> kmem" where
  "poke16 a v = poke_bytes a [ucast v, ucast (drop_bit 8 v)]"

definition user_frame :: "u32 \<Rightarrow> kmem \<Rightarrow> kmem" where
  "user_frame tf k =
     (let k = k\<lparr>kmem_mem := fill (kmem_mem k) tf 0 TF_SIZE\<rparr>;
          k = poke16 (tf + TF_CS) (push_bit 3 SEG_UCODE OR DPL_USER) k;
          ds = push_bit 3 SEG_UDATA OR DPL_USER;
          k = poke16 (tf + TF_DS) ds k;
          k = poke16 (tf + TF_ES) ds k;
          k = poke16 (tf + TF_SS) ds k;
          k = poke (tf + TF_EFLAGS) FLAG_IF k;
          k = poke (tf + TF_ESP) PGSIZE k
      in poke (tf + TF_EIP) 0 k)"

text \<open>\<open>initcode\<close> is the binary of \<open>initcode.S\<close>, which the linker puts into the kernel.\<close>

definition initcode_name :: "u8 list" where "initcode_name = [105, 110, 105, 116, 99, 111, 100, 101, 0]"

definition userinit :: "devsw \<Rightarrow> penv \<Rightarrow> u8 list \<Rightarrow> kernel \<Rightarrow> kernel result" where
  "userinit devs e initcode s =
     bindE (allocproc e s) (\<lambda>(r, s).
     let s = s\<lparr>initproc := r\<rparr> in
     case r of None \<Rightarrow> Inl NullPointer
     | Some p \<Rightarrow>
     bindE (setupkvm (pe_mem e) (k_mem s)) (\<lambda>(d, k).
     let s = upd_proc p (p_pgdir_update (\<lambda>_. d)) (set_mem k s) in
     if d = 0 then Inl (Panic ''userinit: out of memory?'') else
     bindE (inituvm (pe_mem e) d initcode (k_mem s)) (\<lambda>k.
     let s = upd_proc p (p_sz_update (\<lambda>_. PGSIZE)) (set_mem k s);
         s = set_mem (user_frame (p_tf (procs s p)) (k_mem s)) s in
     bindE (safestrcpy (p_name (procs s p)) initcode_name 16) (\<lambda>nm.
     let s = upd_proc p (p_name_update (\<lambda>_. nm)) s in
     bindE (namei devs (p_pid (procs s p)) 0 [slash, 0] (fl_fs (k_files s))) (\<lambda>(cwd, st).
     let s = upd_proc p (p_cwd_update (\<lambda>_. cwd)) (s\<lparr>k_files := (k_files s)\<lparr>fl_fs := st\<rparr>\<rparr>)
     in Inr (set_state p RUNNABLE s))))))"

section \<open>Processors and locks\<close>

text \<open>\<open>apicids\<close> lists the processors, \<open>apicid\<close> is what \<open>lapicid\<close> returns.\<close>

definition mycpu :: "u8 list \<Rightarrow> u8 \<Rightarrow> cpu \<Rightarrow> nat result" where
  "mycpu apicids apicid c =
     (if FL_IF c then Inl (Panic ''mycpu called with interrupts enabled'') else
      case find (\<lambda>i. apicids ! i = apicid) [0..<length apicids] of
        None \<Rightarrow> Inl (Panic ''unknown apicid'')
      | Some i \<Rightarrow> Inr i)"

definition myproc :: "u8 list \<Rightarrow> u8 \<Rightarrow> (nat \<Rightarrow> nat option) \<Rightarrow> cpu \<Rightarrow> (nat option \<times> cpu) result" where
  "myproc apicids apicid on c =
     (let c = pushcli c in
      bindE (mycpu apicids apicid c) (\<lambda>i.
      let p = on i in
      bindE (popcli c) (\<lambda>c. Inr (p, c))))"

text \<open>
  What \<open>sched\<close> tests before the switch; the result is the flag \<open>intena\<close>, which it keeps on the stack of
  the process. \<open>me\<close> is the processor, \<open>pt\<close> the lock of the table, \<open>st\<close> the state of the process.
\<close>

definition sched_enter :: "nat \<Rightarrow> spinlock \<Rightarrow> procstate \<Rightarrow> cpu \<Rightarrow> (bool \<times> cpu) result" where
  "sched_enter me pt st c =
     bindE (holding me pt c) (\<lambda>(h, c).
     if \<not> h then Inl (Panic ''sched ptable.lock'')
     else if ncli c \<noteq> 1 then Inl (Panic ''sched locks'')
     else if st = RUNNING then Inl (Panic ''sched running'')
     else if FL_IF c then Inl (Panic ''sched interruptible'')
     else Inr (intena c, c))"

text \<open>The locks in \<open>sleep\<close>: \<open>lk\<close> is \<^term>\<open>None\<close> if the caller's lock is that of the table.\<close>

definition sleep_enter ::
  "nat \<Rightarrow> u32 list \<Rightarrow> spinlock \<Rightarrow> spinlock option \<Rightarrow> cpu \<Rightarrow> (bool \<times> spinlock \<times> spinlock option \<times> cpu) result" where
  "sleep_enter me stack pt lk c =
     bindE (case lk of None \<Rightarrow> Inr (pt, None, c)
       | Some l \<Rightarrow>
           bindE (acquire me stack pt c) (\<lambda>(pt, c).
           bindE (release me l c) (\<lambda>(l, c). Inr (pt, Some l, c)))) (\<lambda>(pt, lk, c).
     bindE (sched_enter me pt SLEEPING c) (\<lambda>(saved, c). Inr (saved, pt, lk, c)))"

text \<open>After the switch back, on a processor \<open>me\<close> that may be another one.\<close>

definition sleep_leave ::
  "nat \<Rightarrow> u32 list \<Rightarrow> bool \<Rightarrow> spinlock \<Rightarrow> spinlock option \<Rightarrow> cpu \<Rightarrow> (spinlock \<times> spinlock option \<times> cpu) result" where
  "sleep_leave me stack saved pt lk c =
     (let c = c\<lparr>intena := saved\<rparr> in
      case lk of None \<Rightarrow> Inr (pt, None, c)
      | Some l \<Rightarrow>
          bindE (release me pt c) (\<lambda>(pt, c).
          bindE (acquire me stack l c) (\<lambda>(l, c). Inr (pt, Some l, c))))"

end
