(* ===== verification/Xv6_Life.thy ===== *)
theory Xv6_Life
  imports Xv6_Proc
begin

text \<open>
  The processors run the critical sections of \<open>Xv6_Proc\<close> in any order. The table of processes then
  implements the abstract machine of \<open>Xv6_Sched\<close>, so that every state the kernel reaches has its invariant.
\<close>

section \<open>The running kernel\<close>

record sys =
  sy_k :: kernel
  sy_phase :: "nat \<Rightarrow> call_phase"

definition on_proc :: "sys \<Rightarrow> nat \<Rightarrow> nat \<Rightarrow> bool" where
  "on_proc y c i \<longleftrightarrow> c < NCPU \<and> i < NPROC \<and> cpu_proc (sy_k y) c = Some i"

definition go :: "nat \<Rightarrow> call_phase \<Rightarrow> kernel \<Rightarrow> sys \<Rightarrow> sys" where
  "go i p k y = \<lparr>sy_k = k, sy_phase = (sy_phase y)(i := p)\<rparr>"

text \<open>What a system call that is not in \<open>proc.c\<close> may change of the caller.\<close>

definition own_change :: "nat \<Rightarrow> kernel \<Rightarrow> kernel \<Rightarrow> bool" where
  "own_change i s s' \<longleftrightarrow> (\<exists>fl sz d tf ctx fs w nm. d \<noteq> 0 \<and>
     s' = upd_proc i (\<lambda>x. x\<lparr>p_sz := sz, p_pgdir := d, p_tf := tf, p_context := ctx, p_ofile := fs, p_cwd := w, p_name := nm\<rparr>) (s\<lparr>k_files := fl\<rparr>))"

inductive sys_step :: "penv \<Rightarrow> sys \<Rightarrow> sys \<Rightarrow> bool" for e where
  fork_none: "on_proc y c i \<Longrightarrow> sy_phase y i = Outside \<Longrightarrow> alloc_slot (sy_k y) = Inr (None, s) \<Longrightarrow> sys_step e y (go i Outside s y)"
| fork_slot: "on_proc y c i \<Longrightarrow> sy_phase y i = Outside \<Longrightarrow> alloc_slot (sy_k y) = Inr (Some np, s) \<Longrightarrow> sys_step e y (go i (Forking np) s y)"
| fork_stack: "on_proc y c i \<Longrightarrow> sy_phase y i = Forking np \<Longrightarrow> new_stack e np (sy_k y) = Inr (b, s) \<Longrightarrow>
    sys_step e y (go i (if b then Copying np else Outside) s y)"
| fork_fill: "on_proc y c i \<Longrightarrow> sy_phase y i = Copying np \<Longrightarrow> fork_copy e i np (sy_k y) = Inr (b, s) \<Longrightarrow>
    sys_step e y (go i (if b then Forked np else Outside) s y)"
| fork_done: "on_proc y c i \<Longrightarrow> sy_phase y i = Forked np \<Longrightarrow> sys_step e y (go i Outside (set_state np RUNNABLE (sy_k y)) y)"
| exit_close: "on_proc y c i \<Longrightarrow> sy_phase y i = Outside \<Longrightarrow> exit_files e i (sy_k y) = Inr s \<Longrightarrow> sys_step e y (go i Exiting s y)"
| exit_end: "on_proc y c i \<Longrightarrow> sy_phase y i = Exiting \<Longrightarrow> sys_step e y (go i Outside (back_in_scheduler c (exit_final i (sy_k y))) y)"
| wait_returns: "on_proc y c i \<Longrightarrow> sy_phase y i \<in> {Outside, In_wait} \<Longrightarrow> wait_round e i (sy_k y) = Inr (Some r, s) \<Longrightarrow>
    sys_step e y (go i Outside s y)"
| wait_sleeps: "on_proc y c i \<Longrightarrow> sy_phase y i \<in> {Outside, In_wait} \<Longrightarrow> wait_round e i (sy_k y) = Inr (None, s) \<Longrightarrow>
    sys_step e y (go i In_wait (back_in_scheduler c s) y)"
| grow: "on_proc y c i \<Longrightarrow> sy_phase y i = Outside \<Longrightarrow> growproc e i n (sy_k y) = Inr (r, s) \<Longrightarrow> sys_step e y (go i Outside s y)"
| other_call: "on_proc y c i \<Longrightarrow> sy_phase y i = Outside \<Longrightarrow> own_change i (sy_k y) s \<Longrightarrow> sys_step e y (go i Outside s y)"
| sleep: "on_proc y c i \<Longrightarrow> sy_phase y i \<in> {Outside, Exiting} \<Longrightarrow>
    sys_step e y (y\<lparr>sy_k := back_in_scheduler c (fall_asleep i (Some (Chan a)) (sy_k y))\<rparr>)"
| yield: "on_proc y c i \<Longrightarrow> sy_phase y i \<noteq> In_wait \<Longrightarrow> sys_step e y (y\<lparr>sy_k := back_in_scheduler c (set_state i RUNNABLE (sy_k y))\<rparr>)"
| wakeup: "sys_step e y (y\<lparr>sy_k := wakeup1 (Some (Chan a)) (sy_k y)\<rparr>)"
| kill: "sys_step e y (y\<lparr>sy_k := snd (kill pid (sy_k y))\<rparr>)"
| trapped: "on_proc y c i \<Longrightarrow> sys_step e y (y\<lparr>sy_k := upd_proc i (p_killed_update (\<lambda>_. True)) (sy_k y)\<rparr>)"
| schedule: "c < NCPU \<Longrightarrow> cpu_proc (sy_k y) c = None \<Longrightarrow> p < NPROC \<Longrightarrow> p_state (procs (sy_k y) p) = RUNNABLE \<Longrightarrow>
    dispatch c p (sy_k y) = Inr s \<Longrightarrow> sys_step e y (y\<lparr>sy_k := tidy_up p s\<rparr>)"

section \<open>The abstraction\<close>

definition task_of :: "proc \<Rightarrow> task" where
  "task_of x = \<lparr>t_state = p_state x, t_pid = p_pid x, t_parent = p_parent x, t_chan = p_chan x, t_killed = p_killed x,
     t_stack = (p_kstack x \<noteq> 0), t_space = (p_pgdir x \<noteq> 0)\<rparr>"

definition abs_k :: "kernel \<Rightarrow> (nat \<Rightarrow> call_phase) \<Rightarrow> sched" where
  "abs_k s ph = \<lparr>tasks = (\<lambda>i. task_of (procs s i)), t_init = initproc s, t_next = nextpid s, on_cpu = cpu_proc s, phase = ph\<rparr>"

definition abs_sys :: "sys \<Rightarrow> sched" where
  "abs_sys y = abs_k (sy_k y) (sy_phase y)"

lemma kernel_simps [simp]:
  "procs (upd_proc p f s) = (procs s)(p := f (procs s p))" "initproc (upd_proc p f s) = initproc s" "nextpid (upd_proc p f s) = nextpid s"
  "cpu_proc (upd_proc p f s) = cpu_proc s" "k_files (upd_proc p f s) = k_files s"
  "procs (set_mem k s) = procs s" "initproc (set_mem k s) = initproc s" "nextpid (set_mem k s) = nextpid s" "cpu_proc (set_mem k s) = cpu_proc s"
  "k_mem (set_mem k s) = k"
  by (simp_all add: upd_proc_def set_mem_def)

lemma task_of_simps [simp]:
  "t_state (task_of x) = p_state x" "t_pid (task_of x) = p_pid x" "t_parent (task_of x) = p_parent x" "t_chan (task_of x) = p_chan x"
  "t_killed (task_of x) = p_killed x" "t_stack (task_of x) = (p_kstack x \<noteq> 0)" "t_space (task_of x) = (p_pgdir x \<noteq> 0)"
  by (simp_all add: task_of_def)

lemma abs_simps [simp]:
  "tasks (abs_k s ph) i = task_of (procs s i)" "t_init (abs_k s ph) = initproc s" "t_next (abs_k s ph) = nextpid s"
  "on_cpu (abs_k s ph) = cpu_proc s" "phase (abs_k s ph) = ph"
  by (simp_all add: abs_k_def)

lemma abs_eqI:
  assumes "\<And>i. task_of (procs s i) = tasks m i" and "initproc s = t_init m" and "nextpid s = t_next m" and "cpu_proc s = on_cpu m" and "ph = phase m"
  shows "abs_k s ph = m"
  using assms by (simp add: abs_k_def fun_eq_iff)

lemma abs_go [simp]: "abs_sys (go i p k y) = abs_k k ((sy_phase y)(i := p))"
  by (simp add: go_def abs_sys_def)

text \<open>The parts of the state outside the table.\<close>

definition same_rest :: "kernel \<Rightarrow> kernel \<Rightarrow> bool" where
  "same_rest s' s \<longleftrightarrow> initproc s' = initproc s \<and> nextpid s' = nextpid s \<and> cpu_proc s' = cpu_proc s"

definition same_tasks :: "kernel \<Rightarrow> kernel \<Rightarrow> bool" where
  "same_tasks s' s \<longleftrightarrow> same_rest s' s \<and> (\<forall>i. task_of (procs s' i) = task_of (procs s i))"

lemma same_tasks_abs: "same_tasks s' s \<Longrightarrow> abs_k s' ph = abs_k s ph"
  by (simp add: same_tasks_def same_rest_def abs_k_def)

lemma same_tasks_trans: "same_tasks a b \<Longrightarrow> same_tasks b c \<Longrightarrow> same_tasks a c"
  by (simp add: same_tasks_def same_rest_def)

lemma same_tasks_refl [simp]: "same_tasks s s" by (simp add: same_tasks_def same_rest_def)

lemma same_tasks_intros [simp]:
  "task_of (f (procs s p)) = task_of (procs s p) \<Longrightarrow> same_tasks s s0 \<Longrightarrow> same_tasks (upd_proc p f s) s0"
  "same_tasks s s0 \<Longrightarrow> same_tasks (s\<lparr>k_files := fl\<rparr>) s0"
  "same_tasks s s0 \<Longrightarrow> same_tasks (set_mem k s) s0"
  by (simp_all add: same_tasks_def same_rest_def)

lemma same_task [simp]:
  "task_of (p_sz_update f x) = task_of x" "task_of (p_tf_update f x) = task_of x" "task_of (p_context_update f x) = task_of x"
  "task_of (p_ofile_update g x) = task_of x" "task_of (p_cwd_update h x) = task_of x" "task_of (p_name_update u x) = task_of x"
  by (simp_all add: task_of_def)

section \<open>What the operations do to the table\<close>

lemma alloc_slot_result:
  assumes "alloc_slot s = Inr (r, s')"
  shows "r = None \<and> s' = s \<or> (\<exists>p. r = Some p \<and> p < NPROC \<and> p_state (procs s p) = UNUSED \<and>
    s' = upd_proc p (\<lambda>x. x\<lparr>p_state := EMBRYO, p_pid := nextpid s\<rparr>) (s\<lparr>nextpid := nextpid s + 1\<rparr>))"
proof (cases "find (\<lambda>p. p_state (procs s p) = UNUSED) [0..<NPROC]")
  case None
  then show ?thesis using assms by (simp add: alloc_slot_def)
next
  case (Some p)
  then have "p < NPROC" "p_state (procs s p) = UNUSED" by (auto simp: find_Some_iff)
  moreover from this have "r = Some p" "s' = upd_proc p (\<lambda>x. x\<lparr>p_state := EMBRYO, p_pid := nextpid s\<rparr>) (s\<lparr>nextpid := nextpid s + 1\<rparr>)"
    using assms Some by (simp_all add: alloc_slot_def split: if_splits)
  ultimately show ?thesis by blast
qed

lemma new_stack_result:
  assumes "new_stack e p s = Inr (b, s')"
  shows "same_rest s' s \<and> (\<forall>i. i \<noteq> p \<longrightarrow> procs s' i = procs s i) \<and>
    task_of (procs s' p) = (if b then (task_of (procs s p))\<lparr>t_stack := True\<rparr> else (task_of (procs s p))\<lparr>t_stack := False, t_state := UNUSED\<rparr>)"
  using assms by (auto simp: new_stack_def set_state_def same_rest_def task_of_def Let_def split: if_splits)

lemma dup_file_view:
  assumes "dup_file me np i s = Inr s'"
  shows "same_tasks s' s"
  using assms by (auto simp: dup_file_def split: option.splits)

lemma loop_view:
  assumes "loopE f is s = Inr s'" and "\<And>i s s'. f i s = Inr s' \<Longrightarrow> same_tasks s' s"
  shows "same_tasks s' s"
  using assms(1)
proof (induction "is" arbitrary: s)
  case (Cons i "is")
  then obtain s1 where "f i s = Inr s1" "loopE f is s1 = Inr s'" by auto
  then show ?case using Cons.IH assms(2) same_tasks_trans by blast
qed simp

lemma fork_copy_result:
  assumes "fork_copy e me np s = Inr (b, s')"
  shows "same_rest s' s \<and> (\<forall>i. i \<noteq> np \<longrightarrow> task_of (procs s' i) = task_of (procs s i)) \<and>
    task_of (procs s' np) = (if b then (task_of (procs s np))\<lparr>t_space := True, t_parent := Some me\<rparr>
      else (task_of (procs s np))\<lparr>t_space := False, t_stack := False, t_state := UNUSED\<rparr>)"
proof -
  obtain d k where c: "copyuvm (pe_mem e) (p_pgdir (procs s me)) (p_sz (procs s me)) (k_mem s) = Inr (d, k)"
    using assms by (auto simp: fork_copy_def Let_def)
  show ?thesis
  proof (cases "d = 0")
    case True
    then show ?thesis using assms c by (auto simp: fork_copy_def Let_def same_rest_def task_of_def)
  next
    case False
    define s1 where "s1 = upd_proc np (\<lambda>x. x\<lparr>p_sz := p_sz (procs s me), p_parent := Some me\<rparr>) (upd_proc np (p_pgdir_update (\<lambda>_. d)) (set_mem k s))"
    define k2 where "k2 = poke (p_tf (procs s1 np) + TF_EAX) 0 (poke_bytes (p_tf (procs s1 np)) (peek_bytes (p_tf (procs s me)) TF_SIZE k) k)"
    have run: "bindE (loopE (dup_file me np) [0..<NOFILE] (set_mem k2 s1)) (\<lambda>s2.
        case p_cwd (procs s me) of None \<Rightarrow> Inl NullPointer
        | Some c \<Rightarrow> let (ip, st) = idup c (fl_fs (k_files s2));
            s3 = upd_proc np (p_cwd_update (\<lambda>_. Some ip)) (s2\<lparr>k_files := (k_files s2)\<lparr>fl_fs := st\<rparr>\<rparr>)
          in bindE (safestrcpy (p_name (procs s3 np)) (p_name (procs s me)) 16) (\<lambda>nm.
            Inr (True, upd_proc np (p_name_update (\<lambda>_. nm)) s3))) = Inr (b, s')"
      using assms c False by (simp add: fork_copy_def Let_def s1_def k2_def)
    then obtain s2 where l: "loopE (dup_file me np) [0..<NOFILE] (set_mem k2 s1) = Inr s2" by auto
    have r: "b" "same_tasks s' s2" using run l by (auto simp: idup_def split: option.splits)
    have v: "same_tasks s2 (set_mem k2 s1)" by (rule loop_view [OF l]) (rule dup_file_view)
    have "same_tasks s' (set_mem k2 s1)" by (rule same_tasks_trans [OF r(2) v])
    then show ?thesis using r(1) False by (auto simp: same_tasks_def same_rest_def s1_def task_of_def)
  qed
qed

lemma close_file_view:
  assumes "close_file e me fd s = Inr s'"
  shows "same_tasks s' s"
  using assms by (auto simp: close_file_def split: option.splits)

lemma exit_files_result:
  assumes "exit_files e me s = Inr s'"
  shows "same_tasks s' s \<and> initproc s \<noteq> Some me"
proof -
  obtain s1 where l: "loopE (close_file e me) [0..<NOFILE] s = Inr s1" and i: "initproc s \<noteq> Some me" and r: "same_tasks s' s1"
    using assms by (auto simp: exit_files_def split: if_splits option.splits)
  have "same_tasks s1 s" by (rule loop_view [OF l]) (rule close_file_view)
  then show ?thesis using same_tasks_trans [OF r] i by blast
qed

lemma reap_result:
  assumes "reap e p s = Inr (pid, s')"
  shows "pid = p_pid (procs s p) \<and> same_rest s' s \<and> (\<forall>i. i \<noteq> p \<longrightarrow> procs s' i = procs s i) \<and>
    task_of (procs s' p) = (task_of (procs s p))\<lparr>t_stack := False, t_pid := 0, t_parent := None, t_killed := False, t_state := UNUSED\<rparr>"
  using assms by (auto simp: reap_def Let_def same_rest_def task_of_def)

lemma growproc_view:
  assumes "growproc e me n s = Inr (r, s')"
  shows "same_tasks s' s"
  using assms by (auto simp: growproc_def Let_def split: if_splits)

lemma fold_procs:
  "procs (fold (\<lambda>p s. if P (procs s p) then upd_proc p f s else s) [0..<n] s) = (\<lambda>p. if p < n \<and> P (procs s p) then f (procs s p) else procs s p)"
  "same_rest (fold (\<lambda>p s. if P (procs s p) then upd_proc p f s else s) [0..<n] s) s"
  by (induction n) (auto simp: same_rest_def fun_eq_iff)

lemma wakeup1_result:
  shows "procs (wakeup1 c s) = (\<lambda>p. if p < NPROC \<and> p_state (procs s p) = SLEEPING \<and> p_chan (procs s p) = c then (procs s p)\<lparr>p_state := RUNNABLE\<rparr> else procs s p)"
    and "same_rest (wakeup1 c s) s"
  unfolding wakeup1_def set_state_def fold_procs(1) [of "\<lambda>x. p_state x = SLEEPING \<and> p_chan x = c"]
  by (rule refl) (rule fold_procs(2) [of "\<lambda>x. p_state x = SLEEPING \<and> p_chan x = c"])

lemma abs_wakeup: "abs_k (wakeup1 c s) ph = wake c (abs_k s ph)"
  using wakeup1_result(2) [of c s] by (intro abs_eqI) (auto simp: wakeup1_result(1) same_rest_def woken_task_def task_of_def)

text \<open>The loop of \<open>exit\<close> over the table.\<close>

definition zombie_child :: "nat \<Rightarrow> nat \<Rightarrow> kernel \<Rightarrow> bool" where
  "zombie_child n me s \<longleftrightarrow> (\<exists>j < n. p_parent (procs s j) = Some me \<and> p_state (procs s j) = ZOMBIE)"

lemma task_wakeup1:
  "task_of (procs (wakeup1 ch s) p) = (if p < NPROC then woken_task ch (task_of (procs s p)) else task_of (procs s p))"
  by (auto simp: wakeup1_result(1) woken_task_def task_of_def)

lemma pass_loop:
  assumes "n \<le> NPROC"
  shows "same_rest (fold (pass_to_init me) [0..<n] s) s \<and>
    (\<forall>p. task_of (procs (fold (pass_to_init me) [0..<n] s) p) =
      (let x = (if zombie_child n me s \<and> p < NPROC then woken_task (map_option Proc_Chan (initproc s)) (task_of (procs s p)) else task_of (procs s p))
       in if p < n \<and> p_parent (procs s p) = Some me then x\<lparr>t_parent := initproc s\<rparr> else x))"
  using assms
proof (induction n)
  case 0
  show ?case by (simp add: same_rest_def zombie_child_def)
next
  case (Suc n)
  let ?s = "fold (pass_to_init me) [0..<n] s" and ?ch = "map_option Proc_Chan (initproc s)"
  let ?u = "upd_proc n (p_parent_update (\<lambda>_. initproc s)) ?s"
  have n: "n \<le> NPROC" "n < NPROC" using Suc.prems by simp_all
  have rest: "same_rest ?s s" and tasks: "task_of (procs ?s p) =
      (let x = (if zombie_child n me s \<and> p < NPROC then woken_task ?ch (task_of (procs s p)) else task_of (procs s p))
       in if p < n \<and> p_parent (procs s p) = Some me then x\<lparr>t_parent := initproc s\<rparr> else x)" for p
    using Suc.IH [OF n(1)] by blast+
  have init: "initproc ?s = initproc s" using rest by (simp add: same_rest_def)
  have "t_parent (task_of (procs ?s n)) = p_parent (procs s n)" "t_state (task_of (procs ?s n)) = ZOMBIE \<longleftrightarrow> p_state (procs s n) = ZOMBIE"
    unfolding tasks [of n] by (simp_all add: Let_def woken_state)
  then have pn: "p_parent (procs ?s n) = p_parent (procs s n)" "p_state (procs ?s n) = ZOMBIE \<longleftrightarrow> p_state (procs s n) = ZOMBIE" by simp_all
  have z: "zombie_child (Suc n) me s \<longleftrightarrow> zombie_child n me s \<or> p_parent (procs s n) = Some me \<and> p_state (procs s n) = ZOMBIE"
    by (auto simp: zombie_child_def less_Suc_eq)
  have step: "fold (pass_to_init me) [0..<Suc n] s =
      (if p_parent (procs s n) = Some me then if p_state (procs s n) = ZOMBIE then wakeup1 ?ch ?u else ?u else ?s)"
    using pn by (simp add: pass_to_init_def Let_def init)
  have w2: "woken_task ch (woken_task ch y) = woken_task ch y" "woken_task ch (y\<lparr>t_parent := q\<rparr>) = (woken_task ch y)\<lparr>t_parent := q\<rparr>" for ch y q
    by (simp_all add: woken_task_def)
  have u: "task_of (procs ?u q) = (if q = n then (task_of (procs ?s q))\<lparr>t_parent := initproc s\<rparr> else task_of (procs ?s q))" for q
    by (simp add: task_of_def)
  show ?case
  proof (intro conjI allI)
    show "same_rest (fold (pass_to_init me) [0..<Suc n] s) s"
      unfolding step using rest wakeup1_result(2) [of ?ch ?u] by (simp add: same_rest_def)
    fix p
    show "task_of (procs (fold (pass_to_init me) [0..<Suc n] s) p) =
      (let x = (if zombie_child (Suc n) me s \<and> p < NPROC then woken_task ?ch (task_of (procs s p)) else task_of (procs s p))
       in if p < Suc n \<and> p_parent (procs s p) = Some me then x\<lparr>t_parent := initproc s\<rparr> else x)"
      using n(2) unfolding step z
      by (cases "p_parent (procs s n) = Some me"; cases "p_state (procs s n) = ZOMBIE"; cases "p = n")
        (simp_all add: task_wakeup1 u tasks w2 Let_def less_Suc_eq del: kernel_simps)
  qed
qed

lemma ended_eq:
  "tasks (ended i m) j =
    (let t1 = (if j < NPROC then woken_task (map_option Proc_Chan (t_parent (tasks m i))) (tasks m j) else tasks m j);
         t2 = (if (\<exists>k. child m i k \<and> t_state (tasks m k) = ZOMBIE) \<and> j < NPROC then woken_task (map_option Proc_Chan (t_init m)) t1 else t1);
         t3 = (if j < NPROC \<and> t_parent (tasks m j) = Some i then t2\<lparr>t_parent := t_init m\<rparr> else t2)
     in if j = i then t3\<lparr>t_state := ZOMBIE\<rparr> else t3)"
proof -
  define Z where "Z \<longleftrightarrow> (\<exists>k. child m i k \<and> t_state (tasks m k) = ZOMBIE)"
  show ?thesis unfolding ended_def Z_def [symmetric]
    by (cases Z; cases "j = i"; cases "j < NPROC"; cases "t_parent (tasks m j) = Some i") (simp_all add: Let_def to_state_def child_def)
qed

lemma abs_exit:
  assumes "i < NPROC"
  shows "abs_k (exit_final i s) ph = ended i (abs_k s ph)"
proof -
  let ?s1 = "wakeup1 (map_option Proc_Chan (p_parent (procs s i))) s"
  have r1: "same_rest ?s1 s" by (rule wakeup1_result(2))
  have p1: "p_parent (procs ?s1 j) = p_parent (procs s j)" "p_state (procs ?s1 j) = ZOMBIE \<longleftrightarrow> p_state (procs s j) = ZOMBIE" for j
    by (simp_all add: wakeup1_result(1))
  have init: "initproc ?s1 = initproc s" using r1 by (simp add: same_rest_def)
  have W: "zombie_child NPROC i ?s1 \<longleftrightarrow> (\<exists>k. child (abs_k s ph) i k \<and> t_state (tasks (abs_k s ph) k) = ZOMBIE)"
    by (auto simp: p1 child_def zombie_child_def)
  define Z where "Z \<longleftrightarrow> zombie_child NPROC i ?s1"
  note loop = pass_loop [of NPROC i ?s1, OF order_refl]
  show ?thesis
  proof (rule abs_eqI)
    fix j
    have e: "task_of (procs (exit_final i s) j) = (let t = task_of (procs (fold (pass_to_init i) [0..<NPROC] ?s1) j) in if j = i then t\<lparr>t_state := ZOMBIE\<rparr> else t)"
      by (simp add: exit_final_def Let_def set_state_def task_of_def)
    show "task_of (procs (exit_final i s) j) = tasks (ended i (abs_k s ph)) j"
      unfolding e loop [THEN conjunct2, rule_format] ended_eq W [symmetric] Z_def [symmetric] init p1(1) task_wakeup1
      by (cases Z; cases "j = i"; cases "j < NPROC"; cases "p_parent (procs s j) = Some i") (simp_all add: Let_def)
  qed (use loop r1 in \<open>auto simp: exit_final_def Let_def set_state_def same_rest_def\<close>)
qed

section \<open>The table implements the machine\<close>

lemma same_rest_simps: "same_rest s' s \<Longrightarrow> initproc s' = initproc s \<and> nextpid s' = nextpid s \<and> cpu_proc s' = cpu_proc s"
  by (simp add: same_rest_def)

lemma wait_round_cases:
  assumes "wait_round e i s = Inr (r, s')"
  shows "(\<exists>p < NPROC. \<exists>pid. p_parent (procs s p) = Some i \<and> p_state (procs s p) = ZOMBIE \<and> r = Some pid \<and> reap e p s = Inr (pid, s')) \<or>
    r = Some (- 1) \<and> s' = s \<and> ((\<forall>p < NPROC. p_parent (procs s p) \<noteq> Some i) \<or> p_killed (procs s i)) \<or>
    r = None \<and> s' = fall_asleep i (Some (Proc_Chan i)) s \<and> \<not> p_killed (procs s i) \<and> (\<exists>p < NPROC. p_parent (procs s p) = Some i) \<and>
      (\<forall>p < NPROC. p_parent (procs s p) = Some i \<longrightarrow> p_state (procs s p) \<noteq> ZOMBIE)"
proof (cases "find (\<lambda>p. p_parent (procs s p) = Some i \<and> p_state (procs s p) = ZOMBIE) [0..<NPROC]")
  case None
  then have nz: "\<forall>p < NPROC. p_parent (procs s p) = Some i \<longrightarrow> p_state (procs s p) \<noteq> ZOMBIE" by (auto simp: find_None_iff)
  have "list_ex (\<lambda>p. p_parent (procs s p) = Some i) [0..<NPROC] \<longleftrightarrow> (\<exists>p < NPROC. p_parent (procs s p) = Some i)" by (auto simp: list_ex_iff)
  then show ?thesis using assms nz None by (auto simp: wait_round_def Let_def split: if_splits)
next
  case (Some p)
  then have "p < NPROC" "p_parent (procs s p) = Some i" "p_state (procs s p) = ZOMBIE" by (auto simp: find_Some_iff)
  moreover obtain pid where "reap e p s = Inr (pid, s')" "r = Some pid" using assms Some by (auto simp: wait_round_def)
  ultimately show ?thesis by blast
qed

lemma abs_sys_upd [simp]: "abs_sys (y\<lparr>sy_k := k\<rparr>) = abs_k k (sy_phase y)"
  by (simp add: abs_sys_def)

lemma back_simps [simp]:
  "procs (back_in_scheduler c s) = procs s" "initproc (back_in_scheduler c s) = initproc s" "nextpid (back_in_scheduler c s) = nextpid s"
  "cpu_proc (back_in_scheduler c s) = (cpu_proc s)(c := None)"
  by (simp_all add: back_in_scheduler_def)

lemma abs_back: "abs_k (back_in_scheduler c s) ph = free_cpu c (abs_k s ph)"
  by (rule abs_eqI) simp_all

lemma abs_phase: "abs_k s (ph(i := p)) = to_phase i p (abs_k s ph)"
  by (rule abs_eqI) simp_all

lemma abs_upd:
  assumes "same_rest s' s" and "\<And>j. j \<noteq> i \<Longrightarrow> task_of (procs s' j) = task_of (procs s j)" and "task_of (procs s' i) = f (task_of (procs s i))"
  shows "abs_k s' ph = upd i f (abs_k s ph)"
  using assms by (intro abs_eqI) (auto simp: same_rest_def)

lemma simulates:
  assumes "sys_step e y y'" and inv: "sched_inv (abs_sys y)"
  shows "sched_step (abs_sys y) (abs_sys y') \<or> abs_sys y' = abs_sys y"
proof -
  let ?m = "abs_sys y"
  have m: "tasks ?m = (\<lambda>i. task_of (procs (sy_k y) i))" "phase ?m = sy_phase y" "t_next ?m = nextpid (sy_k y)" "t_init ?m = initproc (sy_k y)"
      "on_cpu ?m = cpu_proc (sy_k y)" "?m = abs_k (sy_k y) (sy_phase y)"
    by (simp_all add: abs_sys_def abs_k_def)
  have runs: "on_proc y c i \<Longrightarrow> runs ?m c i" for c i by (simp add: on_proc_def runs_def m)
  have stay: "sy_phase y i = p \<Longrightarrow> (sy_phase y)(i := p) = sy_phase y" for i p by auto
  have mine: "t_state (tasks ?m i) = RUNNING" "t_space (tasks ?m i)" "i < NPROC" if "on_proc y c i" for c i
    using runsD [OF inv runs [OF that]] sched_invD(6) [OF inv] by (auto simp: stack_inv_def)
  show ?thesis using assms(1)
  proof cases
    case (fork_none c i s)
    then show ?thesis using alloc_slot_result [of "sy_k y" None s] by (simp add: m stay)
  next
    case (fork_slot c i np s)
    then have np: "np < NPROC" "t_state (tasks ?m np) = UNUSED"
      and s: "s = upd_proc np (\<lambda>x. x\<lparr>p_state := EMBRYO, p_pid := nextpid (sy_k y)\<rparr>) ((sy_k y)\<lparr>nextpid := nextpid (sy_k y) + 1\<rparr>)"
      using alloc_slot_result [of "sy_k y" "Some np" s] by (auto simp: m)
    have "abs_sys y' = to_phase i (Forking np) (upd np (\<lambda>t. t\<lparr>t_state := EMBRYO, t_pid := t_next ?m\<rparr>) (?m\<lparr>t_next := t_next ?m + 1\<rparr>))"
      unfolding fork_slot(1) abs_go by (rule abs_eqI) (auto simp: s m task_of_def)
    then show ?thesis using sched_step.take_slot [OF runs [OF fork_slot(2)] _ np] fork_slot(3) by (simp add: m)
  next
    case (fork_stack c i np b s)
    note st = new_stack_result [OF fork_stack(4)]
    have ph: "phase ?m i = Forking np" using fork_stack(3) by (simp add: m)
    have "abs_sys y' = to_phase i (if b then Copying np else Outside) (upd np (if b then t_stack_update (\<lambda>_. True) else (\<lambda>t. t\<lparr>t_stack := False, t_state := UNUSED\<rparr>)) ?m)"
      unfolding fork_stack(1) abs_go abs_phase m(6) using st by (subst abs_upd) auto
    then show ?thesis using sched_step.got_stack [OF runs [OF fork_stack(2)] ph] sched_step.no_stack [OF runs [OF fork_stack(2)] ph] by (cases b) simp_all
  next
    case (fork_fill c i np b s)
    note st = fork_copy_result [OF fork_fill(4)]
    have ph: "phase ?m i = Copying np" using fork_fill(3) by (simp add: m)
    have "abs_sys y' = to_phase i (if b then Forked np else Outside) (upd np (if b then (\<lambda>t. t\<lparr>t_space := True, t_parent := Some i\<rparr>) else
        (\<lambda>t. t\<lparr>t_space := False, t_stack := False, t_state := UNUSED\<rparr>)) ?m)"
      unfolding fork_fill(1) abs_go abs_phase m(6) using st by (subst abs_upd) auto
    then show ?thesis using sched_step.copied_space [OF runs [OF fork_fill(2)] ph] sched_step.no_space [OF runs [OF fork_fill(2)] ph] by (cases b) simp_all
  next
    case (fork_done c i np)
    have "abs_sys y' = to_phase i Outside (to_state np RUNNABLE ?m)"
      unfolding fork_done(1) abs_go abs_phase m(6) to_state_def set_state_def by (subst abs_upd) (auto simp: same_rest_def task_of_def)
    then show ?thesis using sched_step.publish [OF runs [OF fork_done(2)]] fork_done(3) by (simp add: m)
  next
    case (exit_close c i s)
    then have "same_tasks s (sy_k y)" "t_init ?m \<noteq> Some i" using exit_files_result [OF exit_close(4)] by (simp_all add: m)
    then have "abs_sys y' = to_phase i Exiting ?m" unfolding exit_close(1) abs_go abs_phase m(6) by (simp add: same_tasks_abs)
    then show ?thesis using sched_step.closed_files [OF runs [OF exit_close(2)]] exit_close(3) \<open>t_init ?m \<noteq> Some i\<close> by (simp add: m)
  next
    case (exit_end c i)
    have "i < NPROC" using exit_end(2) by (simp add: on_proc_def)
    then have "abs_sys y' = free_cpu c (to_phase i Outside (ended i ?m))"
      unfolding exit_end(1) abs_go abs_phase abs_back m(6) by (simp add: abs_exit to_phase_def free_cpu_def)
    then show ?thesis using sched_step.finish [OF runs [OF exit_end(2)]] exit_end(3) by (simp add: m)
  next
    case (wait_returns c i r s)
    have ph: "phase ?m i \<in> {Outside, In_wait}" using wait_returns(3) by (simp add: m)
    from wait_round_cases [OF wait_returns(4)] consider
      p pid where "p < NPROC" "p_parent (procs (sy_k y) p) = Some i" "p_state (procs (sy_k y) p) = ZOMBIE" "reap e p (sy_k y) = Inr (pid, s)"
      | "s = sy_k y" "(\<forall>p < NPROC. p_parent (procs (sy_k y) p) \<noteq> Some i) \<or> p_killed (procs (sy_k y) i)" by blast
    then show ?thesis
    proof cases
      case 1
      have "abs_sys y' = to_phase i Outside (upd p (\<lambda>t. t\<lparr>t_stack := False, t_pid := 0, t_parent := None, t_killed := False, t_state := UNUSED\<rparr>) ?m)"
        unfolding wait_returns(1) abs_go abs_phase m(6) using reap_result [OF 1(4)] by (subst abs_upd) auto
      then show ?thesis using sched_step.reaped [OF runs [OF wait_returns(2)] ph, of p] 1 by (simp add: m child_def)
    next
      case 2
      have "abs_sys y' = to_phase i Outside ?m" unfolding wait_returns(1) abs_go abs_phase m(6) 2(1) ..
      then show ?thesis using sched_step.nothing_to_wait [OF runs [OF wait_returns(2)] ph] 2(2) by (auto simp: m child_def)
    qed
  next
    case (wait_sleeps c i s)
    have ph: "phase ?m i \<in> {Outside, In_wait}" using wait_sleeps(3) by (simp add: m)
    from wait_round_cases [OF wait_sleeps(4)] obtain k where
      s: "s = fall_asleep i (Some (Proc_Chan i)) (sy_k y)" "\<not> t_killed (tasks ?m i)" "child ?m i k" "\<forall>j. child ?m i j \<longrightarrow> t_state (tasks ?m j) \<noteq> ZOMBIE"
      by (auto simp: m child_def)
    have "abs_sys y' = free_cpu c (to_phase i In_wait (upd i (\<lambda>t. t\<lparr>t_chan := Some (Proc_Chan i), t_state := SLEEPING\<rparr>) ?m))"
      unfolding wait_sleeps(1) abs_go by (rule abs_eqI) (auto simp: s(1) m fall_asleep_def task_of_def)
    then show ?thesis using sched_step.wait_asleep [OF runs [OF wait_sleeps(2)] ph s(4,3,2)] by simp
  next
    case (grow c i n r s)
    then show ?thesis using same_tasks_abs [OF growproc_view [OF grow(4)]] by (simp add: m stay)
  next
    case (other_call c i s)
    have "same_tasks s (sy_k y)"
      using other_call(4) mine(2) [OF other_call(2)] by (auto simp: own_change_def m task_of_def)
    then show ?thesis using other_call(1,3) by (simp add: m stay same_tasks_abs)
  next
    case (sleep c i a)
    have "abs_sys y' = free_cpu c (upd i (\<lambda>t. t\<lparr>t_chan := Some (Chan a), t_state := SLEEPING\<rparr>) ?m)"
      unfolding sleep(1) abs_sys_upd by (rule abs_eqI) (auto simp: m fall_asleep_def task_of_def)
    then show ?thesis using sched_step.sleeps [OF runs [OF sleep(2)]] sleep(3) by (simp add: m)
  next
    case (yield c i)
    have "abs_sys y' = free_cpu c (to_state i RUNNABLE ?m)"
      unfolding yield(1) abs_sys_upd by (rule abs_eqI) (auto simp: m set_state_def to_state_def task_of_def)
    then show ?thesis using sched_step.yields [OF runs [OF yield(2)]] yield(3) by (simp add: m)
  next
    case (wakeup a)
    then show ?thesis using sched_step.wakes [of ?m a] by (simp add: abs_wakeup m(6))
  next
    case (kill pid)
    show ?thesis
    proof (cases "find (\<lambda>p. p_pid (procs (sy_k y) p) = pid) [0..<NPROC]")
      case None
      then show ?thesis by (simp add: kill Xv6_Proc.kill_def m(6))
    next
      case (Some p)
      then have "p < NPROC" by (auto simp: find_Some_iff)
      have "abs_sys y' = upd p (\<lambda>t. t\<lparr>t_killed := True, t_state := (if t_state t = SLEEPING then RUNNABLE else t_state t)\<rparr>) ?m"
        unfolding kill abs_sys_upd using Some by (intro abs_eqI) (auto simp: m Xv6_Proc.kill_def set_state_def task_of_def Let_def)
      then show ?thesis using sched_step.kills [OF \<open>p < NPROC\<close>, of ?m] by simp
    qed
  next
    case (trapped c i)
    have "abs_sys y' = upd i (\<lambda>t. t\<lparr>t_killed := True, t_state := (if t_state t = SLEEPING then RUNNABLE else t_state t)\<rparr>) ?m"
      unfolding trapped(1) abs_sys_upd using mine(1) [OF trapped(2)] by (intro abs_eqI) (auto simp: m task_of_def)
    then show ?thesis using sched_step.kills [OF mine(3) [OF trapped(2)], of ?m] by simp
  next
    case (schedule c p s)
    have "abs_sys y' = upd p (\<lambda>t. t\<lparr>t_state := RUNNING, t_chan := None\<rparr>) (?m\<lparr>on_cpu := (on_cpu ?m)(c := Some p)\<rparr>)"
      unfolding schedule(1) abs_sys_upd using schedule(6)
      by (intro abs_eqI) (auto simp: m dispatch_def set_state_def tidy_up_def task_of_def Let_def)
    then show ?thesis using sched_step.dispatched [of c ?m p] schedule(2-5) by (simp add: m)
  qed
qed

lemma sys_reach_inv:
  assumes "(sys_step e)\<^sup>*\<^sup>* y y'" and "sched_inv (abs_sys y)"
  shows "sched_inv (abs_sys y')"
  using assms
proof (induction rule: rtranclp_induct)
  case (step y1 y2)
  then show ?case using simulates [OF step.hyps(2)] sched_step_inv by metis
qed

text \<open>A call of \<open>fork\<close> from beginning to end is a run.\<close>

lemma fork_steps:
  assumes on: "on_proc y c i" and ph: "sy_phase y i = Outside" and f: "fork e i (sy_k y) = Inr (r, s)" "0 \<le> r"
  shows "(sys_step e)\<^sup>*\<^sup>* y (go i Outside s y)"
proof -
  obtain np s1 s2 s3 where a: "alloc_slot (sy_k y) = Inr (Some np, s1)" "new_stack e np s1 = Inr (True, s2)"
    "fork_copy e i np s2 = Inr (True, s3)" "s = set_state np RUNNABLE s3"
    using f by (auto simp: fork_def allocproc_def split: option.splits if_splits)
  have rest: "cpu_proc s1 = cpu_proc (sy_k y)" "cpu_proc s2 = cpu_proc s1" "cpu_proc s3 = cpu_proc s2"
    using alloc_slot_result [OF a(1)] new_stack_result [OF a(2)] fork_copy_result [OF a(3)] by (auto simp: same_rest_def)
  let ?y1 = "go i (Forking np) s1 y" and ?y2 = "go i (Copying np) s2 y" and ?y3 = "go i (Forked np) s3 y"
  have on1: "on_proc ?y1 c i" "on_proc ?y2 c i" "on_proc ?y3 c i" using on rest by (simp_all add: on_proc_def go_def)
  have "sys_step e y ?y1" by (rule sys_step.fork_slot [OF on ph a(1)])
  moreover have "sys_step e ?y1 ?y2" using sys_step.fork_stack [OF on1(1), of np e True s2] a(2) by (simp add: go_def)
  moreover have "sys_step e ?y2 ?y3" using sys_step.fork_fill [OF on1(2), of np e True s3] a(3) by (simp add: go_def)
  moreover have "sys_step e ?y3 (go i Outside s y)" using sys_step.fork_done [OF on1(3), of np e] a(4) by (simp add: go_def)
  ultimately show ?thesis by (meson converse_rtranclp_into_rtranclp r_into_rtranclp)
qed

lemma fork_cpu: "fork e i s = Inr (r, s') \<Longrightarrow> 0 \<le> r \<Longrightarrow> cpu_proc s' = cpu_proc s"
  by (auto simp: fork_def allocproc_def set_state_def same_rest_def split: option.splits if_splits
      dest!: alloc_slot_result new_stack_result fork_copy_result)

text \<open>After \<open>userinit\<close> there is one process, and no processor runs it yet.\<close>

definition booted :: "kernel \<Rightarrow> bool" where
  "booted s \<longleftrightarrow> 0 < nextpid s \<and> (\<forall>c < NCPU. cpu_proc s c = None) \<and>
     (\<exists>r < NPROC. initproc s = Some r \<and> p_state (procs s r) = RUNNABLE \<and> p_parent (procs s r) = None \<and>
        0 < p_pid (procs s r) \<and> p_pid (procs s r) < nextpid s \<and> p_kstack (procs s r) \<noteq> 0 \<and> p_pgdir (procs s r) \<noteq> 0 \<and>
        (\<forall>i < NPROC. i \<noteq> r \<longrightarrow> p_state (procs s i) = UNUSED \<and> p_parent (procs s i) = None))"

lemma booted_inv:
  assumes "booted s"
  shows "sched_inv (abs_k s (\<lambda>_. Outside))"
proof -
  from assms obtain r where r: "r < NPROC" "initproc s = Some r" "p_state (procs s r) = RUNNABLE" "p_parent (procs s r) = None"
      "0 < p_pid (procs s r)" "p_pid (procs s r) < nextpid s" "p_kstack (procs s r) \<noteq> 0" "p_pgdir (procs s r) \<noteq> 0"
      "\<forall>i < NPROC. i \<noteq> r \<longrightarrow> p_state (procs s i) = UNUSED \<and> p_parent (procs s i) = None"
    unfolding booted_def by blast
  have cpu: "0 < nextpid s" "\<forall>c < NCPU. cpu_proc s c = None" using assms by (simp_all add: booted_def)
  have st: "p_state (procs s i) = (if i = r then RUNNABLE else UNUSED)" "p_parent (procs s i) = None" if "i < NPROC" for i
    using r(3,4,9) that by auto
  let ?m = "abs_k s (\<lambda>_. Outside)"
  have "cpu_inv ?m" by (simp add: cpu_inv_def cpu st)
  moreover have "pid_inv ?m" using cpu(1) r(5,6) by (simp add: pid_inv_def st)
  moreover have "phase_inv ?m" by (simp add: phase_inv_def st)
  moreover have "parent_inv ?m" using r(1-4) by (simp add: parent_inv_def active_def st)
  moreover have "wait_inv ?m" by (simp add: wait_inv_def)
  moreover have "stack_inv ?m" using r(7,8) by (simp add: stack_inv_def active_def st)
  ultimately show ?thesis by (simp add: sched_inv_def)
qed

lemma userinit_boots:
  assumes "userinit devs e initcode s = Inr s'" and "\<forall>i < NPROC. p_state (procs s i) = UNUSED \<and> p_parent (procs s i) = None"
    and "0 < nextpid s" and "\<forall>c < NCPU. cpu_proc s c = None"
  shows "booted s'"
proof -
  obtain p s1 where a: "allocproc e s = Inr (Some p, s1)"
    using assms(1) by (auto simp: userinit_def Let_def split: option.splits)
  then obtain s0 where s0: "alloc_slot s = Inr (Some p, s0)" "new_stack e p s0 = Inr (True, s1)"
    by (auto simp: allocproc_def split: option.splits if_splits)
  have p: "p < NPROC" "s0 = upd_proc p (\<lambda>x. x\<lparr>p_state := EMBRYO, p_pid := nextpid s\<rparr>) (s\<lparr>nextpid := nextpid s + 1\<rparr>)"
    using alloc_slot_result [OF s0(1)] by auto
  note st = new_stack_result [OF s0(2)]
  obtain d k where d: "setupkvm (pe_mem e) (k_mem s1) = Inr (d, k)" "d \<noteq> 0"
    using assms(1) a by (auto simp: userinit_def Let_def split: if_splits)
  define s2 where "s2 = upd_proc p (p_state_update (\<lambda>_. RUNNABLE)) (upd_proc p (p_pgdir_update (\<lambda>_. d)) (s1\<lparr>initproc := Some p\<rparr>))"
  have v: "same_tasks s' s2"
    using assms(1) a d by (auto simp: userinit_def Let_def set_state_def s2_def same_tasks_def same_rest_def task_of_def)
  then show ?thesis
    using assms(2-4) p st d(2) unfolding booted_def by (intro conjI exI [of _ p]) (auto simp: same_tasks_def same_rest_def s2_def task_of_def)
qed

text \<open>The scheduler never meets a process without a stack or an address space.\<close>

lemma dispatch_total:
  assumes "sched_inv (abs_sys y)" and "p < NPROC" and "p_state (procs (sy_k y) p) = RUNNABLE"
  shows "\<exists>s. dispatch c p (sy_k y) = Inr s"
proof -
  have "t_stack (task_of (procs (sy_k y) p)) \<and> t_space (task_of (procs (sy_k y) p))"
    using sched_invD(6) [OF assms(1)] assms(2,3) by (simp add: stack_inv_def abs_sys_def active_def)
  then show ?thesis by (simp add: dispatch_def switchuvm_def)
qed

end
