(* ===== verification/Xv6_Fork.thy ===== *)
theory Xv6_Fork
  imports Xv6_Life Xv6_Copy
begin

text \<open>
  What \<open>fork\<close> makes of a process: the memory, the trap frame, the open files, the directory and the name of
  the child.
\<close>

section \<open>Writing into a page\<close>

lemma outside_page:
  fixes k i :: u32
  assumes "aligned p" and "aligned x" and "p \<noteq> x" and "unat k + n \<le> 4096" and "unat i < 4096"
  shows "\<not> unat (p + i - (x + k)) < n"
proof
  assume lt: "unat (p + i - (x + k)) < n"
  let ?j = "p + i - (x + k)"
  have "unat (k + ?j) = unat k + unat ?j" using lt assms(4) by (intro unat_add_no_wrap) simp
  then have "unat (k + ?j) < 4096" using lt assms(4) by simp
  then have "p + i \<noteq> x + (k + ?j)" by (rule page_apart [OF assms(1-3,5)])
  then show False by simp
qed

lemma fill_in_page: "aligned p \<Longrightarrow> aligned x \<Longrightarrow> p \<noteq> x \<Longrightarrow> unat k + n \<le> 4096 \<Longrightarrow> same_page (fill m (x + k) c n) m p"
  using outside_page by (auto simp: same_page_def fill_def)

lemma poke_bytes_in_page:
  "aligned p \<Longrightarrow> aligned x \<Longrightarrow> p \<noteq> x \<Longrightarrow> unat k + length bs \<le> 4096 \<Longrightarrow> same_page (kmem_mem (poke_bytes (x + k) bs s)) (kmem_mem s) p"
  using outside_page by (auto simp: same_page_def poke_bytes_def)

lemma poke_in_page:
  "aligned p \<Longrightarrow> aligned x \<Longrightarrow> p \<noteq> x \<Longrightarrow> unat k + 4 \<le> 4096 \<Longrightarrow> same_page (kmem_mem (poke (x + k) v s)) (kmem_mem s) p"
  by (simp add: poke_def store_same_page)

text \<open>Bytes that are read back.\<close>

lemma peek_poke_bytes:
  assumes "length bs = n" and "n < 2 ^ 32"
  shows "peek_bytes a n (poke_bytes a bs k) = bs"
proof (rule nth_equalityI)
  fix i assume "i < length (peek_bytes a n (poke_bytes a bs k))"
  then have i: "i < n" by (simp add: peek_bytes_def)
  then have "unat (word_of_nat i :: u32) = i" using assms(2) by (simp add: unat_of_nat)
  then show "peek_bytes a n (poke_bytes a bs k) ! i = bs ! i" using i assms(1) by (simp add: peek_bytes_def poke_bytes_def)
qed (simp add: peek_bytes_def assms(1))

lemma peek_same_page:
  assumes "same_page (kmem_mem k') (kmem_mem k) p" and "unat i + n \<le> 4096"
  shows "peek_bytes (p + i) n k' = peek_bytes (p + i) n k"
proof -
  have "kmem_mem k' (p + i + word_of_nat j) = kmem_mem k (p + i + word_of_nat j)" if "j < n" for j
  proof -
    have u: "unat (word_of_nat j :: u32) = j" using that assms(2) by (simp add: unat_of_nat)
    then have "unat (i + word_of_nat j) < 4096" using that assms(2) by (subst unat_add_no_wrap) simp_all
    then show ?thesis using assms(1) by (simp add: same_page_def add.assoc)
  qed
  then show ?thesis by (simp add: peek_bytes_def)
qed

definition cleared_eax :: "u8 list \<Rightarrow> u8 list" where
  "cleared_eax bs = bs[28 := 0, 29 := 0, 30 := 0, 31 := 0]"

lemma peek_clear_eax: "peek_bytes a TF_SIZE (poke (a + TF_EAX) 0 k) = cleared_eax (peek_bytes a TF_SIZE k)"
proof (rule nth_equalityI)
  fix i assume "i < length (peek_bytes a TF_SIZE (poke (a + TF_EAX) 0 k))"
  then have i: "i < 76" by (simp add: peek_bytes_def TF_SIZE_def)
  have eq: "(word_of_nat i :: u32) = word_of_nat j \<longleftrightarrow> i = j" if "j < 76" for j
    using i that by (simp add: word_unat_eq_iff unat_of_nat)
  have "(word_of_nat i :: u32) = 28 \<longleftrightarrow> i = 28" "(word_of_nat i :: u32) = 29 \<longleftrightarrow> i = 29" "(word_of_nat i :: u32) = 30 \<longleftrightarrow> i = 30"
    "(word_of_nat i :: u32) = 31 \<longleftrightarrow> i = 31" using eq [of 28] eq [of 29] eq [of 30] eq [of 31] by simp_all
  then show "peek_bytes a TF_SIZE (poke (a + TF_EAX) 0 k) ! i = cleared_eax (peek_bytes a TF_SIZE k) ! i"
    using i by (auto simp: peek_bytes_def poke_def store32_def cleared_eax_def nth_list_update TF_SIZE_def TF_EAX_def)
qed (simp add: peek_bytes_def cleared_eax_def)

section \<open>The steps of \<open>fork\<close>\<close>

lemma kmem_inv_other_pages:
  assumes "kmem_inv kend k xs" and "k' = k\<lparr>kmem_mem := kmem_mem k'\<rparr>" and "\<And>x. x \<in> set xs \<Longrightarrow> same_page (kmem_mem k') (kmem_mem k) x"
  shows "kmem_inv kend k' xs"
  using kmem_inv_frame [OF assms(1,3)] assms(2) by simp

lemma new_stack_ok:
  assumes ok: "user_ok (ke_end (pe_mem e)) (k_mem s) d xs"
  shows "\<exists>s'. same_rest s' s \<and> k_files s' = (k_files s)\<lparr>fl_kmem := k_mem s'\<rparr> \<and> (\<forall>i. i \<noteq> p \<longrightarrow> procs s' i = procs s i) \<and>
    (xs = [] \<and> new_stack e p s = Inr (False, s') \<and> user_ok (ke_end (pe_mem e)) (k_mem s') d [] \<and> kmem_mem (k_mem s') = kmem_mem (k_mem s) \<and>
       procs s' p = (procs s p)\<lparr>p_kstack := 0, p_state := UNUSED\<rparr> \<or>
     (\<exists>x ys. xs = x # ys \<and> new_stack e p s = Inr (True, s') \<and> user_ok (ke_end (pe_mem e)) (k_mem s') d ys \<and> page_ok (ke_end (pe_mem e)) x \<and>
       (\<forall>q. aligned q \<and> q \<noteq> x \<longrightarrow> same_page (kmem_mem (k_mem s')) (kmem_mem (k_mem s)) q) \<and>
       procs s' p = (procs s p)\<lparr>p_kstack := x, p_tf := x + 4020, p_context := x + 3996\<rparr>))"
proof -
  let ?K = "ke_end (pe_mem e)"
  have inv: "kmem_inv ?K (k_mem s) xs" using ok by (simp add: user_ok_def space_ok_def)
  obtain k1 where k1: "kalloc_in (pe_mem e) (k_mem s) = Inr (case xs of [] \<Rightarrow> 0 | x # _ \<Rightarrow> x, k1)" "kmem_inv ?K k1 (tl xs)"
      "kmem_mem k1 = kmem_mem (k_mem s)"
    using kalloc_takes [OF inv, of "ke_me (pe_mem e)" "ke_stack (pe_mem e)"] by auto
  have sp: "space_ok ?K (k_mem s) d xs" using ok by (simp add: user_ok_def)
  have al: "aligned q" "q \<notin> set xs" if "q = d \<or> q \<in> tables (k_mem s) d" for q using space_pages [OF sp] that by auto
  have out: "set xs \<inter> owned (k_mem s) d = {}" using ok space_pages [OF sp] by (auto simp: owned_def user_ok_def)
  show ?thesis
  proof (cases xs)
    case Nil
    let ?s = "set_state p UNUSED (upd_proc p (p_kstack_update (\<lambda>_. 0)) (set_mem k1 s))"
    have "user_ok ?K k1 d []" by (rule user_ok_frame [OF ok]) (use k1 Nil in simp_all)
    then show ?thesis using k1 Nil by (intro exI [of _ ?s]) (simp add: new_stack_def set_state_def same_rest_def set_mem_def)
  next
    case (Cons x ys)
    have x: "page_ok ?K x" "aligned x" "x \<noteq> 0" "x \<notin> set ys" using inv page_nonzero [of ?K x] by (auto simp: kmem_inv_def page_ok_def Cons)
    let ?k2 = "poke (x + 4016) (pe_trapret e) k1"
    let ?k3 = "?k2\<lparr>kmem_mem := fill (kmem_mem ?k2) (x + 3996) 0 CONTEXT_SIZE\<rparr>"
    let ?k4 = "poke (x + 4012) (pe_forkret e) ?k3"
    let ?s = "set_mem ?k4 (upd_proc p (\<lambda>y. y\<lparr>p_kstack := x, p_tf := x + 4020, p_context := x + 3996\<rparr>) (set_mem k1 s))"
    have fr: "same_page (kmem_mem ?k4) (kmem_mem (k_mem s)) q" if "aligned q" "q \<noteq> x" for q
    proof -
      have m2: "same_page (kmem_mem ?k2) (kmem_mem k1) q" by (rule poke_in_page [OF that(1) x(2) that(2)]) simp
      have m3: "same_page (kmem_mem ?k3) (kmem_mem ?k2) q"
        using fill_in_page [OF that(1) x(2) that(2), of 3996 CONTEXT_SIZE] by (simp add: CONTEXT_SIZE_def)
      have m4: "same_page (kmem_mem ?k4) (kmem_mem ?k3) q" by (rule poke_in_page [OF that(1) x(2) that(2)]) simp
      show ?thesis using same_page_trans [OF m4 same_page_trans [OF m3 m2]] unfolding k1(3) .
    qed
    have al4: "?k4 = k1\<lparr>kmem_mem := kmem_mem ?k4\<rparr>" by (simp add: poke_def)
    have "kmem_inv ?K ?k4 ys"
      by (rule kmem_inv_other_pages [of ?K k1, OF _ al4]) (use k1 fr x inv in \<open>auto simp: Cons kmem_inv_def page_ok_def\<close>)
    then have "user_ok ?K ?k4 d ys" by (rule user_ok_frame [OF ok]) (use out fr al in \<open>auto simp: Cons\<close>)
    moreover have "new_stack e p s = Inr (True, ?s)"
      using k1(1) x(3) by (simp add: new_stack_def Cons Let_def KSTACKSIZE_def TF_SIZE_def CONTEXT_SIZE_def CONTEXT_EIP_def upd_proc_def set_mem_def add.commute)
    ultimately show ?thesis using x(1) fr
      by (intro exI [of _ ?s]) (auto simp: Cons same_rest_def set_mem_def upd_proc_def)
  qed
qed

text \<open>The loop over the open files: each gets one more reference for every descriptor.\<close>

definition more_refs :: "nat option list \<Rightarrow> files \<Rightarrow> files" where
  "more_refs fs fl = fl\<lparr>ftable := (\<lambda>f. (ftable fl f)\<lparr>f_ref := f_ref (ftable fl f) + int (count_list fs (Some f))\<rparr>)\<rparr>"

lemma dup_loop:
  assumes me: "me \<noteq> np" and len: "length (p_ofile (procs s me)) = NOFILE" and none: "p_ofile (procs s np) = replicate NOFILE None"
    and refs: "\<And>f. Some f \<in> set (p_ofile (procs s me)) \<Longrightarrow> 1 \<le> f_ref (ftable (k_files s) f)" and n: "n \<le> NOFILE"
  shows "\<exists>s'. loopE (dup_file me np) [0..<n] s = Inr s' \<and> same_rest s' s \<and>
    procs s' = (procs s)(np := (procs s np)\<lparr>p_ofile := take n (p_ofile (procs s me)) @ replicate (NOFILE - n) None\<rparr>) \<and>
    k_files s' = more_refs (take n (p_ofile (procs s me))) (k_files s)"
  using n
proof (induction n)
  case 0
  have "procs s = (procs s)(np := (procs s np)\<lparr>p_ofile := replicate NOFILE None\<rparr>)" using none by (simp add: fun_eq_iff)
  then show ?case by (simp add: same_rest_def more_refs_def)
next
  case (Suc n)
  let ?fs = "p_ofile (procs s me)"
  obtain s1 where s1: "loopE (dup_file me np) [0..<n] s = Inr s1" "same_rest s1 s"
    "procs s1 = (procs s)(np := (procs s np)\<lparr>p_ofile := take n ?fs @ replicate (NOFILE - n) None\<rparr>)" "k_files s1 = more_refs (take n ?fs) (k_files s)"
    using Suc.IH [OF Suc_leD [OF Suc.prems]] by blast
  have n: "n < length ?fs" "n < NOFILE" using Suc.prems len by simp_all
  have get: "rd (p_ofile (procs s1 me)) n = Inr (?fs ! n)" using n me by (simp add: s1(3) rd_def)
  have tk: "take (Suc n) ?fs = take n ?fs @ [?fs ! n]" by (rule take_Suc_conv_app_nth [OF n(1)])
  have r: "replicate (NOFILE - n) None = None # replicate (NOFILE - Suc n) (None :: nat option)" using n(2) by (metis Suc_diff_Suc replicate_Suc)
  have upd: "(take n ?fs @ replicate (NOFILE - n) None)[n := x] = take n ?fs @ [x] @ replicate (NOFILE - Suc n) None" for x
    unfolding r using n(1) by (simp add: list_update_append)
  have run: "loopE (dup_file me np) [0..<Suc n] s = dup_file me np n s1" using s1(1) by (simp add: loopE_snoc)
  show ?case
  proof (cases "?fs ! n")
    case None
    then have "dup_file me np n s1 = Inr s1" using get by (simp add: dup_file_def)
    moreover have "take n ?fs @ replicate (NOFILE - n) None = take (Suc n) ?fs @ replicate (NOFILE - Suc n) None"
      unfolding r tk None by simp
    ultimately show ?thesis using s1 run None by (auto simp: tk more_refs_def)
  next
    case (Some f)
    then have "Some f \<in> set ?fs" using n(1) by (metis nth_mem)
    then have "1 \<le> f_ref (ftable (k_files s1) f)" using refs [of f] by (simp add: s1(4) more_refs_def)
    then have fd: "filedup f (k_files s1) = Inr (f, upd_file f (f_ref_update (\<lambda>r. r + 1)) (k_files s1))" by (simp add: filedup_def)
    have wr: "wr (p_ofile (procs s1 np)) n (Some f) = Inr (take n ?fs @ [Some f] @ replicate (NOFILE - Suc n) None)"
      using n len upd [of "Some f"] by (simp add: s1(3) wr_def)
    let ?s = "upd_proc np (p_ofile_update (\<lambda>_. take n ?fs @ [Some f] @ replicate (NOFILE - Suc n) None)) (s1\<lparr>k_files := upd_file f (f_ref_update (\<lambda>r. r + 1)) (k_files s1)\<rparr>)"
    have "p_ofile (procs s1 me) ! n = Some f" "n < length (p_ofile (procs s1 me))" using get Some by auto
    then have "dup_file me np n s1 = Inr ?s" unfolding dup_file_def by (simp add: rd_def fd wr)
    moreover have "k_files ?s = more_refs (take (Suc n) ?fs) (k_files s)"
      using Some by (auto simp: s1(4) more_refs_def upd_file_def tk fun_eq_iff)
    ultimately show ?thesis using run s1 Some by (intro exI [of _ ?s]) (simp add: same_rest_def tk)
  qed
qed

section \<open>The child\<close>

text \<open>What the caller of \<open>fork\<close> looks like: a process inside a system call.\<close>

definition fork_ready :: "penv \<Rightarrow> nat \<Rightarrow> kernel \<Rightarrow> u32 list \<Rightarrow> bool" where
  "fork_ready e me s xs \<longleftrightarrow> (let cur = procs s me in
     user_ok (ke_end (pe_mem e)) (k_mem s) (p_pgdir cur) xs \<and> env_ok (pe_mem e) \<and>
     unat (p_sz cur) \<le> 2 ^ 31 \<and> (\<forall>va. va < p_sz cur \<longrightarrow> present (entry (k_mem s) (p_pgdir cur) va)) \<and>
     aligned (p_kstack cur) \<and> p_kstack cur \<notin> set xs \<and> p_tf cur = p_kstack cur + 4020 \<and>
     p_state cur = RUNNING \<and> nextpid s < 2 ^ 31 - 1 \<and>
     length (p_ofile cur) = NOFILE \<and> (\<forall>f. Some f \<in> set (p_ofile cur) \<longrightarrow> 1 \<le> f_ref (ftable (k_files s) f)) \<and> p_cwd cur \<noteq> None \<and>
     length (p_name cur) = 16 \<and> 0 \<in> set (p_name cur) \<and>
     (\<forall>p < NPROC. p_state (procs s p) = UNUSED \<longrightarrow> p_ofile (procs s p) = replicate NOFILE None \<and> length (p_name (procs s p)) = 16))"

text \<open>What the child has of its parent.\<close>

definition child_of :: "penv \<Rightarrow> nat \<Rightarrow> kernel \<Rightarrow> nat \<Rightarrow> kernel \<Rightarrow> bool" where
  "child_of e me s np s' \<longleftrightarrow> (let cur = procs s me; x = procs s' np in
     p_state x = RUNNABLE \<and> p_pid x = nextpid s \<and> p_parent x = Some me \<and> p_sz x = p_sz cur \<and>
     p_ofile x = p_ofile cur \<and> p_cwd x = p_cwd cur \<and> c_str (p_name x) = take 15 (c_str (p_name cur)) \<and>
     copied (k_mem s') (p_pgdir x) (k_mem s) (p_pgdir cur) \<and>
     (\<forall>va. user va \<longrightarrow> (present (entry (k_mem s') (p_pgdir x) va) \<longleftrightarrow> 4096 * (unat va div 4096) < unat (p_sz cur))) \<and>
     peek_bytes (p_tf x) TF_SIZE (k_mem s') = cleared_eax (peek_bytes (p_tf cur) TF_SIZE (k_mem s)) \<and>
     ftable (k_files s') = ftable (more_refs (p_ofile cur) (k_files s)) \<and>
     (\<forall>c. p_cwd cur = Some c \<longrightarrow> fl_fs (k_files s') = upd_inode c (i_ref_update (\<lambda>r. r + 1)) (fl_fs (k_files s))))"

lemma alloc_slot_first:
  assumes "nextpid s < 2 ^ 31 - 1"
  shows "alloc_slot s = Inr (None, s) \<and> (\<forall>p < NPROC. p_state (procs s p) \<noteq> UNUSED) \<or>
    (\<exists>p < NPROC. p_state (procs s p) = UNUSED \<and>
      alloc_slot s = Inr (Some p, upd_proc p (\<lambda>x. x\<lparr>p_state := EMBRYO, p_pid := nextpid s\<rparr>) (s\<lparr>nextpid := nextpid s + 1\<rparr>)))"
proof (cases "find (\<lambda>p. p_state (procs s p) = UNUSED) [0..<NPROC]")
  case None
  then have "\<forall>p < NPROC. p_state (procs s p) \<noteq> UNUSED" by (auto simp: find_None_iff)
  moreover have "alloc_slot s = Inr (None, s)" by (simp add: alloc_slot_def None)
  ultimately show ?thesis by blast
next
  case (Some p)
  then have "p < NPROC" "p_state (procs s p) = UNUSED" by (auto simp: find_Some_iff)
  then show ?thesis using Some assms by (auto simp: alloc_slot_def)
qed

lemma user_out: "user_ok kend k d xs \<Longrightarrow> set xs \<inter> owned k d = {}"
  using space_pages by (fastforce simp: owned_def user_ok_def)

lemma owned_aligned: "user_ok kend k d xs \<Longrightarrow> q \<in> owned k d \<Longrightarrow> aligned q"
  by (auto simp: user_ok_def owned_def space_ok_def page_ok_def)

text \<open>A change inside a page that an address space does not own.\<close>

lemma user_ok_outside:
  assumes ok: "user_ok kend k d xs" and k': "k' = k\<lparr>kmem_mem := kmem_mem k'\<rparr>"
    and fr: "\<And>q. aligned q \<Longrightarrow> q \<noteq> x \<Longrightarrow> same_page (kmem_mem k') (kmem_mem k) q" and x: "x \<notin> set xs" "x \<notin> owned k d"
  shows "user_ok kend k' d xs" "owned k' d = owned k d" "entry k' d va = entry k d va" "upages k' d = upages k d"
proof -
  have "kmem_inv kend k xs" using ok by (simp add: user_ok_def space_ok_def)
  then have inv: "kmem_inv kend k' xs"
    by (rule kmem_inv_other_pages [OF _ k']) (use fr x(1) \<open>kmem_inv kend k xs\<close> in \<open>auto simp: kmem_inv_def page_ok_def\<close>)
  have f: "same_page (kmem_mem k') (kmem_mem k) q" if "q = d \<or> q \<in> tables k d" for q
    using fr owned_aligned [OF ok, of q] x(2) that by (auto simp: owned_def)
  show "user_ok kend k' d xs" "owned k' d = owned k d" "entry k' d va = entry k d va" "upages k' d = upages k d"
    using user_ok_frame [OF ok inv user_out [OF ok] f] by blast+
qed

lemma copied_frame:
  assumes "copied k' d k p" and "\<And>va. entry k2 d va = entry k' d va" and "\<And>q. q \<in> upages k' d \<Longrightarrow> same_page (kmem_mem k2) (kmem_mem k') q"
  shows "copied k2 d k p"
  using assms(1) assms(3) [OF upages_I] unfolding copied_def assms(2) same_contents_def same_page_def by simp

text \<open>The part of \<open>fork\<close> behind \<open>allocproc\<close>; \<open>ys\<close> are the pages that are free after the stack was taken.\<close>

lemma fork_copy_ok:
  fixes s :: kernel and np me :: nat and x :: u32 and e :: penv
  defines "K \<equiv> ke_end (pe_mem e)"
  assumes ok: "user_ok K (k_mem s) (p_pgdir (procs s me)) ys" and env: "env_ok (pe_mem e)"
    and sz: "unat (p_sz (procs s me)) \<le> 2 ^ 31" "\<And>va. va < p_sz (procs s me) \<Longrightarrow> present (entry (k_mem s) (p_pgdir (procs s me)) va)"
    and x: "page_ok K x" "x \<notin> set ys" "x \<notin> owned (k_mem s) (p_pgdir (procs s me))" "p_kstack (procs s np) = x" "p_tf (procs s np) = x + 4020"
    and stk: "aligned (p_kstack (procs s me))" "p_kstack (procs s me) \<notin> set ys" "p_kstack (procs s me) \<noteq> x"
      "p_tf (procs s me) = p_kstack (procs s me) + 4020"
    and fs: "length (p_ofile (procs s me)) = NOFILE" "\<And>f. Some f \<in> set (p_ofile (procs s me)) \<Longrightarrow> 1 \<le> f_ref (ftable (k_files s) f)"
      "p_ofile (procs s np) = replicate NOFILE None" and cwd: "p_cwd (procs s me) = Some c"
    and nm: "length (p_name (procs s me)) = 16" "0 \<in> set (p_name (procs s me))" "length (p_name (procs s np)) = 16" and ne: "me \<noteq> np"
  shows "\<exists>b s' ys'. fork_copy e me np s = Inr (b, s') \<and> same_rest s' s \<and> (\<forall>i. i \<noteq> np \<longrightarrow> procs s' i = procs s i) \<and>
    user_ok K (k_mem s') (p_pgdir (procs s me)) ys' \<and>
    (\<not> b \<and> procs s' np = (procs s np)\<lparr>p_pgdir := 0, p_kstack := 0, p_state := UNUSED\<rparr> \<and> set ys' = insert x (set ys) \<and>
       k_files s' = (k_files s)\<lparr>fl_kmem := k_mem s'\<rparr> \<and> length ys \<le> 1026 + (unat (p_sz (procs s me)) + 4095) div 4096 \<or>
     b \<and> user_ok K (k_mem s') (p_pgdir (procs s' np)) ys' \<and> set ys' \<union> owned (k_mem s') (p_pgdir (procs s' np)) = set ys \<and>
       p_kstack (procs s' np) = x \<and> p_state (procs s' np) = p_state (procs s np) \<and> p_killed (procs s' np) = p_killed (procs s np) \<and>
       child_of e me (s\<lparr>nextpid := p_pid (procs s' np)\<rparr>) np (set_state np RUNNABLE s'))"
proof -
  let ?cur = "procs s me" and ?p = "p_pgdir (procs s me)"
  obtain d k' ys' where c: "copyuvm (pe_mem e) ?p (p_sz ?cur) (k_mem s) = Inr (d, k')" "kmem_inv K k' ys'"
    "\<And>q. aligned q \<Longrightarrow> q \<notin> set ys \<Longrightarrow> same_page (kmem_mem k') (kmem_mem (k_mem s)) q"
    "d = 0 \<and> set ys' = set ys \<and> length ys \<le> 1026 + (unat (p_sz ?cur) + 4095) div 4096 \<or> d \<noteq> 0 \<and> user_ok K k' d ys' \<and> set ys' \<union> owned k' d = set ys \<and> copied k' d (k_mem s) ?p \<and>
      (\<forall>va. user va \<longrightarrow> (present (entry k' d va) \<longleftrightarrow> 4096 * (unat va div 4096) < unat (p_sz ?cur)))"
    using copyuvm_ok [OF ok [unfolded K_def] env sz] unfolding K_def by blast
  have disj: "set ys \<inter> owned (k_mem s) ?p = {}" by (rule user_out [OF ok])
  have pf: "same_page (kmem_mem k') (kmem_mem (k_mem s)) q" if "q = ?p \<or> q \<in> tables (k_mem s) ?p" for q
    using c(3) owned_aligned [OF ok, of q] disj that by (auto simp: owned_def)
  have "set ys' \<inter> owned (k_mem s) ?p = {}" using c(4) disj by blast
  note parent = user_ok_frame [OF ok c(2) this pf]
  have al: "aligned x" using x(1) by (simp add: page_ok_def)
  show ?thesis
  proof (cases "d = 0")
    case True
    then have ys': "set ys' = set ys" and few: "length ys \<le> 1026 + (unat (p_sz ?cur) + 4095) div 4096" using c(4) by simp_all
    obtain k2 where k2: "kfree_in (pe_mem e) x k' = Inr k2" "kmem_inv K k2 (x # ys')"
      "\<And>q. aligned q \<Longrightarrow> q \<noteq> x \<Longrightarrow> same_page (kmem_mem k2) (kmem_mem k') q"
      using kfree_page [OF c(2) [unfolded K_def] x(1) [unfolded K_def]] x(2) unfolding K_def ys' [symmetric] by blast
    have "same_page (kmem_mem k2) (kmem_mem k') q" if "q = ?p \<or> q \<in> tables k' ?p" for q
      using k2(3) owned_aligned [OF parent(1), of q] that x(3) parent(2) by (auto simp: owned_def)
    moreover have "set (x # ys') \<inter> owned k' ?p = {}" using x(3) disj ys' parent(2) by auto
    ultimately have "user_ok K k2 ?p (x # ys')" using user_ok_frame(1) [OF parent(1) k2(2)] by blast
    let ?s = "upd_proc np (\<lambda>y. y\<lparr>p_pgdir := 0, p_kstack := 0, p_state := UNUSED\<rparr>) (set_mem k2 s)"
    have "fork_copy e me np s = Inr (False, ?s)"
      using c(1) True k2(1) x(4) by (simp add: fork_copy_def Let_def upd_proc_def set_mem_def)
    then show ?thesis using \<open>user_ok K k2 ?p (x # ys')\<close> ys' few
      by (intro exI [of _ False] exI [of _ ?s] exI [of _ "x # ys'"]) (simp add: same_rest_def, simp add: set_mem_def)
  next
    case False
    then have d: "user_ok K k' d ys'" "set ys' \<union> owned k' d = set ys" "copied k' d (k_mem s) ?p"
      "\<And>va. user va \<Longrightarrow> present (entry k' d va) \<longleftrightarrow> 4096 * (unat va div 4096) < unat (p_sz ?cur)" using c(4) by auto
    have xd: "x \<notin> set ys'" "x \<notin> owned k' d" using d(2) x(2) by auto
    let ?tf = "x + 4020 :: u32"
    define kA where "kA = poke_bytes ?tf (peek_bytes (p_tf ?cur) TF_SIZE k') k'"
    define kB where "kB = poke (?tf + TF_EAX) 0 kA"
    have fr: "same_page (kmem_mem kB) (kmem_mem k') q" if "aligned q" "q \<noteq> x" for q
    proof -
      have "same_page (kmem_mem kA) (kmem_mem k') q" unfolding kA_def
        by (rule poke_bytes_in_page [OF that(1) al that(2)]) (simp add: peek_bytes_def TF_SIZE_def)
      moreover have "same_page (kmem_mem kB) (kmem_mem kA) q"
        using poke_in_page [OF that(1) al that(2), of "4020 + TF_EAX" 0 kA] unfolding kB_def by (simp add: TF_EAX_def add.assoc)
      ultimately show ?thesis by (rule same_page_trans [rotated])
    qed
    have kB: "kB = k'\<lparr>kmem_mem := kmem_mem kB\<rparr>" by (simp add: kB_def kA_def poke_def poke_bytes_def)
    note child = user_ok_outside [OF d(1) kB fr xd]
    have "x \<notin> owned k' ?p" using x(3) parent(2) by simp
    note par = user_ok_outside [OF parent(1) kB fr xd(1) this]
    have same_u: "same_page (kmem_mem kB) (kmem_mem k') q" if "q \<in> upages k' d" for q
      using fr owned_aligned [OF d(1), of q] xd(2) that by (auto simp: owned_def)
    have copied: "copied kB d (k_mem s) ?p" by (rule copied_frame [OF d(3) child(3) same_u])
    have "peek_bytes (p_tf ?cur) TF_SIZE k' = peek_bytes (p_tf ?cur) TF_SIZE (k_mem s)"
      unfolding stk(4) by (rule peek_same_page [OF c(3) [OF stk(1,2)]]) (simp add: TF_SIZE_def)
    moreover have "peek_bytes ?tf TF_SIZE kA = peek_bytes (p_tf ?cur) TF_SIZE k'"
      unfolding kA_def by (rule peek_poke_bytes) (simp_all add: peek_bytes_def TF_SIZE_def)
    ultimately have tf: "peek_bytes ?tf TF_SIZE kB = cleared_eax (peek_bytes (p_tf ?cur) TF_SIZE (k_mem s))"
      unfolding kB_def peek_clear_eax by simp
    define s1 where "s1 = set_mem kB (upd_proc np (\<lambda>y. y\<lparr>p_pgdir := d, p_sz := p_sz ?cur, p_parent := Some me\<rparr>) s)"
    have s1: "procs s1 = (procs s)(np := (procs s np)\<lparr>p_pgdir := d, p_sz := p_sz ?cur, p_parent := Some me\<rparr>)" "same_rest s1 s"
      "k_files s1 = (k_files s)\<lparr>fl_kmem := kB\<rparr>" by (simp_all add: s1_def same_rest_def) (simp add: set_mem_def)
    obtain s2 where s2: "loopE (dup_file me np) [0..<NOFILE] s1 = Inr s2" "same_rest s2 s1"
      "procs s2 = (procs s1)(np := (procs s1 np)\<lparr>p_ofile := p_ofile ?cur\<rparr>)" "k_files s2 = more_refs (p_ofile ?cur) (k_files s1)"
      using dup_loop [OF ne, of s1 NOFILE] fs ne by (auto simp: s1)
    obtain nm' where nm': "safestrcpy (p_name (procs s np)) (p_name ?cur) 16 = Inr nm'" "c_str nm' = take 15 (c_str (p_name ?cur))"
      using safestrcpy_string [of 16 "p_name (procs s np)" "p_name ?cur"] nm by auto
    define s3 where "s3 = upd_proc np (\<lambda>y. y\<lparr>p_cwd := Some c, p_name := nm'\<rparr>)
      (s2\<lparr>k_files := (k_files s2)\<lparr>fl_fs := upd_inode c (i_ref_update (\<lambda>r. r + 1)) (fl_fs (k_files s2))\<rparr>\<rparr>)"
    have run: "fork_copy e me np s = Inr (True, s3)"
    proof -
      have "set_mem kB (upd_proc np (\<lambda>y. y\<lparr>p_sz := p_sz ?cur, p_parent := Some me\<rparr>) (upd_proc np (p_pgdir_update (\<lambda>_. d)) (set_mem k' s))) = s1"
        by (simp add: s1_def set_mem_def upd_proc_def)
      then show ?thesis using c(1) False s2(1) cwd nm'(1) x(5)
        by (simp add: fork_copy_def Let_def kA_def [symmetric] kB_def [symmetric] idup_def s3_def s2(3) s1(1) upd_proc_def)
    qed
    have km: "k_mem s3 = kB" by (simp add: s3_def s2(4) more_refs_def s1(3))
    have np: "procs s3 np = (procs s np)\<lparr>p_pgdir := d, p_sz := p_sz ?cur, p_parent := Some me, p_ofile := p_ofile ?cur, p_cwd := Some c, p_name := nm'\<rparr>"
      by (simp add: s3_def s2(3) s1(1))
    have "child_of e me (s\<lparr>nextpid := p_pid (procs s3 np)\<rparr>) np (set_state np RUNNABLE s3)"
      using copied d(4) tf nm'(2) cwd x(5) ne
      by (simp add: child_of_def Let_def set_state_def np km child(3)) (simp add: s3_def s2(4) s1(3) more_refs_def)
    moreover have "same_rest s3 s" using s2(2) s1(2) by (simp add: s3_def same_rest_def)
    moreover have "procs s3 i = procs s i" if "i \<noteq> np" for i using that by (simp add: s3_def s2(3) s1(1))
    moreover have "p_pgdir (procs s3 np) = d" "p_kstack (procs s3 np) = x" "p_state (procs s3 np) = p_state (procs s np)"
      "p_killed (procs s3 np) = p_killed (procs s np)" by (simp_all add: np x(4))
    ultimately show ?thesis using run child(1,2) par(1) d(2) km
      by (intro exI [of _ True] exI [of _ s3] exI [of _ ys']) simp
  qed
qed

lemma present_flags: "present (PTE_FLAGS v) \<longleftrightarrow> present v"
  by (simp add: present_def PTE_FLAGS_def PTE_P_def and.assoc)

lemma copied_source:
  assumes "copied k d k2 p" and "\<And>va. entry k2 p va = entry k1 p va" and "\<And>q. q \<in> upages k1 p \<Longrightarrow> same_page (kmem_mem k2) (kmem_mem k1) q"
  shows "copied k d k1 p"
  unfolding copied_def
proof (intro allI impI)
  fix va assume va: "user va \<and> present (entry k d va)"
  then have c: "PTE_FLAGS (entry k d va) = PTE_FLAGS (entry k1 p va)" "same_contents k (page_of (entry k d va)) k2 (page_of (entry k1 p va))"
    using assms(1) unfolding copied_def assms(2) by blast+
  then have "present (entry k1 p va)" using va present_flags by metis
  then have "same_page (kmem_mem k2) (kmem_mem k1) (page_of (entry k1 p va))" using assms(3) upages_I va by blast
  then show "PTE_FLAGS (entry k d va) = PTE_FLAGS (entry k1 p va) \<and> same_contents k (page_of (entry k d va)) k1 (page_of (entry k1 p va))"
    using c by (simp add: same_contents_def same_page_def)
qed

text \<open>The whole of \<open>fork\<close>.\<close>

lemma fork_ok:
  assumes ready: "fork_ready e me s xs" and me: "me < NPROC"
  shows "\<exists>r s' xs'. fork e me s = Inr (r, s') \<and> user_ok (ke_end (pe_mem e)) (k_mem s') (p_pgdir (procs s me)) xs' \<and>
    (r = - 1 \<and> (\<forall>p. p_state (procs s' p) = p_state (procs s p)) \<and> set xs' = set xs \<and> ftable (k_files s') = ftable (k_files s) \<and>
       fl_fs (k_files s') = fl_fs (k_files s) \<and>
       ((\<forall>p < NPROC. p_state (procs s p) \<noteq> UNUSED) \<or> length xs \<le> 1027 + (unat (p_sz (procs s me)) + 4095) div 4096) \<or>
     r = nextpid s \<and> (\<exists>np < NPROC. p_state (procs s np) = UNUSED \<and> child_of e me s np s' \<and> (\<forall>p. p \<noteq> np \<longrightarrow> procs s' p = procs s p) \<and>
       p_killed (procs s' np) = p_killed (procs s np) \<and>
       user_ok (ke_end (pe_mem e)) (k_mem s') (p_pgdir (procs s' np)) xs' \<and> page_ok (ke_end (pe_mem e)) (p_kstack (procs s' np)) \<and>
       set xs' \<union> owned (k_mem s') (p_pgdir (procs s' np)) \<union> {p_kstack (procs s' np)} = set xs))"
proof -
  let ?K = "ke_end (pe_mem e)" and ?cur = "procs s me"
  note R = ready [unfolded fork_ready_def Let_def]
  have ok: "user_ok ?K (k_mem s) (p_pgdir ?cur) xs" and env: "env_ok (pe_mem e)" using R by blast+
  obtain c where c: "p_cwd ?cur = Some c" using R by blast
  consider "alloc_slot s = Inr (None, s)"
    | p where "p < NPROC" "p_state (procs s p) = UNUSED"
      "alloc_slot s = Inr (Some p, upd_proc p (\<lambda>x. x\<lparr>p_state := EMBRYO, p_pid := nextpid s\<rparr>) (s\<lparr>nextpid := nextpid s + 1\<rparr>))"
    using alloc_slot_first [of s] R by blast
  then show ?thesis
  proof cases
    case 1
    then have "\<forall>p < NPROC. p_state (procs s p) \<noteq> UNUSED" using alloc_slot_first [of s] R by auto
    then show ?thesis using ok 1 by (intro exI [of _ "- 1"] exI [of _ s] exI [of _ xs]) (simp add: fork_def allocproc_def)
  next
    case (2 np)
    have ne: "np \<noteq> me" using 2(2) R by auto
    let ?s1 = "upd_proc np (\<lambda>x. x\<lparr>p_state := EMBRYO, p_pid := nextpid s\<rparr>) (s\<lparr>nextpid := nextpid s + 1\<rparr>)"
    have s1: "k_mem ?s1 = k_mem s" "procs ?s1 me = procs s me" "k_files ?s1 = k_files s" "nextpid ?s1 = nextpid s + 1" using ne by simp_all
    have ok1: "user_ok ?K (k_mem ?s1) (p_pgdir ?cur) xs" using ok s1 by simp
    obtain s2 where s2: "same_rest s2 ?s1" "k_files s2 = (k_files s)\<lparr>fl_kmem := k_mem s2\<rparr>" "\<forall>i. i \<noteq> np \<longrightarrow> procs s2 i = procs ?s1 i"
      and st: "xs = [] \<and> new_stack e np ?s1 = Inr (False, s2) \<and> user_ok ?K (k_mem s2) (p_pgdir ?cur) [] \<and> kmem_mem (k_mem s2) = kmem_mem (k_mem ?s1) \<and>
         procs s2 np = (procs ?s1 np)\<lparr>p_kstack := 0, p_state := UNUSED\<rparr> \<or>
       (\<exists>x ys. xs = x # ys \<and> new_stack e np ?s1 = Inr (True, s2) \<and> user_ok ?K (k_mem s2) (p_pgdir ?cur) ys \<and> page_ok ?K x \<and>
         (\<forall>q. aligned q \<and> q \<noteq> x \<longrightarrow> same_page (kmem_mem (k_mem s2)) (kmem_mem (k_mem ?s1)) q) \<and>
         procs s2 np = (procs ?s1 np)\<lparr>p_kstack := x, p_tf := x + 4020, p_context := x + 3996\<rparr>)"
      using new_stack_ok [OF ok1, of np] unfolding s1(3) by blast
    have tab: "ftable (k_files s2) = ftable (k_files s)" "fl_fs (k_files s2) = fl_fs (k_files s)" by (subst s2(2), simp)+
    from st show ?thesis
    proof (elim disjE exE conjE)
      assume nil: "xs = []" "new_stack e np ?s1 = Inr (False, s2)" "user_ok ?K (k_mem s2) (p_pgdir ?cur) []"
        "procs s2 np = (procs ?s1 np)\<lparr>p_kstack := 0, p_state := UNUSED\<rparr>"
      then have "fork e me s = Inr (- 1, s2)" by (simp add: fork_def allocproc_def 2(3))
      moreover have "p_state (procs s2 p) = p_state (procs s p)" for p using s2(3) nil(4) 2(2) by (cases "p = np") auto
      ultimately show ?thesis using nil(1,3) tab by (intro exI [of _ "- 1"] exI [of _ s2] exI [of _ "[]"]) simp
    next
      fix x ys
      assume xs: "xs = x # ys" and run: "new_stack e np ?s1 = Inr (True, s2)" and ok2: "user_ok ?K (k_mem s2) (p_pgdir ?cur) ys" and x: "page_ok ?K x"
        and fr: "\<forall>q. aligned q \<and> q \<noteq> x \<longrightarrow> same_page (kmem_mem (k_mem s2)) (kmem_mem (k_mem ?s1)) q"
        and np: "procs s2 np = (procs ?s1 np)\<lparr>p_kstack := x, p_tf := x + 4020, p_context := x + 3996\<rparr>"
      have mem: "kmem_inv ?K (k_mem s2) ys" using ok2 by (simp add: user_ok_def space_ok_def)
      have xo: "x \<notin> owned (k_mem s) (p_pgdir ?cur)" "set ys \<inter> owned (k_mem s) (p_pgdir ?cur) = {}" using user_out [OF ok] by (auto simp: xs)
      have frs: "same_page (kmem_mem (k_mem s2)) (kmem_mem (k_mem s)) q" if "q \<in> owned (k_mem s) (p_pgdir ?cur)" for q
        using fr owned_aligned [OF ok that] that xo(1) by auto
      have "same_page (kmem_mem (k_mem s2)) (kmem_mem (k_mem s)) q" if "q = p_pgdir ?cur \<or> q \<in> tables (k_mem s) (p_pgdir ?cur)" for q
        by (rule frs) (use that in \<open>auto simp: owned_def\<close>)
      note par = user_ok_frame [OF ok mem xo(2) this]
      have me2: "procs s2 me = ?cur" using s2(3) ne by auto
      have np2: "p_kstack (procs s2 np) = x" "p_tf (procs s2 np) = x + 4020" "p_ofile (procs s2 np) = replicate NOFILE None"
        "length (p_name (procs s2 np)) = 16" "p_pid (procs s2 np) = nextpid s" "p_killed (procs s2 np) = p_killed (procs s np)"
        using R 2(1,2) by (simp_all add: np)
      have dx: "x \<notin> set ys" using ok by (auto simp: user_ok_def space_ok_def kmem_inv_def xs)
      have "\<exists>b s' ys'. fork_copy e me np s2 = Inr (b, s') \<and> same_rest s' s2 \<and> (\<forall>i. i \<noteq> np \<longrightarrow> procs s' i = procs s2 i) \<and>
          user_ok ?K (k_mem s') (p_pgdir (procs s2 me)) ys' \<and>
          (\<not> b \<and> procs s' np = (procs s2 np)\<lparr>p_pgdir := 0, p_kstack := 0, p_state := UNUSED\<rparr> \<and> set ys' = insert x (set ys) \<and>
             k_files s' = (k_files s2)\<lparr>fl_kmem := k_mem s'\<rparr> \<and> length ys \<le> 1026 + (unat (p_sz (procs s2 me)) + 4095) div 4096 \<or>
           b \<and> user_ok ?K (k_mem s') (p_pgdir (procs s' np)) ys' \<and> set ys' \<union> owned (k_mem s') (p_pgdir (procs s' np)) = set ys \<and>
             p_kstack (procs s' np) = x \<and> p_state (procs s' np) = p_state (procs s2 np) \<and> p_killed (procs s' np) = p_killed (procs s2 np) \<and>
             child_of e me (s2\<lparr>nextpid := p_pid (procs s' np)\<rparr>) np (set_state np RUNNABLE s'))"
        by (rule fork_copy_ok [where c = c]) (use R ok2 env x dx xo(1) par np2 ne c tab in \<open>simp_all add: me2 xs\<close>)
      then obtain b s3 ys' where f: "fork_copy e me np s2 = Inr (b, s3)" "\<forall>i. i \<noteq> np \<longrightarrow> procs s3 i = procs s2 i"
        "user_ok ?K (k_mem s3) (p_pgdir ?cur) ys'"
        and cases: "\<not> b \<and> procs s3 np = (procs s2 np)\<lparr>p_pgdir := 0, p_kstack := 0, p_state := UNUSED\<rparr> \<and> set ys' = insert x (set ys) \<and>
             k_files s3 = (k_files s2)\<lparr>fl_kmem := k_mem s3\<rparr> \<and> length ys \<le> 1026 + (unat (p_sz ?cur) + 4095) div 4096 \<or>
           b \<and> user_ok ?K (k_mem s3) (p_pgdir (procs s3 np)) ys' \<and> set ys' \<union> owned (k_mem s3) (p_pgdir (procs s3 np)) = set ys \<and>
             p_kstack (procs s3 np) = x \<and> p_killed (procs s3 np) = p_killed (procs s2 np) \<and>
             child_of e me (s2\<lparr>nextpid := p_pid (procs s3 np)\<rparr>) np (set_state np RUNNABLE s3)"
        unfolding me2 by blast
      from cases show ?thesis
      proof (elim disjE conjE)
        assume no: "\<not> b" "procs s3 np = (procs s2 np)\<lparr>p_pgdir := 0, p_kstack := 0, p_state := UNUSED\<rparr>" "set ys' = insert x (set ys)"
          "k_files s3 = (k_files s2)\<lparr>fl_kmem := k_mem s3\<rparr>" "length ys \<le> 1026 + (unat (p_sz ?cur) + 4095) div 4096"
        then have "fork e me s = Inr (- 1, s3)" using f(1) run by (simp add: fork_def allocproc_def 2(3))
        moreover have "p_state (procs s3 p) = p_state (procs s p)" for p using f(2) s2(3) no(2) 2(2) by (cases "p = np") auto
        moreover have "ftable (k_files s3) = ftable (k_files s)" "fl_fs (k_files s3) = fl_fs (k_files s)" by (subst no(4), simp add: tab)+
        ultimately show ?thesis using f(3) no(3,5) by (intro exI [of _ "- 1"] exI [of _ s3] exI [of _ ys']) (simp add: xs)
      next
        assume yes: "b" "user_ok ?K (k_mem s3) (p_pgdir (procs s3 np)) ys'" "set ys' \<union> owned (k_mem s3) (p_pgdir (procs s3 np)) = set ys"
          "p_kstack (procs s3 np) = x" "p_killed (procs s3 np) = p_killed (procs s2 np)"
          "child_of e me (s2\<lparr>nextpid := p_pid (procs s3 np)\<rparr>) np (set_state np RUNNABLE s3)"
        have pid: "p_pid (procs s3 np) = nextpid s" using fork_copy_result [OF f(1)] np2(5) yes(1) by (simp add: task_of_def)
        let ?s = "set_state np RUNNABLE s3"
        have "fork e me s = Inr (nextpid s, ?s)" using f(1) run yes(1) pid by (simp add: fork_def allocproc_def 2(3))
        moreover have "child_of e me s np ?s"
        proof -
          have stk: "aligned (p_kstack ?cur)" "p_kstack ?cur \<noteq> x" "p_tf ?cur = p_kstack ?cur + 4020" using R by (auto simp: xs)
          have "same_page (kmem_mem (k_mem s2)) (kmem_mem (k_mem s)) (p_kstack ?cur)" using fr stk by simp
          then have tf: "peek_bytes (p_tf ?cur) TF_SIZE (k_mem s2) = peek_bytes (p_tf ?cur) TF_SIZE (k_mem s)"
            unfolding stk(3) by (rule peek_same_page) (simp add: TF_SIZE_def)
          have rf: "ftable (more_refs (p_ofile ?cur) (k_files s2)) = ftable (more_refs (p_ofile ?cur) (k_files s))" by (simp add: more_refs_def tab)
          have src: "copied k d (k_mem s2) (p_pgdir ?cur) \<Longrightarrow> copied k d (k_mem s) (p_pgdir ?cur)" for k d
            by (rule copied_source [OF _ par(3) frs]) (auto simp: owned_def)
          have same: "procs (s2\<lparr>nextpid := nextpid s\<rparr>) = procs s2" "nextpid (s2\<lparr>nextpid := nextpid s\<rparr>) = nextpid s" "k_files (s2\<lparr>nextpid := nextpid s\<rparr>) = k_files s2"
            by simp_all
          show ?thesis using yes(6) src unfolding child_of_def Let_def pid same me2 tf rf tab by blast
        qed
        moreover have "procs ?s p = procs s p" if "p \<noteq> np" for p using that f(2) s2(3) by (simp add: set_state_def)
        moreover have "p_pgdir (procs ?s np) = p_pgdir (procs s3 np)" "p_kstack (procs ?s np) = x" "p_killed (procs ?s np) = p_killed (procs s np)"
          "k_mem ?s = k_mem s3" using yes(4,5) np2(6) by (simp_all add: set_state_def)
        moreover have "set ys' \<union> owned (k_mem s3) (p_pgdir (procs s3 np)) \<union> {x} = set xs" using yes(3) by (simp add: xs)
        ultimately show ?thesis using 2(1,2) f(3) yes(2) x
          by (intro exI [of _ "nextpid s"] exI [of _ ?s] exI [of _ ys'] conjI disjI2 exI [of _ np]) simp_all
      qed
    qed
  qed
qed

end
