(* ===== verification/Proc_Properties.thy ===== *)
theory Proc_Properties
  imports Xv6_Fork Vm_Properties Fs_Properties
begin

text \<open>
  What \<open>proc.c\<close> promises: the table of processes is consistent in every interleaving, no wakeup of \<open>wait\<close> is
  lost, and \<open>sleep\<close> gives the locks and the interrupts back as they were. \<open>kill\<close> accepts a process id that
  no process has.
\<close>

section \<open>A concrete machine\<close>

definition blank_proc :: proc where
  "blank_proc = \<lparr>p_sz = 0, p_pgdir = 0, p_kstack = 0, p_state = UNUSED, p_pid = 0, p_parent = None, p_tf = 0, p_context = 0, p_chan = None,
     p_killed = False, p_ofile = replicate 16 None, p_cwd = None, p_name = replicate 16 0\<rparr>"

definition demo_kernel :: kernel where
  "demo_kernel = \<lparr>procs = (\<lambda>_. blank_proc)(0 := blank_proc\<lparr>p_sz := 4096, p_state := RUNNABLE, p_pid := 1, p_kstack := 0x80404000,
       p_tf := 0x80404FB4, p_pgdir := 0x80401000, p_ofile := [Some 0, Some 1] @ replicate 14 None, p_cwd := Some 0\<rparr>),
     initproc = Some 0, nextpid = 2, cpu_proc = (\<lambda>_. None), k_files = demo_files demo_space\<rparr>"

definition demo_penv :: penv where
  "demo_penv = \<lparr>pe_mem = demo_env, pe_forkret = 0x80103000, pe_trapret = 0x80105000\<rparr>"

lemma demo_booted: "booted demo_kernel"
  by (auto simp: booted_def demo_kernel_def blank_proc_def NPROC_def intro!: exI [of _ 0])

text \<open>The first process runs.\<close>

definition demo_running :: kernel where
  "demo_running = tidy_up 0 (set_state 0 RUNNING (demo_kernel\<lparr>cpu_proc := (\<lambda>_. None)(0 := Some 0)\<rparr>))"

lemma demo_runs:
  "(sys_step e)\<^sup>*\<^sup>* \<lparr>sy_k = demo_kernel, sy_phase = \<lambda>_. Outside\<rparr> \<lparr>sy_k = demo_running, sy_phase = \<lambda>_. Outside\<rparr>"
proof -
  let ?y = "\<lparr>sy_k = demo_kernel, sy_phase = \<lambda>_. Outside\<rparr>"
  have "sys_step e ?y (?y\<lparr>sy_k := demo_running\<rparr>)" unfolding demo_running_def
    by (rule sys_step.schedule [of 0 _ 0])
      (auto simp: demo_kernel_def dispatch_def switchuvm_def blank_proc_def NCPU_def NPROC_def set_state_def upd_proc_def Let_def)
  then show ?thesis by (simp add: r_into_rtranclp)
qed

lemma demo_proc:
  "procs demo_running i = (if i = 0 then blank_proc\<lparr>p_sz := 4096, p_state := RUNNING, p_pid := 1, p_kstack := 0x80404000,
     p_tf := 0x80404FB4, p_pgdir := 0x80401000, p_ofile := [Some 0, Some 1] @ replicate 14 None, p_cwd := Some 0\<rparr> else blank_proc)"
  "k_files demo_running = demo_files demo_space" "nextpid demo_running = 2" "initproc demo_running = Some 0"
  "cpu_proc demo_running = (\<lambda>_. None)(0 := Some 0)"
  by (simp_all add: demo_running_def demo_kernel_def tidy_up_def set_state_def blank_proc_def)

lemma demo_fork_ready:
  obtains xs where "fork_ready demo_penv 0 demo_running xs" and "1500 \<le> length xs"
proof -
  obtain ys where ys: "user_ok 0x80110000 demo_space 0x80401000 ys" "1500 \<le> length ys"
    "\<And>va. entry demo_space 0x80401000 va = (if PDX va = 0 \<and> PTX va = 0 then 0x403007 else 0)"
    "set ys = pages_between 0x80500000 0x80B00000"
    by (rule demo_space_ok) (rule that)
  have "present (entry demo_space 0x80401000 va)" if "va < 4096" for va
    using that by (simp add: ys(3) first_page word_less_nat_alt present_def PTE_P_def)
  moreover have "fl_kmem (demo_files demo_space) = demo_space" by (simp add: demo_files_def)
  moreover have "f_ref (ftable (demo_files demo_space) 0) = 1" "f_ref (ftable (demo_files demo_space) 1) = 1" by (simp_all add: demo_files_def)
  moreover have "(0x80404000 :: u32) \<notin> pages_between 0x80500000 0x80B00000" by (simp add: pages_between_def)
  moreover have "aligned 0x80404000" by (simp add: aligned_def PGSIZE_def)
  ultimately have "fork_ready demo_penv 0 demo_running ys"
    using ys(1,4) demo_env_ok by (auto simp: fork_ready_def Let_def demo_proc demo_penv_def blank_proc_def NOFILE_def)
  then show thesis using that ys(2) by blast
qed

lemma demo_on: "on_proc \<lparr>sy_k = demo_running, sy_phase = \<lambda>_. Outside\<rparr> 0 0"
  by (simp add: on_proc_def demo_proc NCPU_def NPROC_def)

text \<open>A state in which the first process has forked and waits.\<close>

lemma demo_waits:
  "\<exists>y. (sys_step demo_penv)\<^sup>*\<^sup>* \<lparr>sy_k = demo_kernel, sy_phase = \<lambda>_. Outside\<rparr> y \<and> sy_phase y 0 = In_wait \<and> p_state (procs (sy_k y) 0) = SLEEPING"
proof -
  let ?y = "\<lparr>sy_k = demo_running, sy_phase = \<lambda>_. Outside\<rparr>"
  obtain xs where xs: "fork_ready demo_penv 0 demo_running xs" "1500 \<le> length xs" by (rule demo_fork_ready)
  have free: "p_state (procs demo_running 1) = UNUSED" "1 < NPROC" by (simp_all add: demo_proc blank_proc_def NPROC_def)
  have few: "\<not> length xs \<le> 1027 + (unat (p_sz (procs demo_running 0)) + 4095) div 4096" using xs(2) by (simp add: demo_proc)
  obtain s np where s: "fork demo_penv 0 demo_running = Inr (nextpid demo_running, s)" "np < NPROC" "p_state (procs demo_running np) = UNUSED"
    "child_of demo_penv 0 demo_running np s" "\<forall>p. p \<noteq> np \<longrightarrow> procs s p = procs demo_running p"
    using fork_ok [OF xs(1)] free few by (auto simp: NPROC_def)
  have np: "np \<noteq> 0" using s(3) by (cases "np = 0") (simp_all add: demo_proc blank_proc_def)
  have run: "(sys_step demo_penv)\<^sup>*\<^sup>* \<lparr>sy_k = demo_kernel, sy_phase = \<lambda>_. Outside\<rparr> (go 0 Outside s ?y)"
    by (rule rtranclp_trans [OF demo_runs], rule fork_steps [OF demo_on, of demo_penv 2]) (use s(1) in \<open>simp_all add: demo_proc\<close>)
  have p0: "procs s 0 = procs demo_running 0" using s(5) np by simp
  have kid: "p_parent (procs s np) = Some 0" "p_state (procs s np) = RUNNABLE"
    using s(4) by (simp_all add: child_of_def Let_def)
  have others: "p_parent (procs s p) = None" if "p \<noteq> np" for p using s(5) that by (simp add: demo_proc blank_proc_def)
  have none: "find (\<lambda>p. p_parent (procs s p) = Some 0 \<and> p_state (procs s p) = ZOMBIE) [0..<NPROC] = None"
  proof -
    have "\<not> (p_parent (procs s p) = Some 0 \<and> p_state (procs s p) = ZOMBIE)" for p
      using kid(2) others [of p] by (cases "p = np") simp_all
    then show ?thesis by (simp add: find_None_iff)
  qed
  have some: "list_ex (\<lambda>p. p_parent (procs s p) = Some 0) [0..<NPROC]" using kid s(2) by (auto simp: list_ex_iff)
  have "\<not> p_killed (procs s 0)" by (simp add: p0 demo_proc blank_proc_def)
  then have round: "wait_round demo_penv 0 s = Inr (None, fall_asleep 0 (Some (Proc_Chan 0)) s)"
    using none some by (simp add: wait_round_def)
  have "cpu_proc s = cpu_proc demo_running" by (rule fork_cpu [OF s(1)]) (simp add: demo_proc)
  then have on: "on_proc (go 0 Outside s ?y) 0 0" by (simp add: on_proc_def go_def demo_proc NCPU_def NPROC_def p0)
  have "sys_step demo_penv (go 0 Outside s ?y) (go 0 In_wait (back_in_scheduler 0 (fall_asleep 0 (Some (Proc_Chan 0)) s)) (go 0 Outside s ?y))"
    by (rule sys_step.wait_sleeps [OF on]) (use round in \<open>simp_all add: go_def\<close>)
  note reach = rtranclp.rtrancl_into_rtrancl [OF run this]
  show ?thesis
    by (rule exI, rule conjI, rule reach) (simp add: go_def fall_asleep_def back_in_scheduler_def)
qed

section \<open>The table of processes\<close>

text \<open>
  The processes that run are those the processors have, each on one of them; two processes in use have
  different ids; the first process never ends, and every other one has a parent that is alive; the
  scheduler can switch to every runnable process.
\<close>

definition table_ok :: "kernel \<Rightarrow> bool" where
  "table_ok s \<longleftrightarrow>
     (\<forall>c < NCPU. \<forall>i. cpu_proc s c = Some i \<longrightarrow> i < NPROC \<and> p_state (procs s i) = RUNNING) \<and>
     (\<forall>i < NPROC. p_state (procs s i) = RUNNING \<longrightarrow> (\<exists>!c. c < NCPU \<and> cpu_proc s c = Some i)) \<and>
     (\<forall>i < NPROC. \<forall>j < NPROC. p_state (procs s i) \<noteq> UNUSED \<and> p_state (procs s j) \<noteq> UNUSED \<and>
        p_pid (procs s i) = p_pid (procs s j) \<longrightarrow> i = j) \<and>
     (\<exists>r < NPROC. initproc s = Some r \<and> p_state (procs s r) \<in> {SLEEPING, RUNNABLE, RUNNING} \<and>
        (\<forall>i < NPROC. i \<noteq> r \<and> p_state (procs s i) \<in> {SLEEPING, RUNNABLE, RUNNING, ZOMBIE} \<longrightarrow>
           (\<exists>j < NPROC. j \<noteq> i \<and> p_parent (procs s i) = Some j \<and> p_state (procs s j) \<in> {SLEEPING, RUNNABLE, RUNNING}))) \<and>
     (\<forall>c. \<forall>p < NPROC. p_state (procs s p) = RUNNABLE \<longrightarrow> (\<exists>s'. dispatch c p s = Inr s'))"

lemma sched_table:
  assumes inv: "sched_inv (abs_sys y)"
  shows "table_ok (sy_k y)"
  unfolding table_ok_def
proof (intro conjI)
  have m: "tasks (abs_sys y) = (\<lambda>i. task_of (procs (sy_k y) i))" "t_init (abs_sys y) = initproc (sy_k y)" "on_cpu (abs_sys y) = cpu_proc (sy_k y)"
    by (simp_all add: abs_sys_def abs_k_def)
  note D = sched_invD [OF inv]
  show "\<forall>c < NCPU. \<forall>i. cpu_proc (sy_k y) c = Some i \<longrightarrow> i < NPROC \<and> p_state (procs (sy_k y) i) = RUNNING"
    using D(1) by (simp add: cpu_inv_def m)
  show "\<forall>i < NPROC. p_state (procs (sy_k y) i) = RUNNING \<longrightarrow> (\<exists>!c. c < NCPU \<and> cpu_proc (sy_k y) c = Some i)"
    using D(1) unfolding cpu_inv_def m task_of_simps by (metis option.distinct(1))
  show "\<forall>i < NPROC. \<forall>j < NPROC. p_state (procs (sy_k y) i) \<noteq> UNUSED \<and> p_state (procs (sy_k y) j) \<noteq> UNUSED \<and>
      p_pid (procs (sy_k y) i) = p_pid (procs (sy_k y) j) \<longrightarrow> i = j"
    using D(2) by (simp add: pid_inv_def m)
  obtain r where r: "r < NPROC" "t_init (abs_sys y) = Some r" "active (tasks (abs_sys y) r)" by (rule first_task [OF D(4)])
  have "\<exists>j < NPROC. j \<noteq> i \<and> p_parent (procs (sy_k y) i) = Some j \<and> p_state (procs (sy_k y) j) \<in> {SLEEPING, RUNNABLE, RUNNING}"
    if "i < NPROC" "i \<noteq> r" "p_state (procs (sy_k y) i) \<in> {SLEEPING, RUNNABLE, RUNNING, ZOMBIE}" for i
    using parent_invD [OF D(4) that(1)] that(2,3) r(2) by (force simp: m active_def)
  then show "\<exists>r < NPROC. initproc (sy_k y) = Some r \<and> p_state (procs (sy_k y) r) \<in> {SLEEPING, RUNNABLE, RUNNING} \<and>
      (\<forall>i < NPROC. i \<noteq> r \<and> p_state (procs (sy_k y) i) \<in> {SLEEPING, RUNNABLE, RUNNING, ZOMBIE} \<longrightarrow>
        (\<exists>j < NPROC. j \<noteq> i \<and> p_parent (procs (sy_k y) i) = Some j \<and> p_state (procs (sy_k y) j) \<in> {SLEEPING, RUNNABLE, RUNNING}))"
    using r by (intro exI [of _ r]) (auto simp: m active_def)
  show "\<forall>c. \<forall>p < NPROC. p_state (procs (sy_k y) p) = RUNNABLE \<longrightarrow> (\<exists>s'. dispatch c p (sy_k y) = Inr s')"
    using dispatch_total [OF inv] by blast
qed

lemma reached_inv:
  assumes "booted s" and "(sys_step e)\<^sup>*\<^sup>* \<lparr>sy_k = s, sy_phase = \<lambda>_. Outside\<rparr> y"
  shows "sched_inv (abs_sys y)"
  by (rule sys_reach_inv [OF assms(2)]) (use booted_inv [OF assms(1)] in \<open>simp add: abs_sys_def\<close>)

text \<open>
  C7: from the first process on, the table of processes is consistent in every interleaving of the critical
  sections of \<open>fork\<close>, \<open>exit\<close>, \<open>wait\<close>, \<open>sleep\<close>, \<open>yield\<close>, \<open>wakeup\<close>, \<open>kill\<close> and the schedulers.
\<close>
theorem process_table:
  assumes "booted s" and "(sys_step e)\<^sup>*\<^sup>* \<lparr>sy_k = s, sy_phase = \<lambda>_. Outside\<rparr> y"
  shows "table_ok (sy_k y)"
  by (rule sched_table [OF reached_inv [OF assms]])

theorem process_table_witness: "table_ok demo_running"
  using process_table [OF demo_booted demo_runs] by simp

text \<open>
  C31: no wakeup is lost. A process that sleeps inside \<open>wait\<close> sleeps on its own address and has not been
  killed; it has a child, and no child of it has ended. So whatever a process waits for is still to come,
  and the end of a child or a signal wakes it.
\<close>
theorem no_lost_wakeup:
  assumes "booted s" and "(sys_step e)\<^sup>*\<^sup>* \<lparr>sy_k = s, sy_phase = \<lambda>_. Outside\<rparr> y"
    and "i < NPROC" and "sy_phase y i = In_wait" and "p_state (procs (sy_k y) i) = SLEEPING"
  shows "p_chan (procs (sy_k y) i) = Some (Proc_Chan i) \<and> \<not> p_killed (procs (sy_k y) i) \<and>
    (\<exists>j < NPROC. p_parent (procs (sy_k y) j) = Some i) \<and>
    (\<forall>j < NPROC. p_parent (procs (sy_k y) j) = Some i \<longrightarrow>
      p_state (procs (sy_k y) j) \<noteq> ZOMBIE \<and> p_state (procs (exit_final j (sy_k y)) i) = RUNNABLE)"
proof -
  have "wait_inv (abs_sys y)" using reached_inv [OF assms(1,2)] by (simp add: sched_inv_def)
  then have w: "p_chan (procs (sy_k y) i) = Some (Proc_Chan i)" "\<not> p_killed (procs (sy_k y) i)"
    "\<exists>j < NPROC. p_parent (procs (sy_k y) j) = Some i" "\<forall>j < NPROC. p_parent (procs (sy_k y) j) = Some i \<longrightarrow> p_state (procs (sy_k y) j) \<noteq> ZOMBIE"
    using assms(3-5) by (auto simp: wait_inv_def abs_sys_def child_def)
  have "p_state (procs (exit_final j (sy_k y)) i) = RUNNABLE" if j: "j < NPROC" "p_parent (procs (sy_k y) j) = Some i" for j
  proof -
    have "parent_inv (abs_sys y)" using reached_inv [OF assms(1,2)] by (simp add: sched_inv_def)
    then have "i \<noteq> j" using parent_invD(1) [of "abs_sys y" j i] j by (auto simp: abs_sys_def)
    have "t_state (tasks (abs_k (exit_final j (sy_k y)) (sy_phase y)) i) = RUNNABLE"
      unfolding abs_exit [OF j(1)] ended_task(8) [OF assms(3)] using \<open>i \<noteq> j\<close> j(2) w(1) assms(5) by simp
    then show ?thesis by simp
  qed
  then show ?thesis using w by blast
qed

theorem no_lost_wakeup_witness:
  "\<exists>y :: sys. p_chan (procs (sy_k y) 0) = Some (Proc_Chan 0) \<and> (\<exists>j < NPROC. p_state (procs (exit_final j (sy_k y)) 0) = RUNNABLE)"
proof -
  obtain y where y: "(sys_step demo_penv)\<^sup>*\<^sup>* \<lparr>sy_k = demo_kernel, sy_phase = \<lambda>_. Outside\<rparr> y"
    "sy_phase y 0 = In_wait" "p_state (procs (sy_k y) 0) = SLEEPING"
    using demo_waits by (elim exE conjE) (rule that)
  have "0 < NPROC" by (simp add: NPROC_def)
  note w = no_lost_wakeup [OF demo_booted y(1) this y(2,3)]
  show ?thesis by (rule exI [of _ y]) (use w in blast)
qed

section \<open>fork\<close>

text \<open>
  C15: \<open>fork\<close> either gives up and leaves the table of processes, the open files and the inodes as they were,
  with every page back on the free list -- and it does so only when no slot is free or the memory may not
  suffice -- or it makes one child. The child has the next process id, is runnable, and is a copy of its
  parent: every byte of the address space, the registers except for the return value 0, the open files with
  one more reference for each descriptor, the working directory with one more reference, the name. The two
  address spaces, the stack of the child and the free list share no page.
\<close>
theorem fork_makes_child:
  assumes "fork_ready e me s xs" and "me < NPROC"
  shows "\<exists>r s' xs'. fork e me s = Inr (r, s') \<and> user_ok (ke_end (pe_mem e)) (k_mem s') (p_pgdir (procs s me)) xs' \<and>
    (r = - 1 \<and> (\<forall>p. p_state (procs s' p) = p_state (procs s p)) \<and> set xs' = set xs \<and> ftable (k_files s') = ftable (k_files s) \<and>
       fl_fs (k_files s') = fl_fs (k_files s) \<and>
       ((\<forall>p < NPROC. p_state (procs s p) \<noteq> UNUSED) \<or> length xs \<le> 1027 + (unat (p_sz (procs s me)) + 4095) div 4096) \<or>
     r = nextpid s \<and> (\<exists>np < NPROC. p_state (procs s np) = UNUSED \<and> child_of e me s np s' \<and> (\<forall>p. p \<noteq> np \<longrightarrow> procs s' p = procs s p) \<and>
       p_killed (procs s' np) = p_killed (procs s np) \<and>
       user_ok (ke_end (pe_mem e)) (k_mem s') (p_pgdir (procs s' np)) xs' \<and> page_ok (ke_end (pe_mem e)) (p_kstack (procs s' np)) \<and>
       set xs' \<union> owned (k_mem s') (p_pgdir (procs s' np)) \<union> {p_kstack (procs s' np)} = set xs))"
  by (rule fork_ok [OF assms])

theorem fork_makes_child_witness:
  "\<exists>s' np. fork demo_penv 0 demo_running = Inr (2, s') \<and> np \<noteq> 0 \<and> p_parent (procs s' np) = Some 0 \<and>
    copied (k_mem s') (p_pgdir (procs s' np)) demo_space 0x80401000 \<and> f_ref (ftable (k_files s') 1) = 2"
proof -
  obtain xs where xs: "fork_ready demo_penv 0 demo_running xs" "1500 \<le> length xs" by (rule demo_fork_ready)
  have free: "\<not> (\<forall>p < NPROC. p_state (procs demo_running p) \<noteq> UNUSED)"
    by (auto simp: demo_proc blank_proc_def NPROC_def intro!: exI [of _ 1])
  have few: "\<not> length xs \<le> 1027 + (unat (p_sz (procs demo_running 0)) + 4095) div 4096" using xs(2) by (simp add: demo_proc)
  obtain s np where s: "fork demo_penv 0 demo_running = Inr (nextpid demo_running, s)" "p_state (procs demo_running np) = UNUSED"
    "child_of demo_penv 0 demo_running np s"
    using fork_makes_child [OF xs(1)] free few by (auto simp: NPROC_def)
  have "np \<noteq> 0" using s(2) by (cases "np = 0") (simp_all add: demo_proc blank_proc_def)
  moreover have "fl_kmem (demo_files demo_space) = demo_space" by (simp add: demo_files_def)
  ultimately show ?thesis using s(1,3) by (auto simp: child_of_def Let_def demo_proc more_refs_def demo_files_def)
qed

text \<open>A slot that is free but still has a process id: \<open>fork\<close> takes it, and the flag \<open>killed\<close> stays.\<close>

lemma fork_slot:
  assumes "fork e me s = Inr (r, s')" and "0 \<le> r" and "find (\<lambda>p. p_state (procs s p) = UNUSED) [0..<NPROC] = Some p"
  shows "p_state (procs s' p) = RUNNABLE"
  using assms by (auto simp: fork_def allocproc_def alloc_slot_def new_stack_def set_state_def Let_def split: if_splits)

lemma kill_free:
  assumes "find (\<lambda>p. p_pid (procs s p) = pid) [0..<NPROC] = Some p" and "p_state (procs s p) = UNUSED"
  shows "kill pid s = (0, upd_proc p (p_killed_update (\<lambda>_. True)) s)"
  using assms by (simp add: kill_def)

lemma kill_ready:
  assumes "fork_ready e me s xs" and "p_state (procs s p) = UNUSED"
  shows "fork_ready e me (upd_proc p (p_killed_update (\<lambda>_. True)) s) xs"
proof -
  have "p \<noteq> me" using assms by (auto simp: fork_ready_def Let_def)
  then show ?thesis using assms unfolding fork_ready_def Let_def by (auto split: if_splits)
qed

text \<open>
  C12: \<open>kill\<close> with the process id that the first free slot has returns 0, as if it had found a process; the
  next child, which gets that slot, is born killed, whoever its parent is. After the kernel has started such
  an id is 0.
\<close>
theorem kill_of_no_process:
  assumes ready: "fork_ready e me s xs" and "me < NPROC"
    and pid: "find (\<lambda>p. p_pid (procs s p) = pid) [0..<NPROC] = Some p"
    and free: "find (\<lambda>p. p_state (procs s p) = UNUSED) [0..<NPROC] = Some p"
    and room: "1027 + (unat (p_sz (procs s me)) + 4095) div 4096 < length xs" and "0 < nextpid s"
  shows "\<exists>s1 s2. kill pid s = (0, s1) \<and> fork e me s1 = Inr (nextpid s, s2) \<and> p_state (procs s2 p) = RUNNABLE \<and>
    p_parent (procs s2 p) = Some me \<and> p_killed (procs s2 p)"
proof -
  let ?s = "upd_proc p (p_killed_update (\<lambda>_. True)) s"
  have p: "p < NPROC" "p_state (procs s p) = UNUSED" using free by (auto simp: find_Some_iff)
  have me: "p \<noteq> me" using p(2) ready by (auto simp: fork_ready_def Let_def)
  have st: "p_state (procs ?s q) = p_state (procs s q)" for q by simp
  have free': "find (\<lambda>q. p_state (procs ?s q) = UNUSED) [0..<NPROC] = Some p" unfolding st by (rule free)
  have len: "\<not> length xs \<le> 1027 + (unat (p_sz (procs ?s me)) + 4095) div 4096" using room me by simp
  have used: "\<not> (\<forall>q < NPROC. p_state (procs ?s q) \<noteq> UNUSED)" using p st by metis
  have "nextpid ?s \<noteq> - 1" using assms(6) by simp
  then obtain s2 np where s2: "fork e me ?s = Inr (nextpid s, s2)" "p_state (procs ?s np) = UNUSED" "child_of e me ?s np s2"
    "\<forall>q. q \<noteq> np \<longrightarrow> procs s2 q = procs ?s q" "p_killed (procs s2 np) = p_killed (procs ?s np)"
    using fork_ok [OF kill_ready [OF ready p(2)] assms(2)] used len by (elim exE conjE disjE) auto
  have "p_state (procs s2 p) = RUNNABLE" by (rule fork_slot [OF s2(1) _ free']) (use assms(6) in simp)
  moreover from this have "np = p" using s2(4) p(2) by (cases "np = p") simp_all
  ultimately show ?thesis using kill_free [OF pid p(2)] s2(1,3,5) by (auto simp: child_of_def Let_def)
qed

theorem kill_of_no_process_witness:
  "\<exists>s1 s2. kill 0 demo_running = (0, s1) \<and> fork demo_penv 0 s1 = Inr (2, s2) \<and> p_killed (procs s2 1)"
proof -
  obtain xs where xs: "fork_ready demo_penv 0 demo_running xs" "1500 \<le> length xs" by (rule demo_fork_ready)
  have slots: "[0..<NPROC] = 0 # 1 # [2..<64]" by (simp add: NPROC_def upt_rec)
  have "find (\<lambda>p. p_pid (procs demo_running p) = 0) [0..<NPROC] = Some 1"
    "find (\<lambda>p. p_state (procs demo_running p) = UNUSED) [0..<NPROC] = Some 1"
    by (simp_all add: slots demo_proc blank_proc_def)
  from kill_of_no_process [OF xs(1) _ this] show ?thesis using xs(2) by (auto simp: NPROC_def demo_proc)
qed

section \<open>sleep\<close>

lemma sched_enter_locks:
  assumes "cli_ok c" and "0 < ncli c" and "locked pt" and "lk_cpu pt = Some me" and "st \<noteq> RUNNING"
  shows "ncli c \<noteq> 1 \<Longrightarrow> sched_enter me pt st c = Inl (Panic ''sched locks'')"
    and "ncli c = 1 \<Longrightarrow> \<exists>c'. sched_enter me pt st c = Inr (intena c, c') \<and> cli_ok c' \<and> same_nesting c c'"
proof -
  obtain c' where c': "holding me pt c = Inr (True, c')" "cli_ok c'" "same_nesting c c'"
    using holding_eq [OF assms(1), of me pt] assms(3,4) by auto
  then show "ncli c \<noteq> 1 \<Longrightarrow> sched_enter me pt st c = Inl (Panic ''sched locks'')"
    by (simp add: sched_enter_def same_nesting_def)
  show "\<exists>c'. sched_enter me pt st c = Inr (intena c, c') \<and> cli_ok c' \<and> same_nesting c c'" if "ncli c = 1"
    using c' assms(1,5) that by (auto simp: sched_enter_def same_nesting_def cli_ok_def)
qed

lemma sleep_leave_locks:
  assumes "ncli c = 1" and "\<not> FL_IF c" and "locked pt" and "lk_cpu pt = Some me" and "\<not> locked l"
  shows "\<exists>pt' l' c' l2 c2. sleep_leave me stack saved pt (Some l) c = Inr (pt', Some l', c') \<and> \<not> locked pt' \<and>
    locked l' \<and> lk_cpu l' = Some me \<and> ncli c' = 1 \<and> \<not> FL_IF c' \<and> release me l' c' = Inr (l2, c2) \<and> ncli c2 = 0 \<and> FL_IF c2 = saved"
proof -
  let ?c = "c\<lparr>intena := saved\<rparr>" and ?o = "\<lparr>ncli = 0, intena = saved, FL_IF = saved\<rparr>"
  have o: "cli_ok ?o" "same_nesting (pushcli ?o) ?c" "cli_ok ?c"
    using assms(1,2) by (simp_all add: cli_ok_def same_nesting_def pushcli_def)
  have "locked pt" "lk_cpu pt = Some me" by (simp_all add: assms)
  from release_held [OF o this] obtain c1 where c1:
    "release me pt ?c = Inr (pt\<lparr>pcs := (pcs pt)[0 := 0], lk_cpu := None, locked := False\<rparr>, c1)" "cli_ok c1" "same_nesting ?o c1" by blast
  from acquire_free [OF c1(2) assms(5)] obtain c2 where c2:
    "acquire me stack l c1 = Inr (l\<lparr>locked := True, lk_cpu := Some me, pcs := stack\<rparr>, c2)" "cli_ok c2" "same_nesting (pushcli c1) c2" by blast
  let ?l = "l\<lparr>locked := True, lk_cpu := Some me, pcs := stack\<rparr>"
  have "locked ?l" "lk_cpu ?l = Some me" by simp_all
  from release_held [OF c1(2) c2(3,2) this] obtain c3 where c3:
    "release me ?l c2 = Inr (?l\<lparr>pcs := (pcs ?l)[0 := 0], lk_cpu := None, locked := False\<rparr>, c3)" "same_nesting c1 c3" by blast
  have n: "ncli c1 = 0" "FL_IF c1 = saved" "ncli c2 = 1" "\<not> FL_IF c2"
    using c1(3) c2(3,2) by (auto simp: same_nesting_def pushcli_def cli_ok_def Let_def split: if_splits)
  show ?thesis
    by (rule exI [of _ "pt\<lparr>pcs := (pcs pt)[0 := 0], lk_cpu := None, locked := False\<rparr>"], rule exI [of _ ?l], rule exI [of _ c2])
      (use c1 c2 c3 n in \<open>simp add: sleep_leave_def Let_def same_nesting_def\<close>)
qed

text \<open>
  C13: a process that calls \<open>sleep\<close> with one lock held leaves that lock free and takes the lock of the table
  with it to the scheduler, with interrupts off and a nesting of one; if it holds a second lock the kernel
  stops with \<open>sched locks\<close>. When a scheduler resumes it, on whatever processor, it ends with its own lock held
  on that processor, the lock of the table free, and the interrupts remembered as they were before it took the
  lock, so that releasing the lock restores them.
\<close>
theorem sleep_keeps_locks:
  assumes "cli_ok c" and "0 < ncli c" and "locked l" and "lk_cpu l = Some me" and "\<not> locked pt"
  shows "if ncli c = 1
    then \<exists>pt1 l1 c1. sleep_enter me stack pt (Some l) c = Inr (intena c, pt1, Some l1, c1) \<and>
      locked pt1 \<and> lk_cpu pt1 = Some me \<and> \<not> locked l1 \<and> ncli c1 = 1 \<and> \<not> FL_IF c1 \<and>
      (\<forall>me2 stack2 c2 pt2 l2. ncli c2 = 1 \<and> \<not> FL_IF c2 \<and> locked pt2 \<and> lk_cpu pt2 = Some me2 \<and> \<not> locked l2 \<longrightarrow>
        (\<exists>pt3 l3 c3 l4 c4. sleep_leave me2 stack2 (intena c) pt2 (Some l2) c2 = Inr (pt3, Some l3, c3) \<and> \<not> locked pt3 \<and>
           locked l3 \<and> lk_cpu l3 = Some me2 \<and> ncli c3 = 1 \<and> \<not> FL_IF c3 \<and>
           release me2 l3 c3 = Inr (l4, c4) \<and> ncli c4 = 0 \<and> FL_IF c4 = intena c))
    else sleep_enter me stack pt (Some l) c = Inl (Panic ''sched locks'')"
proof -
  obtain ca where ca: "acquire me stack pt c = Inr (pt\<lparr>locked := True, lk_cpu := Some me, pcs := stack\<rparr>, ca)" "cli_ok ca"
    "same_nesting (pushcli c) ca" using acquire_free [OF assms(1,5)] by blast
  obtain cb where cb: "release me l ca = Inr (l\<lparr>pcs := (pcs l)[0 := 0], lk_cpu := None, locked := False\<rparr>, cb)" "cli_ok cb"
    "same_nesting c cb" using release_held [OF assms(1) ca(3,2) assms(3,4)] by blast
  have n: "0 < ncli cb" "ncli cb = ncli c" "intena cb = intena c" using cb(3) assms(2) by (simp_all add: same_nesting_def)
  let ?pt = "pt\<lparr>locked := True, lk_cpu := Some me, pcs := stack\<rparr>" and ?l = "l\<lparr>pcs := (pcs l)[0 := 0], lk_cpu := None, locked := False\<rparr>"
  have held: "locked ?pt" "lk_cpu ?pt = Some me" "SLEEPING \<noteq> RUNNING" by simp_all
  note enter = sched_enter_locks [OF cb(2) n(1) held]
  show ?thesis
  proof (cases "ncli c = 1")
    case True
    obtain c1 where c1: "sched_enter me ?pt SLEEPING cb = Inr (intena c, c1)" "cli_ok c1" "same_nesting cb c1"
      using enter(2) n True by auto
    then have "sleep_enter me stack pt (Some l) c = Inr (intena c, ?pt, Some ?l, c1)" by (simp add: sleep_enter_def ca(1) cb(1))
    moreover have "ncli c1 = 1" "\<not> FL_IF c1" using c1(2,3) n(2) True by (auto simp: same_nesting_def cli_ok_def)
    ultimately show ?thesis unfolding if_P [OF True]
      by (intro exI [of _ ?pt] exI [of _ ?l] exI [of _ c1]) (use sleep_leave_locks in \<open>simp; blast\<close>)
  next
    case False
    then show ?thesis using enter(1) n(2) by (simp add: sleep_enter_def ca(1) cb(1))
  qed
qed

theorem sleep_keeps_locks_witness:
  "\<exists>pt l c. sleep_enter 0 [] \<lparr>locked = False, lk_name = ''ptable'', lk_cpu = None, pcs = []\<rparr>
      (Some \<lparr>locked = True, lk_name = ''pipe'', lk_cpu = Some 0, pcs = [0]\<rparr>) \<lparr>ncli = 1, intena = True, FL_IF = False\<rparr> =
    Inr (True, pt, Some l, c) \<and> locked pt \<and> \<not> locked l \<and>
    (\<exists>pt2 l2 c2 l3 c3. sleep_leave 1 [] True \<lparr>locked = True, lk_name = ''ptable'', lk_cpu = Some 1, pcs = []\<rparr>
      (Some \<lparr>locked = False, lk_name = ''pipe'', lk_cpu = None, pcs = [0]\<rparr>) \<lparr>ncli = 1, intena = False, FL_IF = False\<rparr> =
        Inr (pt2, Some l2, c2) \<and> \<not> locked pt2 \<and> lk_cpu l2 = Some 1 \<and> release 1 l2 c2 = Inr (l3, c3) \<and> FL_IF c3)"
proof -
  have "cli_ok \<lparr>ncli = 1, intena = True, FL_IF = False\<rparr>" by (simp add: cli_ok_def)
  from sleep_keeps_locks [OF this, of "\<lparr>locked = True, lk_name = ''pipe'', lk_cpu = Some 0, pcs = [0]\<rparr>" 0
      "\<lparr>locked = False, lk_name = ''ptable'', lk_cpu = None, pcs = []\<rparr>" "[]"]
  obtain pt l c where r: "sleep_enter 0 [] \<lparr>locked = False, lk_name = ''ptable'', lk_cpu = None, pcs = []\<rparr>
      (Some \<lparr>locked = True, lk_name = ''pipe'', lk_cpu = Some 0, pcs = [0]\<rparr>) \<lparr>ncli = 1, intena = True, FL_IF = False\<rparr> =
    Inr (True, pt, Some l, c)" "locked pt" "\<not> locked l" and again: "\<And>me2 stack2 c2 pt2 l2.
        ncli c2 = 1 \<Longrightarrow> \<not> FL_IF c2 \<Longrightarrow> locked pt2 \<Longrightarrow> lk_cpu pt2 = Some me2 \<Longrightarrow> \<not> locked l2 \<Longrightarrow>
        \<exists>pt3 l3 c3 l4 c4. sleep_leave me2 stack2 True pt2 (Some l2) c2 = Inr (pt3, Some l3, c3) \<and> \<not> locked pt3 \<and>
           locked l3 \<and> lk_cpu l3 = Some me2 \<and> ncli c3 = 1 \<and> \<not> FL_IF c3 \<and>
           release me2 l3 c3 = Inr (l4, c4) \<and> ncli c4 = 0 \<and> FL_IF c4 = True" by auto
  from r again [of "\<lparr>ncli = 1, intena = False, FL_IF = False\<rparr>" "\<lparr>locked = True, lk_name = ''ptable'', lk_cpu = Some 1, pcs = []\<rparr>" 1
      "\<lparr>locked = False, lk_name = ''pipe'', lk_cpu = None, pcs = [0]\<rparr>" "[]"]
  show ?thesis by auto
qed

end
