(* ===== verification/Spec2Isabelle.thy ===== *)
theory Spec2Isabelle
  imports Boot_Properties App_Properties Xv6_Properties Fs_Properties Vm_Properties Proc_Properties
begin

text \<open>
  A verification library for UEFI-Game: boot managers, games and a loader that run as UEFI
  applications, and the xv6 kernel that one of them starts.

  \<^bold>\<open>The program.\<close> The directory \<open>src/Application\<close> holds five applications.
  \<^item> \<open>BootManager2D\<close> and \<open>BootManager3D\<close> read configuration files and textures from the partition they
    were started from (\<open>Config.c\<close>, \<open>BMPReader.c\<close>, \<open>FileSystems.c\<close>), place the boot entries on the
    escapes of a maze (\<open>PlaceBootEntries\<close>), let the player walk through it (\<open>DemoGame.c\<close>: from above, or
    with a ray caster) and start the loader of the entry that was reached (\<open>Main.c\<close>).
  \<^item> \<open>Wordle\<close> and \<open>Maze\<close> are stand-alone games that boot a fixed load option when they are won.
  \<^item> \<open>XV6\<close> loads the kernel image, leaves the boot services and jumps to the kernel. The kernel and its
    user programs are in \<open>XV6/data\<close>.

  \<^bold>\<open>Conventions.\<close> A C function is a HOL function of the same name. Its result is a sum: \<^term>\<open>Inl\<close> of a
  fault where C has no defined behaviour (an access outside an object, a null or indeterminate
  pointer, signed overflow), where the code panics, or where a call waits for ever; \<^term>\<open>Inr\<close> of
  the value otherwise, so that a theorem that a function returns \<^term>\<open>Inr\<close> excludes all of them.
  Integers have the width of the source (\<^typ>\<open>u8\<close> to \<^typ>\<open>u64\<close>), buffers are lists with checked access
  (\<^const>\<open>rd\<close>, \<^const>\<open>wr\<close>, \<^const>\<open>rdb\<close>, \<^const>\<open>wrb\<close>), counting loops are \<^const>\<open>loopE\<close>, other loops are recursive
  functions with a termination proof. A status code \<open>EFI_STATUS\<close> is a value, not a fault. The firmware,
  the EDK2 libraries and the arithmetic on \<open>double\<close> are not part of the repository: they are fields of
  the records \<open>fw\<close> (\<open>Uefi\<close>), \<open>app\<close> (\<open>App_Files\<close>), \<open>loader\<close> (\<open>Xv6_Loader\<close>) and \<open>fp\<close> (\<open>DemoGame3D\<close>), each over an
  abstract world that is passed through, and what a theorem needs of them is a named hypothesis
  (\<open>pool_ok\<close>, \<open>file_on\<close> and others) that the concrete firmware of \<open>Disk_Firmware\<close> is proved to meet.
  Keys are a list: a game that uses it up waits for a key (\<^const>\<open>Blocked\<close>).

  \<^bold>\<open>The boot managers.\<close>
  \<^item> \<open>Prelude\<close>, \<open>Uefi\<close>: the conventions above and the record of firmware calls. \<open>Table_Loops\<close>: rules for
    the double loops that fill images, maps and screens.
  \<^item> \<open>Common\<close>, \<open>Graphics\<close>, \<open>FileSystems\<close>, \<open>BMPReader\<close>, \<open>Config\<close>, \<open>MapConfig\<close>: the files of these names under
    \<open>BootManager2D/src\<close>; their lemmas say what each parser and decoder returns for every input of its
    format and on every error path.
  \<^item> \<open>Placement\<close>: the loop over the maze that both programs share, as a locale over the function that
    makes the texture of an entry, interpreted in \<open>DemoGame2D\<close> and in \<open>DemoGame3D\<close>.
  \<^item> \<open>DemoGame2D\<close>, \<open>BootMain2D\<close>, \<open>DemoGame3D\<close>, \<open>BootMain3D\<close>: the games and the main programs; the copies of
    the shared files in \<open>BootManager3D\<close> are mapped to the same definitions where the text is the same,
    and have definitions of their own where it differs. The loop that casts a ray has fuel for the
    number of cells of the maze; running out of it is the fault \<^const>\<open>Diverges\<close>.
  \<^item> \<open>Boot_Properties\<close> (C1 to C6, C8 to C11, C14, C16 to C19): the whole boot of a chosen entry, the indices the game can return,
    the placement, freedom from faults, and the error behaviour of parsers and readers.

  \<^bold>\<open>The other applications.\<close> \<open>App_Files\<close>, \<open>Wordle\<close>, \<open>Maze\<close>, \<open>Xv6_Loader\<close>, and \<open>App_Properties\<close> (C21 to C23, C25):
  replies and moves of the word game, walks in the maze, and the segments of the kernel in memory.

  \<^bold>\<open>The xv6 kernel.\<close>
  \<^item> \<open>Xv6_String\<close>, \<open>Xv6_Ulib\<close>, \<open>Xv6_Printint\<close>: \<open>string.c\<close>, \<open>ulib.c\<close>, \<open>printf.c\<close>, with the number printer of
    \<open>console.c\<close>.
  \<^item> \<open>Xv6_Spinlock\<close>: \<open>spinlock.c\<close>; \<open>lock_step\<close> interleaves the steps of several processors.
  \<^item> \<open>Xv6_Kalloc\<close>: \<open>kalloc.c\<close> on a memory of bytes, in which the free list is linked; the locale
    \<open>page_allocator\<close> is the contract with its clients.
  \<^item> \<open>Ring_Buffer\<close>, \<open>Xv6_Pipe\<close>, \<open>Xv6_Console\<close>, \<open>Xv6_Kbd\<close>: buffers with free-running counters (the locale
    \<open>bounded_queue\<close>), \<open>pipe.c\<close>, \<open>console.c\<close>, \<open>kbd.c\<close>. A call that sleeps ends a stretch of the run; other
    processes run between two stretches.
  \<^item> \<open>Xv6_Log\<close>: \<open>log.c\<close>. The list of the block writes makes a crash a prefix of it.
  \<^item> \<open>Xv6_Bio\<close>, \<open>Xv6_Cache\<close>: \<open>bio.c\<close>, \<open>sleeplock.c\<close>, \<open>memide.c\<close>. The ring of buffers has its two link fields;
    \<open>bio_step\<close> interleaves the sections of the operations that run under a lock. The searches are bounded
    by the number of buffers, which is shown to be enough.
  \<^item> \<open>Xv6_Fs\<close>, \<open>Xv6_Inode\<close>, \<open>Xv6_File\<close>: \<open>fs.c\<close> on the store that the log provides; the bitmap, the map from
    a file's block numbers to blocks, and the bytes of a file.
  \<^item> \<open>Xv6_Filetable\<close>: \<open>file.c\<close> and \<open>pipealloc\<close>; a write is a sequence of transactions that are committed.
  \<^item> \<open>Xv6_Vm\<close>, \<open>Xv6_Space\<close>, \<open>Xv6_Copy\<close>: \<open>vm.c\<close>. The page tables are words in pages of the allocator;
    \<open>space_ok\<close> and \<open>user_ok\<close> say which pages a page directory owns, and the lemmas frame every operation by
    whole pages. \<open>Vm_Properties\<close> (C20): the copy of an address space for \<open>fork\<close>.
  \<^item> \<open>Xv6_Proc\<close>: \<open>proc.c\<close>. What runs under \<open>ptable.lock\<close> is one function of the table, the files and the
    memory. \<open>Xv6_Sched\<close> is an abstract machine for states, process ids, parents and sleeping, with its
    invariant; \<open>Xv6_Life\<close> interleaves the critical sections on all processors (\<open>sys_step\<close>) and proves that
    they simulate the machine. \<open>Xv6_Fork\<close>: what a child has of its parent. \<open>Proc_Properties\<close> (C7, C12, C13,
    C15, C31): the table is consistent in every interleaving, no wakeup of \<open>wait\<close> is lost, \<open>fork\<close> copies a
    process or gives everything back, \<open>sleep\<close> keeps the locks and the interrupts, and \<open>kill\<close> of an id that only
    a free slot has.
  \<^item> \<open>Xv6_Properties\<close> (C26 to C30, C32 to C37) and \<open>Fs_Properties\<close> (C24, C38 to C40): atomicity of transactions, mutual
    exclusion, ownership of pages, queues, the line editor, coherence of the cache, and files as lists of
    bytes.

  \<^bold>\<open>Not modelled.\<close> Assembly and the code around it (boot code, traps, the switch of stacks), \<open>procdump\<close>, the parts of
  \<open>vm.c\<close> that load segment and control registers (\<open>seginit\<close>, \<open>kvmalloc\<close>, \<open>switchkvm\<close>, the end of \<open>switchuvm\<close>),
  device registers (\<open>lapic.c\<close>, \<open>ioapic.c\<close>, \<open>mp.c\<close>, \<open>uart.c\<close>, \<open>ide.c\<close>), the system calls on files
  (\<open>sysfile.c\<close>, \<open>exec.c\<close>), the user programs (\<open>sh.c\<close> and the small tools, which are loops over system calls,
  and \<open>usertests.c\<close>), the allocator \<open>umalloc.c\<close>, the image builder \<open>mkfs.c\<close> and the build files. The kernel's
  file system calls are modelled for one call at a time inside a transaction, over a cache that
  always has a buffer; the spin locks inside the kernel's calls are proved once, in \<open>Xv6_Spinlock\<close>, and
  a section under a lock is one step elsewhere.
\<close>

end
